(* ===== verification/OSRM_Prelude.thy ===== *)
theory OSRM_Prelude
  imports Complex_Main "HOL-Library.Multiset"
begin

text \<open>
  Shared vocabulary of the development: the integer aliases of
  \<^verbatim>\<open>custom-osrm/include/util/typedefs.hpp\<close>, the sentinel values, the theorem
  collections the component proofs share, and generic lemmas on lists and maps.

  Identifiers (\<^verbatim>\<open>NodeID\<close>, \<^verbatim>\<open>EdgeID\<close>: unsigned, 32 bits) are natural numbers.
  Weights and durations (signed, 32 bits) are integers: a signed overflow is undefined
  behaviour in C++, so the mathematical sum is what the code computes wherever it
  computes anything.  Distances (floats) are real numbers: rounding is not modelled.  Where an unsigned wrap-around is reachable it is written out, or the
  component works on words.
\<close>

type_synonym NodeID = nat
type_synonym EdgeID = nat
type_synonym EdgeWeight = int
type_synonym EdgeDuration = int
type_synonym EdgeDistance = real
type_synonym CellID = nat

definition SPECIAL_NODEID :: NodeID where
  "SPECIAL_NODEID = 4294967295"

definition SPECIAL_EDGEID :: EdgeID where
  "SPECIAL_EDGEID = 4294967295"

definition INVALID_EDGE_WEIGHT :: EdgeWeight where
  "INVALID_EDGE_WEIGHT = 2147483647"

definition MAXIMAL_EDGE_DURATION :: EdgeDuration where
  "MAXIMAL_EDGE_DURATION = 2147483647"

named_theorems queue_laws \<open>how the queries of the priority queue see each of its operations\<close>
named_theorems queue_inv \<open>the invariant of the priority queue is kept\<close>

lemma nth_list_update_if:
  "i < length xs \<Longrightarrow> (xs[i := x]) ! j = (if j = i then x else xs ! j)"
  by (auto simp: nth_list_update)

lemma nth_list_update_in:
  "j < length xs \<Longrightarrow> (xs[i := x]) ! j = (if i = j then x else xs ! j)"
  by (cases "i = j") auto

lemma map_upd_same_val: "m k = Some v \<Longrightarrow> m(k \<mapsto> v) = m"
  by auto

section \<open>Slices of a vector\<close>

definition slice :: "'a list \<Rightarrow> nat \<Rightarrow> nat \<Rightarrow> 'a list" where
  "slice xs b e = map ((!) xs) [b..<e]"

lemma length_slice [simp]: "length (slice xs b e) = e - b"
  by (simp add: slice_def)

lemma nth_slice [simp]: "i < e - b \<Longrightarrow> slice xs b e ! i = xs ! (b + i)"
  by (simp add: slice_def)

lemma set_slice: "set (slice xs b e) = (\<lambda>i. xs ! i) ` {b..<e}"
  by (simp add: slice_def)

lemma slice_cong: "(\<And>i. b \<le> i \<Longrightarrow> i < e \<Longrightarrow> xs ! i = ys ! i) \<Longrightarrow> slice xs b e = slice ys b e"
  by (simp add: slice_def)

lemma slice_Suc: "b \<le> e \<Longrightarrow> slice xs b (Suc e) = slice xs b e @ [xs ! e]"
  by (simp add: slice_def)

lemma slice_Cons: "b < e \<Longrightarrow> slice xs b e = xs ! b # slice xs (Suc b) e"
  by (simp add: slice_def upt_conv_Cons)

lemma slice_empty [simp]: "e \<le> b \<Longrightarrow> slice xs b e = []"
  by (simp add: slice_def)

lemma slice_eq_Nil_iff [simp]: "slice xs b e = [] \<longleftrightarrow> e \<le> b"
  by (auto simp: slice_def)

lemma last_slice: "b < e \<Longrightarrow> last (slice xs b e) = xs ! (e - 1)"
  by (subst last_conv_nth) auto

lemma slice_eq_take_drop: "e \<le> length xs \<Longrightarrow> slice xs b e = take (e - b) (drop b xs)"
  by (rule nth_equalityI) auto

lemma slice_append_drop: "b \<le> e \<Longrightarrow> e \<le> length xs \<Longrightarrow> take b xs @ slice xs b e @ drop e xs = xs"
  by (rule nth_equalityI) (auto simp: nth_append)

lemma slice_join: "b \<le> c \<Longrightarrow> c \<le> e \<Longrightarrow> slice xs b e = slice xs b c @ slice xs c e"
  by (rule nth_equalityI) (auto simp: nth_append add.commute)

lemma sorted_wrt_slice: "sorted_wrt R xs \<Longrightarrow> e \<le> length xs \<Longrightarrow> sorted_wrt R (slice xs b e)"
  unfolding sorted_wrt_iff_nth_less by simp

lemma in_slice: "x \<in> set (slice xs b e) \<longleftrightarrow> (\<exists>i. b \<le> i \<and> i < e \<and> x = xs ! i)"
  by (auto simp: set_slice)

lemma in_slice_offset: "x \<in> set (slice xs b e) \<longleftrightarrow> (\<exists>i < e - b. x = xs ! (b + i))"
  by (auto simp: in_set_conv_nth)

lemma distinct_map_slice:
  assumes "e \<le> length xs" "distinct (map f xs)"
  shows "distinct (map f (slice xs b e))"
proof -
  have "map f (slice xs b e) = map f (take (e - b) (drop b xs))" using assms(1) by (simp add: slice_eq_take_drop)
  also have "\<dots> = take (e - b) (drop b (map f xs))" by (simp add: take_map drop_map)
  finally show ?thesis using assms(2) by simp
qed

text \<open>Removing an element by overwriting it with the last one.\<close>

lemma add_mset_diff_single: "x \<in># M \<Longrightarrow> add_mset y (M - {#x#}) = add_mset y M - {#x#}"
  by (auto dest!: multi_member_split)

lemma mset_swap_last:
  assumes "i < length xs"
  shows "mset (butlast (xs[i := last xs])) = mset xs - {#xs ! i#}"
proof -
  obtain ys y where xs: "xs = ys @ [y]" using assms by (cases xs rule: rev_cases) auto
  show ?thesis
  proof (cases "i = length ys")
    case False
    with assms xs have i: "i < length ys" by simp
    have "mset (ys[i := y]) = add_mset y (mset ys - {#ys ! i#})" using i by (rule mset_update)
    also have "\<dots> = add_mset y (mset ys) - {#ys ! i#}"
      using i by (intro add_mset_diff_single) simp
    finally have eq: "mset (ys[i := y]) = add_mset y (mset ys) - {#ys ! i#}" .
    have "butlast (xs[i := last xs]) = ys[i := y]" "xs ! i = ys ! i"
      using i by (simp_all add: xs list_update_append1 nth_append)
    then show ?thesis by (simp add: eq xs del: mset_update)
  qed (simp add: xs)
qed

lemma mset_slice_swap_last:
  assumes "b \<le> i" "i < e" "\<And>j. b \<le> j \<Longrightarrow> j < e - 1 \<Longrightarrow> ys ! j = (if j = i then xs ! (e - 1) else xs ! j)"
  shows "mset (slice ys b (e - 1)) = mset (slice xs b e) - {#xs ! i#}"
proof -
  have "last (slice xs b e) = xs ! (e - 1)"
    using assms(1,2) by (subst last_conv_nth) (auto simp: slice_def)
  then have "slice ys b (e - 1) = butlast ((slice xs b e)[i - b := last (slice xs b e)])"
    using assms by (intro nth_equalityI) (auto simp: nth_butlast nth_list_update)
  with mset_swap_last [of "i - b" "slice xs b e"] assms(1,2) show ?thesis by simp
qed

section \<open>Sorted edge lists\<close>

text \<open>The number of leading elements with a key below \<open>k\<close>; in a sorted list the elements with
  key \<open>k\<close> are those between the counts of \<open>k\<close> and \<open>Suc k\<close>.\<close>

definition key_count :: "('e \<Rightarrow> nat) \<Rightarrow> 'e list \<Rightarrow> nat \<Rightarrow> nat" where
  "key_count key es k = length (takeWhile (\<lambda>e. key e < k) es)"

lemma key_count_le: "key_count key es k \<le> length es"
  by (simp add: key_count_def length_takeWhile_le)

lemma key_count_0 [simp]: "key_count key es 0 = 0"
  by (cases es) (simp_all add: key_count_def)

lemma key_count_iff:
  assumes "sorted (map key es)" "i < length es"
  shows "i < key_count key es k \<longleftrightarrow> key (es ! i) < k"
proof
  assume "i < key_count key es k"
  then show "key (es ! i) < k"
    unfolding key_count_def by (metis nth_mem set_takeWhileD takeWhile_nth)
next
  assume k: "key (es ! i) < k"
  show "i < key_count key es k"
  proof (rule ccontr)
    assume "\<not> i < key_count key es k"
    then have le: "length (takeWhile (\<lambda>e. key e < k) es) \<le> i" by (simp add: key_count_def)
    then have "\<not> key (es ! length (takeWhile (\<lambda>e. key e < k) es)) < k"
      using assms(2) nth_length_takeWhile [of "\<lambda>e. key e < k" es] by simp
    moreover have "key (es ! length (takeWhile (\<lambda>e. key e < k) es)) \<le> key (es ! i)"
      using sorted_nth_mono [OF assms(1), of _ i] le assms(2) by simp
    ultimately show False using k by simp
  qed
qed

lemma key_count_mono: "j \<le> k \<Longrightarrow> key_count key es j \<le> key_count key es k"
  unfolding key_count_def
  by (induction es) (auto simp: )

lemma key_count_all: "(\<And>e. e \<in> set es \<Longrightarrow> key e < k) \<Longrightarrow> key_count key es k = length es"
  by (simp add: key_count_def takeWhile_eq_all_conv [THEN iffD2])

lemma slice_key_count:
  assumes "sorted (map key es)"
  shows "slice es (key_count key es k) (key_count key es (Suc k)) = filter (\<lambda>e. key e = k) es"
  using assms
proof (induction es)
  case (Cons e es)
  have s: "sorted (map key es)" "\<forall>x \<in> set es. key e \<le> key x" using Cons.prems by auto
  have shift: "slice (e # es) (Suc b) (Suc c) = slice es b c" for b c
    by (simp add: slice_def map_Suc_upt [symmetric] del: map_Suc_upt upt_Suc)
  have sl0: "slice (e # es) 0 (Suc c) = e # slice es 0 c" for c
    by (simp add: slice_Cons shift)
  consider "key e < k" | "key e = k" | "k < key e" by linarith
  then show ?case
  proof cases
    case 1
    then show ?thesis using Cons.IH [OF s(1)] by (simp add: key_count_def shift)
  next
    case 2
    then have "key_count key es k = 0" using s(2) by (cases es) (auto simp: key_count_def)
    with 2 show ?thesis using Cons.IH [OF s(1)] by (simp add: key_count_def sl0)
  next
    case 3
    then have "filter (\<lambda>e. key e = k) (e # es) = []" using s(2) by (auto simp: filter_empty_conv)
    with 3 show ?thesis by (simp add: key_count_def)
  qed
qed (simp add: key_count_def slice_def)

text \<open>The scan both graphs use: skip the elements with key \<open>k\<close>.\<close>

function skip_key :: "('e \<Rightarrow> nat) \<Rightarrow> 'e list \<Rightarrow> nat \<Rightarrow> nat \<Rightarrow> nat" where
  "skip_key key es k i =
     (if i < length es \<and> key (es ! i) = k then skip_key key es k (Suc i) else i)"
  by pat_completeness auto
termination
  by (relation "measure (\<lambda>(key, es, k, i). length es - i)") auto

declare skip_key.simps [simp del]

lemma skip_key_count:
  assumes "sorted (map key es)"
  shows "key_count key es k \<le> i \<Longrightarrow> i \<le> key_count key es (Suc k) \<Longrightarrow>
    skip_key key es k i = key_count key es (Suc k)"
proof (induction "key_count key es (Suc k) - i" arbitrary: i)
  case 0
  then have "i = key_count key es (Suc k)" by simp
  moreover have "\<not> (i < length es \<and> key (es ! i) = k)"
    using key_count_iff [OF assms, of i "Suc k"] calculation by auto
  ultimately show ?case by (subst skip_key.simps) auto
next
  case (Suc d)
  then have lt: "i < key_count key es (Suc k)" by simp
  with key_count_le [of key es "Suc k"] have "i < length es" by simp
  moreover have "key (es ! i) = k"
    using key_count_iff [OF assms calculation, of "Suc k"] key_count_iff [OF assms calculation, of k]
      lt Suc.prems by auto
  ultimately show ?case using Suc by (subst skip_key.simps) auto
qed

lemma sorted_distinct_remdups_adj: "sorted xs \<Longrightarrow> distinct (remdups_adj xs)"
  by (induction xs rule: remdups_adj.induct) (auto simp: order.order_iff_strict)

text \<open>The run of equal keys at the head of a sorted list.\<close>

lemma key_run:
  fixes key :: "'a \<Rightarrow> 'k :: linorder"
  assumes "sorted (map key (x # xs))"
  shows "filter (\<lambda>y. key y = key x) (x # xs) = x # takeWhile (\<lambda>y. key y = key x) xs"
    and "k \<noteq> key x \<Longrightarrow> filter (\<lambda>y. key y = k) (x # xs) = filter (\<lambda>y. key y = k) (dropWhile (\<lambda>y. key y = key x) xs)"
    and "key x \<notin> key ` set (dropWhile (\<lambda>y. key y = key x) xs)"
    and "sorted (map key (dropWhile (\<lambda>y. key y = key x) xs))"
proof -
  let ?t = "takeWhile (\<lambda>y. key y = key x) xs" and ?d = "dropWhile (\<lambda>y. key y = key x) xs"
  have split: "xs = ?t @ ?d" by simp
  have t: "key y = key x" if "y \<in> set ?t" for y using that by (auto dest: set_takeWhileD)
  show srt: "sorted (map key ?d)" using assms split by (metis list.simps(9) map_append sorted_append sorted_simps(2))
  show d: "key x \<notin> key ` set ?d"
  proof
    assume "key x \<in> key ` set ?d"
    then obtain y ys where y: "?d = y # ys" by (cases ?d) auto
    then have "key y \<noteq> key x" using hd_dropWhile [of "\<lambda>y. key y = key x" xs] by auto
    moreover have "y \<in> set xs" using y set_dropWhileD [of y _ xs] by (metis list.set_intros(1))
    then have "key x \<le> key y" using assms by auto
    moreover have "\<forall>z \<in> set ?d. key y \<le> key z" using srt y by auto
    ultimately show False using \<open>key x \<in> key ` set ?d\<close> by fastforce
  qed
  have flt: "filter Q xs = filter Q ?t @ filter Q ?d" for Q by (simp flip: filter_append)
  have "filter (\<lambda>y. key y = key x) ?t = ?t" by (intro filter_True ballI t)
  moreover have "filter (\<lambda>y. key y = key x) ?d = []" unfolding filter_empty_conv using d by (metis imageI)
  ultimately show "filter (\<lambda>y. key y = key x) (x # xs) = x # ?t" by (simp add: flt)
  show "filter (\<lambda>y. key y = k) (x # xs) = filter (\<lambda>y. key y = k) ?d" if "k \<noteq> key x"
  proof -
    have "filter (\<lambda>y. key y = k) ?t = []" unfolding filter_empty_conv using t that by metis
    then show ?thesis using that by (simp add: flt)
  qed
qed

section \<open>Searching a range\<close>

text \<open>The first minimum of a range among the elements that pass a test, as a running minimum.\<close>

definition min_scan :: "(nat \<Rightarrow> bool) \<Rightarrow> (nat \<Rightarrow> int) \<Rightarrow> nat list \<Rightarrow> nat \<times> int \<Rightarrow> nat \<times> int" where
  "min_scan ok w is s0 = foldl (\<lambda>(s, sw) i. if ok i \<and> w i < sw then (i, w i) else (s, sw)) s0 is"

lemma min_scan_spec:
  assumes "min_scan ok w is (s0, w0) = (s, sw)"
  shows "(s, sw) = (s0, w0) \<or> s \<in> set is \<and> ok s \<and> sw = w s \<and> sw < w0"
    and "\<forall>i \<in> set is. ok i \<longrightarrow> sw \<le> w i \<or> w0 \<le> w i" and "sw \<le> w0"
  using assms
proof (atomize (full), induction "is" arbitrary: s0 w0)
  case Nil
  then show ?case by (simp add: min_scan_def)
next
  case (Cons i "is")
  then have "min_scan ok w is (if ok i \<and> w i < w0 then (i, w i) else (s0, w0)) = (s, sw)"
    by (simp add: min_scan_def)
  with Cons.IH show ?case by (fastforce split: if_splits)
qed

lemma all_less_Suc_split: "(\<forall>i < Suc n. P i) \<longleftrightarrow> P 0 \<and> (\<forall>i < n. P (Suc i))"
  using less_Suc_eq_0_disj by auto

lemma slice_middle: "slice (xs @ ys @ zs) (length xs) (length xs + length ys) = ys"
  by (rule nth_equalityI) (auto simp: nth_append)

section \<open>Sorting with a comparator\<close>

type_synonym 'a comparator = "'a \<Rightarrow> 'a \<Rightarrow> bool"

definition strict_weak :: "'a comparator \<Rightarrow> bool" where
  "strict_weak cmp \<longleftrightarrow> (\<forall>x y. cmp x y \<longrightarrow> \<not> cmp y x) \<and> (\<forall>x y z. cmp x z \<longrightarrow> cmp x y \<or> cmp y z)"

lemma strict_weak_key: "strict_weak (\<lambda>l r. (f l :: 'b :: linorder) < f r)"
  unfolding strict_weak_def by force

text \<open>What the library guarantees of a sort that need not be stable; sorting by insertion meets it.\<close>

definition sort_ok :: "('a comparator \<Rightarrow> 'a list \<Rightarrow> 'a list) \<Rightarrow> bool" where
  "sort_ok srt \<longleftrightarrow> (\<forall>cmp xs. strict_weak cmp \<longrightarrow> mset (srt cmp xs) = mset xs \<and> sorted_wrt (\<lambda>a b. \<not> cmp b a) (srt cmp xs))"

fun cmp_insort :: "'a comparator \<Rightarrow> 'a \<Rightarrow> 'a list \<Rightarrow> 'a list" where
  "cmp_insort cmp x [] = [x]"
| "cmp_insort cmp x (y # ys) = (if cmp y x then y # cmp_insort cmp x ys else x # y # ys)"

lemma mset_cmp_insort [simp]: "mset (cmp_insort cmp x ys) = add_mset x (mset ys)"
  by (induction ys) auto

lemma set_cmp_insort: "set (cmp_insort cmp x ys) = insert x (set ys)"
  by (induction ys) auto

lemma sorted_cmp_insort:
  assumes "strict_weak cmp"
  shows "sorted_wrt (\<lambda>a b. \<not> cmp b a) ys \<Longrightarrow> sorted_wrt (\<lambda>a b. \<not> cmp b a) (cmp_insort cmp x ys)"
proof (induction ys)
  case (Cons y ys)
  have asym: "cmp y x \<Longrightarrow> \<not> cmp x y" and trans: "cmp z x \<Longrightarrow> cmp z y \<or> cmp y x" for z
    using assms unfolding strict_weak_def by blast+
  show ?case
  proof (cases "cmp y x")
    case True
    then show ?thesis using Cons asym by (simp add: set_cmp_insort)
  next
    case False
    then show ?thesis using Cons.prems trans by auto
  qed
qed simp

definition insertion_sort :: "'a comparator \<Rightarrow> 'a list \<Rightarrow> 'a list" where
  "insertion_sort cmp xs = foldr (cmp_insort cmp) xs []"

lemma insertion_sort_ok: "sort_ok insertion_sort"
  unfolding sort_ok_def
proof (intro allI impI)
  fix cmp :: "'a comparator" and xs assume sw: "strict_weak cmp"
  show "mset (insertion_sort cmp xs) = mset xs \<and> sorted_wrt (\<lambda>a b. \<not> cmp b a) (insertion_sort cmp xs)"
    unfolding insertion_sort_def by (induction xs) (simp_all add: sorted_cmp_insort [OF sw])
qed

section \<open>Loops that may fail\<close>

fun fold_option :: "('a \<Rightarrow> 's \<Rightarrow> 's option) \<Rightarrow> 'a list \<Rightarrow> 's \<Rightarrow> 's option" where
  "fold_option f [] s = Some s"
| "fold_option f (x # xs) s = Option.bind (f x s) (fold_option f xs)"

text \<open>An invariant over the elements that are done.\<close>

lemma fold_option_inv:
  assumes "\<And>xs x ys s. zs = xs @ x # ys \<Longrightarrow> I xs s \<Longrightarrow> \<exists>s'. f x s = Some s' \<and> I (xs @ [x]) s'"
  shows "zs = xs @ ys \<Longrightarrow> I xs s \<Longrightarrow> \<exists>s'. fold_option f ys s = Some s' \<and> I zs s'"
proof (induction ys arbitrary: xs s)
  case (Cons y ys)
  obtain s1 where "f y s = Some s1" "I (xs @ [y]) s1" using assms [OF Cons.prems] by blast
  then show ?case using Cons.IH [of "xs @ [y]" s1] Cons.prems(1) by simp
qed simp

end
