(* ===== verification/QueryHeap.thy ===== *)
theory QueryHeap
  imports OSRM_Prelude
begin

text \<open>
  The addressable priority queue of every search,
  \<^verbatim>\<open>custom-osrm/include/util/query_heap.hpp\<close>.

  A queue keeps the vector \<^verbatim>\<open>inserted_nodes\<close> of everything inserted since the last
  \<^verbatim>\<open>Clear\<close>, a heap of (weight, index) pairs, and an index storage that maps a node to its
  position in the vector.  Two of the parts are template parameters or library code and are
  arguments of the model: the index storage (\<open>S\<close>, three of the storages of the source are
  given below) and the heap container (\<open>H\<close>), a \<^verbatim>\<open>boost::heap::d_ary_heap\<close> with stable
  handles, which is not part of the repository.
\<close>

section \<open>Index storages\<close>

text \<open>The operations a template argument \<^verbatim>\<open>IndexStorage\<close> provides: assignment through
  \<^verbatim>\<open>operator[]\<close>, \<^verbatim>\<open>peek_index\<close> and \<^verbatim>\<open>Clear\<close>.\<close>

record 's index_ops =
  ix_put :: "'s \<Rightarrow> NodeID \<Rightarrow> nat \<Rightarrow> 's"
  ix_peek :: "'s \<Rightarrow> NodeID \<Rightarrow> nat"
  ix_clear :: "'s \<Rightarrow> 's"

text \<open>\<^verbatim>\<open>ArrayStorage\<close>: a vector of positions, never cleared.\<close>

definition ArrayStorage_init :: "nat \<Rightarrow> nat list" where
  "ArrayStorage_init n = replicate n 0"

definition ArrayStorage :: "nat list index_ops" where
  "ArrayStorage = \<lparr>ix_put = (\<lambda>positions node key. positions[node := key]),
     ix_peek = (\<lambda>positions node. positions ! node),
     ix_clear = (\<lambda>positions. positions)\<rparr>"

text \<open>\<^verbatim>\<open>UnorderedMapStorage\<close>: a hash map; a missing node reads as the largest key.\<close>

definition UnorderedMapStorage :: "nat \<Rightarrow> (NodeID \<rightharpoonup> nat) index_ops" where
  "UnorderedMapStorage key_max = \<lparr>ix_put = (\<lambda>nodes node key. nodes(node \<mapsto> key)),
     ix_peek = (\<lambda>nodes node. (case nodes node of Some key \<Rightarrow> key | None \<Rightarrow> key_max)),
     ix_clear = (\<lambda>nodes. Map.empty)\<rparr>"

text \<open>\<^verbatim>\<open>TwoLevelStorage\<close>: nodes below \<^verbatim>\<open>number_of_overlay_nodes\<close> live in the overlay
  storage, all others in the base storage.\<close>

definition TwoLevelStorage ::
  "nat \<Rightarrow> 'b index_ops \<Rightarrow> 'o index_ops \<Rightarrow> ('b \<times> 'o) index_ops" where
  "TwoLevelStorage number_of_overlay_nodes base overlay =
     \<lparr>ix_put = (\<lambda>(b, ov) node key.
        if node < number_of_overlay_nodes then (b, ix_put overlay ov node key)
        else (ix_put base b node key, ov)),
      ix_peek = (\<lambda>(b, ov) node.
        if node < number_of_overlay_nodes then ix_peek overlay ov node
        else ix_peek base b node),
      ix_clear = (\<lambda>(b, ov). (ix_clear base b, ix_clear overlay ov))\<rparr>"

text \<open>What the queue relies on: a stored key is read back, and storing the key of another
  node of the universe \<open>V\<close> keeps the keys of the nodes stored before (\<open>live\<close>).\<close>

locale index_storage =
  fixes S :: "'s index_ops"
    and V :: "NodeID set"
    and ixok :: "'s \<Rightarrow> bool"
    and live :: "'s \<Rightarrow> NodeID set"
  assumes ixok_put: "ixok s \<Longrightarrow> n \<in> V \<Longrightarrow> ixok (ix_put S s n i)"
    and ixok_clear: "ixok s \<Longrightarrow> ixok (ix_clear S s)"
    and peek_put: "ixok s \<Longrightarrow> n \<in> V \<Longrightarrow> ix_peek S (ix_put S s n i) n = i"
    and peek_put_other:
      "ixok s \<Longrightarrow> n \<in> V \<Longrightarrow> m \<in> live s \<Longrightarrow> m \<noteq> n \<Longrightarrow>
       ix_peek S (ix_put S s n i) m = ix_peek S s m"
    and live_put: "ixok s \<Longrightarrow> n \<in> V \<Longrightarrow> insert n (live s) \<subseteq> live (ix_put S s n i)"

interpretation array_ix: index_storage ArrayStorage "{..<sz}" "\<lambda>s. length s = sz"
  "\<lambda>s. {..<sz}" for sz
  by unfold_locales (auto simp: ArrayStorage_def)

interpretation umap_ix: index_storage "UnorderedMapStorage key_max" UNIV "\<lambda>_. True" dom
  for key_max
  by unfold_locales (auto simp: UnorderedMapStorage_def)

text \<open>A two-level storage over two storages that keep the contract keeps it.\<close>

locale two_index_storages =
  base: index_storage B VB ixokB liveB + overlay: index_storage Ov VO ixokO liveO
  for B :: "'b index_ops" and VB ixokB liveB and Ov :: "'o index_ops" and VO ixokO liveO +
  fixes number_of_overlay_nodes :: nat

sublocale two_index_storages \<subseteq> index_storage
  "TwoLevelStorage number_of_overlay_nodes B Ov"
  "{n. if n < number_of_overlay_nodes then n \<in> VO else n \<in> VB}"
  "\<lambda>(b, ov). ixokB b \<and> ixokO ov"
  "\<lambda>(b, ov). {n. if n < number_of_overlay_nodes then n \<in> liveO ov else n \<in> liveB b}"
proof unfold_locales
  fix s :: "'b \<times> 'o" and n m i
  assume "case s of (b, ov) \<Rightarrow> ixokB b \<and> ixokO ov"
    "n \<in> {n. if n < number_of_overlay_nodes then n \<in> VO else n \<in> VB}"
  then show
    "insert n (case s of (b, ov) \<Rightarrow>
        {n. if n < number_of_overlay_nodes then n \<in> liveO ov else n \<in> liveB b})
      \<subseteq> (case ix_put (TwoLevelStorage number_of_overlay_nodes B Ov) s n i of (b, ov) \<Rightarrow>
        {n. if n < number_of_overlay_nodes then n \<in> liveO ov else n \<in> liveB b})"
    using base.live_put [of "fst s" n i] overlay.live_put [of "snd s" n i]
    by (cases s) (auto simp: TwoLevelStorage_def split: if_splits)
qed (auto simp: TwoLevelStorage_def base.ixok_put overlay.ixok_put base.ixok_clear overlay.ixok_clear
      base.peek_put overlay.peek_put base.peek_put_other overlay.peek_put_other
      split: if_splits)

interpretation two_level_ix: two_index_storages
  "UnorderedMapStorage key_max" UNIV "\<lambda>_. True" dom
  ArrayStorage "{..<overlay_size}" "\<lambda>s. length s = overlay_size" "\<lambda>s. {..<overlay_size}"
  overlay_size for key_max overlay_size
  by unfold_locales

section \<open>The heap container\<close>

text \<open>\<^verbatim>\<open>HeapData\<close> and its \<^verbatim>\<open>operator>\<close>: by weight, ties by index.\<close>

record HeapData =
  hd_weight :: EdgeWeight
  hd_index :: nat

definition hd_greater :: "HeapData \<Rightarrow> HeapData \<Rightarrow> bool" where
  "hd_greater a b =
     (if hd_weight a = hd_weight b then hd_index a > hd_index b
      else hd_weight a > hd_weight b)"

text \<open>The operations of the mutable heap the queue uses.  A handle is a number; the end
  iterator, which the code stores as the handle of a removed node, is \<open>None\<close> below.\<close>

record 'h heap_ops =
  dh_clear :: "'h \<Rightarrow> 'h"
  dh_size :: "'h \<Rightarrow> nat"
  dh_emplace :: "'h \<Rightarrow> HeapData \<Rightarrow> 'h \<times> nat"
  dh_top :: "'h \<Rightarrow> HeapData"
  dh_pop :: "'h \<Rightarrow> 'h"
  dh_increase :: "'h \<Rightarrow> nat \<Rightarrow> HeapData \<Rightarrow> 'h"
  dh_deref :: "'h \<Rightarrow> nat \<Rightarrow> HeapData"

text \<open>The documented behaviour of the container: its content is a finite map from handles
  to elements, \<^verbatim>\<open>top\<close> is an element no other element precedes, \<^verbatim>\<open>pop\<close> removes it,
  \<^verbatim>\<open>emplace\<close> adds an element under a fresh handle, \<^verbatim>\<open>increase\<close> replaces the element of a
  handle by one that is not lower in priority.\<close>

locale d_ary_heap =
  fixes H :: "'h heap_ops"
    and content :: "'h \<Rightarrow> (nat \<rightharpoonup> HeapData)"
    and hok :: "'h \<Rightarrow> bool"
  assumes finite_content: "hok h \<Longrightarrow> finite (dom (content h))"
    and size_content: "hok h \<Longrightarrow> dh_size H h = card (dom (content h))"
    and clear_content: "hok h \<Longrightarrow> hok (dh_clear H h) \<and> content (dh_clear H h) = Map.empty"
    and emplace_content:
      "hok h \<Longrightarrow> dh_emplace H h d = (h', k) \<Longrightarrow>
       hok h' \<and> content h k = None \<and> content h' = (content h)(k \<mapsto> d)"
    and top_content:
      "hok h \<Longrightarrow> content h \<noteq> Map.empty \<Longrightarrow> content h k = Some d \<Longrightarrow>
       \<not> hd_greater (dh_top H h) d"
    and pop_content:
      "hok h \<Longrightarrow> content h \<noteq> Map.empty \<Longrightarrow>
       hok (dh_pop H h) \<and>
       (\<exists>k. content h k = Some (dh_top H h) \<and> content (dh_pop H h) = (content h)(k := None))"
    and increase_content:
      "hok h \<Longrightarrow> content h k = Some d \<Longrightarrow> \<not> hd_greater d' d \<Longrightarrow>
       hok (dh_increase H h k d') \<and> content (dh_increase H h k d') = (content h)(k \<mapsto> d')"
    and deref_content: "hok h \<Longrightarrow> content h k = Some d \<Longrightarrow> dh_deref H h k = d"

text \<open>A list of the elements with their handles is an instance.\<close>

type_synonym ref_heap = "(nat \<times> HeapData) list \<times> nat"

fun ref_min :: "HeapData \<Rightarrow> (nat \<times> HeapData) list \<Rightarrow> HeapData" where
  "ref_min d [] = d"
| "ref_min d ((k, e) # xs) = ref_min (if hd_greater d e then e else d) xs"

definition ref_top :: "ref_heap \<Rightarrow> HeapData" where
  "ref_top h = (case fst h of [] \<Rightarrow> \<lparr>hd_weight = 0, hd_index = 0\<rparr> | (k, d) # xs \<Rightarrow> ref_min d xs)"

fun ref_remove :: "HeapData \<Rightarrow> (nat \<times> HeapData) list \<Rightarrow> (nat \<times> HeapData) list" where
  "ref_remove d [] = []"
| "ref_remove d ((k, e) # xs) = (if e = d then xs else (k, e) # ref_remove d xs)"

definition ref_heap_ops :: "ref_heap heap_ops" where
  "ref_heap_ops = \<lparr>dh_clear = (\<lambda>h. ([], snd h)), dh_size = (\<lambda>h. length (fst h)),
     dh_emplace = (\<lambda>h d. ((fst h @ [(snd h, d)], Suc (snd h)), snd h)),
     dh_top = ref_top,
     dh_pop = (\<lambda>h. (ref_remove (ref_top h) (fst h), snd h)),
     dh_increase = (\<lambda>h k d. (map (\<lambda>(k', e). if k' = k then (k', d) else (k', e)) (fst h), snd h)),
     dh_deref = (\<lambda>h k. the (map_of (fst h) k))\<rparr>"

definition ref_content :: "ref_heap \<Rightarrow> (nat \<rightharpoonup> HeapData)" where
  "ref_content h = map_of (fst h)"

definition ref_ok :: "ref_heap \<Rightarrow> bool" where
  "ref_ok h \<longleftrightarrow> distinct (map fst (fst h)) \<and> (\<forall>k \<in> set (map fst (fst h)). k < snd h)"

definition ref_empty :: ref_heap where
  "ref_empty = ([], 0)"

lemma hd_greater_irrefl: "\<not> hd_greater d d"
  by (simp add: hd_greater_def)

lemma hd_greater_trans: "\<not> hd_greater a b \<Longrightarrow> \<not> hd_greater b c \<Longrightarrow> \<not> hd_greater a c"
  by (auto simp: hd_greater_def split: if_splits)

lemma hd_greater_asym: "hd_greater a b \<Longrightarrow> \<not> hd_greater b a"
  by (auto simp: hd_greater_def split: if_splits)

lemma ref_min_in: "ref_min d xs \<in> insert d (snd ` set xs)"
  by (induction d xs rule: ref_min.induct) (auto split: if_splits)

lemma hd_greater_trans': "hd_greater a b \<Longrightarrow> hd_greater b c \<Longrightarrow> hd_greater a c"
  by (auto simp: hd_greater_def split: if_splits)

lemma ref_min_le_start: "\<not> hd_greater (ref_min d xs) d"
proof (induction d xs rule: ref_min.induct)
  case (2 d k e xs)
  then show ?case
    by (auto simp: hd_greater_irrefl split: if_splits dest: hd_greater_trans')
qed (simp add: hd_greater_irrefl)

lemma ref_min_le: "e \<in> snd ` set xs \<Longrightarrow> \<not> hd_greater (ref_min d xs) e"
proof (induction d xs rule: ref_min.induct)
  case (2 d k f xs)
  let ?d = "if hd_greater d f then f else d"
  have "\<not> hd_greater (ref_min ?d xs) ?d" by (rule ref_min_le_start)
  moreover have "\<not> hd_greater ?d f" by (simp add: hd_greater_irrefl)
  ultimately have "\<not> hd_greater (ref_min ?d xs) f" by (rule hd_greater_trans)
  with "2" show ?case by (cases "e = f") auto
qed simp

lemma map_of_update_value:
  "map_of (map (\<lambda>(k', e). if k' = k then (k', d) else (k', e)) xs) =
   (if k \<in> fst ` set xs then (map_of xs)(k \<mapsto> d) else map_of xs)"
  by (induction xs) (auto simp: fun_eq_iff)

lemma map_fst_update_value:
  "map fst (map (\<lambda>(k', e). if k' = k then (k', d) else (k', e)) xs) = map fst xs"
  by (induction xs) auto

lemma map_of_snoc: "k \<notin> fst ` set xs \<Longrightarrow> map_of (xs @ [(k, d)]) = (map_of xs)(k \<mapsto> d)"
  by (induction xs) auto

lemma ref_remove_subset: "set (ref_remove d xs) \<subseteq> set xs"
  by (induction d xs rule: ref_remove.induct) auto

lemma ref_remove_distinct:
  "distinct (map fst xs) \<Longrightarrow> distinct (map fst (ref_remove d xs))"
proof (induction d xs rule: ref_remove.induct)
  case (2 d k e xs)
  then show ?case
    using ref_remove_subset [of d xs] by (auto simp: image_iff)
qed simp

lemma map_of_ref_remove:
  "distinct (map fst xs) \<Longrightarrow> d \<in> snd ` set xs \<Longrightarrow>
   \<exists>k. map_of xs k = Some d \<and> map_of (ref_remove d xs) = (map_of xs)(k := None)"
proof (induction d xs rule: ref_remove.induct)
  case (2 d k e xs)
  show ?case
  proof (cases "e = d")
    case True
    have "map_of xs k = None"
      using "2.prems" by (auto simp: map_of_eq_None_iff)
    then have "map_of xs = (map_of ((k, e) # xs))(k := None)"
      by (auto simp: fun_eq_iff)
    moreover have "ref_remove d ((k, e) # xs) = xs" using True by simp
    ultimately show ?thesis using True by (intro exI [of _ k]) (simp del: map_of.simps fun_upd_apply, simp)
  next
    case False
    with "2.prems" have "distinct (map fst xs)" "d \<in> snd ` set xs" by auto
    from "2.IH" [OF False this] obtain k' where k': "map_of xs k' = Some d"
      "map_of (ref_remove d xs) = (map_of xs)(k' := None)" by blast
    then have "k' \<in> fst ` set xs" by (force dest: map_of_SomeD)
    then have "k' \<noteq> k" using "2.prems" by auto
    with False k' show ?thesis
      by (intro exI [of _ k']) (auto simp: fun_eq_iff)
  qed
qed simp

lemma ref_top_in: "fst h \<noteq> [] \<Longrightarrow> ref_top h \<in> snd ` set (fst h)"
  using ref_min_in by (fastforce simp: ref_top_def split: list.splits)

lemma ref_top_le: "fst h \<noteq> [] \<Longrightarrow> d \<in> snd ` set (fst h) \<Longrightarrow> \<not> hd_greater (ref_top h) d"
  using ref_min_le ref_min_le_start by (fastforce simp: ref_top_def split: list.splits)

interpretation ref: d_ary_heap ref_heap_ops ref_content ref_ok
proof unfold_locales
  fix h :: ref_heap and k d d'
  assume ok: "ref_ok h"
  show "finite (dom (ref_content h))"
    by (simp add: ref_content_def finite_dom_map_of)
  show "dh_size ref_heap_ops h = card (dom (ref_content h))"
    using ok distinct_card [of "map fst (fst h)"]
    by (simp add: ref_heap_ops_def ref_content_def dom_map_of_conv_image_fst ref_ok_def)
  show "ref_ok (dh_clear ref_heap_ops h) \<and> ref_content (dh_clear ref_heap_ops h) = Map.empty"
    by (simp add: ref_ok_def ref_heap_ops_def ref_content_def)
  {
    fix h' assume "dh_emplace ref_heap_ops h d = (h', k)"
    then have h': "h' = (fst h @ [(snd h, d)], Suc (snd h))" and k: "k = snd h"
      by (auto simp: ref_heap_ops_def)
    have "snd h \<notin> fst ` set (fst h)"
      using ok by (auto simp: ref_ok_def)
    moreover have "map_of (fst h @ [(snd h, d)]) = (map_of (fst h))(snd h \<mapsto> d)"
      using calculation by (rule map_of_snoc)
    ultimately show "ref_ok h' \<and> ref_content h k = None \<and> ref_content h' = (ref_content h)(k \<mapsto> d)"
      using ok unfolding h' k
      by (auto simp: ref_ok_def ref_content_def map_of_eq_None_iff less_Suc_eq)
  }
  {
    assume "ref_content h \<noteq> Map.empty"
    then have ne: "fst h \<noteq> []" by (auto simp: ref_content_def)
    {
      assume "ref_content h k = Some d"
      then show "\<not> hd_greater (dh_top ref_heap_ops h) d"
        using ref_top_le [OF ne] by (force simp: ref_heap_ops_def ref_content_def dest: map_of_SomeD)
    }
    show "ref_ok (dh_pop ref_heap_ops h) \<and>
      (\<exists>k. ref_content h k = Some (dh_top ref_heap_ops h) \<and>
           ref_content (dh_pop ref_heap_ops h) = (ref_content h)(k := None))"
      using ok ref_top_in [OF ne] ref_remove_subset [of "ref_top h" "fst h"]
        map_of_ref_remove [of "fst h" "ref_top h"]
      by (auto simp: ref_ok_def ref_heap_ops_def ref_content_def ref_remove_distinct)
  }
  {
    assume "ref_content h k = Some d"
    then have "k \<in> fst ` set (fst h)"
      by (force simp: ref_content_def dest: map_of_SomeD)
    then show "ref_ok (dh_increase ref_heap_ops h k d') \<and>
       ref_content (dh_increase ref_heap_ops h k d') = (ref_content h)(k \<mapsto> d')"
      using ok map_fst_update_value [of k d' "fst h"]
      by (simp add: ref_heap_ops_def ref_content_def map_of_update_value ref_ok_def
          del: set_map map_map list.map_comp)
    show "dh_deref ref_heap_ops h k = d"
      using \<open>ref_content h k = Some d\<close> by (simp add: ref_heap_ops_def ref_content_def)
  }
qed

section \<open>The queue\<close>

record 'd HeapNode =
  hn_handle :: "nat option"
  hn_node :: NodeID
  hn_weight :: EdgeWeight
  hn_data :: 'd

record ('h, 's, 'd) QueryHeap =
  inserted_nodes :: "'d HeapNode list"
  heap :: 'h
  node_index :: 's

definition qh_clear ::
  "'h heap_ops \<Rightarrow> 's index_ops \<Rightarrow> ('h, 's, 'd) QueryHeap \<Rightarrow> ('h, 's, 'd) QueryHeap" where
  "qh_clear H S q = q\<lparr>heap := dh_clear H (heap q), inserted_nodes := [],
     node_index := ix_clear S (node_index q)\<rparr>"

definition qh_init :: "'h heap_ops \<Rightarrow> 's index_ops \<Rightarrow> 'h \<Rightarrow> 's \<Rightarrow> ('h, 's, 'd) QueryHeap" where
  "qh_init H S h s = qh_clear H S \<lparr>inserted_nodes = [], heap = h, node_index = s\<rparr>"

definition qh_size :: "'h heap_ops \<Rightarrow> ('h, 's, 'd) QueryHeap \<Rightarrow> nat" where
  "qh_size H q = dh_size H (heap q)"

definition qh_empty :: "'h heap_ops \<Rightarrow> ('h, 's, 'd) QueryHeap \<Rightarrow> bool" where
  "qh_empty H q = (0 = qh_size H q)"

definition qh_insert ::
  "'h heap_ops \<Rightarrow> 's index_ops \<Rightarrow> ('h, 's, 'd) QueryHeap \<Rightarrow> NodeID \<Rightarrow> EdgeWeight \<Rightarrow> 'd \<Rightarrow>
   ('h, 's, 'd) QueryHeap" where
  "qh_insert H S q node weight data =
     (let index = length (inserted_nodes q);
          (h', handle) = dh_emplace H (heap q) \<lparr>hd_weight = weight, hd_index = index\<rparr>
      in q\<lparr>heap := h',
           inserted_nodes := inserted_nodes q @
             [\<lparr>hn_handle = Some handle, hn_node = node, hn_weight = weight, hn_data = data\<rparr>],
           node_index := ix_put S (node_index q) node index\<rparr>)"

definition qh_node :: "'s index_ops \<Rightarrow> ('h, 's, 'd) QueryHeap \<Rightarrow> NodeID \<Rightarrow> 'd HeapNode" where
  "qh_node S q node = inserted_nodes q ! ix_peek S (node_index q) node"

definition qh_get_data :: "'s index_ops \<Rightarrow> ('h, 's, 'd) QueryHeap \<Rightarrow> NodeID \<Rightarrow> 'd" where
  "qh_get_data S q node =
     hn_data (inserted_nodes q ! ix_peek S (node_index q) node)"

text \<open>Assignment through the reference \<^verbatim>\<open>GetData\<close> returns.\<close>

definition qh_set_data ::
  "'s index_ops \<Rightarrow> ('h, 's, 'd) QueryHeap \<Rightarrow> NodeID \<Rightarrow> 'd \<Rightarrow> ('h, 's, 'd) QueryHeap" where
  "qh_set_data S q node d =
     (let index = ix_peek S (node_index q) node
      in q\<lparr>inserted_nodes :=
           (inserted_nodes q)[index := (inserted_nodes q ! index)\<lparr>hn_data := d\<rparr>]\<rparr>)"

definition qh_get_key :: "'s index_ops \<Rightarrow> ('h, 's, 'd) QueryHeap \<Rightarrow> NodeID \<Rightarrow> EdgeWeight" where
  "qh_get_key S q node =
     hn_weight (inserted_nodes q ! ix_peek S (node_index q) node)"

definition qh_was_removed :: "'s index_ops \<Rightarrow> ('h, 's, 'd) QueryHeap \<Rightarrow> NodeID \<Rightarrow> bool" where
  "qh_was_removed S q node =
     (hn_handle (inserted_nodes q ! ix_peek S (node_index q) node) = None)"

definition qh_was_inserted :: "'s index_ops \<Rightarrow> ('h, 's, 'd) QueryHeap \<Rightarrow> NodeID \<Rightarrow> bool" where
  "qh_was_inserted S q node =
     (let index = ix_peek S (node_index q) node
      in if index \<ge> length (inserted_nodes q) then False
         else hn_node (inserted_nodes q ! index) = node)"

text \<open>\<^verbatim>\<open>GetHeapNodeIfWasInserted\<close>: the pointer is the index of the node's entry, the null
  pointer \<open>None\<close>.\<close>

definition qh_find ::
  "'s index_ops \<Rightarrow> ('h, 's, 'd) QueryHeap \<Rightarrow> NodeID \<Rightarrow> nat option" where
  "qh_find S q node =
     (let index = ix_peek S (node_index q) node
      in if index \<ge> length (inserted_nodes q) \<or> hn_node (inserted_nodes q ! index) \<noteq> node
         then None else Some index)"

definition qh_min :: "'h heap_ops \<Rightarrow> ('h, 's, 'd) QueryHeap \<Rightarrow> NodeID" where
  "qh_min H q = hn_node (inserted_nodes q ! hd_index (dh_top H (heap q)))"

definition qh_min_key :: "'h heap_ops \<Rightarrow> ('h, 's, 'd) QueryHeap \<Rightarrow> EdgeWeight" where
  "qh_min_key H q = hd_weight (dh_top H (heap q))"

definition qh_delete_min ::
  "'h heap_ops \<Rightarrow> ('h, 's, 'd) QueryHeap \<Rightarrow> NodeID \<times> ('h, 's, 'd) QueryHeap" where
  "qh_delete_min H q =
     (let removedIndex = hd_index (dh_top H (heap q));
          q' = q\<lparr>heap := dh_pop H (heap q),
                 inserted_nodes := (inserted_nodes q)[removedIndex :=
                   (inserted_nodes q ! removedIndex)\<lparr>hn_handle := None\<rparr>]\<rparr>
      in (hn_node (inserted_nodes q' ! removedIndex), q'))"

text \<open>\<^verbatim>\<open>DeleteMinGetHeapNode\<close> returns the entry itself.\<close>

definition qh_delete_min_get ::
  "'h heap_ops \<Rightarrow> ('h, 's, 'd) QueryHeap \<Rightarrow> 'd HeapNode \<times> ('h, 's, 'd) QueryHeap" where
  "qh_delete_min_get H q =
     (let removedIndex = hd_index (dh_top H (heap q));
          q' = q\<lparr>heap := dh_pop H (heap q),
                 inserted_nodes := (inserted_nodes q)[removedIndex :=
                   (inserted_nodes q ! removedIndex)\<lparr>hn_handle := None\<rparr>]\<rparr>
      in (inserted_nodes q' ! removedIndex, q'))"

definition qh_delete_all ::
  "'h heap_ops \<Rightarrow> ('h, 's, 'd) QueryHeap \<Rightarrow> ('h, 's, 'd) QueryHeap" where
  "qh_delete_all H q =
     q\<lparr>inserted_nodes := map (\<lambda>node. node\<lparr>hn_handle := None\<rparr>) (inserted_nodes q),
       heap := dh_clear H (heap q)\<rparr>"

text \<open>The removed node's handle is the end iterator; increasing it is undefined, and the
  model leaves the heap alone.\<close>

definition qh_decrease_key ::
  "'h heap_ops \<Rightarrow> 's index_ops \<Rightarrow> ('h, 's, 'd) QueryHeap \<Rightarrow> NodeID \<Rightarrow> EdgeWeight \<Rightarrow>
   ('h, 's, 'd) QueryHeap" where
  "qh_decrease_key H S q node weight =
     (let index = ix_peek S (node_index q) node;
          reference = (inserted_nodes q ! index)\<lparr>hn_weight := weight\<rparr>
      in q\<lparr>inserted_nodes := (inserted_nodes q)[index := reference],
           heap := (case hn_handle reference of
             None \<Rightarrow> heap q
           | Some k \<Rightarrow>
               dh_increase H (heap q) k \<lparr>hd_weight = weight, hd_index = index\<rparr>)\<rparr>)"

text \<open>Writing the \<^verbatim>\<open>weight\<close> or \<^verbatim>\<open>data\<close> member of the entry a \<^verbatim>\<open>HeapNode\<close> pointer refers
  to, and the \<^verbatim>\<open>DecreaseKey\<close> overload that takes the entry.\<close>

definition qh_set_weight_at ::
  "('h, 's, 'd) QueryHeap \<Rightarrow> nat \<Rightarrow> EdgeWeight \<Rightarrow> ('h, 's, 'd) QueryHeap" where
  "qh_set_weight_at q i w =
     q\<lparr>inserted_nodes := (inserted_nodes q)[i := (inserted_nodes q ! i)\<lparr>hn_weight := w\<rparr>]\<rparr>"

definition qh_set_data_at :: "('h, 's, 'd) QueryHeap \<Rightarrow> nat \<Rightarrow> 'd \<Rightarrow> ('h, 's, 'd) QueryHeap" where
  "qh_set_data_at q i d =
     q\<lparr>inserted_nodes := (inserted_nodes q)[i := (inserted_nodes q ! i)\<lparr>hn_data := d\<rparr>]\<rparr>"

definition qh_decrease_key_node ::
  "'h heap_ops \<Rightarrow> ('h, 's, 'd) QueryHeap \<Rightarrow> 'd HeapNode \<Rightarrow> ('h, 's, 'd) QueryHeap" where
  "qh_decrease_key_node H q heapNode =
     q\<lparr>heap := (case hn_handle heapNode of
         None \<Rightarrow> heap q
       | Some k \<Rightarrow> dh_increase H (heap q) k
           \<lparr>hd_weight = hn_weight heapNode, hd_index = hd_index (dh_deref H (heap q) k)\<rparr>)\<rparr>"

section \<open>What a client sees of the queue\<close>

text \<open>The view: every inserted node with its key, its data and whether it was removed.\<close>

definition qh_view ::
  "'s index_ops \<Rightarrow> ('h, 's, 'd) QueryHeap \<Rightarrow> NodeID \<rightharpoonup> EdgeWeight \<times> 'd \<times> bool" where
  "qh_view S q n =
     (if qh_was_inserted S q n
      then Some (qh_get_key S q n, qh_get_data S q n, qh_was_removed S q n) else None)"

text \<open>The invariant: entries, index storage and heap agree.\<close>

definition qh_inv ::
  "('h \<Rightarrow> (nat \<rightharpoonup> HeapData)) \<Rightarrow> ('h \<Rightarrow> bool) \<Rightarrow> 's index_ops \<Rightarrow> NodeID set \<Rightarrow> ('s \<Rightarrow> bool) \<Rightarrow>
   ('s \<Rightarrow> NodeID set) \<Rightarrow> ('h, 's, 'd) QueryHeap \<Rightarrow> bool" where
  "qh_inv content hok S V ixok live q \<longleftrightarrow>
     hok (heap q) \<and> ixok (node_index q) \<and>
     (\<forall>i < length (inserted_nodes q). let e = inserted_nodes q ! i in
        hn_node e \<in> V \<and> hn_node e \<in> live (node_index q) \<and>
        ix_peek S (node_index q) (hn_node e) = i \<and>
        (\<forall>k. hn_handle e = Some k \<longrightarrow>
             content (heap q) k = Some \<lparr>hd_weight = hn_weight e, hd_index = i\<rparr>)) \<and>
     (\<forall>k \<in> dom (content (heap q)). \<exists>i < length (inserted_nodes q).
        hn_handle (inserted_nodes q ! i) = Some k)"

locale query_heap =
  d_ary_heap H content hok + index_storage S V ixok live
  for H :: "'h heap_ops" and content hok
    and S :: "'s index_ops" and V ixok live
begin

abbreviation inv :: "('h, 's, 'd) QueryHeap \<Rightarrow> bool" where
  "inv \<equiv> qh_inv content hok S V ixok live"

lemma inv_entry:
  assumes "inv q" "i < length (inserted_nodes q)"
  shows "hn_node (inserted_nodes q ! i) \<in> V"
    and "hn_node (inserted_nodes q ! i) \<in> live (node_index q)"
    and "ix_peek S (node_index q) (hn_node (inserted_nodes q ! i)) = i"
    and "hn_handle (inserted_nodes q ! i) = Some k \<Longrightarrow>
      content (heap q) k = Some \<lparr>hd_weight = hn_weight (inserted_nodes q ! i), hd_index = i\<rparr>"
  using assms by (auto simp: qh_inv_def Let_def)

lemma inv_handle:
  assumes "inv q" "content (heap q) k = Some d"
  obtains i where "i < length (inserted_nodes q)" "hn_handle (inserted_nodes q ! i) = Some k"
    "d = \<lparr>hd_weight = hn_weight (inserted_nodes q ! i), hd_index = i\<rparr>"
proof -
  from assms obtain i where i: "i < length (inserted_nodes q)"
    "hn_handle (inserted_nodes q ! i) = Some k"
    by (auto simp: qh_inv_def)
  with inv_entry(4) [OF assms(1) i] assms(2) show ?thesis by (intro that) auto
qed

lemma view_entry:
  assumes "inv q" "i < length (inserted_nodes q)"
  shows "qh_view S q (hn_node (inserted_nodes q ! i)) =
    Some (hn_weight (inserted_nodes q ! i), hn_data (inserted_nodes q ! i),
          hn_handle (inserted_nodes q ! i) = None)"
  using assms(2) inv_entry(3) [OF assms]
  by (simp add: qh_view_def qh_was_inserted_def qh_get_key_def qh_get_data_def qh_was_removed_def)

lemma view_SomeE:
  assumes "qh_view S q n = Some (w, d, r)"
  obtains i where "i < length (inserted_nodes q)" "ix_peek S (node_index q) n = i"
    "hn_node (inserted_nodes q ! i) = n" "hn_weight (inserted_nodes q ! i) = w"
    "hn_data (inserted_nodes q ! i) = d" "r \<longleftrightarrow> hn_handle (inserted_nodes q ! i) = None"
  using assms
  by (auto simp: qh_view_def qh_was_inserted_def qh_get_key_def qh_get_data_def
      qh_was_removed_def Let_def split: if_splits)

lemma view_None_iff:
  assumes "inv q"
  shows "qh_view S q n = None \<longleftrightarrow> (\<forall>i < length (inserted_nodes q). hn_node (inserted_nodes q ! i) \<noteq> n)"
proof (cases "qh_view S q n")
  case None
  then show ?thesis using view_entry [OF assms] by force
next
  case (Some v)
  then have "qh_view S q n = Some (fst v, fst (snd v), snd (snd v))" by simp
  then show ?thesis by (rule view_SomeE) (use Some in auto)
qed

lemma view_update_entry:
  assumes inv: "inv q" and i: "i < length (inserted_nodes q)"
    and e: "hn_node e = hn_node (inserted_nodes q ! i)"
    and q': "inserted_nodes q' = (inserted_nodes q)[i := e]" "node_index q' = node_index q"
  shows "qh_view S q' = (qh_view S q)(hn_node e \<mapsto> (hn_weight e, hn_data e, hn_handle e = None))"
proof
  fix n
  show "qh_view S q' n =
    ((qh_view S q)(hn_node e \<mapsto> (hn_weight e, hn_data e, hn_handle e = None))) n"
    using inv_entry(3) [OF inv i] i e
    by (auto simp: qh_view_def qh_was_inserted_def qh_get_key_def qh_get_data_def
        qh_was_removed_def Let_def q' nth_list_update_if)
qed

lemma inv_update_entry:
  assumes inv: "inv q" and i: "i < length (inserted_nodes q)"
    and e: "hn_node e = hn_node (inserted_nodes q ! i)"
    and q': "inserted_nodes q' = (inserted_nodes q)[i := e]" "node_index q' = node_index q"
    and h': "hok (heap q')"
      "\<And>k. hn_handle (inserted_nodes q ! i) \<noteq> Some k \<Longrightarrow> content (heap q') k = content (heap q) k"
      "\<And>k. hn_handle (inserted_nodes q ! i) = Some k \<Longrightarrow> content (heap q') k =
         (if hn_handle e = None then None else Some \<lparr>hd_weight = hn_weight e, hd_index = i\<rparr>)"
    and eh: "hn_handle e = None \<or> hn_handle e = hn_handle (inserted_nodes q ! i)"
  shows "inv q'"
proof -
  have other: "hn_handle (inserted_nodes q ! j) = Some k \<Longrightarrow> j \<noteq> i \<Longrightarrow>
      j < length (inserted_nodes q) \<Longrightarrow> hn_handle (inserted_nodes q ! i) \<noteq> Some k" for j k
    using inv_entry(4) [OF inv, of i k] inv_entry(4) [OF inv, of j k] i by auto
  have handle: "\<exists>j < length (inserted_nodes q'). hn_handle (inserted_nodes q' ! j) = Some k"
    if k: "k \<in> dom (content (heap q'))" for k
  proof (cases "hn_handle (inserted_nodes q ! i) = Some k")
    case True
    with k h'(3) [OF True] have "hn_handle e \<noteq> None" by (auto split: if_splits)
    with eh True i show ?thesis by (intro exI [of _ i]) (auto simp: q')
  next
    case False
    with k h'(2) have "k \<in> dom (content (heap q))" by auto
    then obtain j where j: "j < length (inserted_nodes q)" "hn_handle (inserted_nodes q ! j) = Some k"
      using inv by (auto simp: qh_inv_def)
    with False have "j \<noteq> i" by auto
    with j i show ?thesis by (intro exI [of _ j]) (auto simp: q')
  qed
  show ?thesis
    unfolding qh_inv_def Let_def
    using inv h'(1) handle inv_entry [OF inv] i e h'(2,3) other eh
    by (auto simp: q' nth_list_update_if qh_inv_def split: if_splits)
qed

lemma clear_laws [queue_laws, queue_inv]:
  assumes "hok (heap q)" "ixok (node_index q)"
  shows "inv (qh_clear H S q)" and "qh_view S (qh_clear H S q) = Map.empty"
  using assms clear_content [of "heap q"]
  by (auto simp: qh_inv_def qh_clear_def qh_view_def qh_was_inserted_def ixok_clear)

lemma init_laws:
  assumes "hok h" "ixok s"
  shows "inv (qh_init H S h s)" and "qh_view S (qh_init H S h s) = Map.empty"
  unfolding qh_init_def using assms by (auto intro!: clear_laws)

lemma inv_parts: "inv q \<Longrightarrow> hok (heap q)" "inv q \<Longrightarrow> ixok (node_index q)"
  by (auto simp: qh_inv_def)

lemma insert_view:
  assumes inv: "inv q" and n: "n \<in> V" and fresh: "qh_view S q n = None"
  shows "qh_view S (qh_insert H S q n w d) = (qh_view S q)(n \<mapsto> (w, d, False))"
proof
  obtain h' k where em: "dh_emplace H (heap q)
      \<lparr>hd_weight = w, hd_index = length (inserted_nodes q)\<rparr> = (h', k)"
    by (cases "dh_emplace H (heap q) \<lparr>hd_weight = w, hd_index = length (inserted_nodes q)\<rparr>") auto
  let ?q = "qh_insert H S q n w d"
  have ins: "inserted_nodes ?q = inserted_nodes q @
      [\<lparr>hn_handle = Some k, hn_node = n, hn_weight = w, hn_data = d\<rparr>]"
    and ix: "node_index ?q = ix_put S (node_index q) n (length (inserted_nodes q))"
    by (simp_all add: qh_insert_def em)
  fix m
  show "qh_view S ?q m = ((qh_view S q)(n \<mapsto> (w, d, False))) m"
  proof (cases "m = n")
    case True
    then show ?thesis
      using peek_put [OF inv_parts(2) [OF inv] n]
      by (simp add: qh_view_def qh_was_inserted_def qh_get_key_def qh_get_data_def
          qh_was_removed_def ins ix)
  next
    case False
    show ?thesis
    proof (cases "\<exists>i < length (inserted_nodes q). hn_node (inserted_nodes q ! i) = m")
      case True
      then obtain i where i: "i < length (inserted_nodes q)" "hn_node (inserted_nodes q ! i) = m"
        by blast
      have "ix_peek S (node_index ?q) m = i"
        using peek_put_other [OF inv_parts(2) [OF inv] n _ False] inv_entry [OF inv i(1)] i(2)
        by (simp add: ix)
      then show ?thesis
        using i view_entry [OF inv i(1)] False
        by (simp add: qh_view_def [of S ?q] qh_was_inserted_def qh_get_key_def qh_get_data_def
            qh_was_removed_def ins nth_append)
    next
      case none: False
      then have "qh_view S q m = None" using view_None_iff [OF inv] by blast
      moreover have "\<not> qh_was_inserted S ?q m"
        using none False
        by (auto simp: qh_was_inserted_def Let_def ins nth_append less_Suc_eq)
      ultimately show ?thesis using False by (simp add: qh_view_def [of S ?q])
    qed
  qed
qed

lemma insert_inv:
  assumes inv: "inv q" and n: "n \<in> V" and fresh: "qh_view S q n = None"
  shows "inv (qh_insert H S q n w d)"
proof -
  obtain h' k where em: "dh_emplace H (heap q)
      \<lparr>hd_weight = w, hd_index = length (inserted_nodes q)\<rparr> = (h', k)"
    by (cases "dh_emplace H (heap q) \<lparr>hd_weight = w, hd_index = length (inserted_nodes q)\<rparr>") auto
  let ?q = "qh_insert H S q n w d"
  have ins: "inserted_nodes ?q = inserted_nodes q @
      [\<lparr>hn_handle = Some k, hn_node = n, hn_weight = w, hn_data = d\<rparr>]"
    and ix: "node_index ?q = ix_put S (node_index q) n (length (inserted_nodes q))"
    and hp: "heap ?q = h'"
    by (simp_all add: qh_insert_def em)
  note h' = emplace_content [OF inv_parts(1) [OF inv] em]
  have ne: "hn_node (inserted_nodes q ! i) \<noteq> n" if "i < length (inserted_nodes q)" for i
    using fresh that view_None_iff [OF inv] by blast
  have "hn_handle (inserted_nodes q ! i) \<noteq> Some k" if "i < length (inserted_nodes q)" for i
    using inv_entry(4) [OF inv that] h' by auto
  moreover have "hn_node (inserted_nodes q ! i) \<in> live (ix_put S (node_index q) n j)"
    if "i < length (inserted_nodes q)" for i j
    using inv_entry(2) [OF inv that] live_put [OF inv_parts(2) [OF inv] n] by blast
  ultimately show ?thesis
    unfolding qh_inv_def Let_def ins ix hp
    using h' inv ne n inv_entry [OF inv] ixok_put [OF inv_parts(2) [OF inv] n]
      live_put [OF inv_parts(2) [OF inv] n] peek_put [OF inv_parts(2) [OF inv] n]
      peek_put_other [OF inv_parts(2) [OF inv] n]
    by (auto simp: nth_append less_Suc_eq qh_inv_def Let_def dom_def split: if_splits)
qed

lemma empty_iff:
  assumes inv: "inv q"
  shows "qh_empty H q \<longleftrightarrow> (\<forall>n w d. qh_view S q n \<noteq> Some (w, d, False))"
proof -
  have "qh_empty H q \<longleftrightarrow> content (heap q) = Map.empty"
    using size_content [OF inv_parts(1) [OF inv]] finite_content [OF inv_parts(1) [OF inv]]
    by (auto simp: qh_empty_def qh_size_def)
  also have "\<dots> \<longleftrightarrow> (\<forall>n w d. qh_view S q n \<noteq> Some (w, d, False))"
  proof
    assume e: "content (heap q) = Map.empty"
    show "\<forall>n w d. qh_view S q n \<noteq> Some (w, d, False)"
    proof (intro allI notI)
      fix n w d assume "qh_view S q n = Some (w, d, False)"
      then show False
        using inv_entry(4) [OF inv] e by (elim view_SomeE) force
    qed
  next
    assume none: "\<forall>n w d. qh_view S q n \<noteq> Some (w, d, False)"
    show "content (heap q) = Map.empty"
    proof
      fix k
      show "content (heap q) k = None"
      proof (cases "content (heap q) k")
        case (Some d)
        then obtain i where "i < length (inserted_nodes q)" "hn_handle (inserted_nodes q ! i) = Some k"
          by (rule inv_handle [OF inv])
        with view_entry [OF inv] none show ?thesis by fastforce
      qed simp
    qed
  qed
  finally show ?thesis .
qed

lemma top_entry:
  assumes inv: "inv q" and ne: "\<not> qh_empty H q"
  obtains i k where "i < length (inserted_nodes q)"
    "dh_top H (heap q) = \<lparr>hd_weight = hn_weight (inserted_nodes q ! i), hd_index = i\<rparr>"
    "hn_handle (inserted_nodes q ! i) = Some k"
    "hok (dh_pop H (heap q))" "content (dh_pop H (heap q)) = (content (heap q))(k := None)"
    "\<And>n w d. qh_view S q n = Some (w, d, False) \<Longrightarrow> hn_weight (inserted_nodes q ! i) \<le> w"
proof -
  have ne': "content (heap q) \<noteq> Map.empty"
    using ne size_content [OF inv_parts(1) [OF inv]] by (auto simp: qh_empty_def qh_size_def)
  obtain k where k: "content (heap q) k = Some (dh_top H (heap q))"
    "content (dh_pop H (heap q)) = (content (heap q))(k := None)" "hok (dh_pop H (heap q))"
    using pop_content [OF inv_parts(1) [OF inv] ne'] by blast
  obtain i where i: "i < length (inserted_nodes q)" "hn_handle (inserted_nodes q ! i) = Some k"
    "dh_top H (heap q) = \<lparr>hd_weight = hn_weight (inserted_nodes q ! i), hd_index = i\<rparr>"
    using inv_handle [OF inv k(1)] by blast
  have "hn_weight (inserted_nodes q ! i) \<le> w" if v: "qh_view S q n = Some (w, d, False)" for n w d
  proof -
    obtain j k' where j: "j < length (inserted_nodes q)" "hn_weight (inserted_nodes q ! j) = w"
      "hn_handle (inserted_nodes q ! j) = Some k'" using v by (auto elim: view_SomeE)
    have "\<not> hd_greater (dh_top H (heap q)) \<lparr>hd_weight = w, hd_index = j\<rparr>"
      using top_content [OF inv_parts(1) [OF inv] ne'] inv_entry(4) [OF inv j(1,3)] j(2) by blast
    with i(3) show ?thesis by (auto simp: hd_greater_def split: if_splits)
  qed
  with i k show ?thesis by (intro that)
qed

lemma delete_min_laws:
  assumes inv: "inv q" and ne: "\<not> qh_empty H q" and dm: "qh_delete_min H q = (n, q')"
  obtains w d where "inv q'" "qh_view S q n = Some (w, d, False)"
    "qh_view S q' = (qh_view S q)(n \<mapsto> (w, d, True))"
    "\<And>m w' d'. qh_view S q m = Some (w', d', False) \<Longrightarrow> w \<le> w'"
    "qh_min H q = n" "qh_min_key H q = w"
proof -
  obtain i k where i: "i < length (inserted_nodes q)"
    "dh_top H (heap q) = \<lparr>hd_weight = hn_weight (inserted_nodes q ! i), hd_index = i\<rparr>"
    "hn_handle (inserted_nodes q ! i) = Some k"
    and pop: "hok (dh_pop H (heap q))" "content (dh_pop H (heap q)) = (content (heap q))(k := None)"
    and least: "\<And>n w d. qh_view S q n = Some (w, d, False) \<Longrightarrow> hn_weight (inserted_nodes q ! i) \<le> w"
    using top_entry [OF inv ne] by blast
  let ?e = "(inserted_nodes q ! i)\<lparr>hn_handle := None\<rparr>"
  have q': "inserted_nodes q' = (inserted_nodes q)[i := ?e]" "node_index q' = node_index q"
    "heap q' = dh_pop H (heap q)" and n: "n = hn_node (inserted_nodes q ! i)"
    using dm i by (auto simp: qh_delete_min_def Let_def)
  have "inv q'"
    by (rule inv_update_entry [OF inv i(1) _ q'(1,2)]) (use pop i(3) in \<open>auto simp: q'(3)\<close>)
  moreover have "qh_view S q' = (qh_view S q)(n \<mapsto> (hn_weight (inserted_nodes q ! i),
      hn_data (inserted_nodes q ! i), True))"
    using view_update_entry [OF inv i(1) _ q'(1,2)] by (simp add: n)
  moreover have "qh_min H q = n" "qh_min_key H q = hn_weight (inserted_nodes q ! i)"
    using i(2) by (simp_all add: qh_min_def qh_min_key_def n)
  ultimately show ?thesis
    using view_entry [OF inv i(1)] least i(3) by (intro that) (auto simp: n)
qed

lemma find_view:
  shows "qh_find S q n = None \<longleftrightarrow> qh_view S q n = None"
    and "qh_find S q n = Some i \<Longrightarrow> i < length (inserted_nodes q) \<and> hn_node (inserted_nodes q ! i) = n \<and>
      qh_view S q n = Some (hn_weight (inserted_nodes q ! i), hn_data (inserted_nodes q ! i),
          hn_handle (inserted_nodes q ! i) = None)"
  by (auto simp: qh_find_def qh_view_def qh_was_inserted_def qh_get_key_def qh_get_data_def
      qh_was_removed_def Let_def split: if_splits)

lemma get_view:
  assumes "qh_view S q n = Some (w, d, r)"
  shows "qh_get_key S q n = w" "qh_get_data S q n = d" "qh_was_removed S q n = r"
    "qh_was_inserted S q n"
  using assms by (auto simp: qh_view_def split: if_splits)

lemma was_inserted_view: "qh_was_inserted S q n \<longleftrightarrow> qh_view S q n \<noteq> None"
  by (simp add: qh_view_def)

lemma decrease_key_laws:
  assumes inv: "inv q" and v: "qh_view S q n = Some (w0, d, r)" and w: "w \<le> w0"
  shows "inv (qh_decrease_key H S q n w)"
    and "qh_view S (qh_decrease_key H S q n w) = (qh_view S q)(n \<mapsto> (w, d, r))"
proof -
  obtain i where i: "i < length (inserted_nodes q)" "ix_peek S (node_index q) n = i"
    "hn_node (inserted_nodes q ! i) = n" "hn_weight (inserted_nodes q ! i) = w0"
    "hn_data (inserted_nodes q ! i) = d" "r \<longleftrightarrow> hn_handle (inserted_nodes q ! i) = None"
    using v by (rule view_SomeE)
  let ?q = "qh_decrease_key H S q n w" and ?e = "(inserted_nodes q ! i)\<lparr>hn_weight := w\<rparr>"
  have q': "inserted_nodes ?q = (inserted_nodes q)[i := ?e]" "node_index ?q = node_index q"
    "heap ?q = (case hn_handle (inserted_nodes q ! i) of None \<Rightarrow> heap q
       | Some k \<Rightarrow> dh_increase H (heap q) k \<lparr>hd_weight = w, hd_index = i\<rparr>)"
    using i by (auto simp: qh_decrease_key_def Let_def)
  show "inv ?q"
  proof (rule inv_update_entry [OF inv i(1) _ q'(1,2)], goal_cases)
    case 2
    show ?case
      using inv_entry(4) [OF inv i(1)] increase_content [OF inv_parts(1) [OF inv]] w i(4)
      by (auto simp: q'(3) inv_parts(1) [OF inv] hd_greater_def split: option.splits)
  next
    case (3 k)
    then show ?case
      using inv_entry(4) [OF inv i(1)] increase_content [OF inv_parts(1) [OF inv]] w i(4)
      by (auto simp: q'(3) hd_greater_def split: option.splits)
  next
    case (4 k)
    then show ?case
      using inv_entry(4) [OF inv i(1)] increase_content [OF inv_parts(1) [OF inv]] w i(4)
      by (auto simp: q'(3) hd_greater_def split: option.splits)
  qed auto
  show "qh_view S ?q = (qh_view S q)(n \<mapsto> (w, d, r))"
    using view_update_entry [OF inv i(1) _ q'(1,2)] i by simp
qed

lemma set_data_laws:
  assumes inv: "inv q" and v: "qh_view S q n = Some (w, d0, r)"
  shows "inv (qh_set_data S q n d)"
    and "qh_view S (qh_set_data S q n d) = (qh_view S q)(n \<mapsto> (w, d, r))"
proof -
  obtain i where i: "i < length (inserted_nodes q)" "ix_peek S (node_index q) n = i"
    "hn_node (inserted_nodes q ! i) = n" "hn_weight (inserted_nodes q ! i) = w"
    "hn_data (inserted_nodes q ! i) = d0" "r \<longleftrightarrow> hn_handle (inserted_nodes q ! i) = None"
    using v by (rule view_SomeE)
  let ?q = "qh_set_data S q n d" and ?e = "(inserted_nodes q ! i)\<lparr>hn_data := d\<rparr>"
  have q': "inserted_nodes ?q = (inserted_nodes q)[i := ?e]" "node_index ?q = node_index q"
    "heap ?q = heap q"
    using i by (auto simp: qh_set_data_def Let_def)
  show "inv ?q"
    by (rule inv_update_entry [OF inv i(1) _ q'(1,2)])
      (use inv_entry(4) [OF inv i(1)] inv_parts(1) [OF inv] in \<open>auto simp: q'(3)\<close>)
  show "qh_view S ?q = (qh_view S q)(n \<mapsto> (w, d, r))"
    using view_update_entry [OF inv i(1) _ q'(1,2)] i by simp
qed

text \<open>The three writes through a \<^verbatim>\<open>HeapNode\<close> pointer that update a shorter path: weight,
  heap position, data.\<close>

lemma update_at_laws:
  assumes inv: "inv q" and f: "qh_find S q n = Some i"
    and v: "qh_view S q n = Some (w0, d0, r)" and w: "w \<le> w0"
    and q1: "q1 = qh_set_weight_at q i w"
    and q2: "q2 = qh_decrease_key_node H q1 (inserted_nodes q1 ! i)"
    and q3: "q3 = qh_set_data_at q2 i d"
  shows "inv q3" and "qh_view S q3 = (qh_view S q)(n \<mapsto> (w, d, r))"
proof -
  have i: "i < length (inserted_nodes q)" "ix_peek S (node_index q) n = i"
    "hn_node (inserted_nodes q ! i) = n"
    using f by (auto simp: qh_find_def Let_def split: if_splits)
  with v have d: "hn_weight (inserted_nodes q ! i) = w0" "hn_data (inserted_nodes q ! i) = d0"
    "r \<longleftrightarrow> hn_handle (inserted_nodes q ! i) = None"
    using view_entry [OF inv i(1)] by auto
  let ?e = "(inserted_nodes q ! i)\<lparr>hn_weight := w, hn_data := d\<rparr>"
  have deref: "hd_index (dh_deref H (heap q) k) = i" if "hn_handle (inserted_nodes q ! i) = Some k" for k
    using deref_content [OF inv_parts(1) [OF inv] inv_entry(4) [OF inv i(1) that]] by simp
  have q': "inserted_nodes q3 = (inserted_nodes q)[i := ?e]" "node_index q3 = node_index q"
    "heap q3 = (case hn_handle (inserted_nodes q ! i) of None \<Rightarrow> heap q
       | Some k \<Rightarrow> dh_increase H (heap q) k \<lparr>hd_weight = w, hd_index = i\<rparr>)"
    using i(1) deref
    by (auto simp: q1 q2 q3 qh_set_weight_at_def qh_decrease_key_node_def qh_set_data_at_def
        split: option.splits)
  have inc: "hok (dh_increase H (heap q) k \<lparr>hd_weight = w, hd_index = i\<rparr>) \<and>
      content (dh_increase H (heap q) k \<lparr>hd_weight = w, hd_index = i\<rparr>) =
        (content (heap q))(k \<mapsto> \<lparr>hd_weight = w, hd_index = i\<rparr>)"
    if "hn_handle (inserted_nodes q ! i) = Some k" for k
    using increase_content [OF inv_parts(1) [OF inv] inv_entry(4) [OF inv i(1) that]] w d(1)
    by (simp add: hd_greater_def)
  show "inv q3"
    by (rule inv_update_entry [OF inv i(1) _ q'(1,2)])
      (use inc inv_parts(1) [OF inv] in \<open>auto simp: q'(3) split: option.splits\<close>)
  show "qh_view S q3 = (qh_view S q)(n \<mapsto> (w, d, r))"
    using view_update_entry [OF inv i(1) _ q'(1,2)] i d by simp
qed

end

interpretation ref_array: query_heap ref_heap_ops ref_content ref_ok
  ArrayStorage "{..<sz}" "\<lambda>s. length s = sz" "\<lambda>s. {..<sz}" for sz
  by unfold_locales

interpretation ref_umap: query_heap ref_heap_ops ref_content ref_ok
  "UnorderedMapStorage key_max" UNIV "\<lambda>_. True" dom for key_max
  by unfold_locales

section \<open>Properties of the queue\<close>

text \<open>The empty queue over three nodes, and one entry in it: what the witnesses run on.\<close>

definition example_queue :: "(ref_heap, nat list, nat) QueryHeap" where
  "example_queue = qh_init ref_heap_ops ArrayStorage ref_empty (ArrayStorage_init 3)"

lemma example_queue_laws:
  "qh_inv ref_content ref_ok ArrayStorage {..<3} (\<lambda>s. length s = 3) (\<lambda>s. {..<3}) example_queue"
  "qh_view ArrayStorage example_queue = Map.empty"
  unfolding example_queue_def
  by (rule ref_array.init_laws; simp add: ref_ok_def ref_empty_def ArrayStorage_init_def)+

lemma example_queue_insert:
  "qh_inv ref_content ref_ok ArrayStorage {..<3} (\<lambda>s. length s = 3) (\<lambda>s. {..<3})
     (qh_insert ref_heap_ops ArrayStorage example_queue 2 7 5)"
  "qh_view ArrayStorage (qh_insert ref_heap_ops ArrayStorage example_queue 2 7 5) = [2 \<mapsto> (7, 5, False)]"
  using ref_array.insert_inv [OF example_queue_laws(1), of 2]
    ref_array.insert_view [OF example_queue_laws(1), of 2] example_queue_laws(2) by simp_all

text \<open>
  Inserting a node that is not in the queue makes it readable with its key and
  data, not removed, and changes nothing any other node shows.
\<close>

theorem qh_insert_correct:
  assumes "query_heap H content hok S V ixok live" "qh_inv content hok S V ixok live q"
    and "n \<in> V" "qh_view S q n = None"
  shows "qh_inv content hok S V ixok live (qh_insert H S q n w d) \<and>
    qh_view S (qh_insert H S q n w d) = (qh_view S q)(n \<mapsto> (w, d, False))"
  using query_heap.insert_inv [OF assms] query_heap.insert_view [OF assms] by blast

lemma qh_insert_correct_witness:
  "qh_view ArrayStorage (qh_insert ref_heap_ops ArrayStorage example_queue 1 4 9) 1 = Some (4, 9, False)"
  using qh_insert_correct [OF ref_array.query_heap_axioms example_queue_laws(1), of 1 4 9]
    example_queue_laws(2) by simp

text \<open>
  \<^verbatim>\<open>DeleteMin\<close> of a queue that is not empty returns a waiting node whose key no
  waiting node undercuts, marks it as removed with its key and data readable, and changes
  nothing else; \<^verbatim>\<open>Min\<close> and \<^verbatim>\<open>MinKey\<close> announce this node and key.
\<close>

theorem qh_delete_min_correct:
  assumes "query_heap H content hok S V ixok live" "qh_inv content hok S V ixok live q"
    and "\<not> qh_empty H q" "qh_delete_min H q = (n, q')"
  shows "\<exists>w d. qh_inv content hok S V ixok live q' \<and> qh_view S q n = Some (w, d, False) \<and>
    qh_view S q' = (qh_view S q)(n \<mapsto> (w, d, True)) \<and>
    (\<forall>m w' d'. qh_view S q m = Some (w', d', False) \<longrightarrow> w \<le> w') \<and>
    qh_min H q = n \<and> qh_min_key H q = w"
  by (rule query_heap.delete_min_laws [OF assms]) blast

lemma qh_delete_min_correct_witness:
  "fst (qh_delete_min ref_heap_ops (qh_insert ref_heap_ops ArrayStorage example_queue 2 7 5)) = 2"
proof -
  let ?q = "qh_insert ref_heap_ops ArrayStorage example_queue 2 7 5"
  have ne: "\<not> qh_empty ref_heap_ops ?q"
    using ref_array.empty_iff [OF example_queue_insert(1)] example_queue_insert(2) by simp
  obtain n q' where dm: "qh_delete_min ref_heap_ops ?q = (n, q')" by fastforce
  from qh_delete_min_correct [OF ref_array.query_heap_axioms example_queue_insert(1) ne dm]
  obtain w d where "qh_view ArrayStorage ?q n = Some (w, d, False)" by blast
  then have "n = 2" unfolding example_queue_insert(2) by (simp split: if_splits)
  with dm show ?thesis by simp
qed



end
