(* ===== verification/Permutation.thy ===== *)
theory Permutation
  imports OSRM_Prelude
begin

text \<open>
  \<^verbatim>\<open>custom-osrm/include/util/permutation.hpp\<close>: permuting a vector in place along the cycles
  of an index permutation, and turning an ordering into the permutation that realises it.

  The inner loop follows one cycle until it is back at its start.  It does not return when
  \<^verbatim>\<open>old_to_new\<close> is not a permutation, so both loops are partial functions and that they return
  on a permutation is part of what is proved.
\<close>

section \<open>Definitions\<close>

text \<open>The \<^verbatim>\<open>for\<close> loop over one cycle: the state is the vector, the marks, the buffered
  element and the two indices.\<close>

partial_function (option) cycle_loop ::
  "nat list \<Rightarrow> nat \<Rightarrow> 'a list \<Rightarrow> bool list \<Rightarrow> 'a \<Rightarrow> nat \<Rightarrow> nat \<Rightarrow>
   ('a list \<times> bool list \<times> 'a \<times> nat) option" where
  "cycle_loop old_to_new index xs was_replaced buffer old_index new_index =
     (if new_index \<noteq> index
      then cycle_loop old_to_new index (xs[new_index := buffer]) (was_replaced[old_index := True])
             (xs ! new_index) new_index (old_to_new ! new_index)
      else Some (xs, was_replaced, buffer, old_index))"

definition permute_cycle ::
  "nat list \<Rightarrow> nat \<Rightarrow> 'a list \<Rightarrow> bool list \<Rightarrow> ('a list \<times> bool list) option" where
  "permute_cycle old_to_new index xs was_replaced =
     (case cycle_loop old_to_new index xs was_replaced (xs ! index) index (old_to_new ! index) of
        None \<Rightarrow> None
      | Some (xs', was_replaced', buffer, old_index) \<Rightarrow>
          Some (xs'[index := buffer], was_replaced'[old_index := True]))"

fun permute_indices ::
  "nat list \<Rightarrow> nat list \<Rightarrow> 'a list \<Rightarrow> bool list \<Rightarrow> ('a list \<times> bool list) option" where
  "permute_indices old_to_new [] xs was_replaced = Some (xs, was_replaced)"
| "permute_indices old_to_new (index # indices) xs was_replaced =
     (if was_replaced ! index then permute_indices old_to_new indices xs was_replaced
      else if old_to_new ! index = index
      then permute_indices old_to_new indices xs (was_replaced[index := True])
      else (case permute_cycle old_to_new index xs was_replaced of
              None \<Rightarrow> None
            | Some (xs', was_replaced') \<Rightarrow>
                permute_indices old_to_new indices xs' was_replaced'))"

definition inplacePermutation :: "nat list \<Rightarrow> 'a list \<Rightarrow> 'a list option" where
  "inplacePermutation old_to_new xs =
     map_option fst
       (permute_indices old_to_new [0..<length xs] xs (replicate (length xs) False))"

fun orderingToPermutation_loop :: "nat list \<Rightarrow> nat list \<Rightarrow> nat list \<Rightarrow> nat list" where
  "orderingToPermutation_loop order_of [] permutation = permutation"
| "orderingToPermutation_loop order_of (index # indices) permutation =
     orderingToPermutation_loop order_of indices (permutation[order_of ! index := index])"

definition orderingToPermutation :: "nat list \<Rightarrow> nat list" where
  "orderingToPermutation order_of =
     orderingToPermutation_loop order_of [0..<length order_of] (replicate (length order_of) 0)"

section \<open>Permutations of the indices\<close>

definition is_perm :: "nat list \<Rightarrow> nat \<Rightarrow> bool" where
  "is_perm p n \<longleftrightarrow> length p = n \<and> distinct p \<and> set p \<subseteq> {..<n}"

text \<open>The permutation as a total function.\<close>

definition pfun :: "nat list \<Rightarrow> nat \<Rightarrow> nat" where
  "pfun p i = (if i < length p then p ! i else i)"

lemma is_perm_set: "is_perm p n \<Longrightarrow> set p = {..<n}"
  by (metis card_lessThan card_subset_eq distinct_card finite_lessThan is_perm_def)

lemma is_perm_less: "is_perm p n \<Longrightarrow> i < n \<Longrightarrow> p ! i < n"
  using nth_mem [of i p] by (auto simp: is_perm_def simp del: nth_mem)

lemma is_perm_inj: "is_perm p n \<Longrightarrow> i < n \<Longrightarrow> j < n \<Longrightarrow> p ! i = p ! j \<Longrightarrow> i = j"
  by (auto simp: is_perm_def nth_eq_iff_index_eq)

lemma is_perm_surj: "is_perm p n \<Longrightarrow> j < n \<Longrightarrow> \<exists>i < n. p ! i = j"
  using is_perm_set [of p n] by (auto simp: in_set_conv_nth is_perm_def set_eq_iff)

lemma pfun_inj: "is_perm p n \<Longrightarrow> inj (pfun p)"
  by (rule injI) (auto simp: pfun_def is_perm_def nth_eq_iff_index_eq subset_iff split: if_splits
      dest: nth_mem)

lemma pfun_less: "is_perm p n \<Longrightarrow> i < n \<Longrightarrow> pfun p i < n"
  by (auto simp: pfun_def is_perm_less)

lemma pfun_pow_less: "is_perm p n \<Longrightarrow> i < n \<Longrightarrow> (pfun p ^^ k) i < n"
  by (induction k) (auto simp: pfun_less)

lemma pfun_cycle:
  assumes p: "is_perm p n" and i: "i < n"
  obtains m where "0 < m" "(pfun p ^^ m) i = i" "\<And>k. 0 < k \<Longrightarrow> k < m \<Longrightarrow> (pfun p ^^ k) i \<noteq> i"
proof -
  have "{y. \<exists>k. y = (pfun p ^^ k) i} \<subseteq> {..<n}"
    using pfun_pow_less [OF p i] by auto
  then have "finite {y. \<exists>k. y = (pfun p ^^ k) i}" by (rule finite_subset) simp
  then obtain m where "0 < m" "(pfun p ^^ m) i = i"
    using funpow_inj_finite [OF pfun_inj [OF p]] by blast
  then have ex: "\<exists>m. 0 < m \<and> (pfun p ^^ m) i = i" by blast
  show ?thesis
    by (rule that [of "LEAST m. 0 < m \<and> (pfun p ^^ m) i = i"])
      (use LeastI_ex [OF ex] not_less_Least in blast)+
qed

section \<open>One cycle\<close>

text \<open>After \<open>k\<close> rounds the elements of the first \<open>k\<close> indices of the cycle have moved one
  step ahead and the buffer holds the element of index \<open>k\<close>.\<close>

definition cyc :: "nat list \<Rightarrow> nat \<Rightarrow> nat \<Rightarrow> nat" where
  "cyc p i k = (pfun p ^^ k) i"

lemma cyc_simps: "cyc p i 0 = i" "cyc p i (Suc k) = pfun p (cyc p i k)"
  by (simp_all add: cyc_def)

lemma cyc_inj:
  assumes p: "is_perm p n" and i: "i < n"
    and min: "\<And>k. 0 < k \<Longrightarrow> k < m \<Longrightarrow> cyc p i k \<noteq> i"
  shows "j < m \<Longrightarrow> k < m \<Longrightarrow> cyc p i j = cyc p i k \<Longrightarrow> j = k"
proof (induction j arbitrary: k)
  case 0
  then show ?case using min [of k] by (cases k) (auto simp: cyc_simps)
next
  case (Suc j)
  then show ?case
  proof (cases k)
    case 0
    with Suc.prems min [of "Suc j"] show ?thesis by (auto simp: cyc_simps)
  next
    case (Suc k')
    with Suc.prems have "cyc p i j = cyc p i k'"
      using pfun_inj [OF p] by (auto simp: cyc_simps inj_eq)
    with Suc.IH [of k'] Suc.prems Suc show ?thesis by auto
  qed
qed

definition cycle_state ::
  "nat list \<Rightarrow> nat \<Rightarrow> 'a list \<Rightarrow> bool list \<Rightarrow> nat \<Rightarrow> 'a list \<Rightarrow> bool list \<Rightarrow> bool" where
  "cycle_state p i xs marks k ys marks' \<longleftrightarrow>
     length ys = length xs \<and> length marks' = length marks \<and>
     (\<forall>j < k. ys ! cyc p i (Suc j) = xs ! cyc p i j) \<and>
     (\<forall>j < length xs. j \<notin> cyc p i ` {1..k} \<longrightarrow> ys ! j = xs ! j) \<and>
     (\<forall>j < length marks. marks' ! j \<longleftrightarrow> marks ! j \<or> j \<in> cyc p i ` {..<k})"

lemma cyc_less: "is_perm p n \<Longrightarrow> i < n \<Longrightarrow> cyc p i k < n"
  by (simp add: cyc_def pfun_pow_less)

lemma cyc_Suc_nth: "is_perm p n \<Longrightarrow> i < n \<Longrightarrow> cyc p i (Suc k) = p ! cyc p i k"
  by (simp add: cyc_simps pfun_def cyc_less is_perm_def)

lemma cycle_state_step:
  assumes p: "is_perm p n" and i: "i < n" and n: "length xs = n" "length marks = n"
    and m: "cyc p i m = i" "\<And>k. 0 < k \<Longrightarrow> k < m \<Longrightarrow> cyc p i k \<noteq> i"
    and k: "Suc k < m" and st: "cycle_state p i xs marks k ys marks'"
  shows "cycle_state p i xs marks (Suc k) (ys[cyc p i (Suc k) := xs ! cyc p i k])
      (marks'[cyc p i k := True])"
    and "ys ! cyc p i (Suc k) = xs ! cyc p i (Suc k)"
proof -
  have inj: "a < m \<Longrightarrow> b < m \<Longrightarrow> cyc p i a = cyc p i b \<Longrightarrow> a = b" for a b
    using cyc_inj [OF p i m(2)] by blast
  have new: "cyc p i (Suc k) \<notin> cyc p i ` {1..k}"
  proof
    assume "cyc p i (Suc k) \<in> cyc p i ` {1..k}"
    then obtain a where "a \<in> {1..k}" "cyc p i (Suc k) = cyc p i a" by blast
    with inj [of "Suc k" a] k show False by auto
  qed
  have ne: "j < k \<Longrightarrow> cyc p i (Suc j) \<noteq> cyc p i (Suc k)" for j
    using inj [of "Suc j" "Suc k"] k by auto
  show "ys ! cyc p i (Suc k) = xs ! cyc p i (Suc k)"
    using st new cyc_less [OF p i] n by (auto simp: cycle_state_def)
  show "cycle_state p i xs marks (Suc k) (ys[cyc p i (Suc k) := xs ! cyc p i k])
      (marks'[cyc p i k := True])"
    using st ne ne [THEN not_sym] cyc_less [OF p i] n
    by (auto simp: cycle_state_def nth_list_update less_Suc_eq atLeastAtMostSuc_conv lessThan_Suc)
qed

lemma cycle_loop_returns:
  assumes p: "is_perm p n" and i: "i < n" and n: "length xs = n" "length marks = n"
    and m: "cyc p i m = i" "\<And>k. 0 < k \<Longrightarrow> k < m \<Longrightarrow> cyc p i k \<noteq> i"
  shows "k < m \<Longrightarrow> cycle_state p i xs marks k ys marks' \<Longrightarrow>
    \<exists>ys' marks''. cycle_loop p i ys marks' (xs ! cyc p i k) (cyc p i k) (cyc p i (Suc k)) =
        Some (ys', marks'', xs ! cyc p i (m - 1), cyc p i (m - 1)) \<and>
      cycle_state p i xs marks (m - 1) ys' marks''"
proof (induction "m - k" arbitrary: k ys marks')
  case 0
  then show ?case by simp
next
  case (Suc d)
  show ?case
  proof (cases "Suc k = m")
    case True
    then have "cyc p i (Suc k) = i" using m(1) by simp
    then show ?thesis using Suc.prems True by (subst cycle_loop.simps) auto
  next
    case False
    with Suc.prems have k: "Suc k < m" by simp
    then have "cyc p i (Suc k) \<noteq> i" using m(2) by blast
    note step = cycle_state_step [OF p i n m k Suc.prems(2)]
    have "d = m - Suc k" using Suc.hyps(2) by simp
    from Suc.hyps(1) [OF this k step(1)] obtain ys' marks'' where
      "cycle_loop p i (ys[cyc p i (Suc k) := xs ! cyc p i k]) (marks'[cyc p i k := True])
         (xs ! cyc p i (Suc k)) (cyc p i (Suc k)) (cyc p i (Suc (Suc k))) =
       Some (ys', marks'', xs ! cyc p i (m - 1), cyc p i (m - 1))"
      "cycle_state p i xs marks (m - 1) ys' marks''" by blast
    then show ?thesis
      using \<open>cyc p i (Suc k) \<noteq> i\<close> step(2) cyc_Suc_nth [OF p i, of "Suc k"]
      by (subst cycle_loop.simps) auto
  qed
qed

text \<open>What one cycle does: a set \<open>C\<close> of indices that contains the start and is closed under
  the permutation; its elements move, nothing else does, and exactly \<open>C\<close> gets marked.\<close>

lemma permute_cycle_correct:
  assumes p: "is_perm p n" and i: "i < n" and n: "length xs = n" "length marks = n"
  obtains C ys marks' where "permute_cycle p i xs marks = Some (ys, marks')"
    "C = range (cyc p i)"
    "length ys = n" "length marks' = n"
    "\<And>x. x \<in> C \<Longrightarrow> ys ! (p ! x) = xs ! x"
    "\<And>x. x < n \<Longrightarrow> x \<notin> C \<Longrightarrow> ys ! x = xs ! x"
    "\<And>x. x < n \<Longrightarrow> marks' ! x \<longleftrightarrow> marks ! x \<or> x \<in> C"
proof -
  obtain m where m: "0 < m" "cyc p i m = i" "\<And>k. 0 < k \<Longrightarrow> k < m \<Longrightarrow> cyc p i k \<noteq> i"
    using pfun_cycle [OF p i] unfolding cyc_def by metis
  have "cycle_state p i xs marks 0 xs marks" by (simp add: cycle_state_def)
  from cycle_loop_returns [OF p i n m(2,3) m(1) this] obtain ys marks' where
    loop: "cycle_loop p i xs marks (xs ! i) i (p ! i) =
      Some (ys, marks', xs ! cyc p i (m - 1), cyc p i (m - 1))"
    and st: "cycle_state p i xs marks (m - 1) ys marks'"
    using cyc_Suc_nth [OF p i, of 0] by (auto simp: cyc_simps)
  have rng: "range (cyc p i) = cyc p i ` {..<m}"
  proof -
    have "cyc p i k \<in> cyc p i ` {..<m}" for k
    proof (induction k)
      case 0
      then show ?case using m(1) by (auto simp: image_iff)
    next
      case (Suc k)
      then obtain j where j: "j < m" "cyc p i k = cyc p i j" by auto
      then have "cyc p i (Suc k) = cyc p i (Suc j)" by (simp add: cyc_simps)
      show ?case
      proof (cases "Suc j = m")
        case True
        then have "cyc p i (Suc k) = cyc p i 0"
          using \<open>cyc p i (Suc k) = cyc p i (Suc j)\<close> m(2) by (simp add: cyc_simps(1))
        then show ?thesis using m(1) by blast
      next
        case False
        then show ?thesis using j(1) \<open>cyc p i (Suc k) = cyc p i (Suc j)\<close> by (intro image_eqI [of _ _ "Suc j"]) auto
      qed
    qed
    then show ?thesis by auto
  qed
  have inj: "a < m \<Longrightarrow> b < m \<Longrightarrow> cyc p i a = cyc p i b \<Longrightarrow> a = b" for a b
    using cyc_inj [OF p i m(3)] by blast
  have last: "cyc p i (Suc (m - 1)) = i" using m(1,2) by simp
  let ?ys = "ys[i := xs ! cyc p i (m - 1)]" and ?marks = "marks'[cyc p i (m - 1) := True]"
  show ?thesis
  proof (rule that [of ?ys ?marks])
    show "permute_cycle p i xs marks = Some (?ys, ?marks)"
      by (simp add: permute_cycle_def loop)
    show "length ?ys = n" "length ?marks = n" using st n by (auto simp: cycle_state_def)
    show "range (cyc p i) = range (cyc p i)" ..
    fix x
    {
      assume "x \<in> range (cyc p i)"
      then obtain j where j: "j < m" "x = cyc p i j" unfolding rng by blast
      have px: "p ! x = cyc p i (Suc j)" using j(2) cyc_Suc_nth [OF p i] by simp
      show "?ys ! (p ! x) = xs ! x"
      proof (cases "Suc j = m")
        case True
        then have "cyc p i (Suc j) = i" "j = m - 1" using m(2) by auto
        then show ?thesis using px j(2) st n i by (simp add: cycle_state_def)
      next
        case False
        then have "cyc p i (Suc j) \<noteq> i" using m(3) j(1) by auto
        then show ?thesis using px j st False by (simp add: cycle_state_def)
      qed
    }
    {
      assume x: "x < n" "x \<notin> range (cyc p i)"
      then have "x \<noteq> i" by (metis cyc_simps(1) rangeI)
      moreover have "x \<notin> cyc p i ` {1..m - 1}" using x(2) by blast
      ultimately show "?ys ! x = xs ! x" using x(1) st n by (simp add: cycle_state_def)
    }
    {
      assume x: "x < n"
      have lm: "length marks' = n" using st n by (simp add: cycle_state_def)
      have "cyc p i ` {..<m} = insert (cyc p i (m - 1)) (cyc p i ` {..<m - 1})"
        using arg_cong [OF lessThan_Suc [of "m - 1"], of "image (cyc p i)"] m(1) by simp
      moreover have "\<forall>j < length marks. marks' ! j \<longleftrightarrow> marks ! j \<or> j \<in> cyc p i ` {..<m - 1}"
        using st unfolding cycle_state_def by (elim conjE)
      then have "marks' ! x \<longleftrightarrow> marks ! x \<or> x \<in> cyc p i ` {..<m - 1}" using x n by simp
      moreover have "?marks ! x \<longleftrightarrow> x = cyc p i (m - 1) \<or> marks' ! x"
        using lm x cyc_less [OF p i, of "m - 1"] by (auto simp: nth_list_update)
      ultimately show "?marks ! x \<longleftrightarrow> marks ! x \<or> x \<in> range (cyc p i)"
        unfolding rng by blast
    }
  qed
qed

section \<open>The whole vector\<close>

definition perm_inv :: "nat list \<Rightarrow> 'a list \<Rightarrow> 'a list \<Rightarrow> bool list \<Rightarrow> bool" where
  "perm_inv p xs ys marks \<longleftrightarrow>
     length ys = length xs \<and> length marks = length xs \<and>
     (\<forall>x < length xs. marks ! x \<longrightarrow> marks ! (p ! x) \<and> ys ! (p ! x) = xs ! x) \<and>
     (\<forall>x < length xs. \<not> marks ! x \<longrightarrow> ys ! x = xs ! x)"

lemma permute_indices_returns:
  assumes p: "is_perm p (length xs)"
  shows "perm_inv p xs ys marks \<Longrightarrow> set indices \<subseteq> {..<length xs} \<Longrightarrow>
    \<exists>ys' marks'. permute_indices p indices ys marks = Some (ys', marks') \<and> perm_inv p xs ys' marks' \<and>
      (\<forall>x < length xs. marks ! x \<or> x \<in> set indices \<longrightarrow> marks' ! x)"
proof (induction indices arbitrary: ys marks)
  case Nil
  then show ?case by auto
next
  case (Cons i indices)
  then have i: "i < length xs" and is_less: "set indices \<subseteq> {..<length xs}" by auto
  note inv = Cons.prems(1)
  show ?case
  proof (cases "marks ! i")
    case True
    from Cons.IH [OF inv is_less] obtain ys' marks' where
      "permute_indices p indices ys marks = Some (ys', marks')" "perm_inv p xs ys' marks'"
      "\<forall>x < length xs. marks ! x \<or> x \<in> set indices \<longrightarrow> marks' ! x" by blast
    with True i show ?thesis by auto
  next
    case nm: False
    show ?thesis
    proof (cases "p ! i = i")
      case True
      have "perm_inv p xs ys (marks[i := True])"
        using inv True i nm by (auto simp: perm_inv_def nth_list_update)
      from Cons.IH [OF this is_less] obtain ys' marks' where
        "permute_indices p indices ys (marks[i := True]) = Some (ys', marks')" "perm_inv p xs ys' marks'"
        "\<forall>x < length xs. marks[i := True] ! x \<or> x \<in> set indices \<longrightarrow> marks' ! x" by blast
      with True nm i inv show ?thesis by (auto simp: perm_inv_def nth_list_update)
    next
      case False
      have len: "length ys = length xs" "length marks = length xs" using inv by (auto simp: perm_inv_def)
      obtain C zs marks1 where pc: "permute_cycle p i ys marks = Some (zs, marks1)"
        and C: "C = range (cyc p i)" and lens: "length zs = length xs" "length marks1 = length xs"
        and moved: "\<And>x. x \<in> C \<Longrightarrow> zs ! (p ! x) = ys ! x"
        and same: "\<And>x. x < length xs \<Longrightarrow> x \<notin> C \<Longrightarrow> zs ! x = ys ! x"
        and marks1: "\<And>x. x < length xs \<Longrightarrow> marks1 ! x \<longleftrightarrow> marks ! x \<or> x \<in> C"
        by (rule permute_cycle_correct [OF p i len]) (rule that; assumption)
      have Cn: "x \<in> C \<Longrightarrow> x < length xs" for x using C cyc_less [OF p i] by auto
      have closed: "x \<in> C \<Longrightarrow> p ! x \<in> C" for x
        using C cyc_Suc_nth [OF p i, symmetric] by auto
      have "\<not> marks ! cyc p i k" for k
      proof
        assume mk: "marks ! cyc p i k"
        have fwd: "marks ! cyc p i (k + j)" for j
        proof (induction j)
          case (Suc j)
          then show ?case
            using inv cyc_less [OF p i, of "k + j"] cyc_Suc_nth [OF p i, of "k + j"]
            by (auto simp: perm_inv_def)
        qed (simp add: mk)
        obtain m where m: "0 < m" "cyc p i m = i"
          using pfun_cycle [OF p i] unfolding cyc_def by metis
        have "cyc p i (j * m) = i" for j
          using m(2) unfolding cyc_def by (induction j) (simp_all add: funpow_add)
        moreover have "k \<le> k * m" using m(1) by simp
        ultimately show False using fwd [of "k * m - k"] nm by simp
      qed
      then have fresh: "x \<in> C \<Longrightarrow> \<not> marks ! x" for x using C by auto
      have "perm_inv p xs zs marks1"
        unfolding perm_inv_def
      proof (intro conjI allI impI)
        fix x assume x: "x < length xs"
        {
          assume "marks1 ! x"
          then consider "marks ! x" | "x \<in> C" using marks1 [OF x] by blast
          then show "marks1 ! (p ! x)" "zs ! (p ! x) = xs ! x"
          proof (atomize (full), cases)
            case 1
            with inv x have "marks ! (p ! x)" "ys ! (p ! x) = xs ! x" by (auto simp: perm_inv_def)
            moreover from this fresh have "p ! x \<notin> C" by blast
            ultimately show "marks1 ! (p ! x) \<and> zs ! (p ! x) = xs ! x"
              using marks1 same is_perm_less [OF p x] by auto
          next
            case 2
            then have "ys ! x = xs ! x" using inv x fresh by (auto simp: perm_inv_def)
            with 2 show "marks1 ! (p ! x) \<and> zs ! (p ! x) = xs ! x"
              using marks1 closed moved is_perm_less [OF p x] by auto
          qed
        }
        {
          assume "\<not> marks1 ! x"
          then show "zs ! x = xs ! x" using marks1 [OF x] same [OF x] inv x by (auto simp: perm_inv_def)
        }
      qed (use lens in auto)
      from Cons.IH [OF this is_less] obtain ys' marks' where
        "permute_indices p indices zs marks1 = Some (ys', marks')" "perm_inv p xs ys' marks'"
        "\<forall>x < length xs. marks1 ! x \<or> x \<in> set indices \<longrightarrow> marks' ! x" by blast
      moreover have "i \<in> C" using C by (metis cyc_simps(1) rangeI)
      ultimately show ?thesis using False nm i pc marks1 by auto
    qed
  qed
qed

lemma permute_indices_vector:
  assumes "is_perm old_to_new (length xs)"
  shows "\<exists>ys. inplacePermutation old_to_new xs = Some ys \<and> length ys = length xs \<and>
    (\<forall>x < length xs. ys ! (old_to_new ! x) = xs ! x)"
proof -
  have "perm_inv old_to_new xs xs (replicate (length xs) False)" by (simp add: perm_inv_def)
  then have "\<exists>ys marks. permute_indices old_to_new [0..<length xs] xs (replicate (length xs) False) =
      Some (ys, marks) \<and> perm_inv old_to_new xs ys marks \<and> (\<forall>x < length xs. marks ! x)"
    using permute_indices_returns [OF assms, of xs _ "[0..<length xs]"] by (simp add: atLeast0LessThan)
  then obtain ys marks where
    "permute_indices old_to_new [0..<length xs] xs (replicate (length xs) False) = Some (ys, marks)"
    "perm_inv old_to_new xs ys marks" "\<forall>x < length xs. marks ! x" by blast
  then show ?thesis by (auto simp: inplacePermutation_def perm_inv_def)
qed

text \<open>
  Property C18. On a permutation \<^verbatim>\<open>inplacePermutation\<close> returns, keeps the length and
  puts the element of every index \<open>x\<close> at index \<open>old_to_new ! x\<close>.
\<close>

theorem inplacePermutation_correct:
  assumes "is_perm old_to_new (length xs)"
  shows "\<exists>ys. inplacePermutation old_to_new xs = Some ys \<and> length ys = length xs \<and>
    (\<forall>x < length xs. ys ! (old_to_new ! x) = xs ! x)"
  using assms by (rule permute_indices_vector)

lemma inplacePermutation_correct_witness:
  "is_perm [2, 0, 1, 3] (length ''abcd'') \<and> inplacePermutation [2, 0, 1, 3] ''abcd'' = Some ''bcad''"
proof -
  have p: "is_perm [2, 0, 1, 3] (length ''abcd'')" by (simp add: is_perm_def)
  from inplacePermutation_correct [OF p] obtain ys where
    ys: "inplacePermutation [2, 0, 1, 3] ''abcd'' = Some ys" "length ys = 4"
      "\<forall>x < 4. ys ! ([2, 0, 1, 3] ! x) = ''abcd'' ! x" by auto
  have "ys = [ys ! 0, ys ! 1, ys ! 2, ys ! 3]"
    using ys(2) by (auto simp: length_Suc_conv eval_nat_numeral)
  moreover have "ys ! 2 = CHR ''a''" "ys ! 0 = CHR ''b''" "ys ! 1 = CHR ''c''" "ys ! 3 = CHR ''d''"
    using ys(3) by (auto simp: eval_nat_numeral less_Suc_eq all_conj_distrib)
  ultimately have "ys = ''bcad''" by simp
  with p ys(1) show ?thesis by simp
qed

section \<open>Orderings\<close>

lemma orderingToPermutation_loop_nth:
  assumes "is_perm order_of n" "length pm = n" "set indices \<subseteq> {..<n}"
  shows "length (orderingToPermutation_loop order_of indices pm) = n \<and>
    (\<forall>i < n. orderingToPermutation_loop order_of indices pm ! (order_of ! i) =
       (if i \<in> set indices then i else pm ! (order_of ! i)))"
  using assms(2,3)
proof (induction indices arbitrary: pm)
  case (Cons j indices)
  then have j: "j < n" "set indices \<subseteq> {..<n}" by auto
  have "pm[order_of ! j := j] ! (order_of ! i) = (if i = j then j else pm ! (order_of ! i))"
    if "i < n" for i
    using Cons.prems(1) that j(1) is_perm_inj [OF assms(1), of i j] is_perm_less [OF assms(1)]
    by (auto simp: nth_list_update)
  with Cons.IH [of "pm[order_of ! j := j]"] Cons.prems(1) j(2) show ?case by auto
qed simp

lemma orderingToPermutation_nth:
  assumes "is_perm order_of n"
  shows "length (orderingToPermutation order_of) = n"
    and "i < n \<Longrightarrow> orderingToPermutation order_of ! (order_of ! i) = i"
  using orderingToPermutation_loop_nth [OF assms, of "replicate n 0" "[0..<n]"] assms
  by (auto simp: orderingToPermutation_def is_perm_def atLeast0LessThan)

lemma orderingToPermutation_perm:
  assumes "is_perm order_of n"
  shows "is_perm (orderingToPermutation order_of) n"
proof -
  let ?p = "orderingToPermutation order_of"
  note nth = orderingToPermutation_nth [OF assms]
  have val: "\<exists>i < n. j = order_of ! i \<and> ?p ! j = i" if "j < n" for j
    using is_perm_surj [OF assms that] nth(2) by blast
  have "set ?p \<subseteq> {..<n}" using val nth(1) by (force simp: in_set_conv_nth)
  moreover have "distinct ?p"
    unfolding distinct_conv_nth nth(1)
  proof (intro allI impI notI)
    fix i j assume "i < n" "j < n" "i \<noteq> j" "?p ! i = ?p ! j"
    with val [of i] val [of j] show False by auto
  qed
  ultimately show ?thesis using nth(1) by (simp add: is_perm_def)
qed

lemma orderingToPermutation_unique:
  assumes "is_perm ord n" "length q = n" "\<forall>k < n. q ! (ord ! k) = k"
  shows "q = orderingToPermutation ord"
proof (rule nth_equalityI)
  show "length q = length (orderingToPermutation ord)"
    using assms orderingToPermutation_nth(1) by simp
  fix i assume "i < length q"
  then obtain k where "k < n" "ord ! k = i" using is_perm_surj [OF assms(1)] assms(2) by blast
  with assms(3) orderingToPermutation_nth(2) [OF assms(1)] show "q ! i = orderingToPermutation ord ! i"
    by auto
qed

lemma permute_ordering:
  assumes "is_perm order_of (length xs)"
  shows "inplacePermutation (orderingToPermutation order_of) xs = Some (map ((!) xs) order_of)"
proof -
  let ?p = "orderingToPermutation order_of"
  have "length xs = length order_of" using assms by (simp add: is_perm_def)
  moreover obtain ys where "inplacePermutation ?p xs = Some ys" "length ys = length xs"
    "\<forall>x < length xs. ys ! (?p ! x) = xs ! x"
    using permute_indices_vector [OF orderingToPermutation_perm [OF assms]] by blast
  moreover from this have "ys ! i = xs ! (order_of ! i)" if "i < length xs" for i
    using that orderingToPermutation_nth(2) [OF assms that] is_perm_less [OF assms that] by metis
  ultimately show ?thesis by (auto intro: nth_equalityI)
qed

text \<open>
  Sorting through an ordering: if \<open>order_of\<close> lists the old index of every new
  position, \<^verbatim>\<open>inplacePermutation\<close> with \<^verbatim>\<open>orderingToPermutation\<close> of it returns the elements in
  that order.
\<close>

theorem permute_by_ordering:
  assumes "is_perm order_of (length xs)"
  shows "inplacePermutation (orderingToPermutation order_of) xs = Some (map ((!) xs) order_of)"
  by (rule permute_ordering [OF assms])

lemma permute_by_ordering_witness:
  "is_perm [1, 2, 0] (length ''abc'') \<and>
   inplacePermutation (orderingToPermutation [1, 2, 0]) ''abc'' = Some ''bca''"
  using permute_by_ordering [of "[1, 2, 0]" "''abc''"] by (simp add: is_perm_def)

end
