(* ===== verification/DynamicGraph.thy ===== *)
theory DynamicGraph
  imports Permutation
begin

text \<open>
  The mutable adjacency array of the contractor,
  \<^verbatim>\<open>custom-osrm/include/util/dynamic_graph.hpp\<close>.

  The edges of a node occupy a range of \<^verbatim>\<open>edge_list\<close>; free slots carry the largest node id
  as their target (dummies).  Inserting an edge uses a free slot behind the range, then one
  before it, and otherwise moves the range to the end of the list.

  The template's edge data is the type variable \<open>'d\<close>.  New slots of \<^verbatim>\<open>edge_list\<close> hold what
  the allocator left there: the argument \<open>junk\<close>.
\<close>

section \<open>Data\<close>

record DynamicNode =
  dn_first_edge :: nat
  dn_edges :: nat

record 'd DynamicEdge =
  de_target :: NodeID
  de_data :: 'd

record 'd DynamicGraph =
  dg_number_of_nodes :: nat
  dg_number_of_edges :: nat
  dg_node_array :: "DynamicNode list"
  dg_edge_list :: "'d DynamicEdge list"

record 'd InputEdge =
  ie_source :: NodeID
  ie_target :: NodeID
  ie_data :: 'd

definition ie_less :: "'d InputEdge \<Rightarrow> 'd InputEdge \<Rightarrow> bool" where
  "ie_less lhs rhs \<longleftrightarrow>
     ie_source lhs < ie_source rhs \<or>
     ie_source lhs = ie_source rhs \<and> ie_target lhs < ie_target rhs"

section \<open>Construction\<close>

definition dg_empty :: "'d DynamicEdge \<Rightarrow> nat \<Rightarrow> 'd DynamicGraph" where
  "dg_empty junk nodes =
     \<lparr>dg_number_of_nodes = nodes, dg_number_of_edges = 0,
      dg_node_array = replicate nodes \<lparr>dn_first_edge = 0, dn_edges = 0\<rparr>,
      dg_edge_list = replicate nodes junk\<rparr>"

text \<open>The first loop of the constructor counts the edges of every node.\<close>

fun dg_count_loop ::
  "'d InputEdge list \<Rightarrow> nat list \<Rightarrow> nat \<Rightarrow> nat \<Rightarrow> DynamicNode list \<Rightarrow> DynamicNode list \<times> nat" where
  "dg_count_loop graph [] edge position node_array = (node_array, position)"
| "dg_count_loop graph (node # nodes) edge position node_array =
     (let last_edge = edge;
          edge' = skip_key ie_source graph node edge;
          n = \<lparr>dn_first_edge = position, dn_edges = edge' - last_edge\<rparr>
      in dg_count_loop graph nodes edge' (position + dn_edges n) (node_array[node := n]))"

text \<open>The second loop writes the edges of every node into its range.\<close>

fun dg_write_range ::
  "'d InputEdge list \<Rightarrow> nat list \<Rightarrow> nat \<Rightarrow> 'd DynamicEdge list \<Rightarrow> 'd DynamicEdge list \<times> nat" where
  "dg_write_range graph [] edge edge_list = (edge_list, edge)"
| "dg_write_range graph (i # is) edge edge_list =
     dg_write_range graph is (Suc edge)
       (edge_list[i := \<lparr>de_target = ie_target (graph ! edge), de_data = ie_data (graph ! edge)\<rparr>])"

fun dg_write_loop ::
  "'d InputEdge list \<Rightarrow> DynamicNode list \<Rightarrow> nat list \<Rightarrow> nat \<Rightarrow> 'd DynamicEdge list \<Rightarrow>
   'd DynamicEdge list" where
  "dg_write_loop graph node_array [] edge edge_list = edge_list"
| "dg_write_loop graph node_array (node # nodes) edge edge_list =
     (let first = dn_first_edge (node_array ! node);
          (edge_list', edge') =
            dg_write_range graph [first..<first + dn_edges (node_array ! node)] edge edge_list
      in dg_write_loop graph node_array nodes edge' edge_list')"

definition dg_construct :: "'d DynamicEdge \<Rightarrow> nat \<Rightarrow> 'd InputEdge list \<Rightarrow> 'd DynamicGraph" where
  "dg_construct junk nodes graph =
     (let (node_array, position) =
            dg_count_loop graph [0..<nodes] 0 0
              (replicate nodes \<lparr>dn_first_edge = 0, dn_edges = 0\<rparr>)
      in \<lparr>dg_number_of_nodes = nodes, dg_number_of_edges = length graph,
          dg_node_array = node_array,
          dg_edge_list = dg_write_loop graph node_array [0..<nodes] 0 (replicate position junk)\<rparr>)"

section \<open>Queries\<close>

definition dg_out_degree :: "'d DynamicGraph \<Rightarrow> NodeID \<Rightarrow> nat" where
  "dg_out_degree g n = dn_edges (dg_node_array g ! n)"

definition dg_begin :: "'d DynamicGraph \<Rightarrow> NodeID \<Rightarrow> EdgeID" where
  "dg_begin g n = dn_first_edge (dg_node_array g ! n)"

definition dg_end :: "'d DynamicGraph \<Rightarrow> NodeID \<Rightarrow> EdgeID" where
  "dg_end g n = dn_first_edge (dg_node_array g ! n) + dn_edges (dg_node_array g ! n)"

definition dg_edge_range :: "'d DynamicGraph \<Rightarrow> NodeID \<Rightarrow> EdgeID list" where
  "dg_edge_range g node = [dg_begin g node..<dg_end g node]"

definition dg_target :: "'d DynamicGraph \<Rightarrow> EdgeID \<Rightarrow> NodeID" where
  "dg_target g e = de_target (dg_edge_list g ! e)"

definition dg_data :: "'d DynamicGraph \<Rightarrow> EdgeID \<Rightarrow> 'd" where
  "dg_data g e = de_data (dg_edge_list g ! e)"

text \<open>Assignment through the reference \<^verbatim>\<open>GetEdgeData\<close> returns, and \<^verbatim>\<open>SetTarget\<close>.\<close>

definition dg_set_data :: "'d DynamicGraph \<Rightarrow> EdgeID \<Rightarrow> 'd \<Rightarrow> 'd DynamicGraph" where
  "dg_set_data g e d =
     g\<lparr>dg_edge_list := (dg_edge_list g)[e := (dg_edge_list g ! e)\<lparr>de_data := d\<rparr>]\<rparr>"

definition dg_set_target :: "'d DynamicGraph \<Rightarrow> EdgeID \<Rightarrow> NodeID \<Rightarrow> 'd DynamicGraph" where
  "dg_set_target g e n =
     g\<lparr>dg_edge_list := (dg_edge_list g)[e := (dg_edge_list g ! e)\<lparr>de_target := n\<rparr>]\<rparr>"

text \<open>The \<^verbatim>\<open>reversed\<close> and \<^verbatim>\<open>distance\<close> members of the edge data are the arguments
  \<open>reversed\<close> and \<open>distance\<close>.\<close>

definition dg_directed_out_degree :: "('d \<Rightarrow> bool) \<Rightarrow> 'd DynamicGraph \<Rightarrow> NodeID \<Rightarrow> nat" where
  "dg_directed_out_degree reversed g n =
     foldl (\<lambda>degree edge. if \<not> reversed (dg_data g edge) then Suc degree else degree) 0
       [dg_begin g n..<dg_end g n]"

definition dg_find_edge :: "'d DynamicGraph \<Rightarrow> NodeID \<Rightarrow> NodeID \<Rightarrow> EdgeID" where
  "dg_find_edge g from to =
     (case find (\<lambda>i. to = de_target (dg_edge_list g ! i)) [dg_begin g from..<dg_end g from] of
        Some i \<Rightarrow> i
      | None \<Rightarrow> SPECIAL_EDGEID)"

definition dg_find_smallest_edge ::
  "('d \<Rightarrow> EdgeWeight) \<Rightarrow> 'd DynamicGraph \<Rightarrow> NodeID \<Rightarrow> NodeID \<Rightarrow> EdgeID" where
  "dg_find_smallest_edge distance g from to =
     fst (min_scan (\<lambda>edge. dg_target g edge = to) (\<lambda>edge. distance (dg_data g edge))
            (dg_edge_range g from) (SPECIAL_EDGEID, INVALID_EDGE_WEIGHT))"

definition dg_find_edge_in_either_direction ::
  "'d DynamicGraph \<Rightarrow> NodeID \<Rightarrow> NodeID \<Rightarrow> EdgeID" where
  "dg_find_edge_in_either_direction g from to =
     (let tmp = dg_find_edge g from to
      in if SPECIAL_NODEID \<noteq> tmp then tmp else dg_find_edge g to from)"

text \<open>The output parameter \<^verbatim>\<open>result\<close> is the second component, its old value an argument.\<close>

definition dg_find_edge_indicate_if_reverse ::
  "'d DynamicGraph \<Rightarrow> NodeID \<Rightarrow> NodeID \<Rightarrow> bool \<Rightarrow> EdgeID \<times> bool" where
  "dg_find_edge_indicate_if_reverse g from to result =
     (let current = dg_find_edge g from to
      in if SPECIAL_NODEID = current
         then (let current' = dg_find_edge g to from
               in (current', if SPECIAL_NODEID \<noteq> current' then True else result))
         else (current, result))"

section \<open>Updates\<close>

definition is_dummy :: "'d DynamicEdge list \<Rightarrow> nat \<Rightarrow> bool" where
  "is_dummy edge_list edge \<longleftrightarrow> de_target (edge_list ! edge) = SPECIAL_NODEID"

definition make_dummy :: "'d DynamicEdge list \<Rightarrow> nat \<Rightarrow> 'd DynamicEdge list" where
  "make_dummy edge_list edge =
     edge_list[edge := (edge_list ! edge)\<lparr>de_target := SPECIAL_NODEID\<rparr>]"

definition dg_insert_node :: "'d DynamicGraph \<Rightarrow> 'd DynamicGraph \<times> nat" where
  "dg_insert_node g =
     (g\<lparr>dg_node_array := dg_node_array g @ [last (dg_node_array g)],
        dg_number_of_nodes := dg_number_of_nodes g + 1\<rparr>, dg_number_of_nodes g + 1)"

text \<open>The move of a node's range to the end of the list, and the dummies behind it.\<close>

definition dg_move_edges ::
  "nat \<Rightarrow> nat \<Rightarrow> nat list \<Rightarrow> 'd DynamicEdge list \<Rightarrow> 'd DynamicEdge list" where
  "dg_move_edges first newFirstEdge is edge_list =
     foldl (\<lambda>els i. make_dummy (els[newFirstEdge + i := els ! (first + i)]) (first + i))
       edge_list is"

definition dg_make_dummies :: "nat \<Rightarrow> nat list \<Rightarrow> 'd DynamicEdge list \<Rightarrow> 'd DynamicEdge list" where
  "dg_make_dummies newFirstEdge is edge_list =
     foldl (\<lambda>els i. make_dummy els (newFirstEdge + i)) edge_list is"

text \<open>\<^verbatim>\<open>node.edges * 1.1 + 2\<close>, truncated, is \<open>edges * 11 div 10 + 2\<close> for every 32-bit count.
  Reserving capacity does not change the list.\<close>

definition dg_make_room ::
  "'d DynamicEdge \<Rightarrow> DynamicNode \<Rightarrow> 'd DynamicEdge list \<Rightarrow> nat \<times> 'd DynamicEdge list" where
  "dg_make_room junk node edge_list =
     (let one_beyond_last_of_node = dn_edges node + dn_first_edge node
      in if one_beyond_last_of_node = length edge_list \<or>
            \<not> is_dummy edge_list one_beyond_last_of_node
         then if dn_first_edge node \<noteq> 0 \<and> is_dummy edge_list (dn_first_edge node - 1)
              then (let first = dn_first_edge node - 1
                    in (first, edge_list[first := edge_list ! (first + dn_edges node)]))
              else (let newFirstEdge = length edge_list;
                        newSize = dn_edges node * 11 div 10 + 2;
                        els1 = edge_list @ replicate newSize junk;
                        els2 = dg_move_edges (dn_first_edge node) newFirstEdge
                                 [0..<dn_edges node] els1;
                        els3 = dg_make_dummies newFirstEdge [dn_edges node + 1..<newSize] els2
                    in (newFirstEdge, els3))
         else (dn_first_edge node, edge_list))"

definition dg_insert_edge ::
  "'d DynamicEdge \<Rightarrow> 'd DynamicGraph \<Rightarrow> NodeID \<Rightarrow> NodeID \<Rightarrow> 'd \<Rightarrow> 'd DynamicGraph \<times> EdgeID" where
  "dg_insert_edge junk g from to data =
     (let node = dg_node_array g ! from;
          (first, els) = dg_make_room junk node (dg_edge_list g);
          node' = \<lparr>dn_first_edge = first, dn_edges = Suc (dn_edges node)\<rparr>
      in (g\<lparr>dg_edge_list := els[first + dn_edges node := \<lparr>de_target = to, de_data = data\<rparr>],
            dg_number_of_edges := Suc (dg_number_of_edges g),
            dg_node_array := (dg_node_array g)[from := node']\<rparr>,
          dn_first_edge node' + dn_edges node'))"

text \<open>Overwriting a slot with the last one of the range and freeing the last one.\<close>

definition drop_slot :: "'d DynamicEdge list \<Rightarrow> nat \<Rightarrow> nat \<Rightarrow> 'd DynamicEdge list" where
  "drop_slot edge_list i lst = make_dummy (edge_list[i := edge_list ! lst]) lst"

definition dg_delete_edge :: "'d DynamicGraph \<Rightarrow> NodeID \<Rightarrow> EdgeID \<Rightarrow> 'd DynamicGraph" where
  "dg_delete_edge g source e =
     (let node = dg_node_array g ! source;
          edges' = (if dn_edges node = 0 then 4294967295 else dn_edges node - 1);
          last_slot = dn_first_edge node + edges'
      in g\<lparr>dg_number_of_edges :=
             (if dg_number_of_edges g = 0 then 4294967295 else dg_number_of_edges g - 1),
           dg_node_array := (dg_node_array g)[source := node\<lparr>dn_edges := edges'\<rparr>],
           dg_edge_list := drop_slot (dg_edge_list g) e last_slot\<rparr>)"

text \<open>The \<^verbatim>\<open>do\<close> loop of \<^verbatim>\<open>DeleteEdgesTo\<close>, entered at a slot whose target is deleted.\<close>

function dg_delete_here ::
  "NodeID \<Rightarrow> nat \<Rightarrow> nat \<Rightarrow> 'd DynamicEdge list \<Rightarrow> nat \<Rightarrow> 'd DynamicEdge list \<times> nat" where
  "dg_delete_here target i iend els deleted =
     (let deleted' = Suc deleted;
          els' = drop_slot els i (iend - deleted')
      in if i < iend - deleted' \<and> de_target (els' ! i) = target
         then dg_delete_here target i iend els' deleted'
         else (els', deleted'))"
  by pat_completeness auto
termination
  by (relation "measure (\<lambda>(target, i, iend, els, deleted). iend - deleted)") auto

function dg_delete_loop ::
  "NodeID \<Rightarrow> nat \<Rightarrow> nat \<Rightarrow> 'd DynamicEdge list \<Rightarrow> nat \<Rightarrow> 'd DynamicEdge list \<times> nat" where
  "dg_delete_loop target i iend els deleted =
     (if i < iend - deleted
      then if de_target (els ! i) = target
           then (let (els', deleted') = dg_delete_here target i iend els deleted
                 in dg_delete_loop target (Suc i) iend els' deleted')
           else dg_delete_loop target (Suc i) iend els deleted
      else (els, deleted))"
  by pat_completeness auto
termination
  by (relation "measure (\<lambda>(target, i, iend, els, deleted). iend - i)") auto

declare dg_delete_here.simps [simp del] dg_delete_loop.simps [simp del]

definition dg_delete_edges_to :: "'d DynamicGraph \<Rightarrow> NodeID \<Rightarrow> NodeID \<Rightarrow> 'd DynamicGraph \<times> nat" where
  "dg_delete_edges_to g source target =
     (let (els, deleted) =
            dg_delete_loop target (dg_begin g source) (dg_end g source) (dg_edge_list g) 0;
          node = dg_node_array g ! source
      in (g\<lparr>dg_edge_list := els, dg_number_of_edges := dg_number_of_edges g - deleted,
            dg_node_array :=
              (dg_node_array g)[source := node\<lparr>dn_edges := dn_edges node - deleted\<rparr>]\<rparr>,
          deleted))"

section \<open>Filter and renumbering\<close>

text \<open>\<^verbatim>\<open>Filter\<close> copies the node array and the edges that pass; the edge counter is copied
  as it is.\<close>

fun dg_filter_loop ::
  "(NodeID \<Rightarrow> bool) \<Rightarrow> 'd DynamicEdge list \<Rightarrow> DynamicNode list \<Rightarrow> NodeID \<Rightarrow> 'd DynamicEdge list \<Rightarrow>
   DynamicNode list \<times> 'd DynamicEdge list" where
  "dg_filter_loop flt edge_list [] node_id out = ([], out)"
| "dg_filter_loop flt edge_list (node # nodes) node_id out =
     (let first_edge = length out;
          (n, out') =
            (if flt node_id
             then (let out' = out @ filter (\<lambda>edge. flt (de_target edge))
                          (slice edge_list (dn_first_edge node)
                             (dn_first_edge node + dn_edges node))
                   in (\<lparr>dn_first_edge = first_edge, dn_edges = length out' - first_edge\<rparr>, out'))
             else (\<lparr>dn_first_edge = first_edge, dn_edges = 0\<rparr>, out));
          (ns, out'') = dg_filter_loop flt edge_list nodes (Suc node_id) out'
      in (n # ns, out''))"

definition dg_filter :: "(NodeID \<Rightarrow> bool) \<Rightarrow> 'd DynamicGraph \<Rightarrow> 'd DynamicGraph" where
  "dg_filter flt g =
     (let (nodes, els) = dg_filter_loop flt (dg_edge_list g) (dg_node_array g) 0 []
      in \<lparr>dg_number_of_nodes = dg_number_of_nodes g, dg_number_of_edges = dg_number_of_edges g,
          dg_node_array = nodes, dg_edge_list = els\<rparr>)"

text \<open>\<^verbatim>\<open>Renumber\<close>: permute the nodes, number the used slots node by node, then the free
  ones, permute the slots and cut the free ones off.  The exception for \<open>2 ^ 32\<close> or more
  slots is \<open>Inl\<close>; \<open>None\<close> is a permutation that does not return.\<close>

datatype graph_error = TooManyEdges

fun dg_renumber_range ::
  "nat list \<Rightarrow> nat list \<Rightarrow> 'd DynamicEdge list \<Rightarrow> nat list \<Rightarrow> nat \<Rightarrow>
   'd DynamicEdge list \<times> nat list \<times> nat" where
  "dg_renumber_range old_to_new_node [] els old_to_new_edge new_edge_index =
     (els, old_to_new_edge, new_edge_index)"
| "dg_renumber_range old_to_new_node (edge # edges) els old_to_new_edge new_edge_index =
     dg_renumber_range old_to_new_node edges
       (els[edge := (els ! edge)\<lparr>de_target := old_to_new_node ! de_target (els ! edge)\<rparr>])
       (old_to_new_edge[edge := new_edge_index]) (Suc new_edge_index)"

fun dg_renumber_nodes ::
  "nat list \<Rightarrow> nat list \<Rightarrow> DynamicNode list \<Rightarrow> 'd DynamicEdge list \<Rightarrow> nat list \<Rightarrow> nat \<Rightarrow>
   DynamicNode list \<times> 'd DynamicEdge list \<times> nat list \<times> nat" where
  "dg_renumber_nodes old_to_new_node [] na els old_to_new_edge new_edge_index =
     (na, els, old_to_new_edge, new_edge_index)"
| "dg_renumber_nodes old_to_new_node (node # nodes) na els old_to_new_edge new_edge_index =
     (let new_first_edge = new_edge_index;
          first = dn_first_edge (na ! node);
          (els', ote', idx') =
            dg_renumber_range old_to_new_node [first..<first + dn_edges (na ! node)] els
              old_to_new_edge new_edge_index
      in dg_renumber_nodes old_to_new_node nodes
           (na[node := (na ! node)\<lparr>dn_first_edge := new_first_edge\<rparr>]) els' ote' idx')"

fun dg_renumber_dummies :: "nat list \<Rightarrow> nat list \<Rightarrow> nat \<Rightarrow> nat list \<times> nat" where
  "dg_renumber_dummies [] old_to_new_edge new_edge_index = (old_to_new_edge, new_edge_index)"
| "dg_renumber_dummies (edge # edges) old_to_new_edge new_edge_index =
     (if old_to_new_edge ! edge = SPECIAL_EDGEID
      then dg_renumber_dummies edges (old_to_new_edge[edge := new_edge_index]) (Suc new_edge_index)
      else dg_renumber_dummies edges old_to_new_edge new_edge_index)"

definition dg_renumber ::
  "nat list \<Rightarrow> 'd DynamicGraph \<Rightarrow> (graph_error + 'd DynamicGraph) option" where
  "dg_renumber old_to_new_node g =
     (case inplacePermutation old_to_new_node (dg_node_array g) of
        None \<Rightarrow> None
      | Some na \<Rightarrow>
          if length (dg_edge_list g) \<ge> SPECIAL_EDGEID then Some (Inl TooManyEdges)
          else
            (let els = dg_edge_list g;
                 (na', els', ote, valid) =
                   dg_renumber_nodes old_to_new_node [0..<dg_number_of_nodes g] na els
                     (replicate (length els) SPECIAL_EDGEID) 0;
                 (ote', total) = dg_renumber_dummies [0..<length els] ote valid
             in (case inplacePermutation ote' els' of
                   None \<Rightarrow> None
                 | Some els'' \<Rightarrow>
                     Some (Inr (g\<lparr>dg_node_array := na', dg_edge_list := take valid els'',
                                  dg_number_of_edges := valid\<rparr>)))))"

section \<open>The invariant\<close>

text \<open>The slots of a node, and its edges.\<close>

definition dg_slots :: "'d DynamicGraph \<Rightarrow> NodeID \<Rightarrow> nat set" where
  "dg_slots g n = {dg_begin g n..<dg_end g n}"

definition dg_adj :: "'d DynamicGraph \<Rightarrow> NodeID \<Rightarrow> 'd DynamicEdge list" where
  "dg_adj g n = slice (dg_edge_list g) (dg_begin g n) (dg_end g n)"

text \<open>Ranges lie in the list, hold no dummies and do not overlap.\<close>

definition dg_inv :: "'d DynamicGraph \<Rightarrow> bool" where
  "dg_inv g \<longleftrightarrow> length (dg_node_array g) = dg_number_of_nodes g \<and>
     (\<forall>n < dg_number_of_nodes g. dg_end g n \<le> length (dg_edge_list g) \<and>
        (\<forall>i \<in> dg_slots g n. \<not> is_dummy (dg_edge_list g) i)) \<and>
     (\<forall>n < dg_number_of_nodes g. \<forall>m < dg_number_of_nodes g. n \<noteq> m \<longrightarrow> dg_slots g n \<inter> dg_slots g m = {})"

lemma dg_adj_edges:
  "dg_adj g n = map ((!) (dg_edge_list g)) (dg_edge_range g n)"
  by (simp add: dg_adj_def dg_edge_range_def slice_def)

lemma dg_inv_slot:
  assumes "dg_inv g" "n < dg_number_of_nodes g" "i \<in> dg_slots g n"
  shows "i < length (dg_edge_list g)" "\<not> is_dummy (dg_edge_list g) i"
  using assms by (auto simp: dg_inv_def dg_slots_def)

lemma dg_inv_disjoint:
  assumes "dg_inv g" "n < dg_number_of_nodes g" "m < dg_number_of_nodes g" "n \<noteq> m" "i \<in> dg_slots g n"
  shows "i \<notin> dg_slots g m"
proof -
  have "dg_slots g n \<inter> dg_slots g m = {}" using assms(1-4) by (simp add: dg_inv_def)
  with assms(5) show ?thesis by blast
qed

lemma dg_inv_end: "dg_inv g \<Longrightarrow> n < dg_number_of_nodes g \<Longrightarrow> dg_end g n \<le> length (dg_edge_list g)"
  by (simp add: dg_inv_def)

lemma dg_empty_inv: "dg_inv (dg_empty junk nodes)"
  and dg_empty_adj: "n < nodes \<Longrightarrow> dg_adj (dg_empty junk nodes) n = []"
  by (auto simp: dg_inv_def dg_empty_def dg_slots_def dg_begin_def dg_end_def dg_adj_def)

text \<open>All updates of one node's range follow one pattern: the new range uses own slots, free
  slots and slots behind the list, and every slot of another node is left alone.\<close>

lemma dg_update_range:
  assumes inv: "dg_inv g" and s: "source < dg_number_of_nodes g"
    and g': "dg_node_array g' = (dg_node_array g)[source := \<lparr>dn_first_edge = f, dn_edges = k\<rparr>]"
      "dg_edge_list g' = els'" "dg_number_of_nodes g' = dg_number_of_nodes g"
    and len: "f + k \<le> length els'" "length (dg_edge_list g) \<le> length els'"
    and new: "\<And>i. f \<le> i \<Longrightarrow> i < f + k \<Longrightarrow> \<not> is_dummy els' i \<and>
       (i \<in> dg_slots g source \<or> i \<ge> length (dg_edge_list g) \<or> is_dummy (dg_edge_list g) i)"
    and old: "\<And>i. i < length (dg_edge_list g) \<Longrightarrow> i \<notin> dg_slots g source \<Longrightarrow>
       \<not> is_dummy (dg_edge_list g) i \<Longrightarrow> els' ! i = dg_edge_list g ! i"
  shows "dg_inv g'"
    and "n < dg_number_of_nodes g \<Longrightarrow> n \<noteq> source \<Longrightarrow> dg_adj g' n = dg_adj g n"
    and "dg_adj g' source = slice els' f (f + k)"
proof -
  have na: "length (dg_node_array g) = dg_number_of_nodes g" using inv by (simp add: dg_inv_def)
  have be: "dg_begin g' n = (if n = source then f else dg_begin g n)"
    "dg_end g' n = (if n = source then f + k else dg_end g n)" for n
    using s na by (auto simp: dg_begin_def dg_end_def g' nth_list_update)
  have other: "els' ! i = dg_edge_list g ! i" if "n < dg_number_of_nodes g" "n \<noteq> source" "i \<in> dg_slots g n" for n i
    using old dg_inv_slot [OF inv that(1,3)] dg_inv_disjoint [OF inv that(1) s that(2,3)] by blast
  have slots: "dg_slots g' n = (if n = source then {f..<f + k} else dg_slots g n)" for n
    by (simp add: dg_slots_def be)
  have disj: "{f..<f + k} \<inter> dg_slots g n = {}" if "n < dg_number_of_nodes g" "n \<noteq> source" for n
  proof -
    have "i \<notin> dg_slots g n" if "f \<le> i" "i < f + k" for i
    proof
      assume i: "i \<in> dg_slots g n"
      have "dg_slots g source \<inter> dg_slots g n = {}"
        using inv s \<open>n < dg_number_of_nodes g\<close> \<open>n \<noteq> source\<close> by (auto simp: dg_inv_def)
      with new [OF that] dg_inv_slot [OF inv \<open>n < dg_number_of_nodes g\<close> i] i show False by auto
    qed
    then show ?thesis by auto
  qed
  show "dg_inv g'"
    unfolding dg_inv_def g'(2,3) slots
  proof (intro conjI allI impI ballI)
    show "length (dg_node_array g') = dg_number_of_nodes g" using na by (simp add: g')
  next
    fix n assume n: "n < dg_number_of_nodes g"
    show "dg_end g' n \<le> length els'"
      using n inv len by (auto simp: be dg_inv_def intro: order_trans)
    fix i assume i: "i \<in> (if n = source then {f..<f + k} else dg_slots g n)"
    show "\<not> is_dummy els' i"
    proof (cases "n = source")
      case True
      with i new show ?thesis by auto
    next
      case False
      with i have "i \<in> dg_slots g n" by simp
      with other [OF n False this] dg_inv_slot [OF inv n this] show ?thesis by (simp add: is_dummy_def)
    qed
  next
    fix n m assume n: "n < dg_number_of_nodes g" and m: "m < dg_number_of_nodes g" and ne: "n \<noteq> m"
    then show "(if n = source then {f..<f + k} else dg_slots g n) \<inter>
          (if m = source then {f..<f + k} else dg_slots g m) = {}"
      using disj [OF n] disj [OF m] inv by (auto simp: dg_inv_def)
  qed
  {
    assume n: "n < dg_number_of_nodes g" "n \<noteq> source"
    then show "dg_adj g' n = dg_adj g n"
      using other [OF n] unfolding dg_adj_def be g'(2)
      by (auto simp: dg_slots_def intro: slice_cong)
  }
  show "dg_adj g' source = slice els' f (f + k)" by (simp add: dg_adj_def be g')
qed

section \<open>Inserting an edge\<close>

lemma make_dummy_simps [simp]:
  "length (make_dummy els i) = length els"
  "j \<noteq> i \<Longrightarrow> make_dummy els i ! j = els ! j"
  "i < length els \<Longrightarrow> is_dummy (make_dummy els i) i"
  by (auto simp: make_dummy_def is_dummy_def)

lemma dg_move_edges_spec:
  assumes "first + k \<le> new" "new + k \<le> length els"
  shows "length (dg_move_edges first new [0..<k] els) = length els"
    and "j < length els \<Longrightarrow> dg_move_edges first new [0..<k] els ! j =
      (if new \<le> j \<and> j < new + k then els ! (first + (j - new))
       else if first \<le> j \<and> j < first + k then (els ! j)\<lparr>de_target := SPECIAL_NODEID\<rparr> else els ! j)"
  using assms
proof (atomize (full), induction k arbitrary: j)
  case (Suc k)
  have step: "dg_move_edges first new [0..<Suc k] els =
      (let es = dg_move_edges first new [0..<k] els
       in make_dummy (es[new + k := es ! (first + k)]) (first + k))"
    by (simp add: dg_move_edges_def Let_def)
  let ?es = "dg_move_edges first new [0..<k] els"
  have len: "length ?es = length els" using Suc by simp
  have nth: "?es ! j = (if new \<le> j \<and> j < new + k then els ! (first + (j - new))
       else if first \<le> j \<and> j < first + k then (els ! j)\<lparr>de_target := SPECIAL_NODEID\<rparr> else els ! j)"
    if "j < length els" for j using Suc that by simp
  show ?case
    using Suc.prems len
    by (auto simp: step Let_def make_dummy_def nth_list_update nth simp del: upt_Suc)
qed (auto simp: dg_move_edges_def)

lemma dg_make_dummies_spec:
  "length (dg_make_dummies new is els) = length els"
  "j \<notin> (\<lambda>i. new + i) ` set is \<Longrightarrow> dg_make_dummies new is els ! j = els ! j"
  by (induction "is" arbitrary: els) (auto simp: dg_make_dummies_def)

lemma dg_make_room_spec:
  assumes inv: "dg_inv g" and s: "source < dg_number_of_nodes g"
    and mk: "dg_make_room junk (dg_node_array g ! source) (dg_edge_list g) = (f, els)"
  defines "k \<equiv> dn_edges (dg_node_array g ! source)"
  shows "f + k < length els \<and> length (dg_edge_list g) \<le> length els"
    and "mset (slice els f (f + k)) = mset (dg_adj g source)"
    and "\<And>i. f \<le> i \<Longrightarrow> i \<le> f + k \<Longrightarrow>
       i \<in> dg_slots g source \<or> i \<ge> length (dg_edge_list g) \<or> is_dummy (dg_edge_list g) i"
    and "\<And>i. i < length (dg_edge_list g) \<Longrightarrow> i \<notin> dg_slots g source \<Longrightarrow>
       \<not> is_dummy (dg_edge_list g) i \<Longrightarrow> els ! i = dg_edge_list g ! i"
    and "\<And>i. f \<le> i \<Longrightarrow> i < f + k \<Longrightarrow> \<not> is_dummy els i"
proof -
  let ?node = "dg_node_array g ! source" and ?els = "dg_edge_list g"
  define b where "b = dn_first_edge ?node"
  have be: "dg_begin g source = b" "dg_end g source = b + k"
    by (simp_all add: dg_begin_def dg_end_def b_def k_def)
  have adj: "dg_adj g source = slice ?els b (b + k)" by (simp add: dg_adj_def be)
  have slots: "dg_slots g source = {b..<b + k}" by (simp add: dg_slots_def be)
  have le: "b + k \<le> length ?els" using dg_inv_end [OF inv s] by (simp add: be)
  have live: "b \<le> i \<Longrightarrow> i < b + k \<Longrightarrow> \<not> is_dummy ?els i" for i
    using dg_inv_slot(2) [OF inv s] by (simp add: slots)
  have goal: "(f + k < length els \<and> length ?els \<le> length els) \<and>
     mset (slice els f (f + k)) = mset (dg_adj g source) \<and>
     (\<forall>i. f \<le> i \<longrightarrow> i \<le> f + k \<longrightarrow> i \<in> dg_slots g source \<or> i \<ge> length ?els \<or> is_dummy ?els i) \<and>
     (\<forall>i < length ?els. i \<notin> dg_slots g source \<longrightarrow> \<not> is_dummy ?els i \<longrightarrow> els ! i = ?els ! i) \<and>
     (\<forall>i. f \<le> i \<longrightarrow> i < f + k \<longrightarrow> \<not> is_dummy els i)"
  proof (cases "k + b = length ?els \<or> \<not> is_dummy ?els (k + b)")
    case False
    then have fe: "f = b" "els = ?els" using mk by (auto simp: dg_make_room_def Let_def k_def b_def)
    show ?thesis
      using False le live by (auto simp: fe adj slots add.commute le_less)
  next
    case full: True
    show ?thesis
    proof (cases "b \<noteq> 0 \<and> is_dummy ?els (b - 1)")
      case True
      then have fe: "f = b - 1" "els = ?els[b - 1 := ?els ! (b - 1 + k)]"
        using mk full by (auto simp: dg_make_room_def Let_def k_def b_def)
      have nth: "els ! i = (if i = b - 1 then ?els ! (b - 1 + k) else ?els ! i)" for i
        using True le by (auto simp: fe nth_list_update)
      have "slice els f (f + k) = (if k = 0 then [] else last (dg_adj g source) # butlast (dg_adj g source))"
      proof (cases k)
        case (Suc k')
        then have "slice els f (f + k) = els ! f # slice els (Suc f) (f + k)"
          by (simp add: slice_Cons)
        moreover have "els ! f = last (dg_adj g source)"
          using Suc True by (simp add: adj last_slice nth fe(1))
        moreover have "slice els (Suc f) (f + k) = butlast (dg_adj g source)"
          using Suc True by (intro nth_equalityI) (auto simp: adj nth nth_butlast fe)
        ultimately show ?thesis using Suc by simp
      qed simp
      moreover have "mset (last xs # butlast xs) = mset xs" if "xs \<noteq> []" for xs :: "'a DynamicEdge list"
        using that by (cases xs rule: rev_cases) auto
      ultimately have "mset (slice els f (f + k)) = mset (dg_adj g source)"
        by (cases k) (auto simp: adj slice_def)
      moreover have "\<not> is_dummy els i" if "f \<le> i" "i < f + k" for i
        using that True live [of i] live [of "b - 1 + k"] by (auto simp: is_dummy_def nth fe(1) split: if_splits)
      moreover have "b \<le> i" if "b - 1 \<le> i" "\<not> is_dummy ?els i" for i
        using that True by (cases "i = b - 1") auto
      ultimately show ?thesis
        using True le by (auto simp: fe(1) slots nth) (auto simp: fe(2))
    next
      case False
      let ?n = "length ?els" and ?sz = "k * 11 div 10 + 2"
      let ?e1 = "?els @ replicate ?sz junk"
      let ?e2 = "dg_move_edges b ?n [0..<k] ?e1"
      have fe: "f = ?n" "els = dg_make_dummies ?n [k + 1..<?sz] ?e2"
        using mk full False by (auto simp: dg_make_room_def Let_def k_def b_def)
      have sz: "k + 1 < ?sz" by simp
      note mv = dg_move_edges_spec [of b k ?n ?e1]
      have len: "length els = ?n + ?sz"
        using mv(1) le sz by (simp add: fe dg_make_dummies_spec)
      have nth: "els ! j = (if ?n \<le> j \<and> j < ?n + k then ?els ! (b + (j - ?n))
          else if b \<le> j \<and> j < b + k then (?els ! j)\<lparr>de_target := SPECIAL_NODEID\<rparr> else ?e1 ! j)"
        if "j \<le> ?n + k" for j
      proof -
        have "els ! j = ?e2 ! j" using that by (auto simp: fe dg_make_dummies_spec)
        with mv(2) [of j] le sz that show ?thesis by (auto simp: nth_append)
      qed
      have "slice els f (f + k) = dg_adj g source"
        by (intro nth_equalityI) (auto simp: adj nth fe(1))
      moreover have "\<not> is_dummy els i" if "f \<le> i" "i < f + k" for i
        using that live [of "b + (i - ?n)"] by (auto simp: is_dummy_def nth fe(1))
      ultimately show ?thesis
        using len sz by (auto simp: fe(1) slots nth nth_append)
    qed
  qed
  show "f + k < length els \<and> length (dg_edge_list g) \<le> length els"
    "mset (slice els f (f + k)) = mset (dg_adj g source)" using goal by blast+
  fix i
  show "f \<le> i \<Longrightarrow> i \<le> f + k \<Longrightarrow> i \<in> dg_slots g source \<or> i \<ge> length (dg_edge_list g) \<or> is_dummy (dg_edge_list g) i"
    "i < length (dg_edge_list g) \<Longrightarrow> i \<notin> dg_slots g source \<Longrightarrow> \<not> is_dummy (dg_edge_list g) i \<Longrightarrow>
      els ! i = dg_edge_list g ! i"
    "f \<le> i \<Longrightarrow> i < f + k \<Longrightarrow> \<not> is_dummy els i" using goal by blast+
qed

lemma slice_update_outside: "i < b \<or> e \<le> i \<Longrightarrow> slice (xs[i := x]) b e = slice xs b e"
  by (auto simp: slice_def)

lemma dg_insert_edge_spec:
  assumes inv: "dg_inv g" and s: "source < dg_number_of_nodes g" and t: "to \<noteq> SPECIAL_NODEID"
    and ins: "dg_insert_edge junk g source to data = (g', e)"
  shows "dg_inv g'" and "dg_number_of_nodes g' = dg_number_of_nodes g"
    and "mset (dg_adj g' source) = add_mset \<lparr>de_target = to, de_data = data\<rparr> (mset (dg_adj g source))"
    and "n < dg_number_of_nodes g \<Longrightarrow> n \<noteq> source \<Longrightarrow> dg_adj g' n = dg_adj g n"
    and "e = dg_end g' source" and "dg_number_of_edges g' = Suc (dg_number_of_edges g)"
    and "dg_out_degree g' source = Suc (dg_out_degree g source)"
proof -
  let ?node = "dg_node_array g ! source"
  define k where "k = dn_edges ?node"
  obtain f els where mk: "dg_make_room junk ?node (dg_edge_list g) = (f, els)" by fastforce
  note room = dg_make_room_spec [OF inv s mk, folded k_def]
  let ?e = "\<lparr>de_target = to, de_data = data\<rparr>"
  have g': "dg_node_array g' = (dg_node_array g)[source := \<lparr>dn_first_edge = f, dn_edges = Suc k\<rparr>]"
    "dg_edge_list g' = els[f + k := ?e]" "dg_number_of_nodes g' = dg_number_of_nodes g"
    "dg_number_of_edges g' = Suc (dg_number_of_edges g)" "e = f + Suc k"
    using ins by (auto simp: dg_insert_edge_def mk k_def Let_def)
  have na: "length (dg_node_array g) = dg_number_of_nodes g" using inv by (simp add: dg_inv_def)
  have upd: "f + Suc k \<le> length (els[f + k := ?e])" "length (dg_edge_list g) \<le> length (els[f + k := ?e])"
    using room(1) by auto
  have new: "\<not> is_dummy (els[f + k := ?e]) i \<and>
      (i \<in> dg_slots g source \<or> i \<ge> length (dg_edge_list g) \<or> is_dummy (dg_edge_list g) i)"
    if "f \<le> i" "i < f + Suc k" for i
    using room(3) [of i] room(5) [of i] that t room(1) by (auto simp: is_dummy_def nth_list_update)
  have old: "els[f + k := ?e] ! i = dg_edge_list g ! i"
    if "i < length (dg_edge_list g)" "i \<notin> dg_slots g source" "\<not> is_dummy (dg_edge_list g) i" for i
    using room(3) [of "f + k"] room(4) [OF that] that by (cases "i = f + k") auto
  note ur = dg_update_range [OF inv s g'(1-3) upd new old]
  show "dg_inv g'" by (rule ur)
  show "n < dg_number_of_nodes g \<Longrightarrow> n \<noteq> source \<Longrightarrow> dg_adj g' n = dg_adj g n" by (rule ur)
  have "dg_adj g' source = slice els f (f + k) @ [?e]"
    using ur(3) room(1) by (simp add: slice_Suc slice_update_outside)
  then show "mset (dg_adj g' source) = add_mset ?e (mset (dg_adj g source))"
    using room(2) by simp
  show "e = dg_end g' source" "dg_number_of_edges g' = Suc (dg_number_of_edges g)"
    "dg_number_of_nodes g' = dg_number_of_nodes g"
    "dg_out_degree g' source = Suc (dg_out_degree g source)"
    using g' s na by (simp_all add: dg_end_def dg_out_degree_def k_def)
qed

section \<open>Deleting edges\<close>

lemma DynamicNode_set_edges [simp]:
  "r\<lparr>dn_edges := k\<rparr> = \<lparr>dn_first_edge = dn_first_edge r, dn_edges = k\<rparr>"
  by (cases r) simp

lemma drop_slot_simps:
  "length (drop_slot els i lst) = length els"
  "j \<noteq> i \<Longrightarrow> j \<noteq> lst \<Longrightarrow> drop_slot els i lst ! j = els ! j"
  "i < length els \<Longrightarrow> i \<noteq> lst \<Longrightarrow> drop_slot els i lst ! i = els ! lst"
  by (auto simp: drop_slot_def)

lemma mset_drop_slot:
  assumes "b \<le> i" "i < e" "e \<le> length els"
  shows "mset (slice (drop_slot els i (e - 1)) b (e - 1)) = mset (slice els b e) - {#els ! i#}"
  using assms by (intro mset_slice_swap_last) (auto simp: drop_slot_def)

lemma dg_delete_edge_spec:
  assumes inv: "dg_inv g" and s: "source < dg_number_of_nodes g" and e: "e \<in> dg_slots g source"
  defines "g' \<equiv> dg_delete_edge g source e"
  shows "dg_inv g'" and "dg_number_of_nodes g' = dg_number_of_nodes g"
    and "mset (dg_adj g' source) = mset (dg_adj g source) - {#dg_edge_list g ! e#}"
    and "n < dg_number_of_nodes g \<Longrightarrow> n \<noteq> source \<Longrightarrow> dg_adj g' n = dg_adj g n"
    and "dg_out_degree g source = Suc (dg_out_degree g' source)"
proof -
  let ?node = "dg_node_array g ! source" and ?els = "dg_edge_list g"
  define f k where "f = dn_first_edge ?node" and "k = dn_edges ?node - 1"
  have be: "dg_begin g source = f" "dg_end g source = f + Suc k" and e': "f \<le> e" "e < f + Suc k"
    using e by (auto simp: dg_slots_def dg_begin_def dg_end_def f_def k_def)
  have ek: "dn_edges ?node = Suc k" using e by (auto simp: dg_slots_def dg_begin_def dg_end_def k_def)
  have g': "dg_node_array g' = (dg_node_array g)[source := \<lparr>dn_first_edge = f, dn_edges = k\<rparr>]"
    "dg_edge_list g' = drop_slot ?els e (f + k)" "dg_number_of_nodes g' = dg_number_of_nodes g"
    using ek by (auto simp: g'_def dg_delete_edge_def Let_def f_def)
  have na: "length (dg_node_array g) = dg_number_of_nodes g" using inv by (simp add: dg_inv_def)
  have le: "f + Suc k \<le> length ?els" using dg_inv_end [OF inv s] by (simp add: be)
  have live: "f \<le> i \<Longrightarrow> i < f + Suc k \<Longrightarrow> \<not> is_dummy ?els i" for i
    using dg_inv_slot(2) [OF inv s] by (simp add: dg_slots_def be)
  have new: "\<not> is_dummy (drop_slot ?els e (f + k)) i \<and>
      (i \<in> dg_slots g source \<or> i \<ge> length ?els \<or> is_dummy ?els i)"
    if "f \<le> i" "i < f + k" for i
    using that live [of i] live [of "f + k"] e' le
    by (cases "i = e") (auto simp: is_dummy_def drop_slot_simps dg_slots_def be)
  have old: "drop_slot ?els e (f + k) ! i = ?els ! i" if "i < length ?els" "i \<notin> dg_slots g source"
      "\<not> is_dummy ?els i" for i
    using that e by (auto simp: drop_slot_simps dg_slots_def be)
  note ur = dg_update_range [OF inv s g' _ _ new old]
  show "dg_inv g'" "n < dg_number_of_nodes g \<Longrightarrow> n \<noteq> source \<Longrightarrow> dg_adj g' n = dg_adj g n"
    using le by (auto intro!: ur simp: drop_slot_simps)
  show "dg_number_of_nodes g' = dg_number_of_nodes g" by (rule g'(3))
  show "dg_out_degree g source = Suc (dg_out_degree g' source)"
    using s na ek by (simp add: dg_out_degree_def g')
  have "dg_adj g' source = slice (drop_slot ?els e (f + k)) f (f + k)"
    using le by (intro ur) (auto simp: drop_slot_simps)
  with mset_drop_slot [of f e "f + Suc k" ?els] e' le
  show "mset (dg_adj g' source) = mset (dg_adj g source) - {#?els ! e#}"
    by (simp add: dg_adj_def be)
qed

text \<open>What both loops of \<^verbatim>\<open>DeleteEdgesTo\<close> keep: the live slots without the target hold the
  same edges, nothing outside the range changes, and live slots stay live.\<close>

definition del_frame ::
  "NodeID \<Rightarrow> nat \<Rightarrow> nat \<Rightarrow> 'd DynamicEdge list \<Rightarrow> nat \<Rightarrow> 'd DynamicEdge list \<Rightarrow> nat \<Rightarrow> bool" where
  "del_frame t b iend els d els' d' \<longleftrightarrow>
     length els' = length els \<and> d \<le> d' \<and> b + d' \<le> iend \<and>
     filter_mset (\<lambda>e. de_target e \<noteq> t) (mset (slice els' b (iend - d'))) =
     filter_mset (\<lambda>e. de_target e \<noteq> t) (mset (slice els b (iend - d))) \<and>
     (\<forall>j. j < b \<or> iend \<le> j \<longrightarrow> els' ! j = els ! j) \<and>
     set (slice els' b (iend - d')) \<subseteq> set (slice els b (iend - d))"

lemma del_frame_refl: "b + d \<le> iend \<Longrightarrow> del_frame t b iend els d els d"
  by (simp add: del_frame_def)

lemma del_frame_trans:
  "del_frame t b iend els d els' d' \<Longrightarrow> del_frame t b iend els' d' els'' d'' \<Longrightarrow>
   del_frame t b iend els d els'' d''"
  by (auto simp: del_frame_def)

lemma del_frame_step:
  assumes "b \<le> i" "i < iend - d" "iend \<le> length els" "de_target (els ! i) = t"
  shows "del_frame t b iend els d (drop_slot els i (iend - Suc d)) (Suc d)"
proof -
  have m: "mset (slice (drop_slot els i (iend - Suc d)) b (iend - Suc d)) =
      mset (slice els b (iend - d)) - {#els ! i#}"
    using mset_drop_slot [of b i "iend - d" els] assms by simp
  have "set_mset (mset (slice els b (iend - d)) - {#els ! i#}) \<subseteq> set (slice els b (iend - d))"
    by (metis diff_subset_eq_self set_mset_mono set_mset_mset)
  then have "set (slice (drop_slot els i (iend - Suc d)) b (iend - Suc d)) \<subseteq> set (slice els b (iend - d))"
    by (metis m set_mset_mset)
  with m assms show ?thesis
    by (auto simp: del_frame_def drop_slot_simps)
qed

lemma dg_delete_here_spec:
  assumes "b \<le> i" "iend \<le> length els"
  shows "i < iend - d \<Longrightarrow> de_target (els ! i) = t \<Longrightarrow> dg_delete_here t i iend els d = (els', d') \<Longrightarrow>
    del_frame t b iend els d els' d' \<and> d < d' \<and>
    (\<forall>j. b \<le> j \<longrightarrow> j < i \<longrightarrow> els' ! j = els ! j) \<and> (i < iend - d' \<longrightarrow> de_target (els' ! i) \<noteq> t)"
  using assms
proof (induction t i iend els d rule: dg_delete_here.induct)
  case (1 t i iend els d)
  let ?els = "drop_slot els i (iend - Suc d)"
  have step: "del_frame t b iend els d ?els (Suc d)"
    using "1.prems" by (intro del_frame_step)
  have low: "\<forall>j. b \<le> j \<longrightarrow> j < i \<longrightarrow> ?els ! j = els ! j"
    using "1.prems"(1) by (auto simp: drop_slot_simps)
  show ?case
  proof (cases "i < iend - Suc d \<and> de_target (?els ! i) = t")
    case True
    with "1.prems"(3) have rec: "dg_delete_here t i iend ?els (Suc d) = (els', d')"
      by (subst (asm) dg_delete_here.simps) (simp add: Let_def)
    have "iend \<le> length ?els" using "1.prems" by (simp add: drop_slot_simps)
    with "1.IH" [OF refl refl True] True rec "1.prems"
    have "del_frame t b iend ?els (Suc d) els' d' \<and> Suc d < d' \<and>
        (\<forall>j. b \<le> j \<longrightarrow> j < i \<longrightarrow> els' ! j = ?els ! j) \<and> (i < iend - d' \<longrightarrow> de_target (els' ! i) \<noteq> t)"
      by blast
    with low del_frame_trans [OF step] show ?thesis by auto
  next
    case False
    with "1.prems"(3) have "els' = ?els" "d' = Suc d"
      by (subst (asm) dg_delete_here.simps, auto simp: Let_def)+
    with step low False show ?thesis by auto
  qed
qed

lemma dg_delete_loop_spec:
  assumes "b \<le> i" "iend \<le> length els" "b + d \<le> iend"
    and "\<forall>j. b \<le> j \<longrightarrow> j < i \<longrightarrow> j < iend - d \<longrightarrow> de_target (els ! j) \<noteq> t"
    and "dg_delete_loop t i iend els d = (els', d')"
  shows "del_frame t b iend els d els' d' \<and> (\<forall>j. b \<le> j \<longrightarrow> j < iend - d' \<longrightarrow> de_target (els' ! j) \<noteq> t)"
  using assms
proof (induction t i iend els d arbitrary: els' d' rule: dg_delete_loop.induct)
  case (1 t i iend els d)
  show ?case
  proof (cases "i < iend - d")
    case False
    with "1.prems" have "els' = els" "d' = d"
      by (subst (asm) dg_delete_loop.simps, simp)+
    with "1.prems" False show ?thesis by (auto simp: del_frame_refl)
  next
    case lt: True
    show ?thesis
    proof (cases "de_target (els ! i) = t")
      case True
      obtain els1 d1 where h: "dg_delete_here t i iend els d = (els1, d1)" by fastforce
      have frame: "del_frame t b iend els d els1 d1" "d < d1"
        "\<forall>j. b \<le> j \<longrightarrow> j < i \<longrightarrow> els1 ! j = els ! j" "i < iend - d1 \<longrightarrow> de_target (els1 ! i) \<noteq> t"
        using dg_delete_here_spec [OF "1.prems"(1,2) lt True h] by auto
      from "1.prems"(5) lt True h have rec: "dg_delete_loop t (Suc i) iend els1 d1 = (els', d')"
        by (subst (asm) dg_delete_loop.simps) simp
      have "\<forall>j. b \<le> j \<longrightarrow> j < Suc i \<longrightarrow> j < iend - d1 \<longrightarrow> de_target (els1 ! j) \<noteq> t"
        using frame "1.prems"(4) by (auto simp: less_Suc_eq)
      moreover have "iend \<le> length els1" "b + d1 \<le> iend" using frame(1) "1.prems"(2) by (auto simp: del_frame_def)
      ultimately have "del_frame t b iend els1 d1 els' d' \<and>
          (\<forall>j. b \<le> j \<longrightarrow> j < iend - d' \<longrightarrow> de_target (els' ! j) \<noteq> t)"
        using "1.IH"(1) [OF lt True h [symmetric] refl _ _ _ _ rec] "1.prems"(1) by simp
      with frame(1) show ?thesis by (blast intro: del_frame_trans)
    next
      case False
      from "1.prems"(5) lt False have rec: "dg_delete_loop t (Suc i) iend els d = (els', d')"
        by (subst (asm) dg_delete_loop.simps) simp
      with "1.IH"(2) [OF lt False _ _ _ _ rec] "1.prems" False show ?thesis
        by (auto simp: less_Suc_eq)
    qed
  qed
qed

lemma dg_delete_edges_to_spec:
  assumes inv: "dg_inv g" and s: "source < dg_number_of_nodes g"
    and del: "dg_delete_edges_to g source t = (g', d)"
  shows "dg_inv g'" and "dg_number_of_nodes g' = dg_number_of_nodes g"
    and "mset (dg_adj g' source) = filter_mset (\<lambda>e. de_target e \<noteq> t) (mset (dg_adj g source))"
    and "n < dg_number_of_nodes g \<Longrightarrow> n \<noteq> source \<Longrightarrow> dg_adj g' n = dg_adj g n"
    and "d = length (filter (\<lambda>e. de_target e = t) (dg_adj g source))"
    and "dg_number_of_edges g' = dg_number_of_edges g - d"
proof -
  let ?node = "dg_node_array g ! source" and ?els = "dg_edge_list g"
  define f k where "f = dn_first_edge ?node" and "k = dn_edges ?node"
  have be: "dg_begin g source = f" "dg_end g source = f + k"
    by (auto simp: dg_begin_def dg_end_def f_def k_def)
  obtain els where loop: "dg_delete_loop t f (f + k) ?els 0 = (els, d)"
    and g': "dg_node_array g' = (dg_node_array g)[source := \<lparr>dn_first_edge = f, dn_edges = k - d\<rparr>]"
      "dg_edge_list g' = els" "dg_number_of_nodes g' = dg_number_of_nodes g"
      "dg_number_of_edges g' = dg_number_of_edges g - d"
    using del by (auto simp: dg_delete_edges_to_def be f_def k_def Let_def split: prod.splits)
  have le: "f + k \<le> length ?els" using dg_inv_end [OF inv s] by (simp add: be)
  have sp: "del_frame t f (f + k) ?els 0 els d"
    "\<forall>j. f \<le> j \<longrightarrow> j < f + k - d \<longrightarrow> de_target (els ! j) \<noteq> t"
    using dg_delete_loop_spec [OF _ le _ _ loop, of f] by auto
  then have dk: "d \<le> k" and len: "length els = length ?els" by (auto simp: del_frame_def)
  have live: "f \<le> i \<Longrightarrow> i < f + k \<Longrightarrow> \<not> is_dummy ?els i" for i
    using dg_inv_slot(2) [OF inv s] by (simp add: dg_slots_def be)
  have new: "\<not> is_dummy els i \<and> (i \<in> dg_slots g source \<or> i \<ge> length ?els \<or> is_dummy ?els i)"
    if "f \<le> i" "i < f + (k - d)" for i
  proof -
    have "els ! i \<in> set (slice els f (f + k - d))" using that dk by (auto simp: set_slice)
    then have "els ! i \<in> set (slice ?els f (f + k))" using sp(1) by (auto simp: del_frame_def)
    then show ?thesis using live that by (auto simp: set_slice is_dummy_def dg_slots_def be)
  qed
  have old: "els ! i = ?els ! i" if "i < length ?els" "i \<notin> dg_slots g source" "\<not> is_dummy ?els i" for i
    using that sp(1) by (auto simp: del_frame_def dg_slots_def be)
  note ur = dg_update_range [OF inv s g'(1-3) _ _ new old]
  show "dg_inv g'" "n < dg_number_of_nodes g \<Longrightarrow> n \<noteq> source \<Longrightarrow> dg_adj g' n = dg_adj g n"
    using le len dk by (auto intro!: ur)
  show "dg_number_of_nodes g' = dg_number_of_nodes g" "dg_number_of_edges g' = dg_number_of_edges g - d"
    by (rule g')+
  have adj': "dg_adj g' source = slice els f (f + k - d)"
    using ur(3) le len dk by simp
  have "filter_mset (\<lambda>e. de_target e \<noteq> t) (mset (slice els f (f + k - d))) = mset (slice els f (f + k - d))"
    using sp(2) by (auto simp: filter_mset_eq_conv set_slice)
  then show ms: "mset (dg_adj g' source) = filter_mset (\<lambda>e. de_target e \<noteq> t) (mset (dg_adj g source))"
    using sp(1) by (simp add: adj' dg_adj_def [of g] be del_frame_def)
  have "k - d = size (mset (dg_adj g' source))" using dk by (simp add: adj')
  also have "\<dots> = length (filter (\<lambda>e. de_target e \<noteq> t) (dg_adj g source))"
    unfolding ms by (metis mset_filter size_mset)
  finally have "k - d = length (filter (\<lambda>e. de_target e \<noteq> t) (dg_adj g source))" .
  moreover have "length (filter (\<lambda>e. de_target e = t) (dg_adj g source)) +
      length (filter (\<lambda>e. de_target e \<noteq> t) (dg_adj g source)) = k"
    using sum_length_filter_compl [of "\<lambda>e. de_target e = t" "dg_adj g source"] by (simp add: dg_adj_def be)
  ultimately show "d = length (filter (\<lambda>e. de_target e = t) (dg_adj g source))" using dk by simp
qed

section \<open>What the constructor builds\<close>

definition edge_of_input :: "'d InputEdge \<Rightarrow> 'd DynamicEdge" where
  "edge_of_input e = \<lparr>de_target = ie_target e, de_data = ie_data e\<rparr>"

lemma dg_count_loop_spec:
  assumes "sorted (map ie_source graph)"
  shows "a \<le> n \<Longrightarrow> n \<le> length na \<Longrightarrow>
    dg_count_loop graph [a..<n] (key_count ie_source graph a) (key_count ie_source graph a) na = (na', p) \<Longrightarrow>
    p = key_count ie_source graph n \<and> length na' = length na \<and>
    (\<forall>m < length na. na' ! m = (if a \<le> m \<and> m < n
       then \<lparr>dn_first_edge = key_count ie_source graph m,
             dn_edges = key_count ie_source graph (Suc m) - key_count ie_source graph m\<rparr>
       else na ! m))"
proof (induction "n - a" arbitrary: a na)
  case (Suc d)
  let ?k = "key_count ie_source graph"
  have an: "a < n" using Suc.hyps(2) by simp
  have skip: "skip_key ie_source graph a (?k a) = ?k (Suc a)"
    by (rule skip_key_count [OF assms]) (simp_all add: key_count_mono)
  have pos: "?k a + (?k (Suc a) - ?k a) = ?k (Suc a)" by (simp add: key_count_mono)
  let ?na = "na[a := \<lparr>dn_first_edge = ?k a, dn_edges = ?k (Suc a) - ?k a\<rparr>]"
  have "dg_count_loop graph [Suc a..<n] (?k (Suc a)) (?k (Suc a)) ?na = (na', p)"
    using Suc.prems(3) an by (simp add: upt_conv_Cons skip pos Let_def)
  then have "p = ?k n \<and> length na' = length ?na \<and> (\<forall>m < length ?na. na' ! m = (if Suc a \<le> m \<and> m < n
       then \<lparr>dn_first_edge = ?k m, dn_edges = ?k (Suc m) - ?k m\<rparr> else ?na ! m))"
    using Suc.hyps an Suc.prems by (intro Suc.hyps(1)) auto
  then show ?case using an Suc.prems by (auto simp: nth_list_update)
qed simp

lemma dg_write_range_spec:
  "a \<le> b \<Longrightarrow> b \<le> length els \<Longrightarrow> dg_write_range graph [a..<b] a els = (els', e') \<Longrightarrow>
    e' = b \<and> length els' = length els \<and>
    (\<forall>i < length els. els' ! i = (if a \<le> i \<and> i < b then edge_of_input (graph ! i) else els ! i))"
proof (induction "b - a" arbitrary: a els)
  case (Suc d)
  then have "a < b" by simp
  with Suc(2,4,5) Suc(1) [of "Suc a" "els[a := edge_of_input (graph ! a)]"] show ?case
    by (auto simp: upt_conv_Cons edge_of_input_def nth_list_update less_Suc_eq_le [symmetric])
next
  case 0
  then show ?case by auto
qed

lemma dg_write_loop_spec:
  assumes na: "\<And>m. m < n \<Longrightarrow> na ! m = \<lparr>dn_first_edge = key_count ie_source graph m,
       dn_edges = key_count ie_source graph (Suc m) - key_count ie_source graph m\<rparr>"
  shows "a \<le> n \<Longrightarrow> key_count ie_source graph n \<le> length els \<Longrightarrow>
    dg_write_loop graph na [a..<n] (key_count ie_source graph a) els = els' \<Longrightarrow>
    length els' = length els \<and>
    (\<forall>i < length els. els' ! i = (if key_count ie_source graph a \<le> i \<and> i < key_count ie_source graph n
       then edge_of_input (graph ! i) else els ! i))"
proof (induction "n - a" arbitrary: a els)
  case (Suc d)
  let ?k = "key_count ie_source graph"
  have an: "a < n" using Suc.hyps(2) by simp
  have mono: "?k a \<le> ?k (Suc a)" "?k (Suc a) \<le> ?k n" using an by (simp_all add: key_count_mono)
  obtain els1 e1 where w: "dg_write_range graph [?k a..<?k (Suc a)] (?k a) els = (els1, e1)" by fastforce
  have r: "e1 = ?k (Suc a)" "length els1 = length els"
    "\<forall>i < length els. els1 ! i = (if ?k a \<le> i \<and> i < ?k (Suc a) then edge_of_input (graph ! i) else els ! i)"
    using dg_write_range_spec [OF mono(1) _ w] mono(2) Suc.prems(2) by auto
  have "dg_write_loop graph na [Suc a..<n] (?k (Suc a)) els1 = els'"
    using Suc.prems(3) an mono(1) w r(1) by (simp add: upt_conv_Cons na)
  then have "length els' = length els1 \<and> (\<forall>i < length els1. els' ! i =
      (if ?k (Suc a) \<le> i \<and> i < ?k n then edge_of_input (graph ! i) else els1 ! i))"
    using Suc.hyps an Suc.prems r(2) by (intro Suc.hyps(1)) auto
  with r mono show ?case by auto
qed auto

lemma dg_construct_spec:
  assumes "sorted (map ie_source graph)"
    and "\<forall>e \<in> set graph. ie_source e < nodes \<and> ie_target e \<noteq> SPECIAL_NODEID"
  shows "dg_inv (dg_construct junk nodes graph)"
    and "dg_number_of_nodes (dg_construct junk nodes graph) = nodes"
    and "dg_number_of_edges (dg_construct junk nodes graph) = length graph"
    and "length (dg_edge_list (dg_construct junk nodes graph)) = length graph"
    and "n < nodes \<Longrightarrow> dg_adj (dg_construct junk nodes graph) n =
       map edge_of_input (filter (\<lambda>e. ie_source e = n) graph)"
proof -
  let ?k = "key_count ie_source graph" and ?g = "dg_construct junk nodes graph"
  obtain na p where c: "dg_count_loop graph [0..<nodes] 0 0
      (replicate nodes \<lparr>dn_first_edge = 0, dn_edges = 0\<rparr>) = (na, p)" by fastforce
  have na: "p = ?k nodes" "length na = nodes" "\<And>m. m < nodes \<Longrightarrow> na ! m =
      \<lparr>dn_first_edge = ?k m, dn_edges = ?k (Suc m) - ?k m\<rparr>"
    using dg_count_loop_spec [OF assms(1), of 0 nodes "replicate nodes \<lparr>dn_first_edge = 0, dn_edges = 0\<rparr>" na p] c
    by auto
  have all: "?k nodes = length graph" using assms(2) by (intro key_count_all) auto
  define els where "els = dg_write_loop graph na [0..<nodes] 0 (replicate p junk)"
  have els: "length els = length graph" "i < length graph \<Longrightarrow> els ! i = edge_of_input (graph ! i)" for i
    using dg_write_loop_spec [OF na(3), of nodes 0 "replicate p junk" els] all na(1) by (auto simp: els_def)
  have g: "dg_number_of_nodes ?g = nodes" "dg_number_of_edges ?g = length graph"
    "dg_node_array ?g = na" "dg_edge_list ?g = els"
    by (simp_all add: dg_construct_def c els_def)
  have be: "dg_begin ?g n = ?k n" "dg_end ?g n = ?k (Suc n)" if "n < nodes" for n
    using that by (simp_all add: dg_begin_def dg_end_def g na(3) key_count_mono)
  have slots: "dg_slots ?g n = {?k n..<?k (Suc n)}" if "n < nodes" for n
    by (simp add: dg_slots_def be that)
  have disj: "{?k n..<?k (Suc n)} \<inter> {?k m..<?k (Suc m)} = {}" if "n \<noteq> m" for n m
  proof (cases "n < m")
    case True
    then have "?k (Suc n) \<le> ?k m" by (simp add: key_count_mono)
    then show ?thesis by auto
  next
    case False
    with that have "?k (Suc m) \<le> ?k n" by (simp add: key_count_mono)
    then show ?thesis by auto
  qed
  have nd: "\<not> is_dummy els i" if "i < length graph" for i
    using assms(2) that by (simp add: is_dummy_def els edge_of_input_def)
  have le: "?k n \<le> length graph" for n by (rule key_count_le)
  have live: "\<not> is_dummy els i" if "i < ?k n" for i n using nd that le [of n] by simp
  show "dg_inv ?g"
    unfolding dg_inv_def g by (auto simp: na(2) be slots els le live disj simp del: Int_atLeastLessThan)
  show "dg_number_of_nodes ?g = nodes" "dg_number_of_edges ?g = length graph"
    "length (dg_edge_list ?g) = length graph" by (simp_all add: g els)
  show "n < nodes \<Longrightarrow> dg_adj ?g n = map edge_of_input (filter (\<lambda>e. ie_source e = n) graph)"
  proof -
    assume that: "n < nodes"
    have "dg_adj ?g n = map edge_of_input (slice graph (?k n) (?k (Suc n)))"
      using le [of "Suc n"] by (intro nth_equalityI) (auto simp: dg_adj_def be that g els)
    then show ?thesis by (simp add: slice_key_count [OF assms(1)])
  qed
qed

text \<open>
  The constructor on edges sorted by source builds a well-formed graph in which the
  edges of every node are exactly the input edges with that source, in the input's order.
\<close>

theorem dg_construct_correct:
  assumes "sorted (map ie_source graph)"
    and "\<forall>e \<in> set graph. ie_source e < nodes \<and> ie_target e \<noteq> SPECIAL_NODEID"
  shows "dg_inv (dg_construct junk nodes graph) \<and>
    dg_number_of_nodes (dg_construct junk nodes graph) = nodes \<and>
    dg_number_of_edges (dg_construct junk nodes graph) = length graph \<and>
    (\<forall>n < nodes. dg_adj (dg_construct junk nodes graph) n =
       map (\<lambda>e. \<lparr>de_target = ie_target e, de_data = ie_data e\<rparr>) (filter (\<lambda>e. ie_source e = n) graph))"
  using dg_construct_spec [OF assms] by (simp add: edge_of_input_def [abs_def])

lemma dg_construct_correct_witness:
  "dg_inv (dg_construct \<lparr>de_target = 0, de_data = ''''\<rparr> 3
     [\<lparr>ie_source = 0, ie_target = 2, ie_data = ''a''\<rparr>, \<lparr>ie_source = 2, ie_target = 1, ie_data = ''b''\<rparr>]) \<and>
   dg_adj (dg_construct \<lparr>de_target = 0, de_data = ''''\<rparr> 3
     [\<lparr>ie_source = 0, ie_target = 2, ie_data = ''a''\<rparr>, \<lparr>ie_source = 2, ie_target = 1, ie_data = ''b''\<rparr>]) 2 =
     [\<lparr>de_target = 1, de_data = ''b''\<rparr>]"
  using dg_construct_correct [of "[\<lparr>ie_source = 0, ie_target = 2, ie_data = ''a''\<rparr>,
      \<lparr>ie_source = 2, ie_target = 1, ie_data = ''b''\<rparr>]" 3 "\<lparr>de_target = 0, de_data = ''''\<rparr>"]
  by (simp add: SPECIAL_NODEID_def)

section \<open>Searching\<close>

lemma dg_find_edge_spec:
  assumes "dg_inv g" "from < dg_number_of_nodes g" "length (dg_edge_list g) < SPECIAL_EDGEID"
  shows "dg_find_edge g from to = SPECIAL_EDGEID \<longleftrightarrow> to \<notin> de_target ` set (dg_adj g from)"
    and "dg_find_edge g from to \<noteq> SPECIAL_EDGEID \<Longrightarrow>
      dg_find_edge g from to \<in> dg_slots g from \<and> dg_target g (dg_find_edge g from to) = to"
proof (atomize (full))
  have le: "dg_end g from \<le> length (dg_edge_list g)" by (rule dg_inv_end [OF assms(1,2)])
  let ?f = "find (\<lambda>i. to = de_target (dg_edge_list g ! i)) [dg_begin g from..<dg_end g from]"
  show "(dg_find_edge g from to = SPECIAL_EDGEID \<longleftrightarrow> to \<notin> de_target ` set (dg_adj g from)) \<and>
    (dg_find_edge g from to \<noteq> SPECIAL_EDGEID \<longrightarrow>
      dg_find_edge g from to \<in> dg_slots g from \<and> dg_target g (dg_find_edge g from to) = to)"
  proof (cases ?f)
    case None
    then have "to \<notin> de_target ` set (dg_adj g from)"
      by (auto simp: find_None_iff dg_adj_def set_slice)
    with None show ?thesis by (simp add: dg_find_edge_def)
  next
    case (Some i)
    then have i: "i \<in> dg_slots g from" "to = de_target (dg_edge_list g ! i)"
      by (auto simp: find_Some_iff dg_slots_def)
    then have "to \<in> de_target ` set (dg_adj g from)" by (auto simp: dg_adj_def set_slice dg_slots_def)
    moreover have "i \<noteq> SPECIAL_EDGEID" using i le assms(3) by (auto simp: dg_slots_def)
    ultimately show ?thesis using Some i by (simp add: dg_find_edge_def dg_target_def)
  qed
qed

text \<open>
  \<^verbatim>\<open>FindSmallestEdge\<close> returns an edge to the node asked for whose weight no edge to
  that node undercuts, and the special id exactly when no edge to it has a valid weight.
\<close>

theorem dg_find_smallest_edge_correct:
  assumes "dg_inv g" "from < dg_number_of_nodes g" "length (dg_edge_list g) < SPECIAL_EDGEID"
  shows "if \<exists>e \<in> set (dg_adj g from). de_target e = to \<and> distance (de_data e) < INVALID_EDGE_WEIGHT
    then dg_find_smallest_edge distance g from to \<in> dg_slots g from \<and>
      dg_target g (dg_find_smallest_edge distance g from to) = to \<and>
      (\<forall>e \<in> set (dg_adj g from). de_target e = to \<longrightarrow>
         distance (dg_data g (dg_find_smallest_edge distance g from to)) \<le> distance (de_data e))
    else dg_find_smallest_edge distance g from to = SPECIAL_EDGEID"
proof -
  let ?ok = "\<lambda>edge. dg_target g edge = to" and ?w = "\<lambda>edge. distance (dg_data g edge)"
  obtain s sw where m: "min_scan ?ok ?w (dg_edge_range g from) (SPECIAL_EDGEID, INVALID_EDGE_WEIGHT) = (s, sw)"
    by fastforce
  note sp = min_scan_spec [OF m]
  have f: "dg_find_smallest_edge distance g from to = s" by (simp add: dg_find_smallest_edge_def m)
  have range: "set (dg_edge_range g from) = dg_slots g from" by (simp add: dg_edge_range_def dg_slots_def)
  have adj: "(\<exists>e \<in> set (dg_adj g from). P e) \<longleftrightarrow> (\<exists>i \<in> dg_slots g from. P (dg_edge_list g ! i))"
    "(\<forall>e \<in> set (dg_adj g from). P e) \<longleftrightarrow> (\<forall>i \<in> dg_slots g from. P (dg_edge_list g ! i))" for P
    by (auto simp: dg_adj_def set_slice dg_slots_def)
  have special: "SPECIAL_EDGEID \<notin> dg_slots g from"
    using dg_inv_end [OF assms(1,2)] assms(3) by (auto simp: dg_slots_def)
  show ?thesis
    using sp special unfolding f range adj
    by (auto simp: dg_target_def dg_data_def)
qed

lemma dg_find_smallest_edge_correct_witness:
  "dg_find_smallest_edge id (dg_construct \<lparr>de_target = 0, de_data = 0\<rparr> 2
     [\<lparr>ie_source = 0, ie_target = 1, ie_data = 7::int\<rparr>, \<lparr>ie_source = 0, ie_target = 0, ie_data = 1::int\<rparr>,
      \<lparr>ie_source = 0, ie_target = 1, ie_data = 5::int\<rparr>]) 0 1 < 3"
proof -
  let ?es = "[\<lparr>ie_source = 0, ie_target = 1, ie_data = 7::int\<rparr>, \<lparr>ie_source = 0, ie_target = 0, ie_data = 1::int\<rparr>,
      \<lparr>ie_source = 0, ie_target = 1, ie_data = 5::int\<rparr>]"
  let ?g = "dg_construct \<lparr>de_target = 0, de_data = 0\<rparr> 2 ?es"
  have pre: "sorted (map ie_source ?es)"
    "\<forall>e \<in> set ?es. ie_source e < 2 \<and> ie_target e \<noteq> SPECIAL_NODEID" by (simp_all add: SPECIAL_NODEID_def)
  note sp = dg_construct_spec [OF pre, where junk = "\<lparr>de_target = 0, de_data = 0\<rparr>"]
  have adj: "dg_adj ?g 0 = map edge_of_input (filter (\<lambda>e. ie_source e = 0) ?es)" by (rule sp(5)) simp
  have "\<exists>e \<in> set (dg_adj ?g 0). de_target e = 1 \<and> id (de_data e) < INVALID_EDGE_WEIGHT"
    unfolding adj by (simp add: edge_of_input_def INVALID_EDGE_WEIGHT_def)
  moreover have "dg_end ?g 0 \<le> 3" using dg_inv_end [OF sp(1), of 0] sp(2,4) by simp
  ultimately show ?thesis
    using dg_find_smallest_edge_correct [OF sp(1), of 0 1 id] sp(2,4)
    by (auto simp: SPECIAL_EDGEID_def dg_slots_def)
qed

section \<open>Properties of the updates\<close>

text \<open>
  Property C13. \<^verbatim>\<open>InsertEdge\<close>, wherever it finds room, keeps the graph well-formed, adds exactly
  the new edge to the source's edges and leaves every other node's edges alone.  The iterator
  it returns is the end of the source's range, one behind the new edge.
\<close>

theorem dg_insert_edge_correct:
  assumes "dg_inv g" "source < dg_number_of_nodes g" "to \<noteq> SPECIAL_NODEID"
    and "dg_insert_edge junk g source to data = (g', e)"
  shows "dg_inv g' \<and> dg_number_of_nodes g' = dg_number_of_nodes g \<and>
    dg_number_of_edges g' = Suc (dg_number_of_edges g) \<and>
    mset (dg_adj g' source) = add_mset \<lparr>de_target = to, de_data = data\<rparr> (mset (dg_adj g source)) \<and>
    (\<forall>n < dg_number_of_nodes g. n \<noteq> source \<longrightarrow> dg_adj g' n = dg_adj g n) \<and>
    e = dg_end g' source"
  using dg_insert_edge_spec [OF assms] by blast

lemma dg_insert_edge_correct_witness:
  "dg_inv (fst (dg_insert_edge \<lparr>de_target = 0, de_data = ''''\<rparr>
     (dg_empty \<lparr>de_target = 7, de_data = ''''\<rparr> 2) 1 0 ''x''))"
  using dg_insert_edge_correct [OF dg_empty_inv [where nodes = 2
        and junk = "\<lparr>de_target = 7, de_data = ''''\<rparr>"], where source = 1 and to = 0
      and junk = "\<lparr>de_target = 0, de_data = ''''\<rparr>" and data = "''x''"]
  by (cases "dg_insert_edge \<lparr>de_target = 0, de_data = ''''\<rparr>
     (dg_empty \<lparr>de_target = 7, de_data = ''''\<rparr> 2) 1 0 ''x''") (simp add: dg_empty_def SPECIAL_NODEID_def)

text \<open>
  Property C14. \<^verbatim>\<open>DeleteEdgesTo\<close> removes all edges of the source to the target and no other edge
  of any node, keeps the graph well-formed, and returns the number of edges removed.
\<close>

theorem dg_delete_edges_to_correct:
  assumes "dg_inv g" "source < dg_number_of_nodes g"
    and "dg_delete_edges_to g source t = (g', d)"
  shows "dg_inv g' \<and> dg_number_of_nodes g' = dg_number_of_nodes g \<and>
    mset (dg_adj g' source) = mset (filter (\<lambda>e. de_target e \<noteq> t) (dg_adj g source)) \<and>
    (\<forall>n < dg_number_of_nodes g. n \<noteq> source \<longrightarrow> dg_adj g' n = dg_adj g n) \<and>
    d = length (filter (\<lambda>e. de_target e = t) (dg_adj g source)) \<and>
    dg_number_of_edges g' = dg_number_of_edges g - d"
  using dg_delete_edges_to_spec [OF assms] by simp

lemma dg_delete_edges_to_correct_witness:
  "snd (dg_delete_edges_to (dg_construct \<lparr>de_target = 0, de_data = ''''\<rparr> 2
     [\<lparr>ie_source = 0, ie_target = 1, ie_data = ''a''\<rparr>, \<lparr>ie_source = 0, ie_target = 0, ie_data = ''b''\<rparr>,
      \<lparr>ie_source = 0, ie_target = 1, ie_data = ''c''\<rparr>]) 0 1) = 2"
proof -
  let ?es = "[\<lparr>ie_source = 0, ie_target = 1, ie_data = ''a''\<rparr>, \<lparr>ie_source = 0, ie_target = 0, ie_data = ''b''\<rparr>,
      \<lparr>ie_source = 0, ie_target = 1, ie_data = ''c''\<rparr>]"
  let ?g = "dg_construct \<lparr>de_target = 0, de_data = ''''\<rparr> 2 ?es"
  have pre: "sorted (map ie_source ?es)"
    "\<forall>e \<in> set ?es. ie_source e < 2 \<and> ie_target e \<noteq> SPECIAL_NODEID" by (simp_all add: SPECIAL_NODEID_def)
  note sp = dg_construct_spec [OF pre, where junk = "\<lparr>de_target = 0, de_data = ''''\<rparr>"]
  have adj: "dg_adj ?g 0 = map edge_of_input (filter (\<lambda>e. ie_source e = 0) ?es)" by (rule sp(5)) simp
  obtain g' d where d: "dg_delete_edges_to ?g 0 1 = (g', d)" by fastforce
  have s: "0 < dg_number_of_nodes ?g" by (simp only: sp(2))
  have "d = length (filter (\<lambda>e. de_target e = 1) (dg_adj ?g 0))"
    using dg_delete_edges_to_correct [OF sp(1) s d] by blast
  then show ?thesis unfolding d adj by (simp add: edge_of_input_def)
qed

text \<open>The same for a single slot: \<^verbatim>\<open>DeleteEdge\<close> removes the edge of that slot.\<close>

lemma dg_delete_edge_degree:
  "dg_inv g \<Longrightarrow> source < dg_number_of_nodes g \<Longrightarrow> e \<in> dg_slots g source \<Longrightarrow>
   size (mset (dg_adj (dg_delete_edge g source e) source)) = size (mset (dg_adj g source)) - 1"
  using dg_delete_edge_spec(5) [of g source e]
  by (simp add: dg_adj_def dg_end_def dg_begin_def dg_out_degree_def)

section \<open>Filter\<close>

lemma dg_filter_loop_spec:
  assumes "dg_filter_loop flt els nodes k out = (nodes', out')"
  shows "length nodes' = length nodes \<and> (\<exists>more. out' = out @ more) \<and>
    (\<forall>n < length nodes. dn_first_edge (nodes' ! n) + dn_edges (nodes' ! n) \<le> length out' \<and>
       length out \<le> dn_first_edge (nodes' ! n) \<and>
       slice out' (dn_first_edge (nodes' ! n)) (dn_first_edge (nodes' ! n) + dn_edges (nodes' ! n)) =
       (if flt (k + n) then filter (\<lambda>e. flt (de_target e)) (slice els (dn_first_edge (nodes ! n))
          (dn_first_edge (nodes ! n) + dn_edges (nodes ! n))) else []) \<and>
       (\<forall>m < n. dn_first_edge (nodes' ! m) + dn_edges (nodes' ! m) \<le> dn_first_edge (nodes' ! n)))"
  using assms
proof (induction flt els nodes k out arbitrary: nodes' out' rule: dg_filter_loop.induct)
  case (2 flt els node nodes k out)
  let ?kept = "if flt k then filter (\<lambda>e. flt (de_target e)) (slice els (dn_first_edge node)
          (dn_first_edge node + dn_edges node)) else []"
  let ?n = "\<lparr>dn_first_edge = length out, dn_edges = length ?kept\<rparr>"
  obtain ns where loop: "dg_filter_loop flt els nodes (Suc k) (out @ ?kept) = (ns, out')"
    and nodes': "nodes' = ?n # ns"
    using "2.prems" by (auto simp: Let_def split: prod.splits if_splits)
  have ih: "length ns = length nodes \<and> (\<exists>more. out' = (out @ ?kept) @ more) \<and>
    (\<forall>n < length nodes. dn_first_edge (ns ! n) + dn_edges (ns ! n) \<le> length out' \<and>
       length (out @ ?kept) \<le> dn_first_edge (ns ! n) \<and>
       slice out' (dn_first_edge (ns ! n)) (dn_first_edge (ns ! n) + dn_edges (ns ! n)) =
       (if flt (Suc k + n) then filter (\<lambda>e. flt (de_target e)) (slice els (dn_first_edge (nodes ! n))
          (dn_first_edge (nodes ! n) + dn_edges (nodes ! n))) else []) \<and>
       (\<forall>m < n. dn_first_edge (ns ! m) + dn_edges (ns ! m) \<le> dn_first_edge (ns ! n)))"
    by (rule "2.IH" [OF refl _ _ loop, of _ "?n"]) (auto simp: Let_def)
  then obtain more where more: "out' = out @ ?kept @ more" by auto
  have here: "slice out' (length out) (length out + length ?kept) = ?kept"
    by (rule nth_equalityI) (auto simp: more nth_append)
  show ?case
  proof (intro conjI allI impI, goal_cases)
    case 1
    then show ?case using ih nodes' by simp
  next
    case 2
    then show ?case using more by auto
  next
    case (3 n)
    then show ?case using ih by (cases n) (auto simp: nodes' more)
  next
    case (4 n)
    then show ?case using ih by (cases n) (auto simp: nodes')
  next
    case (5 n)
    then show ?case using ih here by (cases n) (auto simp: nodes')
  next
    case (6 n m)
    then show ?case using ih by (cases n; cases m) (auto simp: nodes')
  qed
qed simp

text \<open>
  Property C16. \<^verbatim>\<open>Filter\<close> returns a well-formed graph with the same nodes in which a rejected node
  has no edges, and a kept one has exactly its edges to kept nodes, in their order.  The edge
  counter of the result is the one of the original graph.
\<close>

theorem dg_filter_correct:
  assumes "dg_inv g"
  shows "dg_inv (dg_filter flt g) \<and> dg_number_of_nodes (dg_filter flt g) = dg_number_of_nodes g \<and>
    (\<forall>n < dg_number_of_nodes g. dg_adj (dg_filter flt g) n =
       (if flt n then filter (\<lambda>e. flt (de_target e)) (dg_adj g n) else [])) \<and>
    dg_number_of_edges (dg_filter flt g) = dg_number_of_edges g"
proof -
  obtain nodes' els' where loop: "dg_filter_loop flt (dg_edge_list g) (dg_node_array g) 0 [] = (nodes', els')"
    by fastforce
  let ?g = "dg_filter flt g"
  have g: "dg_number_of_nodes ?g = dg_number_of_nodes g" "dg_number_of_edges ?g = dg_number_of_edges g"
    "dg_node_array ?g = nodes'" "dg_edge_list ?g = els'"
    by (simp_all add: dg_filter_def loop)
  have len: "length (dg_node_array g) = dg_number_of_nodes g" using assms by (simp add: dg_inv_def)
  note sp = dg_filter_loop_spec [OF loop, unfolded len]
  have adj: "dg_adj ?g n = (if flt n then filter (\<lambda>e. flt (de_target e)) (dg_adj g n) else [])"
    if "n < dg_number_of_nodes g" for n
    using sp that by (simp add: dg_adj_def dg_begin_def dg_end_def g)
  have fin: "dg_end ?g n \<le> length els'" if "n < dg_number_of_nodes g" for n
    using sp that by (simp add: dg_end_def g)
  have live: "\<not> is_dummy els' i" if "n < dg_number_of_nodes g" "i \<in> dg_slots ?g n" for n i
  proof -
    have "els' ! i \<in> set (dg_adj ?g n)" using that(2) by (auto simp: dg_adj_def set_slice dg_slots_def g)
    then have "els' ! i \<in> set (dg_adj g n)" using adj [OF that(1)] by (auto split: if_splits)
    then obtain j where "j \<in> dg_slots g n" "dg_edge_list g ! j = els' ! i"
      by (auto simp: dg_adj_def set_slice dg_slots_def)
    from dg_inv_slot(2) [OF assms that(1) this(1)] this(2) show ?thesis by (simp add: is_dummy_def)
  qed
  have before: "dg_end ?g m \<le> dg_begin ?g n" if "m < n" "n < dg_number_of_nodes g" for m n
    using sp that by (simp add: dg_end_def dg_begin_def g)
  have disj: "dg_slots ?g n \<inter> dg_slots ?g m = {}" if "n < dg_number_of_nodes g" "m < dg_number_of_nodes g" "n \<noteq> m" for n m
    using before [of n m] before [of m n] that by (cases "n < m") (auto simp: dg_slots_def)
  have "dg_inv ?g"
    unfolding dg_inv_def using sp fin live disj by (simp add: g)
  with g adj show ?thesis by simp
qed

lemma dg_filter_correct_witness:
  "dg_inv (dg_filter (\<lambda>n. n < 1) (dg_empty \<lparr>de_target = 7, de_data = ''''\<rparr> 2))"
  using dg_filter_correct [OF dg_empty_inv] by blast

section \<open>Renumbering\<close>

lemma dg_renumber_range_spec:
  assumes "dg_renumber_range p es els ote idx = (els', ote', idx')"
    and "distinct es" "set es \<subseteq> {..<length els}" "length ote = length els"
  shows "idx' = idx + length es \<and> length els' = length els \<and> length ote' = length els \<and>
    (\<forall>i < length els. els' ! i = (if i \<in> set es
       then (els ! i)\<lparr>de_target := p ! de_target (els ! i)\<rparr> else els ! i)) \<and>
    (\<forall>k < length es. ote' ! (es ! k) = idx + k) \<and> (\<forall>i. i \<notin> set es \<longrightarrow> ote' ! i = ote ! i)"
  using assms
proof (induction p es els ote idx arbitrary: els' ote' idx' rule: dg_renumber_range.induct)
  case (2 p e es els ote idx)
  let ?els = "els[e := (els ! e)\<lparr>de_target := p ! de_target (els ! e)\<rparr>]"
  have "idx' = Suc idx + length es \<and> length els' = length ?els \<and> length ote' = length ?els \<and>
    (\<forall>i < length ?els. els' ! i = (if i \<in> set es
       then (?els ! i)\<lparr>de_target := p ! de_target (?els ! i)\<rparr> else ?els ! i)) \<and>
    (\<forall>k < length es. ote' ! (es ! k) = Suc idx + k) \<and> (\<forall>i. i \<notin> set es \<longrightarrow> ote' ! i = ote[e := idx] ! i)"
    using "2.prems" by (intro "2.IH") auto
  with "2.prems" show ?case by (auto simp: nth_list_update nth_Cons split: nat.splits)
qed simp

lemma dg_renumber_nodes_append:
  "dg_renumber_nodes p (xs @ ys) na els ote idx =
     (let (na', els', ote', idx') = dg_renumber_nodes p xs na els ote idx
      in dg_renumber_nodes p ys na' els' ote' idx')"
  by (induction p xs na els ote idx rule: dg_renumber_nodes.induct)
     (simp_all add: Let_def split: prod.split)

text \<open>The used slots in the order of the nodes.\<close>

definition node_range :: "DynamicNode list \<Rightarrow> nat \<Rightarrow> nat list" where
  "node_range na j = [dn_first_edge (na ! j)..<dn_first_edge (na ! j) + dn_edges (na ! j)]"

definition used_slots :: "DynamicNode list \<Rightarrow> nat \<Rightarrow> nat list" where
  "used_slots na m = concat (map (node_range na) [0..<m])"

lemma used_slots_Suc: "used_slots na (Suc m) = used_slots na m @ node_range na m"
  by (simp add: used_slots_def)

lemma used_slots_split:
  "j < n \<Longrightarrow> \<exists>rest. used_slots na n = used_slots na j @ node_range na j @ rest"
proof (induction n)
  case (Suc n)
  then show ?case by (cases "j = n") (auto simp: used_slots_Suc less_Suc_eq)
qed simp

lemma slice_used_slots:
  assumes "j < n"
  shows "slice (map f (used_slots na n)) (length (used_slots na j))
    (length (used_slots na j) + dn_edges (na ! j)) = map f (node_range na j)"
proof -
  obtain rest where "used_slots na n = used_slots na j @ node_range na j @ rest"
    using used_slots_split [OF assms] by blast
  then show ?thesis
    by (intro nth_equalityI) (auto simp: node_range_def nth_append)
qed

lemma length_used_slots_mono:
  assumes "i < j"
  shows "length (used_slots na i) + dn_edges (na ! i) \<le> length (used_slots na j)"
proof -
  obtain rest where "used_slots na j = used_slots na i @ node_range na i @ rest"
    using used_slots_split [OF assms] by blast
  then show ?thesis by (simp add: node_range_def)
qed

lemma dg_renumber_nodes_spec:
  assumes "distinct (used_slots na m)" "set (used_slots na m) \<subseteq> {..<length els}"
    and "length ote = length els" "m \<le> length na"
    and "dg_renumber_nodes p [0..<m] na els ote 0 = (na', els', ote', idx)"
  shows "idx = length (used_slots na m) \<and> length na' = length na \<and> length els' = length els \<and>
    length ote' = length els \<and>
    (\<forall>j < length na. na' ! j = (if j < m
       then \<lparr>dn_first_edge = length (used_slots na j), dn_edges = dn_edges (na ! j)\<rparr> else na ! j)) \<and>
    (\<forall>i < length els. els' ! i = (if i \<in> set (used_slots na m)
       then (els ! i)\<lparr>de_target := p ! de_target (els ! i)\<rparr> else els ! i)) \<and>
    (\<forall>k < length (used_slots na m). ote' ! (used_slots na m ! k) = k) \<and>
    (\<forall>i. i \<notin> set (used_slots na m) \<longrightarrow> ote' ! i = ote ! i)"
  using assms
proof (induction m arbitrary: na' els' ote' idx)
  case 0
  then show ?case by (simp add: used_slots_def)
next
  case (Suc m)
  obtain na1 els1 ote1 idx1 where n1: "dg_renumber_nodes p [0..<m] na els ote 0 = (na1, els1, ote1, idx1)"
    by (cases "dg_renumber_nodes p [0..<m] na els ote 0") auto
  let ?us = "used_slots na m" and ?r = "node_range na m"
  have ih: "idx1 = length ?us" "length na1 = length na" "length els1 = length els" "length ote1 = length els"
    "\<forall>j < length na. na1 ! j = (if j < m
       then \<lparr>dn_first_edge = length (used_slots na j), dn_edges = dn_edges (na ! j)\<rparr> else na ! j)"
    "\<forall>i < length els. els1 ! i = (if i \<in> set ?us
       then (els ! i)\<lparr>de_target := p ! de_target (els ! i)\<rparr> else els ! i)"
    "\<forall>k < length ?us. ote1 ! (?us ! k) = k" "\<forall>i. i \<notin> set ?us \<longrightarrow> ote1 ! i = ote ! i"
    using Suc.IH [OF _ _ _ _ n1] Suc.prems(1-4) by (simp_all add: used_slots_Suc)
  obtain els2 ote2 idx2 where r: "dg_renumber_range p ?r els1 ote1 idx1 = (els2, ote2, idx2)"
    by (cases "dg_renumber_range p ?r els1 ote1 idx1") auto
  have dis: "distinct ?r" "set ?r \<inter> set ?us = {}" "set ?r \<subseteq> {..<length els}"
    using Suc.prems(1,2) by (auto simp: used_slots_Suc)
  have rs: "idx2 = idx1 + length ?r" "length els2 = length els" "length ote2 = length els"
    "\<forall>i < length els. els2 ! i = (if i \<in> set ?r
       then (els1 ! i)\<lparr>de_target := p ! de_target (els1 ! i)\<rparr> else els1 ! i)"
    "\<forall>k < length ?r. ote2 ! (?r ! k) = idx1 + k" "\<forall>i. i \<notin> set ?r \<longrightarrow> ote2 ! i = ote1 ! i"
    using dg_renumber_range_spec [OF r dis(1)] dis(3) ih(3,4) by simp_all
  have eq: "na1 ! m = na ! m" using ih(5) Suc.prems(4) by simp
  have "dg_renumber_nodes p ([0..<m] @ [m]) na els ote 0 = (na', els', ote', idx)"
    using Suc.prems(5) by simp
  then have res: "na' = na1[m := (na ! m)\<lparr>dn_first_edge := idx1\<rparr>]" "els' = els2" "ote' = ote2" "idx = idx2"
    using n1 r by (simp_all add: dg_renumber_nodes_append eq node_range_def)
  have node: "(na ! m)\<lparr>dn_first_edge := idx1\<rparr> = \<lparr>dn_first_edge = length ?us, dn_edges = dn_edges (na ! m)\<rparr>"
    by (cases "na ! m") (simp add: ih(1))
  have "ote2 ! ((?us @ ?r) ! k) = k" if "k < length ?us + length ?r" for k
  proof (cases "k < length ?us")
    case True
    then have "?us ! k \<notin> set ?r" using dis(2) nth_mem by blast
    with True rs(6) ih(7) show ?thesis by (simp add: nth_append)
  next
    case False
    with that rs(5) have "ote2 ! (?r ! (k - length ?us)) = idx1 + (k - length ?us)" by simp
    with False show ?thesis by (simp add: nth_append ih(1))
  qed
  moreover have "els2 ! i = (if i \<in> set (?us @ ?r)
       then (els ! i)\<lparr>de_target := p ! de_target (els ! i)\<rparr> else els ! i)" if "i < length els" for i
    using rs(4) ih(6) dis(2) that by auto
  ultimately show ?case
    using rs(1-3) rs(6) ih(1,2,5,8) Suc.prems(4) node
    by (auto simp: res used_slots_Suc nth_list_update)
qed

lemma dg_renumber_dummies_spec:
  assumes "dg_renumber_dummies es ote idx = (ote', idx')"
    and "distinct es" "set es \<subseteq> {..<length ote}" "idx + length (filter (\<lambda>e. ote ! e = SPECIAL_EDGEID) es) \<le> SPECIAL_EDGEID"
  shows "length ote' = length ote \<and>
    (\<forall>k < length (filter (\<lambda>e. ote ! e = SPECIAL_EDGEID) es).
       ote' ! (filter (\<lambda>e. ote ! e = SPECIAL_EDGEID) es ! k) = idx + k) \<and>
    (\<forall>i. i \<notin> set (filter (\<lambda>e. ote ! e = SPECIAL_EDGEID) es) \<longrightarrow> ote' ! i = ote ! i)"
  using assms
proof (induction es ote idx arbitrary: ote' idx' rule: dg_renumber_dummies.induct)
  case (2 e es ote idx)
  show ?case
  proof (cases "ote ! e = SPECIAL_EDGEID")
    case True
    have same: "filter (\<lambda>j. ote[e := idx] ! j = SPECIAL_EDGEID) es = filter (\<lambda>j. ote ! j = SPECIAL_EDGEID) es"
      using "2.prems"(2) by (intro filter_cong refl arg_cong [where f = "\<lambda>x. x = _"] nth_list_update_neq) auto
    have "dg_renumber_dummies es (ote[e := idx]) (Suc idx) = (ote', idx')"
      using "2.prems"(1) True by simp
    from "2.IH"(1) [OF True this] "2.prems" True
    have ih: "length ote' = length ote \<and>
      (\<forall>k < length (filter (\<lambda>e. ote ! e = SPECIAL_EDGEID) es).
         ote' ! (filter (\<lambda>e. ote ! e = SPECIAL_EDGEID) es ! k) = Suc idx + k) \<and>
      (\<forall>i. i \<notin> set (filter (\<lambda>e. ote ! e = SPECIAL_EDGEID) es) \<longrightarrow> ote' ! i = ote[e := idx] ! i)"
      by (simp add: same)
    moreover have "ote' ! e = idx" using ih "2.prems"(2,3) by simp
    ultimately show ?thesis
      using True "2.prems"(2,3) by (auto simp: nth_Cons split: nat.splits)
  next
    case False
    with 2 show ?thesis by auto
  qed
qed simp

lemma dg_renumber_spec:
  assumes inv: "dg_inv g" and perm: "is_perm old_to_new (dg_number_of_nodes g)"
    and targets: "\<forall>n < dg_number_of_nodes g. \<forall>e \<in> set (dg_adj g n). de_target e < dg_number_of_nodes g"
    and small: "dg_number_of_nodes g < SPECIAL_NODEID" "length (dg_edge_list g) < SPECIAL_EDGEID"
  shows "\<exists>g'. dg_renumber old_to_new g = Some (Inr g') \<and> dg_inv g' \<and>
    dg_number_of_nodes g' = dg_number_of_nodes g \<and>
    (\<forall>n < dg_number_of_nodes g. dg_adj g' (old_to_new ! n) =
       map (\<lambda>e. e\<lparr>de_target := old_to_new ! de_target e\<rparr>) (dg_adj g n)) \<and>
    length (dg_edge_list g') = dg_number_of_edges g'"
proof -
  let ?N = "dg_number_of_nodes g" and ?els = "dg_edge_list g" and ?p = "old_to_new"
  let ?L = "length ?els" and ?f = "\<lambda>e. e\<lparr>de_target := old_to_new ! de_target e\<rparr>"
  have len: "length (dg_node_array g) = ?N" using inv by (simp add: dg_inv_def)
  obtain na where na: "inplacePermutation ?p (dg_node_array g) = Some na" "length na = ?N"
    "\<forall>x < ?N. na ! (?p ! x) = dg_node_array g ! x"
    using permute_indices_vector [of ?p "dg_node_array g"] perm len by auto
  have range: "set (node_range na (?p ! n)) = dg_slots g n" if "n < ?N" for n
    using na(3) that by (simp add: node_range_def dg_slots_def dg_begin_def dg_end_def)
  have old: "\<exists>n < ?N. j = ?p ! n" if "j < ?N" for j using is_perm_surj [OF perm that] by blast
  let ?us = "used_slots na ?N"
  have us_set: "set (used_slots na m) = (\<Union>j < m. set (node_range na j))" for m
    by (auto simp: used_slots_def)
  have disj: "set (node_range na i) \<inter> set (node_range na j) = {}" if ij: "i < ?N" "j < ?N" "i \<noteq> j" for i j
  proof -
    obtain n where n: "n < ?N" "i = ?p ! n" using old [OF ij(1)] by blast
    obtain k where k: "k < ?N" "j = ?p ! k" using old [OF ij(2)] by blast
    from n(2) k(2) ij(3) have "n \<noteq> k" by blast
    with n k inv have "dg_slots g n \<inter> dg_slots g k = {}" by (simp add: dg_inv_def)
    then show ?thesis using range [OF n(1)] range [OF k(1)] n(2) k(2) by simp
  qed
  have "distinct (used_slots na m)" if "m \<le> ?N" for m
    using that
  proof (induction m)
    case (Suc m)
    have "set (node_range na j) \<inter> set (node_range na m) = {}" if "j < m" for j
      using disj [of j m] Suc.prems that by simp
    then have "set (used_slots na m) \<inter> set (node_range na m) = {}" by (auto simp only: us_set)
    moreover have "distinct (node_range na m)" by (simp add: node_range_def)
    ultimately show ?case using Suc by (simp add: used_slots_Suc)
  qed (simp add: used_slots_def)
  then have us_dist: "distinct ?us" by simp
  have us_in: "\<exists>n < ?N. i \<in> dg_slots g n" if i: "i \<in> set ?us" for i
  proof -
    obtain j where j: "j < ?N" "i \<in> set (node_range na j)" using i by (auto simp: us_set)
    obtain n where n: "n < ?N" "j = ?p ! n" using old [OF j(1)] by blast
    then show ?thesis using range [OF n(1)] j(2) by auto
  qed
  then have us_sub: "set ?us \<subseteq> {..<?L}" using dg_inv_slot(1) [OF inv] by blast
  obtain na' els' ote valid where r: "dg_renumber_nodes ?p [0..<?N] na ?els
      (replicate ?L SPECIAL_EDGEID) 0 = (na', els', ote, valid)"
    by (cases "dg_renumber_nodes ?p [0..<?N] na ?els (replicate ?L SPECIAL_EDGEID) 0") auto
  note rs = dg_renumber_nodes_spec [OF us_dist us_sub _ _ r, simplified na(2), simplified]
  let ?fs = "filter (\<lambda>e. ote ! e = SPECIAL_EDGEID) [0..<?L]"
  have used: "length ?us \<le> ?L"
    using card_mono [OF _ us_sub] distinct_card [OF us_dist] by simp
  have fs: "?fs = filter (\<lambda>e. e \<notin> set ?us) [0..<?L]"
  proof (rule filter_cong [OF refl])
    fix e assume e: "e \<in> set [0..<?L]"
    show "(ote ! e = SPECIAL_EDGEID) = (e \<notin> set ?us)"
    proof (cases "e \<in> set ?us")
      case True
      then obtain k where "k < length ?us" "?us ! k = e" by (auto simp: in_set_conv_nth)
      with rs used small(2) True show ?thesis by auto
    qed (use rs e in auto)
  qed
  let ?ord = "?us @ ?fs"
  have ord_set: "set ?ord = {..<?L}" using us_sub by (auto simp: fs)
  have ord_dist: "distinct ?ord" using us_dist by (auto simp: fs)
  then have ord_len: "length ?ord = ?L" using distinct_card [OF ord_dist] ord_set by simp
  then have ord: "is_perm ?ord ?L" using ord_set ord_dist by (simp add: is_perm_def)
  obtain ote' total where d: "dg_renumber_dummies [0..<?L] ote valid = (ote', total)" by fastforce
  have ds: "length ote' = ?L" "\<forall>k < length ?fs. ote' ! (?fs ! k) = valid + k"
    "\<forall>i. i \<notin> set ?fs \<longrightarrow> ote' ! i = ote ! i"
    using dg_renumber_dummies_spec [OF d] rs ord_len small(2)
    by (simp_all add: lessThan_atLeast0)
  have "ote' ! (?ord ! k) = k" if "k < ?L" for k
  proof (cases "k < length ?us")
    case True
    then have "?us ! k \<notin> set ?fs" using nth_mem [OF True] by (auto simp: fs)
    with True ds(3) rs show ?thesis by (simp add: nth_append)
  next
    case False
    then have "k - length ?us < length ?fs" using that ord_len by simp
    with False ds(2) rs show ?thesis by (simp add: nth_append)
  qed
  with ord ds(1) have "ote' = orderingToPermutation ?ord" by (intro orderingToPermutation_unique) blast+
  then have "inplacePermutation ote' els' = Some (map ((!) els') ?ord)"
    using permute_ordering [of ?ord els'] ord rs by simp
  then have ren: "dg_renumber ?p g = Some (Inr (g\<lparr>dg_node_array := na',
      dg_edge_list := take valid (map ((!) els') ?ord), dg_number_of_edges := valid\<rparr>))"
    using small(2) by (simp add: dg_renumber_def na(1) r d)
  define g' where "g' = g\<lparr>dg_node_array := na', dg_edge_list := map ((!) els') ?us,
      dg_number_of_edges := valid\<rparr>"
  have ren': "dg_renumber ?p g = Some (Inr g')" using ren rs by (simp add: g'_def)
  have be: "dg_begin g' j = length (used_slots na j)"
    "dg_end g' j = length (used_slots na j) + dn_edges (na ! j)" if "j < ?N" for j
    using that rs by (simp_all add: dg_begin_def dg_end_def g'_def)
  have adj: "dg_adj g' (?p ! n) = map ?f (dg_adj g n)" if n: "n < ?N" for n
  proof -
    have j: "?p ! n < ?N" using is_perm_less [OF perm n] .
    have "dg_adj g' (?p ! n) = map ((!) els') (node_range na (?p ! n))"
      using slice_used_slots [OF j, of "(!) els'" na] by (simp add: dg_adj_def be [OF j]) (simp add: g'_def)
    also have "\<dots> = map (\<lambda>i. ?f (?els ! i)) (node_range na (?p ! n))"
    proof (rule map_cong [OF refl])
      fix i assume "i \<in> set (node_range na (?p ! n))"
      then have "i \<in> set ?us" using j by (auto simp: us_set)
      with rs us_sub show "els' ! i = ?f (?els ! i)" by auto
    qed
    finally show ?thesis
      using na(3) n by (simp add: dg_adj_def slice_def node_range_def dg_begin_def dg_end_def)
  qed
  have fin: "dg_end g' j \<le> length ?us" if "j < ?N" for j
    using length_used_slots_mono [OF that, of na] by (simp add: be that)
  have live: "\<not> is_dummy (map ((!) els') ?us) i" if ji: "j < ?N" "i \<in> dg_slots g' j" for i j
  proof -
    obtain n where n: "n < ?N" "j = ?p ! n" using old [OF ji(1)] by blast
    have "map ((!) els') ?us ! i \<in> set (dg_adj g' j)"
      using ji(2) by (auto simp: dg_adj_def set_slice dg_slots_def g'_def)
    then obtain e where e: "e \<in> set (dg_adj g n)" "map ((!) els') ?us ! i = ?f e" using adj n by auto
    with targets n have "de_target e < ?N" by blast
    from is_perm_less [OF perm this] small(1) e(2) show ?thesis by (simp add: is_dummy_def)
  qed
  have disj': "dg_slots g' i \<inter> dg_slots g' j = {}" if "i < ?N" "j < ?N" "i \<noteq> j" for i j
    using length_used_slots_mono [of i j na] length_used_slots_mono [of j i na] that
    by (cases "i < j") (auto simp: dg_slots_def be)
  have "dg_inv g'"
    unfolding dg_inv_def using rs na(2) fin live disj' by (simp add: g'_def)
  moreover have "length (dg_edge_list g') = dg_number_of_edges g'" using rs by (simp add: g'_def)
  moreover have "dg_number_of_nodes g' = ?N" by (simp add: g'_def)
  ultimately show ?thesis using ren' adj by blast
qed



end
