(* ===== verification/ContractorSearch.thy ===== *)
theory ContractorSearch
  imports Complex_Main QueryHeap DynamicGraph
begin

text \<open>
  The witness search of the contractor: the edge and heap data of
  \<^verbatim>\<open>include/contractor/contractor_graph.hpp\<close> and \<^verbatim>\<open>contractor_heap.hpp\<close>, and \<^verbatim>\<open>relaxNode\<close> and
  \<^verbatim>\<open>search\<close> of \<^verbatim>\<open>src/contractor/contractor_search.cpp\<close>.

  The heap and its index storage are the arguments \<open>H\<close> and \<open>S\<close>; everything proved about the
  search rests on the laws of the locale \<open>query_heap\<close>.  Weights and durations are integers and
  distances, which the code keeps as floats, are reals: overflow and rounding are not modelled.
\<close>

section \<open>Data\<close>

record ContractorEdgeData =
  ce_weight :: EdgeWeight
  ce_duration :: EdgeDuration
  ce_distance :: real
  ce_id :: nat
  ce_originalEdges :: nat
  ce_shortcut :: bool
  ce_forward :: bool
  ce_backward :: bool

type_synonym ContractorGraph = "ContractorEdgeData DynamicGraph"
type_synonym ContractorEdge = "ContractorEdgeData InputEdge"

definition mk_ContractorEdgeData ::
  "EdgeWeight \<Rightarrow> EdgeDuration \<Rightarrow> real \<Rightarrow> nat \<Rightarrow> nat \<Rightarrow> bool \<Rightarrow> bool \<Rightarrow> bool \<Rightarrow> ContractorEdgeData" where
  "mk_ContractorEdgeData weight duration distance original_edges edge_id shortcut forward backward =
     \<lparr>ce_weight = weight, ce_duration = duration, ce_distance = distance, ce_id = edge_id,
      ce_originalEdges = min (2 ^ 29 - 1) original_edges, ce_shortcut = shortcut,
      ce_forward = forward, ce_backward = backward\<rparr>"

record ContractorHeapData =
  ch_hop :: int
  ch_target :: bool

definition ContractorHeapData_default :: ContractorHeapData where
  "ContractorHeapData_default = \<lparr>ch_hop = 0, ch_target = False\<rparr>"

text \<open>Conversion to the 16-bit \<^verbatim>\<open>short\<close>.\<close>

definition short_of_int :: "int \<Rightarrow> int" where
  "short_of_int i = (i + 32768) mod 65536 - 32768"

section \<open>The search\<close>

type_synonym ('h, 's) ContractorHeap = "('h, 's, ContractorHeapData) QueryHeap"

definition relax_edge ::
  "'h heap_ops \<Rightarrow> 's index_ops \<Rightarrow> ContractorGraph \<Rightarrow> EdgeWeight \<Rightarrow> NodeID \<Rightarrow> int \<Rightarrow>
   ('h, 's) ContractorHeap \<Rightarrow> EdgeID \<Rightarrow> ('h, 's) ContractorHeap" where
  "relax_edge H S graph node_weight forbidden_node current_hop q edge =
     (let data = dg_data graph edge
      in if \<not> ce_forward data then q
         else
           (let to = dg_target graph edge
            in if forbidden_node = to then q
               else
                 (let to_weight = node_weight + ce_weight data
                  in (case qh_find S q to of
                        None \<Rightarrow> qh_insert H S q to to_weight \<lparr>ch_hop = current_hop, ch_target = False\<rparr>
                      | Some toHeapNode \<Rightarrow>
                          if to_weight < hn_weight (inserted_nodes q ! toHeapNode)
                          then
                            (let q1 = qh_set_weight_at q toHeapNode to_weight;
                                 q2 = qh_decrease_key_node H q1 (inserted_nodes q1 ! toHeapNode)
                             in qh_set_data_at q2 toHeapNode
                                  ((hn_data (inserted_nodes q2 ! toHeapNode))\<lparr>ch_hop := current_hop\<rparr>))
                          else q))))"

definition relaxNode ::
  "'h heap_ops \<Rightarrow> 's index_ops \<Rightarrow> ('h, 's) ContractorHeap \<Rightarrow> ContractorGraph \<Rightarrow> NodeID \<Rightarrow>
   EdgeWeight \<Rightarrow> NodeID \<Rightarrow> ('h, 's) ContractorHeap" where
  "relaxNode H S q graph node node_weight forbidden_node =
     (let current_hop = short_of_int (ch_hop (qh_get_data S q node) + 1)
      in foldl (relax_edge H S graph node_weight forbidden_node current_hop) q
           (dg_edge_range graph node))"

function search_loop ::
  "'h heap_ops \<Rightarrow> 's index_ops \<Rightarrow> ContractorGraph \<Rightarrow> nat \<Rightarrow> int \<Rightarrow> EdgeWeight \<Rightarrow> NodeID \<Rightarrow>
   ('h, 's) ContractorHeap \<Rightarrow> int \<Rightarrow> nat \<Rightarrow> ('h, 's) ContractorHeap" where
  "search_loop H S graph number_of_targets node_limit weight_limit forbidden_node q nodes found =
     (if qh_empty H q then q
      else
        (let (node, q') = qh_delete_min H q;
             node_weight = qh_get_key S q' node
         in if nodes + 1 > node_limit then q'
            else if node_weight > weight_limit then q'
            else
              (let found' = (if ch_target (qh_get_data S q' node) then found + 1 else found)
               in if ch_target (qh_get_data S q' node) \<and> found' \<ge> number_of_targets then q'
                  else search_loop H S graph number_of_targets node_limit weight_limit
                         forbidden_node
                         (relaxNode H S q' graph node node_weight forbidden_node)
                         (nodes + 1) found')))"
  by pat_completeness auto
termination
  by (relation "measure (\<lambda>(H, S, graph, number_of_targets, node_limit, weight_limit,
        forbidden_node, q, nodes, found). nat (node_limit - nodes))") auto

declare search_loop.simps [simp del]

definition search ::
  "'h heap_ops \<Rightarrow> 's index_ops \<Rightarrow> ('h, 's) ContractorHeap \<Rightarrow> ContractorGraph \<Rightarrow> nat \<Rightarrow> int \<Rightarrow>
   EdgeWeight \<Rightarrow> NodeID \<Rightarrow> ('h, 's) ContractorHeap" where
  "search H S q graph number_of_targets node_limit weight_limit forbidden_node =
     search_loop H S graph number_of_targets node_limit weight_limit forbidden_node q 0 0"

section \<open>Specification: paths that avoid a node\<close>

inductive fwd_path :: "ContractorGraph \<Rightarrow> NodeID \<Rightarrow> NodeID \<Rightarrow> NodeID \<Rightarrow> EdgeWeight \<Rightarrow> bool"
  for graph avoided source where
  fwd_path_refl: "fwd_path graph avoided source source 0"
| fwd_path_step: "fwd_path graph avoided source u w \<Longrightarrow> e \<in> set (dg_adj graph u) \<Longrightarrow>
    ce_forward (de_data e) \<Longrightarrow> de_target e \<noteq> avoided \<Longrightarrow>
    fwd_path graph avoided source (de_target e) (w + ce_weight (de_data e))"

text \<open>What the search assumes of the graph: nonnegative weights, targets known to the storage.\<close>

definition search_graph :: "ContractorGraph \<Rightarrow> NodeID set \<Rightarrow> bool" where
  "search_graph graph V \<longleftrightarrow>
     (\<forall>n \<in> V. \<forall>e \<in> set (dg_adj graph n). 0 \<le> ce_weight (de_data e) \<and> de_target e \<in> V)"

lemma fwd_path_in:
  assumes "search_graph graph V" "source \<in> V"
  shows "fwd_path graph avoided source n w \<Longrightarrow> n \<in> V"
  by (induction rule: fwd_path.induct) (use assms in \<open>auto simp: search_graph_def\<close>)

text \<open>The state of the search seen from outside: every key is the weight of a path unless it is
  invalid (\<open>keys_sound\<close>), removed nodes carry the least weight of all paths (\<open>removed_exact\<close>).\<close>

definition keys_sound ::
  "'s index_ops \<Rightarrow> ContractorGraph \<Rightarrow> NodeID \<Rightarrow> NodeID \<Rightarrow> ('h, 's) ContractorHeap \<Rightarrow> bool" where
  "keys_sound S graph avoided source q \<longleftrightarrow>
     (\<forall>n w d r. qh_view S q n = Some (w, d, r) \<longrightarrow>
        w = INVALID_EDGE_WEIGHT \<or> fwd_path graph avoided source n w)"

definition removed_exact ::
  "'s index_ops \<Rightarrow> ContractorGraph \<Rightarrow> NodeID \<Rightarrow> NodeID \<Rightarrow> ('h, 's) ContractorHeap \<Rightarrow> bool" where
  "removed_exact S graph avoided source q \<longleftrightarrow>
     (\<forall>n w d W. qh_view S q n = Some (w, d, True) \<longrightarrow>
        fwd_path graph avoided source n W \<longrightarrow> w \<le> W)"

text \<open>Inside the loop: the bound \<open>b\<close> separates removed from waiting nodes.\<close>

definition split_at ::
  "'s index_ops \<Rightarrow> ('h, 's) ContractorHeap \<Rightarrow> EdgeWeight \<Rightarrow> bool" where
  "split_at S q b \<longleftrightarrow> (\<forall>n w d r. qh_view S q n = Some (w, d, r) \<longrightarrow> (if r then w \<le> b else b \<le> w))"

text \<open>An edge is relaxed when its target has a key that accounts for it.\<close>

definition edge_relaxed ::
  "'s index_ops \<Rightarrow> NodeID \<Rightarrow> ('h, 's) ContractorHeap \<Rightarrow> EdgeWeight \<Rightarrow>
   ContractorEdgeData DynamicEdge \<Rightarrow> bool" where
  "edge_relaxed S avoided q w e \<longleftrightarrow>
     (ce_forward (de_data e) \<longrightarrow> de_target e \<noteq> avoided \<longrightarrow>
        (\<exists>w' d r. qh_view S q (de_target e) = Some (w', d, r) \<and> w' \<le> w + ce_weight (de_data e)))"

definition all_relaxed ::
  "'s index_ops \<Rightarrow> ContractorGraph \<Rightarrow> NodeID \<Rightarrow> NodeID set \<Rightarrow> ('h, 's) ContractorHeap \<Rightarrow> bool" where
  "all_relaxed S graph avoided except q \<longleftrightarrow>
     (\<forall>n w d. qh_view S q n = Some (w, d, True) \<longrightarrow> n \<notin> except \<longrightarrow>
        (\<forall>e \<in> set (dg_adj graph n). edge_relaxed S avoided q w e))"

text \<open>Keys only shrink, and removed nodes keep theirs.\<close>

definition view_step ::
  "'s index_ops \<Rightarrow> ('h, 's) ContractorHeap \<Rightarrow> ('h, 's) ContractorHeap \<Rightarrow> bool" where
  "view_step S q q' \<longleftrightarrow>
     (\<forall>n w d r. qh_view S q n = Some (w, d, r) \<longrightarrow>
        (\<exists>w' d'. qh_view S q' n = Some (w', d', r) \<and> w' \<le> w \<and> (r \<longrightarrow> w' = w))) \<and>
     (\<forall>n w d. qh_view S q' n = Some (w, d, True) \<longrightarrow> (\<exists>d'. qh_view S q n = Some (w, d', True)))"

lemma view_step_refl: "view_step S q q"
  by (auto simp: view_step_def)

lemma view_stepD:
  assumes "view_step S q q'"
  shows "qh_view S q n = Some (w, d, r) \<Longrightarrow>
      \<exists>w' d'. qh_view S q' n = Some (w', d', r) \<and> w' \<le> w \<and> (r \<longrightarrow> w' = w)"
    and "qh_view S q' n = Some (w, d, True) \<Longrightarrow> \<exists>d'. qh_view S q n = Some (w, d', True)"
  using assms unfolding view_step_def by blast+

lemma view_step_trans:
  assumes a: "view_step S q q'" and b: "view_step S q' q''"
  shows "view_step S q q''"
  unfolding view_step_def
proof (intro conjI allI impI)
  fix n w d r assume "qh_view S q n = Some (w, d, r)"
  then obtain w' d' where 1: "qh_view S q' n = Some (w', d', r)" "w' \<le> w" "r \<longrightarrow> w' = w"
    using view_stepD(1) [OF a] by blast
  then obtain w'' d'' where "qh_view S q'' n = Some (w'', d'', r)" "w'' \<le> w'" "r \<longrightarrow> w'' = w'"
    using view_stepD(1) [OF b] by blast
  with 1 show "\<exists>w' d'. qh_view S q'' n = Some (w', d', r) \<and> w' \<le> w \<and> (r \<longrightarrow> w' = w)" by auto
next
  fix n w d assume "qh_view S q'' n = Some (w, d, True)"
  then show "\<exists>d'. qh_view S q n = Some (w, d', True)"
    using view_stepD(2) [OF b] view_stepD(2) [OF a] by blast
qed

lemma split_atD:
  "split_at S q b \<Longrightarrow> qh_view S q n = Some (w, d, r) \<Longrightarrow> if r then w \<le> b else b \<le> w"
  by (auto simp: split_at_def)

lemma edge_relaxed_mono:
  assumes "view_step S q q'" "edge_relaxed S avoided q w e"
  shows "edge_relaxed S avoided q' w e"
  using assms(2) view_stepD(1) [OF assms(1)] unfolding edge_relaxed_def by (meson order_trans)

lemma all_relaxed_mono:
  assumes "view_step S q q'" "all_relaxed S graph avoided X q"
  shows "all_relaxed S graph avoided X q'"
  using assms(2) edge_relaxed_mono [OF assms(1)] view_stepD(2) [OF assms(1)]
  unfolding all_relaxed_def by blast

section \<open>Relaxing\<close>

context query_heap
begin

lemma view_in:
  assumes "inv q" "qh_view S q n = Some (w, d, r)"
  shows "n \<in> V"
proof -
  obtain i where "i < length (inserted_nodes q)" "hn_node (inserted_nodes q ! i) = n"
    using assms(2) by (rule view_SomeE)
  with inv_entry(1) [OF assms(1)] show ?thesis by blast
qed

lemma relax_edge_laws:
  assumes q: "inv q" and sp: "split_at S q nw" and ks: "keys_sound S graph avoided source q"
    and n: "fwd_path graph avoided source node nw"
    and e: "e \<in> set (dg_adj graph node)" "dg_edge_list graph ! edge = e"
    and V: "de_target e \<in> V" and w0: "0 \<le> ce_weight (de_data e)"
    and q': "q' = relax_edge H S graph nw avoided current_hop q edge"
  shows "inv q'" "split_at S q' nw" "keys_sound S graph avoided source q'" "view_step S q q'"
    "edge_relaxed S avoided q' nw e"
proof -
  let ?to = "de_target e" and ?w = "nw + ce_weight (de_data e)"
  have goal: "inv q' \<and> split_at S q' nw \<and> keys_sound S graph avoided source q' \<and> view_step S q q' \<and>
    edge_relaxed S avoided q' nw e"
  proof (cases "ce_forward (de_data e) \<and> ?to \<noteq> avoided")
    case False
    then have "q' = q" by (auto simp: q' relax_edge_def Let_def dg_data_def dg_target_def e(2))
    with False q sp ks show ?thesis by (auto simp: view_step_refl edge_relaxed_def)
  next
    case True
    then have path: "fwd_path graph avoided source ?to ?w"
      using n e(1) by (auto intro: fwd_path_step)
    show ?thesis
    proof (cases "qh_find S q ?to")
      case None
      then have fresh: "qh_view S q ?to = None" by (simp add: find_view(1))
      have "q' = qh_insert H S q ?to ?w \<lparr>ch_hop = current_hop, ch_target = False\<rparr>"
        using True None by (auto simp: q' relax_edge_def Let_def dg_data_def dg_target_def e(2))
      then have "inv q'" "qh_view S q' = (qh_view S q)(?to \<mapsto> (?w, \<lparr>ch_hop = current_hop, ch_target = False\<rparr>, False))"
        using insert_inv [OF q V fresh] insert_view [OF q V fresh] by auto
      with sp ks path w0 fresh show ?thesis
        by (auto simp: split_at_def keys_sound_def view_step_def edge_relaxed_def)
    next
      case (Some i)
      note f = find_view(2) [OF Some]
      let ?wi = "hn_weight (inserted_nodes q ! i)" and ?r = "hn_handle (inserted_nodes q ! i) = None"
      have v: "qh_view S q ?to = Some (?wi, hn_data (inserted_nodes q ! i), ?r)" using f by blast
      show ?thesis
      proof (cases "?w < ?wi")
        case False
        with True Some have "q' = q" by (auto simp: q' relax_edge_def Let_def dg_data_def dg_target_def e(2))
        with False v q sp ks show ?thesis by (auto simp: view_step_refl edge_relaxed_def)
      next
        case lt: True
        have r: "\<not> ?r" using split_atD [OF sp v] w0 lt by (auto split: if_splits)
        define q1 where "q1 = qh_set_weight_at q i ?w"
        define q2 where "q2 = qh_decrease_key_node H q1 (inserted_nodes q1 ! i)"
        define d where "d = (hn_data (inserted_nodes q2 ! i))\<lparr>ch_hop := current_hop\<rparr>"
        have q3: "q' = qh_set_data_at q2 i d"
          using True Some lt
          by (auto simp: q' relax_edge_def Let_def dg_data_def dg_target_def e(2) q1_def q2_def d_def)
        have "inv q'" "qh_view S q' = (qh_view S q)(?to \<mapsto> (?w, d, ?r))"
          using update_at_laws [OF q Some v _ q1_def q2_def q3] lt by auto
        with sp ks path w0 v lt r show ?thesis
          by (auto simp: split_at_def keys_sound_def view_step_def edge_relaxed_def)
      qed
    qed
  qed
  then show "inv q'" "split_at S q' nw" "keys_sound S graph avoided source q'" "view_step S q q'"
    "edge_relaxed S avoided q' nw e" by blast+
qed

lemma relax_fold_laws:
  assumes "inv q" "split_at S q nw" "keys_sound S graph avoided source q"
    and "fwd_path graph avoided source node nw" "search_graph graph V" "node \<in> V"
    and "set edges \<subseteq> set (dg_edge_range graph node)"
    and "q' = foldl (relax_edge H S graph nw avoided current_hop) q edges"
  shows "inv q' \<and> split_at S q' nw \<and> keys_sound S graph avoided source q' \<and> view_step S q q' \<and>
    (\<forall>edge \<in> set edges. edge_relaxed S avoided q' nw (dg_edge_list graph ! edge))"
  using assms
proof (induction edges arbitrary: q)
  case Nil
  then show ?case by (simp add: view_step_refl)
next
  case (Cons edge edges)
  let ?e = "dg_edge_list graph ! edge" and ?q = "relax_edge H S graph nw avoided current_hop q edge"
  have e: "?e \<in> set (dg_adj graph node)" using Cons.prems(7) by (auto simp: dg_adj_edges)
  with Cons.prems(5,6) have "de_target ?e \<in> V" "0 \<le> ce_weight (de_data ?e)"
    by (auto simp: search_graph_def)
  note step = relax_edge_laws [OF Cons.prems(1-4) e refl this refl, where current_hop = current_hop]
  have "inv q' \<and> split_at S q' nw \<and> keys_sound S graph avoided source q' \<and> view_step S ?q q' \<and>
    (\<forall>edge \<in> set edges. edge_relaxed S avoided q' nw (dg_edge_list graph ! edge))"
    using Cons.prems by (intro Cons.IH step) auto
  with step(4,5) show ?case using view_step_trans edge_relaxed_mono by auto
qed

lemma relaxNode_laws:
  assumes "inv q" "split_at S q nw" "keys_sound S graph avoided source q"
    and "fwd_path graph avoided source node nw" "search_graph graph V" "node \<in> V"
    and "q' = relaxNode H S q graph node nw avoided"
  shows "inv q' \<and> split_at S q' nw \<and> keys_sound S graph avoided source q' \<and> view_step S q q' \<and>
    (\<forall>e \<in> set (dg_adj graph node). edge_relaxed S avoided q' nw e)"
  using relax_fold_laws [OF assms(1-6) subset_refl] assms(7)
  by (auto simp: relaxNode_def Let_def dg_adj_edges)

section \<open>The loop\<close>

text \<open>The loop's invariant: the source has key zero at most, removed nodes are relaxed and
  exact, and no waiting node has a smaller key than a removed one.\<close>

definition loop_inv :: "ContractorGraph \<Rightarrow> NodeID \<Rightarrow> NodeID \<Rightarrow> ('h, 's) ContractorHeap \<Rightarrow> bool" where
  "loop_inv graph avoided source q \<longleftrightarrow>
     inv q \<and> (\<exists>b. split_at S q b) \<and> keys_sound S graph avoided source q \<and>
     (\<exists>w d r. qh_view S q source = Some (w, d, r) \<and> w \<le> 0) \<and>
     all_relaxed S graph avoided {} q \<and> removed_exact S graph avoided source q"

lemma path_frontier:
  assumes "loop_inv graph avoided source q" "search_graph graph V"
    and "fwd_path graph avoided source v W"
  shows "(\<exists>y w d. qh_view S q y = Some (w, d, False) \<and> w \<le> W) \<or>
    (\<exists>w d. qh_view S q v = Some (w, d, True) \<and> w \<le> W)"
proof -
  have src: "source \<in> V" using assms(1) view_in by (auto simp: loop_inv_def)
  from assms(3) show ?thesis
proof (induction rule: fwd_path.induct)
  case fwd_path_refl
  obtain w d r where "qh_view S q source = Some (w, d, r)" "w \<le> 0"
    using assms(1) by (auto simp: loop_inv_def)
  then show ?case by (cases r) auto
next
  case (fwd_path_step u W e)
  have nonneg: "0 \<le> ce_weight (de_data e)"
    using assms(2) fwd_path_step(2) fwd_path_in [OF assms(2) src fwd_path_step(1)]
    by (auto simp: search_graph_def)
  from fwd_path_step.IH show ?case
  proof
    assume "\<exists>y w d. qh_view S q y = Some (w, d, False) \<and> w \<le> W"
    with nonneg show ?thesis by (meson add_increasing2 order_trans)
  next
    assume "\<exists>w d. qh_view S q u = Some (w, d, True) \<and> w \<le> W"
    then obtain w d where u: "qh_view S q u = Some (w, d, True)" "w \<le> W" by blast
    with assms(1) fwd_path_step(2) have "edge_relaxed S avoided q w e"
      by (auto simp: loop_inv_def all_relaxed_def)
    with fwd_path_step(3,4) obtain w' d' r where
      v: "qh_view S q (de_target e) = Some (w', d', r)" "w' \<le> w + ce_weight (de_data e)"
      by (auto simp: edge_relaxed_def)
    then have "w' \<le> W + ce_weight (de_data e)" using u(2) by simp
    with v(1) show ?thesis by (cases r) auto
  qed
qed
qed

lemma delete_min_step:
  assumes I: "loop_inv graph avoided source q" and G: "search_graph graph V"
    and ne: "\<not> qh_empty H q" and dm: "qh_delete_min H q = (n, q')"
  shows "inv q'" "split_at S q' (qh_get_key S q' n)" "keys_sound S graph avoided source q'"
    "removed_exact S graph avoided source q'" "all_relaxed S graph avoided {n} q'"
    "\<exists>d. qh_view S q n = Some (qh_get_key S q' n, d, False) \<and>
       qh_view S q' = (qh_view S q)(n \<mapsto> (qh_get_key S q' n, d, True))"
proof -
  have q: "inv q" using I by (simp add: loop_inv_def)
  obtain w d where m: "inv q'" "qh_view S q n = Some (w, d, False)"
    "qh_view S q' = (qh_view S q)(n \<mapsto> (w, d, True))"
    "\<And>m w' d'. qh_view S q m = Some (w', d', False) \<Longrightarrow> w \<le> w'"
    using delete_min_laws [OF q ne dm] by blast
  have key: "qh_get_key S q' n = w" using m(3) get_view(1) [of q' n w d True] by simp
  obtain b where b: "split_at S q b" using I by (auto simp: loop_inv_def)
  then have "b \<le> w" using split_atD [OF b m(2)] by simp
  moreover have "w' \<le> b" if "qh_view S q k = Some (w', d', True)" for k w' d'
    using split_atD [OF b that] by simp
  ultimately have bd: "if r then w' \<le> w else w \<le> w'" if "qh_view S q k = Some (w', d', r)" for k w' d' r
    using that m(4) by (cases r) (auto intro: order_trans)
  show "split_at S q' (qh_get_key S q' n)"
    unfolding key split_at_def m(3) using bd by simp
  show "inv q'" by (rule m)
  show "keys_sound S graph avoided source q'"
    using I m(2) by (auto simp: loop_inv_def keys_sound_def m(3))
  have "w \<le> W" if "fwd_path graph avoided source n W" for W
    using path_frontier [OF I G that] m(2,4) by (elim disjE exE conjE) (auto intro: order_trans)
  then show "removed_exact S graph avoided source q'"
    using I by (auto simp: loop_inv_def removed_exact_def m(3))
  have "edge_relaxed S avoided q' w' e" if "edge_relaxed S avoided q w' e" for w' e
    using that m(2) by (auto simp: edge_relaxed_def m(3))
  then show "all_relaxed S graph avoided {n} q'"
    using I by (auto simp: loop_inv_def all_relaxed_def m(3))
  show "\<exists>d. qh_view S q n = Some (qh_get_key S q' n, d, False) \<and>
       qh_view S q' = (qh_view S q)(n \<mapsto> (qh_get_key S q' n, d, True))"
    using m(2,3) key by blast
qed

text \<open>What the search promises of its final queue.\<close>

definition search_post :: "ContractorGraph \<Rightarrow> NodeID \<Rightarrow> NodeID \<Rightarrow> ('h, 's) ContractorHeap \<Rightarrow>
    ('h, 's) ContractorHeap \<Rightarrow> bool" where
  "search_post graph avoided source q q' \<longleftrightarrow>
     inv q' \<and> keys_sound S graph avoided source q' \<and> removed_exact S graph avoided source q' \<and>
     (\<forall>n w d r. qh_view S q n = Some (w, d, r) \<longrightarrow>
        (\<exists>w' d' r'. qh_view S q' n = Some (w', d', r') \<and> w' \<le> w \<and> (r \<longrightarrow> w' = w)))"

lemma search_loop_post:
  assumes "loop_inv graph avoided source q" "search_graph graph V" "limit < INVALID_EDGE_WEIGHT"
  shows "search_post graph avoided source q
    (search_loop H S graph targets node_limit limit avoided q nodes found)"
  using assms
proof (induction "nat (node_limit - nodes)" arbitrary: q nodes found rule: less_induct)
  case less
  note I = less.prems(1) and G = less.prems(2)
  let ?res = "search_loop H S graph targets node_limit limit avoided q nodes found"
  show ?case
  proof (cases "qh_empty H q")
    case True
    then have "?res = q" by (subst search_loop.simps) simp
    with I show ?thesis by (auto simp: search_post_def loop_inv_def)
  next
    case ne: False
    obtain n q1 where dm: "qh_delete_min H q = (n, q1)" by fastforce
    note s = delete_min_step [OF I G ne dm]
    obtain d where d: "qh_view S q n = Some (qh_get_key S q1 n, d, False)"
      "qh_view S q1 = (qh_view S q)(n \<mapsto> (qh_get_key S q1 n, d, True))" using s(6) by blast
    have keep: "\<exists>w' d' r'. qh_view S q1 k = Some (w', d', r') \<and> w' \<le> w \<and> (r \<longrightarrow> w' = w \<and> r')"
      if "qh_view S q k = Some (w, d', r)" for k w d' r
      using that d by (cases "k = n") auto
    have stop: "search_post graph avoided source q q1"
      unfolding search_post_def
    proof (intro conjI s allI impI)
      fix k w d r assume "qh_view S q k = Some (w, d, r)"
      from keep [OF this] show "\<exists>w' d' r'. qh_view S q1 k = Some (w', d', r') \<and> w' \<le> w \<and> (r \<longrightarrow> w' = w)"
        by blast
    qed
    let ?tgt = "ch_target (qh_get_data S q1 n)"
    let ?found = "if ?tgt then found + 1 else found"
    let ?q2 = "relaxNode H S q1 graph n (qh_get_key S q1 n) avoided"
    show ?thesis
    proof (cases "nodes + 1 > node_limit \<or> qh_get_key S q1 n > limit \<or> ?tgt \<and> ?found \<ge> targets")
      case True
      then have "?res = q1" using ne dm by (subst search_loop.simps) (auto simp: Let_def)
      with stop show ?thesis by simp
    next
      case go: False
      then have res: "?res = search_loop H S graph targets node_limit limit avoided ?q2 (nodes + 1) ?found"
        using ne dm by (subst search_loop.simps) (auto simp: Let_def)
      have "qh_get_key S q1 n \<noteq> INVALID_EDGE_WEIGHT" using go less.prems(3) by simp
      then have path: "fwd_path graph avoided source n (qh_get_key S q1 n)"
        using I d(1) by (auto simp: loop_inv_def keys_sound_def)
      have nV: "n \<in> V" using view_in d(1) I by (auto simp: loop_inv_def)
      note r = relaxNode_laws [OF s(1,2,3) path G nV refl]
      then have vs: "view_step S q1 ?q2" by blast
      have "all_relaxed S graph avoided {} ?q2"
        unfolding all_relaxed_def
      proof (intro allI impI ballI)
        fix k w d' e assume v: "qh_view S ?q2 k = Some (w, d', True)" and e: "e \<in> set (dg_adj graph k)"
        then obtain d1 where "qh_view S q1 k = Some (w, d1, True)" using view_stepD(2) [OF vs] by blast
        then have "k = n \<Longrightarrow> w = qh_get_key S q1 n" using d(2) by simp
        then show "edge_relaxed S avoided ?q2 w e"
          using r all_relaxed_mono [OF vs s(5)] v e by (cases "k = n") (auto simp: all_relaxed_def)
      qed
      moreover have "removed_exact S graph avoided source ?q2"
        using s(4) view_stepD(2) [OF vs] unfolding removed_exact_def by blast
      moreover have "\<exists>w d r. qh_view S ?q2 source = Some (w, d, r) \<and> w \<le> 0"
      proof -
        obtain w0 d0 r0 where "qh_view S q source = Some (w0, d0, r0)" "w0 \<le> 0"
          using I by (auto simp: loop_inv_def)
        moreover from keep [OF this(1)] obtain w1 d1 r1 where
          "qh_view S q1 source = Some (w1, d1, r1)" "w1 \<le> w0" by blast
        moreover from view_stepD(1) [OF vs this(1)] obtain w2 d2 where
          "qh_view S ?q2 source = Some (w2, d2, r1)" "w2 \<le> w1" by blast
        ultimately show ?thesis by (meson order_trans)
      qed
      ultimately have I2: "loop_inv graph avoided source ?q2" using r by (auto simp: loop_inv_def)
      have post: "search_post graph avoided source ?q2 ?res"
        unfolding res using go G less.prems(3) by (intro less.hyps I2) auto
      have "\<exists>w' d' r'. qh_view S ?res k = Some (w', d', r') \<and> w' \<le> w \<and> (r \<longrightarrow> w' = w)"
        if kv: "qh_view S q k = Some (w, d0, r)" for k w d0 r
      proof -
        obtain w1 d1 r1 where 1: "qh_view S q1 k = Some (w1, d1, r1)" "w1 \<le> w" "r \<longrightarrow> w1 = w \<and> r1"
          using keep [OF kv] by blast
        obtain w2 d2 where 2: "qh_view S ?q2 k = Some (w2, d2, r1)" "w2 \<le> w1" "r1 \<longrightarrow> w2 = w1"
          using view_stepD(1) [OF vs 1(1)] by blast
        obtain w3 d3 r3 where 3: "qh_view S ?res k = Some (w3, d3, r3)" "w3 \<le> w2" "r1 \<longrightarrow> w3 = w2"
          using post 2(1) unfolding search_post_def by blast
        show ?thesis using 1 2 3 by auto
      qed
      with post show ?thesis by (simp add: search_post_def)
    qed
  qed
qed

lemma start_loop_inv:
  assumes "inv q" "qh_view S q source = Some (0, ds, False)"
    and "\<forall>n w d r. n \<noteq> source \<longrightarrow> qh_view S q n = Some (w, d, r) \<longrightarrow> w = INVALID_EDGE_WEIGHT \<and> \<not> r"
  shows "loop_inv graph avoided source q"
proof -
  have v: "\<not> r \<and> (w = INVALID_EDGE_WEIGHT \<or> n = source \<and> w = 0)" if "qh_view S q n = Some (w, d, r)" for n w d r
    using assms(2,3) that by (cases "n = source") auto
  then have "split_at S q 0" unfolding split_at_def by (force simp: INVALID_EDGE_WEIGHT_def)
  moreover have "keys_sound S graph avoided source q"
    unfolding keys_sound_def using v fwd_path_refl by metis
  moreover have "removed_exact S graph avoided source q" "all_relaxed S graph avoided {} q"
    using v by (fastforce simp: removed_exact_def all_relaxed_def)+
  ultimately show ?thesis using assms(1,2) by (auto simp: loop_inv_def)
qed

lemma search_laws:
  assumes "inv q" "qh_view S q source = Some (0, ds, False)"
    and "\<forall>n w d r. n \<noteq> source \<longrightarrow> qh_view S q n = Some (w, d, r) \<longrightarrow> w = INVALID_EDGE_WEIGHT \<and> \<not> r"
    and "search_graph graph V" "limit < INVALID_EDGE_WEIGHT"
  shows "search_post graph avoided source q
    (search H S q graph targets node_limit limit avoided)"
  unfolding search_def 
  by (intro search_loop_post start_loop_inv [OF assms(1-3)] assms(4,5))

end


definition example_edge :: "NodeID \<Rightarrow> NodeID \<Rightarrow> EdgeWeight \<Rightarrow> bool \<Rightarrow> bool \<Rightarrow> ContractorEdge" where
  "example_edge u v w fwd bwd = \<lparr>ie_source = u, ie_target = v,
     ie_data = mk_ContractorEdgeData w w 0 1 0 False fwd bwd\<rparr>"

text \<open>A street from 0 over 1 to 2, usable in this direction only: the graph the witnesses use.\<close>

definition example_graph :: ContractorGraph where
  "example_graph = dg_construct \<lparr>de_target = 0, de_data = mk_ContractorEdgeData 0 0 0 0 0 False False False\<rparr> 3
     [example_edge 0 1 4 True False, example_edge 1 0 4 False True,
      example_edge 1 2 3 True False, example_edge 2 1 3 False True]"

lemma example_graph_spec:
  "dg_inv example_graph" "dg_number_of_nodes example_graph = 3"
  "n < 3 \<Longrightarrow> dg_adj example_graph n = map edge_of_input (filter (\<lambda>e. ie_source e = n)
     [example_edge 0 1 4 True False, example_edge 1 0 4 False True,
      example_edge 1 2 3 True False, example_edge 2 1 3 False True])"
  unfolding example_graph_def
  by (intro dg_construct_spec; simp add: example_edge_def SPECIAL_NODEID_def)+

lemma example_search_graph: "search_graph example_graph {..<3}"
  by (auto simp: search_graph_def example_graph_spec example_edge_def edge_of_input_def
      mk_ContractorEdgeData_def split: if_splits)


end
