(* ===== verification/NodeContraction.thy ===== *)
theory NodeContraction
  imports ContractorSearch
begin

text \<open>
  Contracting one node: \<^verbatim>\<open>ContractNode\<close> of \<^verbatim>\<open>src/contractor/graph_contractor.cpp\<close> with its two
  instances, the contraction and its simulation.

  The node's thread data and the two out-parameters are the record \<open>ContractState\<close>: the heap,
  \<^verbatim>\<open>inserted_edges\<close>, \<^verbatim>\<open>node_weights\<close> and the statistics.  \<open>sim\<close> is the template argument
  \<^verbatim>\<open>RUNSIMULATION\<close>.
\<close>

section \<open>State\<close>

record ContractionStats =
  edges_deleted_count :: int
  edges_added_count :: int
  original_edges_deleted_count :: int
  original_edges_added_count :: int

definition ContractionStats_init :: ContractionStats where
  "ContractionStats_init = \<lparr>edges_deleted_count = 0, edges_added_count = 0,
     original_edges_deleted_count = 0, original_edges_added_count = 0\<rparr>"

record ('h, 's) ContractState =
  cs_heap :: "('h, 's) ContractorHeap"
  cs_edges :: "ContractorEdge list"
  cs_weights :: "EdgeWeight list"
  cs_stats :: ContractionStats

section \<open>The code\<close>

text \<open>The two \<^verbatim>\<open>emplace_back\<close> calls of a shortcut and the statistics the simulation keeps
  instead.\<close>

definition shortcut_pair ::
  "NodeID \<Rightarrow> NodeID \<Rightarrow> NodeID \<Rightarrow> ContractorEdgeData \<Rightarrow> ContractorEdgeData \<Rightarrow> ContractorEdge list" where
  "shortcut_pair node source target in_data out_data =
     (let mk = mk_ContractorEdgeData (ce_weight in_data + ce_weight out_data)
            (ce_duration in_data + ce_duration out_data)
            (ce_distance in_data + ce_distance out_data)
            (ce_originalEdges out_data + ce_originalEdges in_data) node True
      in [\<lparr>ie_source = source, ie_target = target, ie_data = mk True False\<rparr>,
          \<lparr>ie_source = target, ie_target = source, ie_data = mk False True\<rparr>])"

definition count_shortcut ::
  "ContractorEdgeData \<Rightarrow> ContractorEdgeData \<Rightarrow> ContractionStats \<Rightarrow> ContractionStats" where
  "count_shortcut in_data out_data stats =
     stats\<lparr>edges_added_count := edges_added_count stats + 2,
           original_edges_added_count := original_edges_added_count stats +
             2 * int (ce_originalEdges out_data + ce_originalEdges in_data)\<rparr>"

text \<open>The first loop over the out-edges: self-loops and the targets of the search.\<close>

definition cn_seed_edge ::
  "bool \<Rightarrow> 'h heap_ops \<Rightarrow> 's index_ops \<Rightarrow> ContractorGraph \<Rightarrow> NodeID \<Rightarrow> NodeID \<Rightarrow> ContractorEdgeData \<Rightarrow>
   ('h, 's) ContractState \<times> EdgeWeight \<times> nat \<Rightarrow> EdgeID \<Rightarrow>
   ('h, 's) ContractState \<times> EdgeWeight \<times> nat" where
  "cn_seed_edge sim H S graph node source in_data acc out_edge =
     (let (st, max_weight, number_of_targets) = acc;
          out_data = dg_data graph out_edge
      in if \<not> ce_forward out_data then acc
         else
           (let target = dg_target graph out_edge
            in if node = target then acc
               else
                 (let path_weight = ce_weight in_data + ce_weight out_data
                  in if target = source
                     then (if path_weight < cs_weights st ! node
                           then if sim
                                then (st\<lparr>cs_weights := (cs_weights st)[source := path_weight + 1],
                                         cs_stats := count_shortcut in_data out_data (cs_stats st)\<rparr>,
                                      max_weight, number_of_targets)
                                else (st\<lparr>cs_weights := (cs_weights st)[source := path_weight],
                                         cs_edges := cs_edges st @
                                           shortcut_pair node source target in_data out_data\<rparr>,
                                      max_weight, number_of_targets)
                           else acc)
                     else if \<not> qh_was_inserted S (cs_heap st) target
                     then (st\<lparr>cs_heap := qh_insert H S (cs_heap st) target INVALID_EDGE_WEIGHT
                                \<lparr>ch_hop = 0, ch_target = True\<rparr>\<rparr>,
                           max max_weight path_weight, number_of_targets + 1)
                     else (st, max max_weight path_weight, number_of_targets))))"

text \<open>The second loop: a shortcut where the search found no path that is as short.\<close>

definition cn_emit_edge ::
  "bool \<Rightarrow> 's index_ops \<Rightarrow> ContractorGraph \<Rightarrow> NodeID \<Rightarrow> NodeID \<Rightarrow> ContractorEdgeData \<Rightarrow>
   ('h, 's) ContractState \<Rightarrow> EdgeID \<Rightarrow> ('h, 's) ContractState" where
  "cn_emit_edge sim S graph node source in_data st out_edge =
     (let out_data = dg_data graph out_edge
      in if \<not> ce_forward out_data then st
         else
           (let target = dg_target graph out_edge
            in if target = node then st
               else
                 (let path_weight = ce_weight in_data + ce_weight out_data;
                      weight = qh_get_key S (cs_heap st) target
                  in if path_weight < weight
                     then if sim
                          then st\<lparr>cs_stats := count_shortcut in_data out_data (cs_stats st)\<rparr>
                          else st\<lparr>cs_edges := cs_edges st @
                                    shortcut_pair node source target in_data out_data\<rparr>
                     else st)))"

definition cn_in_edge ::
  "bool \<Rightarrow> 'h heap_ops \<Rightarrow> 's index_ops \<Rightarrow> ContractorGraph \<Rightarrow> NodeID \<Rightarrow> ('h, 's) ContractState \<Rightarrow> EdgeID \<Rightarrow>
   ('h, 's) ContractState" where
  "cn_in_edge sim H S graph node st in_edge =
     (let in_data = dg_data graph in_edge;
          source = dg_target graph in_edge
      in if source = node then st
         else
           (let st1 = (if sim
                       then st\<lparr>cs_stats := (cs_stats st)
                              \<lparr>edges_deleted_count := edges_deleted_count (cs_stats st) + 1,
                               original_edges_deleted_count :=
                                 original_edges_deleted_count (cs_stats st) +
                                 int (ce_originalEdges in_data)\<rparr>\<rparr>
                       else st)
            in if \<not> ce_backward in_data then st1
               else
                 (let heap1 = qh_insert H S (qh_clear H S (cs_heap st1)) source 0
                                ContractorHeapData_default;
                      (st2, max_weight, number_of_targets) =
                        foldl (cn_seed_edge sim H S graph node source in_data)
                          (st1\<lparr>cs_heap := heap1\<rparr>, 0, 0) (dg_edge_range graph node);
                      heap2 = search H S (cs_heap st2) graph number_of_targets
                                (if sim then 1000 else 2000) max_weight node
                  in foldl (cn_emit_edge sim S graph node source in_data)
                       (st2\<lparr>cs_heap := heap2\<rparr>) (dg_edge_range graph node))))"

text \<open>The last loop merges the two directions of shortcuts with equal ends and weight.\<close>

definition same_shortcut :: "ContractorEdge \<Rightarrow> ContractorEdge \<Rightarrow> bool" where
  "same_shortcut a b \<longleftrightarrow> ie_source a = ie_source b \<and> ie_target a = ie_target b \<and>
     ce_weight (ie_data a) = ce_weight (ie_data b) \<and> ce_shortcut (ie_data a) = ce_shortcut (ie_data b)"

definition or_flags :: "ContractorEdge \<Rightarrow> ContractorEdge \<Rightarrow> ContractorEdge" where
  "or_flags other e = other\<lparr>ie_data := (ie_data other)
     \<lparr>ce_forward := ce_forward (ie_data other) \<or> ce_forward (ie_data e),
      ce_backward := ce_backward (ie_data other) \<or> ce_backward (ie_data e)\<rparr>\<rparr>"

definition cn_merge_step :: "nat \<Rightarrow> ContractorEdge list \<times> nat \<Rightarrow> nat \<Rightarrow> ContractorEdge list \<times> nat" where
  "cn_merge_step iend acc i =
     (let (edges, inserted_edges_size) = acc
      in (case find (\<lambda>other. same_shortcut (edges ! other) (edges ! i)) [i + 1..<iend] of
            Some other \<Rightarrow> (edges[other := or_flags (edges ! other) (edges ! i)], inserted_edges_size)
          | None \<Rightarrow> (edges[inserted_edges_size := edges ! i], inserted_edges_size + 1)))"

definition cn_merge :: "nat \<Rightarrow> ContractorEdge list \<Rightarrow> ContractorEdge list" where
  "cn_merge inserted_edges_size edges =
     (let (edges', n) = foldl (cn_merge_step (length edges)) (edges, inserted_edges_size)
            [inserted_edges_size..<length edges]
      in take n edges')"

definition ContractNode ::
  "bool \<Rightarrow> 'h heap_ops \<Rightarrow> 's index_ops \<Rightarrow> ContractorGraph \<Rightarrow> NodeID \<Rightarrow> ('h, 's) ContractState \<Rightarrow>
   ('h, 's) ContractState" where
  "ContractNode sim H S graph node st =
     (let st' = foldl (cn_in_edge sim H S graph node) st (dg_edge_range graph node)
      in if sim then st'
         else st'\<lparr>cs_edges := cn_merge (length (cs_edges st)) (cs_edges st')\<rparr>)"

section \<open>What the shortcuts stand for\<close>

text \<open>The paths through a node: two of its edges, entered backward and left forward.\<close>

definition via :: "ContractorGraph \<Rightarrow> NodeID \<Rightarrow> (NodeID \<times> NodeID \<times> EdgeWeight) set" where
  "via graph node = {(u, t, w). \<exists>i \<in> set (dg_adj graph node). \<exists>j \<in> set (dg_adj graph node).
     ce_backward (de_data i) \<and> ce_forward (de_data j) \<and> de_target i = u \<and> de_target j = t \<and>
     u \<noteq> node \<and> t \<noteq> node \<and> w = ce_weight (de_data i) + ce_weight (de_data j)}"

text \<open>The arcs an edge list describes through its forward and through its backward flags.\<close>

definition fwd_arcs :: "ContractorEdge list \<Rightarrow> (NodeID \<times> NodeID \<times> EdgeWeight) set" where
  "fwd_arcs es = {(ie_source e, ie_target e, ce_weight (ie_data e)) | e. e \<in> set es \<and> ce_forward (ie_data e)}"

definition bwd_arcs :: "ContractorEdge list \<Rightarrow> (NodeID \<times> NodeID \<times> EdgeWeight) set" where
  "bwd_arcs es = {(ie_target e, ie_source e, ce_weight (ie_data e)) | e. e \<in> set es \<and> ce_backward (ie_data e)}"

definition edge_key :: "ContractorEdge \<Rightarrow> NodeID \<times> NodeID \<times> EdgeWeight \<times> bool" where
  "edge_key e = (ie_source e, ie_target e, ce_weight (ie_data e), ce_shortcut (ie_data e))"

lemma same_shortcut_key: "same_shortcut a b \<longleftrightarrow> edge_key a = edge_key b"
  by (auto simp: same_shortcut_def edge_key_def)

lemma arcs_append [simp]:
  "fwd_arcs (xs @ ys) = fwd_arcs xs \<union> fwd_arcs ys" "bwd_arcs (xs @ ys) = bwd_arcs xs \<union> bwd_arcs ys"
  "fwd_arcs [] = {}" "bwd_arcs [] = {}"
  by (auto simp: fwd_arcs_def bwd_arcs_def)

lemma arcs_Cons [simp]:
  "fwd_arcs (e # es) = (if ce_forward (ie_data e) then insert (ie_source e, ie_target e, ce_weight (ie_data e)) (fwd_arcs es)
     else fwd_arcs es)"
  "bwd_arcs (e # es) = (if ce_backward (ie_data e) then insert (ie_target e, ie_source e, ce_weight (ie_data e)) (bwd_arcs es)
     else bwd_arcs es)"
  by (auto simp: fwd_arcs_def bwd_arcs_def)

lemma shortcut_pair_arcs [simp]:
  "fwd_arcs (shortcut_pair node s t i j) = {(s, t, ce_weight i + ce_weight j)}"
  "bwd_arcs (shortcut_pair node s t i j) = {(s, t, ce_weight i + ce_weight j)}"
  by (auto simp: shortcut_pair_def Let_def mk_ContractorEdgeData_def)

lemma shortcut_pair_flags:
  "e \<in> set (shortcut_pair node s t i j) \<Longrightarrow> ce_shortcut (ie_data e) \<and> ce_id (ie_data e) = node"
  by (auto simp: shortcut_pair_def Let_def mk_ContractorEdgeData_def)

text \<open>Edges that are shortcuts of the node, both directions of each present.\<close>

definition good_shortcuts :: "ContractorGraph \<Rightarrow> NodeID \<Rightarrow> ContractorEdge list \<Rightarrow> bool" where
  "good_shortcuts graph node es \<longleftrightarrow> fwd_arcs es \<subseteq> via graph node \<and> bwd_arcs es = fwd_arcs es \<and>
     (\<forall>e \<in> set es. ce_shortcut (ie_data e) \<and> ce_id (ie_data e) = node)"

lemma good_shortcuts_append:
  "good_shortcuts graph node xs \<Longrightarrow> good_shortcuts graph node ys \<Longrightarrow> good_shortcuts graph node (xs @ ys)"
  "good_shortcuts graph node []"
  by (auto simp: good_shortcuts_def)

lemma good_shortcut_pair:
  "(s, t, ce_weight i + ce_weight j) \<in> via graph node \<Longrightarrow> good_shortcuts graph node (shortcut_pair node s t i j)"
  using shortcut_pair_flags by (auto simp: good_shortcuts_def)

section \<open>Merging\<close>

lemma arcs_or_flags:
  assumes "edge_key other = edge_key e"
  shows "fwd_arcs [or_flags other e] = fwd_arcs [other, e]" "bwd_arcs [or_flags other e] = bwd_arcs [other, e]"
    "edge_key (or_flags other e) = edge_key other"
  using assms by (auto simp: edge_key_def or_flags_def)

lemma arcs_mid:
  "fwd_arcs (xs @ e # ys) = fwd_arcs [e] \<union> (fwd_arcs xs \<union> fwd_arcs ys)"
  "bwd_arcs (xs @ e # ys) = bwd_arcs [e] \<union> (bwd_arcs xs \<union> bwd_arcs ys)"
  by auto

lemma arcs_first:
  "fwd_arcs (e # (xs @ ys)) = fwd_arcs [e] \<union> fwd_arcs (xs @ ys)"
  "bwd_arcs (e # (xs @ ys)) = bwd_arcs [e] \<union> bwd_arcs (xs @ ys)"
  by auto

lemma arcs_set:
  "fwd_arcs xs = (\<Union>e \<in> set xs. fwd_arcs [e])" "bwd_arcs xs = (\<Union>e \<in> set xs. bwd_arcs [e])"
  by (induction xs) auto

lemma slice_split:
  assumes "b \<le> i" "i < e"
  shows "slice xs b e = slice xs b i @ xs ! i # slice xs (Suc i) e"
proof -
  have "[b..<e] = [b..<i] @ i # [Suc i..<e]"
    using assms upt_add_eq_append [of b i "e - i"] by (simp add: upt_conv_Cons)
  then show ?thesis by (simp add: slice_def)
qed

lemma slice_update_in:
  "b \<le> i \<Longrightarrow> i < e \<Longrightarrow> e \<le> length xs \<Longrightarrow>
   slice (xs[i := x]) b e = slice xs b i @ x # slice xs (Suc i) e"
  by (simp add: slice_split slice_update_outside)

text \<open>The merge keeps both kinds of arcs, and no two edges it keeps have the same key.\<close>

definition merge_inv :: "nat \<Rightarrow> ContractorEdge list \<Rightarrow> nat \<Rightarrow> ContractorEdge list \<times> nat \<Rightarrow> bool" where
  "merge_inv k es i acc \<longleftrightarrow> (case acc of (edges, sz) \<Rightarrow>
     k \<le> sz \<and> sz \<le> i \<and> i \<le> length es \<and> length edges = length es \<and> take k edges = take k es \<and>
     fwd_arcs (slice edges k sz @ slice edges i (length es)) = fwd_arcs (slice es k (length es)) \<and>
     bwd_arcs (slice edges k sz @ slice edges i (length es)) = bwd_arcs (slice es k (length es)) \<and>
     distinct (map edge_key (slice edges k sz)) \<and>
     edge_key ` set (slice edges k sz) \<inter> edge_key ` set (slice edges i (length es)) = {} \<and>
     (\<forall>e \<in> set (slice edges k sz @ slice edges i (length es)). \<exists>e' \<in> set (slice es k (length es)).
        ce_shortcut (ie_data e) = ce_shortcut (ie_data e') \<and> ce_id (ie_data e) = ce_id (ie_data e')))"

lemma merge_inv_step:
  assumes inv: "merge_inv k es i acc" and i: "i < length es"
  shows "merge_inv k es (Suc i) (cn_merge_step (length es) acc i)"
proof -
  obtain edges sz where acc: "acc = (edges, sz)" by fastforce
  let ?L = "length es"
  have I: "k \<le> sz" "sz \<le> i" "length edges = ?L" "take k edges = take k es"
    "distinct (map edge_key (slice edges k sz))"
    "edge_key ` set (slice edges k sz) \<inter> edge_key ` set (slice edges i ?L) = {}"
    using inv by (auto simp: merge_inv_def acc)
  have F: "fwd_arcs (slice edges k sz @ slice edges i ?L) = fwd_arcs (slice es k ?L)"
    "bwd_arcs (slice edges k sz @ slice edges i ?L) = bwd_arcs (slice es k ?L)"
    and Q: "\<forall>e \<in> set (slice edges k sz @ slice edges i ?L). \<exists>e' \<in> set (slice es k ?L).
        ce_shortcut (ie_data e) = ce_shortcut (ie_data e') \<and> ce_id (ie_data e) = ce_id (ie_data e')"
    using inv unfolding merge_inv_def acc by blast+
  have head: "slice edges i ?L = edges ! i # slice edges (Suc i) ?L" using i by (simp add: slice_Cons)
  show ?thesis
  proof (cases "find (\<lambda>other. same_shortcut (edges ! other) (edges ! i)) [i + 1..<?L]")
    case None
    then have new: "edge_key (edges ! i) \<notin> edge_key ` set (slice edges (Suc i) ?L)"
      by (auto simp: find_None_iff set_slice same_shortcut_key)
    have kept: "slice (edges[sz := edges ! i]) k (Suc sz) = slice edges k sz @ [edges ! i]"
      using I i by (simp add: slice_Suc slice_update_outside)
    have rest: "slice (edges[sz := edges ! i]) (Suc i) ?L = slice edges (Suc i) ?L"
      using I by (simp add: slice_update_outside)
    have "cn_merge_step ?L acc i = (edges[sz := edges ! i], Suc sz)"
      using None by (simp add: cn_merge_step_def acc)
    moreover have same: "slice (edges[sz := edges ! i]) k (Suc sz) @ slice (edges[sz := edges ! i]) (Suc i) ?L =
        slice edges k sz @ slice edges i ?L"
      by (simp add: kept rest head)
    moreover have "distinct (map edge_key (slice (edges[sz := edges ! i]) k (Suc sz)))"
      "edge_key ` set (slice (edges[sz := edges ! i]) k (Suc sz)) \<inter>
       edge_key ` set (slice (edges[sz := edges ! i]) (Suc i) ?L) = {}"
      using I(5,6) new by (simp_all add: kept rest head)
    ultimately show ?thesis
      using I(1-4) F Q i unfolding merge_inv_def by (simp only: prod.case same) simp
  next
    case (Some j)
    then have j: "Suc i \<le> j" "j < ?L" "edge_key (edges ! j) = edge_key (edges ! i)"
      by (auto simp: find_Some_iff same_shortcut_key)
    let ?e = "or_flags (edges ! j) (edges ! i)"
    note fl = arcs_or_flags [OF j(3)]
    have kept: "slice (edges[j := ?e]) k sz = slice edges k sz"
      using I j by (simp add: slice_update_outside)
    have rest: "slice (edges[j := ?e]) (Suc i) ?L = slice edges (Suc i) j @ ?e # slice edges (Suc j) ?L"
      using j I(3) by (simp add: slice_update_in)
    have old: "slice edges (Suc i) ?L = slice edges (Suc i) j @ edges ! j # slice edges (Suc j) ?L"
      using j by (simp add: slice_split)
    have step: "cn_merge_step ?L acc i = (edges[j := ?e], sz)"
      using Some by (simp add: cn_merge_step_def acc)
    have eF: "fwd_arcs [?e] = fwd_arcs [edges ! j] \<union> fwd_arcs [edges ! i]"
      "bwd_arcs [?e] = bwd_arcs [edges ! j] \<union> bwd_arcs [edges ! i]"
      unfolding fl by auto
    let ?X = "slice edges (Suc i) j" and ?Y = "slice edges (Suc j) ?L"
    have new: "fwd_arcs (slice (edges[j := ?e]) (Suc i) ?L) = fwd_arcs [?e] \<union> (fwd_arcs ?X \<union> fwd_arcs ?Y)"
      "bwd_arcs (slice (edges[j := ?e]) (Suc i) ?L) = bwd_arcs [?e] \<union> (bwd_arcs ?X \<union> bwd_arcs ?Y)"
      unfolding rest by (rule arcs_mid)+
    have was: "fwd_arcs (slice edges i ?L) = fwd_arcs [edges ! i] \<union> (fwd_arcs [edges ! j] \<union> (fwd_arcs ?X \<union> fwd_arcs ?Y))"
      "bwd_arcs (slice edges i ?L) = bwd_arcs [edges ! i] \<union> (bwd_arcs [edges ! j] \<union> (bwd_arcs ?X \<union> bwd_arcs ?Y))"
      unfolding head old by (simp_all only: arcs_mid arcs_first)
    have "fwd_arcs (slice edges k sz @ slice (edges[j := ?e]) (Suc i) ?L) = fwd_arcs (slice es k ?L)"
      using F(1) unfolding arcs_append new was eF by (simp only: Un_ac)
    moreover have "bwd_arcs (slice edges k sz @ slice (edges[j := ?e]) (Suc i) ?L) = bwd_arcs (slice es k ?L)"
      using F(2) unfolding arcs_append new was eF by (simp only: Un_ac)
    moreover have "edge_key ` set (slice edges k sz) \<inter> edge_key ` set (slice (edges[j := ?e]) (Suc i) ?L) = {}"
      using I(6) unfolding rest head old by (simp add: fl(3))
    moreover have "ce_shortcut (ie_data ?e) = ce_shortcut (ie_data (edges ! j))"
      "ce_id (ie_data ?e) = ce_id (ie_data (edges ! j))" by (simp_all add: or_flags_def)
    then have "\<forall>e \<in> set (slice edges k sz @ slice (edges[j := ?e]) (Suc i) ?L). \<exists>e' \<in> set (slice es k ?L).
        ce_shortcut (ie_data e) = ce_shortcut (ie_data e') \<and> ce_id (ie_data e) = ce_id (ie_data e')"
      using Q unfolding rest head old by auto
    ultimately show ?thesis
      using I i j step unfolding merge_inv_def by (simp only: kept prod.case) simp
  qed
qed

lemma merge_inv_fold:
  "merge_inv k es i acc \<Longrightarrow> merge_inv k es (length es) (foldl (cn_merge_step (length es)) acc [i..<length es])"
proof (induction "length es - i" arbitrary: i acc)
  case 0
  then have "i = length es" by (auto simp: merge_inv_def split: prod.splits)
  with 0 show ?case by simp
next
  case (Suc d)
  then have i: "i < length es" by simp
  then have "foldl (cn_merge_step (length es)) acc [i..<length es] =
      foldl (cn_merge_step (length es)) (cn_merge_step (length es) acc i) [Suc i..<length es]"
    by (simp add: upt_conv_Cons)
  with Suc.hyps merge_inv_step [OF Suc.prems i] show ?case by simp
qed

lemma slice_to_end: "slice xs k (length xs) = drop k xs"
  by (cases "k \<le> length xs") (simp_all add: slice_eq_take_drop)

lemma cn_merge_spec:
  assumes "k \<le> length es"
  shows "take k (cn_merge k es) = take k es"
    and "fwd_arcs (drop k (cn_merge k es)) = fwd_arcs (drop k es)"
    and "bwd_arcs (drop k (cn_merge k es)) = bwd_arcs (drop k es)"
    and "distinct (map edge_key (drop k (cn_merge k es)))"
    and "\<forall>e \<in> set (drop k (cn_merge k es)). \<exists>e' \<in> set (drop k es).
        ce_shortcut (ie_data e) = ce_shortcut (ie_data e') \<and> ce_id (ie_data e) = ce_id (ie_data e')"
proof -
  obtain edges n where f: "foldl (cn_merge_step (length es)) (es, k) [k..<length es] = (edges, n)" by fastforce
  have "merge_inv k es k (es, k)" using assms by (simp add: merge_inv_def Bex_def) blast
  from merge_inv_fold [OF this] have inv: "merge_inv k es (length es) (edges, n)" by (simp add: f)
  have m: "cn_merge k es = take n edges" by (simp add: cn_merge_def f)
  have n: "k \<le> n" "n \<le> length edges" using inv by (auto simp: merge_inv_def)
  then have d: "drop k (cn_merge k es) = slice edges k n"
    unfolding m by (simp add: slice_eq_take_drop drop_take)
  show "take k (cn_merge k es) = take k es" using inv n by (auto simp: m merge_inv_def min_def)
  show "fwd_arcs (drop k (cn_merge k es)) = fwd_arcs (drop k es)"
    "bwd_arcs (drop k (cn_merge k es)) = bwd_arcs (drop k es)"
    "distinct (map edge_key (drop k (cn_merge k es)))"
    "\<forall>e \<in> set (drop k (cn_merge k es)). \<exists>e' \<in> set (drop k es).
        ce_shortcut (ie_data e) = ce_shortcut (ie_data e') \<and> ce_id (ie_data e) = ce_id (ie_data e')"
    using inv unfolding d merge_inv_def by (simp_all add: slice_to_end)
qed

text \<open>
  Property C12. Merging the shortcuts behind position \<open>k\<close> leaves the edges before it alone,
  keeps exactly the arcs the forward and the backward flags describe, and leaves no two edges
  with the same ends, weight and shortcut flag.
\<close>

theorem cn_merge_correct:
  assumes "k \<le> length es"
  shows "take k (cn_merge k es) = take k es \<and>
    fwd_arcs (drop k (cn_merge k es)) = fwd_arcs (drop k es) \<and>
    bwd_arcs (drop k (cn_merge k es)) = bwd_arcs (drop k es) \<and>
    distinct (map edge_key (drop k (cn_merge k es)))"
  using cn_merge_spec [OF assms] by blast

lemma cn_merge_correct_witness:
  "fwd_arcs (drop 0 (cn_merge 0 [example_edge 0 1 4 True False, example_edge 0 1 4 False True])) = {(0, 1, 4)}"
  using cn_merge_correct [of 0 "[example_edge 0 1 4 True False, example_edge 0 1 4 False True]"]
  by (simp add: example_edge_def mk_ContractorEdgeData_def)

section \<open>Contracting\<close>

text \<open>The induction all loops of \<^verbatim>\<open>ContractNode\<close> use: one step per element.\<close>

lemma foldl_invariant:
  assumes "P [] a" and "\<And>xs x b. set (xs @ [x]) \<subseteq> A \<Longrightarrow> P xs b \<Longrightarrow> P (xs @ [x]) (f b x)"
  shows "set xs \<subseteq> A \<Longrightarrow> P xs (foldl f a xs)"
  using assms by (induction xs rule: rev_induct) auto

text \<open>What an edge id of the node's range contributes: a forward out-edge to another node.\<close>

definition out_arc :: "ContractorGraph \<Rightarrow> NodeID \<Rightarrow> EdgeID \<Rightarrow> NodeID \<Rightarrow> EdgeWeight \<Rightarrow> bool" where
  "out_arc graph node edge t w \<longleftrightarrow>
     ce_forward (dg_data graph edge) \<and> dg_target graph edge = t \<and> t \<noteq> node \<and>
     w = ce_weight (dg_data graph edge)"

definition contract_graph :: "ContractorGraph \<Rightarrow> NodeID set \<Rightarrow> NodeID \<Rightarrow> bool" where
  "contract_graph graph V node \<longleftrightarrow> search_graph graph V \<and> node \<in> V \<and>
     (\<forall>(u, t, w) \<in> via graph node. w < INVALID_EDGE_WEIGHT)"

lemma via_edges:
  assumes "i \<in> set (dg_edge_range graph node)" "e \<in> set (dg_edge_range graph node)"
    and "ce_backward (dg_data graph i)" "dg_target graph i \<noteq> node" "out_arc graph node e t w"
  shows "(dg_target graph i, t, ce_weight (dg_data graph i) + w) \<in> via graph node"
  unfolding via_def
proof (clarify, intro exI bexI conjI)
  show "ce_backward (de_data (dg_edge_list graph ! i))" "ce_forward (de_data (dg_edge_list graph ! e))"
    "de_target (dg_edge_list graph ! i) = dg_target graph i" "de_target (dg_edge_list graph ! e) = t"
    "dg_target graph i \<noteq> node" "t \<noteq> node"
    "ce_weight (dg_data graph i) + w =
      ce_weight (de_data (dg_edge_list graph ! i)) + ce_weight (de_data (dg_edge_list graph ! e))"
    using assms by (auto simp: out_arc_def dg_data_def dg_target_def)
  show "dg_edge_list graph ! e \<in> set (dg_adj graph node)" "dg_edge_list graph ! i \<in> set (dg_adj graph node)"
    using assms by (simp_all add: dg_adj_edges)
qed

context query_heap
begin

text \<open>The queue while targets are inserted: the source at zero, everything else invalid.\<close>

definition seeded :: "NodeID \<Rightarrow> ('h, 's) ContractorHeap \<Rightarrow> bool" where
  "seeded source q \<longleftrightarrow> inv q \<and>
     (\<exists>ds. qh_view S q source = Some (0, ds, False)) \<and>
     (\<forall>n w d r. n \<noteq> source \<longrightarrow> qh_view S q n = Some (w, d, r) \<longrightarrow> w = INVALID_EDGE_WEIGHT \<and> \<not> r)"

definition seed_post :: "ContractorGraph \<Rightarrow> NodeID \<Rightarrow> NodeID \<Rightarrow> EdgeWeight \<Rightarrow> ('h, 's) ContractState \<Rightarrow>
    EdgeID list \<Rightarrow> ('h, 's) ContractState \<times> EdgeWeight \<times> nat \<Rightarrow> bool" where
  "seed_post graph node source wa st0 xs acc \<longleftrightarrow> (case acc of (st, mw, nt) \<Rightarrow>
     seeded source (cs_heap st) \<and> mw < INVALID_EDGE_WEIGHT \<and>
     cs_weights st ! node = cs_weights st0 ! node \<and>
     (\<exists>ext. cs_edges st = cs_edges st0 @ ext \<and> good_shortcuts graph node ext \<and>
        (\<forall>e \<in> set xs. \<forall>w. out_arc graph node e source w \<longrightarrow>
           (source, source, wa + w) \<in> fwd_arcs ext \<or> cs_weights st0 ! node \<le> wa + w)) \<and>
     (\<forall>e \<in> set xs. \<forall>t w. out_arc graph node e t w \<longrightarrow> t \<noteq> source \<longrightarrow>
        qh_view S (cs_heap st) t \<noteq> None \<and> wa + w \<le> mw))"

lemma seed_step:
  assumes G: "contract_graph graph V node" and src: "source \<noteq> node"
    and i: "i \<in> set (dg_edge_range graph node)" "ce_backward (dg_data graph i)" "dg_target graph i = source"
    and e: "e \<in> set (dg_edge_range graph node)"
    and post: "seed_post graph node source (ce_weight (dg_data graph i)) st0 xs acc"
  shows "seed_post graph node source (ce_weight (dg_data graph i)) st0 (xs @ [e])
    (cn_seed_edge False H S graph node source (dg_data graph i) acc e)"
proof -
  obtain st mw nt where acc: "acc = (st, mw, nt)" by (cases acc)
  let ?wa = "ce_weight (dg_data graph i)" and ?d = "dg_data graph e" and ?t = "dg_target graph e"
  let ?new = "cn_seed_edge False H S graph node source (dg_data graph i) acc e"
  have P: "seeded source (cs_heap st)" "mw < INVALID_EDGE_WEIGHT"
    "cs_weights st ! node = cs_weights st0 ! node"
    "\<forall>e \<in> set xs. \<forall>t w. out_arc graph node e t w \<longrightarrow> t \<noteq> source \<longrightarrow>
        qh_view S (cs_heap st) t \<noteq> None \<and> ?wa + w \<le> mw"
    using post by (auto simp: seed_post_def acc)
  obtain ext where ext: "cs_edges st = cs_edges st0 @ ext" "good_shortcuts graph node ext"
    "\<forall>e \<in> set xs. \<forall>w. out_arc graph node e source w \<longrightarrow>
       (source, source, ?wa + w) \<in> fwd_arcs ext \<or> cs_weights st0 ! node \<le> ?wa + w"
    using post by (auto simp: seed_post_def acc)
  show ?thesis
  proof (cases "ce_forward ?d \<and> ?t \<noteq> node")
    case False
    then have "?new = acc" by (auto simp: cn_seed_edge_def acc Let_def)
    moreover have "\<not> out_arc graph node e t w" for t w using False by (auto simp: out_arc_def)
    ultimately show ?thesis using post by (simp add: seed_post_def acc)
  next
    case True
    let ?pw = "?wa + ce_weight ?d"
    have arc: "out_arc graph node e t w \<longleftrightarrow> t = ?t \<and> w = ce_weight ?d" for t w
      using True by (auto simp: out_arc_def)
    have via: "(source, ?t, ?pw) \<in> via graph node"
      using via_edges [OF i(1) e i(2)] i(3) src arc by blast
    then have pw: "?pw < INVALID_EDGE_WEIGHT" using G by (auto simp: contract_graph_def)
    show ?thesis
    proof (cases "?t = source")
      case self: True
      show ?thesis
      proof (cases "?pw < cs_weights st ! node")
        case True
        let ?ext = "ext @ shortcut_pair node source ?t (dg_data graph i) ?d"
        let ?st = "st\<lparr>cs_weights := (cs_weights st)[source := ?pw],
          cs_edges := cs_edges st0 @ ?ext\<rparr>"
        have new: "?new = (?st, mw, nt)"
          using True self src \<open>ce_forward ?d \<and> ?t \<noteq> node\<close> by (simp add: cn_seed_edge_def acc Let_def ext(1))
        have "good_shortcuts graph node ?ext"
          by (intro good_shortcuts_append(1) ext(2) good_shortcut_pair via)
        moreover have "\<forall>e' \<in> set (xs @ [e]). \<forall>w. out_arc graph node e' source w \<longrightarrow>
            (source, source, ?wa + w) \<in> fwd_arcs ?ext \<or> cs_weights st0 ! node \<le> ?wa + w"
          using ext(3) self by (auto simp: arc)
        moreover have "\<forall>e' \<in> set (xs @ [e]). \<forall>t w. out_arc graph node e' t w \<longrightarrow> t \<noteq> source \<longrightarrow>
            qh_view S (cs_heap ?st) t \<noteq> None \<and> ?wa + w \<le> mw"
          using P(4) self by (auto simp: arc)
        ultimately show ?thesis
          using P(1-3) src unfolding seed_post_def new prod.case by (intro conjI exI [of _ ?ext]) simp_all
      next
        case False
        then have new: "?new = (st, mw, nt)"
          using self src by (auto simp: cn_seed_edge_def acc Let_def)
        have "\<forall>e' \<in> set (xs @ [e]). \<forall>w. out_arc graph node e' source w \<longrightarrow>
            (source, source, ?wa + w) \<in> fwd_arcs ext \<or> cs_weights st0 ! node \<le> ?wa + w"
          using ext(3) False P(3) by (auto simp: arc)
        moreover have "\<forall>e' \<in> set (xs @ [e]). \<forall>t w. out_arc graph node e' t w \<longrightarrow> t \<noteq> source \<longrightarrow>
            qh_view S (cs_heap st) t \<noteq> None \<and> ?wa + w \<le> mw"
          using P(4) self by (auto simp: arc)
        ultimately show ?thesis
          using P(1-3) ext(1,2) unfolding seed_post_def new prod.case by (intro conjI exI [of _ ext]) simp_all
      qed
    next
      case other: False
      have ext': "\<forall>e' \<in> set (xs @ [e]). \<forall>w. out_arc graph node e' source w \<longrightarrow>
          (source, source, ?wa + w) \<in> fwd_arcs ext \<or> cs_weights st0 ! node \<le> ?wa + w"
        using ext(3) other by (auto simp: arc)
      have mw: "max mw ?pw < INVALID_EDGE_WEIGHT" using P(2) pw by simp
      show ?thesis
      proof (cases "qh_was_inserted S (cs_heap st) ?t")
        case True
        then have new: "?new = (st, max mw ?pw, nt)"
          using other \<open>ce_forward ?d \<and> ?t \<noteq> node\<close> by (auto simp: cn_seed_edge_def acc Let_def)
        have "\<forall>e' \<in> set (xs @ [e]). \<forall>t w. out_arc graph node e' t w \<longrightarrow> t \<noteq> source \<longrightarrow>
            qh_view S (cs_heap st) t \<noteq> None \<and> ?wa + w \<le> max mw ?pw"
          using P(4) True by (fastforce simp: arc was_inserted_view le_max_iff_disj)
        with P(1-3) mw ext(1,2) ext' show ?thesis
          unfolding seed_post_def new prod.case by (intro conjI exI [of _ ext])
      next
        case fresh: False
        let ?q = "qh_insert H S (cs_heap st) ?t INVALID_EDGE_WEIGHT \<lparr>ch_hop = 0, ch_target = True\<rparr>"
        let ?st = "st\<lparr>cs_heap := ?q\<rparr>"
        have new: "?new = (?st, max mw ?pw, nt + 1)"
          using fresh other \<open>ce_forward ?d \<and> ?t \<noteq> node\<close> by (auto simp: cn_seed_edge_def acc Let_def)
        have V: "?t \<in> V"
          using G e by (auto simp: contract_graph_def search_graph_def dg_adj_edges dg_target_def)
        have q: "inv (cs_heap st)" using P(1) by (simp add: seeded_def)
        have none: "qh_view S (cs_heap st) ?t = None"
          using fresh was_inserted_view by blast
        note ins = insert_inv [OF q V none, of INVALID_EDGE_WEIGHT "\<lparr>ch_hop = 0, ch_target = True\<rparr>"]
          insert_view [OF q V none, of INVALID_EDGE_WEIGHT "\<lparr>ch_hop = 0, ch_target = True\<rparr>"]
        have "seeded source ?q" using P(1) ins other by (auto simp: seeded_def)
        moreover have "\<forall>e' \<in> set (xs @ [e]). \<forall>t w. out_arc graph node e' t w \<longrightarrow> t \<noteq> source \<longrightarrow>
            qh_view S ?q t \<noteq> None \<and> ?wa + w \<le> max mw ?pw"
        proof (intro ballI allI impI)
          fix e' t w assume a: "e' \<in> set (xs @ [e])" "out_arc graph node e' t w" "t \<noteq> source"
          show "qh_view S ?q t \<noteq> None \<and> ?wa + w \<le> max mw ?pw"
          proof (cases "e' \<in> set xs")
            case True
            with P(4) a(2,3) have "qh_view S (cs_heap st) t \<noteq> None" "?wa + w \<le> mw" by blast+
            then show ?thesis unfolding ins(2) by (auto simp: le_max_iff_disj)
          next
            case False
            with a have "t = ?t" "w = ce_weight ?d" by (auto simp: arc)
            then show ?thesis unfolding ins(2) by simp
          qed
        qed
        ultimately show ?thesis
          using P(3) mw ext(1,2) ext' unfolding seed_post_def new prod.case
          by (intro conjI exI [of _ ext]) simp_all
      qed
    qed
  qed
qed

definition emit_post :: "ContractorGraph \<Rightarrow> NodeID \<Rightarrow> NodeID \<Rightarrow> EdgeWeight \<Rightarrow> ('h, 's) ContractState \<Rightarrow>
    EdgeID list \<Rightarrow> ('h, 's) ContractState \<Rightarrow> bool" where
  "emit_post graph node source wa st0 xs st \<longleftrightarrow>
     cs_heap st = cs_heap st0 \<and> cs_weights st = cs_weights st0 \<and>
     (\<exists>ext. cs_edges st = cs_edges st0 @ ext \<and> good_shortcuts graph node ext \<and>
        (\<forall>e \<in> set xs. \<forall>t w. out_arc graph node e t w \<longrightarrow>
           (source, t, wa + w) \<in> fwd_arcs ext \<or> qh_get_key S (cs_heap st0) t \<le> wa + w))"

lemma emit_step:
  assumes i: "i \<in> set (dg_edge_range graph node)" "ce_backward (dg_data graph i)"
      "dg_target graph i = source" "source \<noteq> node"
    and e: "e \<in> set (dg_edge_range graph node)"
    and post: "emit_post graph node source (ce_weight (dg_data graph i)) st0 xs st"
  shows "emit_post graph node source (ce_weight (dg_data graph i)) st0 (xs @ [e])
    (cn_emit_edge False S graph node source (dg_data graph i) st e)"
proof -
  let ?wa = "ce_weight (dg_data graph i)" and ?d = "dg_data graph e" and ?t = "dg_target graph e"
  let ?new = "cn_emit_edge False S graph node source (dg_data graph i) st e"
  obtain ext where P: "cs_heap st = cs_heap st0" "cs_weights st = cs_weights st0"
    and ext: "cs_edges st = cs_edges st0 @ ext" "good_shortcuts graph node ext"
    "\<forall>e \<in> set xs. \<forall>t w. out_arc graph node e t w \<longrightarrow>
       (source, t, ?wa + w) \<in> fwd_arcs ext \<or> qh_get_key S (cs_heap st0) t \<le> ?wa + w"
    using post by (auto simp: emit_post_def)
  show ?thesis
  proof (cases "ce_forward ?d \<and> ?t \<noteq> node \<and> ?wa + ce_weight ?d < qh_get_key S (cs_heap st0) ?t")
    case False
    then have "?new = st" by (auto simp: cn_emit_edge_def Let_def P)
    moreover have "qh_get_key S (cs_heap st0) t \<le> ?wa + w" if "out_arc graph node e t w" for t w
      using False that by (auto simp: out_arc_def)
    ultimately show ?thesis using P ext unfolding emit_post_def by (intro conjI exI [of _ ext]) auto
  next
    case True
    let ?ext = "ext @ shortcut_pair node source ?t (dg_data graph i) ?d"
    have arc: "out_arc graph node e t w \<longleftrightarrow> t = ?t \<and> w = ce_weight ?d" for t w
      using True by (auto simp: out_arc_def)
    have "(source, ?t, ?wa + ce_weight ?d) \<in> via graph node"
      using via_edges [OF i(1) e i(2)] i(3,4) arc by blast
    then have "good_shortcuts graph node ?ext"
      by (intro good_shortcuts_append(1) ext(2) good_shortcut_pair)
    moreover have "?new = st\<lparr>cs_edges := cs_edges st0 @ ?ext\<rparr>"
      using True by (simp add: cn_emit_edge_def Let_def P ext(1))
    ultimately show ?thesis
      using P ext(3) unfolding emit_post_def by (intro conjI exI [of _ ?ext]) (auto simp: arc)
  qed
qed

definition in_post :: "ContractorGraph \<Rightarrow> NodeID \<Rightarrow> ('h, 's) ContractState \<Rightarrow> EdgeID list \<Rightarrow>
    ('h, 's) ContractState \<Rightarrow> bool" where
  "in_post graph node st0 xs st \<longleftrightarrow>
     hok (heap (cs_heap st)) \<and> ixok (node_index (cs_heap st)) \<and>
     cs_weights st ! node = cs_weights st0 ! node \<and>
     (\<exists>ext. cs_edges st = cs_edges st0 @ ext \<and> good_shortcuts graph node ext \<and>
        (\<forall>i \<in> set xs. ce_backward (dg_data graph i) \<longrightarrow> dg_target graph i \<noteq> node \<longrightarrow>
          (\<forall>e \<in> set (dg_edge_range graph node). \<forall>t w. out_arc graph node e t w \<longrightarrow>
             (dg_target graph i, t, ce_weight (dg_data graph i) + w) \<in> fwd_arcs ext \<or>
             (if dg_target graph i = t then cs_weights st0 ! node \<le> ce_weight (dg_data graph i) + w
              else \<exists>W \<le> ce_weight (dg_data graph i) + w.
                fwd_path graph node (dg_target graph i) t W))))"

lemma in_step:
  assumes G: "contract_graph graph V node" and i: "i \<in> set (dg_edge_range graph node)"
    and post: "in_post graph node st0 xs st"
  shows "in_post graph node st0 (xs @ [i]) (cn_in_edge False H S graph node st i)"
proof -
  let ?d = "dg_data graph i" and ?s = "dg_target graph i" and ?wa = "ce_weight (dg_data graph i)"
  let ?new = "cn_in_edge False H S graph node st i"
  obtain ext where P: "hok (heap (cs_heap st))" "ixok (node_index (cs_heap st))"
    "cs_weights st ! node = cs_weights st0 ! node"
    and ext: "cs_edges st = cs_edges st0 @ ext" "good_shortcuts graph node ext"
    "\<forall>i \<in> set xs. ce_backward (dg_data graph i) \<longrightarrow> dg_target graph i \<noteq> node \<longrightarrow>
          (\<forall>e \<in> set (dg_edge_range graph node). \<forall>t w. out_arc graph node e t w \<longrightarrow>
             (dg_target graph i, t, ce_weight (dg_data graph i) + w) \<in> fwd_arcs ext \<or>
             (if dg_target graph i = t then cs_weights st0 ! node \<le> ce_weight (dg_data graph i) + w
              else \<exists>W \<le> ce_weight (dg_data graph i) + w.
                fwd_path graph node (dg_target graph i) t W))"
    using post by (auto simp: in_post_def)
  show ?thesis
  proof (cases "ce_backward ?d \<and> ?s \<noteq> node")
    case False
    then have "?new = st" by (auto simp: cn_in_edge_def Let_def)
    with P ext False show ?thesis unfolding in_post_def by (intro conjI exI [of _ ext]) auto
  next
    case True
    then have ib: "ce_backward ?d" and src: "?s \<noteq> node" by auto
    have sG: "search_graph graph V" using G by (simp add: contract_graph_def)
    have sV: "?s \<in> V"
      using G i by (auto simp: contract_graph_def search_graph_def dg_adj_edges dg_target_def)
    define q1 where "q1 = qh_insert H S (qh_clear H S (cs_heap st)) ?s 0 ContractorHeapData_default"
    note c = clear_laws [OF P(1,2)]
    have q1: "inv q1" "qh_view S q1 = [?s \<mapsto> (0, ContractorHeapData_default, False)]"
      using insert_inv [OF c(1) sV] insert_view [OF c(1) sV] c(2) by (simp_all add: q1_def)
    let ?seed = "foldl (cn_seed_edge False H S graph node ?s ?d) (st\<lparr>cs_heap := q1\<rparr>, 0, 0)
        (dg_edge_range graph node)"
    obtain st2 mw nt where seed: "?seed = (st2, mw, nt)" by (cases ?seed)
    have "seed_post graph node ?s ?wa st [] (st\<lparr>cs_heap := q1\<rparr>, 0, 0)"
      using q1 by (auto simp: seed_post_def seeded_def good_shortcuts_append(2) INVALID_EDGE_WEIGHT_def)
    from foldl_invariant [where P = "seed_post graph node ?s ?wa st"
        and A = "set (dg_edge_range graph node)" and xs = "dg_edge_range graph node", OF this]
    have "seed_post graph node ?s ?wa st (dg_edge_range graph node) ?seed"
      using seed_step [OF G src i ib refl] by simp
    then obtain ext1 where s: "seeded ?s (cs_heap st2)" "mw < INVALID_EDGE_WEIGHT"
      "cs_weights st2 ! node = cs_weights st ! node"
      and ext1: "cs_edges st2 = cs_edges st @ ext1" "good_shortcuts graph node ext1"
      "\<forall>e \<in> set (dg_edge_range graph node). \<forall>w. out_arc graph node e ?s w \<longrightarrow>
           (?s, ?s, ?wa + w) \<in> fwd_arcs ext1 \<or> cs_weights st ! node \<le> ?wa + w"
      and tgt: "\<forall>e \<in> set (dg_edge_range graph node). \<forall>t w. out_arc graph node e t w \<longrightarrow> t \<noteq> ?s \<longrightarrow>
        qh_view S (cs_heap st2) t \<noteq> None \<and> ?wa + w \<le> mw"
      unfolding seed seed_post_def by auto
    define q2 where "q2 = search H S (cs_heap st2) graph nt 2000 mw node"
    obtain ds where ds: "inv (cs_heap st2)" "qh_view S (cs_heap st2) ?s = Some (0, ds, False)"
      "\<forall>n w d r. n \<noteq> ?s \<longrightarrow> qh_view S (cs_heap st2) n = Some (w, d, r) \<longrightarrow> w = INVALID_EDGE_WEIGHT \<and> \<not> r"
      using s(1) unfolding seeded_def by blast
    have sp: "search_post graph node ?s (cs_heap st2) q2"
      unfolding q2_def by (rule search_laws [OF ds sG s(2)])
    let ?emit = "foldl (cn_emit_edge False S graph node ?s ?d) (st2\<lparr>cs_heap := q2\<rparr>) (dg_edge_range graph node)"
    have "emit_post graph node ?s ?wa (st2\<lparr>cs_heap := q2\<rparr>) [] (st2\<lparr>cs_heap := q2\<rparr>)"
      by (auto simp: emit_post_def good_shortcuts_append(2))
    from foldl_invariant [where P = "emit_post graph node ?s ?wa (st2\<lparr>cs_heap := q2\<rparr>)"
        and A = "set (dg_edge_range graph node)" and xs = "dg_edge_range graph node", OF this]
    have "emit_post graph node ?s ?wa (st2\<lparr>cs_heap := q2\<rparr>) (dg_edge_range graph node) ?emit"
      using emit_step [OF i ib refl src] by simp
    then obtain ext2 where e: "cs_heap ?emit = q2" "cs_weights ?emit = cs_weights st2"
      and ext2: "cs_edges ?emit = cs_edges st2 @ ext2" "good_shortcuts graph node ext2"
      "\<forall>e \<in> set (dg_edge_range graph node). \<forall>t w. out_arc graph node e t w \<longrightarrow>
           (?s, t, ?wa + w) \<in> fwd_arcs ext2 \<or> qh_get_key S q2 t \<le> ?wa + w"
      by (auto simp: emit_post_def)
    have new: "?new = ?emit"
      using True seed by (simp add: cn_in_edge_def Let_def q1_def q2_def)
    have cover: "(?s, t, ?wa + w) \<in> fwd_arcs (ext1 @ ext2) \<or>
        (if ?s = t then cs_weights st0 ! node \<le> ?wa + w
         else \<exists>W \<le> ?wa + w. fwd_path graph node ?s t W)"
      if ee: "e \<in> set (dg_edge_range graph node)" and arc: "out_arc graph node e t w" for e t w
    proof (cases "?s = t")
      case True
      then have "out_arc graph node e ?s w" using arc by simp
      with ext1(3) ee have "(?s, ?s, ?wa + w) \<in> fwd_arcs ext1 \<or> cs_weights st ! node \<le> ?wa + w" by blast
      with True show ?thesis using P(3) by auto
    next
      case ne: False
      have "qh_view S (cs_heap st2) t \<noteq> None" using tgt ee arc ne by auto
      then obtain v where "qh_view S (cs_heap st2) t = Some v" by blast
      then obtain w0 d0 r0 where "qh_view S (cs_heap st2) t = Some (w0, d0, r0)" by (cases v) auto
      with sp obtain w' d' r' where v: "qh_view S q2 t = Some (w', d', r')"
        unfolding search_post_def by blast
      have key: "w' = INVALID_EDGE_WEIGHT \<or> fwd_path graph node ?s t w'"
        using sp v by (auto simp: search_post_def keys_sound_def)
      have "?wa + w < INVALID_EDGE_WEIGHT"
        using via_edges [OF i ee ib src arc] G by (auto simp: contract_graph_def)
      moreover have "(?s, t, ?wa + w) \<in> fwd_arcs ext2 \<or> w' \<le> ?wa + w"
        using ext2(3) ee arc get_view(1) [OF v] by auto
      ultimately show ?thesis using key ne by auto
    qed
    let ?ext = "ext @ ext1 @ ext2"
    have "good_shortcuts graph node ?ext"
      by (intro good_shortcuts_append(1) ext(2) ext1(2) ext2(2))
    moreover have "\<forall>i' \<in> set (xs @ [i]). ce_backward (dg_data graph i') \<longrightarrow> dg_target graph i' \<noteq> node \<longrightarrow>
          (\<forall>e \<in> set (dg_edge_range graph node). \<forall>t w. out_arc graph node e t w \<longrightarrow>
             (dg_target graph i', t, ce_weight (dg_data graph i') + w) \<in> fwd_arcs ?ext \<or>
             (if dg_target graph i' = t then cs_weights st0 ! node \<le> ce_weight (dg_data graph i') + w
              else \<exists>W \<le> ce_weight (dg_data graph i') + w.
                fwd_path graph node (dg_target graph i') t W))"
    proof (intro ballI impI allI)
      fix i' e t w
      assume i': "i' \<in> set (xs @ [i])" "ce_backward (dg_data graph i')" "dg_target graph i' \<noteq> node"
        and e': "e \<in> set (dg_edge_range graph node)" "out_arc graph node e t w"
      show "(dg_target graph i', t, ce_weight (dg_data graph i') + w) \<in> fwd_arcs ?ext \<or>
             (if dg_target graph i' = t then cs_weights st0 ! node \<le> ce_weight (dg_data graph i') + w
              else \<exists>W \<le> ce_weight (dg_data graph i') + w.
                fwd_path graph node (dg_target graph i') t W)"
      proof (cases "i' \<in> set xs")
        case True
        with ext(3) i'(2,3) e' show ?thesis by (simp only: arcs_append) blast
      next
        case False
        with i'(1) have "i' = i" by simp
        with cover [OF e'] show ?thesis by (simp only: arcs_append) blast
      qed
    qed
    moreover have "cs_edges ?new = cs_edges st0 @ ?ext" by (simp add: new ext2(1) ext1(1) ext(1))
    moreover have "cs_weights ?new ! node = cs_weights st0 ! node" by (simp add: new e(2) s(3) P(3))
    moreover have "inv q2" using sp by (simp add: search_post_def)
    then have "hok (heap (cs_heap ?new))" "ixok (node_index (cs_heap ?new))"
      using inv_parts by (simp_all add: new e(1))
    ultimately show ?thesis unfolding in_post_def by blast
  qed
qed

lemma ContractNode_laws:
  assumes G: "contract_graph graph V node"
    and st: "hok (heap (cs_heap st))" "ixok (node_index (cs_heap st))"
    and st': "st' = ContractNode False H S graph node st"
  shows "\<exists>new. cs_edges st' = cs_edges st @ new \<and> good_shortcuts graph node new \<and>
      distinct (map edge_key new) \<and>
      (\<forall>(u, t, w) \<in> via graph node. (u, t, w) \<in> fwd_arcs new \<or>
         (if u = t then cs_weights st ! node \<le> w else \<exists>W \<le> w. fwd_path graph node u t W)) \<and>
      hok (heap (cs_heap st')) \<and> ixok (node_index (cs_heap st'))"
proof -
  let ?loop = "foldl (cn_in_edge False H S graph node) st (dg_edge_range graph node)"
  have "in_post graph node st [] st" using st by (auto simp: in_post_def good_shortcuts_append(2))
  from foldl_invariant [where P = "in_post graph node st"
      and A = "set (dg_edge_range graph node)" and xs = "dg_edge_range graph node", OF this]
  have "in_post graph node st (dg_edge_range graph node) ?loop"
    using in_step [OF G] by simp
  then obtain ext where P: "hok (heap (cs_heap ?loop))" "ixok (node_index (cs_heap ?loop))"
    and ext: "cs_edges ?loop = cs_edges st @ ext" "good_shortcuts graph node ext"
    "\<forall>i \<in> set (dg_edge_range graph node). ce_backward (dg_data graph i) \<longrightarrow> dg_target graph i \<noteq> node \<longrightarrow>
          (\<forall>e \<in> set (dg_edge_range graph node). \<forall>t w. out_arc graph node e t w \<longrightarrow>
             (dg_target graph i, t, ce_weight (dg_data graph i) + w) \<in> fwd_arcs ext \<or>
             (if dg_target graph i = t then cs_weights st ! node \<le> ce_weight (dg_data graph i) + w
              else \<exists>W \<le> ce_weight (dg_data graph i) + w.
                fwd_path graph node (dg_target graph i) t W))"
    by (auto simp: in_post_def)
  let ?k = "length (cs_edges st)"
  let ?new = "drop ?k (cn_merge ?k (cs_edges ?loop))"
  have le: "?k \<le> length (cs_edges ?loop)" by (simp add: ext(1))
  note m = cn_merge_spec [OF le]
  have new: "cs_edges st' = cs_edges st @ ?new"
    using m(1) append_take_drop_id [of ?k "cn_merge ?k (cs_edges ?loop)"]
    by (simp add: st' ContractNode_def ext(1))
  have arcs: "fwd_arcs ?new = fwd_arcs ext" "bwd_arcs ?new = bwd_arcs ext"
    using m(2,3) by (simp_all add: ext(1))
  have good: "good_shortcuts graph node ?new"
    using ext(2) m(5) arcs by (fastforce simp: good_shortcuts_def ext(1))
  have cover: "(u, t, w) \<in> fwd_arcs ?new \<or>
      (if u = t then cs_weights st ! node \<le> w else \<exists>W \<le> w. fwd_path graph node u t W)"
    if v: "(u, t, w) \<in> via graph node" for u t w
  proof -
    obtain i e where ie: "i \<in> set (dg_edge_range graph node)" "e \<in> set (dg_edge_range graph node)"
      "ce_backward (dg_data graph i)" "ce_forward (dg_data graph e)" "dg_target graph i = u"
      "dg_target graph e = t" "u \<noteq> node" "t \<noteq> node" "w = ce_weight (dg_data graph i) + ce_weight (dg_data graph e)"
      using v by (auto simp: via_def dg_adj_edges dg_data_def dg_target_def)
    then have "out_arc graph node e t (ce_weight (dg_data graph e))" by (simp add: out_arc_def)
    with ext(3) ie show ?thesis unfolding arcs by fastforce
  qed
  have "cs_heap st' = cs_heap ?loop" by (simp add: st' ContractNode_def Let_def)
  then have "hok (heap (cs_heap st'))" "ixok (node_index (cs_heap st'))" using P by simp_all
  moreover have "\<forall>(u, t, w) \<in> via graph node. (u, t, w) \<in> fwd_arcs ?new \<or>
         (if u = t then cs_weights st ! node \<le> w else \<exists>W \<le> w. fwd_path graph node u t W)"
    using cover by blast
  ultimately show ?thesis using new good m(4) by blast
qed

end



end
