(* ===== verification/GraphContractor.thy ===== *)
theory GraphContractor
  imports NodeContraction
begin

text \<open>
  The contraction of a whole graph, the rest of \<^verbatim>\<open>src/contractor/graph_contractor.cpp\<close>: node
  data, tie breaking, priorities, independent nodes, renumbering and \<^verbatim>\<open>contractGraph\<close>.

  The parallel loops run over their range in order with the data of one thread, one of the
  executions \<^verbatim>\<open>tbb::parallel_for\<close> allows.  Priorities, which the code keeps as floats, are
  reals.  The scratch vector \<^verbatim>\<open>neighbours\<close> is cleared by every user before its first read
  and is a local value here.
\<close>

section \<open>Node data\<close>

record ContractorNodeData =
  is_core :: "bool list"
  contractable :: "bool list"
  priorities :: "real list"
  weights :: "EdgeWeight list"
  depths :: "int list"

definition ContractorNodeData_init ::
  "nat \<Rightarrow> bool list \<Rightarrow> bool list \<Rightarrow> EdgeWeight list \<Rightarrow> ContractorNodeData" where
  "ContractorNodeData_init number_of_nodes uncontracted_nodes contractable_nodes node_weights =
     \<lparr>is_core = (if uncontracted_nodes = [] then replicate number_of_nodes True else uncontracted_nodes),
      contractable = (if contractable_nodes = [] then replicate number_of_nodes True
                      else contractable_nodes),
      priorities = replicate number_of_nodes 0, weights = node_weights,
      depths = replicate number_of_nodes 0\<rparr>"

definition nd_renumber :: "nat list \<Rightarrow> ContractorNodeData \<Rightarrow> ContractorNodeData option" where
  "nd_renumber old_to_new nd =
     (case (inplacePermutation old_to_new (priorities nd), inplacePermutation old_to_new (weights nd),
            inplacePermutation old_to_new (is_core nd), inplacePermutation old_to_new (contractable nd),
            inplacePermutation old_to_new (depths nd)) of
        (Some p, Some w, Some c, Some k, Some d) \<Rightarrow>
          Some \<lparr>is_core = c, contractable = k, priorities = p, weights = w, depths = d\<rparr>
      | _ \<Rightarrow> None)"

text \<open>\<^verbatim>\<open>id\<close> is a bit field of 31 bits.\<close>

record RemainingNodeData =
  rn_id :: NodeID
  is_independent :: bool

definition mk_RemainingNodeData :: "NodeID \<Rightarrow> bool \<Rightarrow> RemainingNodeData" where
  "mk_RemainingNodeData node flag = \<lparr>rn_id = node mod 2 ^ 31, is_independent = flag\<rparr>"

section \<open>Priorities and tie breaking\<close>

definition Bias :: "(NodeID \<Rightarrow> nat) \<Rightarrow> NodeID \<Rightarrow> NodeID \<Rightarrow> bool" where
  "Bias fast_hash a b =
     (let hasha = fast_hash a; hashb = fast_hash b
      in if hasha \<noteq> hashb then hasha < hashb else a < b)"

definition EvaluateNodePriority :: "ContractionStats \<Rightarrow> int \<Rightarrow> real" where
  "EvaluateNodePriority stats node_depth =
     (if 0 = edges_deleted_count stats * original_edges_deleted_count stats
      then real_of_int node_depth
      else 2 * (real_of_int (edges_added_count stats) / real_of_int (edges_deleted_count stats)) +
           4 * (real_of_int (original_edges_added_count stats) /
                real_of_int (original_edges_deleted_count stats)) +
           real_of_int node_depth)"

text \<open>\<^verbatim>\<open>SimulateNodeContraction\<close> returns the statistics; the heap and the node weights change.\<close>

definition SimulateNodeContraction ::
  "'h heap_ops \<Rightarrow> 's index_ops \<Rightarrow> ContractorGraph \<Rightarrow> NodeID \<Rightarrow> ('h, 's) ContractState \<Rightarrow>
   ContractionStats \<times> ('h, 's) ContractState" where
  "SimulateNodeContraction H S graph node st =
     (let st' = ContractNode True H S graph node (st\<lparr>cs_stats := ContractionStats_init\<rparr>)
      in (cs_stats st', st'))"

text \<open>\<^verbatim>\<open>std::sort\<close> and \<^verbatim>\<open>std::unique\<close> on the targets of a node other than itself.\<close>

definition sorted_neighbours :: "ContractorGraph \<Rightarrow> NodeID \<Rightarrow> NodeID list" where
  "sorted_neighbours graph node =
     remdups_adj (sort (filter (\<lambda>u. u \<noteq> node) (map (dg_target graph) (dg_edge_range graph node))))"

definition DeleteIncomingEdges :: "ContractorGraph \<Rightarrow> NodeID \<Rightarrow> ContractorGraph" where
  "DeleteIncomingEdges graph node =
     foldl (\<lambda>g u. fst (dg_delete_edges_to g u node)) graph (sorted_neighbours graph node)"

definition raise_depths :: "ContractorGraph \<Rightarrow> NodeID \<Rightarrow> int list \<Rightarrow> int list" where
  "raise_depths graph node ds =
     foldl (\<lambda>ds e. let u = dg_target graph e
                   in if u = node then ds else ds[u := max (ds ! node + 1) (ds ! u)])
       ds (dg_edge_range graph node)"

definition UpdateNodeNeighbours ::
  "'h heap_ops \<Rightarrow> 's index_ops \<Rightarrow> ContractorGraph \<Rightarrow> NodeID \<Rightarrow>
   ContractorNodeData \<times> ('h, 's) ContractState \<Rightarrow> ContractorNodeData \<times> ('h, 's) ContractState" where
  "UpdateNodeNeighbours H S graph node acc =
     (let (nd, st) = acc;
          nd1 = nd\<lparr>depths := raise_depths graph node (depths nd)\<rparr>
      in foldl (\<lambda>(nd, st) u.
             if contractable nd ! u
             then (let (stats, st') = SimulateNodeContraction H S graph u st
                   in (nd\<lparr>priorities := (priorities nd)
                         [u := EvaluateNodePriority stats (depths nd ! u)]\<rparr>, st'))
             else (nd, st))
           (nd1, st) (sorted_neighbours graph node))"

text \<open>\<^verbatim>\<open>std::numeric_limits<float>::epsilon()\<close> is \<open>2 ^ -23\<close>.\<close>

definition float_epsilon :: real where
  "float_epsilon = 1 / 2 ^ 23"

definition has_precedence ::
  "(NodeID \<Rightarrow> nat) \<Rightarrow> real list \<Rightarrow> nat list \<Rightarrow> NodeID \<Rightarrow> NodeID \<Rightarrow> bool" where
  "has_precedence hash priority new_to_old node t \<longleftrightarrow>
     priority ! node > priority ! t \<or>
     \<bar>priority ! node - priority ! t\<bar> < float_epsilon \<and> Bias hash (new_to_old ! node) (new_to_old ! t)"

definition IsNodeIndependent ::
  "(NodeID \<Rightarrow> nat) \<Rightarrow> real list \<Rightarrow> nat list \<Rightarrow> ContractorGraph \<Rightarrow> NodeID \<Rightarrow> bool" where
  "IsNodeIndependent hash priority new_to_old graph node =
     (if list_ex (\<lambda>e. let t = dg_target graph e
                      in node \<noteq> t \<and> has_precedence hash priority new_to_old node t)
           (dg_edge_range graph node)
      then False
      else if list_ex (\<lambda>u. list_ex (\<lambda>e. let t = dg_target graph e
                      in node \<noteq> t \<and> has_precedence hash priority new_to_old node t)
           (dg_edge_range graph u)) (sorted_neighbours graph node)
      then False else True)"

section \<open>Renumbering\<close>

definition renumber_shortcut :: "nat list \<Rightarrow> ContractorGraph \<Rightarrow> EdgeID \<Rightarrow> ContractorGraph" where
  "renumber_shortcut old_to_new g edge =
     (let data = dg_data g edge
      in if ce_shortcut data then dg_set_data g edge (data\<lparr>ce_id := old_to_new ! ce_id data\<rparr>) else g)"

definition renumber_shortcuts :: "nat list \<Rightarrow> ContractorGraph \<Rightarrow> ContractorGraph" where
  "renumber_shortcuts old_to_new graph =
     foldl (\<lambda>g node. foldl (renumber_shortcut old_to_new) g (dg_edge_range g node)) graph
       [0..<dg_number_of_nodes graph]"

definition RenumberGraph ::
  "nat list \<Rightarrow> ContractorGraph \<Rightarrow> (graph_error + ContractorGraph) option" where
  "RenumberGraph old_to_new graph =
     (case dg_renumber old_to_new graph of
        None \<Rightarrow> None
      | Some (Inl e) \<Rightarrow> Some (Inl e)
      | Some (Inr g) \<Rightarrow> Some (Inr (renumber_shortcuts old_to_new g)))"

fun renumber_remaining ::
  "nat list \<Rightarrow> RemainingNodeData list \<Rightarrow> nat list \<Rightarrow> nat list \<Rightarrow> nat \<Rightarrow>
   RemainingNodeData list \<times> nat list \<times> nat list \<times> nat" where
  "renumber_remaining to_orig [] current_to_new new_to_old new_node_id =
     ([], current_to_new, new_to_old, new_node_id)"
| "renumber_remaining to_orig (r # rs) current_to_new new_to_old new_node_id =
     (let (rs', c, n, i) =
            renumber_remaining to_orig rs (current_to_new[rn_id r := new_node_id])
              (new_to_old[new_node_id := to_orig ! rn_id r]) (Suc new_node_id)
      in (r\<lparr>rn_id := new_node_id mod 2 ^ 31\<rparr> # rs', c, n, i))"

fun renumber_contracted ::
  "nat list \<Rightarrow> nat list \<Rightarrow> nat list \<Rightarrow> nat list \<Rightarrow> nat \<Rightarrow> nat list \<times> nat list \<times> nat" where
  "renumber_contracted to_orig [] current_to_new new_to_old new_node_id =
     (current_to_new, new_to_old, new_node_id)"
| "renumber_contracted to_orig (k # ks) current_to_new new_to_old new_node_id =
     (if current_to_new ! k = SPECIAL_NODEID
      then renumber_contracted to_orig ks (current_to_new[k := new_node_id])
             (new_to_old[new_node_id := to_orig ! k]) (Suc new_node_id)
      else renumber_contracted to_orig ks current_to_new new_to_old new_node_id)"

definition renumber_ids ::
  "nat \<Rightarrow> RemainingNodeData list \<Rightarrow> nat list \<Rightarrow> RemainingNodeData list \<times> nat list \<times> nat list" where
  "renumber_ids number_of_nodes remaining new_to_old =
     (let (rs, c, n, i) = renumber_remaining new_to_old remaining
            (replicate number_of_nodes SPECIAL_NODEID) new_to_old 0;
          (c', n', i') = renumber_contracted new_to_old [0..<number_of_nodes] c n i
      in (rs, c', n'))"

definition RenumberData ::
  "RemainingNodeData list \<Rightarrow> nat list \<Rightarrow> ContractorNodeData \<Rightarrow> ContractorGraph \<Rightarrow>
   (graph_error + RemainingNodeData list \<times> nat list \<times> ContractorNodeData \<times> ContractorGraph) option" where
  "RenumberData remaining new_to_old nd graph =
     (let (rs, c, n) = renumber_ids (dg_number_of_nodes graph) remaining new_to_old
      in (case nd_renumber c nd of
            None \<Rightarrow> None
          | Some nd' \<Rightarrow>
             (case RenumberGraph c graph of
                None \<Rightarrow> None
              | Some (Inl e) \<Rightarrow> Some (Inl e)
              | Some (Inr g) \<Rightarrow> Some (Inr (rs, n, nd', g)))))"

section \<open>One round and the whole contraction\<close>

definition insert_new_edge ::
  "ContractorEdgeData DynamicEdge \<Rightarrow> ContractorGraph \<Rightarrow> ContractorEdge \<Rightarrow> ContractorGraph" where
  "insert_new_edge junk graph edge =
     (let current = dg_find_edge graph (ie_source edge) (ie_target edge);
          current_data = dg_data graph current;
          new = fst (dg_insert_edge junk graph (ie_source edge) (ie_target edge) (ie_data edge))
      in if current \<noteq> SPECIAL_EDGEID
         then if ce_shortcut current_data \<and> ce_forward (ie_data edge) = ce_forward current_data \<and>
                 ce_backward (ie_data edge) = ce_backward current_data
              then if ce_weight (ie_data edge) < ce_weight current_data
                   then dg_set_data graph current (ie_data edge) else graph
              else new
         else new)"

text \<open>\<^verbatim>\<open>operator<\<close> orders the inserted edges by source and target; the order of equal ones is
  left to the sorting routine, a stable one here.\<close>

definition sort_edges :: "ContractorEdge list \<Rightarrow> ContractorEdge list" where
  "sort_edges es = sort_key ie_source (sort_key ie_target es)"

record ('h, 's) RoundState =
  rs_graph :: ContractorGraph
  rs_nodes :: ContractorNodeData
  rs_heap :: "('h, 's) ContractorHeap"
  rs_remaining :: "RemainingNodeData list"
  rs_new_to_old :: "nat list"
  rs_next_renumbering :: nat

definition contract_state :: "('h, 's) ContractorHeap \<Rightarrow> EdgeWeight list \<Rightarrow> ('h, 's) ContractState" where
  "contract_state h ws =
     \<lparr>cs_heap = h, cs_edges = [], cs_weights = ws, cs_stats = ContractionStats_init\<rparr>"

definition contract_round ::
  "'h heap_ops \<Rightarrow> 's index_ops \<Rightarrow> (NodeID \<Rightarrow> nat) \<Rightarrow> ContractorEdgeData DynamicEdge \<Rightarrow>
   ('h, 's) RoundState \<Rightarrow> ('h, 's) RoundState" where
  "contract_round H S hash junk rs =
     (let graph = rs_graph rs; nd = rs_nodes rs;
          marked = map (\<lambda>r. r\<lparr>is_independent :=
                     IsNodeIndependent hash (priorities nd) (rs_new_to_old rs) graph (rn_id r)\<rparr>)
                     (rs_remaining rs);
          staying = filter (\<lambda>r. \<not> is_independent r) marked;
          nodes = map rn_id (filter is_independent marked);
          st = foldl (\<lambda>st node. ContractNode False H S graph node st)
                 (contract_state (rs_heap rs) (weights nd)) nodes;
          nd1 = nd\<lparr>weights := cs_weights st,
                   is_core := foldl (\<lambda>core node. core[node := False]) (is_core nd) nodes\<rparr>;
          graph1 = foldl DeleteIncomingEdges graph nodes;
          graph2 = foldl (insert_new_edge junk) graph1 (sort_edges (cs_edges st));
          (nd2, st2) = foldl (\<lambda>acc node. UpdateNodeNeighbours H S graph2 node acc)
                         (nd1, st\<lparr>cs_edges := []\<rparr>) nodes
      in rs\<lparr>rs_graph := graph2, rs_nodes := nd2\<lparr>weights := cs_weights st2\<rparr>,
            rs_heap := cs_heap st2, rs_remaining := staying\<rparr>)"

partial_function (option) contract_loop ::
  "'h heap_ops \<Rightarrow> 's index_ops \<Rightarrow> (NodeID \<Rightarrow> nat) \<Rightarrow> ContractorEdgeData DynamicEdge \<Rightarrow> nat \<Rightarrow>
   ('h, 's) RoundState \<Rightarrow> (graph_error + ('h, 's) RoundState) option" where
  "contract_loop H S hash junk number_of_core_nodes rs =
     (if length (rs_remaining rs) > number_of_core_nodes
      then if length (rs_remaining rs) < rs_next_renumbering rs
           then (case RenumberData (rs_remaining rs) (rs_new_to_old rs) (rs_nodes rs) (rs_graph rs) of
                   None \<Rightarrow> None
                 | Some (Inl e) \<Rightarrow> Some (Inl e)
                 | Some (Inr (rem, n2o, nd, g)) \<Rightarrow>
                     contract_loop H S hash junk number_of_core_nodes
                       (contract_round H S hash junk
                         (rs\<lparr>rs_graph := g, rs_nodes := nd, rs_remaining := rem, rs_new_to_old := n2o,
                             rs_next_renumbering := 0\<rparr>)))
           else contract_loop H S hash junk number_of_core_nodes (contract_round H S hash junk rs)
      else Some (Inr rs))"

text \<open>\<^verbatim>\<open>std::numeric_limits<float>::max()\<close>.\<close>

definition float_max :: real where
  "float_max = (2 - 1 / 2 ^ 23) * 2 ^ 127"

definition initial_priorities ::
  "'h heap_ops \<Rightarrow> 's index_ops \<Rightarrow> ContractorGraph \<Rightarrow> RemainingNodeData list \<Rightarrow>
   ContractorNodeData \<times> ('h, 's) ContractState \<Rightarrow> ContractorNodeData \<times> ('h, 's) ContractState" where
  "initial_priorities H S graph remaining acc =
     foldl (\<lambda>(nd, st) r.
         let (stats, st') = SimulateNodeContraction H S graph (rn_id r) st
         in (nd\<lparr>priorities := (priorities nd)
               [rn_id r := EvaluateNodePriority stats (depths nd ! rn_id r)]\<rparr>, st'))
       acc remaining"

definition contractGraph ::
  "'h heap_ops \<Rightarrow> 's index_ops \<Rightarrow> (NodeID \<Rightarrow> nat) \<Rightarrow> ContractorEdgeData DynamicEdge \<Rightarrow>
   ('h, 's) ContractorHeap \<Rightarrow> ContractorGraph \<Rightarrow> bool list \<Rightarrow> bool list \<Rightarrow> EdgeWeight list \<Rightarrow> real \<Rightarrow>
   (graph_error + bool list \<times> ContractorGraph) option" where
  "contractGraph H S hash junk h graph uncontracted contractable_nodes node_weights core_factor =
     (let n = dg_number_of_nodes graph;
          nd = ContractorNodeData_init n uncontracted contractable_nodes node_weights;
          remaining = map (\<lambda>node. mk_RemainingNodeData node False)
            (filter (\<lambda>node. is_core nd ! node \<and> contractable nd ! node) [0..<n]);
          nd1 = nd\<lparr>priorities := map (\<lambda>node.
                  if is_core nd ! node
                  then if contractable nd ! node then priorities nd ! node else float_max
                  else 0) [0..<n]\<rparr>;
          (nd2, st) = initial_priorities H S graph remaining (nd1, contract_state h (weights nd1));
          number_of_core_nodes = nat \<lfloor>(1 - core_factor) * real n\<rfloor>
      in (case contract_loop H S hash junk number_of_core_nodes
                 \<lparr>rs_graph = graph, rs_nodes = nd2\<lparr>weights := cs_weights st\<rparr>, rs_heap = cs_heap st,
                  rs_remaining = remaining, rs_new_to_old = [0..<n],
                  rs_next_renumbering = nat \<lfloor>real n * (35 / 100)\<rfloor>\<rparr> of
            None \<Rightarrow> None
          | Some (Inl e) \<Rightarrow> Some (Inl e)
          | Some (Inr rs) \<Rightarrow>
             (case (nd_renumber (rs_new_to_old rs) (rs_nodes rs), RenumberGraph (rs_new_to_old rs) (rs_graph rs)) of
                (Some nd', Some (Inr g)) \<Rightarrow> Some (Inr (is_core nd', g))
              | (Some nd', Some (Inl e)) \<Rightarrow> Some (Inl e)
              | _ \<Rightarrow> None)))"

section \<open>Independent nodes\<close>

lemma Bias_total: "a \<noteq> b \<Longrightarrow> Bias h a b \<or> Bias h b a"
  by (auto simp: Bias_def Let_def)

lemma precedence_total:
  assumes "new_to_old ! a \<noteq> new_to_old ! b"
  shows "has_precedence h p new_to_old a b \<or> has_precedence h p new_to_old b a"
  using Bias_total [OF assms, of h] by (auto simp: has_precedence_def float_epsilon_def)

lemma sorted_neighbours_set:
  "u \<in> set (sorted_neighbours g n) \<longleftrightarrow> u \<noteq> n \<and> u \<in> de_target ` set (dg_adj g n)"
  by (auto simp: sorted_neighbours_def dg_adj_edges dg_target_def image_iff)

lemma list_ex_targets:
  "list_ex (\<lambda>e. let t = dg_target g e in P t) (dg_edge_range g n) \<longleftrightarrow>
   (\<exists>t \<in> de_target ` set (dg_adj g n). P t)"
  by (auto simp: list_ex_iff Let_def dg_adj_edges dg_target_def)

lemma independentD:
  assumes "IsNodeIndependent h p n2o g node"
  shows "t \<in> de_target ` set (dg_adj g node) \<Longrightarrow> t \<noteq> node \<Longrightarrow> \<not> has_precedence h p n2o node t"
    and "u \<in> de_target ` set (dg_adj g node) \<Longrightarrow> u \<noteq> node \<Longrightarrow> t \<in> de_target ` set (dg_adj g u) \<Longrightarrow>
      t \<noteq> node \<Longrightarrow> \<not> has_precedence h p n2o node t"
proof -
  have "\<not> (\<exists>t \<in> de_target ` set (dg_adj g node). node \<noteq> t \<and> has_precedence h p n2o node t)"
    "\<not> list_ex (\<lambda>u. \<exists>t \<in> de_target ` set (dg_adj g u). node \<noteq> t \<and> has_precedence h p n2o node t)
       (sorted_neighbours g node)"
    using assms unfolding IsNodeIndependent_def list_ex_targets by (simp_all split: if_splits)
  note raw = this
  show "t \<in> de_target ` set (dg_adj g node) \<Longrightarrow> t \<noteq> node \<Longrightarrow> \<not> has_precedence h p n2o node t"
    using raw(1) by metis
  show "u \<in> de_target ` set (dg_adj g node) \<Longrightarrow> u \<noteq> node \<Longrightarrow> t \<in> de_target ` set (dg_adj g u) \<Longrightarrow>
      t \<noteq> node \<Longrightarrow> \<not> has_precedence h p n2o node t"
    using raw(2) sorted_neighbours_set [of u g node] unfolding list_ex_iff by metis
qed



section \<open>Deleting a contracted node\<close>

lemma delete_fold:
  assumes "dg_inv g" "distinct us" "set us \<subseteq> {..<dg_number_of_nodes g}"
    and "g' = foldl (\<lambda>g u. fst (dg_delete_edges_to g u node)) g us"
  shows "dg_inv g' \<and> dg_number_of_nodes g' = dg_number_of_nodes g \<and>
    (\<forall>n < dg_number_of_nodes g. if n \<in> set us
       then mset (dg_adj g' n) = filter_mset (\<lambda>e. de_target e \<noteq> node) (mset (dg_adj g n))
       else dg_adj g' n = dg_adj g n)"
  using assms
proof (induction us arbitrary: g)
  case (Cons u us)
  obtain g1 d where del: "dg_delete_edges_to g u node = (g1, d)" by fastforce
  have u: "u < dg_number_of_nodes g" using Cons.prems(3) by simp
  note s = dg_delete_edges_to_spec [OF Cons.prems(1) u del]
  have "dg_inv g' \<and> dg_number_of_nodes g' = dg_number_of_nodes g1 \<and>
    (\<forall>n < dg_number_of_nodes g1. if n \<in> set us
       then mset (dg_adj g' n) = filter_mset (\<lambda>e. de_target e \<noteq> node) (mset (dg_adj g1 n))
       else dg_adj g' n = dg_adj g1 n)"
    using Cons.prems s(1,2) del by (intro Cons.IH) auto
  note ih = this [unfolded s(2)]
  show ?case
  proof (intro conjI allI impI)
    fix n assume n: "n < dg_number_of_nodes g"
    show "if n \<in> set (u # us)
       then mset (dg_adj g' n) = filter_mset (\<lambda>e. de_target e \<noteq> node) (mset (dg_adj g n))
       else dg_adj g' n = dg_adj g n"
    proof (cases "n = u")
      case True
      then have "dg_adj g' n = dg_adj g1 n" using ih n Cons.prems(2) by auto
      with True s(3) show ?thesis by simp
    next
      case False
      with s(4) [OF n] ih n show ?thesis by auto
    qed
  qed (use ih in auto)
qed simp

lemma sorted_neighbours_distinct: "distinct (sorted_neighbours g n)"
  unfolding sorted_neighbours_def by (intro sorted_distinct_remdups_adj sorted_sort)

text \<open>
  \<^verbatim>\<open>DeleteIncomingEdges\<close> keeps the graph well-formed and removes from the
  neighbours of the node exactly their edges to it; the node's own edges and those of all
  other nodes stay as they are.
\<close>

theorem DeleteIncomingEdges_correct:
  assumes "dg_inv graph" "node < dg_number_of_nodes graph"
    and "\<forall>e \<in> set (dg_adj graph node). de_target e < dg_number_of_nodes graph"
  shows "dg_inv (DeleteIncomingEdges graph node) \<and>
    (\<forall>n < dg_number_of_nodes graph.
       if n \<noteq> node \<and> n \<in> de_target ` set (dg_adj graph node)
       then mset (dg_adj (DeleteIncomingEdges graph node) n) =
            mset (filter (\<lambda>e. de_target e \<noteq> node) (dg_adj graph n))
       else dg_adj (DeleteIncomingEdges graph node) n = dg_adj graph n)"
proof -
  have "set (sorted_neighbours graph node) \<subseteq> {..<dg_number_of_nodes graph}"
    using assms(3) by (auto simp: sorted_neighbours_set)
  from delete_fold [OF assms(1) sorted_neighbours_distinct this DeleteIncomingEdges_def]
  show ?thesis by (simp add: sorted_neighbours_set)
qed

lemma DeleteIncomingEdges_correct_witness:
  "dg_inv (DeleteIncomingEdges example_graph 1) \<and>
   mset (dg_adj (DeleteIncomingEdges example_graph 1) 0) = {#}"
proof -
  have adj: "dg_adj example_graph 1 = map edge_of_input
      [example_edge 1 0 4 False True, example_edge 1 2 3 True False]"
    "dg_adj example_graph 0 = map edge_of_input [example_edge 0 1 4 True False]"
    by (simp_all add: example_graph_spec example_edge_def)
  have t: "\<forall>e \<in> set (dg_adj example_graph 1). de_target e < dg_number_of_nodes example_graph"
    unfolding adj by (simp add: example_graph_spec example_edge_def edge_of_input_def)
  have n: "1 < dg_number_of_nodes example_graph" by (simp add: example_graph_spec)
  from DeleteIncomingEdges_correct [OF example_graph_spec(1) n t]
  have "dg_inv (DeleteIncomingEdges example_graph 1)"
    "mset (dg_adj (DeleteIncomingEdges example_graph 1) 0) = mset (filter (\<lambda>e. de_target e \<noteq> 1) (dg_adj example_graph 0))"
    using adj by (auto simp: example_graph_spec example_edge_def edge_of_input_def dest: spec [of _ 0])
  then show ?thesis unfolding adj by (simp add: example_edge_def edge_of_input_def)
qed

section \<open>Inserting the shortcuts\<close>

lemma dg_find_edge_found:
  assumes "dg_find_edge g from to \<noteq> SPECIAL_EDGEID"
  shows "dg_find_edge g from to \<in> dg_slots g from" "de_target (dg_edge_list g ! dg_find_edge g from to) = to"
proof -
  obtain i where "find (\<lambda>i. to = de_target (dg_edge_list g ! i)) [dg_begin g from..<dg_end g from] = Some i"
    using assms by (auto simp: dg_find_edge_def split: option.splits)
  moreover from this have "dg_find_edge g from to = i" by (simp add: dg_find_edge_def)
  ultimately show "dg_find_edge g from to \<in> dg_slots g from" "de_target (dg_edge_list g ! dg_find_edge g from to) = to"
    by (auto simp: dg_slots_def find_Some_iff)
qed

lemma dg_set_data_spec:
  assumes inv: "dg_inv g" and s: "source < dg_number_of_nodes g" and e: "e \<in> dg_slots g source"
  shows "dg_inv (dg_set_data g e d)" and "dg_number_of_nodes (dg_set_data g e d) = dg_number_of_nodes g"
    and "dg_adj (dg_set_data g e d) source =
      (dg_adj g source)[e - dg_begin g source := (dg_edge_list g ! e)\<lparr>de_data := d\<rparr>]"
    and "n < dg_number_of_nodes g \<Longrightarrow> n \<noteq> source \<Longrightarrow> dg_adj (dg_set_data g e d) n = dg_adj g n"
    and "dg_edge_range (dg_set_data g e d) n = dg_edge_range g n"
proof -
  let ?g = "dg_set_data g e d"
  have be: "dg_begin ?g n = dg_begin g n" "dg_end ?g n = dg_end g n" "dg_slots ?g n = dg_slots g n" for n
    by (simp_all add: dg_set_data_def dg_begin_def dg_end_def dg_slots_def)
  have d: "is_dummy (dg_edge_list ?g) i = is_dummy (dg_edge_list g) i" if "i < length (dg_edge_list g)" for i
    using that by (cases "i = e") (simp_all add: is_dummy_def dg_set_data_def)
  have el: "e < length (dg_edge_list g)" using dg_inv_slot(1) [OF inv s e] .
  show "dg_number_of_nodes ?g = dg_number_of_nodes g" by (simp add: dg_set_data_def)
  have "\<not> is_dummy (dg_edge_list ?g) i" if "n < dg_number_of_nodes g" "i \<in> dg_slots g n" for n i
    using dg_inv_slot [OF inv that] d by simp
  moreover have "length (dg_edge_list ?g) = length (dg_edge_list g)" "length (dg_node_array ?g) = length (dg_node_array g)"
    "dg_number_of_nodes ?g = dg_number_of_nodes g" by (simp_all add: dg_set_data_def)
  ultimately show "dg_inv ?g" using inv by (simp add: dg_inv_def be)
  have els: "dg_edge_list ?g = (dg_edge_list g)[e := (dg_edge_list g ! e)\<lparr>de_data := d\<rparr>]"
    by (simp add: dg_set_data_def)
  show "dg_adj ?g source = (dg_adj g source)[e - dg_begin g source := (dg_edge_list g ! e)\<lparr>de_data := d\<rparr>]"
    using e el by (intro nth_equalityI) (auto simp: dg_adj_def be els dg_slots_def nth_list_update)
  show "n < dg_number_of_nodes g \<Longrightarrow> n \<noteq> source \<Longrightarrow> dg_adj ?g n = dg_adj g n"
    using dg_inv_disjoint [OF inv s _ _ e, of n]
    by (intro nth_equalityI) (auto simp: dg_adj_def be els dg_slots_def nth_list_update)
  show "dg_edge_range ?g n = dg_edge_range g n" by (simp add: dg_edge_range_def be)
qed

text \<open>An arc of given direction flags, at most as heavy as asked for.\<close>

definition has_arc :: "ContractorGraph \<Rightarrow> NodeID \<Rightarrow> NodeID \<Rightarrow> bool \<Rightarrow> bool \<Rightarrow> EdgeWeight \<Rightarrow> bool" where
  "has_arc g s t fwd bwd w \<longleftrightarrow> (\<exists>x \<in> set (dg_adj g s). de_target x = t \<and>
     ce_forward (de_data x) = fwd \<and> ce_backward (de_data x) = bwd \<and> ce_weight (de_data x) \<le> w)"

definition insert_step_ok :: "ContractorGraph \<Rightarrow> ContractorEdge list \<Rightarrow> ContractorGraph \<Rightarrow> bool" where
  "insert_step_ok g es g' \<longleftrightarrow> dg_inv g' \<and> dg_number_of_nodes g' = dg_number_of_nodes g \<and>
     (\<forall>s < dg_number_of_nodes g. \<forall>t f b w. has_arc g s t f b w \<longrightarrow> has_arc g' s t f b w) \<and>
     (\<forall>e \<in> set es. has_arc g' (ie_source e) (ie_target e) (ce_forward (ie_data e))
        (ce_backward (ie_data e)) (ce_weight (ie_data e))) \<and>
     (\<forall>s < dg_number_of_nodes g. set (dg_adj g' s) \<subseteq> set (dg_adj g s) \<union>
        edge_of_input ` {e \<in> set es. ie_source e = s})"

lemma has_arc_mset:
  "mset (dg_adj g' s) = add_mset x (mset (dg_adj g s)) \<Longrightarrow> has_arc g s t f b w \<Longrightarrow> has_arc g' s t f b w"
  "mset (dg_adj g' s) = add_mset x (mset (dg_adj g s)) \<Longrightarrow> set (dg_adj g' s) = insert x (set (dg_adj g s))"
proof -
  assume m: "mset (dg_adj g' s) = add_mset x (mset (dg_adj g s))"
  have set: "set (dg_adj g' s) = insert x (set (dg_adj g s))"
    using arg_cong [OF m, of set_mset] by simp
  then show "set (dg_adj g' s) = insert x (set (dg_adj g s))" .
  show "has_arc g s t f b w \<Longrightarrow> has_arc g' s t f b w" using set by (auto simp: has_arc_def)
qed

lemma insert_one:
  assumes inv: "dg_inv g" and s: "ie_source e < dg_number_of_nodes g" and t: "ie_target e \<noteq> SPECIAL_NODEID"
  shows "insert_step_ok g [e] (insert_new_edge junk g e)"
proof -
  let ?s = "ie_source e" and ?c = "dg_find_edge g (ie_source e) (ie_target e)"
  let ?g = "insert_new_edge junk g e"
  define new where "new = fst (dg_insert_edge junk g ?s (ie_target e) (ie_data e))"
  obtain i where "dg_insert_edge junk g ?s (ie_target e) (ie_data e) = (new, i)"
    unfolding new_def by (cases "dg_insert_edge junk g ?s (ie_target e) (ie_data e)") simp
  note ins = dg_insert_edge_spec [OF inv s t this]
  note in_new = has_arc_mset [OF ins(3)]
  have new_ok: "insert_step_ok g [e] new"
    unfolding insert_step_ok_def
  proof (intro conjI ins(1,2) allI impI)
    fix n t f b w assume "n < dg_number_of_nodes g" "has_arc g n t f b w"
    then show "has_arc new n t f b w"
      using in_new(1) ins(4) by (cases "n = ?s") (auto simp: has_arc_def)
  next
    show "\<forall>e \<in> set [e]. has_arc new (ie_source e) (ie_target e) (ce_forward (ie_data e))
        (ce_backward (ie_data e)) (ce_weight (ie_data e))"
      by (simp add: has_arc_def in_new(2))
    fix n assume "n < dg_number_of_nodes g"
    then show "set (dg_adj new n) \<subseteq> set (dg_adj g n) \<union> edge_of_input ` {x \<in> set [e]. ie_source x = n}"
      using in_new(2) ins(4) by (cases "n = ?s") (auto simp: edge_of_input_def)
  qed
  show ?thesis
  proof (cases "?c \<noteq> SPECIAL_EDGEID \<and> ce_shortcut (dg_data g ?c) \<and>
      ce_forward (ie_data e) = ce_forward (dg_data g ?c) \<and> ce_backward (ie_data e) = ce_backward (dg_data g ?c)")
    case False
    then have "?g = new" by (auto simp: insert_new_edge_def new_def Let_def)
    with new_ok show ?thesis by simp
  next
    case dup: True
    note c = dg_find_edge_found [OF conjunct1 [OF dup]]
    let ?old = "dg_edge_list g ! ?c"
    have old: "?old \<in> set (dg_adj g ?s)" using c(1) by (auto simp: dg_adj_def set_slice dg_slots_def)
    show ?thesis
    proof (cases "ce_weight (ie_data e) < ce_weight (dg_data g ?c)")
      case False
      then have "?g = g" using dup by (simp add: insert_new_edge_def Let_def)
      moreover have "has_arc g ?s (ie_target e) (ce_forward (ie_data e)) (ce_backward (ie_data e)) (ce_weight (ie_data e))"
        unfolding has_arc_def using old c(2) dup False by (intro bexI [of _ ?old]) (auto simp: dg_data_def)
      ultimately show ?thesis using inv by (auto simp: insert_step_ok_def)
    next
      case lighter: True
      then have g: "?g = dg_set_data g ?c (ie_data e)" using dup by (simp add: insert_new_edge_def Let_def)
      note sd = dg_set_data_spec [OF inv s c(1), where d = "ie_data e"]
      let ?x = "?old\<lparr>de_data := ie_data e\<rparr>"
      have k: "?c - dg_begin g ?s < length (dg_adj g ?s)" using c(1) by (auto simp: dg_adj_def dg_slots_def)
      have x: "?x = edge_of_input e" using c(2) by (cases ?old) (simp add: edge_of_input_def)
      have xin: "?x \<in> set (dg_adj ?g ?s)" unfolding g sd(3) using k by (rule set_update_memI)
      have keep: "y \<in> set (dg_adj ?g ?s)" if "y \<in> set (dg_adj g ?s)" "y \<noteq> ?old" for y
      proof -
        obtain j where j: "j < length (dg_adj g ?s)" "dg_adj g ?s ! j = y" using \<open>y \<in> _\<close> by (auto simp: in_set_conv_nth)
        have "dg_adj g ?s ! (?c - dg_begin g ?s) = ?old" using c(1) k by (auto simp: dg_adj_def dg_slots_def)
        with j that(2) have "j \<noteq> ?c - dg_begin g ?s" by auto
        with j show ?thesis unfolding g sd(3) by (metis length_list_update nth_list_update_neq nth_mem)
      qed
      have arcs: "has_arc ?g n t f b w" if "n < dg_number_of_nodes g" "has_arc g n t f b w" for n t f b w
      proof (cases "n = ?s")
        case True
        with that(2) obtain y where y: "y \<in> set (dg_adj g ?s)" "de_target y = t" "ce_forward (de_data y) = f"
          "ce_backward (de_data y) = b" "ce_weight (de_data y) \<le> w" by (auto simp: has_arc_def)
        show ?thesis
        proof (cases "y = ?old")
          case True
          with y xin dup lighter show ?thesis
            unfolding has_arc_def \<open>n = ?s\<close> by (intro bexI [of _ ?x]) (auto simp: dg_data_def)
        next
          case False
          with y keep show ?thesis unfolding has_arc_def \<open>n = ?s\<close> by blast
        qed
      qed (use that sd(4) in \<open>auto simp: has_arc_def g\<close>)
      have sub: "set (dg_adj ?g n) \<subseteq> set (dg_adj g n) \<union> edge_of_input ` {z \<in> set [e]. ie_source z = n}"
        if "n < dg_number_of_nodes g" for n
        using that sd(4) [of n] set_update_subset_insert [of "dg_adj g ?s" "?c - dg_begin g ?s" ?x]
        by (cases "n = ?s") (auto simp: g sd(3) x)
      have "has_arc ?g ?s (ie_target e) (ce_forward (ie_data e)) (ce_backward (ie_data e)) (ce_weight (ie_data e))"
        unfolding has_arc_def using xin c(2) by (intro bexI [of _ ?x]) auto
      then show ?thesis using sd(1,2) arcs sub by (simp add: insert_step_ok_def g [symmetric])
    qed
  qed
qed

lemma insert_step_ok_Cons:
  assumes a: "insert_step_ok g [e] g1" and b: "insert_step_ok g1 es g2" and s: "ie_source e < dg_number_of_nodes g"
  shows "insert_step_ok g (e # es) g2"
proof -
  have n: "dg_number_of_nodes g1 = dg_number_of_nodes g" using a by (simp add: insert_step_ok_def)
  have e: "has_arc g1 (ie_source e) (ie_target e) (ce_forward (ie_data e)) (ce_backward (ie_data e)) (ce_weight (ie_data e))"
    using a by (simp add: insert_step_ok_def)
  have mono: "has_arc g2 s t f b w" if "s < dg_number_of_nodes g" "has_arc g1 s t f b w" for s t f b w
    using b that by (simp add: insert_step_ok_def n)
  have sub: "set (dg_adj g2 k) \<subseteq> set (dg_adj g k) \<union> edge_of_input ` {x \<in> set (e # es). ie_source x = k}"
    if "k < dg_number_of_nodes g" for k
  proof -
    have "set (dg_adj g2 k) \<subseteq> set (dg_adj g1 k) \<union> edge_of_input ` {x \<in> set es. ie_source x = k}"
      "set (dg_adj g1 k) \<subseteq> set (dg_adj g k) \<union> edge_of_input ` {x \<in> set [e]. ie_source x = k}"
      using a b that by (simp_all add: insert_step_ok_def n)
    then show ?thesis by auto
  qed
  show ?thesis
    using a b mono [OF s e] mono sub by (simp add: insert_step_ok_def n)
qed

lemma insert_fold:
  assumes "dg_inv g" "\<forall>e \<in> set es. ie_source e < dg_number_of_nodes g \<and> ie_target e \<noteq> SPECIAL_NODEID"
  shows "insert_step_ok g es (foldl (insert_new_edge junk) g es)"
  using assms
proof (induction es arbitrary: g)
  case Nil
  then show ?case by (auto simp: insert_step_ok_def)
next
  case (Cons e es)
  let ?g1 = "insert_new_edge junk g e"
  have one: "insert_step_ok g [e] ?g1" using Cons.prems by (intro insert_one) auto
  then have "insert_step_ok ?g1 es (foldl (insert_new_edge junk) ?g1 es)"
    using Cons.prems by (intro Cons.IH) (auto simp: insert_step_ok_def)
  with one show ?case using Cons.prems(2) by (simp add: insert_step_ok_Cons)
qed

text \<open>
  Inserting the shortcuts of a round keeps the graph well-formed; afterwards every
  shortcut is in the graph with its direction flags and at most its weight, so is every arc
  the graph had, and every edge of the graph is an old one or one of the shortcuts.
\<close>

theorem insert_new_edges_correct:
  assumes "dg_inv graph"
    and "\<forall>e \<in> set es. ie_source e < dg_number_of_nodes graph \<and> ie_target e \<noteq> SPECIAL_NODEID"
    and "graph' = foldl (insert_new_edge junk) graph es"
  shows "dg_inv graph' \<and>
    (\<forall>e \<in> set es. has_arc graph' (ie_source e) (ie_target e) (ce_forward (ie_data e))
       (ce_backward (ie_data e)) (ce_weight (ie_data e))) \<and>
    (\<forall>s < dg_number_of_nodes graph. \<forall>t f b w. has_arc graph s t f b w \<longrightarrow> has_arc graph' s t f b w) \<and>
    (\<forall>s < dg_number_of_nodes graph. \<forall>x \<in> set (dg_adj graph' s). x \<in> set (dg_adj graph s) \<or>
       (\<exists>e \<in> set es. ie_source e = s \<and> x = \<lparr>de_target = ie_target e, de_data = ie_data e\<rparr>))"
  using insert_fold [OF assms(1,2), of junk] assms(3)
  unfolding insert_step_ok_def edge_of_input_def by blast

lemma insert_new_edges_correct_witness:
  "has_arc (foldl (insert_new_edge \<lparr>de_target = 0, de_data = mk_ContractorEdgeData 0 0 0 0 0 False False False\<rparr>)
     example_graph [example_edge 0 2 7 True False]) 0 2 True False 7"
proof -
  have "\<forall>e \<in> set [example_edge 0 2 7 True False]. ie_source e < dg_number_of_nodes example_graph \<and>
      ie_target e \<noteq> SPECIAL_NODEID"
    by (simp add: example_graph_spec example_edge_def SPECIAL_NODEID_def)
  from insert_new_edges_correct [OF example_graph_spec(1) this refl]
  show ?thesis by (simp add: example_edge_def mk_ContractorEdgeData_def)
qed

section \<open>Renumbering\<close>

lemma renumber_remaining_spec:
  assumes "renumber_remaining orig rs c n i = (rs', c', n', i')"
    and "distinct (map rn_id rs)" "rn_id ` set rs \<subseteq> {..<length c}" "i + length rs \<le> length n"
  shows "i' = i + length rs \<and> length c' = length c \<and> length n' = length n \<and>
    rs' = map (\<lambda>(r, k). r\<lparr>rn_id := k mod 2 ^ 31\<rparr>) (zip rs [i..<i + length rs]) \<and>
    (\<forall>k < length rs. c' ! rn_id (rs ! k) = i + k) \<and> (\<forall>j. j \<notin> rn_id ` set rs \<longrightarrow> c' ! j = c ! j) \<and>
    (\<forall>k < length rs. n' ! (i + k) = orig ! rn_id (rs ! k)) \<and> (\<forall>j < i. n' ! j = n ! j)"
  using assms
proof (induction orig rs c n i arbitrary: rs' c' n' i' rule: renumber_remaining.induct)
  case (2 orig r rs c n i)
  obtain rs1 where rec: "renumber_remaining orig rs (c[rn_id r := i]) (n[i := orig ! rn_id r]) (Suc i) = (rs1, c', n', i')"
    and rs': "rs' = r\<lparr>rn_id := i mod 2 ^ 31\<rparr> # rs1"
    using "2.prems"(1) by (auto split: prod.splits)
  have ih: "i' = Suc i + length rs \<and> length c' = length (c[rn_id r := i]) \<and>
    length n' = length (n[i := orig ! rn_id r]) \<and>
    rs1 = map (\<lambda>(r, k). r\<lparr>rn_id := k mod 2 ^ 31\<rparr>) (zip rs [Suc i..<Suc i + length rs]) \<and>
    (\<forall>k < length rs. c' ! rn_id (rs ! k) = Suc i + k) \<and>
    (\<forall>j. j \<notin> rn_id ` set rs \<longrightarrow> c' ! j = c[rn_id r := i] ! j) \<and>
    (\<forall>k < length rs. n' ! (Suc i + k) = orig ! rn_id (rs ! k)) \<and>
    (\<forall>j < Suc i. n' ! j = n[i := orig ! rn_id r] ! j)"
    using "2.prems"(2-4) rec by (intro "2.IH") auto
  have "rn_id r \<notin> rn_id ` set rs" using "2.prems"(2) by simp
  then have c0: "c' ! rn_id r = i" using ih "2.prems"(3) by simp
  have n0: "n' ! i = orig ! rn_id r" using ih "2.prems"(4) by simp
  have "c' ! rn_id ((r # rs) ! k) = i + k" "n' ! (i + k) = orig ! rn_id ((r # rs) ! k)"
    if "k < length (r # rs)" for k
    using ih c0 n0 that by (cases k; simp)+
  moreover have "[i..<i + length (r # rs)] = i # [Suc i..<Suc i + length rs]"
    by (simp add: upt_conv_Cons del: upt_Suc)
  ultimately show ?case using ih by (simp add: rs')
qed simp

lemma renumber_contracted_dummies:
  "renumber_contracted orig ks c n i = (c', n', i') \<Longrightarrow> dg_renumber_dummies ks c i = (c', i')"
  by (induction orig ks c n i rule: renumber_contracted.induct)
    (auto simp: SPECIAL_NODEID_def SPECIAL_EDGEID_def split: if_splits)

lemma renumber_contracted_spec:
  assumes "renumber_contracted orig ks c n i = (c', n', i')" "distinct ks" "set ks \<subseteq> {..<length c}"
    and "i + length (filter (\<lambda>k. c ! k = SPECIAL_NODEID) ks) \<le> length n" "length n \<le> SPECIAL_NODEID"
  shows "length n' = length n \<and>
    (\<forall>k < length (filter (\<lambda>k. c ! k = SPECIAL_NODEID) ks).
       n' ! (i + k) = orig ! (filter (\<lambda>k. c ! k = SPECIAL_NODEID) ks ! k)) \<and> (\<forall>j < i. n' ! j = n ! j)"
  using assms
proof (induction orig ks c n i arbitrary: c' n' i' rule: renumber_contracted.induct)
  case (2 orig k ks c n i)
  show ?case
  proof (cases "c ! k = SPECIAL_NODEID")
    case True
    have same: "filter (\<lambda>j. c[k := i] ! j = SPECIAL_NODEID) ks = filter (\<lambda>j. c ! j = SPECIAL_NODEID) ks"
      using "2.prems"(2) by (intro filter_cong refl arg_cong [where f = "\<lambda>x. x = _"] nth_list_update_neq) auto
    have rec: "renumber_contracted orig ks (c[k := i]) (n[i := orig ! k]) (Suc i) = (c', n', i')"
      using "2.prems"(1) True by simp
    have ih: "length n' = length n \<and>
      (\<forall>j < length (filter (\<lambda>k. c ! k = SPECIAL_NODEID) ks).
         n' ! (Suc i + j) = orig ! (filter (\<lambda>k. c ! k = SPECIAL_NODEID) ks ! j)) \<and>
      (\<forall>j < Suc i. n' ! j = n[i := orig ! k] ! j)"
      using "2.IH"(1) [OF True rec] "2.prems" True by (simp add: same)
    moreover have "n' ! i = orig ! k" using ih "2.prems"(4) True by simp
    ultimately show ?thesis using True by (auto simp: nth_Cons split: nat.splits)
  next
    case False
    with 2 show ?thesis by auto
  qed
qed simp

text \<open>
  Property C37. The renumbering of a round is a permutation of the nodes that gives the
  remaining nodes the lowest ids in their order, and the composed map leads every new id to
  the original id the node had.
\<close>

theorem renumber_ids_correct:
  assumes "distinct (map rn_id remaining)" "rn_id ` set remaining \<subseteq> {..<N}" "length new_to_old = N"
    and "N < 2 ^ 31" and "renumber_ids N remaining new_to_old = (remaining', current_to_new, new_to_old')"
  shows "is_perm current_to_new N \<and>
    (\<forall>k < length remaining. current_to_new ! rn_id (remaining ! k) = k \<and> rn_id (remaining' ! k) = k) \<and>
    (\<forall>j < N. new_to_old' ! (current_to_new ! j) = new_to_old ! j)"
proof -
  let ?ids = "map rn_id remaining"
  obtain c n i where r: "renumber_remaining new_to_old remaining (replicate N SPECIAL_NODEID) new_to_old 0 =
      (remaining', c, n, i)" and k: "\<exists>i'. renumber_contracted new_to_old [0..<N] c n i = (current_to_new, new_to_old', i')"
    using assms(5) by (auto simp: renumber_ids_def Let_def split: prod.splits)
  obtain i' where k: "renumber_contracted new_to_old [0..<N] c n i = (current_to_new, new_to_old', i')" using k by blast
  have len: "length remaining \<le> N"
    using distinct_card [OF assms(1)] card_mono [of "{..<N}" "set ?ids"] assms(2) by simp
  have rs: "i = length remaining" "length c = N" "length n = N"
    "remaining' = map (\<lambda>(r, k). r\<lparr>rn_id := k mod 2 ^ 31\<rparr>) (zip remaining [0..<length remaining])"
    "\<forall>k < length remaining. c ! rn_id (remaining ! k) = k"
    "\<forall>j. j \<notin> rn_id ` set remaining \<longrightarrow> c ! j = replicate N SPECIAL_NODEID ! j"
    "\<forall>k < length remaining. n ! k = new_to_old ! rn_id (remaining ! k)"
    using renumber_remaining_spec [OF r assms(1)] assms(2,3) len by auto
  let ?fs = "filter (\<lambda>k. c ! k = SPECIAL_NODEID) [0..<N]"
  have fs: "?fs = filter (\<lambda>k. k \<notin> set ?ids) [0..<N]"
  proof (rule filter_cong [OF refl])
    fix k assume k: "k \<in> set [0..<N]"
    show "(c ! k = SPECIAL_NODEID) = (k \<notin> set ?ids)"
    proof (cases "k \<in> set ?ids")
      case True
      then obtain m where "m < length remaining" "rn_id (remaining ! m) = k" by (auto simp: in_set_conv_nth)
      with rs(5) len assms(4) have "c ! k < 2 ^ 31" by auto
      with True show ?thesis by (simp add: SPECIAL_NODEID_def)
    qed (use rs(6) k in auto)
  qed
  let ?ord = "?ids @ ?fs"
  have set: "set ?ord = {..<N}" using assms(2) by (auto simp: fs)
  have dist: "distinct ?ord" using assms(1) by (auto simp: fs)
  have olen: "length ?ord = N" using distinct_card [OF dist] set by simp
  have ord: "is_perm ?ord N" using set dist olen by (simp add: is_perm_def)
  have bound: "N \<le> SPECIAL_NODEID" "N \<le> SPECIAL_EDGEID" using assms(4) by (simp_all add: SPECIAL_NODEID_def SPECIAL_EDGEID_def)
  have eq: "SPECIAL_EDGEID = SPECIAL_NODEID" by (simp add: SPECIAL_NODEID_def SPECIAL_EDGEID_def)
  have d: "length current_to_new = N" "\<forall>k < length ?fs. current_to_new ! (?fs ! k) = i + k"
    "\<forall>j. j \<notin> set ?fs \<longrightarrow> current_to_new ! j = c ! j"
    using dg_renumber_dummies_spec [OF renumber_contracted_dummies [OF k]] rs(1,2) olen bound
    by (simp_all add: eq lessThan_atLeast0)
  have n: "\<forall>k < length ?fs. new_to_old' ! (i + k) = new_to_old ! (?fs ! k)" "\<forall>j < i. new_to_old' ! j = n ! j"
    using renumber_contracted_spec [OF k] rs(1-3) olen bound by (simp_all add: lessThan_atLeast0)
  have pos: "current_to_new ! (?ord ! k) = k \<and> new_to_old' ! k = new_to_old ! (?ord ! k)" if "k < N" for k
  proof (cases "k < length ?ids")
    case True
    then have "?ids ! k \<notin> set ?fs" using nth_mem [OF True] by (simp add: fs)
    with True d(3) n(2) rs(1,5,7) show ?thesis by (simp add: nth_append)
  next
    case False
    then have "k - length ?ids < length ?fs" using that olen by simp
    then have "current_to_new ! (?fs ! (k - length ?ids)) = length ?ids + (k - length ?ids)"
      "new_to_old' ! (length ?ids + (k - length ?ids)) = new_to_old ! (?fs ! (k - length ?ids))"
      using d(2) n(1) rs(1) by simp_all
    with False show ?thesis by (simp add: nth_append)
  qed
  then have "current_to_new = orderingToPermutation ?ord"
    using ord d(1) by (intro orderingToPermutation_unique) blast+
  then have "is_perm current_to_new N" using orderingToPermutation_perm [OF ord] by simp
  moreover have "current_to_new ! rn_id (remaining ! k) = k \<and> rn_id (remaining' ! k) = k" if "k < length remaining" for k
    using pos [of k] that len rs(4) assms(4) by (simp add: nth_append)
  moreover have "new_to_old' ! (current_to_new ! j) = new_to_old ! j" if j: "j < N" for j
  proof -
    obtain k where "k < N" "?ord ! k = j" using is_perm_surj [OF ord j] by blast
    with pos show ?thesis by auto
  qed
  ultimately show ?thesis by blast
qed

lemma renumber_ids_correct_witness:
  "is_perm (fst (snd (renumber_ids 3 [mk_RemainingNodeData 2 False, mk_RemainingNodeData 0 True] [0, 1, 2]))) 3"
proof -
  obtain rem' c n where r: "renumber_ids 3 [mk_RemainingNodeData 2 False, mk_RemainingNodeData 0 True] [0, 1, 2] =
      (rem', c, n)" by (cases "renumber_ids 3 [mk_RemainingNodeData 2 False, mk_RemainingNodeData 0 True] [0, 1, 2]")
  from renumber_ids_correct [OF _ _ _ _ r] have "is_perm c 3"
    by (simp add: mk_RemainingNodeData_def)
  then show ?thesis by (simp only: r fst_conv snd_conv)
qed

end
