(* ===== verification/RequestParser.thy ===== *)
theory RequestParser
  imports OSRM_Prelude
begin

text \<open>
  The HTTP request parser, \<^verbatim>\<open>src/server/request_parser.cpp\<close>: a state machine over single
  characters that survives chunk borders.

  A \<^verbatim>\<open>char\<close> is signed, as on the platforms the program is built for.  The case-insensitive
  comparisons are boost's and are the parameter \<open>B\<close>.  The \<^verbatim>\<open>endpoint\<close> member of a request is
  not touched by the parser and left out.
\<close>

section \<open>Data\<close>

datatype RequestStatus = valid | invalid | indeterminate

datatype internal_state =
    method_start | in_method | uri_start | uri_state | http_version_h | http_version_t_1
  | http_version_t_2 | http_version_p | http_version_slash | http_version_major_start
  | http_version_major | http_version_minor_start | http_version_minor | expecting_newline_1
  | header_line_start | header_lws | header_name | header_value | expecting_newline_2
  | expecting_newline_3

datatype compression_type = no_compression | gzip_rfc1952 | deflate_rfc1951

record http_request =
  uri :: string
  referrer :: string
  agent :: string
  connection :: string

record http_header =
  hname :: string
  hvalue :: string

record RequestParser =
  state :: internal_state
  current_header :: http_header
  selected_compression :: compression_type

record boost_predicates =
  iequals :: "string \<Rightarrow> string \<Rightarrow> bool"
  icontains :: "string \<Rightarrow> string \<Rightarrow> bool"

definition RequestParser_init :: RequestParser where
  "RequestParser_init = \<lparr>state = method_start, current_header = \<lparr>hname = '''', hvalue = ''''\<rparr>,
     selected_compression = no_compression\<rparr>"

section \<open>Character classes\<close>

definition int_of_char :: "char \<Rightarrow> int" where
  "int_of_char c = (let n = of_char c in if n \<ge> 128 then n - 256 else n)"

definition is_char :: "int \<Rightarrow> bool" where
  "is_char character \<longleftrightarrow> character \<ge> 0 \<and> character \<le> 127"

definition is_CTL :: "int \<Rightarrow> bool" where
  "is_CTL character \<longleftrightarrow> character \<ge> 0 \<and> character \<le> 31 \<or> character = 127"

definition is_special :: "int \<Rightarrow> bool" where
  "is_special character \<longleftrightarrow>
     character \<in> int_of_char ` set ''()<>@,;:[]?={} /'' \<or> character = 92 \<or> character = 34 \<or> character = 9"

definition is_digit :: "int \<Rightarrow> bool" where
  "is_digit character \<longleftrightarrow> character \<ge> int_of_char CHR ''0'' \<and> character \<le> int_of_char CHR ''9''"

abbreviation CR :: char where "CR \<equiv> CHR 0x0D"
abbreviation LF :: char where "LF \<equiv> CHR 0x0A"
abbreviation TAB :: char where "TAB \<equiv> CHR 0x09"

text \<open>The test the method, the header name and its first character share.\<close>

definition not_token :: "char \<Rightarrow> bool" where
  "not_token c \<longleftrightarrow> \<not> is_char (int_of_char c) \<or> is_CTL (int_of_char c) \<or> is_special (int_of_char c)"

section \<open>The state machine\<close>

type_synonym parser_config = "RequestParser \<times> http_request"

text \<open>The header that was read is evaluated when the next line starts.\<close>

definition select_compression :: "boost_predicates \<Rightarrow> http_header \<Rightarrow> compression_type \<Rightarrow> compression_type" where
  "select_compression B h c =
     (if iequals B (hname h) ''Accept-Encoding''
      then (let c1 = (if icontains B (hvalue h) ''deflate'' then deflate_rfc1951 else c)
            in if icontains B (hvalue h) ''gzip'' then gzip_rfc1952 else c1)
      else c)"

definition store_header :: "boost_predicates \<Rightarrow> http_header \<Rightarrow> http_request \<Rightarrow> http_request" where
  "store_header B h r =
     (let r1 = (if iequals B (hname h) ''Referer'' then r\<lparr>referrer := hvalue h\<rparr> else r);
          r2 = (if iequals B (hname h) ''User-Agent'' then r1\<lparr>agent := hvalue h\<rparr> else r1)
      in if iequals B (hname h) ''Connection'' then r2\<lparr>connection := hvalue h\<rparr> else r2)"

definition expect :: "char \<Rightarrow> internal_state \<Rightarrow> parser_config \<Rightarrow> char \<Rightarrow> RequestStatus \<times> parser_config" where
  "expect c next cfg input =
     (if input = c then (indeterminate, (fst cfg\<lparr>state := next\<rparr>, snd cfg)) else (invalid, cfg))"

definition consume :: "boost_predicates \<Rightarrow> parser_config \<Rightarrow> char \<Rightarrow> RequestStatus \<times> parser_config" where
  "consume B cfg input =
     (let (p, r) = cfg;
          go = (\<lambda>s. (indeterminate, (p\<lparr>state := s\<rparr>, r)));
          fail = (invalid, cfg);
          stay = (indeterminate, cfg);
          i = int_of_char input;
          h = current_header p
      in (case state p of
            method_start \<Rightarrow>
              if \<not> is_char i \<or> is_CTL i \<or> is_special i then fail else go in_method
          | in_method \<Rightarrow>
              if input = CHR '' '' then go uri_state
              else if \<not> is_char i \<or> is_CTL i \<or> is_special i then fail else stay
          | uri_start \<Rightarrow>
              if is_CTL i then fail
              else (indeterminate, (p\<lparr>state := uri_state\<rparr>, r\<lparr>uri := uri r @ [input]\<rparr>))
          | uri_state \<Rightarrow>
              if input = CHR '' '' then go http_version_h
              else if is_CTL i then fail
              else (indeterminate, (p, r\<lparr>uri := uri r @ [input]\<rparr>))
          | http_version_h \<Rightarrow> expect CHR ''H'' http_version_t_1 cfg input
          | http_version_t_1 \<Rightarrow> expect CHR ''T'' http_version_t_2 cfg input
          | http_version_t_2 \<Rightarrow> expect CHR ''T'' http_version_p cfg input
          | http_version_p \<Rightarrow> expect CHR ''P'' http_version_slash cfg input
          | http_version_slash \<Rightarrow> expect CHR ''/'' http_version_major_start cfg input
          | http_version_major_start \<Rightarrow> if is_digit i then go http_version_major else fail
          | http_version_major \<Rightarrow>
              if input = CHR ''.'' then go http_version_minor_start
              else if is_digit i then stay else fail
          | http_version_minor_start \<Rightarrow> if is_digit i then go http_version_minor else fail
          | http_version_minor \<Rightarrow>
              if input = CR then go expecting_newline_1 else if is_digit i then stay else fail
          | expecting_newline_1 \<Rightarrow> expect LF header_line_start cfg input
          | header_line_start \<Rightarrow>
              (let p1 = p\<lparr>selected_compression := select_compression B h (selected_compression p)\<rparr>;
                   r1 = store_header B h r
               in if input = CR then (indeterminate, (p1\<lparr>state := expecting_newline_3\<rparr>, r1))
                  else if \<not> is_char i \<or> is_CTL i \<or> is_special i then (invalid, (p1, r1))
                  else (indeterminate,
                    (p1\<lparr>state := header_name, current_header := \<lparr>hname = [input], hvalue = ''''\<rparr>\<rparr>, r1)))
          | header_lws \<Rightarrow>
              if input = CR then go expecting_newline_2
              else if input = CHR '' '' \<or> input = TAB then stay
              else if is_CTL i then fail else go header_value
          | header_name \<Rightarrow>
              if input = CHR '':'' then go header_value
              else if \<not> is_char i \<or> is_CTL i \<or> is_special i then fail
              else (indeterminate, (p\<lparr>current_header := h\<lparr>hname := hname h @ [input]\<rparr>\<rparr>, r))
          | header_value \<Rightarrow>
              if input = CHR '' '' then go header_value
              else if input = CR then go expecting_newline_2
              else if is_CTL i then fail
              else (indeterminate, (p\<lparr>current_header := h\<lparr>hvalue := hvalue h @ [input]\<rparr>\<rparr>, r))
          | expecting_newline_2 \<Rightarrow> expect LF header_line_start cfg input
          | expecting_newline_3 \<Rightarrow> if input = LF then (valid, cfg) else (invalid, cfg)))"

text \<open>\<^verbatim>\<open>parse\<close> returns the status, the compression and, here, the new state.\<close>

fun parse_loop :: "boost_predicates \<Rightarrow> parser_config \<Rightarrow> string \<Rightarrow> RequestStatus \<times> parser_config" where
  "parse_loop B cfg [] = (indeterminate, cfg)"
| "parse_loop B cfg (c # cs) =
     (let (result, cfg') = consume B cfg c
      in if result \<noteq> indeterminate then (result, cfg') else parse_loop B cfg' cs)"

definition parse ::
  "boost_predicates \<Rightarrow> parser_config \<Rightarrow> string \<Rightarrow>
   (RequestStatus \<times> compression_type) \<times> parser_config" where
  "parse B cfg input =
     (let (result, cfg') = parse_loop B cfg input
      in ((result, selected_compression (fst cfg')), cfg'))"

section \<open>Chunks\<close>

lemma parse_loop_append:
  "parse_loop B cfg (xs @ ys) =
     (case parse_loop B cfg xs of (result, cfg') \<Rightarrow>
        if result = indeterminate then parse_loop B cfg' ys else (result, cfg'))"
  by (induction B cfg xs rule: parse_loop.induct) (auto simp: Let_def split: prod.splits)


section \<open>What the parser lets through\<close>

text \<open>The states the machine can be in and the characters it has stored.\<close>

definition clean_uri :: "string \<Rightarrow> bool" where
  "clean_uri u \<longleftrightarrow> (\<forall>c \<in> set u. c \<noteq> CHR '' '' \<and> \<not> is_CTL (int_of_char c))"

definition parser_inv :: "parser_config \<Rightarrow> bool" where
  "parser_inv cfg \<longleftrightarrow> state (fst cfg) \<noteq> uri_start \<and> state (fst cfg) \<noteq> header_lws \<and>
     clean_uri (uri (snd cfg)) \<and>
     (\<forall>c \<in> set (hname (current_header (fst cfg))). \<not> not_token c) \<and>
     (\<forall>c \<in> set (hvalue (current_header (fst cfg))). c \<noteq> CHR '' '' \<and> \<not> is_CTL (int_of_char c))"

lemma store_header_uri [simp]: "uri (store_header B h r) = uri r"
  by (simp add: store_header_def Let_def)

lemma consume_inv:
  assumes "parser_inv cfg"
  shows "parser_inv (snd (consume B cfg c))"
proof -
  obtain p r where cfg: "cfg = (p, r)" by fastforce
  note simps = cfg parser_inv_def consume_def expect_def Let_def clean_uri_def not_token_def
  show ?thesis
    using assms by (cases "state p") (simp_all add: simps)
qed

lemma parse_loop_inv: "parser_inv cfg \<Longrightarrow> parser_inv (snd (parse_loop B cfg cs))"
proof (induction B cfg cs rule: parse_loop.induct)
  case (2 B cfg c cs)
  then show ?case
    using consume_inv [OF "2.prems", of B c] by (cases "consume B cfg c") (auto simp: Let_def)
qed simp

text \<open>
  Property C39. Whatever is received, the stored uri has no blank and no control character, a
  header name only token characters, a header value no blank and no control character; the
  states \<^verbatim>\<open>uri_start\<close> and \<^verbatim>\<open>header_lws\<close> of the machine are never entered.
\<close>

theorem parse_stores_clean:
  assumes "uri r = ''''" "parse B (RequestParser_init, r) input = (res, (p', r'))"
  shows "clean_uri (uri r') \<and> state p' \<noteq> uri_start \<and> state p' \<noteq> header_lws \<and>
    (\<forall>c \<in> set (hname (current_header p')). \<not> not_token c) \<and>
    (\<forall>c \<in> set (hvalue (current_header p')). c \<noteq> CHR '' '' \<and> \<not> is_CTL (int_of_char c))"
proof -
  have "parser_inv (RequestParser_init, r)"
    using assms(1) by (simp add: parser_inv_def RequestParser_init_def clean_uri_def)
  moreover obtain s where "parse_loop B (RequestParser_init, r) input = (s, (p', r'))"
    using assms(2) by (auto simp: parse_def Let_def split: prod.splits)
  ultimately have "parser_inv (p', r')" using parse_loop_inv by (metis snd_conv)
  then show ?thesis by (simp add: parser_inv_def)
qed

definition example_request :: http_request where
  "example_request = \<lparr>uri = '''', referrer = '''', agent = '''', connection = ''''\<rparr>"

definition example_boost :: boost_predicates where
  "example_boost = \<lparr>iequals = (=), icontains = (\<lambda>a b. b \<in> set [a])\<rparr>"

lemma parse_stores_clean_witness:
  "clean_uri (uri (snd (snd (parse example_boost (RequestParser_init, example_request) ''GET /a b''))))"
proof -
  obtain res p' r' where r: "parse example_boost (RequestParser_init, example_request) ''GET /a b'' = (res, (p', r'))"
    by (cases "parse example_boost (RequestParser_init, example_request) ''GET /a b''") auto
  have "uri example_request = ''''" by (simp add: example_request_def)
  from parse_stores_clean [OF this r] show ?thesis unfolding r by simp
qed

section \<open>Well-formed requests are accepted\<close>

text \<open>A request as a client prints it: method, uri, version digits, header lines.\<close>

definition print_request ::
  "string \<Rightarrow> string \<Rightarrow> string \<Rightarrow> string \<Rightarrow> (string \<times> string) list \<Rightarrow> string" where
  "print_request m u major minor hs =
     m @ '' '' @ u @ '' HTTP/'' @ major @ ''.'' @ minor @ [CR, LF] @
     concat (map (\<lambda>(n, v). n @ '':'' @ v @ [CR, LF]) hs) @ [CR, LF]"

definition is_token :: "string \<Rightarrow> bool" where
  "is_token t \<longleftrightarrow> t \<noteq> [] \<and> (\<forall>c \<in> set t. \<not> not_token c)"

definition all_digits :: "string \<Rightarrow> bool" where
  "all_digits d \<longleftrightarrow> d \<noteq> [] \<and> (\<forall>c \<in> set d. is_digit (int_of_char c))"

definition printable :: "string \<Rightarrow> bool" where
  "printable v \<longleftrightarrow> (\<forall>c \<in> set v. \<not> is_CTL (int_of_char c))"

text \<open>What the headers do to the request and the compression, in the order they come; the
  parser keeps header values without their blanks.\<close>

definition read_headers ::
  "boost_predicates \<Rightarrow> (string \<times> string) list \<Rightarrow> compression_type \<times> http_request \<Rightarrow>
   compression_type \<times> http_request" where
  "read_headers B hs acc = foldl (\<lambda>(c, r) (n, v).
     let h = \<lparr>hname = n, hvalue = filter (\<lambda>c. c \<noteq> CHR '' '') v\<rparr>
     in (select_compression B h c, store_header B h r)) acc hs"

lemma parse_loop_Cons:
  "consume B cfg c = (indeterminate, cfg') \<Longrightarrow> parse_loop B cfg (c # cs) = parse_loop B cfg' cs"
  by simp

lemma CTL_control: "is_CTL (int_of_char CR)" "is_CTL (int_of_char LF)"
  by (simp_all add: is_CTL_def int_of_char_def)

lemma token_char:
  assumes "\<not> not_token c"
  shows "is_char (int_of_char c)" "\<not> is_CTL (int_of_char c)" "\<not> is_special (int_of_char c)"
    "c \<noteq> CHR '' ''" "c \<noteq> CHR '':''" "c \<noteq> CR"
  using assms CTL_control(1) by (auto simp: not_token_def is_special_def)

lemma digit_char:
  assumes "is_digit (int_of_char c)"
  shows "c \<noteq> CHR ''.''" "c \<noteq> CR"
  using assms by (auto simp: is_digit_def int_of_char_def)

lemma read_method:
  assumes "\<forall>c \<in> set m. \<not> not_token c" "state p = in_method"
  shows "parse_loop B (p, r) (m @ cs) = parse_loop B (p, r) cs"
  using assms(1)
proof (induction m)
  case (Cons c m)
  have "consume B (p, r) c = (indeterminate, (p, r))"
    using Cons.prems assms(2) token_char [of c] by (simp add: consume_def Let_def)
  with Cons show ?case by simp
qed simp

lemma read_uri:
  assumes "clean_uri u" "state p = uri_state"
  shows "parse_loop B (p, r) (u @ cs) = parse_loop B (p, r\<lparr>uri := uri r @ u\<rparr>) cs"
  using assms(1)
proof (induction u arbitrary: r)
  case (Cons c u)
  have "consume B (p, r) c = (indeterminate, (p, r\<lparr>uri := uri r @ [c]\<rparr>))"
    using Cons.prems assms(2) by (simp add: consume_def Let_def clean_uri_def)
  moreover have "clean_uri u" using Cons.prems by (simp add: clean_uri_def)
  ultimately show ?case using Cons.IH by (simp add: parse_loop_Cons)
qed simp

lemma read_digits:
  assumes "\<forall>c \<in> set d. is_digit (int_of_char c)" "state p = http_version_major \<or> state p = http_version_minor"
  shows "parse_loop B (p, r) (d @ cs) = parse_loop B (p, r) cs"
  using assms(1)
proof (induction d)
  case (Cons c d)
  have d: "is_digit (int_of_char c)" using Cons.prems by simp
  have "consume B (p, r) c = (indeterminate, (p, r))"
    using assms(2) d digit_char [OF d] by (elim disjE) (simp_all add: consume_def Let_def)
  with Cons show ?case by simp
qed simp

lemma read_name:
  assumes "\<forall>c \<in> set n. \<not> not_token c" "state p = header_name"
  shows "parse_loop B (p, r) (n @ cs) = parse_loop B (p\<lparr>current_header := (current_header p)
    \<lparr>hname := hname (current_header p) @ n\<rparr>\<rparr>, r) cs"
  using assms
proof (induction n arbitrary: p)
  case (Cons c n)
  let ?p = "p\<lparr>current_header := (current_header p)\<lparr>hname := hname (current_header p) @ [c]\<rparr>\<rparr>"
  have "consume B (p, r) c = (indeterminate, (?p, r))"
    using Cons.prems token_char [of c] by (simp add: consume_def Let_def)
  then show ?case using Cons.IH [of ?p] Cons.prems by (simp add: parse_loop_Cons)
qed simp

lemma read_value:
  assumes "printable v" "state p = header_value"
  shows "parse_loop B (p, r) (v @ cs) = parse_loop B (p\<lparr>current_header := (current_header p)
    \<lparr>hvalue := hvalue (current_header p) @ filter (\<lambda>c. c \<noteq> CHR '' '') v\<rparr>\<rparr>, r) cs"
  using assms
proof (induction v arbitrary: p)
  case (Cons c v)
  have ok: "\<not> is_CTL (int_of_char c)" "printable v" using Cons.prems(1) by (simp_all add: printable_def)
  then have "c \<noteq> CR" using CTL_control(1) by auto
  let ?p = "if c = CHR '' '' then p else
    p\<lparr>current_header := (current_header p)\<lparr>hvalue := hvalue (current_header p) @ [c]\<rparr>\<rparr>"
  have same: "p\<lparr>state := header_value\<rparr> = p" using Cons.prems(2) by (cases p) simp
  have "consume B (p, r) c = (indeterminate, (?p, r))"
    using Cons.prems(2) ok \<open>c \<noteq> CR\<close> same by (simp add: consume_def Let_def)
  moreover have "state ?p = header_value" using Cons.prems(2) by simp
  ultimately show ?case using Cons.IH [OF ok(2), of ?p] by (simp add: parse_loop_Cons)
qed simp

lemma read_header:
  assumes "is_token n" "printable v"
  shows "parse_loop B (\<lparr>state = header_line_start, current_header = h, selected_compression = c\<rparr>, r)
      (n @ '':'' @ v @ [CR, LF] @ cs) =
    parse_loop B (\<lparr>state = header_line_start,
        current_header = \<lparr>hname = n, hvalue = filter (\<lambda>c. c \<noteq> CHR '' '') v\<rparr>,
        selected_compression = select_compression B h c\<rparr>, store_header B h r) cs"
proof -
  obtain a n' where n: "n = a # n'" "\<not> not_token a" "\<forall>c \<in> set n'. \<not> not_token c"
    using assms(1) by (cases n) (auto simp: is_token_def)
  let ?r = "store_header B h r" and ?c = "select_compression B h c"
  have 1: "consume B (\<lparr>state = header_line_start, current_header = h, selected_compression = c\<rparr>, r) a =
      (indeterminate, (\<lparr>state = header_name, current_header = \<lparr>hname = [a], hvalue = ''''\<rparr>,
         selected_compression = ?c\<rparr>, ?r))"
    using token_char [OF n(2)] by (simp add: consume_def Let_def)
  let ?p = "\<lambda>s n v. \<lparr>state = s, current_header = \<lparr>hname = n, hvalue = v\<rparr>, selected_compression = ?c\<rparr>"
  let ?v = "filter (\<lambda>c. c \<noteq> CHR '' '') v"
  have "parse_loop B (\<lparr>state = header_line_start, current_header = h, selected_compression = c\<rparr>, r)
      (n @ '':'' @ v @ [CR, LF] @ cs) = parse_loop B (?p header_name [a] '''', ?r) (n' @ '':'' @ v @ [CR, LF] @ cs)"
    unfolding n(1) append_Cons by (rule parse_loop_Cons [OF 1])
  also have "\<dots> = parse_loop B (?p header_name n '''', ?r) ('':'' @ v @ [CR, LF] @ cs)"
    by (simp add: read_name [OF n(3)] n(1))
  also have "\<dots> = parse_loop B (?p header_value n '''', ?r) (v @ [CR, LF] @ cs)"
    by (simp add: consume_def Let_def)
  also have "\<dots> = parse_loop B (?p header_value n ?v, ?r) ([CR, LF] @ cs)"
    by (simp add: read_value [OF assms(2)])
  also have "\<dots> = parse_loop B (?p header_line_start n ?v, ?r) cs"
    by (simp add: consume_def expect_def Let_def)
  finally show ?thesis .
qed

lemma read_all_headers:
  assumes "\<forall>(n, v) \<in> set hs. is_token n \<and> printable v"
  shows "parse_loop B (\<lparr>state = header_line_start, current_header = h, selected_compression = c\<rparr>, r)
      (concat (map (\<lambda>(n, v). n @ '':'' @ v @ [CR, LF]) hs) @ [CR, LF]) =
    (let (c', r') = read_headers B hs (select_compression B h c, store_header B h r);
         h' = (if hs = [] then h else \<lparr>hname = fst (last hs), hvalue = filter (\<lambda>c. c \<noteq> CHR '' '') (snd (last hs))\<rparr>)
     in (valid, (\<lparr>state = expecting_newline_3, current_header = h', selected_compression = c'\<rparr>, r')))"
  using assms
proof (induction hs arbitrary: h c r)
  case Nil
  then show ?case by (simp add: consume_def Let_def read_headers_def)
next
  case (Cons nv hs)
  obtain n v where nv: "nv = (n, v)" by fastforce
  have ok: "is_token n" "printable v" using Cons.prems nv by auto
  have rest: "\<forall>(n, v) \<in> set hs. is_token n \<and> printable v" using Cons.prems by simp
  have split: "concat (map (\<lambda>(n, v). n @ '':'' @ v @ [CR, LF]) (nv # hs)) @ [CR, LF] =
      n @ '':'' @ v @ [CR, LF] @ (concat (map (\<lambda>(n, v). n @ '':'' @ v @ [CR, LF]) hs) @ [CR, LF])"
    by (simp add: nv)
  show ?case
    unfolding split read_header [OF ok] Cons.IH [OF rest]
    by (simp add: nv read_headers_def Let_def)
qed



end
