(* ===== verification/MultiLevelPartition.thy ===== *)
theory MultiLevelPartition
  imports "HOL-Library.Word" "HOL-Library.Log_Nat" "HOL-Library.Sublist" OSRM_Prelude
begin

text \<open>
  The multi-level partition, \<^verbatim>\<open>include/partitioner/multi_level_partition.hpp\<close> with
  \<^verbatim>\<open>include/util/msb.hpp\<close>: the cell of a node on every level, packed into one 64-bit word.

  The arrays of \<^verbatim>\<open>LevelData\<close> are not initialised by the code; what they hold before is the
  argument \<open>junk\<close>.  Serialisation and the view variant are not modelled.
\<close>

unbundle bit_operations_syntax

section \<open>Data\<close>

type_synonym PartitionID = "64 word"
type_synonym LevelID = nat

definition MAX_NUM_LEVEL :: nat where "MAX_NUM_LEVEL = 16"
definition NUM_PARTITION_BITS :: nat where "NUM_PARTITION_BITS = 64"

record LevelData =
  num_level :: nat
  lidx_to_offset :: "nat list"
  lidx_to_mask :: "PartitionID list"
  bit_to_level :: "LevelID list"
  lidx_to_children_offsets :: "nat list"

record MultiLevelPartition =
  level_data :: LevelData
  partition :: "PartitionID list"
  cell_to_children :: "CellID list"

datatype partition_error = CannotPack nat nat

text \<open>\<^verbatim>\<open>util::msb\<close>: the index of the highest set bit of a value that is not zero.\<close>

definition util_msb :: "'a::len word \<Rightarrow> nat" where
  "util_msb v = floorlog 2 (unat v) - 1"

section \<open>Layout of the levels\<close>

text \<open>\<^verbatim>\<open>std::ceil(std::log2(num_cells + 1))\<close>: the bits needed for the numbers up to
  \<^verbatim>\<open>num_cells\<close>.\<close>

definition level_bits :: "nat \<Rightarrow> nat" where
  "level_bits num_cells = floorlog 2 num_cells"

fun offsets_loop :: "nat list \<Rightarrow> nat \<Rightarrow> nat \<Rightarrow> nat list \<Rightarrow> partition_error + nat \<times> nat \<times> nat list" where
  "offsets_loop [] lidx sum_bits offsets = Inr (lidx, sum_bits, offsets)"
| "offsets_loop (num_cells # cells) lidx sum_bits offsets =
     (let offsets' = offsets[lidx := sum_bits];
          sum_bits' = sum_bits + level_bits num_cells
      in if sum_bits' > NUM_PARTITION_BITS then Inl (CannotPack (Suc lidx) sum_bits')
         else offsets_loop cells (Suc lidx) sum_bits' offsets')"

definition MakeLevelOffsets :: "LevelData \<Rightarrow> nat list \<Rightarrow> partition_error + nat list" where
  "MakeLevelOffsets junk lidx_to_num_cells =
     (case offsets_loop lidx_to_num_cells 0 0 (lidx_to_offset junk) of
        Inl e \<Rightarrow> Inl e
      | Inr (lidx, sum_bits, offsets) \<Rightarrow> Inr (offsets[lidx := sum_bits]))"

definition level_mask :: "nat \<Rightarrow> nat \<Rightarrow> PartitionID" where
  "level_mask offset next_offset =
     (let m = push_bit offset 1 - 1;
          next_mask = (if next_offset = NUM_PARTITION_BITS then - 1 else push_bit next_offset 1 - 1)
      in next_mask XOR m)"

definition MakeLevelMasks :: "LevelData \<Rightarrow> nat list \<Rightarrow> nat \<Rightarrow> PartitionID list" where
  "MakeLevelMasks junk level_offsets levels =
     foldl (\<lambda>masks lidx. masks[lidx := level_mask (level_offsets ! lidx) (level_offsets ! Suc lidx)])
       (lidx_to_mask junk) [0..<levels - 1]"

definition MakeBitToLevel :: "LevelData \<Rightarrow> nat list \<Rightarrow> nat \<Rightarrow> LevelID list" where
  "MakeBitToLevel junk level_offsets levels =
     foldl (\<lambda>b2l l. foldl (\<lambda>b2l idx. b2l[idx := l]) b2l
         [level_offsets ! (l - 1)..<NUM_PARTITION_BITS])
       (bit_to_level junk) [1..<levels]"

definition MakeLevelData :: "LevelData \<Rightarrow> nat list \<Rightarrow> partition_error + LevelData" where
  "MakeLevelData junk lidx_to_num_cells =
     (let levels = length lidx_to_num_cells + 1
      in (case MakeLevelOffsets junk lidx_to_num_cells of
            Inl e \<Rightarrow> Inl e
          | Inr offsets \<Rightarrow>
              Inr \<lparr>num_level = levels, lidx_to_offset = offsets,
                   lidx_to_mask = MakeLevelMasks junk offsets levels,
                   bit_to_level = MakeBitToLevel junk offsets levels,
                   lidx_to_children_offsets = replicate (MAX_NUM_LEVEL - 1) 0\<rparr>))"

section \<open>Queries and updates\<close>

definition LevelIDToIndex :: "LevelID \<Rightarrow> nat" where
  "LevelIDToIndex l = l - 1"

definition GetCell :: "MultiLevelPartition \<Rightarrow> LevelID \<Rightarrow> NodeID \<Rightarrow> CellID" where
  "GetCell mlp l node =
     (let p = partition mlp ! node;
          lidx = LevelIDToIndex l;
          masked = p AND lidx_to_mask (level_data mlp) ! lidx
      in unat (drop_bit (lidx_to_offset (level_data mlp) ! lidx) masked) mod 2 ^ 32)"

definition SetCellID :: "MultiLevelPartition \<Rightarrow> LevelID \<Rightarrow> NodeID \<Rightarrow> CellID \<Rightarrow> MultiLevelPartition" where
  "SetCellID mlp l node cell_id =
     (let lidx = LevelIDToIndex l;
          shifted_id = push_bit (lidx_to_offset (level_data mlp) ! lidx) (of_nat cell_id) :: PartitionID;
          cleared_cell = partition mlp ! node AND NOT (lidx_to_mask (level_data mlp) ! lidx)
      in mlp\<lparr>partition := (partition mlp)[node := cleared_cell OR shifted_id]\<rparr>)"

definition GetHighestDifferentLevel :: "MultiLevelPartition \<Rightarrow> NodeID \<Rightarrow> NodeID \<Rightarrow> LevelID" where
  "GetHighestDifferentLevel mlp first second =
     (if partition mlp ! first = partition mlp ! second then 0
      else bit_to_level (level_data mlp) ! util_msb (partition mlp ! first XOR partition mlp ! second))"

definition GetQueryLevel :: "MultiLevelPartition \<Rightarrow> NodeID \<Rightarrow> NodeID \<Rightarrow> NodeID \<Rightarrow> LevelID" where
  "GetQueryLevel mlp start target node =
     min (GetHighestDifferentLevel mlp start node) (GetHighestDifferentLevel mlp target node)"

definition GetNumberOfLevels :: "MultiLevelPartition \<Rightarrow> nat" where
  "GetNumberOfLevels mlp = num_level (level_data mlp) mod 256"

definition GetSentinelNode :: "MultiLevelPartition \<Rightarrow> NodeID" where
  "GetSentinelNode mlp = length (partition mlp) - 1"

definition GetNumberOfCells :: "MultiLevelPartition \<Rightarrow> LevelID \<Rightarrow> nat" where
  "GetNumberOfCells mlp level = GetCell mlp level (GetSentinelNode mlp)"

definition BeginChildren :: "MultiLevelPartition \<Rightarrow> LevelID \<Rightarrow> CellID \<Rightarrow> CellID" where
  "BeginChildren mlp level cell =
     cell_to_children mlp ! (lidx_to_children_offsets (level_data mlp) ! LevelIDToIndex level + cell)"

definition EndChildren :: "MultiLevelPartition \<Rightarrow> LevelID \<Rightarrow> CellID \<Rightarrow> CellID" where
  "EndChildren mlp level cell =
     cell_to_children mlp ! (lidx_to_children_offsets (level_data mlp) ! LevelIDToIndex level + cell + 1)"

section \<open>Numbering the cells\<close>

definition sort_nodes :: "CellID list list \<Rightarrow> NodeID list \<Rightarrow> NodeID list" where
  "sort_nodes partitions permutation =
     foldl (\<lambda>perm part. sort_key ((!) part) perm) permutation partitions"

fun assign_cells ::
  "CellID list \<Rightarrow> LevelID \<Rightarrow> NodeID list \<Rightarrow> CellID \<Rightarrow> CellID \<Rightarrow> MultiLevelPartition \<Rightarrow>
   CellID \<times> MultiLevelPartition" where
  "assign_cells part level [] last_cell_id cell_id mlp = (cell_id, mlp)"
| "assign_cells part level (node # nodes) last_cell_id cell_id mlp =
     (let (last', id') = (if last_cell_id \<noteq> part ! node then (part ! node, cell_id + 1)
                          else (last_cell_id, cell_id))
      in assign_cells part level nodes last' id' (SetCellID mlp level node id'))"

fun assign_levels ::
  "NodeID list \<Rightarrow> NodeID \<Rightarrow> CellID list list \<Rightarrow> LevelID \<Rightarrow> MultiLevelPartition \<Rightarrow> MultiLevelPartition" where
  "assign_levels permutation sentinel [] level mlp = mlp"
| "assign_levels permutation sentinel (part # parts) level mlp =
     (let (cell_id, mlp') = assign_cells part level permutation (part ! hd permutation) 0 mlp
      in assign_levels permutation sentinel parts (level - 1)
           (SetCellID mlp' level sentinel (cell_id + 1)))"

fun push_children ::
  "CellID list \<Rightarrow> LevelID \<Rightarrow> NodeID list \<Rightarrow> CellID \<Rightarrow> MultiLevelPartition \<Rightarrow> CellID list \<Rightarrow> CellID list" where
  "push_children parent level [] last_parent_id mlp children = children"
| "push_children parent level (node # nodes) last_parent_id mlp children =
     (if last_parent_id \<noteq> parent ! node
      then push_children parent level nodes (parent ! node) mlp (children @ [GetCell mlp level node])
      else push_children parent level nodes last_parent_id mlp children)"

definition children_level ::
  "CellID list list \<Rightarrow> NodeID list \<Rightarrow> MultiLevelPartition \<Rightarrow> nat \<Rightarrow> MultiLevelPartition" where
  "children_level partitions permutation mlp level_idx =
     (let parent = partitions ! (level_idx + 1);
          ld = level_data mlp;
          offsets = (lidx_to_children_offsets ld)[level_idx + 1 := length (cell_to_children mlp)];
          c1 = cell_to_children mlp @ [GetCell mlp (level_idx + 1) (hd permutation)];
          c2 = push_children parent (level_idx + 1) permutation (parent ! hd permutation) mlp c1;
          c3 = c2 @ [GetCell mlp (level_idx + 1) (last permutation) + 1]
      in mlp\<lparr>level_data := ld\<lparr>lidx_to_children_offsets := offsets\<rparr>, cell_to_children := c3\<rparr>)"

definition InitializePartitionIDs ::
  "CellID list list \<Rightarrow> MultiLevelPartition \<Rightarrow> MultiLevelPartition" where
  "InitializePartitionIDs partitions mlp =
     (let num_nodes = length (hd partitions);
          mlp0 = mlp\<lparr>partition := take (num_nodes + 1) (partition mlp) @
                   replicate (num_nodes + 1 - length (partition mlp)) 0\<rparr>;
          permutation = sort_nodes partitions [0..<num_nodes];
          mlp1 = assign_levels permutation num_nodes (rev partitions) (length partitions) mlp0;
          ld = level_data mlp1;
          mlp2 = mlp1\<lparr>level_data := ld\<lparr>lidx_to_children_offsets :=
                   (lidx_to_children_offsets ld)[0 := 0]\<rparr>\<rparr>
      in foldl (children_level partitions permutation) mlp2 [0..<length partitions - 1])"

definition MultiLevelPartition_init ::
  "LevelData \<Rightarrow> CellID list list \<Rightarrow> nat list \<Rightarrow> partition_error + MultiLevelPartition" where
  "MultiLevelPartition_init junk partitions lidx_to_num_cells =
     (case MakeLevelData junk lidx_to_num_cells of
        Inl e \<Rightarrow> Inl e
      | Inr ld \<Rightarrow> Inr (InitializePartitionIDs partitions
          \<lparr>level_data = ld, partition = [], cell_to_children = []\<rparr>))"

section \<open>The layout\<close>

lemma level_bits_log: "level_bits n = nat \<lceil>log 2 (real (n + 1))\<rceil>"
proof (cases "n = 0")
  case False
  let ?w = "floorlog 2 n"
  have b: "2 ^ (?w - 1) \<le> n" "n < 2 ^ ?w" using floorlog_bounds [of n 2] False by auto
  have w: "0 < ?w" using False by (simp add: floorlog_def)
  have "\<lceil>log 2 (real (n + 1))\<rceil> = int ?w"
  proof (rule ceiling_unique)
    have "real (n + 1) > 2 ^ (?w - 1)" using b(1) by (metis Suc_eq_plus1 le_imp_less_Suc of_nat_less_iff of_nat_numeral of_nat_power)
    then have "log 2 (real (n + 1)) > real (?w - 1)"
      by (metis less_log_of_power one_less_numeral_iff semiring_norm(76))
    then show "real_of_int (int ?w) - 1 < log 2 (real (n + 1))" using w by (simp add: of_nat_diff)
    have "real (n + 1) \<le> 2 ^ ?w" using b(2) by (metis Suc_eq_plus1 Suc_leI of_nat_le_iff of_nat_numeral of_nat_power)
    then show "log 2 (real (n + 1)) \<le> real_of_int (int ?w)"
      by (simp add: log_le_iff powr_realpow)
  qed
  then show ?thesis by (simp add: level_bits_def)
qed (simp add: level_bits_def floorlog_def)

lemma level_bits_less: "n < 2 ^ level_bits n"
  using floorlog_leD [of 2 n "level_bits n"] by (simp add: level_bits_def)

text \<open>Where the bits of the level with index \<open>k\<close> start.\<close>

definition bits_before :: "nat list \<Rightarrow> nat \<Rightarrow> nat" where
  "bits_before cells k = sum_list (map level_bits (take k cells))"

lemma bits_before_Suc: "k < length cells \<Longrightarrow> bits_before cells (Suc k) = bits_before cells k + level_bits (cells ! k)"
  by (simp add: bits_before_def take_Suc_conv_app_nth)

lemma bits_before_mono:
  assumes "i \<le> j" "j \<le> length cells"
  shows "bits_before cells i \<le> bits_before cells j"
  using assms by (induction j) (auto simp: le_Suc_eq bits_before_Suc)

lemma offsets_loop_spec:
  "length offs = L \<Longrightarrow> lidx + length cells < L \<Longrightarrow>
   (case offsets_loop cells lidx s offs of
      Inl e \<Rightarrow> s + sum_list (map level_bits cells) > NUM_PARTITION_BITS
    | Inr (l, t, offs') \<Rightarrow> l = lidx + length cells \<and> t = s + sum_list (map level_bits cells) \<and>
        (cells \<noteq> [] \<longrightarrow> t \<le> NUM_PARTITION_BITS) \<and> length offs' = L \<and>
        (\<forall>k < length cells. offs' ! (lidx + k) = s + bits_before cells k) \<and>
        (\<forall>k < lidx. offs' ! k = offs ! k))"
proof (induction cells lidx s offs rule: offsets_loop.induct)
  case (2 n cells lidx s offs)
  show ?case
  proof (cases "s + level_bits n > NUM_PARTITION_BITS")
    case True
    then show ?thesis by (simp add: Let_def)
  next
    case False
    let ?offs = "offs[lidx := s]"
    have ih: "case offsets_loop cells (Suc lidx) (s + level_bits n) ?offs of
        Inl e \<Rightarrow> s + level_bits n + sum_list (map level_bits cells) > NUM_PARTITION_BITS
      | Inr (l, t, offs') \<Rightarrow> l = Suc lidx + length cells \<and> t = s + level_bits n + sum_list (map level_bits cells) \<and>
          (cells \<noteq> [] \<longrightarrow> t \<le> NUM_PARTITION_BITS) \<and> length offs' = L \<and>
          (\<forall>k < length cells. offs' ! (Suc lidx + k) = s + level_bits n + bits_before cells k) \<and>
          (\<forall>k < Suc lidx. offs' ! k = ?offs ! k)"
      using "2.IH" [OF refl refl False] "2.prems" by simp
    have b: "bits_before (n # cells) 0 = 0" "bits_before (n # cells) (Suc k) = level_bits n + bits_before cells k" for k
      by (simp_all add: bits_before_def)
    show ?thesis
    proof (cases "offsets_loop cells (Suc lidx) (s + level_bits n) ?offs")
      case (Inl e)
      with ih False show ?thesis by (simp add: Let_def add.assoc)
    next
      case (Inr x)
      then obtain l t offs' where x: "offsets_loop cells (Suc lidx) (s + level_bits n) ?offs = Inr (l, t, offs')"
        by (cases x) auto
      with ih have h: "l = Suc lidx + length cells" "t = s + level_bits n + sum_list (map level_bits cells)"
        "cells \<noteq> [] \<longrightarrow> t \<le> NUM_PARTITION_BITS" "length offs' = L"
        "\<forall>k < length cells. offs' ! (Suc lidx + k) = s + level_bits n + bits_before cells k"
        "\<forall>k < Suc lidx. offs' ! k = ?offs ! k" by auto
      have first: "offs' ! lidx = s" using h(6) "2.prems" by simp
      have "offs' ! (lidx + k) = s + bits_before (n # cells) k" if "k < length (n # cells)" for k
        using h(5) first that by (cases k) (auto simp: b)
      then have nth: "\<forall>k < length (n # cells). offs' ! (lidx + k) = s + bits_before (n # cells) k" by blast
      have tb: "t \<le> NUM_PARTITION_BITS" using h(2,3) False by (cases "cells = []") simp_all
      have low: "\<forall>k < lidx. offs' ! k = offs ! k" using h(6) by simp
      have "offsets_loop (n # cells) lidx s offs = Inr (l, t, offs')" using False x by (simp add: Let_def)
      then show ?thesis using nth tb low h(1,2,4) by (simp add: add.assoc)
    qed
  qed
qed simp

lemma level_mask_bit:
  assumes "a \<le> b" "b \<le> NUM_PARTITION_BITS"
  shows "bit (level_mask a b) i \<longleftrightarrow> a \<le> i \<and> i < b"
proof -
  have m: "(push_bit k 1 - 1 :: PartitionID) = mask k" for k
    by (simp add: mask_eq_exp_minus_1)
  have full: "(- 1 :: PartitionID) = mask NUM_PARTITION_BITS"
    by (rule bit_word_eqI) (simp add: bit_mask_iff NUM_PARTITION_BITS_def)
  have "level_mask a b = mask b XOR mask a"
    unfolding level_mask_def Let_def m full using assms(2) by simp
  then show ?thesis
    using assms by (auto simp: bit_xor_iff bit_mask_iff NUM_PARTITION_BITS_def possible_bit_word)
qed

text \<open>A foldl of list updates at distinct positions.\<close>

lemma foldl_update_upt:
  "length (foldl (\<lambda>xs i. xs[i := f i]) xs [a..<b]) = length xs \<and>
   (\<forall>j < length xs. foldl (\<lambda>xs i. xs[i := f i]) xs [a..<b] ! j = (if a \<le> j \<and> j < b then f j else xs ! j))"
proof (induction b)
  case (Suc b)
  then show ?case by (cases "a \<le> b") (auto simp: nth_list_update less_Suc_eq)
qed simp

lemma bit_to_level_spec:
  assumes "length (bit_to_level junk) = NUM_PARTITION_BITS"
    and "\<forall>l. 1 \<le> l \<longrightarrow> l < levels \<longrightarrow> offs ! (l - 1) = bits_before cells (l - 1)" "levels = length cells + 1"
  shows "n \<le> levels \<Longrightarrow> length (foldl (\<lambda>b2l l. foldl (\<lambda>b2l idx. b2l[idx := l]) b2l
         [offs ! (l - 1)..<NUM_PARTITION_BITS]) (bit_to_level junk) [1..<n]) = NUM_PARTITION_BITS \<and>
    (\<forall>i < NUM_PARTITION_BITS. \<forall>l. 1 \<le> l \<longrightarrow> l < n \<longrightarrow> bits_before cells (l - 1) \<le> i \<longrightarrow>
       (l + 1 < n \<longrightarrow> i < bits_before cells l) \<longrightarrow>
       foldl (\<lambda>b2l l. foldl (\<lambda>b2l idx. b2l[idx := l]) b2l
         [offs ! (l - 1)..<NUM_PARTITION_BITS]) (bit_to_level junk) [1..<n] ! i = l)"
proof (induction n)
  case (Suc n)
  show ?case
  proof (cases "1 \<le> n")
    case False
    then show ?thesis using assms(1) by (auto simp: le_Suc_eq)
  next
    case True
    let ?f = "\<lambda>b2l l. foldl (\<lambda>b2l idx. b2l[idx := l]) b2l [offs ! (l - 1)..<NUM_PARTITION_BITS]"
    let ?xs = "foldl ?f (bit_to_level junk) [1..<n]"
    have ih: "length ?xs = NUM_PARTITION_BITS"
      "\<forall>i < NUM_PARTITION_BITS. \<forall>l. 1 \<le> l \<longrightarrow> l < n \<longrightarrow> bits_before cells (l - 1) \<le> i \<longrightarrow>
         (l + 1 < n \<longrightarrow> i < bits_before cells l) \<longrightarrow> ?xs ! i = l"
      using Suc by simp_all
    have step: "foldl ?f (bit_to_level junk) [1..<Suc n] = ?f ?xs n" using True by simp
    have off: "offs ! (n - 1) = bits_before cells (n - 1)" using assms(2) True Suc.prems by simp
    have u: "length (?f ?xs n) = NUM_PARTITION_BITS"
      "\<And>i. i < NUM_PARTITION_BITS \<Longrightarrow> ?f ?xs n ! i = (if bits_before cells (n - 1) \<le> i then n else ?xs ! i)"
      using foldl_update_upt [of "\<lambda>_. n" ?xs "offs ! (n - 1)" NUM_PARTITION_BITS] ih(1)
      unfolding off by simp_all
    have "?f ?xs n ! i = l" if i: "i < NUM_PARTITION_BITS" and l: "1 \<le> l" "l < Suc n"
      "bits_before cells (l - 1) \<le> i" "l + 1 < Suc n \<longrightarrow> i < bits_before cells l" for i l
    proof (cases "l = n")
      case True
      with u(2) [OF i] l(3) show ?thesis by simp
    next
      case False
      then have ln: "l < n" using l(2) by simp
      then have "bits_before cells l \<le> bits_before cells (n - 1)"
        using Suc.prems assms(3) by (intro bits_before_mono) auto
      moreover have "i < bits_before cells l" using l(4) ln by simp
      ultimately have "?f ?xs n ! i = ?xs ! i" using u(2) [OF i] by simp
      also have "\<dots> = l" using ih(2) i l ln by simp
      finally show ?thesis .
    qed
    then show ?thesis using u(1) unfolding step by blast
  qed
qed (simp add: assms)

text \<open>What a well-made \<^verbatim>\<open>LevelData\<close> for given cell counts is.\<close>

definition layout_ok :: "nat list \<Rightarrow> LevelData \<Rightarrow> bool" where
  "layout_ok cells ld \<longleftrightarrow> bits_before cells (length cells) \<le> NUM_PARTITION_BITS \<and>
     num_level ld = length cells + 1 \<and>
     (\<forall>k \<le> length cells. lidx_to_offset ld ! k = bits_before cells k) \<and>
     (\<forall>k < length cells. \<forall>i. bit (lidx_to_mask ld ! k) i \<longleftrightarrow>
        bits_before cells k \<le> i \<and> i < bits_before cells (Suc k)) \<and>
     (\<forall>l i. 1 \<le> l \<longrightarrow> l \<le> length cells \<longrightarrow> bits_before cells (l - 1) \<le> i \<longrightarrow>
        i < bits_before cells l \<longrightarrow> bit_to_level ld ! i = l)"

definition junk_ok :: "LevelData \<Rightarrow> bool" where
  "junk_ok junk \<longleftrightarrow> length (lidx_to_offset junk) = MAX_NUM_LEVEL - 1 \<and>
     length (lidx_to_mask junk) = MAX_NUM_LEVEL - 1 \<and> length (bit_to_level junk) = NUM_PARTITION_BITS"

lemma MakeLevelData_spec:
  assumes junk: "junk_ok junk" and n: "cells \<noteq> []" "length cells < MAX_NUM_LEVEL - 1"
  shows "case MakeLevelData junk cells of
      Inl e \<Rightarrow> bits_before cells (length cells) > NUM_PARTITION_BITS
    | Inr ld \<Rightarrow> layout_ok cells ld"
proof -
  have all: "bits_before cells (length cells) = sum_list (map level_bits cells)" by (simp add: bits_before_def)
  have o: "length (lidx_to_offset junk) = MAX_NUM_LEVEL - 1" "length (lidx_to_mask junk) = MAX_NUM_LEVEL - 1"
    "length (bit_to_level junk) = NUM_PARTITION_BITS"
    using junk by (simp_all add: junk_ok_def)
  note loop = offsets_loop_spec [OF o(1), of 0 cells 0]
  show ?thesis
  proof (cases "offsets_loop cells 0 0 (lidx_to_offset junk)")
    case (Inl e)
    then show ?thesis using loop n by (simp add: MakeLevelData_def MakeLevelOffsets_def all)
  next
    case (Inr x)
    then obtain l t offs where x: "offsets_loop cells 0 0 (lidx_to_offset junk) = Inr (l, t, offs)"
      by (cases x) auto
    with loop n have h: "l = length cells" "t = bits_before cells (length cells)" "t \<le> NUM_PARTITION_BITS"
      "length offs = MAX_NUM_LEVEL - 1" "\<forall>k < length cells. offs ! k = bits_before cells k"
      by (auto simp: all)
    let ?offs = "offs[l := t]" and ?n = "length cells + 1"
    have offs: "?offs ! k = bits_before cells k" if "k \<le> length cells" for k
      using h n that by (cases "k = length cells") auto
    have md: "MakeLevelData junk cells = Inr \<lparr>num_level = ?n, lidx_to_offset = ?offs,
        lidx_to_mask = MakeLevelMasks junk ?offs ?n, bit_to_level = MakeBitToLevel junk ?offs ?n,
        lidx_to_children_offsets = replicate (MAX_NUM_LEVEL - 1) 0\<rparr>"
      by (simp add: MakeLevelData_def MakeLevelOffsets_def x)
    have "bit (MakeLevelMasks junk ?offs ?n ! k) i \<longleftrightarrow> bits_before cells k \<le> i \<and> i < bits_before cells (Suc k)"
      if k: "k < length cells" for k i
    proof -
      have "MakeLevelMasks junk ?offs ?n ! k = level_mask (?offs ! k) (?offs ! Suc k)"
        using foldl_update_upt [of "\<lambda>lidx. level_mask (?offs ! lidx) (?offs ! Suc lidx)"
            "lidx_to_mask junk" 0 "length cells"] k n o(2)
        by (simp add: MakeLevelMasks_def)
      also have "\<dots> = level_mask (bits_before cells k) (bits_before cells (Suc k))"
        using offs [of k] offs [of "Suc k"] k by simp
      finally show ?thesis
        using level_mask_bit [of "bits_before cells k" "bits_before cells (Suc k)" i]
          bits_before_mono [of k "Suc k" cells] bits_before_mono [of "Suc k" "length cells" cells] k h(2,3)
        by simp
    qed
    moreover have "MakeBitToLevel junk ?offs ?n ! i = l'"
      if l': "1 \<le> l'" "l' \<le> length cells" "bits_before cells (l' - 1) \<le> i" "i < bits_before cells l'" for l' i
    proof -
      have "i < NUM_PARTITION_BITS"
        using l'(2,4) bits_before_mono [of l' "length cells" cells] h(2,3) by simp
      with bit_to_level_spec [OF o(3), of ?n ?offs cells ?n] offs l' show ?thesis
        by (simp add: MakeBitToLevel_def)
    qed
    ultimately show ?thesis
      using offs h(2,3) by (simp add: md layout_ok_def)
  qed
qed


definition example_junk :: LevelData where
  "example_junk = \<lparr>num_level = 0, lidx_to_offset = replicate 15 7, lidx_to_mask = replicate 15 3,
     bit_to_level = replicate 64 9, lidx_to_children_offsets = []\<rparr>"

lemma example_junk_ok: "junk_ok example_junk"
  by (simp add: junk_ok_def example_junk_def MAX_NUM_LEVEL_def NUM_PARTITION_BITS_def)

lemma level_bits_example: "level_bits 4 = 3" "level_bits 2 = 2"
  by (simp_all add: level_bits_def compute_floorlog)

definition example_level_data :: LevelData where
  "example_level_data = (case MakeLevelData example_junk [4, 2] of Inr ld \<Rightarrow> ld | Inl e \<Rightarrow> example_junk)"

lemma example_layout: "layout_ok [4, 2] example_level_data" "MakeLevelData example_junk [4, 2] = Inr example_level_data"
proof -
  have "case MakeLevelData example_junk [4, 2] of
      Inl e \<Rightarrow> bits_before [4, 2] (length [4, 2::nat]) > NUM_PARTITION_BITS
    | Inr ld \<Rightarrow> layout_ok [4, 2] ld"
    by (rule MakeLevelData_spec) (simp_all add: example_junk_ok MAX_NUM_LEVEL_def)
  then show "layout_ok [4, 2] example_level_data" "MakeLevelData example_junk [4, 2] = Inr example_level_data"
    by (auto simp: example_level_data_def bits_before_def level_bits_example NUM_PARTITION_BITS_def
        split: sum.splits)
qed


section \<open>Reading and writing cells\<close>

definition level_ok :: "nat list \<Rightarrow> LevelID \<Rightarrow> bool" where
  "level_ok cells l \<longleftrightarrow> 1 \<le> l \<and> l \<le> length cells"

lemma bit_of_nat_less:
  assumes "c < 2 ^ b" "bit (of_nat c :: 64 word) i"
  shows "i < b"
proof -
  have "bit c i" using assms(2) by (simp add: bit_simps)
  moreover have "take_bit b c = c" using assms(1) by (simp add: take_bit_nat_eq_self)
  ultimately show ?thesis by (metis bit_take_bit_iff)
qed

lemma SetCellID_bits:
  assumes ok: "layout_ok cells (level_data mlp)" and l: "level_ok cells l"
    and c: "c < 2 ^ level_bits (cells ! (l - 1))" and n: "node < length (partition mlp)"
  shows "bit (partition (SetCellID mlp l node c) ! node) i \<longleftrightarrow>
    (if bits_before cells (l - 1) \<le> i \<and> i < bits_before cells l
     then bit (of_nat c :: PartitionID) (i - bits_before cells (l - 1)) else bit (partition mlp ! node) i)"
proof -
  let ?o = "bits_before cells (l - 1)" and ?m = "lidx_to_mask (level_data mlp) ! (l - 1)"
  have k: "l - 1 < length cells" "Suc (l - 1) = l" using l by (auto simp: level_ok_def)
  then have off: "lidx_to_offset (level_data mlp) ! (l - 1) = ?o"
    and mk: "bit ?m i \<longleftrightarrow> ?o \<le> i \<and> i < bits_before cells l"
    using ok by (auto simp: layout_ok_def)
  have e: "bits_before cells l = ?o + level_bits (cells ! (l - 1))" using bits_before_Suc [OF k(1)] k(2) by simp
  have tot: "bits_before cells l \<le> 64"
    using ok bits_before_mono [of l "length cells" cells] k by (simp add: layout_ok_def NUM_PARTITION_BITS_def)
  have new: "partition (SetCellID mlp l node c) ! node =
      (partition mlp ! node AND NOT ?m) OR push_bit ?o (of_nat c)"
    using n off by (simp add: SetCellID_def Let_def LevelIDToIndex_def)
  have "bit (push_bit ?o (of_nat c :: PartitionID)) i \<longleftrightarrow> ?o \<le> i \<and> i < 64 \<and> bit (of_nat c :: PartitionID) (i - ?o)"
    by (auto simp: bit_push_bit_iff possible_bit_word)
  moreover have "i < bits_before cells l" if "?o \<le> i" "bit (of_nat c :: PartitionID) (i - ?o)"
    using bit_of_nat_less [OF c that(2)] that(1) e by simp
  moreover have "i < 64" if "bit (partition mlp ! node) i" using that bit_imp_le_length by force
  ultimately show ?thesis
    using mk tot unfolding new by (auto simp: bit_or_iff bit_and_iff bit_not_iff possible_bit_word)
qed

lemma GetCell_bits:
  assumes ok: "layout_ok cells (level_data mlp)" "layout_ok cells (level_data mlp')" and l: "level_ok cells l"
    and same: "\<And>i. bits_before cells (l - 1) \<le> i \<Longrightarrow> i < bits_before cells l \<Longrightarrow>
      bit (partition mlp ! n) i = bit (partition mlp' ! m) i"
  shows "GetCell mlp l n = GetCell mlp' l m"
proof -
  have k: "l - 1 < length cells" "Suc (l - 1) = l" using l by (auto simp: level_ok_def)
  then have "lidx_to_offset (level_data mlp) ! (l - 1) = lidx_to_offset (level_data mlp') ! (l - 1)"
    and mk: "bit (lidx_to_mask (level_data mlp) ! (l - 1)) i \<longleftrightarrow> bits_before cells (l - 1) \<le> i \<and> i < bits_before cells l"
    "bit (lidx_to_mask (level_data mlp') ! (l - 1)) i \<longleftrightarrow> bits_before cells (l - 1) \<le> i \<and> i < bits_before cells l" for i
    using ok by (auto simp: layout_ok_def)
  moreover have "partition mlp ! n AND lidx_to_mask (level_data mlp) ! (l - 1) =
      partition mlp' ! m AND lidx_to_mask (level_data mlp') ! (l - 1)"
    by (rule bit_word_eqI) (use mk same in \<open>auto simp: bit_and_iff\<close>)
  ultimately show ?thesis by (simp only: GetCell_def Let_def LevelIDToIndex_def)
qed

lemma GetCell_word:
  assumes ok: "layout_ok cells (level_data mlp)" and l: "level_ok cells l"
  shows "bit (drop_bit (bits_before cells (l - 1)) (partition mlp ! n AND lidx_to_mask (level_data mlp) ! (l - 1))) j \<longleftrightarrow>
      bits_before cells (l - 1) + j < bits_before cells l \<and> bit (partition mlp ! n) (bits_before cells (l - 1) + j)"
    and "GetCell mlp l n = unat (drop_bit (bits_before cells (l - 1))
      (partition mlp ! n AND lidx_to_mask (level_data mlp) ! (l - 1))) mod 2 ^ 32"
proof -
  have k: "l - 1 < length cells" "Suc (l - 1) = l" using l by (auto simp: level_ok_def)
  then show "bit (drop_bit (bits_before cells (l - 1)) (partition mlp ! n AND lidx_to_mask (level_data mlp) ! (l - 1))) j \<longleftrightarrow>
      bits_before cells (l - 1) + j < bits_before cells l \<and> bit (partition mlp ! n) (bits_before cells (l - 1) + j)"
    using ok by (auto simp: layout_ok_def bit_drop_bit_eq bit_and_iff)
  show "GetCell mlp l n = unat (drop_bit (bits_before cells (l - 1))
      (partition mlp ! n AND lidx_to_mask (level_data mlp) ! (l - 1))) mod 2 ^ 32"
    using ok k by (simp add: GetCell_def Let_def LevelIDToIndex_def layout_ok_def)
qed

lemma SetCellID_frame [simp]:
  "level_data (SetCellID mlp l node c) = level_data mlp"
  "length (partition (SetCellID mlp l node c)) = length (partition mlp)"
  "cell_to_children (SetCellID mlp l node c) = cell_to_children mlp"
  "m \<noteq> node \<Longrightarrow> partition (SetCellID mlp l node c) ! m = partition mlp ! m"
  by (simp_all add: SetCellID_def Let_def)

lemma GetCell_SetCellID:
  assumes ok: "layout_ok cells (level_data mlp)" and l: "level_ok cells l"
    and c: "c < 2 ^ level_bits (cells ! (l - 1))" "c < 2 ^ 32" and n: "node < length (partition mlp)"
  shows "GetCell (SetCellID mlp l node c) l node = c"
    and "level_ok cells l' \<Longrightarrow> l' \<noteq> l \<or> m \<noteq> node \<Longrightarrow> GetCell (SetCellID mlp l node c) l' m = GetCell mlp l' m"
proof -
  let ?mlp = "SetCellID mlp l node c" and ?o = "bits_before cells (l - 1)"
  have k: "l - 1 < length cells" "Suc (l - 1) = l" using l by (auto simp: level_ok_def)
  have ok': "layout_ok cells (level_data ?mlp)" using ok by simp
  have e: "bits_before cells l = ?o + level_bits (cells ! (l - 1))" using bits_before_Suc [OF k(1)] k(2) by simp
  have tot: "bits_before cells l \<le> 64"
    using ok bits_before_mono [of l "length cells" cells] k by (simp add: layout_ok_def NUM_PARTITION_BITS_def)
  have "drop_bit ?o (partition ?mlp ! node AND lidx_to_mask (level_data ?mlp) ! (l - 1)) = of_nat c"
  proof (rule bit_word_eqI)
    fix j
    show "bit (drop_bit ?o (partition ?mlp ! node AND lidx_to_mask (level_data ?mlp) ! (l - 1))) j =
        bit (of_nat c :: PartitionID) j"
      unfolding GetCell_word(1) [OF ok' l] SetCellID_bits [OF ok l c(1) n]
      using bit_of_nat_less [OF c(1), of j] e by auto
  qed
  moreover have "unat (of_nat c :: PartitionID) = c"
    using c(2) by (simp add: unsigned_of_nat take_bit_nat_eq_self)
  ultimately show "GetCell ?mlp l node = c"
    using c(2) unfolding GetCell_word(2) [OF ok' l] by simp
  assume l': "level_ok cells l'" and diff: "l' \<noteq> l \<or> m \<noteq> node"
  show "GetCell ?mlp l' m = GetCell mlp l' m"
  proof (rule GetCell_bits [OF ok' ok l'])
    fix i assume i: "bits_before cells (l' - 1) \<le> i" "i < bits_before cells l'"
    show "bit (partition ?mlp ! m) i = bit (partition mlp ! m) i"
    proof (cases "m = node")
      case True
      with diff have "l' \<noteq> l" by simp
      moreover have "bits_before cells l' \<le> ?o" if "l' < l"
        using that k by (intro bits_before_mono) auto
      moreover have "bits_before cells l \<le> bits_before cells (l' - 1)" if "l < l'"
        using that l' by (intro bits_before_mono) (auto simp: level_ok_def)
      ultimately have "\<not> (?o \<le> i \<and> i < bits_before cells l)" using i by (cases "l' < l") auto
      then show ?thesis unfolding True SetCellID_bits [OF ok l c(1) n] by auto
    qed simp
  qed
qed

text \<open>
  Property C34. Cells are stored independently: a cell number that fits its level is read back
  from the level and node it was stored at, and every other level and node reads as before.
\<close>

theorem SetCellID_GetCell:
  assumes "layout_ok cells (level_data mlp)" "1 \<le> l" "l \<le> length cells"
    and "cell_id < 2 ^ level_bits (cells ! (l - 1))" "cell_id < 2 ^ 32" "node < length (partition mlp)"
  shows "GetCell (SetCellID mlp l node cell_id) l node = cell_id \<and>
    (\<forall>l' m. 1 \<le> l' \<longrightarrow> l' \<le> length cells \<longrightarrow> l' \<noteq> l \<or> m \<noteq> node \<longrightarrow>
       GetCell (SetCellID mlp l node cell_id) l' m = GetCell mlp l' m)"
  using GetCell_SetCellID [OF assms(1) _ assms(4-6)] assms(2,3) by (simp add: level_ok_def)

lemma SetCellID_GetCell_witness:
  "GetCell (SetCellID \<lparr>level_data = example_level_data, partition = [0, 0], cell_to_children = []\<rparr> 2 1 2) 2 1 = 2"
  using SetCellID_GetCell [of "[4, 2]" "\<lparr>level_data = example_level_data, partition = [0, 0], cell_to_children = []\<rparr>" 2 2 1]
    example_layout(1) by (simp add: level_bits_example)

section \<open>The highest level that separates two nodes\<close>

lemma util_msb_spec:
  fixes v :: "'a::len word"
  assumes "v \<noteq> 0"
  shows "bit v (util_msb v)" "util_msb v < LENGTH('a)" "\<And>i. bit v i \<Longrightarrow> i \<le> util_msb v"
proof -
  have pos: "0 < unat v" using assms by (simp add: unat_gt_0)
  let ?w = "floorlog 2 (unat v)"
  have b: "2 ^ (?w - 1) \<le> unat v" "unat v < 2 ^ ?w" using floorlog_bounds [OF pos, of 2] by simp_all
  have w: "0 < ?w" using pos by (simp add: floorlog_def)
  show up: "i \<le> util_msb v" if "bit v i" for i
  proof -
    have "bit (unat v) i" using that by (simp add: bit_unsigned_iff possible_bit_nat)
    moreover have "take_bit ?w (unat v) = unat v" using b(2) by (simp add: take_bit_nat_eq_self)
    ultimately have "i < ?w" by (metis bit_take_bit_iff)
    then show ?thesis by (simp add: util_msb_def)
  qed
  have "unat v < 2 * 2 ^ (?w - 1)" using b(2) w by (cases ?w) simp_all
  then have "unat v div 2 ^ (?w - 1) = 1"
    using b(1) by (simp add: div_nat_eqI)
  then have "bit (unat v) (?w - 1)" by (simp add: bit_iff_odd)
  then show "bit v (util_msb v)" by (simp add: util_msb_def bit_unsigned_iff)
  then show "util_msb v < LENGTH('a)" using bit_imp_le_length by force
qed


lemma unat_less_if_bits:
  fixes w :: "64 word"
  assumes "\<And>j. bit w j \<Longrightarrow> j < n"
  shows "unat w < 2 ^ n"
proof -
  have "take_bit n w = w" by (rule bit_word_eqI) (use assms in \<open>auto simp: bit_take_bit_iff\<close>)
  then have "take_bit n (unat w) = unat w" by (metis unsigned_take_bit_eq)
  then show ?thesis by (metis take_bit_nat_less_exp)
qed

lemma GetCell_eq_bits:
  assumes ok: "layout_ok cells (level_data mlp)" and l: "level_ok cells l" and c: "cells ! (l - 1) < 2 ^ 32"
  shows "GetCell mlp l n = GetCell mlp l m \<longleftrightarrow>
    (\<forall>i. bits_before cells (l - 1) \<le> i \<longrightarrow> i < bits_before cells l \<longrightarrow>
       bit (partition mlp ! n) i = bit (partition mlp ! m) i)"
proof
  let ?w = "\<lambda>n. drop_bit (bits_before cells (l - 1)) (partition mlp ! n AND lidx_to_mask (level_data mlp) ! (l - 1))"
  have k: "l - 1 < length cells" "Suc (l - 1) = l" using l by (auto simp: level_ok_def)
  have e: "bits_before cells l = bits_before cells (l - 1) + level_bits (cells ! (l - 1))"
    using bits_before_Suc [OF k(1)] k(2) by simp
  have "level_bits (cells ! (l - 1)) \<le> 32"
    using c floorlog_le_iff [of 2 "cells ! (l - 1)" 32] by (simp add: level_bits_def)
  then have "unat (?w n) < 2 ^ 32" for n
    using GetCell_word(1) [OF ok l] e by (intro unat_less_if_bits) auto
  then have val: "GetCell mlp l n = unat (?w n)" for n using GetCell_word(2) [OF ok l] by simp
  assume "GetCell mlp l n = GetCell mlp l m"
  then have eq: "?w n = ?w m" by (simp only: val word_unat_eq_iff)
  show "\<forall>i. bits_before cells (l - 1) \<le> i \<longrightarrow> i < bits_before cells l \<longrightarrow>
       bit (partition mlp ! n) i = bit (partition mlp ! m) i"
  proof (intro allI impI)
    fix i assume i: "bits_before cells (l - 1) \<le> i" "i < bits_before cells l"
    have "bit (?w n) (i - bits_before cells (l - 1)) = bit (?w m) (i - bits_before cells (l - 1))"
      by (simp only: eq)
    then show "bit (partition mlp ! n) i = bit (partition mlp ! m) i"
      unfolding GetCell_word(1) [OF ok l] using i by simp
  qed
next
  assume "\<forall>i. bits_before cells (l - 1) \<le> i \<longrightarrow> i < bits_before cells l \<longrightarrow>
       bit (partition mlp ! n) i = bit (partition mlp ! m) i"
  then show "GetCell mlp l n = GetCell mlp l m" using GetCell_bits [OF ok ok l] by blast
qed

text \<open>Every used bit belongs to one level.\<close>

lemma level_of_bit:
  "i < bits_before cells n \<Longrightarrow> n \<le> length cells \<Longrightarrow>
   \<exists>l. 1 \<le> l \<and> l \<le> n \<and> bits_before cells (l - 1) \<le> i \<and> i < bits_before cells l"
proof (induction n)
  case (Suc n)
  show ?case
  proof (cases "i < bits_before cells n")
    case True
    with Suc show ?thesis by (metis Suc_leD le_SucI)
  next
    case False
    with Suc.prems show ?thesis by (intro exI [of _ "Suc n"]) simp
  qed
qed (simp add: bits_before_def)

text \<open>The bits above the layout agree: what holds when \<^verbatim>\<open>SetCellID\<close> alone wrote the words.\<close>

definition same_spare_bits :: "nat list \<Rightarrow> MultiLevelPartition \<Rightarrow> NodeID \<Rightarrow> NodeID \<Rightarrow> bool" where
  "same_spare_bits cells mlp u v \<longleftrightarrow>
     drop_bit (bits_before cells (length cells)) (partition mlp ! u) =
     drop_bit (bits_before cells (length cells)) (partition mlp ! v)"

lemma HighestDifferentLevel_spec:
  assumes ok: "layout_ok cells (level_data mlp)" and spare: "same_spare_bits cells mlp u v"
    and c: "\<forall>k < length cells. cells ! k < 2 ^ 32"
  shows "GetHighestDifferentLevel mlp u v \<le> length cells \<and>
    (\<forall>l. GetHighestDifferentLevel mlp u v < l \<longrightarrow> l \<le> length cells \<longrightarrow> GetCell mlp l u = GetCell mlp l v) \<and>
    (GetHighestDifferentLevel mlp u v \<noteq> 0 \<longrightarrow>
      GetCell mlp (GetHighestDifferentLevel mlp u v) u \<noteq> GetCell mlp (GetHighestDifferentLevel mlp u v) v)"
proof (cases "partition mlp ! u = partition mlp ! v")
  case True
  then show ?thesis by (simp add: GetHighestDifferentLevel_def GetCell_def)
next
  case False
  let ?x = "partition mlp ! u XOR partition mlp ! v" and ?e = "\<lambda>k. bits_before cells k"
  have xbit: "bit ?x i \<longleftrightarrow> bit (partition mlp ! u) i \<noteq> bit (partition mlp ! v) i" for i by (simp add: bit_xor_iff)
  have "?x \<noteq> 0"
  proof
    assume "?x = 0"
    then have "bit (partition mlp ! u) i = bit (partition mlp ! v) i" for i using xbit [of i] by simp
    then show False using False by (metis bit_eqI)
  qed
  note m = util_msb_spec [OF this]
  have "util_msb ?x < ?e (length cells)"
  proof (rule ccontr)
    assume "\<not> ?thesis"
    then have k: "?e (length cells) + (util_msb ?x - ?e (length cells)) = util_msb ?x" by simp
    have "bit (drop_bit (?e (length cells)) (partition mlp ! u)) (util_msb ?x - ?e (length cells)) =
        bit (drop_bit (?e (length cells)) (partition mlp ! v)) (util_msb ?x - ?e (length cells))"
      using spare by (simp only: same_spare_bits_def)
    then have "bit (partition mlp ! u) (util_msb ?x) = bit (partition mlp ! v) (util_msb ?x)"
      by (simp only: bit_drop_bit_eq comp_apply k)
    then show False using m(1) xbit by simp
  qed
  from level_of_bit [OF this] obtain h where h: "1 \<le> h" "h \<le> length cells" "?e (h - 1) \<le> util_msb ?x" "util_msb ?x < ?e h"
    by auto
  then have "bit_to_level (level_data mlp) ! util_msb ?x = h" using ok by (simp add: layout_ok_def)
  then have lev: "GetHighestDifferentLevel mlp u v = h" using False by (simp add: GetHighestDifferentLevel_def)
  have same: "GetCell mlp l u = GetCell mlp l v" if l: "h < l" "l \<le> length cells" for l
  proof -
    have lo: "level_ok cells l" using l by (simp add: level_ok_def)
    have "bit (partition mlp ! u) i = bit (partition mlp ! v) i" if "?e (l - 1) \<le> i" for i
    proof -
      have "?e h \<le> ?e (l - 1)" using l by (intro bits_before_mono) auto
      then have "\<not> i \<le> util_msb ?x" using that h(4) by linarith
      then have "\<not> bit ?x i" using m(3) by blast
      then show ?thesis using xbit by blast
    qed
    then show ?thesis by (intro GetCell_bits [OF ok ok lo]) simp
  qed
  have "GetCell mlp h u \<noteq> GetCell mlp h v"
  proof -
    have "level_ok cells h" "cells ! (h - 1) < 2 ^ 32" using h(1,2) c by (auto simp: level_ok_def)
    from GetCell_eq_bits [OF ok this, of u v] show ?thesis
      using h(3,4) m(1) xbit by blast
  qed
  then show ?thesis using same h(2) unfolding lev by blast
qed

text \<open>
  Property C33. The highest different level.  For two nodes whose words agree above the layout,
  \<^verbatim>\<open>GetHighestDifferentLevel\<close> returns a level of the partition on which their cells differ,
  above which they agree, and 0 when they agree on every level.
\<close>

theorem GetHighestDifferentLevel_correct:
  assumes "layout_ok cells (level_data mlp)" "same_spare_bits cells mlp u v"
    and "\<forall>k < length cells. cells ! k < 2 ^ 32"
  shows "GetHighestDifferentLevel mlp u v =
    Max (insert 0 {l. 1 \<le> l \<and> l \<le> length cells \<and> GetCell mlp l u \<noteq> GetCell mlp l v})"
    (is "?h = Max (insert 0 ?D)")
proof -
  note h = HighestDifferentLevel_spec [OF assms]
  have "finite ?D" by simp
  moreover have "?h \<in> insert 0 ?D" using h by auto
  moreover have "l \<le> ?h" if "l \<in> insert 0 ?D" for l
  proof (rule ccontr)
    assume "\<not> l \<le> ?h"
    then have "?h < l" by simp
    moreover from this have "l \<le> length cells" "GetCell mlp l u \<noteq> GetCell mlp l v" using that by auto
    ultimately show False using h by blast
  qed
  ultimately show ?thesis by (intro Max_eqI [symmetric]) auto
qed

lemma GetHighestDifferentLevel_correct_witness:
  "GetHighestDifferentLevel (SetCellID \<lparr>level_data = example_level_data, partition = [0, 0], cell_to_children = []\<rparr> 2 1 2) 0 1 = 2"
proof -
  let ?m = "\<lparr>level_data = example_level_data, partition = [0, 0], cell_to_children = []\<rparr>"
  let ?mlp = "SetCellID ?m 2 1 2"
  have ok: "layout_ok [4, 2] (level_data ?m)" using example_layout(1) by simp
  have b: "bits_before [4, 2] 1 = 3" "bits_before [4, 2] 2 = 5" by (simp_all add: bits_before_def level_bits_example)
  have "drop_bit 5 (partition ?mlp ! 1) = drop_bit 5 (partition ?mlp ! 0)"
  proof (rule bit_word_eqI)
    fix i
    have "bit (partition ?mlp ! 1) (5 + i) = bit (partition ?m ! 1) (5 + i)"
      using SetCellID_bits [OF ok, of 2 2 1 "5 + i"] by (simp add: level_ok_def level_bits_example b)
    then show "bit (drop_bit 5 (partition ?mlp ! 1)) i = bit (drop_bit 5 (partition ?mlp ! 0)) i"
      by (simp add: bit_drop_bit_eq)
  qed
  moreover have "bits_before [4, 2] (length [4, 2::nat]) = 5" by (simp add: bits_before_def level_bits_example)
  ultimately have "same_spare_bits [4, 2] ?mlp 0 1" unfolding same_spare_bits_def by simp
  then have "GetHighestDifferentLevel ?mlp 0 1 =
      Max (insert 0 {l. 1 \<le> l \<and> l \<le> length [4, 2::nat] \<and> GetCell ?mlp l 0 \<noteq> GetCell ?mlp l 1})"
    by (intro GetHighestDifferentLevel_correct) (use ok in \<open>auto simp: less_Suc_eq\<close>)
  also have "\<dots> = 2"
  proof (rule Max_eqI)
    have "GetCell ?mlp 2 1 = 2" "GetCell ?mlp 2 0 = GetCell ?m 2 0"
      using GetCell_SetCellID [OF ok, of 2 2 1] by (simp_all add: level_ok_def level_bits_example)
    moreover have "GetCell ?m 2 0 = 0" by (simp add: GetCell_def Let_def)
    ultimately show "2 \<in> insert 0 {l. 1 \<le> l \<and> l \<le> length [4, 2::nat] \<and> GetCell ?mlp l 0 \<noteq> GetCell ?mlp l 1}"
      by simp
  qed auto
  finally show ?thesis .
qed


section \<open>Sorting groups the cells of every level\<close>

text \<open>Equal keys stand together.\<close>

fun grouped :: "'a list \<Rightarrow> bool" where
  "grouped [] = True"
| "grouped (k # ks) = (grouped ks \<and> (k \<in> set ks \<longrightarrow> hd ks = k))"

definition no_split :: "('a \<Rightarrow> 'b) \<Rightarrow> 'a list \<Rightarrow> bool" where
  "no_split f xs \<longleftrightarrow> (\<forall>u v w. subseq [u, v, w] xs \<longrightarrow> f u = f w \<longrightarrow> f v = f u)"

lemma no_split_Cons: "no_split f (x # xs) \<Longrightarrow> no_split f xs"
  unfolding no_split_def by (meson list_emb_Cons)

lemma grouped_if_no_split: "no_split f xs \<Longrightarrow> grouped (map f xs)"
proof (induction xs)
  case (Cons x xs)
  have "hd (map f xs) = f x" if "f x \<in> set (map f xs)"
  proof (cases xs)
    case (Cons y ys)
    show ?thesis
    proof (cases "f y = f x")
      case False
      with that Cons obtain w where w: "w \<in> set ys" "f w = f x" by auto
      then have "subseq [w] ys" by (simp add: subseq_singleton_left)
      then have "subseq [x, y, w] (x # xs)" by (simp add: Cons)
      with Cons.prems w False show ?thesis by (metis no_split_def)
    qed (simp add: Cons)
  qed (use that in simp)
  with Cons.IH no_split_Cons [OF Cons.prems] show ?case by simp
qed simp

lemma set_subseq: "subseq xs ys \<Longrightarrow> set xs \<subseteq> set ys"
  by (induction rule: list_emb.induct) auto

lemma sorted_subseq: "subseq xs ys \<Longrightarrow> sorted ys \<Longrightarrow> sorted xs"
  by (induction rule: list_emb.induct) (auto dest: set_subseq)

lemma no_split_sort_key: "no_split f (sort_key f xs)"
  unfolding no_split_def
proof (intro allI impI)
  fix u v w
  assume s: "subseq [u, v, w] (sort_key f xs)" and e: "f u = f w"
  have "sorted (map f [u, v, w])"
    by (rule sorted_subseq [OF subseq_map [OF s]]) simp
  with e show "f v = f u" by (auto intro: order.antisym)
qed

lemma no_split_sort_key_finer:
  fixes g :: "'a \<Rightarrow> 'b :: linorder"
  assumes ns: "no_split f xs" and finer: "\<And>u v. u \<in> set xs \<Longrightarrow> v \<in> set xs \<Longrightarrow> f u = f v \<Longrightarrow> g u = g v"
  shows "no_split f (sort_key g xs)"
  unfolding no_split_def
proof (intro allI impI)
  fix u v w
  assume s: "subseq [u, v, w] (sort_key g xs)" and e: "f u = f w"
  have "set [u, v, w] \<subseteq> set xs" using set_subseq [OF s] by simp
  with e finer [of u w] have gw: "g u = g w" by simp
  then have gv: "g v = g u" using no_split_sort_key [of g xs] s by (simp add: no_split_def)
  have "subseq (filter (\<lambda>y. g y = g u) [u, v, w]) (filter (\<lambda>y. g y = g u) (sort_key g xs))"
    using s by (rule subseq_filter)
  then have "subseq [u, v, w] (filter (\<lambda>y. g y = g u) xs)" using gw gv by (simp add: sort_key_stable)
  then have "subseq [u, v, w] xs" using subseq_filter_left subseq_order.order_trans by blast
  with ns e show "f v = f u" by (simp add: no_split_def)
qed

text \<open>A coarser level never splits a cell of a finer one.\<close>

definition nested_parts :: "CellID list list \<Rightarrow> nat \<Rightarrow> bool" where
  "nested_parts parts n \<longleftrightarrow> (\<forall>i j u v. i < j \<longrightarrow> j < length parts \<longrightarrow> u < n \<longrightarrow> v < n \<longrightarrow>
     parts ! i ! u = parts ! i ! v \<longrightarrow> parts ! j ! u = parts ! j ! v)"

lemma sort_nodes_grouped:
  assumes "nested_parts parts n"
  shows "mset (sort_nodes parts [0..<n]) = mset [0..<n] \<and>
    (\<forall>i < length parts. no_split ((!) (parts ! i)) (sort_nodes parts [0..<n]))"
  using assms
proof (induction parts rule: rev_induct)
  case Nil
  then show ?case by (simp add: sort_nodes_def)
next
  case (snoc part parts)
  let ?p = "sort_nodes parts [0..<n]"
  have "nested_parts parts n"
    unfolding nested_parts_def
  proof (intro allI impI)
    fix i j u v assume "i < j" "j < length parts" "u < n" "v < n" "parts ! i ! u = parts ! i ! v"
    moreover from this have "(parts @ [part]) ! i = parts ! i" "(parts @ [part]) ! j = parts ! j"
      "j < length (parts @ [part])" by (simp_all add: nth_append)
    ultimately show "parts ! j ! u = parts ! j ! v"
      using snoc.prems [unfolded nested_parts_def, rule_format, of i j u v] by simp
  qed
  note ih = snoc.IH [OF this]
  have step: "sort_nodes (parts @ [part]) [0..<n] = sort_key ((!) part) ?p" by (simp add: sort_nodes_def)
  have set: "set ?p = {0..<n}" using ih by (metis atLeastLessThan_upt set_mset_mset)
  have "no_split ((!) ((parts @ [part]) ! i)) (sort_key ((!) part) ?p)" if i: "i < length (parts @ [part])" for i
  proof (cases "i < length parts")
    case True
    have pp: "part ! u = part ! v" if "u < n" "v < n" "parts ! i ! u = parts ! i ! v" for u v
      using snoc.prems [unfolded nested_parts_def, rule_format, of i "length parts" u v] that True
      by (simp add: nth_append)
    have fin: "part ! u = part ! v" if "u \<in> set ?p" "v \<in> set ?p" "parts ! i ! u = parts ! i ! v" for u v
      by (rule pp [OF _ _ that(3)]) (use that(1,2) set in auto)
    have "no_split ((!) (parts ! i)) ?p" using ih True by simp
    then have "no_split ((!) (parts ! i)) (sort_key ((!) part) ?p)"
      by (rule no_split_sort_key_finer) (rule fin)
    then show ?thesis using True by (simp add: nth_append)
  next
    case False
    with i have "i = length parts" by simp
    then show ?thesis by (simp add: no_split_sort_key)
  qed
  then show ?case using ih unfolding step by simp
qed

section \<open>Numbering groups\<close>

fun renumber :: "'a \<Rightarrow> 'a list \<Rightarrow> nat \<Rightarrow> nat list" where
  "renumber k0 [] n = []"
| "renumber k0 (k # ks) n =
     (let n' = (if k0 \<noteq> k then n + 1 else n) in n' # renumber k ks n')"

lemma length_renumber [simp]: "length (renumber k0 ks n) = length ks"
  by (induction ks arbitrary: k0 n) (simp_all add: Let_def)

lemma renumber_Suc: "renumber k0 ks (Suc n) = map Suc (renumber k0 ks n)"
  by (induction ks arbitrary: k0 n) (simp_all add: Let_def)

lemma renumber_ge: "x \<in> set (renumber k0 ks n) \<Longrightarrow> n \<le> x"
  by (induction ks arbitrary: k0 n) (force simp: Let_def split: if_splits)+

lemma renumber_last:
  "grouped (k0 # ks) \<Longrightarrow> Suc (last (n # renumber k0 ks n)) = n + card (set (k0 # ks))"
proof (induction ks arbitrary: k0 n)
  case (Cons k ks)
  show ?case
  proof (cases "k0 = k")
    case True
    with Cons.IH [of k n] Cons.prems show ?thesis by (simp add: Let_def)
  next
    case False
    with Cons.prems have "k0 \<notin> set (k # ks)" by auto
    with Cons.IH [of k "Suc n"] Cons.prems False show ?thesis by (simp add: Let_def)
  qed
qed simp

lemma renumber_le_last: "x \<in> set (renumber k0 ks n) \<Longrightarrow> x \<le> last (n # renumber k0 ks n)"
proof (induction ks arbitrary: k0 n)
  case (Cons k ks)
  let ?m = "if k0 \<noteq> k then n + 1 else n"
  have e: "renumber k0 (k # ks) n = ?m # renumber k ks ?m" by (simp add: Let_def)
  have "?m \<le> last (?m # renumber k ks ?m)"
    using renumber_ge [of _ k ks ?m] by (metis last_in_set last_ConsL last_ConsR le_refl list.distinct(1))
  then show ?case using Cons.IH [of k ?m] Cons.prems unfolding e by auto
qed simp

lemma renumber_eq_iff:
  "grouped (k0 # ks) \<Longrightarrow>
   (\<forall>i < length ks. renumber k0 ks n ! i = n \<longleftrightarrow> ks ! i = k0) \<and>
   (\<forall>i < length ks. \<forall>j < length ks. renumber k0 ks n ! i = renumber k0 ks n ! j \<longleftrightarrow> ks ! i = ks ! j)"
proof (induction ks arbitrary: k0 n)
  case (Cons k ks)
  let ?m = "if k0 \<noteq> k then n + 1 else n"
  have e: "renumber k0 (k # ks) n = ?m # renumber k ks ?m" by (simp add: Let_def)
  have g: "grouped (k # ks)" using Cons.prems by simp
  note ih = Cons.IH [OF g, of ?m]
  have pair: "\<forall>i < length (k # ks). \<forall>j < length (k # ks).
      (?m # renumber k ks ?m) ! i = (?m # renumber k ks ?m) ! j \<longleftrightarrow> (k # ks) ! i = (k # ks) ! j"
  proof (intro allI impI)
    fix i j assume "i < length (k # ks)" "j < length (k # ks)"
    moreover obtain m where m: "m = ?m" by simp
    moreover have "renumber k ks m ! a = m \<longleftrightarrow> ks ! a = k" "m = renumber k ks m ! a \<longleftrightarrow> k = ks ! a"
      if "a < length ks" for a using ih that unfolding m by metis+
    moreover have "renumber k ks m ! a = renumber k ks m ! b \<longleftrightarrow> ks ! a = ks ! b"
      if "a < length ks" "b < length ks" for a b using ih that unfolding m by blast
    ultimately show "(?m # renumber k ks ?m) ! i = (?m # renumber k ks ?m) ! j \<longleftrightarrow> (k # ks) ! i = (k # ks) ! j"
      unfolding m [symmetric] by (cases i; cases j) simp_all
  qed
  have "\<forall>i < length (k # ks). (?m # renumber k ks ?m) ! i = n \<longleftrightarrow> (k # ks) ! i = k0"
  proof (cases "k0 = k")
    case True
    show ?thesis
    proof (intro allI impI)
      fix i assume "i < length (k # ks)"
      with pair [rule_format, of i 0] True
      show "(?m # renumber k ks ?m) ! i = n \<longleftrightarrow> (k # ks) ! i = k0" by simp
    qed
  next
    case False
    show ?thesis
    proof (intro allI impI)
      fix i assume i: "i < length (k # ks)"
      have "k0 \<notin> set (k # ks)" using False Cons.prems by auto
      then have "(k # ks) ! i \<noteq> k0" using i by (metis nth_mem)
      moreover have "?m \<le> (?m # renumber k ks ?m) ! i"
        using i renumber_ge [of _ k ks ?m] by (cases i) simp_all
      then have "(?m # renumber k ks ?m) ! i \<noteq> n" using False by simp
      ultimately show "(?m # renumber k ks ?m) ! i = n \<longleftrightarrow> (k # ks) ! i = k0" by simp
    qed
  qed
  with pair show ?case unfolding e by blast
qed simp


section \<open>Assigning the cells\<close>

text \<open>What writing cells keeps: the layout, the number of words, the children, the bits above the
  layout, and the cells outside a set of levels and nodes.\<close>

definition keeps :: "nat list \<Rightarrow> (LevelID \<times> NodeID) set \<Rightarrow> MultiLevelPartition \<Rightarrow> MultiLevelPartition \<Rightarrow> bool" where
  "keeps cells S mlp mlp' \<longleftrightarrow> level_data mlp' = level_data mlp \<and>
     length (partition mlp') = length (partition mlp) \<and> cell_to_children mlp' = cell_to_children mlp \<and>
     (\<forall>m i. bits_before cells (length cells) \<le> i \<longrightarrow> bit (partition mlp' ! m) i = bit (partition mlp ! m) i) \<and>
     (\<forall>l m. level_ok cells l \<longrightarrow> (l, m) \<notin> S \<longrightarrow> GetCell mlp' l m = GetCell mlp l m)"

lemma keeps_refl: "keeps cells S mlp mlp" by (simp add: keeps_def)

lemma keeps_trans: "keeps cells S a b \<Longrightarrow> keeps cells T b c \<Longrightarrow> keeps cells (S \<union> T) a c"
  by (simp add: keeps_def)

lemma keeps_mono: "keeps cells S a b \<Longrightarrow> S \<subseteq> T \<Longrightarrow> keeps cells T a b"
  unfolding keeps_def by blast

lemma keepsD:
  assumes "keeps cells S mlp mlp'"
  shows "level_data mlp' = level_data mlp" "length (partition mlp') = length (partition mlp)"
    "cell_to_children mlp' = cell_to_children mlp"
    "level_ok cells l \<Longrightarrow> (l, m) \<notin> S \<Longrightarrow> GetCell mlp' l m = GetCell mlp l m"
  using assms by (simp_all add: keeps_def)

lemma SetCellID_keeps:
  assumes "layout_ok cells (level_data mlp)" "level_ok cells l"
    "c < 2 ^ level_bits (cells ! (l - 1))" "c < 2 ^ 32" "node < length (partition mlp)"
  shows "keeps cells {(l, node)} mlp (SetCellID mlp l node c)"
proof -
  have k: "l - 1 < length cells" "Suc (l - 1) = l" using assms(2) by (auto simp: level_ok_def)
  have "bits_before cells l \<le> bits_before cells (length cells)" using k by (intro bits_before_mono) auto
  then have "bit (partition (SetCellID mlp l node c) ! m) i = bit (partition mlp ! m) i"
    if "bits_before cells (length cells) \<le> i" for m i
    using that SetCellID_bits [OF assms(1-3,5), of i] by (cases "m = node") simp_all
  then show ?thesis using GetCell_SetCellID(2) [OF assms] by (simp add: keeps_def)
qed

lemma assign_cells_Cons:
  "assign_cells part level (node # nodes) k0 n mlp =
     (let n' = (if k0 \<noteq> part ! node then n + 1 else n)
      in assign_cells part level nodes (part ! node) n' (SetCellID mlp level node n'))"
  by (simp add: Let_def)

lemma assign_cells_spec:
  assumes "layout_ok cells (level_data mlp)" "level_ok cells l" "distinct nodes"
    and "\<forall>v \<in> set nodes. v < length (partition mlp)"
    and "\<forall>x \<in> set (renumber k0 (map ((!) part) nodes) n). x < 2 ^ level_bits (cells ! (l - 1)) \<and> x < 2 ^ 32"
  shows "\<exists>mlp'. assign_cells part l nodes k0 n mlp = (last (n # renumber k0 (map ((!) part) nodes) n), mlp') \<and>
    keeps cells ({l} \<times> set nodes) mlp mlp' \<and>
    (\<forall>i < length nodes. GetCell mlp' l (nodes ! i) = renumber k0 (map ((!) part) nodes) n ! i)"
  using assms
proof (induction nodes arbitrary: k0 n mlp)
  case Nil
  then show ?case by (simp add: keeps_refl)
next
  case (Cons node nodes)
  obtain n' where n': "n' = (if k0 \<noteq> part ! node then n + 1 else n)" by simp
  let ?mlp = "SetCellID mlp l node n'"
  have r: "renumber k0 (map ((!) part) (node # nodes)) n = n' # renumber (part ! node) (map ((!) part) nodes) n'"
    by (simp add: Let_def n')
  have fit: "n' < 2 ^ level_bits (cells ! (l - 1))" "n' < 2 ^ 32" "node < length (partition mlp)"
    using Cons.prems(4,5) unfolding r by simp_all
  have k1: "keeps cells {(l, node)} mlp ?mlp" using SetCellID_keeps [OF Cons.prems(1,2) fit] .
  have "\<exists>mlp'. assign_cells part l nodes (part ! node) n' ?mlp =
      (last (n' # renumber (part ! node) (map ((!) part) nodes) n'), mlp') \<and>
    keeps cells ({l} \<times> set nodes) ?mlp mlp' \<and>
    (\<forall>i < length nodes. GetCell mlp' l (nodes ! i) = renumber (part ! node) (map ((!) part) nodes) n' ! i)"
    using Cons.prems unfolding r by (intro Cons.IH) simp_all
  then obtain mlp' where m: "assign_cells part l nodes (part ! node) n' ?mlp =
      (last (n' # renumber (part ! node) (map ((!) part) nodes) n'), mlp')"
    "keeps cells ({l} \<times> set nodes) ?mlp mlp'"
    "\<forall>i < length nodes. GetCell mlp' l (nodes ! i) = renumber (part ! node) (map ((!) part) nodes) n' ! i"
    by blast
  have "assign_cells part l (node # nodes) k0 n mlp =
      (last (n # renumber k0 (map ((!) part) (node # nodes)) n), mlp')"
    unfolding assign_cells_Cons Let_def n' [symmetric] m(1) r by simp
  moreover have "keeps cells ({l} \<times> set (node # nodes)) mlp mlp'"
    by (rule keeps_mono [OF keeps_trans [OF k1 m(2)]]) auto
  moreover have "GetCell mlp' l node = n'"
    using keepsD(4) [OF m(2) Cons.prems(2), of node] GetCell_SetCellID(1) [OF Cons.prems(1,2) fit]
      Cons.prems(3) by simp
  then have "\<forall>i < length (node # nodes). GetCell mlp' l ((node # nodes) ! i) =
      renumber k0 (map ((!) part) (node # nodes)) n ! i"
    unfolding r using m(3) by (auto simp: nth_Cons split: nat.split)
  ultimately show ?case by blast
qed

text \<open>The cell of every node on every level, as the numbers along the sorted nodes.\<close>

definition numbered :: "NodeID list \<Rightarrow> CellID list \<Rightarrow> nat list" where
  "numbered perm part = renumber (part ! hd perm) (map ((!) part) perm) 0"

lemma length_numbered [simp]: "length (numbered perm part) = length perm"
  by (simp add: numbered_def)

lemma numbered_spec:
  assumes ne: "perm \<noteq> []" and g: "no_split ((!) part) perm"
  shows "\<forall>i < length perm. \<forall>j < length perm.
      numbered perm part ! i = numbered perm part ! j \<longleftrightarrow> part ! (perm ! i) = part ! (perm ! j)"
    and "Suc (last (0 # numbered perm part)) = card ((!) part ` set perm)"
    and "\<forall>x \<in> set (numbered perm part). x < card ((!) part ` set perm)"
proof -
  have hd: "part ! hd perm = hd (map ((!) part) perm)" using ne by (simp add: hd_map)
  then have g': "grouped (part ! hd perm # map ((!) part) perm)"
    using grouped_if_no_split [OF g] by simp
  have s: "set (part ! hd perm # map ((!) part) perm) = (!) part ` set perm" using ne by auto
  show "\<forall>i < length perm. \<forall>j < length perm.
      numbered perm part ! i = numbered perm part ! j \<longleftrightarrow> part ! (perm ! i) = part ! (perm ! j)"
    using renumber_eq_iff [OF g', of 0] by (simp add: numbered_def)
  show l: "Suc (last (0 # numbered perm part)) = card ((!) part ` set perm)"
    using renumber_last [OF g', of 0] unfolding s numbered_def by simp
  show "\<forall>x \<in> set (numbered perm part). x < card ((!) part ` set perm)"
    using renumber_le_last [of _ "part ! hd perm" "map ((!) part) perm" 0] l
    unfolding numbered_def by fastforce
qed

definition parts_ok :: "CellID list list \<Rightarrow> nat \<Rightarrow> nat list \<Rightarrow> bool" where
  "parts_ok parts n cells \<longleftrightarrow> 0 < n \<and> parts \<noteq> [] \<and> length parts = length cells \<and>
     (\<forall>part \<in> set parts. length part = n) \<and> nested_parts parts n \<and>
     (\<forall>k < length cells. card (set (parts ! k)) \<le> cells ! k \<and> cells ! k < 2 ^ 32)"

lemma assign_levels_spec:
  assumes "layout_ok cells (level_data mlp)" "length (partition mlp) = n + 1" "perm \<noteq> []"
    "distinct perm" "set perm = {0..<n}"
  shows "length parts \<le> length cells \<Longrightarrow>
    (\<forall>k < length parts. no_split ((!) (parts ! k)) perm \<and> length (parts ! k) = n \<and>
       card (set (parts ! k)) \<le> cells ! k \<and> cells ! k < 2 ^ 32) \<Longrightarrow>
    keeps cells ({1..length parts} \<times> UNIV) mlp (assign_levels perm n (rev parts) (length parts) mlp) \<and>
    (\<forall>k < length parts. (\<forall>i < n. GetCell (assign_levels perm n (rev parts) (length parts) mlp) (Suc k) (perm ! i) =
         numbered perm (parts ! k) ! i) \<and>
       GetCell (assign_levels perm n (rev parts) (length parts) mlp) (Suc k) n = card (set (parts ! k)))"
  using assms(1,2)
proof (induction parts arbitrary: mlp rule: rev_induct)
  case Nil
  then show ?case by (simp add: keeps_refl)
next
  case (snoc part parts)
  let ?l = "Suc (length parts)"
  have lo: "level_ok cells ?l" and kc: "length parts < length cells" using snoc.prems(1) by (simp_all add: level_ok_def)
  have p: "no_split ((!) part) perm" "length part = n" "card (set part) \<le> cells ! length parts"
    "cells ! length parts < 2 ^ 32"
    using snoc.prems(2) [rule_format, of "length parts"] by simp_all
  have im: "(!) part ` set perm = set part" using p(2) assms(5) by (auto simp: set_conv_nth)
  note num = numbered_spec [OF assms(3) p(1), unfolded im]
  have fits: "x < 2 ^ level_bits (cells ! (?l - 1)) \<and> x < 2 ^ 32" if "x \<le> card (set part)" for x
    using that p(3,4) level_bits_less [of "cells ! length parts"] by simp
  then have "\<forall>x \<in> set (renumber (part ! hd perm) (map ((!) part) perm) 0).
      x < 2 ^ level_bits (cells ! (?l - 1)) \<and> x < 2 ^ 32"
    using num(3) by (auto simp: numbered_def intro: less_imp_le)
  then obtain m1 where m1: "assign_cells part ?l perm (part ! hd perm) 0 mlp = (last (0 # numbered perm part), m1)"
      "keeps cells ({?l} \<times> set perm) mlp m1" "\<forall>i < length perm. GetCell m1 ?l (perm ! i) = numbered perm part ! i"
    using assign_cells_spec [OF snoc.prems(3) lo assms(4), of "part ! hd perm" part 0] assms(5) snoc.prems(4)
    unfolding numbered_def by auto
  have lp: "length perm = n" using assms(4,5) distinct_card by fastforce
  let ?m2 = "SetCellID m1 ?l n (card (set part))"
  have fit: "card (set part) < 2 ^ level_bits (cells ! (?l - 1))" "card (set part) < 2 ^ 32"
    "n < length (partition m1)" "layout_ok cells (level_data m1)"
    using fits keepsD [OF m1(2)] snoc.prems(3,4) by simp_all
  have k2: "keeps cells {(?l, n)} m1 ?m2" using SetCellID_keeps [OF fit(4) lo fit(1-3)] .
  let ?r = "assign_levels perm n (rev parts) (length parts) ?m2"
  have ih: "keeps cells ({1..length parts} \<times> UNIV) ?m2 ?r"
    "\<And>k. k < length parts \<Longrightarrow> (\<forall>i < n. GetCell ?r (Suc k) (perm ! i) = numbered perm (parts ! k) ! i) \<and>
         GetCell ?r (Suc k) n = card (set (parts ! k))"
  proof -
    have "no_split ((!) (parts ! k)) perm \<and> length (parts ! k) = n \<and>
       card (set (parts ! k)) \<le> cells ! k \<and> cells ! k < 2 ^ 32" if "k < length parts" for k
      using snoc.prems(2) [rule_format, of k] that by (simp add: nth_append)
    moreover have "layout_ok cells (level_data ?m2)" "length (partition ?m2) = n + 1"
      using fit(4) snoc.prems(4) keepsD [OF m1(2)] by simp_all
    ultimately show "keeps cells ({1..length parts} \<times> UNIV) ?m2 ?r"
      "\<And>k. k < length parts \<Longrightarrow> (\<forall>i < n. GetCell ?r (Suc k) (perm ! i) = numbered perm (parts ! k) ! i) \<and>
         GetCell ?r (Suc k) n = card (set (parts ! k))"
      using snoc.IH [of ?m2] kc by simp_all
  qed
  have eq: "assign_levels perm n (rev (parts @ [part])) (length (parts @ [part])) mlp = ?r"
    using num(2) by (simp add: m1(1))
  have "keeps cells ({1..?l} \<times> UNIV) mlp ?r"
    by (rule keeps_mono [OF keeps_trans [OF keeps_trans [OF m1(2) k2] ih(1)]]) auto
  moreover have "GetCell ?r ?l n = card (set part)"
    using keepsD(4) [OF ih(1) lo, of n] GetCell_SetCellID(1) [OF fit(4) lo fit(1-3)] by simp
  moreover have "GetCell ?r ?l (perm ! i) = numbered perm part ! i" if "i < n" for i
  proof -
    have "perm ! i \<noteq> n" using that lp assms(5) nth_mem [of i perm] by auto
    then show ?thesis
      using that lp m1(3) keepsD(4) [OF ih(1) lo, of "perm ! i"] keepsD(4) [OF k2 lo, of "perm ! i"] by simp
  qed
  ultimately show ?case
    unfolding eq using ih(2) by (auto simp: nth_append less_Suc_eq)
qed


text \<open>The last loop only fills the children.\<close>

lemma children_level_frame:
  "GetCell (children_level parts perm mlp k) l v = GetCell mlp l v"
  "partition (children_level parts perm mlp k) = partition mlp"
  by (simp_all add: children_level_def GetCell_def Let_def)

lemma children_levels_frame:
  "GetCell (foldl (children_level parts perm) mlp ks) l v = GetCell mlp l v \<and>
   partition (foldl (children_level parts perm) mlp ks) = partition mlp"
  by (induction ks arbitrary: mlp) (simp_all add: children_level_frame)

lemma layout_ok_children [simp]:
  "layout_ok cells (ld\<lparr>lidx_to_children_offsets := c\<rparr>) = layout_ok cells ld"
  by (simp add: layout_ok_def)

text \<open>The state of \<^verbatim>\<open>InitializePartitionIDs\<close> when the cells are assigned.\<close>

definition assigned :: "CellID list list \<Rightarrow> MultiLevelPartition \<Rightarrow> MultiLevelPartition" where
  "assigned parts mlp = assign_levels (sort_nodes parts [0..<length (hd parts)]) (length (hd parts)) (rev parts)
     (length parts) (mlp\<lparr>partition := take (length (hd parts) + 1) (partition mlp) @
       replicate (length (hd parts) + 1 - length (partition mlp)) 0\<rparr>)"

lemma InitializePartitionIDs_assigned:
  "InitializePartitionIDs parts mlp =
     foldl (children_level parts (sort_nodes parts [0..<length (hd parts)]))
       ((assigned parts mlp)\<lparr>level_data := (level_data (assigned parts mlp))\<lparr>lidx_to_children_offsets :=
          (lidx_to_children_offsets (level_data (assigned parts mlp)))[0 := 0]\<rparr>\<rparr>) [0..<length parts - 1]"
  by (simp add: InitializePartitionIDs_def assigned_def Let_def)

lemma init_frame:
  "GetCell (InitializePartitionIDs parts mlp) l w = GetCell (assigned parts mlp) l w"
  "partition (InitializePartitionIDs parts mlp) = partition (assigned parts mlp)"
proof -
  let ?m = "(assigned parts mlp)\<lparr>level_data := (level_data (assigned parts mlp))\<lparr>lidx_to_children_offsets :=
          (lidx_to_children_offsets (level_data (assigned parts mlp)))[0 := 0]\<rparr>\<rparr>"
  have "GetCell ?m l w = GetCell (assigned parts mlp) l w" by (simp add: GetCell_def Let_def)
  then show "GetCell (InitializePartitionIDs parts mlp) l w = GetCell (assigned parts mlp) l w"
    unfolding InitializePartitionIDs_assigned using children_levels_frame by metis
  show "partition (InitializePartitionIDs parts mlp) = partition (assigned parts mlp)"
    unfolding InitializePartitionIDs_assigned using children_levels_frame by simp
qed

lemma sort_nodes_spec:
  assumes "parts_ok parts n cells"
  shows "length (hd parts) = n" "mset (sort_nodes parts [0..<n]) = mset [0..<n]" "sort_nodes parts [0..<n] \<noteq> []"
    "distinct (sort_nodes parts [0..<n])" "set (sort_nodes parts [0..<n]) = {0..<n}" "length (sort_nodes parts [0..<n]) = n"
    "k < length cells \<Longrightarrow> no_split ((!) (parts ! k)) (sort_nodes parts [0..<n])"
proof -
  show "length (hd parts) = n" using assms by (simp add: parts_ok_def)
  have "nested_parts parts n" using assms by (simp add: parts_ok_def)
  note s = sort_nodes_grouped [OF this]
  then show m: "mset (sort_nodes parts [0..<n]) = mset [0..<n]" by blast
  show "distinct (sort_nodes parts [0..<n])" using mset_eq_imp_distinct_iff [OF m] by simp
  show set: "set (sort_nodes parts [0..<n]) = {0..<n}" using mset_eq_setD [OF m] by simp
  show "length (sort_nodes parts [0..<n]) = n" using mset_eq_length [OF m] by simp
  have "0 < n" using assms by (simp add: parts_ok_def)
  then show "sort_nodes parts [0..<n] \<noteq> []" using set by (metis atLeastLessThan_iff empty_iff empty_set le0)
  show "k < length cells \<Longrightarrow> no_split ((!) (parts ! k)) (sort_nodes parts [0..<n])"
    using s assms by (simp add: parts_ok_def)
qed

lemma assigned_spec:
  assumes ok: "layout_ok cells (level_data mlp)" and p: "parts_ok parts n cells"
  defines "perm \<equiv> sort_nodes parts [0..<n]"
  shows "keeps cells ({1..length parts} \<times> UNIV) (mlp\<lparr>partition := take (n + 1) (partition mlp) @
       replicate (n + 1 - length (partition mlp)) 0\<rparr>) (assigned parts mlp)"
    and "k < length cells \<Longrightarrow> i < n \<Longrightarrow>
      GetCell (assigned parts mlp) (Suc k) (perm ! i) = numbered perm (parts ! k) ! i"
    and "k < length cells \<Longrightarrow> GetCell (assigned parts mlp) (Suc k) n = card (set (parts ! k))"
proof -
  note s = sort_nodes_spec [OF p, folded perm_def]
  let ?mlp = "mlp\<lparr>partition := take (n + 1) (partition mlp) @ replicate (n + 1 - length (partition mlp)) 0\<rparr>"
  have "layout_ok cells (level_data ?mlp)" "length (partition ?mlp) = n + 1" using ok by simp_all
  note a = assign_levels_spec [OF this s(3-5), of parts]
  have len: "length parts = length cells" using p by (simp add: parts_ok_def)
  have "no_split ((!) (parts ! k)) perm \<and> length (parts ! k) = n \<and>
       card (set (parts ! k)) \<le> cells ! k \<and> cells ! k < 2 ^ 32" if "k < length parts" for k
    using that p s(7) len by (simp add: parts_ok_def)
  then have b: "keeps cells ({1..length parts} \<times> UNIV) ?mlp (assigned parts mlp) \<and>
    (\<forall>k < length parts. (\<forall>i < n. GetCell (assigned parts mlp) (Suc k) (perm ! i) = numbered perm (parts ! k) ! i) \<and>
       GetCell (assigned parts mlp) (Suc k) n = card (set (parts ! k)))"
    using a len unfolding assigned_def s(1) perm_def [symmetric] by simp
  then show "keeps cells ({1..length parts} \<times> UNIV) ?mlp (assigned parts mlp)" by blast
  show "k < length cells \<Longrightarrow> i < n \<Longrightarrow> GetCell (assigned parts mlp) (Suc k) (perm ! i) = numbered perm (parts ! k) ! i"
    "k < length cells \<Longrightarrow> GetCell (assigned parts mlp) (Suc k) n = card (set (parts ! k))"
    using b len by simp_all
qed

lemma init_cells_spec:
  assumes "layout_ok cells (level_data mlp)" "parts_ok parts n cells"
    and "1 \<le> l" "l \<le> length cells" "u < n" "v < n"
  shows "(GetCell (InitializePartitionIDs parts mlp) l u = GetCell (InitializePartitionIDs parts mlp) l v \<longleftrightarrow>
      parts ! (l - 1) ! u = parts ! (l - 1) ! v) \<and>
    GetCell (InitializePartitionIDs parts mlp) l u < card (set (parts ! (l - 1))) \<and>
    GetNumberOfCells (InitializePartitionIDs parts mlp) l = card (set (parts ! (l - 1)))"
proof -
  let ?perm = "sort_nodes parts [0..<n]" and ?a = "assigned parts mlp" and ?part = "parts ! (l - 1)"
  note s = sort_nodes_spec [OF assms(2)] and a = assigned_spec [OF assms(1,2)]
  have lk: "l - 1 < length cells" "Suc (l - 1) = l" using assms(3,4) by auto
  note cell = init_frame(1)
  have len: "length (partition (InitializePartitionIDs parts mlp)) = n + 1"
    using keepsD(2) [OF a(1)] by (simp add: init_frame(2))
  obtain i j where ij: "i < n" "?perm ! i = u" "j < n" "?perm ! j = v"
    using assms(5,6) s(5,6) by (metis atLeastLessThan_iff in_set_conv_nth le0)
  have lp: "length ?part = n" using assms(2) lk(1) by (simp add: parts_ok_def)
  then have im: "(!) ?part ` set ?perm = set ?part" using s(5) by (auto simp: set_conv_nth)
  note num = numbered_spec [OF s(3) s(7) [OF lk(1)], unfolded im]
  have "GetCell ?a l u = numbered ?perm ?part ! i" "GetCell ?a l v = numbered ?perm ?part ! j"
    "GetCell ?a l n = card (set ?part)"
    using a(2,3) [OF lk(1)] ij lk(2) by auto
  moreover have "numbered ?perm ?part ! i \<in> set (numbered ?perm ?part)" using ij(1) s(6) by simp
  ultimately show ?thesis
    using num(1,3) ij s(6) by (simp add: cell GetNumberOfCells_def GetSentinelNode_def len)
qed


text \<open>
  Property C27. The cells of the built partition.  For nested input partitions whose cells fit
  the layout, two nodes have the same cell on a level after \<^verbatim>\<open>InitializePartitionIDs\<close> exactly
  when the input partition of the level puts them into the same cell, every cell number is below
  the number of cells of the level, and that number is what \<^verbatim>\<open>GetNumberOfCells\<close> returns.
\<close>

theorem InitializePartitionIDs_cells:
  assumes "layout_ok cells (level_data mlp)" "parts_ok parts n cells"
    and "1 \<le> l" "l \<le> length cells" "u < n" "v < n"
  shows "(GetCell (InitializePartitionIDs parts mlp) l u = GetCell (InitializePartitionIDs parts mlp) l v \<longleftrightarrow>
      parts ! (l - 1) ! u = parts ! (l - 1) ! v) \<and>
    GetCell (InitializePartitionIDs parts mlp) l u < card (set (parts ! (l - 1))) \<and>
    GetNumberOfCells (InitializePartitionIDs parts mlp) l = card (set (parts ! (l - 1)))"
  by (rule init_cells_spec [OF assms])

definition example_parts :: "CellID list list" where
  "example_parts = [[3, 0, 3, 2], [1, 0, 1, 0]]"

lemma example_parts_ok: "parts_ok example_parts 4 [4, 2]"
proof -
  have "nested_parts example_parts 4"
    unfolding nested_parts_def
  proof (intro allI impI)
    fix i j u v :: nat
    assume a: "i < j" "j < length example_parts" "u < 4" "v < 4" "example_parts ! i ! u = example_parts ! i ! v"
    then have "i = 0" "j = 1" by (simp_all add: example_parts_def)
    moreover have "u \<in> {0, 1, 2, 3}" "v \<in> {0, 1, 2, 3}" using a(3,4) by auto
    ultimately show "example_parts ! j ! u = example_parts ! j ! v"
      using a(5) by (auto simp: example_parts_def)
  qed
  moreover have "\<forall>k < 2. card (set (example_parts ! k)) \<le> [4, 2] ! k \<and> [4, 2] ! k < (2::nat) ^ 32"
    by (auto simp: example_parts_def less_2_cases_iff card_insert_if)
  ultimately show ?thesis by (simp add: parts_ok_def example_parts_def)
qed

lemma InitializePartitionIDs_cells_witness:
  "let r = InitializePartitionIDs example_parts \<lparr>level_data = example_level_data, partition = [], cell_to_children = []\<rparr>
   in GetCell r 1 0 = GetCell r 1 2 \<and> GetCell r 1 1 \<noteq> GetCell r 1 3 \<and> GetNumberOfCells r 1 = 3"
proof -
  let ?m = "\<lparr>level_data = example_level_data, partition = [], cell_to_children = []\<rparr>"
  have ok: "layout_ok [4, 2] (level_data ?m)" using example_layout(1) by simp
  note c = InitializePartitionIDs_cells [OF ok example_parts_ok, of 1]
  show ?thesis using c [of 0 2] c [of 1 3] by (simp add: Let_def example_parts_def card_insert_if)
qed

section \<open>The children of a cell\<close>

text \<open>The cells of the lower level at which a new parent starts.\<close>

fun child_starts :: "'a \<Rightarrow> 'a list \<Rightarrow> nat list \<Rightarrow> nat list" where
  "child_starts k0 (k # ks) (c # cs) = (if k0 \<noteq> k then c # child_starts k ks cs else child_starts k ks cs)"
| "child_starts k0 ks cs = []"

lemma push_children_starts:
  "push_children parent level perm k0 mlp children =
     children @ child_starts k0 (map ((!) parent) perm) (map (GetCell mlp level) perm)"
  by (induction perm arbitrary: k0 children) simp_all

text \<open>The lower numbers never fall and rise where the parent changes.\<close>

fun rising :: "'a \<Rightarrow> nat \<Rightarrow> 'a list \<Rightarrow> nat list \<Rightarrow> nat \<Rightarrow> bool" where
  "rising k0 c0 (k # ks) (c # cs) z = (c0 \<le> c \<and> (k0 \<noteq> k \<longrightarrow> c0 < c) \<and> rising k c ks cs z)"
| "rising k0 c0 [] [] z = (c0 < z)"
| "rising k0 c0 ks cs z = False"

lemma rising_hd: "rising k0 c0 ks cs z \<Longrightarrow> c \<le> c0 \<Longrightarrow> c < hd (child_starts k0 ks cs @ [z])"
  by (induction k0 c0 ks cs z arbitrary: c rule: rising.induct) auto

lemma rising_starts:
  "rising k0 c0 ks cs z \<Longrightarrow> e \<le> c0 \<Longrightarrow>
   sorted (e # child_starts k0 ks cs @ [z]) \<and> length cs = length ks \<and>
   (\<forall>i < length ks. Suc (renumber k0 ks 0 ! i) < length (e # child_starts k0 ks cs @ [z]) \<and>
      (e # child_starts k0 ks cs @ [z]) ! (renumber k0 ks 0 ! i) \<le> cs ! i \<and>
      cs ! i < (e # child_starts k0 ks cs @ [z]) ! Suc (renumber k0 ks 0 ! i))"
proof (induction k0 c0 ks cs z arbitrary: e rule: rising.induct)
  case (1 k0 c0 k ks c cs z)
  have r: "c0 \<le> c" "k0 \<noteq> k \<longrightarrow> c0 < c" "rising k c ks cs z" using "1.prems" by simp_all
  have hd: "c < hd (child_starts k ks cs @ [z])" using rising_hd [OF r(3)] by simp
  show ?case
  proof (cases "k0 = k")
    case True
    have ih: "sorted (e # child_starts k ks cs @ [z])" "length cs = length ks"
      "\<And>i. i < length ks \<Longrightarrow> Suc (renumber k ks 0 ! i) < length (e # child_starts k ks cs @ [z]) \<and>
      (e # child_starts k ks cs @ [z]) ! (renumber k ks 0 ! i) \<le> cs ! i \<and>
      cs ! i < (e # child_starts k ks cs @ [z]) ! Suc (renumber k ks 0 ! i)"
      using "1.IH" [OF r(3), of e] "1.prems"(2) r(1) by simp_all
    have "c < (child_starts k ks cs @ [z]) ! 0" using hd by (simp add: hd_conv_nth)
    then show ?thesis
      using ih True "1.prems"(2) r(1) by (simp add: Let_def all_less_Suc_split)
  next
    case False
    have ih: "sorted (c # child_starts k ks cs @ [z])" "length cs = length ks"
      "\<And>i. i < length ks \<Longrightarrow> Suc (renumber k ks 0 ! i) < length (c # child_starts k ks cs @ [z]) \<and>
      (c # child_starts k ks cs @ [z]) ! (renumber k ks 0 ! i) \<le> cs ! i \<and>
      cs ! i < (c # child_starts k ks cs @ [z]) ! Suc (renumber k ks 0 ! i)"
      using "1.IH" [OF r(3), of c] by simp_all
    have "c < (child_starts k ks cs @ [z]) ! 0" using hd by (simp add: hd_conv_nth)
    moreover have "renumber k ks (Suc 0) ! i = Suc (renumber k ks 0 ! i)" if "i < length ks" for i
      using that by (simp add: renumber_Suc)
    moreover have "sorted (e # c # child_starts k ks cs @ [z])"
      using ih(1) "1.prems"(2) r(1) by (auto intro: order.trans)
    ultimately show ?thesis
      using ih False by (simp add: Let_def all_less_Suc_split)
  qed
qed auto

lemma rising_renumber:
  "length as = length ks \<Longrightarrow>
   (\<And>i. i < length ks \<Longrightarrow> (a0 # as) ! i = as ! i \<Longrightarrow> (k0 # ks) ! i = ks ! i) \<Longrightarrow>
   rising k0 n ks (renumber a0 as n) (Suc (last (n # renumber a0 as n)))"
proof (induction as arbitrary: a0 k0 ks n)
  case (Cons a as)
  then obtain k ks' where ks: "ks = k # ks'" by (cases ks) simp_all
  obtain m where m: "m = (if a0 \<noteq> a then n + 1 else n)" by simp
  have r: "renumber a0 (a # as) n = m # renumber a as m" by (simp add: Let_def m)
  have "rising k m ks' (renumber a as m) (Suc (last (m # renumber a as m)))"
    using Cons.prems(1) Cons.prems(2) [of "Suc i" for i] ks by (intro Cons.IH) auto
  moreover have "a0 = a \<longrightarrow> k0 = k" using Cons.prems(2) [of 0] ks by simp
  ultimately show ?case unfolding r ks using m by auto
qed simp


definition children_of :: "CellID list \<Rightarrow> NodeID list \<Rightarrow> MultiLevelPartition \<Rightarrow> LevelID \<Rightarrow> CellID list" where
  "children_of parent perm mlp l = GetCell mlp l (hd perm) #
     child_starts (parent ! hd perm) (map ((!) parent) perm) (map (GetCell mlp l) perm) @
     [GetCell mlp l (last perm) + 1]"

lemma children_level_eq:
  "children_level parts perm mlp k = mlp\<lparr>level_data := (level_data mlp)\<lparr>lidx_to_children_offsets :=
     (lidx_to_children_offsets (level_data mlp))[k + 1 := length (cell_to_children mlp)]\<rparr>,
     cell_to_children := cell_to_children mlp @ children_of (parts ! (k + 1)) perm mlp (k + 1)\<rparr>"
  by (simp add: children_level_def Let_def push_children_starts children_of_def)

lemma children_of_frame:
  "(\<And>v. GetCell m' l v = GetCell m l v) \<Longrightarrow> children_of parent perm m' l = children_of parent perm m l"
  by (simp add: children_of_def cong: map_cong)

lemma children_levels_spec:
  assumes "n < length (lidx_to_children_offsets (level_data mlp))"
  shows "j \<le> n \<Longrightarrow> k < j \<Longrightarrow>
    \<exists>pre post. cell_to_children (foldl (children_level parts perm) mlp [0..<j]) =
        pre @ children_of (parts ! (k + 1)) perm mlp (k + 1) @ post \<and>
      lidx_to_children_offsets (level_data (foldl (children_level parts perm) mlp [0..<j])) ! (k + 1) = length pre \<and>
      length (lidx_to_children_offsets (level_data (foldl (children_level parts perm) mlp [0..<j]))) =
        length (lidx_to_children_offsets (level_data mlp))"
proof (induction j)
  case (Suc j)
  let ?m = "foldl (children_level parts perm) mlp [0..<j]"
  have step: "foldl (children_level parts perm) mlp [0..<Suc j] = children_level parts perm ?m j" by simp
  have len: "length (lidx_to_children_offsets (level_data ?m)) = length (lidx_to_children_offsets (level_data mlp))"
    by (induction j) (simp_all add: children_level_eq)
  show ?case
  proof (cases "k < j")
    case True
    with Suc obtain pre post where ih: "cell_to_children ?m = pre @ children_of (parts ! (k + 1)) perm mlp (k + 1) @ post"
      "lidx_to_children_offsets (level_data ?m) ! (k + 1) = length pre" by auto
    show ?thesis unfolding step
      by (intro exI [of _ pre] exI [of _ "post @ children_of (parts ! (j + 1)) perm ?m (j + 1)"])
        (use ih True len in \<open>simp add: children_level_eq\<close>)
  next
    case False
    then have "k = j" using Suc.prems(2) by simp
    have "children_of (parts ! (j + 1)) perm ?m (j + 1) = children_of (parts ! (j + 1)) perm mlp (j + 1)"
      using children_levels_frame by (intro children_of_frame) blast
    then show ?thesis unfolding step \<open>k = j\<close>
      by (intro exI [of _ "cell_to_children ?m"] exI [of _ "[]"])
        (use Suc.prems(1) assms len in \<open>simp add: children_level_eq\<close>)
  qed
qed simp

text \<open>The recorded children of a level, read back through \<^verbatim>\<open>BeginChildren\<close> and
  \<^verbatim>\<open>EndChildren\<close>.\<close>

lemma BeginChildren_init:
  assumes "length cells < MAX_NUM_LEVEL" "length (lidx_to_children_offsets (level_data mlp)) = MAX_NUM_LEVEL - 1"
    and ok: "layout_ok cells (level_data mlp)" and p: "parts_ok parts n cells"
    and l: "1 \<le> l" "l < length cells"
  defines "E \<equiv> children_of (parts ! l) (sort_nodes parts [0..<n]) (assigned parts mlp) l"
  shows "c < length E \<Longrightarrow> BeginChildren (InitializePartitionIDs parts mlp) (l + 1) c = E ! c"
    and "Suc c < length E \<Longrightarrow> EndChildren (InitializePartitionIDs parts mlp) (l + 1) c = E ! Suc c"
proof -
  let ?perm = "sort_nodes parts [0..<n]"
  let ?a = "(assigned parts mlp)\<lparr>level_data := (level_data (assigned parts mlp))\<lparr>lidx_to_children_offsets :=
          (lidx_to_children_offsets (level_data (assigned parts mlp)))[0 := 0]\<rparr>\<rparr>"
  have n: "length (hd parts) = n" "length parts = length cells" using p sort_nodes_spec(1) [OF p] by (simp_all add: parts_ok_def)
  have r: "InitializePartitionIDs parts mlp = foldl (children_level parts ?perm) ?a [0..<length cells - 1]"
    unfolding InitializePartitionIDs_assigned n ..
  have ld: "level_data (assigned parts mlp) = level_data mlp"
    using keepsD(1) [OF assigned_spec(1) [OF ok p]] by simp
  have "length cells - 1 < length (lidx_to_children_offsets (level_data ?a))"
    using assms(1,2) l(2) by (simp add: ld)
  from children_levels_spec [OF this le_refl, of "l - 1" parts ?perm]
  obtain pre post where c: "cell_to_children (InitializePartitionIDs parts mlp) =
        pre @ children_of (parts ! (l - 1 + 1)) ?perm ?a (l - 1 + 1) @ post"
      "lidx_to_children_offsets (level_data (InitializePartitionIDs parts mlp)) ! (l - 1 + 1) = length pre"
    unfolding r using l by (metis diff_less_mono)
  have "children_of (parts ! l) ?perm ?a l = E"
    unfolding E_def by (rule children_of_frame) (simp add: GetCell_def Let_def)
  with c l have c': "cell_to_children (InitializePartitionIDs parts mlp) = pre @ E @ post"
      "lidx_to_children_offsets (level_data (InitializePartitionIDs parts mlp)) ! l = length pre"
    by simp_all
  show "c < length E \<Longrightarrow> BeginChildren (InitializePartitionIDs parts mlp) (l + 1) c = E ! c"
    by (simp add: BeginChildren_def LevelIDToIndex_def c' nth_append)
  show "Suc c < length E \<Longrightarrow> EndChildren (InitializePartitionIDs parts mlp) (l + 1) c = E ! Suc c"
    by (simp add: EndChildren_def LevelIDToIndex_def c' nth_append)
qed

lemma children_of_spec:
  assumes ok: "layout_ok cells (level_data mlp)" and p: "parts_ok parts n cells"
    and l: "1 \<le> l" "l < length cells" and v: "v < n"
  defines "E \<equiv> children_of (parts ! l) (sort_nodes parts [0..<n]) (assigned parts mlp) l"
  shows "sorted E" "Suc (GetCell (assigned parts mlp) (l + 1) v) < length E"
    "E ! GetCell (assigned parts mlp) (l + 1) v \<le> GetCell (assigned parts mlp) l v"
    "GetCell (assigned parts mlp) l v < E ! Suc (GetCell (assigned parts mlp) (l + 1) v)"
proof -
  let ?perm = "sort_nodes parts [0..<n]" and ?a = "assigned parts mlp"
  let ?as = "numbered ?perm (parts ! (l - 1))" and ?ks = "map ((!) (parts ! l)) ?perm"
  let ?k0 = "parts ! l ! hd ?perm"
  note s = sort_nodes_spec [OF p] and a = assigned_spec [OF ok p]
  have lk: "l - 1 < length cells" "Suc (l - 1) = l" using l by auto
  have n0: "0 < n" using p by (simp add: parts_ok_def)
  have cs: "map (GetCell ?a l) ?perm = ?as"
    using a(2) [OF lk(1)] lk(2) s(6) by (intro nth_equalityI) auto
  have hd: "hd ?perm = ?perm ! 0" "last ?perm = ?perm ! (n - 1)" using s(3,6) by (simp_all add: hd_conv_nth last_conv_nth)
  have first: "GetCell ?a l (hd ?perm) = 0"
  proof -
    have "GetCell ?a l (hd ?perm) = ?as ! 0" using a(2) [OF lk(1), of 0] n0 lk(2) by (simp add: hd)
    also have "\<dots> = 0" using s(3) by (cases ?perm) (simp_all add: numbered_def Let_def)
    finally show ?thesis .
  qed
  have lastc: "GetCell ?a l (last ?perm) = last (0 # ?as)"
    using a(2) [OF lk(1), of "n - 1"] n0 lk(2) s(6)
    by (cases "?as = []") (simp_all add: hd last_conv_nth flip: length_0_conv)
  have E: "E = 0 # child_starts ?k0 ?ks ?as @ [Suc (last (0 # ?as))]"
    unfolding E_def children_of_def cs first lastc by simp
  have "rising ?k0 0 ?ks ?as (Suc (last (0 # ?as)))"
    unfolding numbered_def
  proof (rule rising_renumber)
    fix i assume i: "i < length ?ks"
      and eq: "(parts ! (l - 1) ! hd ?perm # map ((!) (parts ! (l - 1))) ?perm) ! i = map ((!) (parts ! (l - 1))) ?perm ! i"
    have nest: "parts ! (l - 1) ! x = parts ! (l - 1) ! y \<Longrightarrow> parts ! l ! x = parts ! l ! y"
      if "x < n" "y < n" for x y
    proof -
      assume e: "parts ! (l - 1) ! x = parts ! (l - 1) ! y"
      have np: "nested_parts parts n" and ll: "l - 1 < l" "l < length parts" using p l by (simp_all add: parts_ok_def)
      from np [unfolded nested_parts_def, rule_format, OF ll that e]
      show "parts ! l ! x = parts ! l ! y" .
    qed
    show "(?k0 # ?ks) ! i = ?ks ! i"
    proof (cases i)
      case 0
      then show ?thesis using s(3) i by (simp add: hd_conv_nth)
    next
      case (Suc j)
      have "?perm ! i \<in> set ?perm" "?perm ! j \<in> set ?perm" using i Suc by simp_all
      then have "?perm ! i < n" "?perm ! j < n" using s(5) by simp_all
      moreover have "parts ! (l - 1) ! (?perm ! j) = parts ! (l - 1) ! (?perm ! i)" using eq i Suc by simp
      ultimately have "parts ! l ! (?perm ! j) = parts ! l ! (?perm ! i)" using nest by blast
      then show ?thesis using i Suc by simp
    qed
  qed simp
  note rs = rising_starts [OF this order.refl, folded E]
  show "sorted E" using rs by blast
  have "v \<in> set ?perm" using v s(5) by simp
  then obtain i where i: "i < n" "?perm ! i = v" unfolding in_set_conv_nth s(6) by blast
  have "GetCell ?a (l + 1) v = renumber ?k0 ?ks 0 ! i" "GetCell ?a l v = ?as ! i"
    using a(2) [OF l(2), of i] a(2) [OF lk(1), of i] i lk(2) by (simp_all add: numbered_def)
  then show "Suc (GetCell ?a (l + 1) v) < length E" "E ! GetCell ?a (l + 1) v \<le> GetCell ?a l v"
    "GetCell ?a l v < E ! Suc (GetCell ?a (l + 1) v)"
    using rs i(1) s(6) by simp_all
qed

text \<open>
  Property C32. The children of a cell.  After \<^verbatim>\<open>InitializePartitionIDs\<close> the cells of a level
  that lie in a cell of the next higher level are exactly those numbered from its
  \<^verbatim>\<open>BeginChildren\<close> up to before its \<^verbatim>\<open>EndChildren\<close>.
\<close>

theorem InitializePartitionIDs_children:
  assumes "layout_ok cells (level_data mlp)" "parts_ok parts n cells" "length cells < MAX_NUM_LEVEL"
    and "length (lidx_to_children_offsets (level_data mlp)) = MAX_NUM_LEVEL - 1"
    and "1 \<le> l" "l < length cells" "u < n" "v < n"
  shows "GetCell (InitializePartitionIDs parts mlp) (l + 1) v = GetCell (InitializePartitionIDs parts mlp) (l + 1) u \<longleftrightarrow>
    BeginChildren (InitializePartitionIDs parts mlp) (l + 1) (GetCell (InitializePartitionIDs parts mlp) (l + 1) u)
      \<le> GetCell (InitializePartitionIDs parts mlp) l v \<and>
    GetCell (InitializePartitionIDs parts mlp) l v
      < EndChildren (InitializePartitionIDs parts mlp) (l + 1) (GetCell (InitializePartitionIDs parts mlp) (l + 1) u)"
proof -
  let ?E = "children_of (parts ! l) (sort_nodes parts [0..<n]) (assigned parts mlp) l"
  let ?p = "GetCell (assigned parts mlp) (l + 1)" and ?c = "GetCell (assigned parts mlp) l"
  note u = children_of_spec [OF assms(1,2,5,6,7)] and v = children_of_spec [OF assms(1,2,5,6,8)]
  note ends = BeginChildren_init [OF assms(3,4,1,2,5,6)]
  have be: "BeginChildren (InitializePartitionIDs parts mlp) (l + 1) (?p u) = ?E ! ?p u"
    "EndChildren (InitializePartitionIDs parts mlp) (l + 1) (?p u) = ?E ! Suc (?p u)"
    using ends u(2) by simp_all
  have "?E ! ?p u \<le> ?c v \<and> ?c v < ?E ! Suc (?p u) \<Longrightarrow> ?p v = ?p u"
  proof (rule ccontr)
    assume in_range: "?E ! ?p u \<le> ?c v \<and> ?c v < ?E ! Suc (?p u)" and "?p v \<noteq> ?p u"
    then consider "?p v < ?p u" | "?p u < ?p v" by linarith
    then show False
    proof cases
      case 1
      then have "?E ! Suc (?p v) \<le> ?E ! ?p u" using u(1,2) by (intro sorted_nth_mono) auto
      then show False using v(4) in_range by simp
    next
      case 2
      then have "?E ! Suc (?p u) \<le> ?E ! ?p v" using v(1,2) by (intro sorted_nth_mono) auto
      then show False using v(3) in_range by simp
    qed
  qed
  moreover have "?E ! ?p u \<le> ?c v \<and> ?c v < ?E ! Suc (?p u)" if "?p v = ?p u" using v(3,4) that by simp
  ultimately show ?thesis unfolding init_frame(1) be by blast
qed


lemma example_level_data_children:
  "length (lidx_to_children_offsets example_level_data) = MAX_NUM_LEVEL - 1"
proof -
  have "lidx_to_children_offsets ld = replicate (MAX_NUM_LEVEL - 1) 0"
    if "MakeLevelData example_junk [4, 2] = Inr ld" for ld
    using that by (auto simp: MakeLevelData_def Let_def split: sum.splits)
  from this [OF example_layout(2)] show ?thesis by simp
qed

lemma InitializePartitionIDs_children_witness:
  "let r = InitializePartitionIDs example_parts \<lparr>level_data = example_level_data, partition = [], cell_to_children = []\<rparr>
   in BeginChildren r 2 (GetCell r 2 1) \<le> GetCell r 1 3 \<and> GetCell r 1 3 < EndChildren r 2 (GetCell r 2 1)"
proof -
  let ?m = "\<lparr>level_data = example_level_data, partition = [], cell_to_children = []\<rparr>"
  have ok: "layout_ok [4, 2] (level_data ?m)" using example_layout(1) by simp
  have "GetCell (InitializePartitionIDs example_parts ?m) 2 3 = GetCell (InitializePartitionIDs example_parts ?m) 2 1"
    using init_cells_spec [OF ok example_parts_ok, of 2 3 1] by (simp add: example_parts_def)
  with InitializePartitionIDs_children [OF ok example_parts_ok, of 1 1 3]
  show ?thesis by (simp add: MAX_NUM_LEVEL_def example_level_data_children Let_def numeral_2_eq_2)
qed

end
