(* ===== verification/BisectionToPartition.thy ===== *)
theory BisectionToPartition
  imports MultiLevelPartition
begin

text \<open>
  From bisection ids to nested partitions, \<^verbatim>\<open>src/partitioner/bisection_to_partition.cpp\<close>.

  \<^verbatim>\<open>std::partition\<close> leaves the order on both sides open: it is the parameter \<open>part\<close>, of
  which only its documented effect \<open>std_partition\<close> is assumed.
\<close>

unbundle bit_operations_syntax

section \<open>Definitions\<close>

type_synonym BisectionID = "32 word"

definition NUM_BISECTION_BITS :: nat where "NUM_BISECTION_BITS = 32"

definition INVALID_CELL_ID :: CellID where "INVALID_CELL_ID = 4294967295"

record CellBisection =
  cb_begin :: nat
  cb_end :: nat
  cb_bit :: nat
  cb_tabu :: bool

type_synonym partition_fn = "(NodeID \<Rightarrow> bool) \<Rightarrow> NodeID list \<Rightarrow> NodeID list"

definition std_partition :: "partition_fn \<Rightarrow> bool" where
  "std_partition part \<longleftrightarrow> (\<forall>P xs. mset (part P xs) = mset xs \<and>
     part P xs = filter P (part P xs) @ filter (\<lambda>x. \<not> P x) (part P xs))"

definition getLargeCells :: "nat \<Rightarrow> CellBisection list \<Rightarrow> nat list" where
  "getLargeCells max_cell_size cells =
     filter (\<lambda>i. \<not> cb_tabu (cells ! i) \<and> cb_end (cells ! i) - cb_begin (cells ! i) > max_cell_size)
       [0..<length cells]"

fun write_cells :: "NodeID list \<Rightarrow> CellBisection list \<Rightarrow> CellID \<Rightarrow> CellID list \<Rightarrow> CellID list" where
  "write_cells permutation [] cell_id part = part"
| "write_cells permutation (cell # cells) cell_id part =
     write_cells permutation cells (cell_id + 1)
       (foldl (\<lambda>p node. p[node := cell_id]) part (slice permutation (cb_begin cell) (cb_end cell)))"

definition cellsToPartition :: "CellBisection list \<Rightarrow> NodeID list \<Rightarrow> CellID list" where
  "cellsToPartition cells permutation =
     write_cells permutation cells 0 (replicate (length permutation) INVALID_CELL_ID)"

text \<open>The mask of the bits up to \<open>n\<close>, computed in 64 bits.\<close>

definition low_mask :: "nat \<Rightarrow> BisectionID" where
  "low_mask n = ucast (push_bit (n + 1) 1 - 1 :: 64 word)"

definition is_left :: "BisectionID list \<Rightarrow> nat \<Rightarrow> NodeID \<Rightarrow> bool" where
  "is_left ids b node \<longleftrightarrow> ids ! node AND (push_bit b 1 :: BisectionID) \<noteq> 0"

definition split_at_bit ::
  "partition_fn \<Rightarrow> BisectionID list \<Rightarrow> nat \<Rightarrow> nat \<Rightarrow> NodeID list \<times> CellBisection list \<Rightarrow>
   NodeID list \<times> CellBisection list" where
  "split_at_bit part ids cell_index b = (\<lambda>(permutation, cells).
     (let cell = cells ! cell_index;
          nodes = slice permutation (cb_begin cell) (cb_end cell);
          permutation' = take (cb_begin cell) permutation @ part (is_left ids b) nodes @
            drop (cb_end cell) permutation;
          middle = cb_begin cell + length (filter (is_left ids b) nodes);
          cell' = (if b > 0 then cell\<lparr>cb_bit := b - 1\<rparr> else cell\<lparr>cb_tabu := True\<rparr>)
      in if middle \<noteq> cb_begin cell \<and> middle \<noteq> cb_end cell
         then (permutation', cells[cell_index := cell'\<lparr>cb_end := middle\<rparr>] @
                [\<lparr>cb_begin = middle, cb_end = cb_end cell, cb_bit = cb_bit cell', cb_tabu = cb_tabu cell'\<rparr>])
         else (permutation', cells[cell_index := cell'])))"

definition split_cell ::
  "partition_fn \<Rightarrow> BisectionID list \<Rightarrow> nat \<Rightarrow> NodeID list \<times> CellBisection list \<Rightarrow>
   NodeID list \<times> CellBisection list" where
  "split_cell part ids cell_index = (\<lambda>(permutation, cells).
     (let cell = cells ! cell_index;
          sum = foldl (\<lambda>lhs rhs. lhs OR ids ! rhs) 0 (slice permutation (cb_begin cell) (cb_end cell));
          masked_sum = sum AND low_mask (cb_bit cell)
      in if masked_sum = 0 then (permutation, cells[cell_index := cell\<lparr>cb_tabu := True\<rparr>])
         else split_at_bit part ids cell_index (util_msb masked_sum) (permutation, cells)))"

text \<open>The bits still to try, per node: what the splitting uses up.\<close>

definition cell_work :: "CellBisection \<Rightarrow> nat" where
  "cell_work c = (if cb_tabu c then 0 else (cb_end c - cb_begin c) * (cb_bit c + 1))"

definition work :: "CellBisection list \<Rightarrow> nat" where
  "work cells = sum_list (map cell_work cells)"

lemma work_update: "i < length cells \<Longrightarrow> work (cells[i := c]) + cell_work (cells ! i) = work cells + cell_work c"
proof (induction cells arbitrary: i)
  case (Cons d cells)
  show ?case by (cases i) (use Cons in \<open>auto simp: work_def\<close>)
qed simp

lemma work_append [simp]: "work (xs @ ys) = work xs + work ys"
  by (simp add: work_def)

lemma low_mask_bit: "bit (low_mask n) i \<longleftrightarrow> i \<le> n \<and> i < 32"
proof -
  have "(push_bit (n + 1) 1 - 1 :: 64 word) = mask (n + 1)" by (simp add: mask_eq_exp_minus_1)
  then show ?thesis unfolding low_mask_def by (auto simp: bit_ucast_iff bit_mask_iff possible_bit_word)
qed

lemma masked_msb: "s AND low_mask n \<noteq> 0 \<Longrightarrow> util_msb (s AND low_mask n) \<le> n"
  using util_msb_spec(1) [of "s AND low_mask n"] by (simp add: bit_and_iff low_mask_bit)

lemma mult_add_le: "a \<le> m \<Longrightarrow> m \<le> e \<Longrightarrow> (m - a) * k + (e - m) * k = (e - a) * (k::nat)"
  by (simp flip: add_mult_distrib)

text \<open>Splitting leaves the other cells alone.\<close>

lemma split_cell_others:
  assumes "split_cell part ids i (perm, cells) = (perm', cells')" "i < length cells"
  shows "length cells \<le> length cells' \<and> (\<forall>j < length cells. j \<noteq> i \<longrightarrow> cells' ! j = cells ! j)"
proof -
  have "length cells \<le> length (snd (split_cell part ids i (perm, cells))) \<and>
    (\<forall>j < length cells. j \<noteq> i \<longrightarrow> snd (split_cell part ids i (perm, cells)) ! j = cells ! j)"
    by (simp add: split_cell_def split_at_bit_def Let_def nth_append)
  then show ?thesis using assms(1) by simp
qed

lemma split_at_bit_work:
  assumes i: "i < length cells" "\<not> cb_tabu (cells ! i)" "cb_begin (cells ! i) < cb_end (cells ! i)"
    and b: "b \<le> cb_bit (cells ! i)"
  shows "work (snd (split_at_bit part ids i b (perm, cells))) < work cells"
proof -
  let ?c = "cells ! i"
  let ?nodes = "slice perm (cb_begin ?c) (cb_end ?c)"
  let ?m = "cb_begin ?c + length (filter (is_left ids b) ?nodes)"
  let ?c' = "if b > 0 then ?c\<lparr>cb_bit := b - 1\<rparr> else ?c\<lparr>cb_tabu := True\<rparr>"
  have m: "cb_begin ?c \<le> ?m" "?m \<le> cb_end ?c"
    using length_filter_le [of "is_left ids b" ?nodes] i(3) by simp_all
  have "(cb_end ?c - cb_begin ?c) * b < (cb_end ?c - cb_begin ?c) * (cb_bit ?c + 1)"
    by (rule mult_strict_left_mono) (use b i(3) in auto)
  then have small: "(cb_end ?c - cb_begin ?c) * b < cell_work ?c" using i(2) by (simp add: cell_work_def)
  show ?thesis
  proof (cases "?m \<noteq> cb_begin ?c \<and> ?m \<noteq> cb_end ?c")
    case True
    have r: "snd (split_at_bit part ids i b (perm, cells)) = cells[i := ?c'\<lparr>cb_end := ?m\<rparr>] @
        [\<lparr>cb_begin = ?m, cb_end = cb_end ?c, cb_bit = cb_bit ?c', cb_tabu = cb_tabu ?c'\<rparr>]"
      using True by (simp add: split_at_bit_def Let_def)
    have "cell_work (?c'\<lparr>cb_end := ?m\<rparr>) +
        cell_work \<lparr>cb_begin = ?m, cb_end = cb_end ?c, cb_bit = cb_bit ?c', cb_tabu = cb_tabu ?c'\<rparr> =
        (cb_end ?c - cb_begin ?c) * b"
      using mult_add_le [OF m, of b] i(2) by (cases b) (simp_all add: cell_work_def)
    with small have "cell_work (?c'\<lparr>cb_end := ?m\<rparr>) + work
        [\<lparr>cb_begin = ?m, cb_end = cb_end ?c, cb_bit = cb_bit ?c', cb_tabu = cb_tabu ?c'\<rparr>] < cell_work ?c"
      by (simp add: work_def)
    with work_update [OF i(1), of "?c'\<lparr>cb_end := ?m\<rparr>"] show ?thesis
      unfolding r work_append by linarith
  next
    case no: False
    have r: "snd (split_at_bit part ids i b (perm, cells)) = cells[i := ?c']"
      unfolding split_at_bit_def Let_def prod.case if_not_P [OF no] by simp
    have "cell_work ?c' = (cb_end ?c - cb_begin ?c) * b" using i(2) by (cases b) (simp_all add: cell_work_def)
    with small work_update [OF i(1), of ?c'] show ?thesis unfolding r by linarith
  qed
qed

lemma split_cell_work:
  assumes i: "i < length cells" "\<not> cb_tabu (cells ! i)" "cb_begin (cells ! i) < cb_end (cells ! i)"
  shows "work (snd (split_cell part ids i (perm, cells))) < work cells"
proof -
  let ?c = "cells ! i"
  let ?ms = "foldl (\<lambda>lhs rhs. lhs OR ids ! rhs) 0 (slice perm (cb_begin ?c) (cb_end ?c)) AND low_mask (cb_bit ?c)"
  have pos: "0 < (cb_end ?c - cb_begin ?c) * (cb_bit ?c + 1)" using i(3) by simp
  show ?thesis
  proof (cases "?ms = 0")
    case True
    then have "snd (split_cell part ids i (perm, cells)) = cells[i := ?c\<lparr>cb_tabu := True\<rparr>]"
      by (simp add: split_cell_def Let_def)
    moreover have "0 < cell_work ?c" using i(2) pos unfolding cell_work_def by simp
    moreover have "cell_work (?c\<lparr>cb_tabu := True\<rparr>) = 0" by (simp add: cell_work_def)
    ultimately show ?thesis
      using work_update [OF i(1), of "?c\<lparr>cb_tabu := True\<rparr>"] by simp
  next
    case False
    then have "split_cell part ids i (perm, cells) = split_at_bit part ids i (util_msb ?ms) (perm, cells)"
      by (simp add: split_cell_def Let_def)
    then show ?thesis using split_at_bit_work [OF i masked_msb [OF False]] by (simp only:)
  qed
qed

definition large :: "CellBisection list \<Rightarrow> nat \<Rightarrow> bool" where
  "large cells i \<longleftrightarrow> i < length cells \<and> \<not> cb_tabu (cells ! i) \<and> cb_begin (cells ! i) < cb_end (cells ! i)"

lemma split_cells_work:
  assumes "distinct is" "\<forall>i \<in> set is. large (snd st) i"
  shows "work (snd (foldl (\<lambda>st i. split_cell part ids i st) st is)) \<le> work (snd st) \<and>
    (is \<noteq> [] \<longrightarrow> work (snd (foldl (\<lambda>st i. split_cell part ids i st) st is)) < work (snd st))"
  using assms
proof (induction "is" arbitrary: st)
  case (Cons i js)
  obtain perm cells where st: "st = (perm, cells)" by fastforce
  obtain perm' cells' where st': "split_cell part ids i (perm, cells) = (perm', cells')" by fastforce
  have l: "large cells i" using Cons.prems st by simp
  then have less: "work cells' < work cells"
    using split_cell_work [of i cells part ids perm] st' by (simp add: large_def)
  have "large cells' j" if "j \<in> set js" for j
  proof -
    have "large cells j" "j \<noteq> i" using that Cons.prems st by auto
    then show ?thesis
      using split_cell_others [OF st'] l unfolding large_def by (metis less_le_trans)
  qed
  then have "work (snd (foldl (\<lambda>st i. split_cell part ids i st) (perm', cells') js)) \<le> work cells'"
    using Cons.IH [of "(perm', cells')"] Cons.prems(1) by simp
  then show ?case using less by (simp add: st st')
qed simp

function partitionLevel ::
  "partition_fn \<Rightarrow> BisectionID list \<Rightarrow> nat \<Rightarrow> NodeID list \<times> CellBisection list \<Rightarrow>
   NodeID list \<times> CellBisection list" where
  "partitionLevel part ids max_cell_size st =
     (let large_cells = getLargeCells max_cell_size (snd st)
      in if length large_cells > 0
         then partitionLevel part ids max_cell_size
                (foldl (\<lambda>st i. split_cell part ids i st) st large_cells)
         else st)"
  by pat_completeness auto

lemma getLargeCells_large: "i \<in> set (getLargeCells n cells) \<Longrightarrow> large cells i"
  by (auto simp: getLargeCells_def large_def)

termination partitionLevel
proof (relation "measure (\<lambda>(part, ids, n, st). work (snd st))")
  fix part ids max_cell_size and st :: "NodeID list \<times> CellBisection list" and x
  assume x: "x = getLargeCells max_cell_size (snd st)" "length x > 0"
  have "distinct x" by (simp add: x(1) getLargeCells_def)
  moreover have "\<forall>i \<in> set x. large (snd st) i" using getLargeCells_large x(1) by blast
  moreover have "x \<noteq> []" using x(2) by simp
  ultimately show "((part, ids, max_cell_size, foldl (\<lambda>st i. split_cell part ids i st) st x),
      part, ids, max_cell_size, st) \<in> measure (\<lambda>(part, ids, n, st). work (snd st))"
    using split_cells_work by simp
qed simp

declare partitionLevel.simps [simp del]

fun convert_levels ::
  "partition_fn \<Rightarrow> BisectionID list \<Rightarrow> nat list \<Rightarrow> nat \<Rightarrow> NodeID list \<times> CellBisection list \<Rightarrow>
   CellID list list \<times> nat list \<Rightarrow> CellID list list \<times> nat list" where
  "convert_levels part ids [] level_idx st out = out"
| "convert_levels part ids (max_cell_size # sizes) level_idx st (partitions, num_cells) =
     (let (permutation, cells) = partitionLevel part ids max_cell_size st
      in convert_levels part ids sizes (level_idx - 1) (permutation, cells)
           (partitions[level_idx := cellsToPartition cells permutation],
            num_cells[level_idx := length cells]))"

definition bisectionToPartition ::
  "partition_fn \<Rightarrow> BisectionID list \<Rightarrow> nat list \<Rightarrow> CellID list list \<times> nat list" where
  "bisectionToPartition part ids max_cell_sizes =
     convert_levels part ids (rev max_cell_sizes) (length max_cell_sizes - 1)
       ([0..<length ids],
        [\<lparr>cb_begin = 0, cb_end = length ids, cb_bit = NUM_BISECTION_BITS - 1, cb_tabu = False\<rparr>])
       (replicate (length max_cell_sizes) [], replicate (length max_cell_sizes) 0)"


section \<open>The cells along the permutation\<close>

lemma slice_outside:
  assumes "b \<le> e" "e \<le> length xs" "length ys = e - b" "e' \<le> b \<or> e \<le> b'" "e' \<le> length xs"
  shows "slice (take b xs @ ys @ drop e xs) b' e' = slice xs b' e'"
  by (rule slice_cong) (use assms in \<open>auto simp: nth_append\<close>)

lemma slice_inside:
  assumes "b \<le> e" "e \<le> length xs" "length ys = e - b" "b \<le> b'" "e' \<le> e"
  shows "slice (take b xs @ ys @ drop e xs) b' e' = slice ys (b' - b) (e' - b)"
  by (rule nth_equalityI) (use assms in \<open>auto simp: nth_append\<close>)

definition cell_nodes :: "NodeID list \<Rightarrow> CellBisection \<Rightarrow> NodeID set" where
  "cell_nodes perm c = set (slice perm (cb_begin c) (cb_end c))"

text \<open>Nodes of a cell agree on the bits that were already used to split.\<close>

definition bits_agree :: "BisectionID list \<Rightarrow> CellBisection \<Rightarrow> NodeID set \<Rightarrow> bool" where
  "bits_agree ids c ns \<longleftrightarrow> (\<forall>u \<in> ns. \<forall>v \<in> ns. \<forall>k.
     cb_tabu c \<or> cb_bit c < k \<longrightarrow> bit (ids ! u) k = bit (ids ! v) k)"

definition cells_inv :: "BisectionID list \<Rightarrow> NodeID list \<Rightarrow> CellBisection list \<Rightarrow> bool" where
  "cells_inv ids perm cells \<longleftrightarrow> mset perm = mset [0..<length ids] \<and>
     (\<forall>i < length cells. cb_begin (cells ! i) < cb_end (cells ! i) \<and> cb_end (cells ! i) \<le> length ids \<and>
        cb_bit (cells ! i) < NUM_BISECTION_BITS \<and> bits_agree ids (cells ! i) (cell_nodes perm (cells ! i))) \<and>
     (\<forall>i < length cells. \<forall>j < length cells. i \<noteq> j \<longrightarrow>
        cb_end (cells ! i) \<le> cb_begin (cells ! j) \<or> cb_end (cells ! j) \<le> cb_begin (cells ! i)) \<and>
     (\<forall>v < length ids. \<exists>i < length cells. v \<in> cell_nodes perm (cells ! i)) \<and>
     (\<forall>i < length cells. \<forall>j < length cells. i \<noteq> j \<longrightarrow>
        (\<forall>u \<in> cell_nodes perm (cells ! i). \<forall>v \<in> cell_nodes perm (cells ! j). ids ! u \<noteq> ids ! v))"

definition refines :: "NodeID list \<times> CellBisection list \<Rightarrow> NodeID list \<times> CellBisection list \<Rightarrow> bool" where
  "refines st' st \<longleftrightarrow> (\<forall>j < length (snd st'). \<exists>i < length (snd st).
     cell_nodes (fst st') (snd st' ! j) \<subseteq> cell_nodes (fst st) (snd st ! i))"

lemma refines_refl: "refines st st"
  unfolding refines_def by blast

lemma refines_trans: "refines c b \<Longrightarrow> refines b a \<Longrightarrow> refines c a"
  unfolding refines_def by (meson order_trans)

lemma foldl_OR_bit:
  "bit (foldl (\<lambda>lhs rhs. lhs OR f rhs) a xs :: 'a::len word) k \<longleftrightarrow> bit a k \<or> (\<exists>x \<in> set xs. bit (f x) k)"
  by (induction xs arbitrary: a) (auto simp: bit_or_iff)

lemma is_left_bit: "is_left ids b node \<longleftrightarrow> bit (ids ! node) b"
  by (simp add: is_left_def bit_iff_and_push_bit_not_eq_0)

text \<open>The two sides of a split agree on one bit more.\<close>

lemma split_bits:
  assumes agree: "bits_agree ids c ns" and ns: "ns = set xs" and nt: "\<not> cb_tabu c" and bit32: "cb_bit c < NUM_BISECTION_BITS"
    and m: "m = foldl (\<lambda>lhs rhs. lhs OR ids ! rhs) 0 xs AND low_mask (cb_bit c)"
  shows "m = 0 \<Longrightarrow> bits_agree ids (c\<lparr>cb_tabu := True\<rparr>) ns"
    and "m \<noteq> 0 \<Longrightarrow> S \<subseteq> ns \<Longrightarrow> (\<forall>u \<in> S. \<forall>v \<in> S. bit (ids ! u) (util_msb m) = bit (ids ! v) (util_msb m)) \<Longrightarrow>
      c' = (if util_msb m > 0 then c\<lparr>cb_bit := util_msb m - 1\<rparr> else c\<lparr>cb_tabu := True\<rparr>) \<Longrightarrow>
      cb_bit c' < NUM_BISECTION_BITS \<and> bits_agree ids c' S"
proof -
  have mk: "bit m k \<longleftrightarrow> k \<le> cb_bit c \<and> (\<exists>x \<in> ns. bit (ids ! x) k)" for k
    unfolding m bit_and_iff foldl_OR_bit [where f = "(!) ids"] low_mask_bit ns
    using bit32 by (auto simp: NUM_BISECTION_BITS_def)
  have high: "bit (ids ! u) k = bit (ids ! v) k" if "u \<in> ns" "v \<in> ns" "cb_bit c < k" for u v k
    using agree that unfolding bits_agree_def by blast
  show "m = 0 \<Longrightarrow> bits_agree ids (c\<lparr>cb_tabu := True\<rparr>) ns"
    unfolding bits_agree_def
  proof (intro ballI allI impI)
    fix u v k assume "m = 0" and uv: "u \<in> ns" "v \<in> ns"
    then have "\<not> bit m k" by simp
    show "bit (ids ! u) k = bit (ids ! v) k"
    proof (cases "cb_bit c < k")
      case True
      then show ?thesis by (rule high [OF uv])
    next
      case False
      with mk [of k] \<open>\<not> bit m k\<close> have "\<not> bit (ids ! x) k" if "x \<in> ns" for x using that by auto
      with uv show ?thesis by blast
    qed
  qed
  assume nz: "m \<noteq> 0" and S: "S \<subseteq> ns"
    and b: "\<forall>u \<in> S. \<forall>v \<in> S. bit (ids ! u) (util_msb m) = bit (ids ! v) (util_msb m)"
    and c': "c' = (if util_msb m > 0 then c\<lparr>cb_bit := util_msb m - 1\<rparr> else c\<lparr>cb_tabu := True\<rparr>)"
  have le: "util_msb m \<le> cb_bit c" using masked_msb nz unfolding m by blast
  have all: "bit (ids ! u) k = bit (ids ! v) k" if uv: "u \<in> S" "v \<in> S" and k: "util_msb m \<le> k" for u v k
  proof -
    consider "k = util_msb m" | "util_msb m < k" "k \<le> cb_bit c" | "cb_bit c < k" using k by linarith
    then show ?thesis
    proof cases
      case 1
      then show ?thesis using b uv by blast
    next
      case 2
      then have "\<not> bit m k" using util_msb_spec(3) [OF nz, of k] by auto
      then show ?thesis using mk [of k] 2(2) uv S by blast
    next
      case 3
      then show ?thesis using high uv S by blast
    qed
  qed
  have used: "util_msb m \<le> k" if "cb_tabu c' \<or> cb_bit c' < k" for k
    using that nt c' by (cases "util_msb m > 0") auto
  have "bits_agree ids c' S"
    unfolding bits_agree_def using all used by blast
  moreover have "cb_bit c' < NUM_BISECTION_BITS" using c' le bit32 by (simp split: if_splits)
  ultimately show "cb_bit c' < NUM_BISECTION_BITS \<and> bits_agree ids c' S" by blast
qed


lemma cells_invD:
  assumes "cells_inv ids perm cells" "i < length cells"
  shows "mset perm = mset [0..<length ids]" "cb_begin (cells ! i) < cb_end (cells ! i)"
    "cb_end (cells ! i) \<le> length ids" "cb_bit (cells ! i) < NUM_BISECTION_BITS"
    "bits_agree ids (cells ! i) (cell_nodes perm (cells ! i))"
    "j < length cells \<Longrightarrow> i \<noteq> j \<Longrightarrow>
       cb_end (cells ! i) \<le> cb_begin (cells ! j) \<or> cb_end (cells ! j) \<le> cb_begin (cells ! i)"
    "j < length cells \<Longrightarrow> i \<noteq> j \<Longrightarrow> u \<in> cell_nodes perm (cells ! i) \<Longrightarrow> v \<in> cell_nodes perm (cells ! j) \<Longrightarrow>
       ids ! u \<noteq> ids ! v"
    "length perm = length ids"
  using assms mset_eq_length [of perm "[0..<length ids]"] by (auto simp: cells_inv_def)

lemma cell_nodes_cong: "cb_begin c = cb_begin d \<Longrightarrow> cb_end c = cb_end d \<Longrightarrow> cell_nodes perm c = cell_nodes perm d"
  by (simp add: cell_nodes_def)

text \<open>Replacing a cell by one with the same nodes, and by two that share them.\<close>

lemma cells_inv_replace:
  assumes inv: "cells_inv ids perm cells" and i: "i < length cells"
    and perm: "mset perm' = mset perm"
    and others: "\<And>j. j < length cells \<Longrightarrow> j \<noteq> i \<Longrightarrow> cell_nodes perm' (cells ! j) = cell_nodes perm (cells ! j)"
    and c: "cb_begin c = cb_begin (cells ! i)" "cb_end c = cb_end (cells ! i)"
    and ns: "cell_nodes perm' c = cell_nodes perm (cells ! i)"
    and b: "cb_bit c < NUM_BISECTION_BITS" "bits_agree ids c (cell_nodes perm (cells ! i))"
  shows "cells_inv ids perm' (cells[i := c]) \<and> refines (perm', cells[i := c]) (perm, cells)"
proof -
  have nodes: "cell_nodes perm' (cells[i := c] ! j) = cell_nodes perm (cells ! j)" if "j < length cells" for j
    using others [OF that] ns that by (cases "j = i") auto
  have ends: "cb_begin (cells[i := c] ! j) = cb_begin (cells ! j)" "cb_end (cells[i := c] ! j) = cb_end (cells ! j)"
    if "j < length cells" for j using c that by (cases "j = i"; simp)+
  have bits: "cb_bit (cells[i := c] ! j) < NUM_BISECTION_BITS \<and> bits_agree ids (cells[i := c] ! j) (cell_nodes perm (cells ! j))"
    if "j < length cells" for j
    using cells_invD(4,5) [OF inv that] b that by (cases "j = i") auto
  let ?cs = "cells[i := c]" and ?n = "length cells"
  have each: "cb_begin (?cs ! j) < cb_end (?cs ! j) \<and> cb_end (?cs ! j) \<le> length ids \<and>
      cb_bit (?cs ! j) < NUM_BISECTION_BITS \<and> bits_agree ids (?cs ! j) (cell_nodes perm' (?cs ! j))" if "j < ?n" for j
    using cells_invD(2,3) [OF inv that] bits [OF that] by (simp add: nodes [OF that] ends [OF that])
  have apart: "cb_end (?cs ! j) \<le> cb_begin (?cs ! k) \<or> cb_end (?cs ! k) \<le> cb_begin (?cs ! j)"
    if "j < ?n" "k < ?n" "j \<noteq> k" for j k
    using cells_invD(6) [OF inv that] by (simp add: ends that)
  have differ: "ids ! u \<noteq> ids ! v" if "j < ?n" "k < ?n" "j \<noteq> k" "u \<in> cell_nodes perm' (?cs ! j)"
      "v \<in> cell_nodes perm' (?cs ! k)" for j k u v
    using cells_invD(7) [OF inv that(1-3)] that nodes by simp
  have cover: "\<exists>j < ?n. v \<in> cell_nodes perm' (?cs ! j)" if "v < length ids" for v
    using inv that nodes unfolding cells_inv_def by metis
  have "mset perm' = mset [0..<length ids]" using perm cells_invD(1) [OF inv i] by simp
  then have "cells_inv ids perm' ?cs"
    unfolding cells_inv_def length_list_update using each apart differ cover by blast
  moreover have "refines (perm', cells[i := c]) (perm, cells)"
    unfolding refines_def using nodes by auto
  ultimately show ?thesis ..
qed

lemma cells_inv_split:
  assumes inv: "cells_inv ids perm cells" and i: "i < length cells"
    and perm: "mset perm' = mset perm"
    and others: "\<And>j. j < length cells \<Longrightarrow> j \<noteq> i \<Longrightarrow> cell_nodes perm' (cells ! j) = cell_nodes perm (cells ! j)"
    and c: "cb_begin c = cb_begin (cells ! i)" "cb_end c = m" and d: "cb_begin d = m" "cb_end d = cb_end (cells ! i)"
    and m: "cb_begin (cells ! i) < m" "m < cb_end (cells ! i)"
    and ns: "cell_nodes perm' c = {u \<in> cell_nodes perm (cells ! i). P u}" "cell_nodes perm' d = {u \<in> cell_nodes perm (cells ! i). \<not> P u}"
    and b: "cb_bit c < NUM_BISECTION_BITS" "bits_agree ids c (cell_nodes perm' c)"
      "cb_bit d < NUM_BISECTION_BITS" "bits_agree ids d (cell_nodes perm' d)"
    and diff: "\<And>u v. P u \<Longrightarrow> \<not> P v \<Longrightarrow> ids ! u \<noteq> ids ! v"
  shows "cells_inv ids perm' (cells[i := c] @ [d]) \<and> refines (perm', cells[i := c] @ [d]) (perm, cells)"
proof -
  let ?n = "length cells" and ?cs = "cells[i := c] @ [d]"
  define old where "old j = (if j < ?n then j else i)" for j
  have at: "?cs ! j = (if j = ?n then d else if j = i then c else cells ! j)" if "j < Suc ?n" for j
    using that i by (simp add: nth_append)
  have old: "old j < ?n" for j using i by (simp add: old_def)
  have sub: "cell_nodes perm' (?cs ! j) \<subseteq> cell_nodes perm (cells ! old j)" if "j < Suc ?n" for j
    using that ns others [of j] i by (auto simp: at old_def)
  have range: "cb_begin (?cs ! j) < cb_end (?cs ! j)" "cb_begin (cells ! old j) \<le> cb_begin (?cs ! j)"
    "cb_end (?cs ! j) \<le> cb_end (cells ! old j)" if "j < Suc ?n" for j
    using that c d m cells_invD(2) [OF inv old [of j]] by (auto simp: at old_def)
  have siblings: "{j, k} = {i, ?n}" if "old j = old k" "j \<noteq> k" "j < Suc ?n" "k < Suc ?n" for j k
    using that by (auto simp: old_def split: if_splits)
  have apart: "cb_end (?cs ! j) \<le> cb_begin (?cs ! k) \<or> cb_end (?cs ! k) \<le> cb_begin (?cs ! j)"
    if jk: "j < Suc ?n" "k < Suc ?n" "j \<noteq> k" for j k
  proof (cases "old j = old k")
    case True
    with siblings [OF True jk(3,1,2)] jk(3) have "j = i \<and> k = ?n \<or> j = ?n \<and> k = i" by (auto simp: doubleton_eq_iff)
    then show ?thesis using i c d by (auto simp: at)
  next
    case False
    with cells_invD(6) [OF inv old old] range(2,3) [OF jk(1)] range(2,3) [OF jk(2)] show ?thesis
      by (meson order_trans)
  qed
  have differ: "ids ! u \<noteq> ids ! v" if jk: "j < Suc ?n" "k < Suc ?n" "j \<noteq> k"
    and uv: "u \<in> cell_nodes perm' (?cs ! j)" "v \<in> cell_nodes perm' (?cs ! k)" for j k u v
  proof (cases "old j = old k")
    case True
    with siblings [OF True jk(3,1,2)] jk(3) have "j = i \<and> k = ?n \<or> j = ?n \<and> k = i" by (auto simp: doubleton_eq_iff)
    then show ?thesis
    proof
      assume "j = i \<and> k = ?n"
      with uv ns i have "P u" "\<not> P v" by (auto simp: at)
      then show ?thesis by (rule diff)
    next
      assume "j = ?n \<and> k = i"
      with uv ns i have "P v" "\<not> P u" by (auto simp: at)
      then show ?thesis using diff by metis
    qed
  next
    case False
    with cells_invD(7) [OF inv old old] sub [OF jk(1)] sub [OF jk(2)] uv show ?thesis by blast
  qed
  have cover: "\<exists>j < Suc ?n. v \<in> cell_nodes perm' (?cs ! j)" if v: "v < length ids" for v
  proof -
    obtain j where j: "j < ?n" "v \<in> cell_nodes perm (cells ! j)" using inv v by (auto simp: cells_inv_def)
    show ?thesis
    proof (cases "j = i")
      case True
      then have "v \<in> cell_nodes perm' (?cs ! i) \<or> v \<in> cell_nodes perm' (?cs ! ?n)"
        using j ns i by (cases "P v") (auto simp: at)
      then show ?thesis using i by (metis lessI less_SucI)
    next
      case False
      then have "v \<in> cell_nodes perm' (?cs ! j)" using j others [of j] by (simp add: at)
      then show ?thesis using j(1) by (metis less_SucI)
    qed
  qed
  have bits: "cb_bit (?cs ! j) < NUM_BISECTION_BITS \<and> bits_agree ids (?cs ! j) (cell_nodes perm' (?cs ! j))"
    if j: "j < Suc ?n" for j
  proof -
    consider "j = ?n" | "j = i" | "j < ?n" "j \<noteq> i" using j by linarith
    then show ?thesis
      by cases (use b i cells_invD(4,5) [OF inv, of j] others [of j] in \<open>auto simp: at\<close>)
  qed
  have top: "cb_end (?cs ! j) \<le> length ids" if "j < Suc ?n" for j
    using range(3) [OF that] cells_invD(3) [OF inv old [of j]] by simp
  have len: "length ?cs = Suc ?n" by simp
  have "mset perm' = mset [0..<length ids]" using perm cells_invD(1) [OF inv i] by simp
  then have "cells_inv ids perm' ?cs"
    unfolding cells_inv_def len using range(1) top bits apart cover differ by blast
  moreover have "refines (perm', ?cs) (perm, cells)"
    unfolding refines_def fst_conv snd_conv len using sub old by blast
  ultimately show ?thesis ..
qed


lemma std_partition_slices:
  assumes "std_partition part" "distinct xs"
  shows "slice (part P xs) 0 (length (filter P xs)) = filter P (part P xs)"
    and "slice (part P xs) (length (filter P xs)) (length xs) = filter (\<lambda>x. \<not> P x) (part P xs)"
    and "set (part P xs) = set xs" "length (part P xs) = length xs" "mset (part P xs) = mset xs"
proof -
  have m: "mset (part P xs) = mset xs"
    and e: "part P xs = filter P (part P xs) @ filter (\<lambda>x. \<not> P x) (part P xs)"
    using assms(1) unfolding std_partition_def by blast+
  show "set (part P xs) = set xs" "length (part P xs) = length xs" "mset (part P xs) = mset xs"
    using mset_eq_setD [OF m] mset_eq_length [OF m] m by simp_all
  have l: "length (filter P (part P xs)) = length (filter P xs)"
    using m by (metis mset_filter size_mset)
  have "length (part P xs) = length xs" using mset_eq_length [OF m] .
  then have l2: "length (filter P xs) + length (filter (\<lambda>x. \<not> P x) (part P xs)) = length xs"
    using l e by (metis length_append)
  show "slice (part P xs) 0 (length (filter P xs)) = filter P (part P xs)"
    by (subst e, rule nth_equalityI) (use l in \<open>auto simp: nth_append\<close>)
  show "slice (part P xs) (length (filter P xs)) (length xs) = filter (\<lambda>x. \<not> P x) (part P xs)"
    by (subst e, rule nth_equalityI) (use l l2 in \<open>auto simp: nth_append\<close>)
qed

lemma split_at_bit_inv:
  assumes part: "std_partition part" and inv: "cells_inv ids perm cells"
    and i: "large cells i"
    and b: "m = foldl (\<lambda>lhs rhs. lhs OR ids ! rhs) 0 (slice perm (cb_begin (cells ! i)) (cb_end (cells ! i)))
      AND low_mask (cb_bit (cells ! i))" "m \<noteq> 0"
    and r: "split_at_bit part ids i (util_msb m) (perm, cells) = (perm', cells')"
  shows "cells_inv ids perm' cells' \<and> refines (perm', cells') (perm, cells)"
proof -
  let ?c = "cells ! i" and ?P = "is_left ids (util_msb m)"
  let ?b = "cb_begin ?c" and ?e = "cb_end ?c"
  let ?nodes = "slice perm ?b ?e"
  let ?m = "?b + length (filter ?P ?nodes)"
  let ?c' = "if util_msb m > 0 then ?c\<lparr>cb_bit := util_msb m - 1\<rparr> else ?c\<lparr>cb_tabu := True\<rparr>"
  let ?perm = "take ?b perm @ part ?P ?nodes @ drop ?e perm"
  have il: "i < length cells" "\<not> cb_tabu ?c" using i by (simp_all add: large_def)
  note D = cells_invD [OF inv il(1)]
  have len: "length perm = length ids" using D(8) .
  have be: "?b \<le> ?e" "?e \<le> length perm" using D(2,3) len by simp_all
  have dist: "distinct perm" using D(1) by (metis distinct_upt mset_eq_imp_distinct_iff)
  have sl: "?nodes = take (?e - ?b) (drop ?b perm)" using be by (simp add: slice_eq_take_drop)
  then have "distinct ?nodes" using dist by simp
  note P = std_partition_slices [OF part this]
  have plen: "length (part ?P ?nodes) = ?e - ?b" using P(4) by simp
  have "perm = take ?b perm @ ?nodes @ drop ?e perm"
    using be unfolding sl by (metis append_take_drop_id drop_drop le_add_diff_inverse2)
  then have mperm: "mset ?perm = mset perm"
    by (metis P(5) mset_append)
  have others: "cell_nodes ?perm (cells ! j) = cell_nodes perm (cells ! j)" if "j < length cells" "j \<noteq> i" for j
    unfolding cell_nodes_def
    by (subst slice_outside [OF be plen]) (use D(6) [OF that(1)] that cells_invD(3) [OF inv that(1)] len in auto)
  have nodes_i: "cell_nodes ?perm d = set ?nodes" if "cb_begin d = ?b" "cb_end d = ?e" for d
    unfolding cell_nodes_def that
    by (subst slice_inside [OF be plen]) (use P(3) plen slice_eq_take_drop [of "?e - ?b" "part ?P ?nodes" 0] in auto)
  have ns: "cell_nodes perm ?c = set ?nodes" by (simp add: cell_nodes_def)
  have mm: "?b \<le> ?m" "?m \<le> ?e" using length_filter_le [of ?P ?nodes] be by simp_all
  have left: "cell_nodes ?perm d = {u \<in> set ?nodes. ?P u}" if "cb_begin d = ?b" "cb_end d = ?m" for d
    unfolding cell_nodes_def that
    by (subst slice_inside [OF be plen]) (use P(1,3) mm in auto)
  have right: "cell_nodes ?perm d = {u \<in> set ?nodes. \<not> ?P u}" if "cb_begin d = ?m" "cb_end d = ?e" for d
    unfolding cell_nodes_def that
    by (subst slice_inside [OF be plen]) (use P(2,3) mm in auto)
  note bits = split_bits [OF D(5) ns il(2) D(4) b(1)]
  show ?thesis
  proof (cases "?m \<noteq> ?b \<and> ?m \<noteq> ?e")
    case True
    let ?l = "?c'\<lparr>cb_end := ?m\<rparr>"
    let ?r = "\<lparr>cb_begin = ?m, cb_end = ?e, cb_bit = cb_bit ?c', cb_tabu = cb_tabu ?c'\<rparr>"
    have eq: "perm' = ?perm" "cells' = cells[i := ?l] @ [?r]"
      using r unfolding split_at_bit_def Let_def prod.case if_P [OF True] by simp_all
    have lb: "cb_begin ?l = ?b" "cb_end ?l = ?m" "cb_bit ?l = cb_bit ?c'" "cb_tabu ?l = cb_tabu ?c'" by simp_all
    have nl: "cell_nodes ?perm ?l = {u \<in> cell_nodes perm ?c. ?P u}"
      and nr: "cell_nodes ?perm ?r = {u \<in> cell_nodes perm ?c. \<not> ?P u}"
      using left [OF lb(1,2)] right [of ?r] ns by simp_all
    have "cb_bit ?c' < NUM_BISECTION_BITS \<and> bits_agree ids ?c' (cell_nodes ?perm ?l)"
      using nl is_left_bit by (intro bits(2) [OF b(2) _ _ refl]) auto
    moreover have "cb_bit ?c' < NUM_BISECTION_BITS \<and> bits_agree ids ?c' (cell_nodes ?perm ?r)"
      using nr is_left_bit by (intro bits(2) [OF b(2) _ _ refl]) auto
    moreover have "bits_agree ids ?l S = bits_agree ids ?c' S" "bits_agree ids ?r S = bits_agree ids ?c' S" for S
      by (simp_all add: bits_agree_def)
    ultimately have g: "cb_bit ?l < NUM_BISECTION_BITS" "bits_agree ids ?l (cell_nodes ?perm ?l)"
      "cb_bit ?r < NUM_BISECTION_BITS" "bits_agree ids ?r (cell_nodes ?perm ?r)" by simp_all
    have "ids ! u \<noteq> ids ! v" if "?P u" "\<not> ?P v" for u v using that by (auto simp: is_left_bit)
    then show ?thesis
      unfolding eq
      by (intro cells_inv_split [OF inv il(1) mperm others lb(1,2) _ _ _ _ nl nr g])
        (use True mm in auto)
  next
    case False
    have eq: "perm' = ?perm" "cells' = cells[i := ?c']"
      using r unfolding split_at_bit_def Let_def prod.case if_not_P [OF False] by simp_all
    have ends: "cb_begin ?c' = ?b" "cb_end ?c' = ?e" by simp_all
    have one: "(\<forall>u \<in> set ?nodes. ?P u) \<or> (\<forall>u \<in> set ?nodes. \<not> ?P u)"
    proof (cases "?m = ?b")
      case True
      then show ?thesis by (auto simp: filter_empty_conv)
    next
      case f: False
      with False have "length (filter ?P ?nodes) = length ?nodes" by auto
      then show ?thesis by (metis (no_types, lifting) filter_id_conv length_filter_less less_irrefl)
    qed
    then have "cb_bit ?c' < NUM_BISECTION_BITS \<and> bits_agree ids ?c' (cell_nodes perm ?c)"
      using ns is_left_bit by (intro bits(2) [OF b(2) _ _ refl]) auto
    then show ?thesis
      unfolding eq
      by (intro cells_inv_replace [OF inv il(1) mperm others ends]) (use nodes_i [OF ends] ns in auto)
  qed
qed

lemma split_cell_inv:
  assumes part: "std_partition part" and inv: "cells_inv ids perm cells"
    and i: "large cells i" and r: "split_cell part ids i (perm, cells) = (perm', cells')"
  shows "cells_inv ids perm' cells' \<and> refines (perm', cells') (perm, cells)"
proof -
  let ?c = "cells ! i"
  let ?m = "foldl (\<lambda>lhs rhs. lhs OR ids ! rhs) 0 (slice perm (cb_begin ?c) (cb_end ?c)) AND low_mask (cb_bit ?c)"
  have il: "i < length cells" "\<not> cb_tabu ?c" using i by (simp_all add: large_def)
  note D = cells_invD [OF inv il(1)]
  show ?thesis
  proof (cases "?m = 0")
    case True
    have eq: "perm' = perm" "cells' = cells[i := ?c\<lparr>cb_tabu := True\<rparr>]"
      using r unfolding split_cell_def Let_def prod.case if_P [OF True] by simp_all
    have "bits_agree ids (?c\<lparr>cb_tabu := True\<rparr>) (cell_nodes perm ?c)"
      using split_bits(1) [OF D(5) _ il(2) D(4) refl True] by (simp add: cell_nodes_def)
    then show ?thesis
      unfolding eq by (intro cells_inv_replace [OF inv il(1) refl refl]) (use D(4) in \<open>auto simp: cell_nodes_def\<close>)
  next
    case False
    have "split_at_bit part ids i (util_msb ?m) (perm, cells) = (perm', cells')"
      using r unfolding split_cell_def Let_def prod.case if_not_P [OF False] .
    then show ?thesis by (rule split_at_bit_inv [OF part inv i refl False])
  qed
qed

lemma split_cells_inv:
  assumes "std_partition part"
  shows "distinct is \<Longrightarrow> \<forall>i \<in> set is. large (snd st) i \<Longrightarrow> cells_inv ids (fst st) (snd st) \<Longrightarrow>
    cells_inv ids (fst (foldl (\<lambda>st i. split_cell part ids i st) st is))
      (snd (foldl (\<lambda>st i. split_cell part ids i st) st is)) \<and>
    refines (foldl (\<lambda>st i. split_cell part ids i st) st is) st"
proof (induction "is" arbitrary: st)
  case (Cons i js)
  obtain perm cells where st: "st = (perm, cells)" by fastforce
  obtain perm' cells' where st': "split_cell part ids i (perm, cells) = (perm', cells')" by fastforce
  have l: "large cells i" using Cons.prems(2) st by simp
  have "large cells' j" if "j \<in> set js" for j
  proof -
    have "large cells j" "j \<noteq> i" using that Cons.prems(1,2) st by auto
    then show ?thesis
      using split_cell_others [OF st'] l unfolding large_def by (metis less_le_trans)
  qed
  moreover have s: "cells_inv ids perm' cells' \<and> refines (perm', cells') (perm, cells)"
    using split_cell_inv [OF assms _ l st'] Cons.prems(3) st by simp
  ultimately show ?case
    using Cons.IH [of "(perm', cells')"] Cons.prems(1) refines_trans unfolding st
    by (simp add: st') blast
qed (simp add: refines_refl)

text \<open>Every cell is small, or its nodes have the same bisection id.\<close>

lemma partitionLevel_spec:
  assumes "std_partition part"
  shows "cells_inv ids (fst st) (snd st) \<Longrightarrow>
    cells_inv ids (fst (partitionLevel part ids n st)) (snd (partitionLevel part ids n st)) \<and>
    refines (partitionLevel part ids n st) st \<and>
    (\<forall>c \<in> set (snd (partitionLevel part ids n st)). cb_tabu c \<or> cb_end c - cb_begin c \<le> n)"
  using assms
proof (induction part ids n st rule: partitionLevel.induct)
  case (1 part ids n st)
  let ?ls = "getLargeCells n (snd st)"
  show ?case
  proof (cases "0 < length ?ls")
    case True
    let ?st = "foldl (\<lambda>st i. split_cell part ids i st) st ?ls"
    have d: "distinct ?ls" by (simp add: getLargeCells_def)
    have "\<forall>i \<in> set ?ls. large (snd st) i" using getLargeCells_large by blast
    note s = split_cells_inv [OF "1.prems"(2) d this "1.prems"(1)]
    have eq: "partitionLevel part ids n st = partitionLevel part ids n ?st"
      using True by (subst partitionLevel.simps) (simp add: Let_def)
    show ?thesis
      unfolding eq using "1.IH" [OF refl True] s "1.prems"(2) refines_trans by blast
  next
    case False
    then have eq: "partitionLevel part ids n st = st" by (subst partitionLevel.simps) (simp add: Let_def)
    have "\<forall>i < length (snd st). cb_tabu (snd st ! i) \<or> cb_end (snd st ! i) - cb_begin (snd st ! i) \<le> n"
      using False by (auto simp: getLargeCells_def filter_empty_conv)
    then have "\<forall>c \<in> set (snd st). cb_tabu c \<or> cb_end c - cb_begin c \<le> n"
      by (auto simp: in_set_conv_nth)
    then show ?thesis unfolding eq using "1.prems" refines_refl by blast
  qed
qed


section \<open>Writing the cells\<close>

lemma foldl_set_all:
  "length (foldl (\<lambda>p node. p[node := x]) p ns) = length p \<and>
   (u < length p \<longrightarrow> foldl (\<lambda>p node. p[node := x]) p ns ! u = (if u \<in> set ns then x else p ! u))"
  by (induction ns arbitrary: p) (auto simp: nth_list_update)

lemma write_cells_spec:
  "length (write_cells perm cells n p) = length p \<and>
   (u < length p \<longrightarrow> (\<forall>j < length cells. u \<notin> cell_nodes perm (cells ! j)) \<longrightarrow> write_cells perm cells n p ! u = p ! u) \<and>
   (u < length p \<longrightarrow> (\<forall>i < length cells. u \<in> cell_nodes perm (cells ! i) \<longrightarrow>
      (\<forall>j < length cells. j \<noteq> i \<longrightarrow> u \<notin> cell_nodes perm (cells ! j)) \<longrightarrow> write_cells perm cells n p ! u = n + i))"
proof (induction cells arbitrary: n p)
  case (Cons c cells)
  let ?p = "foldl (\<lambda>p node. p[node := n]) p (slice perm (cb_begin c) (cb_end c))"
  have p: "length ?p = length p" "u < length p \<Longrightarrow> ?p ! u = (if u \<in> cell_nodes perm c then n else p ! u)"
    using foldl_set_all [of n p "slice perm (cb_begin c) (cb_end c)" u] by (simp_all add: cell_nodes_def)
  note ih = Cons.IH [of "n + 1" ?p, unfolded p(1)]
  have w: "write_cells perm (c # cells) n p = write_cells perm cells (n + 1) ?p" by simp
  have one: "write_cells perm cells (n + 1) ?p ! u = n + i"
    if u: "u < length p" and i: "i < Suc (length cells)" "u \<in> cell_nodes perm ((c # cells) ! i)"
      "\<forall>j < Suc (length cells). j \<noteq> i \<longrightarrow> u \<notin> cell_nodes perm ((c # cells) ! j)" for i
  proof (cases i)
    case 0
    have "u \<notin> cell_nodes perm (cells ! j)" if "j < length cells" for j
      using i(3) [rule_format, of "Suc j"] that 0 by simp
    then show ?thesis using ih u p(2) i(2) 0 by simp
  next
    case (Suc k)
    have "u \<notin> cell_nodes perm (cells ! j)" if "j < length cells" "j \<noteq> k" for j
      using i(3) [rule_format, of "Suc j"] that Suc by simp
    then show ?thesis using ih u i(1,2) Suc by simp
  qed
  have none: "write_cells perm cells (n + 1) ?p ! u = p ! u"
    if u: "u < length p" and "\<forall>j < Suc (length cells). u \<notin> cell_nodes perm ((c # cells) ! j)"
    using ih p(2) that by (simp add: all_less_Suc_split)
  show ?case unfolding w using ih one none by simp
qed simp

lemma cellsToPartition_spec:
  assumes "cells_inv ids perm cells"
  shows "length (cellsToPartition cells perm) = length ids"
    and "i < length cells \<Longrightarrow> u \<in> cell_nodes perm (cells ! i) \<Longrightarrow> u < length ids \<and> cellsToPartition cells perm ! u = i"
proof -
  have m: "mset perm = mset [0..<length ids]" using assms by (simp add: cells_inv_def)
  have len: "length perm = length ids" using mset_eq_length [OF m] by simp
  show "length (cellsToPartition cells perm) = length ids"
    using write_cells_spec [of perm cells 0 "replicate (length perm) INVALID_CELL_ID" 0]
    by (simp add: cellsToPartition_def len)
  assume i: "i < length cells" "u \<in> cell_nodes perm (cells ! i)"
  have "cell_nodes perm (cells ! i) \<subseteq> set perm"
    using cells_invD(2,3) [OF assms i(1)] len by (auto simp: cell_nodes_def set_slice)
  then have u: "u < length ids" using i(2) mset_eq_setD [OF m] by auto
  have "u \<notin> cell_nodes perm (cells ! j)" if "j < length cells" "j \<noteq> i" for j
    using cells_invD(7) [OF assms i(1) that(1)] that(2) i(2) by metis
  then show "u < length ids \<and> cellsToPartition cells perm ! u = i"
    using write_cells_spec [of perm cells 0 "replicate (length perm) INVALID_CELL_ID" u] u i
    by (simp add: cellsToPartition_def len)
qed

text \<open>What one level of the result is.\<close>

definition level_result ::
  "BisectionID list \<Rightarrow> nat \<Rightarrow> CellID list \<Rightarrow> nat \<Rightarrow> bool" where
  "level_result ids max_size part num \<longleftrightarrow> length part = length ids \<and> set part = {0..<num} \<and>
     (\<forall>u < length ids. \<forall>v < length ids. ids ! u = ids ! v \<longrightarrow> part ! u = part ! v) \<and>
     (\<forall>c < num. card {u. u < length ids \<and> part ! u = c} \<le> max_size \<or>
        (\<forall>u < length ids. \<forall>v < length ids. part ! u = c \<longrightarrow> part ! v = c \<longrightarrow> ids ! u = ids ! v))"

lemma level_result_cells:
  assumes inv: "cells_inv ids perm cells" and small: "\<forall>c \<in> set cells. cb_tabu c \<or> cb_end c - cb_begin c \<le> n"
  shows "level_result ids n (cellsToPartition cells perm) (length cells)"
proof -
  let ?p = "cellsToPartition cells perm"
  note cp = cellsToPartition_spec [OF inv]
  have cover: "\<exists>i < length cells. v \<in> cell_nodes perm (cells ! i)" if "v < length ids" for v
    using inv that by (simp add: cells_inv_def)
  have nodes: "{u. u < length ids \<and> ?p ! u = i} = cell_nodes perm (cells ! i)" if i: "i < length cells" for i
    using cp(2) [OF i] cp(2) cover by blast
  have ne: "cell_nodes perm (cells ! i) \<noteq> {}" if i: "i < length cells" for i
    using cells_invD(2) [OF inv i] by (simp add: cell_nodes_def)
  have "set ?p = {0..<length cells}"
  proof (intro equalityI subsetI)
    fix x assume "x \<in> set ?p"
    then obtain u where u: "u < length ids" "x = ?p ! u" by (metis cp(1) in_set_conv_nth)
    then show "x \<in> {0..<length cells}" using cover [OF u(1)] cp(2) by auto
  next
    fix x assume "x \<in> {0..<length cells}"
    then obtain u where "u < length ids" "?p ! u = x" using ne [of x] cp(2) by fastforce
    then show "x \<in> set ?p" using cp(1) by (metis nth_mem)
  qed
  moreover have "?p ! u = ?p ! v" if uv: "u < length ids" "v < length ids" "ids ! u = ids ! v" for u v
  proof -
    obtain i where i: "i < length cells" "u \<in> cell_nodes perm (cells ! i)" using cover [OF uv(1)] by blast
    obtain j where j: "j < length cells" "v \<in> cell_nodes perm (cells ! j)" using cover [OF uv(2)] by blast
    have "i = j" using cells_invD(7) [OF inv i(1) j(1) _ i(2) j(2)] uv(3) by blast
    then show ?thesis using cp(2) [OF i] cp(2) [OF j] by simp
  qed
  moreover have "card {u. u < length ids \<and> ?p ! u = c} \<le> n \<or>
      (\<forall>u < length ids. \<forall>v < length ids. ?p ! u = c \<longrightarrow> ?p ! v = c \<longrightarrow> ids ! u = ids ! v)" if c: "c < length cells" for c
  proof (cases "cb_tabu (cells ! c)")
    case True
    with cells_invD(5) [OF inv c] have "bit (ids ! u) k = bit (ids ! v) k"
      if "u \<in> cell_nodes perm (cells ! c)" "v \<in> cell_nodes perm (cells ! c)" for u v k
      using that unfolding bits_agree_def by blast
    then have "ids ! u = ids ! v"
      if "u \<in> cell_nodes perm (cells ! c)" "v \<in> cell_nodes perm (cells ! c)" for u v
      using that by (intro bit_word_eqI) blast
    then show ?thesis using nodes [OF c] by blast
  next
    case False
    then have "cb_end (cells ! c) - cb_begin (cells ! c) \<le> n" using small c by auto
    moreover have "card (cell_nodes perm (cells ! c)) \<le> cb_end (cells ! c) - cb_begin (cells ! c)"
      unfolding cell_nodes_def by (metis card_length length_slice)
    ultimately show ?thesis unfolding nodes [OF c] by simp
  qed
  ultimately show ?thesis unfolding level_result_def using cp(1) by blast
qed

text \<open>A state refined by another, seen through the written partitions.\<close>

lemma refines_nested:
  assumes inv: "cells_inv ids (fst st) (snd st)" "cells_inv ids (fst st') (snd st')" and r: "refines st' st"
    and uv: "u < length ids" "v < length ids"
    and eq: "cellsToPartition (snd st') (fst st') ! u = cellsToPartition (snd st') (fst st') ! v"
  shows "cellsToPartition (snd st) (fst st) ! u = cellsToPartition (snd st) (fst st) ! v"
proof -
  obtain j where j: "j < length (snd st')" "u \<in> cell_nodes (fst st') (snd st' ! j)"
    using inv(2) uv(1) unfolding cells_inv_def by blast
  obtain k where k: "k < length (snd st')" "v \<in> cell_nodes (fst st') (snd st' ! k)"
    using inv(2) uv(2) unfolding cells_inv_def by blast
  have "j = k" using eq cellsToPartition_spec(2) [OF inv(2) j] cellsToPartition_spec(2) [OF inv(2) k] by simp
  moreover obtain i where i: "i < length (snd st)" "cell_nodes (fst st') (snd st' ! j) \<subseteq> cell_nodes (fst st) (snd st ! i)"
    using r j(1) unfolding refines_def by blast
  ultimately have "u \<in> cell_nodes (fst st) (snd st ! i)" "v \<in> cell_nodes (fst st) (snd st ! i)" using j k by auto
  then show ?thesis using cellsToPartition_spec(2) [OF inv(1) i(1)] by simp
qed

lemma convert_levels_spec:
  assumes "std_partition part"
  shows "cells_inv ids (fst st) (snd st) \<Longrightarrow> length sizes = n \<Longrightarrow> n \<le> length (fst out) \<Longrightarrow> length (snd out) = length (fst out) \<Longrightarrow>
    length (fst (convert_levels part ids sizes (n - 1) st out)) = length (fst out) \<and>
    length (snd (convert_levels part ids sizes (n - 1) st out)) = length (fst out) \<and>
    (\<forall>k. n \<le> k \<longrightarrow> fst (convert_levels part ids sizes (n - 1) st out) ! k = fst out ! k \<and>
       snd (convert_levels part ids sizes (n - 1) st out) ! k = snd out ! k) \<and>
    (\<forall>k < n. level_result ids (sizes ! (n - 1 - k)) (fst (convert_levels part ids sizes (n - 1) st out) ! k)
       (snd (convert_levels part ids sizes (n - 1) st out) ! k)) \<and>
    (\<forall>k < n. \<exists>st'. cells_inv ids (fst st') (snd st') \<and> refines st' st \<and>
       fst (convert_levels part ids sizes (n - 1) st out) ! k = cellsToPartition (snd st') (fst st')) \<and>
    nested_parts (take n (fst (convert_levels part ids sizes (n - 1) st out))) (length ids)"
proof (induction sizes arbitrary: n st out)
  case Nil
  then show ?case by (simp add: nested_parts_def)
next
  case (Cons s sizes)
  obtain ps ns where out: "out = (ps, ns)" by fastforce
  obtain m where n: "n = Suc m" using Cons.prems(2) by auto
  let ?st = "partitionLevel part ids s st"
  obtain perm cells where st': "?st = (perm, cells)" by fastforce
  note lev = partitionLevel_spec [OF assms Cons.prems(1), of s, unfolded st' fst_conv snd_conv]
  let ?out = "(ps[m := cellsToPartition cells perm], ns[m := length cells])"
  have mlen: "m < length ps" "length ns = length ps" using Cons.prems(3,4) out n by simp_all
  let ?r = "convert_levels part ids (s # sizes) (n - 1) st out"
  have step: "?r = convert_levels part ids sizes (m - 1) (perm, cells) ?out"
    using out n st' by (simp add: Let_def)
  have ih: "length (fst ?r) = length ps" "length (snd ?r) = length ps"
    "\<forall>k. m \<le> k \<longrightarrow> fst ?r ! k = fst ?out ! k \<and> snd ?r ! k = snd ?out ! k"
    "\<forall>k < m. level_result ids (sizes ! (m - 1 - k)) (fst ?r ! k) (snd ?r ! k)"
    "\<forall>k < m. \<exists>st'. cells_inv ids (fst st') (snd st') \<and> refines st' (perm, cells) \<and>
       fst ?r ! k = cellsToPartition (snd st') (fst st')"
    "nested_parts (take m (fst ?r)) (length ids)"
    using Cons.IH [of "(perm, cells)" m ?out] lev Cons.prems(2) n mlen unfolding step by simp_all
  have top: "fst ?r ! m = cellsToPartition cells perm" "snd ?r ! m = length cells"
    using ih(3) mlen by simp_all
  have "fst ?r ! k = ps ! k \<and> snd ?r ! k = ns ! k" if "n \<le> k" for k
    using ih(3) that n by simp
  moreover have "level_result ids ((s # sizes) ! (n - 1 - k)) (fst ?r ! k) (snd ?r ! k)" if k: "k < n" for k
  proof (cases "k = m")
    case True
    then show ?thesis using level_result_cells [of ids perm cells s] lev n top by simp
  next
    case False
    with k n have "k < m" by simp
    then have "(s # sizes) ! (n - 1 - k) = sizes ! (m - 1 - k)" using n by (simp add: nth_Cons')
    then show ?thesis using ih(4) \<open>k < m\<close> by simp
  qed
  moreover have each: "\<exists>st'. cells_inv ids (fst st') (snd st') \<and> refines st' st \<and>
       fst ?r ! k = cellsToPartition (snd st') (fst st')" if k: "k < n" for k
  proof (cases "k = m")
    case True
    then show ?thesis using lev top by (intro exI [of _ "(perm, cells)"]) simp
  next
    case False
    with k n ih(5) obtain st' where "cells_inv ids (fst st') (snd st')" "refines st' (perm, cells)"
      "fst ?r ! k = cellsToPartition (snd st') (fst st')" by (metis less_SucE)
    then show ?thesis using lev refines_trans by blast
  qed
  moreover have "nested_parts (take n (fst ?r)) (length ids)"
    unfolding nested_parts_def
  proof (intro allI impI)
    fix i j u v
    assume ij: "i < j" "j < length (take n (fst ?r))" and uv: "u < length ids" "v < length ids"
      and eq: "take n (fst ?r) ! i ! u = take n (fst ?r) ! i ! v"
    have jn: "j < n" using ij by simp
    show "take n (fst ?r) ! j ! u = take n (fst ?r) ! j ! v"
    proof (cases "j = m")
      case True
      with ij(1) ih(5) obtain st' where s: "cells_inv ids (fst st') (snd st')" "refines st' (perm, cells)"
        "fst ?r ! i = cellsToPartition (snd st') (fst st')" by blast
      have c: "cells_inv ids (fst (perm, cells)) (snd (perm, cells))" using lev by simp
      show ?thesis
        using refines_nested [OF c s(1,2) uv] eq s(3) top(1) True ij jn by simp
    next
      case False
      with jn n have "j < m" by simp
      then show ?thesis
        using ih(6) [unfolded nested_parts_def, rule_format, of i j u v] ij uv eq n ih(1) mlen by simp
    qed
  qed
  ultimately show ?case
    using ih(1,2) unfolding out fst_conv snd_conv by blast
qed

lemma bisectionToPartition_spec:
  assumes part: "std_partition part" and ne: "ids \<noteq> []" and r: "bisectionToPartition part ids sizes = (parts, num)"
  shows "length parts = length sizes" "length num = length sizes" "nested_parts parts (length ids)"
    "k < length sizes \<Longrightarrow> level_result ids (sizes ! k) (parts ! k) (num ! k)"
proof -
  let ?c = "\<lparr>cb_begin = 0, cb_end = length ids, cb_bit = NUM_BISECTION_BITS - 1, cb_tabu = False\<rparr>"
  let ?st = "([0..<length ids], [?c])" and ?n = "length sizes"
  have nodes: "cell_nodes [0..<length ids] ?c = {0..<length ids}"
    by (auto simp: cell_nodes_def set_slice)
  have "\<not> bit (w :: BisectionID) k" if "NUM_BISECTION_BITS - 1 < k" for w k
    using that bit_imp_le_length [of w k] by (auto simp: NUM_BISECTION_BITS_def)
  then have "bits_agree ids ?c (cell_nodes [0..<length ids] ?c)" by (simp add: bits_agree_def)
  then have inv: "cells_inv ids (fst ?st) (snd ?st)"
    unfolding cells_inv_def using ne nodes by (auto simp: NUM_BISECTION_BITS_def)
  have rr: "convert_levels part ids (rev sizes) (?n - 1) ?st (replicate ?n [], replicate ?n 0) = (parts, num)"
    using r unfolding bisectionToPartition_def by simp
  note s = convert_levels_spec [OF part inv, of "rev sizes" ?n "(replicate ?n [], replicate ?n 0)", unfolded rr, simplified]
  show lp: "length parts = length sizes" "length num = length sizes" using s by blast+
  have "nested_parts (take (length sizes) parts) (length ids)" using s by blast
  then show "nested_parts parts (length ids)" using lp by simp
  assume k: "k < length sizes"
  then have "rev sizes ! (length sizes - Suc k) = sizes ! k" by (simp add: rev_nth)
  then show "level_result ids (sizes ! k) (parts ! k) (num ! k)" using s k by metis
qed

lemma bisection_parts_ok:
  assumes "std_partition part" "ids \<noteq> []" "length ids < 2 ^ 32" "sizes \<noteq> []"
    and r: "bisectionToPartition part ids sizes = (parts, num)"
  shows "parts_ok parts (length ids) num" "length num = length sizes" "num \<noteq> []"
    "k < length sizes \<Longrightarrow> card (set (parts ! k)) = num ! k"
proof -
  note s = bisectionToPartition_spec [OF assms(1,2) r]
  have lev: "length (parts ! k) = length ids" "set (parts ! k) = {0..<num ! k}" if "k < length sizes" for k
    using s(4) [OF that] by (simp_all add: level_result_def)
  then show c: "k < length sizes \<Longrightarrow> card (set (parts ! k)) = num ! k" for k by simp
  have "num ! k < 2 ^ 32" if "k < length sizes" for k
    using c [OF that] lev(1) [OF that] card_length [of "parts ! k"] assms(3) by linarith
  moreover have "length part = length ids" if "part \<in> set parts" for part
    using that lev(1) s(1) by (metis in_set_conv_nth)
  moreover have "parts \<noteq> []" using s(1) assms(4) by auto
  ultimately show "parts_ok parts (length ids) num" using s assms(2) c by (simp add: parts_ok_def)
  show "length num = length sizes" "num \<noteq> []" using s(2) assms(4) by auto
qed

text \<open>
  Property C28. Converting the bisection to partitions.  The loops return; there is one partition
  per maximal size with a cell number for every node, the numbers of a level are
  \<open>0, \<dots>, num - 1\<close> and all used, a finer level never joins what a coarser one separates, nodes
  with equal bisection ids are never separated, and a cell larger than the maximal size of its
  level consists of nodes with one bisection id only.
\<close>

theorem bisectionToPartition_correct:
  assumes "std_partition part" "ids \<noteq> []" "bisectionToPartition part ids max_cell_sizes = (parts, num)"
  shows "length parts = length max_cell_sizes \<and> nested_parts parts (length ids) \<and>
    (\<forall>k < length max_cell_sizes. length (parts ! k) = length ids \<and> set (parts ! k) = {0..<num ! k} \<and>
       (\<forall>u < length ids. \<forall>v < length ids. ids ! u = ids ! v \<longrightarrow> parts ! k ! u = parts ! k ! v) \<and>
       (\<forall>c < num ! k. card {u. u < length ids \<and> parts ! k ! u = c} \<le> max_cell_sizes ! k \<or>
          (\<forall>u < length ids. \<forall>v < length ids. parts ! k ! u = c \<longrightarrow> parts ! k ! v = c \<longrightarrow> ids ! u = ids ! v)))"
  using bisectionToPartition_spec [OF assms] unfolding level_result_def by blast

definition stable_partition :: partition_fn where
  "stable_partition P xs = filter P xs @ filter (\<lambda>x. \<not> P x) xs"

lemma stable_partition_ok: "std_partition stable_partition"
  by (auto simp: std_partition_def stable_partition_def)

lemma bisectionToPartition_correct_witness:
  "set (fst (bisectionToPartition stable_partition [1, 0, 1, 3] [1, 2]) ! 0) =
   {0..<snd (bisectionToPartition stable_partition [1, 0, 1, 3] [1, 2]) ! 0}"
  using bisectionToPartition_correct [OF stable_partition_ok, of "[1, 0, 1, 3]" "[1, 2]"]
  by (cases "bisectionToPartition stable_partition [1, 0, 1, 3] [1, 2]") auto

end
