(* ===== verification/BisectionGraph.thy ===== *)
theory BisectionGraph
  imports OSRM_Prelude
begin

text \<open>
  The graph the bisection works on, \<^verbatim>\<open>include/partitioner/partition_graph.hpp\<close> and
  \<^verbatim>\<open>bisection_graph.hpp\<close>, and its views, \<^verbatim>\<open>bisection_graph_view.hpp\<close>.

  An edge has only its target.  Targets are relative to the view the node belongs to.
\<close>

section \<open>Data\<close>

record BisectionNode =
  bn_edges_begin :: nat
  bn_edges_end :: nat
  bn_coordinate :: "int \<times> int"
  bn_original_id :: NodeID

record BisectionGraph =
  bg_nodes :: "BisectionNode list"
  bg_edges :: "NodeID list"

record BisectionInputEdge =
  bi_source :: NodeID
  bi_target :: NodeID

record BisectionGraphView =
  bv_graph :: BisectionGraph
  bv_begin :: nat
  bv_end :: nat

definition node_edges :: "BisectionGraph \<Rightarrow> BisectionNode \<Rightarrow> NodeID list" where
  "node_edges g node = slice (bg_edges g) (bn_edges_begin node) (bn_edges_end node)"

definition bv_NumberOfNodes :: "BisectionGraphView \<Rightarrow> nat" where
  "bv_NumberOfNodes view = bv_end view - bv_begin view"

definition bv_Node :: "BisectionGraphView \<Rightarrow> NodeID \<Rightarrow> BisectionNode" where
  "bv_Node view nid = bg_nodes (bv_graph view) ! (bv_begin view + nid)"

definition bv_Edges :: "BisectionGraphView \<Rightarrow> NodeID \<Rightarrow> NodeID list" where
  "bv_Edges view nid = node_edges (bv_graph view) (bv_Node view nid)"

definition full_view :: "BisectionGraph \<Rightarrow> BisectionGraphView" where
  "full_view g = \<lparr>bv_graph = g, bv_begin = 0, bv_end = length (bg_nodes g)\<rparr>"

section \<open>Construction\<close>

text \<open>The edge iterator is the list of the edges that are left.\<close>

fun advance_edge_itr :: "NodeID \<Rightarrow> BisectionInputEdge list \<Rightarrow> NodeID list \<Rightarrow> BisectionInputEdge list \<times> NodeID list" where
  "advance_edge_itr node_id [] result_edges = ([], result_edges)"
| "advance_edge_itr node_id (e # es) result_edges =
     (if bi_source e = node_id then advance_edge_itr node_id es (result_edges @ [bi_target e])
      else (e # es, result_edges))"

fun make_nodes ::
  "(int \<times> int) list \<Rightarrow> nat \<Rightarrow> nat \<Rightarrow> BisectionInputEdge list \<Rightarrow> BisectionNode list \<Rightarrow> NodeID list \<Rightarrow> BisectionGraph" where
  "make_nodes [] num_edges node_id edge_itr result_nodes result_edges =
     \<lparr>bg_nodes = result_nodes, bg_edges = result_edges\<rparr>"
| "make_nodes (coordinate # coordinates) num_edges node_id edge_itr result_nodes result_edges =
     (let (edge_itr', result_edges') = advance_edge_itr node_id edge_itr result_edges;
          node = \<lparr>bn_edges_begin = num_edges - length edge_itr, bn_edges_end = num_edges - length edge_itr',
                  bn_coordinate = coordinate, bn_original_id = node_id\<rparr>
      in make_nodes coordinates num_edges (node_id + 1) edge_itr' (result_nodes @ [node]) result_edges')"

definition makeBisectionGraph :: "(int \<times> int) list \<Rightarrow> BisectionInputEdge list \<Rightarrow> BisectionGraph" where
  "makeBisectionGraph coordinates edges = make_nodes coordinates (length edges) 0 edges [] []"

definition adaptToBisectionEdge :: "(NodeID \<times> NodeID) list \<Rightarrow> BisectionInputEdge list" where
  "adaptToBisectionEdge edges = map (\<lambda>(s, t). \<lparr>bi_source = s, bi_target = t\<rparr>) edges"

lemma advance_edge_itr_spec:
  "advance_edge_itr n es res =
     (dropWhile (\<lambda>e. bi_source e = n) es, res @ map bi_target (takeWhile (\<lambda>e. bi_source e = n) es))"
  by (induction es arbitrary: res) simp_all

lemma make_nodes_spec:
  assumes "length res + length es = num" "sorted (map bi_source es)" "\<forall>e \<in> set es. n \<le> bi_source e"
    and "length nodes = n"
  shows "bg_edges (make_nodes cs num n es nodes res) =
      res @ map bi_target (filter (\<lambda>e. bi_source e < n + length cs) es) \<and>
    length (bg_nodes (make_nodes cs num n es nodes res)) = n + length cs \<and>
    (\<forall>i < n. bg_nodes (make_nodes cs num n es nodes res) ! i = nodes ! i) \<and>
    (\<forall>i < length cs. bg_nodes (make_nodes cs num n es nodes res) ! (n + i) =
       \<lparr>bn_edges_begin = length res + length (filter (\<lambda>e. bi_source e < n + i) es),
        bn_edges_end = length res + length (filter (\<lambda>e. bi_source e < n + i + 1) es),
        bn_coordinate = cs ! i, bn_original_id = n + i\<rparr>)"
  using assms
proof (induction cs arbitrary: n es nodes res)
  case Nil
  then have "filter (\<lambda>e. bi_source e < n) es = []" by (auto simp: filter_empty_conv not_less)
  with Nil show ?case by simp
next
  case (Cons c cs)
  let ?here = "takeWhile (\<lambda>e. bi_source e = n) es" and ?rest = "dropWhile (\<lambda>e. bi_source e = n) es"
  let ?node = "\<lparr>bn_edges_begin = num - length es, bn_edges_end = num - length ?rest,
                  bn_coordinate = c, bn_original_id = n\<rparr>"
  let ?r = "make_nodes cs num (Suc n) ?rest (nodes @ [?node]) (res @ map bi_target ?here)"
  have split: "es = ?here @ ?rest" by simp
  have len: "length ?here + length ?rest = length es" using split by (metis length_append)
  have here: "\<forall>e \<in> set ?here. bi_source e = n" by (auto dest: set_takeWhileD)
  have srt: "sorted (map bi_source ?rest)" using Cons.prems(2) split by (metis map_append sorted_append)
  have rest: "Suc n \<le> bi_source e" if e: "e \<in> set ?rest" for e
  proof -
    obtain d ds where Cons: "?rest = d # ds" using e by (cases ?rest) auto
    have "bi_source d \<noteq> n" using hd_dropWhile [of "\<lambda>e. bi_source e = n" es] Cons by auto
    moreover have "n \<le> bi_source d"
      using \<open>\<forall>e \<in> set es. n \<le> bi_source e\<close> Cons set_dropWhileD [of d "\<lambda>e. bi_source e = n" es] by simp
    moreover have "bi_source d \<le> bi_source e" using srt e Cons by auto
    ultimately show ?thesis by linarith
  qed
  have flt: "filter (\<lambda>e. bi_source e < m) es = ?here @ filter (\<lambda>e. bi_source e < m) ?rest" if "n < m" for m
  proof -
    have "filter (\<lambda>e. bi_source e < m) ?here = ?here" using here that by (intro filter_True) auto
    then show ?thesis using split by (metis filter_append)
  qed
  have none: "filter (\<lambda>e. bi_source e < n) es = []" "filter (\<lambda>e. bi_source e < Suc n) ?rest = []"
    using Cons.prems(3) rest by (auto simp: filter_empty_conv not_less dest: set_takeWhileD)
  have eq: "make_nodes (c # cs) num n es nodes res = ?r"
    by (simp add: advance_edge_itr_spec)
  have ih: "bg_edges ?r = (res @ map bi_target ?here) @ map bi_target (filter (\<lambda>e. bi_source e < Suc n + length cs) ?rest)"
    "length (bg_nodes ?r) = Suc n + length cs"
    "\<forall>i < Suc n. bg_nodes ?r ! i = (nodes @ [?node]) ! i"
    "\<forall>i < length cs. bg_nodes ?r ! (Suc n + i) =
       \<lparr>bn_edges_begin = length (res @ map bi_target ?here) + length (filter (\<lambda>e. bi_source e < Suc n + i) ?rest),
        bn_edges_end = length (res @ map bi_target ?here) + length (filter (\<lambda>e. bi_source e < Suc n + i + 1) ?rest),
        bn_coordinate = cs ! i, bn_original_id = Suc n + i\<rparr>"
    using Cons.IH [of "res @ map bi_target ?here" ?rest "Suc n" "nodes @ [?node]"] srt rest len Cons.prems(1,4) by simp_all
  have "bg_nodes ?r ! (n + i) =
       \<lparr>bn_edges_begin = length res + length (filter (\<lambda>e. bi_source e < n + i) es),
        bn_edges_end = length res + length (filter (\<lambda>e. bi_source e < n + i + 1) es),
        bn_coordinate = (c # cs) ! i, bn_original_id = n + i\<rparr>" if i: "i < length (c # cs)" for i
  proof (cases i)
    case 0
    have "num - length es = length res" "num - length ?rest = length res + length ?here"
      using len Cons.prems(1) by linarith+
    moreover have "bg_nodes ?r ! n = (nodes @ [?node]) ! n" using ih(3) by blast
    then have "bg_nodes ?r ! n = ?node" unfolding Cons.prems(4) [symmetric] nth_append_length .
    moreover have "n + i = n" using 0 by simp
    ultimately show ?thesis using 0 none flt [of "Suc n"] by (simp only:) simp
  next
    case (Suc j)
    then show ?thesis using ih(4) i flt by simp
  qed
  moreover have "\<forall>i < n. bg_nodes ?r ! i = nodes ! i" using ih(3) Cons.prems(4) by (simp add: nth_append)
  ultimately show ?case
    unfolding eq using ih(1,2) flt [of "n + length (c # cs)"] by simp
qed

lemma filter_below_split:
  "sorted (map f xs) \<Longrightarrow> a \<le> b \<Longrightarrow>
   filter (\<lambda>e. f e < b) xs = filter (\<lambda>e. f e < a) xs @ filter (\<lambda>e. a \<le> f e \<and> f e < (b::nat)) xs"
proof (induction xs)
  case (Cons x xs)
  have "filter (\<lambda>e. f e < a) xs = []" if "a \<le> f x"
    using Cons.prems that by (auto simp: filter_empty_conv not_less intro: order.trans)
  with Cons show ?case by (cases "f x < a") auto
qed simp

text \<open>
  The bisection graph is what was put in: for edges grouped by source, node
  \<open>n\<close> of the built graph has the coordinate and original id \<open>n\<close>, and its edges are the
  targets of the input edges with that source, in their order.
\<close>

theorem makeBisectionGraph_correct:
  assumes "sorted (map bi_source edges)" "n < length coordinates"
  shows "bv_NumberOfNodes (full_view (makeBisectionGraph coordinates edges)) = length coordinates \<and>
    bn_coordinate (bv_Node (full_view (makeBisectionGraph coordinates edges)) n) = coordinates ! n \<and>
    bn_original_id (bv_Node (full_view (makeBisectionGraph coordinates edges)) n) = n \<and>
    bv_Edges (full_view (makeBisectionGraph coordinates edges)) n =
      map bi_target (filter (\<lambda>e. bi_source e = n) edges)"
proof -
  let ?g = "makeBisectionGraph coordinates edges"
  let ?below = "\<lambda>n. filter (\<lambda>e. bi_source e < n) edges"
  have s: "bg_edges ?g = map bi_target (?below (length coordinates))"
    "length (bg_nodes ?g) = length coordinates"
    "bg_nodes ?g ! n = \<lparr>bn_edges_begin = length (?below n), bn_edges_end = length (?below (n + 1)),
        bn_coordinate = coordinates ! n, bn_original_id = n\<rparr>"
    using make_nodes_spec [of "[]" edges "length edges" 0 "[]" coordinates] assms
    by (simp_all add: makeBisectionGraph_def)
  let ?here = "filter (\<lambda>e. bi_source e = n) edges"
  let ?above = "filter (\<lambda>e. n + 1 \<le> bi_source e \<and> bi_source e < length coordinates) edges"
  have "filter (\<lambda>e. n \<le> bi_source e \<and> bi_source e < n + 1) edges = ?here" by (rule filter_cong) auto
  then have "?below (n + 1) = ?below n @ ?here" using filter_below_split [OF assms(1), of n "n + 1"] by (simp only:)
  moreover have "?below (length coordinates) = ?below (n + 1) @ ?above"
    using filter_below_split [OF assms(1), of "n + 1" "length coordinates"] assms(2) by simp
  ultimately have "slice (map bi_target (?below (length coordinates))) (length (?below n)) (length (?below (n + 1))) =
      map bi_target ?here"
    using slice_middle [of "map bi_target (?below n)" "map bi_target ?here" "map bi_target ?above"] by simp
  then show ?thesis
    by (simp add: bv_Edges_def node_edges_def bv_Node_def full_view_def bv_NumberOfNodes_def s)
qed


lemma makeBisectionGraph_correct_witness:
  "bv_Edges (full_view (makeBisectionGraph [(0, 0), (1, 0), (1, 1)]
     [\<lparr>bi_source = 0, bi_target = 2\<rparr>, \<lparr>bi_source = 2, bi_target = 0\<rparr>, \<lparr>bi_source = 2, bi_target = 1\<rparr>])) 2 = [0, 1]"
  using makeBisectionGraph_correct [of "[\<lparr>bi_source = 0, bi_target = 2\<rparr>, \<lparr>bi_source = 2, bi_target = 0\<rparr>,
      \<lparr>bi_source = 2, bi_target = 1\<rparr>]" 2 "[(0, 0), (1, 0), (1, 1)]"] by simp

end
