(* ===== verification/DinicMaxFlow.thy ===== *)
theory DinicMaxFlow
  imports BisectionGraph
begin

text \<open>
  Dinic's maximal flow and minimal cut, \<^verbatim>\<open>src/partitioner/dinic_max_flow.cpp\<close>.

  The sets of sources and sinks are lists in the order in which the hash sets are iterated; the
  result is proved for every such order.  The flow is a set of targets per node, as in the code.
  The loops that end only for graphs that fit are partial functions; the theorems show that
  they return.
\<close>

section \<open>Definitions\<close>

type_synonym Level = nat

definition INVALID_LEVEL :: Level where "INVALID_LEVEL = 4294967295"

text \<open>\<^verbatim>\<open>level + 1\<close> on 32 bits.\<close>

definition level_succ :: "Level \<Rightarrow> Level" where
  "level_succ l = (l + 1) mod 4294967296"

record MinCut =
  num_nodes_source :: nat
  num_edges :: nat
  flags :: "bool list"

type_synonym FlowEdges = "NodeID set list"

definition has_neighbor_not_in :: "NodeID list \<Rightarrow> BisectionGraphView \<Rightarrow> NodeID \<Rightarrow> bool" where
  "has_neighbor_not_in nodes view nid = list_ex (\<lambda>target. target \<notin> set nodes) (bv_Edges view nid)"

definition Validate :: "BisectionGraphView \<Rightarrow> NodeID list \<Rightarrow> NodeID list \<Rightarrow> bool" where
  "Validate view source_nodes sink_nodes \<longleftrightarrow>
     \<not> list_ex (\<lambda>node. node \<in> set sink_nodes) source_nodes \<and>
     \<not> list_ex (\<lambda>nid. nid \<ge> bv_NumberOfNodes view) source_nodes \<and>
     \<not> list_ex (\<lambda>nid. nid \<ge> bv_NumberOfNodes view) sink_nodes"

subsection \<open>The level graph\<close>

fun seed_neighbours :: "NodeID list \<Rightarrow> NodeID list \<Rightarrow> Level list \<Rightarrow> Level list" where
  "seed_neighbours source_nodes [] levels = levels"
| "seed_neighbours source_nodes (target # targets) levels =
     seed_neighbours source_nodes targets (if target \<in> set source_nodes then levels[target := 0] else levels)"

fun seed_levels ::
  "BisectionGraphView \<Rightarrow> NodeID list \<Rightarrow> NodeID list \<Rightarrow> Level list \<times> NodeID list \<Rightarrow> Level list \<times> NodeID list" where
  "seed_levels view source_nodes [] (levels, level_queue) = (levels, level_queue)"
| "seed_levels view source_nodes (node_id # nodes) (levels, level_queue) =
     seed_levels view source_nodes nodes
       (seed_neighbours source_nodes (bv_Edges view node_id) (levels[node_id := 0]), level_queue @ [node_id])"

fun relax_edges ::
  "FlowEdges \<Rightarrow> NodeID \<Rightarrow> Level \<Rightarrow> NodeID list \<Rightarrow> Level list \<times> NodeID list \<Rightarrow> Level list \<times> NodeID list" where
  "relax_edges flow node_id level [] (levels, level_queue) = (levels, level_queue)"
| "relax_edges flow node_id level (target # targets) (levels, level_queue) =
     (if target \<in> flow ! node_id then relax_edges flow node_id level targets (levels, level_queue)
      else if levels ! target > level
      then relax_edges flow node_id level targets (levels[target := level], level_queue @ [target])
      else relax_edges flow node_id level targets (levels, level_queue))"

definition bfs_relax_node ::
  "BisectionGraphView \<Rightarrow> NodeID list \<Rightarrow> FlowEdges \<Rightarrow> NodeID \<Rightarrow> Level list \<times> NodeID list \<Rightarrow> Level list \<times> NodeID list" where
  "bfs_relax_node view sink_nodes flow node_id = (\<lambda>(levels, level_queue).
     if node_id \<in> set sink_nodes then (levels, level_queue)
     else relax_edges flow node_id (level_succ (levels ! node_id)) (bv_Edges view node_id) (levels, level_queue))"

partial_function (option) bfs_loop ::
  "BisectionGraphView \<Rightarrow> NodeID list \<Rightarrow> FlowEdges \<Rightarrow> Level list \<Rightarrow> NodeID list \<Rightarrow> Level list option" where
  "bfs_loop view sink_nodes flow levels level_queue =
     (if level_queue = [] then Some levels
      else (let (levels', level_queue') = bfs_relax_node view sink_nodes flow (hd level_queue) (levels, level_queue)
            in bfs_loop view sink_nodes flow levels' (tl level_queue')))"

definition ComputeLevelGraph ::
  "BisectionGraphView \<Rightarrow> NodeID list \<Rightarrow> NodeID list \<Rightarrow> NodeID list \<Rightarrow> FlowEdges \<Rightarrow> Level list option" where
  "ComputeLevelGraph view border_source_nodes source_nodes sink_nodes flow =
     (let (levels, level_queue) = seed_levels view source_nodes border_source_nodes
            (replicate (bv_NumberOfNodes view) INVALID_LEVEL, [])
      in bfs_loop view sink_nodes flow levels level_queue)"

subsection \<open>Augmenting paths\<close>

text \<open>
  The stack holds the edges every node of the path has left, the path its last node first: the
  list is then the reversed path the code returns.  Inner and outer loop are one: an exhausted
  top is the exit of the inner loop.
\<close>

partial_function (option) dfs_loop ::
  "BisectionGraphView \<Rightarrow> FlowEdges \<Rightarrow> NodeID list \<Rightarrow> Level list \<Rightarrow> NodeID list list \<Rightarrow> NodeID list \<Rightarrow>
   (Level list \<times> NodeID list) option" where
  "dfs_loop view flow source_nodes levels dfs_stack path =
     (case dfs_stack of
        [] \<Rightarrow> Some (levels, path)
      | [] # stack \<Rightarrow> dfs_loop view flow source_nodes (levels[hd path := INVALID_LEVEL]) stack (tl path)
      | (target # edges) # stack \<Rightarrow>
          (if hd path \<notin> flow ! target \<and> level_succ (levels ! target) = levels ! hd path
           then if target \<in> set source_nodes then Some (levels, target # path)
                else dfs_loop view flow source_nodes levels (bv_Edges view target # edges # stack) (target # path)
           else dfs_loop view flow source_nodes levels (edges # stack) path))"

definition GetAugmentingPath ::
  "BisectionGraphView \<Rightarrow> FlowEdges \<Rightarrow> NodeID list \<Rightarrow> Level list \<Rightarrow> NodeID \<Rightarrow> (Level list \<times> NodeID list) option" where
  "GetAugmentingPath view flow source_nodes levels node_id =
     dfs_loop view flow source_nodes levels [bv_Edges view node_id] [node_id]"

definition augment_one :: "NodeID \<Rightarrow> NodeID \<Rightarrow> FlowEdges \<Rightarrow> FlowEdges" where
  "augment_one from to flow =
     (if from \<in> flow ! to then flow[to := flow ! to - {from}]
      else flow[from := insert to (flow ! from)])"

fun augment_flow :: "NodeID list \<Rightarrow> FlowEdges \<Rightarrow> FlowEdges" where
  "augment_flow (from # to # path) flow = augment_flow (to # path) (augment_one from to flow)"
| "augment_flow path flow = flow"

partial_function (option) augment_paths ::
  "BisectionGraphView \<Rightarrow> NodeID list \<Rightarrow> NodeID \<Rightarrow> Level list \<Rightarrow> FlowEdges \<Rightarrow> nat \<Rightarrow>
   (Level list \<times> FlowEdges \<times> nat) option" where
  "augment_paths view source_nodes sink_node_id levels flow flow_increase =
     Option.bind (GetAugmentingPath view flow source_nodes levels sink_node_id)
       (\<lambda>(levels', path).
          if path = [] then Some (levels', flow, flow_increase)
          else augment_paths view source_nodes sink_node_id levels' (augment_flow path flow) (flow_increase + 1))"

fun BlockingFlow ::
  "BisectionGraphView \<Rightarrow> NodeID list \<Rightarrow> NodeID list \<Rightarrow> Level list \<Rightarrow> FlowEdges \<Rightarrow> nat \<Rightarrow>
   (Level list \<times> FlowEdges \<times> nat) option" where
  "BlockingFlow view source_nodes [] levels flow flow_increase = Some (levels, flow, flow_increase)"
| "BlockingFlow view source_nodes (sink # sinks) levels flow flow_increase =
     (if levels ! sink = INVALID_LEVEL then BlockingFlow view source_nodes sinks levels flow flow_increase
      else Option.bind (augment_paths view source_nodes sink levels flow flow_increase)
             (\<lambda>(levels', flow', flow_increase'). BlockingFlow view source_nodes sinks levels' flow' flow_increase'))"

subsection \<open>The cut\<close>

definition MakeCut :: "BisectionGraphView \<Rightarrow> Level list \<Rightarrow> nat \<Rightarrow> MinCut" where
  "MakeCut view levels flow_value =
     \<lparr>num_nodes_source = length (filter (\<lambda>level. level \<noteq> INVALID_LEVEL) levels), num_edges = flow_value,
      flags = map (\<lambda>level. level \<noteq> INVALID_LEVEL) levels\<rparr>"

definition mark_sources :: "NodeID list \<Rightarrow> Level list \<Rightarrow> Level list" where
  "mark_sources source_nodes levels = foldl (\<lambda>levels s. levels[s := 0]) levels source_nodes"

partial_function (option) max_flow_loop ::
  "BisectionGraphView \<Rightarrow> NodeID list \<Rightarrow> NodeID list \<Rightarrow> NodeID list \<Rightarrow> NodeID list \<Rightarrow> FlowEdges \<Rightarrow> nat \<Rightarrow>
   MinCut option" where
  "max_flow_loop view source_nodes sink_nodes border_source_nodes border_sink_nodes flow flow_value =
     Option.bind (ComputeLevelGraph view border_source_nodes source_nodes sink_nodes flow)
       (\<lambda>levels.
          if list_ex (\<lambda>node. levels ! node \<noteq> INVALID_LEVEL) border_sink_nodes
          then Option.bind (BlockingFlow view source_nodes border_sink_nodes levels flow 0)
                 (\<lambda>(levels', flow', flow_increase).
                    max_flow_loop view source_nodes sink_nodes border_source_nodes border_sink_nodes
                      flow' (flow_value + flow_increase))
          else Some (MakeCut view (mark_sources source_nodes levels) flow_value))"

definition DinicMaxFlow :: "BisectionGraphView \<Rightarrow> NodeID list \<Rightarrow> NodeID list \<Rightarrow> MinCut option" where
  "DinicMaxFlow view source_nodes sink_nodes =
     max_flow_loop view source_nodes sink_nodes
       (filter (has_neighbor_not_in source_nodes view) source_nodes)
       (filter (has_neighbor_not_in sink_nodes view) sink_nodes)
       (replicate (bv_NumberOfNodes view) {}) 0"


section \<open>The level graph\<close>

text \<open>What is assumed of the view: every edge leads to a node of the view and has its
  counterpart.\<close>

definition undirected :: "BisectionGraphView \<Rightarrow> bool" where
  "undirected view \<longleftrightarrow> (\<forall>u < bv_NumberOfNodes view. \<forall>v \<in> set (bv_Edges view u).
     v < bv_NumberOfNodes view \<and> u \<in> set (bv_Edges view v))"

lemma undirectedD:
  assumes "undirected view" "u < bv_NumberOfNodes view" "v \<in> set (bv_Edges view u)"
  shows "v < bv_NumberOfNodes view" "u \<in> set (bv_Edges view v)"
  using assms unfolding undirected_def by blast+

lemma seed_neighbours_spec:
  "length (seed_neighbours S ts L) = length L \<and>
   (v < length L \<longrightarrow> seed_neighbours S ts L ! v = (if v \<in> set ts \<and> v \<in> set S then 0 else L ! v))"
  by (induction S ts L rule: seed_neighbours.induct) (auto simp: nth_list_update_in)

lemma seed_levels_spec:
  "set bs \<subseteq> set S \<Longrightarrow> \<forall>v < length L. L ! v = INVALID_LEVEL \<or> L ! v = 0 \<and> v \<in> set S \<Longrightarrow>
   \<exists>L'. seed_levels view S bs (L, q) = (L', q @ bs) \<and> length L' = length L \<and>
     (\<forall>v < length L. L' ! v = INVALID_LEVEL \<or> L' ! v = 0 \<and> v \<in> set S) \<and>
     (\<forall>v < length L. v \<in> set bs \<or> L ! v = 0 \<longrightarrow> L' ! v = 0)"
proof (induction bs arbitrary: L q)
  case (Cons b bs)
  let ?L = "seed_neighbours S (bv_Edges view b) (L[b := 0])"
  have L: "length ?L = length L" "\<And>v. v < length L \<Longrightarrow> ?L ! v =
      (if v \<in> set (bv_Edges view b) \<and> v \<in> set S then 0 else if v = b then 0 else L ! v)"
    using seed_neighbours_spec [of S "bv_Edges view b" "L[b := 0]"] by (simp_all add: nth_list_update)
  have "\<forall>v < length ?L. ?L ! v = INVALID_LEVEL \<or> ?L ! v = 0 \<and> v \<in> set S"
    using Cons.prems L by auto
  from Cons.IH [OF _ this, of "q @ [b]"] Cons.prems(1) obtain L' where
    "seed_levels view S bs (?L, q @ [b]) = (L', (q @ [b]) @ bs)" "length L' = length L"
    "\<forall>v < length L. L' ! v = INVALID_LEVEL \<or> L' ! v = 0 \<and> v \<in> set S"
    "\<forall>v < length L. v \<in> set bs \<or> ?L ! v = 0 \<longrightarrow> L' ! v = 0" unfolding L(1) by auto
  then show ?case using L(2) by (intro exI [of _ L']) auto
qed simp

text \<open>Relaxing a node gives its level plus one to the new neighbours and queues them.\<close>

lemma relax_edges_spec:
  assumes "\<forall>v < length L. L ! v = INVALID_LEVEL \<or> L ! v \<le> level" "level < INVALID_LEVEL"
    "\<forall>t \<in> set ts. t < length L"
  shows "\<exists>new L'. relax_edges flow u level ts (L, q) = (L', q @ new) \<and> length L' = length L \<and> distinct new \<and>
    set new = {t \<in> set ts. t \<notin> flow ! u \<and> L ! t = INVALID_LEVEL} \<and>
    (\<forall>v < length L. L' ! v = (if v \<in> set new then level else L ! v))"
  using assms
proof (induction ts arbitrary: L q)
  case (Cons t ts)
  have t: "t < length L" using Cons.prems(3) by simp
  have gt: "L ! t > level \<longleftrightarrow> L ! t = INVALID_LEVEL" using Cons.prems(1,2) t by auto
  show ?case
  proof (cases "t \<notin> flow ! u \<and> L ! t = INVALID_LEVEL")
    case True
    let ?L = "L[t := level]"
    have "\<exists>new L'. relax_edges flow u level ts (?L, q @ [t]) = (L', (q @ [t]) @ new) \<and> length L' = length ?L \<and>
      distinct new \<and> set new = {t \<in> set ts. t \<notin> flow ! u \<and> ?L ! t = INVALID_LEVEL} \<and>
      (\<forall>v < length ?L. L' ! v = (if v \<in> set new then level else ?L ! v))"
      by (rule Cons.IH) (use Cons.prems t in \<open>auto simp: nth_list_update\<close>)
    then obtain new L' where n: "relax_edges flow u level ts (?L, q @ [t]) = (L', (q @ [t]) @ new)"
      "length L' = length L" "distinct new" "set new = {t \<in> set ts. t \<notin> flow ! u \<and> ?L ! t = INVALID_LEVEL}"
      "\<forall>v < length L. L' ! v = (if v \<in> set new then level else ?L ! v)" by auto
    have tn: "t \<notin> set new" using n(4) t Cons.prems(2) by simp
    have "set (t # new) = {x \<in> set (t # ts). x \<notin> flow ! u \<and> L ! x = INVALID_LEVEL}"
      using n(4) True t Cons.prems(2,3) by (auto simp: nth_list_update split: if_splits)
    moreover have "relax_edges flow u level (t # ts) (L, q) = (L', q @ (t # new))" using n(1) True gt by simp
    moreover have "\<forall>v < length L. L' ! v = (if v \<in> set (t # new) then level else L ! v)"
      using n(5) by (auto simp: nth_list_update)
    moreover have "distinct (t # new)" using tn n(3) by simp
    ultimately show ?thesis using n(2) by blast
  next
    case False
    then have eq: "relax_edges flow u level (t # ts) (L, q) = relax_edges flow u level ts (L, q)"
      using gt by auto
    have "{x \<in> set (t # ts). x \<notin> flow ! u \<and> L ! x = INVALID_LEVEL} = {x \<in> set ts. x \<notin> flow ! u \<and> L ! x = INVALID_LEVEL}"
      using False by auto
    then show ?thesis unfolding eq using Cons.IH [OF Cons.prems(1,2)] Cons.prems(3) by simp
  qed
qed simp

text \<open>
  The invariant of the breadth-first search: the queue is ordered by level, no level is more than
  one above its front, every level has a predecessor without flow on the edge, and what has left
  the queue has passed its level on.
\<close>

definition bfs_inv ::
  "BisectionGraphView \<Rightarrow> NodeID list \<Rightarrow> NodeID list \<Rightarrow> FlowEdges \<Rightarrow> Level list \<Rightarrow> NodeID list \<Rightarrow> bool" where
  "bfs_inv view S T flow L q \<longleftrightarrow> (let n = bv_NumberOfNodes view; valid = (\<lambda>v. L ! v \<noteq> INVALID_LEVEL) in
     length L = n \<and>
     (\<forall>v \<in> set q. v < n \<and> valid v) \<and> sorted (map ((!) L) q) \<and>
     (q \<noteq> [] \<longrightarrow> (\<forall>v < n. valid v \<longrightarrow> L ! v \<le> L ! hd q + 1)) \<and>
     (\<forall>v < n. valid v \<longrightarrow> L ! v = 0 \<and> v \<in> set S \<or>
        (\<exists>u < n. u \<notin> set T \<and> valid u \<and> v \<in> set (bv_Edges view u) \<and> v \<notin> flow ! u \<and> L ! v = L ! u + 1)) \<and>
     (\<forall>v < n. valid v \<longrightarrow> v \<notin> set q \<longrightarrow> v \<notin> set T \<longrightarrow>
        v \<in> set S \<and> \<not> has_neighbor_not_in S view v \<or>
        (\<forall>w \<in> set (bv_Edges view v). w \<notin> flow ! v \<longrightarrow> valid w)) \<and>
     (\<forall>v < n. v \<in> set S \<and> has_neighbor_not_in S view v \<longrightarrow> valid v))"

lemma bfs_invD:
  assumes "bfs_inv view S T flow L q"
  shows "length L = bv_NumberOfNodes view"
    "v \<in> set q \<Longrightarrow> v < bv_NumberOfNodes view \<and> L ! v \<noteq> INVALID_LEVEL"
    "sorted (map ((!) L) q)"
    "q \<noteq> [] \<Longrightarrow> v < bv_NumberOfNodes view \<Longrightarrow> L ! v \<noteq> INVALID_LEVEL \<Longrightarrow> L ! v \<le> L ! hd q + 1"
    "v < bv_NumberOfNodes view \<Longrightarrow> L ! v \<noteq> INVALID_LEVEL \<Longrightarrow> L ! v = 0 \<and> v \<in> set S \<or>
       (\<exists>u < bv_NumberOfNodes view. u \<notin> set T \<and> L ! u \<noteq> INVALID_LEVEL \<and> v \<in> set (bv_Edges view u) \<and>
          v \<notin> flow ! u \<and> L ! v = L ! u + 1)"
    "v < bv_NumberOfNodes view \<Longrightarrow> L ! v \<noteq> INVALID_LEVEL \<Longrightarrow> v \<notin> set q \<Longrightarrow> v \<notin> set T \<Longrightarrow>
        v \<in> set S \<and> \<not> has_neighbor_not_in S view v \<or>
        (\<forall>w \<in> set (bv_Edges view v). w \<notin> flow ! v \<longrightarrow> L ! w \<noteq> INVALID_LEVEL)"
    "v < bv_NumberOfNodes view \<Longrightarrow> v \<in> set S \<Longrightarrow> has_neighbor_not_in S view v \<Longrightarrow> L ! v \<noteq> INVALID_LEVEL"
  using assms unfolding bfs_inv_def Let_def by blast+

lemma bfs_level_chain:
  assumes "bfs_inv view S T flow L q"
  shows "v < bv_NumberOfNodes view \<Longrightarrow> L ! v \<noteq> INVALID_LEVEL \<Longrightarrow> L ! v = k \<Longrightarrow> j \<le> k \<Longrightarrow>
    \<exists>w < bv_NumberOfNodes view. L ! w = j"
proof (induction k arbitrary: v)
  case (Suc k)
  show ?case
  proof (cases "j = Suc k")
    case False
    from bfs_invD(5) [OF assms Suc.prems(1,2)] Suc.prems(3) obtain u where
      "u < bv_NumberOfNodes view" "L ! u \<noteq> INVALID_LEVEL" "L ! u = k" by auto
    with Suc.IH [of u] False Suc.prems(4) show ?thesis by simp
  qed (use Suc.prems in blast)
qed auto

lemma bfs_level_less:
  assumes "bfs_inv view S T flow L q" "v < bv_NumberOfNodes view" "L ! v \<noteq> INVALID_LEVEL"
  shows "L ! v < bv_NumberOfNodes view"
proof -
  have "{0..L ! v} \<subseteq> (!) L ` {..<bv_NumberOfNodes view}"
    using bfs_level_chain [OF assms refl] by fastforce
  from card_mono [OF _ this] card_image_le [of "{..<bv_NumberOfNodes view}" "(!) L"] show ?thesis by simp
qed

lemma bfs_step:
  assumes und: "undirected view" and small: "bv_NumberOfNodes view < INVALID_LEVEL"
    and inv: "bfs_inv view S T flow L (u # q)"
  shows "\<exists>L' q'. bfs_relax_node view T flow u (L, u # q) = (L', u # q') \<and> bfs_inv view S T flow L' q' \<and>
    card {v. v < bv_NumberOfNodes view \<and> L' ! v = INVALID_LEVEL} + length q' <
    card {v. v < bv_NumberOfNodes view \<and> L ! v = INVALID_LEVEL} + length (u # q)"
proof (cases "u \<in> set T")
  case True
  have srt: "sorted (map ((!) L) q)" using bfs_invD(3) [OF inv] by simp
  have top: "L ! v \<le> L ! hd q + 1" if "q \<noteq> []" "v < bv_NumberOfNodes view" "L ! v \<noteq> INVALID_LEVEL" for v
  proof -
    have "L ! u \<le> L ! hd q" using bfs_invD(3) [OF inv] that(1) by (cases q) auto
    with bfs_invD(4) [OF inv _ that(2,3)] show ?thesis by simp
  qed
  have closed: "v \<in> set S \<and> \<not> has_neighbor_not_in S view v \<or>
        (\<forall>w \<in> set (bv_Edges view v). w \<notin> flow ! v \<longrightarrow> L ! w \<noteq> INVALID_LEVEL)"
    if "v < bv_NumberOfNodes view" "L ! v \<noteq> INVALID_LEVEL" "v \<notin> set q" "v \<notin> set T" for v
  proof -
    have "v \<notin> set (u # q)" using that True by auto
    from bfs_invD(6) [OF inv that(1,2) this that(4)] show ?thesis .
  qed
  have "bfs_inv view S T flow L q"
    unfolding bfs_inv_def Let_def
  proof (intro conjI)
    show "\<forall>v \<in> set q. v < bv_NumberOfNodes view \<and> L ! v \<noteq> INVALID_LEVEL" using bfs_invD(2) [OF inv] by simp
  qed (use bfs_invD(1,5,7) [OF inv] srt top closed in blast)+
  then show ?thesis using True by (simp add: bfs_relax_node_def)
next
  case False
  let ?n = "bv_NumberOfNodes view" and ?l = "L ! u + 1"
  have u: "u < ?n" "L ! u \<noteq> INVALID_LEVEL" using bfs_invD(2) [OF inv, of u] by simp_all
  note len = bfs_invD(1) [OF inv]
  have l: "?l < INVALID_LEVEL" "level_succ (L ! u) = ?l"
    using bfs_level_less [OF inv u] small by (simp_all add: level_succ_def INVALID_LEVEL_def)
  have "\<forall>v < length L. L ! v = INVALID_LEVEL \<or> L ! v \<le> ?l" 
  proof (intro allI impI)
    fix v assume "v < length L"
    with bfs_invD(4) [OF inv _ _ , of v] len show "L ! v = INVALID_LEVEL \<or> L ! v \<le> ?l"
      by (cases "L ! v = INVALID_LEVEL") simp_all
  qed
  moreover have "\<forall>t \<in> set (bv_Edges view u). t < length L" unfolding len using undirectedD(1) [OF und u(1)] by blast
  ultimately obtain new L' where r: "relax_edges flow u ?l (bv_Edges view u) (L, u # q) = (L', (u # q) @ new)"
    "length L' = length L" "distinct new"
    "set new = {t \<in> set (bv_Edges view u). t \<notin> flow ! u \<and> L ! t = INVALID_LEVEL}"
    "\<forall>v < length L. L' ! v = (if v \<in> set new then ?l else L ! v)"
    using relax_edges_spec [OF _ l(1)] by blast
  have new: "v < ?n" "v \<in> set (bv_Edges view u)" "v \<notin> flow ! u" "L ! v = INVALID_LEVEL" if "v \<in> set new" for v
    using that undirectedD(1) [OF und u(1)] by (auto simp: r(4))
  have lev: "L' ! v = (if v \<in> set new then ?l else L ! v)" if "v < ?n" for v using r(5) that len by simp
  have old: "L' ! v = L ! v" if "v < ?n" "L ! v \<noteq> INVALID_LEVEL" for v using lev [OF that(1)] new(4) that(2) by auto
  have valid: "L' ! v \<noteq> INVALID_LEVEL \<longleftrightarrow> L ! v \<noteq> INVALID_LEVEL \<or> v \<in> set new" if "v < ?n" for v
    using lev [OF that] l(1) by auto
  have le: "L' ! v \<le> ?l" if "v < ?n" "L' ! v \<noteq> INVALID_LEVEL" for v
    using that lev bfs_invD(4) [OF inv _ that(1)] by (auto split: if_splits)
  have qold: "L' ! v = L ! v" if "v \<in> set q" for v using bfs_invD(2) [OF inv, of v] old that by simp
  have qmap: "map ((!) L') (q @ new) = map ((!) L) q @ replicate (length new) ?l"
    using qold lev new(1) by (auto intro!: nth_equalityI simp: nth_append)
  have srt: "sorted (map ((!) L') (q @ new))"
    unfolding qmap using bfs_invD(3) [OF inv] bfs_invD(2,4) [OF inv]
    by (auto simp: sorted_append)
  have hd_ge: "L ! u \<le> L' ! hd (q @ new)" if "q @ new \<noteq> []"
  proof (cases q)
    case Nil
    then have "hd new \<in> set new" using that by simp
    then show ?thesis using Nil lev new(1) by simp
  next
    case (Cons x xs)
    then show ?thesis using bfs_invD(3) [OF inv] qold [of x] by simp
  qed
  have top: "L' ! v \<le> L' ! hd (q @ new) + 1" if "q @ new \<noteq> []" "v < ?n" "L' ! v \<noteq> INVALID_LEVEL" for v
    using le [OF that(2,3)] hd_ge [OF that(1)] by simp
  have pred: "L' ! v = 0 \<and> v \<in> set S \<or> (\<exists>x < ?n. x \<notin> set T \<and> L' ! x \<noteq> INVALID_LEVEL \<and>
      v \<in> set (bv_Edges view x) \<and> v \<notin> flow ! x \<and> L' ! v = L' ! x + 1)"
    if v: "v < ?n" "L' ! v \<noteq> INVALID_LEVEL" for v
  proof (cases "v \<in> set new")
    case True
    then have "L' ! v = L' ! u + 1" using lev [OF v(1)] old [OF u] by simp
    then show ?thesis using u old [OF u] False new(2,3) [OF True] by auto
  next
    case f: False
    then have "L ! v \<noteq> INVALID_LEVEL" "L' ! v = L ! v" using valid [OF v(1)] v(2) lev [OF v(1)] by auto
    with bfs_invD(5) [OF inv v(1)] old show ?thesis by metis
  qed
  have closed: "v \<in> set S \<and> \<not> has_neighbor_not_in S view v \<or>
        (\<forall>w \<in> set (bv_Edges view v). w \<notin> flow ! v \<longrightarrow> L' ! w \<noteq> INVALID_LEVEL)"
    if v: "v < ?n" "L' ! v \<noteq> INVALID_LEVEL" "v \<notin> set (q @ new)" "v \<notin> set T" for v
  proof (cases "v = u")
    case True
    have "L' ! w \<noteq> INVALID_LEVEL" if "w \<in> set (bv_Edges view u)" "w \<notin> flow ! u" for w
    proof -
      have "w < ?n" using undirectedD(1) [OF und u(1) that(1)] .
      then show ?thesis using valid that r(4) by blast
    qed
    then show ?thesis using True by blast
  next
    case f: False
    have "L ! v \<noteq> INVALID_LEVEL" using valid [OF v(1)] v(2,3) by auto
    with bfs_invD(6) [OF inv v(1) _ _ v(4)] f v(3) have "v \<in> set S \<and> \<not> has_neighbor_not_in S view v \<or>
        (\<forall>w \<in> set (bv_Edges view v). w \<notin> flow ! v \<longrightarrow> L ! w \<noteq> INVALID_LEVEL)" by auto
    moreover have "w < ?n" if "w \<in> set (bv_Edges view v)" for w using undirectedD(1) [OF und v(1) that] .
    ultimately show ?thesis using valid by blast
  qed
  have "bfs_inv view S T flow L' (q @ new)"
    unfolding bfs_inv_def Let_def
  proof (intro conjI)
    show "length L' = ?n" using r(2) len by simp
    show "\<forall>v \<in> set (q @ new). v < ?n \<and> L' ! v \<noteq> INVALID_LEVEL"
      using bfs_invD(2) [OF inv] valid new(1) by auto
    show "\<forall>v < ?n. v \<in> set S \<and> has_neighbor_not_in S view v \<longrightarrow> L' ! v \<noteq> INVALID_LEVEL"
      using bfs_invD(7) [OF inv] valid by blast
  qed (use srt top pred closed in blast)+
  moreover have "card {v. v < ?n \<and> L ! v = INVALID_LEVEL} =
      card {v. v < ?n \<and> L' ! v = INVALID_LEVEL} + length new"
  proof -
    have "{v. v < ?n \<and> L ! v = INVALID_LEVEL} = {v. v < ?n \<and> L' ! v = INVALID_LEVEL} \<union> set new"
      using valid new by auto
    moreover have "{v. v < ?n \<and> L' ! v = INVALID_LEVEL} \<inter> set new = {}" using valid new(1) by auto
    ultimately show ?thesis using card_Un_disjoint [of "{v. v < ?n \<and> L' ! v = INVALID_LEVEL}" "set new"]
      distinct_card [OF r(3)] by simp
  qed
  moreover have "bfs_relax_node view T flow u (L, u # q) = (L', u # (q @ new))"
    using False r(1) by (simp add: bfs_relax_node_def l(2))
  ultimately show ?thesis by (intro exI [of _ L'] exI [of _ "q @ new"]) simp
qed

lemma bfs_loop_returns:
  assumes "undirected view" "bv_NumberOfNodes view < INVALID_LEVEL"
  shows "bfs_inv view S T flow L q \<Longrightarrow> \<exists>L'. bfs_loop view T flow L q = Some L' \<and> bfs_inv view S T flow L' []"
proof (induction "card {v. v < bv_NumberOfNodes view \<and> L ! v = INVALID_LEVEL} + length q" arbitrary: L q rule: less_induct)
  case less
  show ?case
  proof (cases q)
    case Nil
    then show ?thesis using less.prems by (subst bfs_loop.simps) simp
  next
    case (Cons u q1)
    from bfs_step [OF assms less.prems [unfolded Cons]] obtain L' q' where
      s: "bfs_relax_node view T flow u (L, u # q1) = (L', u # q')" "bfs_inv view S T flow L' q'"
      "card {v. v < bv_NumberOfNodes view \<and> L' ! v = INVALID_LEVEL} + length q' <
        card {v. v < bv_NumberOfNodes view \<and> L ! v = INVALID_LEVEL} + length q" unfolding Cons by blast
    have "bfs_loop view T flow L q = bfs_loop view T flow L' q'"
      unfolding Cons by (subst bfs_loop.simps) (simp add: s(1))
    then show ?thesis using less.hyps [OF s(3,2)] by simp
  qed
qed

lemma ComputeLevelGraph_spec:
  assumes "undirected view" "bv_NumberOfNodes view < INVALID_LEVEL" "\<forall>s \<in> set S. s < bv_NumberOfNodes view"
  shows "\<exists>L. ComputeLevelGraph view (filter (has_neighbor_not_in S view) S) S T flow = Some L \<and> bfs_inv view S T flow L []"
proof -
  let ?n = "bv_NumberOfNodes view" and ?b = "filter (has_neighbor_not_in S view) S"
  obtain L where L: "seed_levels view S ?b (replicate ?n INVALID_LEVEL, []) = (L, [] @ ?b)" "length L = ?n"
    "\<forall>v < ?n. L ! v = INVALID_LEVEL \<or> L ! v = 0 \<and> v \<in> set S" "\<forall>v < ?n. v \<in> set ?b \<longrightarrow> L ! v = 0"
    using seed_levels_spec [of ?b S "replicate ?n INVALID_LEVEL" view "[]"] by auto
  have zero: "L ! v = 0" if "v \<in> set ?b" for v using that L(4) assms(3) by simp
  then have "map ((!) L) ?b = map (\<lambda>v. 0) ?b" by (intro map_cong) blast+
  then have "map ((!) L) ?b = replicate (length ?b) 0" by (simp only: map_replicate_const)
  moreover have "(0::nat) \<noteq> INVALID_LEVEL" by (simp add: INVALID_LEVEL_def)
  ultimately have "bfs_inv view S T flow L ?b"
    unfolding bfs_inv_def Let_def using L(2,3) zero assms(3) by auto
  from bfs_loop_returns [OF assms(1,2) this] show ?thesis by (simp add: ComputeLevelGraph_def L(1))
qed


section \<open>Augmenting paths\<close>

text \<open>A path towards the sources: every edge has capacity and descends one level.\<close>

fun level_path :: "BisectionGraphView \<Rightarrow> FlowEdges \<Rightarrow> Level list \<Rightarrow> NodeID list \<Rightarrow> bool" where
  "level_path view flow L (x # y # p) \<longleftrightarrow>
     x \<in> set (bv_Edges view y) \<and> y \<notin> flow ! x \<and> L ! x + 1 = L ! y \<and> level_path view flow L (y # p)"
| "level_path view flow L p \<longleftrightarrow> True"

definition levels_ok :: "BisectionGraphView \<Rightarrow> NodeID list \<Rightarrow> Level list \<Rightarrow> bool" where
  "levels_ok view S L \<longleftrightarrow> length L = bv_NumberOfNodes view \<and>
     (\<forall>v < bv_NumberOfNodes view. L ! v \<le> INVALID_LEVEL \<and> (v \<notin> set S \<longrightarrow> L ! v \<noteq> 0))"

definition inner_node :: "BisectionGraphView \<Rightarrow> NodeID list \<Rightarrow> Level list \<Rightarrow> NodeID \<Rightarrow> bool" where
  "inner_node view S L x \<longleftrightarrow> x < bv_NumberOfNodes view \<and> x \<notin> set S \<and> L ! x \<noteq> INVALID_LEVEL"

definition dfs_inv ::
  "BisectionGraphView \<Rightarrow> FlowEdges \<Rightarrow> NodeID list \<Rightarrow> Level list \<Rightarrow> NodeID list list \<Rightarrow> NodeID list \<Rightarrow> bool" where
  "dfs_inv view flow S L stack path \<longleftrightarrow> levels_ok view S L \<and>
     (\<forall>x \<in> set path. inner_node view S L x) \<and> level_path view flow L path \<and>
     list_all2 (\<lambda>es x. set es \<subseteq> set (bv_Edges view x)) stack path"

lemma level_path_less: "level_path view flow L (x # p) \<Longrightarrow> \<forall>y \<in> set p. L ! x < L ! y"
proof (induction p arbitrary: x)
  case (Cons y p)
  then have "L ! x < L ! y" "level_path view flow L (y # p)" by auto
  with Cons.IH [of y] show ?case by auto
qed simp

lemma level_path_distinct: "level_path view flow L p \<Longrightarrow> distinct p"
proof (induction p)
  case (Cons x p)
  have "level_path view flow L p" using Cons.prems by (cases p) auto
  moreover have "x \<notin> set p" using level_path_less [OF Cons.prems] by auto
  ultimately show ?case using Cons.IH by simp
qed simp

lemma level_path_cong: "(\<And>x. x \<in> set p \<Longrightarrow> L' ! x = L ! x) \<Longrightarrow> level_path view flow L' p = level_path view flow L p"
  by (induction view flow L p rule: level_path.induct) auto

lemma descends:
  assumes "levels_ok view S L" "inner_node view S L y" "x < bv_NumberOfNodes view"
  shows "level_succ (L ! x) = L ! y \<longleftrightarrow> L ! x + 1 = L ! y" "L ! x + 1 = L ! y \<Longrightarrow> L ! x \<noteq> INVALID_LEVEL"
proof -
  have x: "L ! x \<le> INVALID_LEVEL" and y: "L ! y < INVALID_LEVEL" "0 < L ! y"
    using assms by (auto simp: levels_ok_def inner_node_def le_less)
  show "level_succ (L ! x) = L ! y \<longleftrightarrow> L ! x + 1 = L ! y"
  proof (cases "L ! x = INVALID_LEVEL")
    case True
    then show ?thesis using y by (simp add: level_succ_def INVALID_LEVEL_def)
  next
    case False
    with x have "L ! x + 1 < 4294967296" by (simp add: INVALID_LEVEL_def)
    then show ?thesis by (simp add: level_succ_def)
  qed
  show "L ! x + 1 = L ! y \<Longrightarrow> L ! x \<noteq> INVALID_LEVEL" using y by auto
qed

definition dfs_result ::
  "BisectionGraphView \<Rightarrow> FlowEdges \<Rightarrow> NodeID list \<Rightarrow> NodeID \<Rightarrow> Level list \<Rightarrow> NodeID list \<Rightarrow> bool" where
  "dfs_result view flow S start L p \<longleftrightarrow> levels_ok view S L \<and>
     (p \<noteq> [] \<longrightarrow> level_path view flow L p \<and> hd p \<in> set S \<and> hd p < bv_NumberOfNodes view \<and> tl p \<noteq> [] \<and>
        (\<forall>x \<in> set (tl p). inner_node view S L x) \<and> last p = start)"

definition dfs_work :: "BisectionGraphView \<Rightarrow> Level list \<Rightarrow> NodeID list list \<Rightarrow> NodeID list \<Rightarrow> nat" where
  "dfs_work view L stack path =
     (\<Sum>v \<in> {v. v < bv_NumberOfNodes view \<and> L ! v \<noteq> INVALID_LEVEL \<and> v \<notin> set path}. length (bv_Edges view v) + 2) +
     sum_list (map (\<lambda>es. length es + 1) stack)"

lemma dfs_loop_simps:
  "dfs_loop view flow S L [] path = Some (L, path)"
  "dfs_loop view flow S L ([] # stack) path =
     dfs_loop view flow S (L[hd path := INVALID_LEVEL]) stack (tl path)"
  "dfs_loop view flow S L ((t # es) # stack) path =
     (if hd path \<notin> flow ! t \<and> level_succ (L ! t) = L ! hd path
      then if t \<in> set S then Some (L, t # path)
           else dfs_loop view flow S L (bv_Edges view t # es # stack) (t # path)
      else dfs_loop view flow S L (es # stack) path)"
  by (subst dfs_loop.simps, simp)+

lemma dfs_loop_returns:
  assumes und: "undirected view"
  shows "dfs_inv view flow S L stack path \<Longrightarrow> (path \<noteq> [] \<longrightarrow> last path = start) \<Longrightarrow>
    \<exists>L' p. dfs_loop view flow S L stack path = Some (L', p) \<and> dfs_result view flow S start L' p"
proof (induction "dfs_work view L stack path" arbitrary: L stack path rule: less_induct)
  case less
  let ?n = "bv_NumberOfNodes view"
  have lv: "levels_ok view S L" and inner: "\<And>x. x \<in> set path \<Longrightarrow> inner_node view S L x"
    and lp: "level_path view flow L path" and st: "list_all2 (\<lambda>es x. set es \<subseteq> set (bv_Edges view x)) stack path"
    using less.prems(1) by (auto simp: dfs_inv_def)
  show ?case
  proof (cases stack)
    case Nil
    then have "path = []" using st by simp
    then show ?thesis using lv Nil by (simp add: dfs_loop_simps dfs_result_def)
  next
    case (Cons es0 stack1)
    then obtain y path1 where path: "path = y # path1" and es0: "set es0 \<subseteq> set (bv_Edges view y)"
      and st1: "list_all2 (\<lambda>es x. set es \<subseteq> set (bv_Edges view x)) stack1 path1"
      using st by (auto simp: list_all2_Cons1)
    have y: "inner_node view S L y" using inner path by simp
    show ?thesis
    proof (cases es0)
      case Nil
      let ?L = "L[y := INVALID_LEVEL]"
      have yn: "y < ?n" using y by (simp add: inner_node_def)
      have ynot: "y \<notin> set path1" using level_path_distinct [OF lp] path by simp
      have same: "?L ! x = L ! x" if "x \<in> set path1" for x
        using that ynot by (metis nth_list_update_neq)
      have at: "?L ! v = (if v = y then INVALID_LEVEL else L ! v)" if "v < ?n" for v
        using that lv by (auto simp: levels_ok_def nth_list_update_in)
      have "levels_ok view S ?L" using lv at by (auto simp: levels_ok_def INVALID_LEVEL_def)
      moreover have "\<forall>x \<in> set path1. inner_node view S ?L x" using inner path same by (simp add: inner_node_def)
      moreover have "level_path view flow ?L path1"
        using lp path by (subst level_path_cong [OF same]) (cases path1; simp)+
      ultimately have inv: "dfs_inv view flow S ?L stack1 path1" using st1 by (simp add: dfs_inv_def)
      have "{v. v < ?n \<and> ?L ! v \<noteq> INVALID_LEVEL \<and> v \<notin> set path1} = {v. v < ?n \<and> L ! v \<noteq> INVALID_LEVEL \<and> v \<notin> set path}"
        using path by (auto simp: at split: if_splits)
      then have "dfs_work view ?L stack1 path1 < dfs_work view L stack path"
        unfolding dfs_work_def Cons by simp
      moreover have "path1 \<noteq> [] \<longrightarrow> last path1 = start" using less.prems(2) path by auto
      ultimately show ?thesis
        using less.hyps [OF _ inv] unfolding Cons Nil path by (simp add: dfs_loop_simps)
    next
      case (Cons t es)
      have tn: "t < ?n" "t \<in> set (bv_Edges view y)"
        using es0 Cons undirectedD(1) [OF und, of y t] y by (auto simp: inner_node_def)
      note d = descends [OF lv y tn(1)]
      show ?thesis
      proof (cases "y \<notin> flow ! t \<and> level_succ (L ! t) = L ! y")
        case True
        then have lt: "L ! t + 1 = L ! y" "L ! t \<noteq> INVALID_LEVEL" using d by auto
        have lp': "level_path view flow L (t # path)" using lp lt(1) True tn(2) path by simp
        show ?thesis
        proof (cases "t \<in> set S")
          case in_S: True
          then have "dfs_loop view flow S L stack path = Some (L, t # path)"
            using True unfolding \<open>stack = es0 # stack1\<close> Cons path by (simp add: dfs_loop_simps)
          moreover have "dfs_result view flow S start L (t # path)"
            using lv lp' in_S tn(1) inner less.prems(2) path by (simp add: dfs_result_def)
          ultimately show ?thesis by blast
        next
          case False
          have ti: "inner_node view S L t" using False tn(1) lt(2) by (simp add: inner_node_def)
          have inv: "dfs_inv view flow S L (bv_Edges view t # es # stack1) (t # path)"
            using lv inner ti lp' st1 es0 Cons path by (auto simp: dfs_inv_def)
          have tnot: "t \<notin> set path" using level_path_distinct [OF lp'] by simp
          let ?A = "\<lambda>p. {v. v < ?n \<and> L ! v \<noteq> INVALID_LEVEL \<and> v \<notin> set p}"
          have "?A path = insert t (?A (t # path))" using ti tnot by (auto simp: inner_node_def)
          then have "(\<Sum>v \<in> ?A path. length (bv_Edges view v) + 2) =
              (\<Sum>v \<in> ?A (t # path). length (bv_Edges view v) + 2) + (length (bv_Edges view t) + 2)"
            by simp
          then have "dfs_work view L (bv_Edges view t # es # stack1) (t # path) < dfs_work view L stack path"
            unfolding dfs_work_def \<open>stack = es0 # stack1\<close> Cons by simp
          from less.hyps [OF this inv] less.prems(2) path show ?thesis
            using True False unfolding \<open>stack = es0 # stack1\<close> Cons by (simp add: dfs_loop_simps)
        qed
      next
        case False
        have inv: "dfs_inv view flow S L (es # stack1) path"
          using lv inner lp st1 es0 Cons path by (auto simp: dfs_inv_def)
        have "dfs_work view L (es # stack1) path < dfs_work view L stack path"
          unfolding dfs_work_def \<open>stack = es0 # stack1\<close> Cons by simp
        moreover have "dfs_loop view flow S L stack path = dfs_loop view flow S L (es # stack1) path"
          unfolding \<open>stack = es0 # stack1\<close> Cons path using False by (auto simp: dfs_loop_simps)
        ultimately show ?thesis using less.hyps [OF _ inv less.prems(2)] by simp
      qed
    qed
  qed
qed

text \<open>While every node with a level has an edge down to it, the search never turns back.\<close>

definition levels_connected :: "BisectionGraphView \<Rightarrow> FlowEdges \<Rightarrow> NodeID list \<Rightarrow> Level list \<Rightarrow> bool" where
  "levels_connected view flow S L \<longleftrightarrow> (\<forall>v. inner_node view S L v \<longrightarrow>
     (\<exists>u \<in> set (bv_Edges view v). v \<notin> flow ! u \<and> L ! u + 1 = L ! v))"

lemma dfs_loop_finds:
  assumes und: "undirected view" and lv: "levels_ok view S L" and con: "levels_connected view flow S L"
  shows "inner_node view S L y \<Longrightarrow> set es \<subseteq> set (bv_Edges view y) \<Longrightarrow>
    \<exists>u \<in> set es. y \<notin> flow ! u \<and> L ! u + 1 = L ! y \<Longrightarrow>
    \<exists>p. dfs_loop view flow S L (es # stack) (y # path) = Some (L, p) \<and> p \<noteq> []"
proof (induction "L ! y" arbitrary: y es stack path rule: less_induct)
  case less
  have level: "\<And>y' es' stack' path'. L ! y' < L ! y \<Longrightarrow> inner_node view S L y' \<Longrightarrow>
      set es' \<subseteq> set (bv_Edges view y') \<Longrightarrow> \<exists>u \<in> set es'. y' \<notin> flow ! u \<and> L ! u + 1 = L ! y' \<Longrightarrow>
      \<exists>p. dfs_loop view flow S L (es' # stack') (y' # path') = Some (L, p) \<and> p \<noteq> []"
    using less.hyps by blast
  show ?case
    using less.prems(2,3)
  proof (induction es)
    case (Cons t es)
    have tn: "t < bv_NumberOfNodes view"
      using Cons.prems(1) undirectedD(1) [OF und, of y t] less.prems(1) by (auto simp: inner_node_def)
    note d = descends [OF lv less.prems(1) tn]
    show ?case
    proof (cases "y \<notin> flow ! t \<and> L ! t + 1 = L ! y")
      case True
      then have lt: "L ! t < L ! y" by simp
      show ?thesis
      proof (cases "t \<in> set S")
        case False
        then have "inner_node view S L t" using tn d(2) True by (simp add: inner_node_def)
        moreover from this con have "\<exists>u \<in> set (bv_Edges view t). t \<notin> flow ! u \<and> L ! u + 1 = L ! t"
          by (simp add: levels_connected_def)
        ultimately show ?thesis using level [OF lt _ order.refl] True False d(1) by (simp add: dfs_loop_simps)
      qed (use True d(1) in \<open>simp add: dfs_loop_simps\<close>)
    next
      case False
      with Cons.prems(2) have "\<exists>u \<in> set es. y \<notin> flow ! u \<and> L ! u + 1 = L ! y" by auto
      moreover have "set es \<subseteq> set (bv_Edges view y)" using Cons.prems(1) by simp
      moreover have "dfs_loop view flow S L ((t # es) # stack) (y # path) = dfs_loop view flow S L (es # stack) (y # path)"
        using False d(1) by (auto simp: dfs_loop_simps)
      ultimately show ?thesis using Cons.IH by simp
    qed
  qed simp
qed

lemma GetAugmentingPath_spec:
  assumes und: "undirected view" and lv: "levels_ok view S L" and t: "t < bv_NumberOfNodes view" "t \<notin> set S"
    "L ! t \<noteq> INVALID_LEVEL"
  shows "\<exists>L' p. GetAugmentingPath view flow S L t = Some (L', p) \<and> dfs_result view flow S t L' p \<and>
    (levels_connected view flow S L \<longrightarrow> p \<noteq> [])"
proof -
  have inner: "inner_node view S L t" using t by (simp add: inner_node_def)
  then have "dfs_inv view flow S L [bv_Edges view t] [t]" using lv by (simp add: dfs_inv_def)
  from dfs_loop_returns [OF und this, of t] obtain L' p where
    r: "dfs_loop view flow S L [bv_Edges view t] [t] = Some (L', p)" "dfs_result view flow S t L' p" by auto
  moreover have "p \<noteq> []" if "levels_connected view flow S L"
    using dfs_loop_finds [OF und lv that inner order.refl, of "[]" "[]"] that inner r(1)
    by (auto simp: levels_connected_def)
  ultimately show ?thesis by (auto simp: GetAugmentingPath_def)
qed


section \<open>Flow\<close>

text \<open>The flow from one node to another, its surplus at a node, and what makes a flow.\<close>

definition flow_on :: "FlowEdges \<Rightarrow> NodeID \<Rightarrow> NodeID \<Rightarrow> int" where
  "flow_on flow u v = of_bool (v \<in> flow ! u) - of_bool (u \<in> flow ! v)"

definition net_out :: "BisectionGraphView \<Rightarrow> FlowEdges \<Rightarrow> NodeID \<Rightarrow> int" where
  "net_out view flow u = (\<Sum>v < bv_NumberOfNodes view. flow_on flow u v)"

definition flow_ok :: "BisectionGraphView \<Rightarrow> FlowEdges \<Rightarrow> bool" where
  "flow_ok view flow \<longleftrightarrow> length flow = bv_NumberOfNodes view \<and>
     (\<forall>u < bv_NumberOfNodes view. flow ! u \<subseteq> set (bv_Edges view u)) \<and>
     (\<forall>u < bv_NumberOfNodes view. \<forall>v \<in> flow ! u. u \<notin> flow ! v)"

definition is_flow :: "BisectionGraphView \<Rightarrow> NodeID list \<Rightarrow> NodeID list \<Rightarrow> FlowEdges \<Rightarrow> nat \<Rightarrow> bool" where
  "is_flow view S T flow flow_value \<longleftrightarrow> flow_ok view flow \<and>
     (\<forall>u < bv_NumberOfNodes view. u \<notin> set S \<longrightarrow> u \<notin> set T \<longrightarrow> net_out view flow u = 0) \<and>
     int flow_value = (\<Sum>u \<in> set S. net_out view flow u)"

lemma augment_one_spec:
  assumes ok: "flow_ok view flow" and ab: "a < bv_NumberOfNodes view" "b < bv_NumberOfNodes view" "a \<noteq> b"
    and e: "b \<in> set (bv_Edges view a)" "b \<notin> flow ! a"
  shows "flow_ok view (augment_one a b flow)"
    and "x < bv_NumberOfNodes view \<Longrightarrow> y < bv_NumberOfNodes view \<Longrightarrow>
      flow_on (augment_one a b flow) x y = flow_on flow x y + of_bool (x = a \<and> y = b) - of_bool (x = b \<and> y = a)"
    and "x < bv_NumberOfNodes view \<Longrightarrow> x \<noteq> a \<Longrightarrow> augment_one a b flow ! x \<subseteq> flow ! x"
proof -
  let ?n = "bv_NumberOfNodes view" and ?f = "augment_one a b flow"
  have len: "length flow = ?n" using ok by (simp add: flow_ok_def)
  have at: "?f ! x = (if a \<in> flow ! b then (if x = b then flow ! b - {a} else flow ! x)
      else (if x = a then insert b (flow ! a) else flow ! x))" if "x < ?n" for x
    using that len by (auto simp: augment_one_def nth_list_update_in)
  have sub: "flow ! u \<subseteq> set (bv_Edges view u)" "\<And>v. v \<in> flow ! u \<Longrightarrow> u \<notin> flow ! v" if "u < ?n" for u
    using ok that by (auto simp: flow_ok_def)
  have flen: "length ?f = ?n" using len by (simp add: augment_one_def)
  have fsub: "?f ! u \<subseteq> set (bv_Edges view u)" if "u < ?n" for u
    using sub(1) [OF that] e(1) by (auto simp: at [OF that])
  have "u \<notin> ?f ! v" if u: "u < ?n" and v: "v \<in> ?f ! u" "v < ?n" for u v
    using sub(2) [OF u, of v] sub(2) [OF v(2), of u] v(1) e(2) ab
    by (auto simp: at [OF u] at [OF v(2)] split: if_splits)
  moreover have "u \<notin> ?f ! v" if u: "u < ?n" and v: "v \<in> ?f ! u" "\<not> v < ?n" for u v
  proof -
    have "v \<in> flow ! u" using v u ab(2) by (auto simp: at [OF u] split: if_splits)
    moreover have "?f ! v = flow ! v"
      using v(2) len by (simp add: augment_one_def list_update_beyond) (metis ab nth_list_update_neq)
    ultimately show ?thesis using sub(2) [OF u] by simp
  qed
  ultimately show "flow_ok view ?f" unfolding flow_ok_def using flen fsub by blast
  show "x < ?n \<Longrightarrow> x \<noteq> a \<Longrightarrow> ?f ! x \<subseteq> flow ! x" by (auto simp: at)
  assume xy: "x < ?n" "y < ?n"
  show "flow_on ?f x y = flow_on flow x y + of_bool (x = a \<and> y = b) - of_bool (x = b \<and> y = a)"
    using e(2) ab(3) by (auto simp: flow_on_def at [OF xy(1)] at [OF xy(2)])
qed

lemma net_out_augment_one:
  assumes "flow_ok view flow" "a < bv_NumberOfNodes view" "b < bv_NumberOfNodes view" "a \<noteq> b"
    "b \<in> set (bv_Edges view a)" "b \<notin> flow ! a" "x < bv_NumberOfNodes view"
  shows "net_out view (augment_one a b flow) x = net_out view flow x + of_bool (x = a) - of_bool (x = b)"
proof -
  let ?n = "bv_NumberOfNodes view"
  have one: "(\<Sum>y < ?n. of_bool (P \<and> y = c)) = (of_bool P :: int)" if "c < ?n" for P c
  proof (cases P)
    case True
    then show ?thesis using that by (simp add: of_bool_def sum.delta)
  qed simp
  have "net_out view (augment_one a b flow) x =
      (\<Sum>y < ?n. flow_on flow x y + of_bool (x = a \<and> y = b) - of_bool (x = b \<and> y = a))"
    unfolding net_out_def by (rule sum.cong) (use augment_one_spec(2) [OF assms] in auto)
  then show ?thesis
    using one [OF assms(3), of "x = a"] one [OF assms(2), of "x = b"]
    by (simp add: net_out_def sum.distrib sum_subtractf)
qed

text \<open>A path with capacity on every edge, and what augmenting along it does.\<close>

fun capacity_path :: "BisectionGraphView \<Rightarrow> FlowEdges \<Rightarrow> NodeID list \<Rightarrow> bool" where
  "capacity_path view flow (x # y # p) \<longleftrightarrow>
     y \<in> set (bv_Edges view x) \<and> y \<notin> flow ! x \<and> capacity_path view flow (y # p)"
| "capacity_path view flow p \<longleftrightarrow> True"

lemma capacity_path_mono:
  "capacity_path view flow p \<Longrightarrow> (\<And>x. x \<in> set p \<Longrightarrow> flow' ! x \<subseteq> flow ! x) \<Longrightarrow> capacity_path view flow' p"
  by (induction view flow p rule: capacity_path.induct) auto

lemma augment_flow_spec:
  assumes "flow_ok view flow" "capacity_path view flow p" "distinct p" "p \<noteq> []"
    "\<forall>x \<in> set p. x < bv_NumberOfNodes view"
  shows "flow_ok view (augment_flow p flow) \<and> (\<forall>x < bv_NumberOfNodes view.
    net_out view (augment_flow p flow) x = net_out view flow x + of_bool (x = hd p) - of_bool (x = last p))"
  using assms
proof (induction p flow rule: augment_flow.induct)
  case (1 a b p flow)
  have ab: "a < bv_NumberOfNodes view" "b < bv_NumberOfNodes view" "a \<noteq> b" "b \<in> set (bv_Edges view a)" "b \<notin> flow ! a"
    using "1.prems" by auto
  note o = augment_one_spec [OF "1.prems"(1) ab]
  have "capacity_path view (augment_one a b flow) (b # p)"
    by (rule capacity_path_mono [of view flow]) (use "1.prems" o(3) in auto)
  then have ih: "flow_ok view (augment_flow (b # p) (augment_one a b flow))"
    "\<And>x. x < bv_NumberOfNodes view \<Longrightarrow> net_out view (augment_flow (b # p) (augment_one a b flow)) x =
       net_out view (augment_one a b flow) x + of_bool (x = b) - of_bool (x = last (b # p))"
    using "1.IH" o(1) "1.prems" by simp_all
  show ?case using ih net_out_augment_one [OF "1.prems"(1) ab] by simp
qed simp_all

lemma level_path_capacity:
  "undirected view \<Longrightarrow> level_path view flow L p \<Longrightarrow> \<forall>x \<in> set p. x < bv_NumberOfNodes view \<Longrightarrow>
   capacity_path view flow p"
proof (induction view flow L p rule: level_path.induct)
  case (1 view flow L x y p)
  then have "y \<in> set (bv_Edges view x)" using undirectedD(2) [of view y x] by simp
  with 1 show ?case by simp
qed simp_all

lemma is_flow_augment:
  assumes und: "undirected view" and fl: "is_flow view S T flow flow_value" and r: "dfs_result view flow S t L p"
    and p: "p \<noteq> []" and st: "t \<in> set T" "set S \<inter> set T = {}" "\<forall>s \<in> set S. s < bv_NumberOfNodes view"
  shows "is_flow view S T (augment_flow p flow) (flow_value + 1)"
proof -
  let ?n = "bv_NumberOfNodes view"
  have lp: "level_path view flow L p" and hd: "hd p \<in> set S" "hd p < ?n" and last: "last p = t"
    and tl: "\<forall>x \<in> set (tl p). inner_node view S L x"
    using r p by (simp_all add: dfs_result_def)
  have less: "\<forall>x \<in> set p. x < ?n" using hd tl p by (cases p) (auto simp: inner_node_def)
  have ok: "flow_ok view flow" using fl by (simp add: is_flow_def)
  note a = augment_flow_spec [OF ok level_path_capacity [OF und lp less] level_path_distinct [OF lp] p less]
  have net: "net_out view (augment_flow p flow) x = net_out view flow x + of_bool (x = hd p) - of_bool (x = t)"
    if "x < ?n" for x using a that last by simp
  have "net_out view (augment_flow p flow) u = 0" if u: "u < ?n" "u \<notin> set S" "u \<notin> set T" for u
  proof -
    have "u \<noteq> hd p" "u \<noteq> t" using u hd st(1) by auto
    then show ?thesis using net [OF u(1)] fl u by (simp add: is_flow_def)
  qed
  moreover have "(\<Sum>u \<in> set S. net_out view (augment_flow p flow) u) = int (flow_value + 1)"
  proof -
    have "(\<Sum>u \<in> set S. net_out view (augment_flow p flow) u) =
        (\<Sum>u \<in> set S. net_out view flow u + (if u = hd p then 1 else 0))"
      by (rule sum.cong) (use net st in auto)
    also have "\<dots> = int flow_value + 1" using fl hd(1) by (simp add: sum.distrib is_flow_def)
    finally show ?thesis by simp
  qed
  ultimately show ?thesis using a by (simp add: is_flow_def)
qed

lemma flow_bound:
  assumes "is_flow view S T flow flow_value" "\<forall>s \<in> set S. s < bv_NumberOfNodes view"
  shows "flow_value \<le> bv_NumberOfNodes view * bv_NumberOfNodes view"
proof -
  let ?n = "bv_NumberOfNodes view"
  have "flow_on flow u v \<le> 1" for u v by (simp add: flow_on_def)
  then have "net_out view flow u \<le> int ?n" for u
    unfolding net_out_def using sum_bounded_above [of "{..<?n}" "flow_on flow u" 1] by simp
  then have "(\<Sum>u \<in> set S. net_out view flow u) \<le> int (card (set S)) * int ?n"
    using sum_bounded_above [of "set S" "net_out view flow" "int ?n"] by simp
  moreover have "card (set S) \<le> ?n"
    using card_mono [of "{..<?n}" "set S"] assms(2) by auto
  then have "int (card (set S)) * int ?n \<le> int ?n * int ?n" by (simp add: mult_right_mono)
  ultimately have "int flow_value \<le> int (?n * ?n)" using assms(1) by (simp add: is_flow_def)
  then show ?thesis by linarith
qed


text \<open>What is assumed of the sources and sinks: the check of \<^verbatim>\<open>Validate\<close>.\<close>

lemma Validate_iff:
  "Validate view S T \<longleftrightarrow> set S \<inter> set T = {} \<and> (\<forall>s \<in> set S. s < bv_NumberOfNodes view) \<and>
     (\<forall>t \<in> set T. t < bv_NumberOfNodes view)"
  by (auto simp: Validate_def list_ex_iff not_le)

lemma augment_paths_returns:
  assumes und: "undirected view" and val: "Validate view S T" and t: "t \<in> set T"
  shows "levels_ok view S L \<Longrightarrow> L ! t \<noteq> INVALID_LEVEL \<Longrightarrow> is_flow view S T flow flow_value \<Longrightarrow>
    \<exists>L' flow' d. augment_paths view S t L flow inc = Some (L', flow', inc + d) \<and> levels_ok view S L' \<and>
      is_flow view S T flow' (flow_value + d) \<and> (levels_connected view flow S L \<longrightarrow> 0 < d)"
proof (induction "bv_NumberOfNodes view * bv_NumberOfNodes view - flow_value" arbitrary: L flow flow_value inc rule: less_induct)
  case less
  let ?n = "bv_NumberOfNodes view"
  have S: "\<forall>s \<in> set S. s < ?n" "set S \<inter> set T = {}" and tn: "t < ?n" "t \<notin> set S"
    using val t by (auto simp: Validate_iff)
  obtain L1 p where p: "GetAugmentingPath view flow S L t = Some (L1, p)" "dfs_result view flow S t L1 p"
    "levels_connected view flow S L \<longrightarrow> p \<noteq> []"
    using GetAugmentingPath_spec [OF und less.prems(1) tn less.prems(2)] by blast
  show ?case
  proof (cases "p = []")
    case True
    then have "augment_paths view S t L flow inc = Some (L1, flow, inc + 0)"
      using p(1) by (subst augment_paths.simps) simp
    moreover have "levels_ok view S L1" using p(2) by (simp add: dfs_result_def)
    moreover have "is_flow view S T flow (flow_value + 0)" using less.prems(3) by simp
    ultimately show ?thesis using p(3) True by blast
  next
    case False
    have fl: "is_flow view S T (augment_flow p flow) (flow_value + 1)"
      by (rule is_flow_augment [OF und less.prems(3) p(2) False t S(2,1)])
    have "flow_value + 1 \<le> ?n * ?n" using flow_bound [OF fl S(1)] .
    then have dec: "?n * ?n - (flow_value + 1) < ?n * ?n - flow_value" by simp
    have lv: "levels_ok view S L1" using p(2) by (simp add: dfs_result_def)
    have tl: "tl p \<noteq> []" "last p = t" "\<forall>x \<in> set (tl p). inner_node view S L1 x"
      using p(2) False by (simp_all add: dfs_result_def)
    have "t \<in> set (tl p)" using tl(1,2) False by (metis last_in_set last_tl)
    then have lt: "L1 ! t \<noteq> INVALID_LEVEL" using tl(3) by (auto simp: inner_node_def)
    from less.hyps [OF dec lv lt fl, of "inc + 1"] obtain L' flow' d where
      r: "augment_paths view S t L1 (augment_flow p flow) (inc + 1) = Some (L', flow', (inc + 1) + d)"
      "levels_ok view S L'" "is_flow view S T flow' ((flow_value + 1) + d)" by blast
    have "augment_paths view S t L flow inc = Some (L', flow', inc + (d + 1))"
      using p(1) False r(1) by (subst augment_paths.simps) simp
    moreover have "is_flow view S T flow' (flow_value + (d + 1))" using r(3) by (simp add: add.commute)
    ultimately show ?thesis using r(2) by (intro exI [of _ L'] exI [of _ flow'] exI [of _ "d + 1"]) simp
  qed
qed

lemma BlockingFlow_returns:
  assumes und: "undirected view" and val: "Validate view S T"
  shows "set ts \<subseteq> set T \<Longrightarrow> levels_ok view S L \<Longrightarrow> is_flow view S T flow flow_value \<Longrightarrow>
    \<exists>L' flow' d. BlockingFlow view S ts L flow inc = Some (L', flow', inc + d) \<and>
      is_flow view S T flow' (flow_value + d) \<and>
      (levels_connected view flow S L \<and> (\<exists>t \<in> set ts. L ! t \<noteq> INVALID_LEVEL) \<longrightarrow> 0 < d)"
proof (induction ts arbitrary: L flow flow_value inc)
  case Nil
  then show ?case by (auto intro!: exI [of _ "0 :: nat"])
next
  case (Cons t ts)
  show ?case
  proof (cases "L ! t = INVALID_LEVEL")
    case True
    then show ?thesis using Cons.IH [OF _ Cons.prems(2,3), of inc] Cons.prems(1) by auto
  next
    case False
    have t: "t \<in> set T" "set ts \<subseteq> set T" using Cons.prems(1) by simp_all
    from augment_paths_returns [OF und val t(1) Cons.prems(2) False Cons.prems(3), of inc] obtain L1 flow1 d1 where
      a: "augment_paths view S t L flow inc = Some (L1, flow1, inc + d1)" "levels_ok view S L1"
      "is_flow view S T flow1 (flow_value + d1)" "levels_connected view flow S L \<longrightarrow> 0 < d1" by blast
    from Cons.IH [OF t(2) a(2,3), of "inc + d1"] obtain L' flow' d where
      b: "BlockingFlow view S ts L1 flow1 (inc + d1) = Some (L', flow', (inc + d1) + d)"
      "is_flow view S T flow' ((flow_value + d1) + d)" by blast
    have "BlockingFlow view S (t # ts) L flow inc = Some (L', flow', inc + (d1 + d))"
      using False a(1) b(1) by simp
    moreover have "is_flow view S T flow' (flow_value + (d1 + d))" using b(2) by (simp add: add.assoc)
    ultimately show ?thesis using a(4) by (metis add_gr_0)
  qed
qed

section \<open>The minimal cut\<close>

text \<open>The edges that leave a set of nodes.\<close>

definition crossing :: "BisectionGraphView \<Rightarrow> NodeID set \<Rightarrow> (NodeID \<times> NodeID) set" where
  "crossing view R = {(u, v). u \<in> R \<and> u < bv_NumberOfNodes view \<and> v \<notin> R \<and> v \<in> set (bv_Edges view u)}"

text \<open>The value of the flow is what it carries over any set that holds the sources and no sink.\<close>

lemma flow_across:
  assumes fl: "is_flow view S T flow flow_value" and R: "set S \<subseteq> R" "R \<inter> set T = {}" "R \<subseteq> {..<bv_NumberOfNodes view}"
  shows "int flow_value = (\<Sum>u \<in> R. \<Sum>v \<in> {..<bv_NumberOfNodes view} - R. flow_on flow u v)"
proof -
  let ?n = "bv_NumberOfNodes view"
  have fin: "finite R" using R(3) finite_subset by blast
  have anti: "flow_on flow v u = - flow_on flow u v" for u v by (simp add: flow_on_def)
  have "(\<Sum>u \<in> R. net_out view flow u) = (\<Sum>u \<in> set S. net_out view flow u)"
    by (rule sum.mono_neutral_right [OF fin R(1)]) (use fl R(2,3) in \<open>auto simp: is_flow_def\<close>)
  then have "int flow_value = (\<Sum>u \<in> R. net_out view flow u)" using fl by (simp add: is_flow_def)
  also have "\<dots> = (\<Sum>u \<in> R. (\<Sum>v \<in> R. flow_on flow u v) + (\<Sum>v \<in> {..<?n} - R. flow_on flow u v))"
    unfolding net_out_def using R(3)
    by (intro sum.cong refl) (metis add.commute finite_lessThan sum.subset_diff)
  also have "\<dots> = (\<Sum>u \<in> R. \<Sum>v \<in> R. flow_on flow u v) + (\<Sum>u \<in> R. \<Sum>v \<in> {..<?n} - R. flow_on flow u v)"
    by (simp add: sum.distrib)
  also have "(\<Sum>u \<in> R. \<Sum>v \<in> R. flow_on flow u v) = 0"
  proof -
    have "(\<Sum>u \<in> R. \<Sum>v \<in> R. flow_on flow u v) = (\<Sum>u \<in> R. \<Sum>v \<in> R. flow_on flow v u)" by (rule sum.swap)
    also have "\<dots> = (\<Sum>u \<in> R. \<Sum>v \<in> R. - flow_on flow u v)" by (intro sum.cong refl) (rule anti)
    also have "\<dots> = - (\<Sum>u \<in> R. \<Sum>v \<in> R. flow_on flow u v)" by (simp only: sum_negf)
    finally show ?thesis by simp
  qed
  finally show ?thesis by simp
qed

lemma card_crossing:
  assumes "undirected view" "R \<subseteq> {..<bv_NumberOfNodes view}"
  shows "int (card (crossing view R)) =
    (\<Sum>u \<in> R. \<Sum>v \<in> {..<bv_NumberOfNodes view} - R. of_bool (v \<in> set (bv_Edges view u)))"
proof -
  let ?n = "bv_NumberOfNodes view"
  have fin: "finite R" using assms(2) finite_subset by blast
  have "crossing view R = (SIGMA u : R. {v \<in> {..<?n} - R. v \<in> set (bv_Edges view u)})"
    using assms(2) undirectedD(1) [OF assms(1)] by (auto simp: crossing_def)
  then have "card (crossing view R) = (\<Sum>u \<in> R. card {v \<in> {..<?n} - R. v \<in> set (bv_Edges view u)})"
    using fin by simp
  moreover have "int (card {v \<in> {..<?n} - R. v \<in> set (bv_Edges view u)}) =
      (\<Sum>v \<in> {..<?n} - R. of_bool (v \<in> set (bv_Edges view u)))" for u
  proof -
    have "{v \<in> {..<?n} - R. v \<in> set (bv_Edges view u)} = ({..<?n} - R) \<inter> {v. v \<in> set (bv_Edges view u)}" by blast
    then show ?thesis by (simp only: sum_of_bool_eq finite_Diff finite_lessThan)
  qed
  ultimately show ?thesis by simp
qed

lemma flow_le_crossing:
  assumes und: "undirected view" and fl: "is_flow view S T flow flow_value"
    and R: "set S \<subseteq> R" "R \<inter> set T = {}" "R \<subseteq> {..<bv_NumberOfNodes view}"
  shows "flow_value \<le> card (crossing view R)"
proof -
  have "flow_on flow u v \<le> of_bool (v \<in> set (bv_Edges view u))" if "u \<in> R" for u v
    using fl R(3) that by (auto simp: is_flow_def flow_ok_def flow_on_def)
  then have "int flow_value \<le> int (card (crossing view R))"
    unfolding flow_across [OF fl R] card_crossing [OF und R(3)] by (intro sum_mono) auto
  then show ?thesis by simp
qed

text \<open>If every crossing edge carries flow, the value is the number of crossing edges.\<close>

lemma flow_eq_crossing:
  assumes und: "undirected view" and fl: "is_flow view S T flow flow_value"
    and R: "set S \<subseteq> R" "R \<inter> set T = {}" "R \<subseteq> {..<bv_NumberOfNodes view}"
    and full: "\<And>u v. (u, v) \<in> crossing view R \<Longrightarrow> v \<in> flow ! u"
  shows "flow_value = card (crossing view R)"
proof -
  let ?n = "bv_NumberOfNodes view"
  have ok: "flow_ok view flow" using fl by (simp add: is_flow_def)
  have "flow_on flow u v = of_bool (v \<in> set (bv_Edges view u))" if uv: "u \<in> R" "v \<in> {..<?n} - R" for u v
  proof -
    have un: "u < ?n" "v < ?n" using uv R(3) by auto
    show ?thesis
    proof (cases "v \<in> set (bv_Edges view u)")
      case True
      then have "v \<in> flow ! u" using full [of u v] uv un by (simp add: crossing_def)
      moreover have "u \<notin> flow ! v" using ok un calculation by (auto simp: flow_ok_def)
      ultimately show ?thesis using True by (simp add: flow_on_def)
    next
      case False
      moreover have "u \<notin> set (bv_Edges view v)" using undirectedD(2) [OF und un(2)] False by blast
      ultimately have "v \<notin> flow ! u" "u \<notin> flow ! v" using ok un by (auto simp: flow_ok_def)
      then show ?thesis using False by (simp add: flow_on_def)
    qed
  qed
  then have "int flow_value = int (card (crossing view R))"
    unfolding flow_across [OF fl R] card_crossing [OF und R(3)] by (intro sum.cong refl) auto
  then show ?thesis by simp
qed


lemma bfs_levels_ok:
  assumes "undirected view" "bv_NumberOfNodes view < INVALID_LEVEL" "bfs_inv view S T flow L []"
  shows "levels_ok view S L" "levels_connected view flow S L"
proof -
  have "L ! v \<le> INVALID_LEVEL \<and> (v \<notin> set S \<longrightarrow> L ! v \<noteq> 0)" if v: "v < bv_NumberOfNodes view" for v
  proof (cases "L ! v = INVALID_LEVEL")
    case False
    from bfs_level_less [OF assms(3) v False] assms(2) have "L ! v \<le> INVALID_LEVEL" by simp
    moreover have "v \<notin> set S \<longrightarrow> L ! v \<noteq> 0" using bfs_invD(5) [OF assms(3) v False] by auto
    ultimately show ?thesis ..
  qed (simp add: INVALID_LEVEL_def)
  then show "levels_ok view S L" using bfs_invD(1) [OF assms(3)] by (simp add: levels_ok_def)
  show "levels_connected view flow S L"
    unfolding levels_connected_def
  proof (intro allI impI)
    fix v assume v: "inner_node view S L v"
    then obtain u where u: "u < bv_NumberOfNodes view" "v \<in> set (bv_Edges view u)" "v \<notin> flow ! u" "L ! v = L ! u + 1"
      using bfs_invD(5) [OF assms(3), of v] by (auto simp: inner_node_def)
    then show "\<exists>u \<in> set (bv_Edges view v). v \<notin> flow ! u \<and> L ! u + 1 = L ! v"
      using undirectedD(2) [OF assms(1) u(1,2)] by (intro bexI [of _ u]) simp_all
  qed
qed

lemma max_flow_loop_returns:
  assumes und: "undirected view" and val: "Validate view S T" and small: "bv_NumberOfNodes view < INVALID_LEVEL"
  shows "is_flow view S T flow flow_value \<Longrightarrow>
    \<exists>L flow' flow_value'. max_flow_loop view S T (filter (has_neighbor_not_in S view) S)
        (filter (has_neighbor_not_in T view) T) flow flow_value = Some (MakeCut view (mark_sources S L) flow_value') \<and>
      is_flow view S T flow' flow_value' \<and> bfs_inv view S T flow' L [] \<and>
      (\<forall>t \<in> set T. has_neighbor_not_in T view t \<longrightarrow> L ! t = INVALID_LEVEL)"
proof (induction "bv_NumberOfNodes view * bv_NumberOfNodes view - flow_value" arbitrary: flow flow_value rule: less_induct)
  case less
  let ?n = "bv_NumberOfNodes view"
  let ?bs = "filter (has_neighbor_not_in S view) S" and ?bt = "filter (has_neighbor_not_in T view) T"
  have S: "\<forall>s \<in> set S. s < ?n" using val by (simp add: Validate_iff)
  obtain L where L: "ComputeLevelGraph view ?bs S T flow = Some L" "bfs_inv view S T flow L []"
    using ComputeLevelGraph_spec [OF und small S] by blast
  show ?case
  proof (cases "list_ex (\<lambda>node. L ! node \<noteq> INVALID_LEVEL) ?bt")
    case False
    then have "max_flow_loop view S T ?bs ?bt flow flow_value = Some (MakeCut view (mark_sources S L) flow_value)"
      using L(1) by (subst max_flow_loop.simps) simp
    moreover have "\<forall>t \<in> set T. has_neighbor_not_in T view t \<longrightarrow> L ! t = INVALID_LEVEL"
      using False by (auto simp: list_ex_iff)
    ultimately show ?thesis using less.prems L(2) by blast
  next
    case True
    have "set ?bt \<subseteq> set T" by auto
    from BlockingFlow_returns [OF und val this bfs_levels_ok(1) [OF und small L(2)] less.prems, of 0] obtain L1 flow1 d where
      b: "BlockingFlow view S ?bt L flow 0 = Some (L1, flow1, 0 + d)" "is_flow view S T flow1 (flow_value + d)"
      "levels_connected view flow S L \<and> (\<exists>t \<in> set ?bt. L ! t \<noteq> INVALID_LEVEL) \<longrightarrow> 0 < d" by blast
    have "0 < d" using b(3) bfs_levels_ok(2) [OF und small L(2)] True by (auto simp: list_ex_iff)
    then have "?n * ?n - (flow_value + d) < ?n * ?n - flow_value" using flow_bound [OF b(2) S] by simp
    from less.hyps [OF this b(2)] show ?thesis
      using L(1) b(1) True by (subst max_flow_loop.simps) simp
  qed
qed

text \<open>The source side of the cut.\<close>

lemma mark_sources_spec:
  "length (mark_sources S L) = length L \<and>
   (v < length L \<longrightarrow> mark_sources S L ! v = (if v \<in> set S then 0 else L ! v))"
  unfolding mark_sources_def
  by (induction S arbitrary: L) (auto simp: nth_list_update_in)

lemma source_side:
  assumes und: "undirected view" and val: "Validate view S T" and inv: "bfs_inv view S T flow L []"
    and sep: "\<forall>t \<in> set T. has_neighbor_not_in T view t \<longrightarrow> L ! t = INVALID_LEVEL"
  defines "R \<equiv> {v. v < bv_NumberOfNodes view \<and> (v \<in> set S \<or> L ! v \<noteq> INVALID_LEVEL)}"
  shows "set S \<subseteq> R" "R \<inter> set T = {}" "R \<subseteq> {..<bv_NumberOfNodes view}"
    "(u, v) \<in> crossing view R \<Longrightarrow> v \<in> flow ! u"
proof -
  let ?n = "bv_NumberOfNodes view"
  show "set S \<subseteq> R" "R \<subseteq> {..<?n}" using val by (auto simp: R_def Validate_iff)
  have unreached: "L ! t = INVALID_LEVEL" if t: "t \<in> set T" for t
  proof (rule ccontr)
    assume valid: "L ! t \<noteq> INVALID_LEVEL"
    then have "\<not> has_neighbor_not_in T view t" using sep t by blast
    then have inner: "\<forall>x \<in> set (bv_Edges view t). x \<in> set T" by (auto simp: has_neighbor_not_in_def list_ex_iff)
    have tn: "t < ?n" "t \<notin> set S" using val t by (auto simp: Validate_iff)
    from bfs_invD(5) [OF inv tn(1) valid] tn(2) obtain u where
      u: "u < ?n" "u \<notin> set T" "t \<in> set (bv_Edges view u)" by blast
    with undirectedD(2) [OF und u(1,3)] inner show False by blast
  qed
  then show RT: "R \<inter> set T = {}" using val by (auto simp: R_def Validate_iff)
  assume c: "(u, v) \<in> crossing view R"
  then have uv: "u \<in> R" "u < ?n" "v \<notin> R" "v \<in> set (bv_Edges view u)" by (auto simp: crossing_def)
  have vn: "v < ?n" using undirectedD(1) [OF und uv(2,4)] .
  then have v: "v \<notin> set S" "L ! v = INVALID_LEVEL" using uv(3) by (auto simp: R_def)
  have uT: "u \<notin> set T" using RT uv(1) by blast
  have border: "has_neighbor_not_in S view u" using uv(4) v(1) by (auto simp: has_neighbor_not_in_def list_ex_iff)
  then have "L ! u \<noteq> INVALID_LEVEL" using uv(1) bfs_invD(7) [OF inv uv(2)] by (auto simp: R_def)
  from bfs_invD(6) [OF inv uv(2) this _ uT] border uv(4) v(2) show "v \<in> flow ! u" by auto
qed

lemma DinicMaxFlow_spec:
  assumes und: "undirected view" and val: "Validate view S T" and small: "bv_NumberOfNodes view < INVALID_LEVEL"
  shows "\<exists>cut R. DinicMaxFlow view S T = Some cut \<and> R = {v. v < bv_NumberOfNodes view \<and> flags cut ! v} \<and>
    length (flags cut) = bv_NumberOfNodes view \<and> num_nodes_source cut = card R \<and> set S \<subseteq> R \<and> R \<inter> set T = {} \<and>
    num_edges cut = card (crossing view R) \<and>
    (\<forall>R'. set S \<subseteq> R' \<longrightarrow> R' \<inter> set T = {} \<longrightarrow> R' \<subseteq> {..<bv_NumberOfNodes view} \<longrightarrow>
       num_edges cut \<le> card (crossing view R'))"
proof -
  let ?n = "bv_NumberOfNodes view"
  have "flow_ok view (replicate ?n {})" by (simp add: flow_ok_def)
  moreover have "net_out view (replicate ?n {}) u = 0" if "u < ?n" for u
    using that by (simp add: net_out_def flow_on_def)
  ultimately have "is_flow view S T (replicate ?n {}) 0" using val by (simp add: is_flow_def Validate_iff)
  from max_flow_loop_returns [OF und val small this] obtain L flow flow_value where
    r: "DinicMaxFlow view S T = Some (MakeCut view (mark_sources S L) flow_value)" "is_flow view S T flow flow_value"
    "bfs_inv view S T flow L []" "\<forall>t \<in> set T. has_neighbor_not_in T view t \<longrightarrow> L ! t = INVALID_LEVEL"
    by (auto simp: DinicMaxFlow_def)
  let ?cut = "MakeCut view (mark_sources S L) flow_value"
  let ?R = "{v. v < ?n \<and> (v \<in> set S \<or> L ! v \<noteq> INVALID_LEVEL)}"
  note R = source_side [OF und val r(3,4)]
  have len: "length L = ?n" using bfs_invD(1) [OF r(3)] .
  have fl: "flags ?cut ! v \<longleftrightarrow> v \<in> set S \<or> L ! v \<noteq> INVALID_LEVEL" if "v < ?n" for v
    using mark_sources_spec [of S L v] that len by (simp add: MakeCut_def INVALID_LEVEL_def)
  then have eq: "?R = {v. v < ?n \<and> flags ?cut ! v}" by blast
  have flen: "length (flags ?cut) = ?n" using mark_sources_spec [of S L] len by (simp add: MakeCut_def)
  have "num_nodes_source ?cut = length (filter id (flags ?cut))"
    by (simp add: MakeCut_def filter_map comp_def)
  also have "\<dots> = card {v. v < length (flags ?cut) \<and> flags ?cut ! v}" by (simp add: length_filter_conv_card)
  finally have num: "num_nodes_source ?cut = card ?R" unfolding eq flen .
  have "num_edges ?cut = card (crossing view ?R)"
    using flow_eq_crossing [OF und r(2) R(1-3)] R(4) by (simp add: MakeCut_def)
  moreover have "num_edges ?cut \<le> card (crossing view R')"
    if "set S \<subseteq> R'" "R' \<inter> set T = {}" "R' \<subseteq> {..<?n}" for R'
    using flow_le_crossing [OF und r(2) that] by (simp add: MakeCut_def)
  ultimately show ?thesis
    using r(1) eq flen num R(1,2) by (intro exI [of _ ?cut] exI [of _ ?R]) blast
qed

text \<open>
  Property C1. Maximal flow and minimal cut.  On an undirected view whose sources and sinks pass
  \<^verbatim>\<open>Validate\<close>, the algorithm returns; its flags put all sources on one side and all sinks on
  the other, \<^verbatim>\<open>num_nodes_source\<close> counts the source side, \<^verbatim>\<open>num_edges\<close> is the number of
  edges that leave it, and no set that holds the sources and no sink is left by fewer edges.
\<close>

theorem DinicMaxFlow_min_cut:
  assumes "undirected view" "Validate view source_nodes sink_nodes" "bv_NumberOfNodes view < INVALID_LEVEL"
  shows "\<exists>cut R. DinicMaxFlow view source_nodes sink_nodes = Some cut \<and>
    R = {v. v < bv_NumberOfNodes view \<and> flags cut ! v} \<and>
    length (flags cut) = bv_NumberOfNodes view \<and> num_nodes_source cut = card R \<and>
    set source_nodes \<subseteq> R \<and> R \<inter> set sink_nodes = {} \<and>
    num_edges cut = card (crossing view R) \<and>
    (\<forall>R'. set source_nodes \<subseteq> R' \<longrightarrow> R' \<inter> set sink_nodes = {} \<longrightarrow> R' \<subseteq> {..<bv_NumberOfNodes view} \<longrightarrow>
       num_edges cut \<le> card (crossing view R'))"
  by (rule DinicMaxFlow_spec [OF assms])

definition example_view :: BisectionGraphView where
  "example_view = full_view \<lparr>bg_nodes =
     [\<lparr>bn_edges_begin = 0, bn_edges_end = 1, bn_coordinate = (0, 0), bn_original_id = 0\<rparr>,
      \<lparr>bn_edges_begin = 1, bn_edges_end = 3, bn_coordinate = (1, 0), bn_original_id = 1\<rparr>,
      \<lparr>bn_edges_begin = 3, bn_edges_end = 4, bn_coordinate = (2, 0), bn_original_id = 2\<rparr>],
     bg_edges = [1, 0, 2, 1]\<rparr>"

lemma example_view_edges:
  "bv_NumberOfNodes example_view = 3" "bv_Edges example_view 0 = [1]" "bv_Edges example_view 1 = [0, 2]"
  "bv_Edges example_view 2 = [1]"
  by (simp_all add: example_view_def full_view_def bv_NumberOfNodes_def bv_Edges_def bv_Node_def
      node_edges_def slice_def upt_rec)

lemma example_view_undirected: "undirected example_view"
proof -
  have "v < 3 \<and> u \<in> set (bv_Edges example_view v)" if uv: "u < 3" "v \<in> set (bv_Edges example_view u)" for u v
  proof -
    consider "u = 0" | "u = 1" | "u = 2" using uv(1) by linarith
    then show ?thesis by cases (use uv(2) example_view_edges in auto)
  qed
  then show ?thesis unfolding undirected_def example_view_edges(1) by blast
qed

lemma DinicMaxFlow_min_cut_witness:
  "\<exists>cut. DinicMaxFlow example_view [0] [2] = Some cut \<and> flags cut ! 0 \<and> \<not> flags cut ! 2 \<and> num_edges cut \<le> 1"
proof -
  have "Validate example_view [0] [2]" by (simp add: Validate_def example_view_edges)
  from DinicMaxFlow_min_cut [OF example_view_undirected this] obtain cut where
    c: "DinicMaxFlow example_view [0] [2] = Some cut" "0 \<in> {v. v < bv_NumberOfNodes example_view \<and> flags cut ! v}"
    "{v. v < bv_NumberOfNodes example_view \<and> flags cut ! v} \<inter> {2} = {}"
    "\<forall>R'. {0} \<subseteq> R' \<longrightarrow> R' \<inter> {2} = {} \<longrightarrow> R' \<subseteq> {..<3} \<longrightarrow> num_edges cut \<le> card (crossing example_view R')"
    by (auto simp: example_view_edges INVALID_LEVEL_def)
  have "crossing example_view {0} = {(0, 1)}" by (auto simp: crossing_def example_view_edges)
  then have "num_edges cut \<le> 1" using c(4) [rule_format, of "{0}"] by simp
  then show ?thesis using c by (auto simp: example_view_edges)
qed

end
