(* ===== verification/CellStorage.thy ===== *)
theory CellStorage
  imports MultiLevelPartition "HOL-Library.Product_Lexorder"
begin

text \<open>
  The cells of all levels and their boundary nodes, \<^verbatim>\<open>include/partitioner/cell_storage.hpp\<close>, with
  the metric that holds the values of their clique arcs, \<^verbatim>\<open>include/customizer/cell_metric.hpp\<close>,
  and \<^verbatim>\<open>include/util/for_each_range.hpp\<close>.

  The template's graph is the list of the edges of every node.  A pointer into one of the
  arrays is an index of it.  The view variant and serialisation are not modelled.
\<close>

section \<open>Data\<close>

record BaseEdge =
  be_target :: NodeID
  be_forward :: bool
  be_backward :: bool

type_synonym 'e base_graph = "'e BaseEdge_scheme list list"

definition INVALID_OFFSET :: nat where "INVALID_OFFSET = 2 ^ 64 - 1"

definition INVALID_EDGE_DISTANCE :: EdgeDistance where
  "INVALID_EDGE_DISTANCE = 2 ^ 128 - 2 ^ 104"

record CellData =
  value_offset :: nat
  source_boundary_offset :: nat
  destination_boundary_offset :: nat
  num_source_nodes :: nat
  num_destination_nodes :: nat

definition CellData_init :: CellData where
  "CellData_init = \<lparr>value_offset = INVALID_OFFSET, source_boundary_offset = INVALID_OFFSET,
     destination_boundary_offset = INVALID_OFFSET, num_source_nodes = 0, num_destination_nodes = 0\<rparr>"

record CellStorage =
  source_boundary :: "NodeID list"
  destination_boundary :: "NodeID list"
  cs_cells :: "CellData list"
  level_to_cell_offset :: "nat list"

record CellMetric =
  weights :: "EdgeWeight list"
  durations :: "EdgeDuration list"
  distances :: "EdgeDistance list"

section \<open>Construction\<close>

fun count_cells :: "MultiLevelPartition \<Rightarrow> LevelID list \<Rightarrow> nat \<Rightarrow> nat list \<Rightarrow> nat \<times> nat list" where
  "count_cells p [] number_of_cells offsets = (number_of_cells, offsets @ [number_of_cells])"
| "count_cells p (level # levels) number_of_cells offsets =
     count_cells p levels (number_of_cells + GetNumberOfCells p level) (offsets @ [number_of_cells])"

text \<open>The flags \<^verbatim>\<open>is_boundary_node\<close>, \<^verbatim>\<open>is_source_node\<close>, \<^verbatim>\<open>is_destination_node\<close> of a node.\<close>

definition edge_flags :: "MultiLevelPartition \<Rightarrow> LevelID \<Rightarrow> CellID \<Rightarrow> 'e BaseEdge_scheme \<Rightarrow>
    bool \<times> bool \<times> bool \<Rightarrow> bool \<times> bool \<times> bool" where
  "edge_flags p level cell_id edge = (\<lambda>(is_boundary, is_source, is_destination).
     (is_boundary \<or> GetCell p level (be_target edge) \<noteq> cell_id,
      is_source \<or> GetCell p level (be_target edge) = cell_id \<and> be_forward edge,
      is_destination \<or> GetCell p level (be_target edge) = cell_id \<and> be_backward edge))"

definition scan_node :: "MultiLevelPartition \<Rightarrow> 'e base_graph \<Rightarrow> LevelID \<Rightarrow> NodeID \<Rightarrow>
    (CellID \<times> NodeID) list \<times> (CellID \<times> NodeID) list \<times> nat \<Rightarrow>
    (CellID \<times> NodeID) list \<times> (CellID \<times> NodeID) list \<times> nat" where
  "scan_node p graph level node = (\<lambda>(srcs, dests, number_of_unconnected).
     let cell_id = GetCell p level node;
         (is_boundary, is_source, is_destination) =
           fold (edge_flags p level cell_id) (graph ! node) (False, False, False)
     in if is_boundary
        then (if is_source then srcs @ [(cell_id, node)] else srcs,
              if is_destination \<or> \<not> is_source then dests @ [(cell_id, node)] else dests,
              if \<not> is_source \<and> \<not> is_destination then number_of_unconnected + 1 else number_of_unconnected)
        else (srcs, dests, number_of_unconnected))"

text \<open>\<^verbatim>\<open>util::for_each_range\<close>: the runs of equal first components, in order.\<close>

function for_each_range :: "(('k \<times> 'v) list \<Rightarrow> 's \<Rightarrow> 's) \<Rightarrow> ('k \<times> 'v) list \<Rightarrow> 's \<Rightarrow> 's" where
  "for_each_range f [] s = s"
| "for_each_range f (x # xs) s =
     for_each_range f (dropWhile (\<lambda>y. fst y = fst x) xs) (f (x # takeWhile (\<lambda>y. fst y = fst x) xs) s)"
  by pat_completeness auto
termination
  by (relation "measure (\<lambda>(f, xs, s). length xs)") (auto simp: le_imp_less_Suc length_dropWhile_le)

definition insert_cell_boundary ::
  "(nat \<Rightarrow> CellData \<Rightarrow> CellData) \<Rightarrow> (nat \<Rightarrow> CellData \<Rightarrow> CellData) \<Rightarrow> nat \<Rightarrow> (CellID \<times> NodeID) list \<Rightarrow>
   NodeID list \<times> CellData list \<Rightarrow> NodeID list \<times> CellData list" where
  "insert_cell_boundary set_num_nodes_fn set_boundary_offset_fn level_offset run = (\<lambda>(boundary, cells).
     let cell_id = fst (hd run);
         cell = cells ! (level_offset + cell_id);
         cell' = set_boundary_offset_fn (length boundary) (set_num_nodes_fn (length run) cell)
     in (boundary @ map snd run, cells[level_offset + cell_id := cell']))"

definition build_level :: "MultiLevelPartition \<Rightarrow> 'e base_graph \<Rightarrow> LevelID \<Rightarrow> CellStorage \<times> nat \<Rightarrow> CellStorage \<times> nat" where
  "build_level p graph level = (\<lambda>(cs, number_of_unconnected).
     let level_offset = level_to_cell_offset cs ! LevelIDToIndex level;
         (srcs, dests, number_of_unconnected') =
           fold (scan_node p graph level) [0..<length graph] ([], [], number_of_unconnected);
         (sources, cells1) = for_each_range
           (insert_cell_boundary (\<lambda>v c. c\<lparr>num_source_nodes := v\<rparr>) (\<lambda>v c. c\<lparr>source_boundary_offset := v\<rparr>) level_offset)
           (sort srcs) (source_boundary cs, cs_cells cs);
         (destinations, cells2) = for_each_range
           (insert_cell_boundary (\<lambda>v c. c\<lparr>num_destination_nodes := v\<rparr>) (\<lambda>v c. c\<lparr>destination_boundary_offset := v\<rparr>) level_offset)
           (sort dests) (destination_boundary cs, cells1)
     in (cs\<lparr>source_boundary := sources, destination_boundary := destinations, cs_cells := cells2\<rparr>,
         number_of_unconnected'))"

text \<open>The product of the two 32-bit sizes is a 32-bit product, also where it is added to a
  64-bit offset.\<close>

definition num_values :: "CellData \<Rightarrow> nat" where
  "num_values cell = (num_source_nodes cell * num_destination_nodes cell) mod 2 ^ 32"

fun set_value_offsets :: "nat \<Rightarrow> CellData list \<Rightarrow> CellData list" where
  "set_value_offsets offset [] = []"
| "set_value_offsets offset (cell # cells) =
     cell\<lparr>value_offset := offset\<rparr> # set_value_offsets (offset + num_values cell) cells"

text \<open>The second component counts the boundary nodes without an arc into or out of their cell,
  which the code reports in a warning.\<close>

definition CellStorage_init :: "MultiLevelPartition \<Rightarrow> 'e base_graph \<Rightarrow> CellStorage \<times> nat" where
  "CellStorage_init p graph =
     (let levels = [1..<GetNumberOfLevels p];
          (number_of_cells, offsets) = count_cells p levels 0 [];
          cs0 = \<lparr>source_boundary = [], destination_boundary = [],
            cs_cells = replicate number_of_cells CellData_init, level_to_cell_offset = offsets\<rparr>;
          (cs, number_of_unconnected) = fold (build_level p graph) levels (cs0, 0)
      in (cs\<lparr>cs_cells := set_value_offsets 0 (cs_cells cs)\<rparr>, number_of_unconnected))"

definition MakeMetric :: "CellStorage \<Rightarrow> CellMetric" where
  "MakeMetric cs =
     (if cs_cells cs = [] then \<lparr>weights = [], durations = [], distances = []\<rparr>
      else let last_cell = last (cs_cells cs);
               total_size = value_offset last_cell + num_values last_cell
           in \<lparr>weights = replicate (total_size + 1) INVALID_EDGE_WEIGHT,
               durations = replicate (total_size + 1) MAXIMAL_EDGE_DURATION,
               distances = replicate (total_size + 1) INVALID_EDGE_DISTANCE\<rparr>)"

section \<open>Access to a cell\<close>

text \<open>The three value pointers of a cell are the same offset into the three arrays of a metric.\<close>

record Cell =
  cell_num_source_nodes :: nat
  cell_num_destination_nodes :: nat
  cell_values :: nat
  cell_source_boundary :: nat
  cell_destination_boundary :: nat

definition cs_GetCell :: "CellStorage \<Rightarrow> LevelID \<Rightarrow> CellID \<Rightarrow> Cell" where
  "cs_GetCell cs level cell_id =
     (let data = cs_cells cs ! (level_to_cell_offset cs ! LevelIDToIndex level + cell_id)
      in \<lparr>cell_num_source_nodes = num_source_nodes data,
          cell_num_destination_nodes = num_destination_nodes data,
          cell_values = value_offset data,
          cell_source_boundary = source_boundary_offset data,
          cell_destination_boundary = destination_boundary_offset data\<rparr>)"

definition GetSourceNodes :: "CellStorage \<Rightarrow> Cell \<Rightarrow> NodeID list" where
  "GetSourceNodes cs cell =
     slice (source_boundary cs) (cell_source_boundary cell) (cell_source_boundary cell + cell_num_source_nodes cell)"

definition GetDestinationNodes :: "CellStorage \<Rightarrow> Cell \<Rightarrow> NodeID list" where
  "GetDestinationNodes cs cell =
     slice (destination_boundary cs) (cell_destination_boundary cell)
       (cell_destination_boundary cell + cell_num_destination_nodes cell)"

text \<open>\<^verbatim>\<open>std::find\<close>: the index of the first occurrence, the length of the list if there is none.\<close>

definition find_index :: "'a \<Rightarrow> 'a list \<Rightarrow> nat" where
  "find_index x xs = length (takeWhile (\<lambda>y. y \<noteq> x) xs)"

text \<open>A range of values is the list of its positions in the arrays of the metric.\<close>

definition GetOutRange :: "CellStorage \<Rightarrow> Cell \<Rightarrow> NodeID \<Rightarrow> nat list" where
  "GetOutRange cs cell node =
     (let row = find_index node (GetSourceNodes cs cell)
      in if row = cell_num_source_nodes cell then []
         else let begin = cell_values cell + cell_num_destination_nodes cell * row
              in [begin..<begin + cell_num_destination_nodes cell])"

text \<open>The positions from \<open>begin\<close> to \<open>end\<close> of a column iterator with the given stride.\<close>

definition column_range :: "nat \<Rightarrow> nat \<Rightarrow> nat \<Rightarrow> nat list" where
  "column_range begin end stride = map (\<lambda>k. begin + stride * k) [0..<(end - begin) div stride]"

definition GetInRange :: "CellStorage \<Rightarrow> Cell \<Rightarrow> NodeID \<Rightarrow> nat list" where
  "GetInRange cs cell node =
     (let column = find_index node (GetDestinationNodes cs cell)
      in if column = cell_num_destination_nodes cell then []
         else column_range (cell_values cell + column)
           (cell_values cell + column +
             (cell_num_source_nodes cell * cell_num_destination_nodes cell) mod 2 ^ 32)
           (cell_num_destination_nodes cell))"

definition GetOutWeight :: "CellStorage \<Rightarrow> CellMetric \<Rightarrow> Cell \<Rightarrow> NodeID \<Rightarrow> EdgeWeight list" where
  "GetOutWeight cs metric cell node = map ((!) (weights metric)) (GetOutRange cs cell node)"

definition GetInWeight :: "CellStorage \<Rightarrow> CellMetric \<Rightarrow> Cell \<Rightarrow> NodeID \<Rightarrow> EdgeWeight list" where
  "GetInWeight cs metric cell node = map ((!) (weights metric)) (GetInRange cs cell node)"

definition GetOutDuration :: "CellStorage \<Rightarrow> CellMetric \<Rightarrow> Cell \<Rightarrow> NodeID \<Rightarrow> EdgeDuration list" where
  "GetOutDuration cs metric cell node = map ((!) (durations metric)) (GetOutRange cs cell node)"

definition GetInDuration :: "CellStorage \<Rightarrow> CellMetric \<Rightarrow> Cell \<Rightarrow> NodeID \<Rightarrow> EdgeDuration list" where
  "GetInDuration cs metric cell node = map ((!) (durations metric)) (GetInRange cs cell node)"

definition GetOutDistance :: "CellStorage \<Rightarrow> CellMetric \<Rightarrow> Cell \<Rightarrow> NodeID \<Rightarrow> EdgeDistance list" where
  "GetOutDistance cs metric cell node = map ((!) (distances metric)) (GetOutRange cs cell node)"

definition GetInDistance :: "CellStorage \<Rightarrow> CellMetric \<Rightarrow> Cell \<Rightarrow> NodeID \<Rightarrow> EdgeDistance list" where
  "GetInDistance cs metric cell node = map ((!) (distances metric)) (GetInRange cs cell node)"

section \<open>The boundary lists\<close>

definition cell_flags :: "MultiLevelPartition \<Rightarrow> 'e base_graph \<Rightarrow> LevelID \<Rightarrow> NodeID \<Rightarrow> bool \<times> bool \<times> bool" where
  "cell_flags p graph l v =
     ((\<exists>e \<in> set (graph ! v). GetCell p l (be_target e) \<noteq> GetCell p l v),
      (\<exists>e \<in> set (graph ! v). GetCell p l (be_target e) = GetCell p l v \<and> be_forward e),
      (\<exists>e \<in> set (graph ! v). GetCell p l (be_target e) = GetCell p l v \<and> be_backward e))"

definition is_source :: "MultiLevelPartition \<Rightarrow> 'e base_graph \<Rightarrow> LevelID \<Rightarrow> NodeID \<Rightarrow> bool" where
  "is_source p graph l v \<longleftrightarrow> (case cell_flags p graph l v of (b, s, d) \<Rightarrow> b \<and> s)"

definition is_destination :: "MultiLevelPartition \<Rightarrow> 'e base_graph \<Rightarrow> LevelID \<Rightarrow> NodeID \<Rightarrow> bool" where
  "is_destination p graph l v \<longleftrightarrow> (case cell_flags p graph l v of (b, s, d) \<Rightarrow> b \<and> (d \<or> \<not> s))"

definition is_unconnected :: "MultiLevelPartition \<Rightarrow> 'e base_graph \<Rightarrow> LevelID \<Rightarrow> NodeID \<Rightarrow> bool" where
  "is_unconnected p graph l v \<longleftrightarrow> (case cell_flags p graph l v of (b, s, d) \<Rightarrow> b \<and> \<not> s \<and> \<not> d)"

lemma fold_edge_flags:
  "fold (edge_flags p l c) es (b, s, d) =
     (b \<or> (\<exists>e \<in> set es. GetCell p l (be_target e) \<noteq> c),
      s \<or> (\<exists>e \<in> set es. GetCell p l (be_target e) = c \<and> be_forward e),
      d \<or> (\<exists>e \<in> set es. GetCell p l (be_target e) = c \<and> be_backward e))"
  by (induction es arbitrary: b s d) (simp_all add: edge_flags_def disj_ac)

lemma scan_node_eq:
  "scan_node p graph l v (srcs, dests, u) =
     (srcs @ (if is_source p graph l v then [(GetCell p l v, v)] else []),
      dests @ (if is_destination p graph l v then [(GetCell p l v, v)] else []),
      u + (if is_unconnected p graph l v then 1 else 0))"
proof -
  obtain b s d where f: "cell_flags p graph l v = (b, s, d)" by (cases "cell_flags p graph l v")
  then have "fold (edge_flags p l (GetCell p l v)) (graph ! v) (False, False, False) = (b, s, d)"
    by (simp add: fold_edge_flags cell_flags_def)
  then show ?thesis
    by (simp add: scan_node_def Let_def is_source_def is_destination_def is_unconnected_def f)
qed

lemma fold_scan_node:
  "fold (scan_node p graph l) vs (srcs, dests, u) =
     (srcs @ map (\<lambda>v. (GetCell p l v, v)) (filter (is_source p graph l) vs),
      dests @ map (\<lambda>v. (GetCell p l v, v)) (filter (is_destination p graph l) vs),
      u + length (filter (is_unconnected p graph l) vs))"
  by (induction vs arbitrary: srcs dests u) (simp_all add: scan_node_eq)

text \<open>Sorting the pairs groups the nodes of a cell and keeps them in ascending order.\<close>

lemma sorted_fst: "sorted xs \<Longrightarrow> sorted (map fst xs)"
  for xs :: "(nat \<times> nat) list"
  by (induction xs) (auto simp: less_eq_prod_def)

lemma sort_pairs_cell:
  fixes vs :: "nat list"
  assumes "sorted vs" "distinct vs"
  shows "map snd (filter (\<lambda>x. fst x = c) (sort (map (\<lambda>v. (f v :: nat, v)) vs))) = filter (\<lambda>v. f v = c) vs"
proof (rule sorted_distinct_set_unique)
  let ?xs = "sort (map (\<lambda>v. (f v, v)) vs)"
  have "sorted (map snd (filter (\<lambda>x. fst x = c) xs))" if "sorted xs" for xs :: "(nat \<times> nat) list"
    using that by (induction xs) (auto simp: less_eq_prod_def)
  then show "sorted (map snd (filter (\<lambda>x. fst x = c) ?xs))" by simp
  have "distinct (map (\<lambda>v. (f v, v)) vs)" using assms(2) by (simp add: distinct_map inj_on_def)
  then have "distinct (filter (\<lambda>x. fst x = c) ?xs)" by simp
  then show "distinct (map snd (filter (\<lambda>x. fst x = c) ?xs))"
    unfolding distinct_map by (auto simp: inj_on_def)
  show "sorted (filter (\<lambda>v. f v = c) vs)" using assms(1) by (rule sorted_wrt_filter)
  show "set (map snd (filter (\<lambda>x. fst x = c) ?xs)) = set (filter (\<lambda>v. f v = c) vs)" by force
qed (use assms in auto)

section \<open>Inserting the boundaries\<close>

text \<open>\<open>holds b off num xs\<close>: the range of length \<open>num\<close> at \<open>off\<close> of the array \<open>b\<close> is \<open>xs\<close>.\<close>

definition holds :: "NodeID list \<Rightarrow> nat \<Rightarrow> nat \<Rightarrow> NodeID list \<Rightarrow> bool" where
  "holds b off num xs \<longleftrightarrow> num = length xs \<and> (xs \<noteq> [] \<longrightarrow> off + num \<le> length b) \<and> slice b off (off + num) = xs"

lemma holds_append: "holds b off num xs \<Longrightarrow> holds (b @ b') off num xs"
proof -
  assume h: "holds b off num xs"
  have "slice (b @ b') off (off + num) = slice b off (off + num)"
  proof (cases "xs = []")
    case False
    then have "off + num \<le> length b" using h by (simp add: holds_def)
    then show ?thesis by (intro slice_cong) (simp add: nth_append)
  qed (use h in \<open>simp add: holds_def\<close>)
  then show ?thesis using h by (auto simp: holds_def)
qed

lemma holds_Nil: "holds b off 0 []"
  by (simp add: holds_def)

lemma holds_new: "holds (b @ xs) (length b) (length xs) xs"
  unfolding holds_def by (auto simp: nth_append intro!: nth_equalityI)

lemmas filter_run = key_run [where key = "fst :: nat \<times> nat \<Rightarrow> nat"]

text \<open>
  What inserting the runs of a level does: the nodes are appended, and the cells of the level
  that occur know the range of their nodes.
\<close>

definition cell_updated :: "(nat \<Rightarrow> CellData \<Rightarrow> CellData) \<Rightarrow> (nat \<Rightarrow> CellData \<Rightarrow> CellData) \<Rightarrow> NodeID list \<Rightarrow>
    NodeID list \<Rightarrow> CellData \<Rightarrow> CellData \<Rightarrow> bool" where
  "cell_updated set_num set_off b nodes cell cell' \<longleftrightarrow>
     (if nodes = [] then cell' = cell
      else \<exists>off num. cell' = set_off off (set_num num cell) \<and> holds b off num nodes)"

lemma cell_updated_append:
  "cell_updated set_num set_off b nodes cell cell' \<Longrightarrow> cell_updated set_num set_off (b @ b') nodes cell cell'"
  by (auto simp: cell_updated_def intro: holds_append split: if_splits)

lemma insert_ranges:
  fixes xs :: "(nat \<times> nat) list"
  assumes "sorted (map fst xs)" "\<forall>x \<in> set xs. lo + fst x < length cells"
    and "for_each_range (insert_cell_boundary set_num set_off lo) xs (b, cells) = (b', cells')"
  shows "b' = b @ map snd xs \<and> length cells' = length cells \<and>
    (\<forall>k < lo. cells' ! k = cells ! k) \<and>
    (\<forall>c. lo + c < length cells \<longrightarrow> cell_updated set_num set_off b'
       (map snd (filter (\<lambda>x. fst x = c) xs)) (cells ! (lo + c)) (cells' ! (lo + c)))"
  using assms
proof (induction "length xs" arbitrary: xs b cells rule: less_induct)
  case less
  show ?case
  proof (cases xs)
    case Nil
    then show ?thesis using less.prems(3) by (simp add: cell_updated_def)
  next
    case (Cons x ys)
    let ?t = "takeWhile (\<lambda>y. fst y = fst x) ys" and ?d = "dropWhile (\<lambda>y. fst y = fst x) ys"
    let ?cell = "set_off (length b) (set_num (length (x # ?t)) (cells ! (lo + fst x)))"
    let ?b = "b @ map snd (x # ?t)" and ?cells = "cells[lo + fst x := ?cell]"
    note run = filter_run [OF less.prems(1) [unfolded Cons]]
    have lt: "lo + fst x < length cells" using less.prems(2) Cons by simp
    have rest: "for_each_range (insert_cell_boundary set_num set_off lo) ?d (?b, ?cells) = (b', cells')"
      using less.prems(3) Cons by (simp add: insert_cell_boundary_def Let_def)
    have inr: "\<forall>y \<in> set ?d. lo + fst y < length ?cells"
      using less.prems(2) Cons by (auto dest: set_dropWhileD)
    have short: "length ?d < length xs" using length_dropWhile_le [of _ ys] Cons by (simp add: le_imp_less_Suc)
    have ih: "b' = ?b @ map snd ?d" "length cells' = length cells"
      "\<forall>k < lo. cells' ! k = ?cells ! k"
      "\<forall>c. lo + c < length cells \<longrightarrow> cell_updated set_num set_off b'
         (map snd (filter (\<lambda>y. fst y = c) ?d)) (?cells ! (lo + c)) (cells' ! (lo + c))"
      using less.hyps [OF short run(4) inr rest] unfolding length_list_update by blast+
    have "map snd (x # ?t) @ map snd ?d = map snd xs" unfolding Cons by (simp flip: map_append)
    then have b': "b' = b @ map snd xs" using ih(1) by simp
    have "cell_updated set_num set_off b' (map snd (filter (\<lambda>y. fst y = c) xs)) (cells ! (lo + c)) (cells' ! (lo + c))"
      if c: "lo + c < length cells" for c
    proof (cases "c = fst x")
      case True
      have "filter (\<lambda>y. fst y = c) ?d = []" unfolding filter_empty_conv True using run(3) by (metis imageI)
      then have "cells' ! (lo + c) = ?cell" using ih(4) c True by (simp add: cell_updated_def)
      moreover have "holds b' (length b) (length (x # ?t)) (map snd (x # ?t))"
        using holds_append [OF holds_new [of b "map snd (x # ?t)"]] unfolding ih(1) by simp
      moreover have "filter (\<lambda>y. fst y = c) xs = x # ?t" using run(1) Cons True by simp
      ultimately show ?thesis unfolding cell_updated_def True by auto
    next
      case False
      then have "?cells ! (lo + c) = cells ! (lo + c)" by simp
      then show ?thesis using ih(4) c run(2) [OF False] unfolding Cons by metis
    qed
    moreover have "\<forall>k < lo. cells' ! k = cells ! k" using ih(3) by simp
    ultimately show ?thesis using b' ih(2) by blast
  qed
qed

lemma source_updated:
  assumes "cell_updated (\<lambda>v c. c\<lparr>num_source_nodes := v\<rparr>) (\<lambda>v c. c\<lparr>source_boundary_offset := v\<rparr>) b nodes cell cell'"
    and "num_source_nodes cell = 0"
  shows "holds b (source_boundary_offset cell') (num_source_nodes cell') nodes"
    "num_destination_nodes cell' = num_destination_nodes cell"
    "destination_boundary_offset cell' = destination_boundary_offset cell"
  using assms by (auto simp: cell_updated_def holds_Nil split: if_splits)

lemma destination_updated:
  assumes "cell_updated (\<lambda>v c. c\<lparr>num_destination_nodes := v\<rparr>) (\<lambda>v c. c\<lparr>destination_boundary_offset := v\<rparr>) b nodes cell cell'"
    and "num_destination_nodes cell = 0"
  shows "holds b (destination_boundary_offset cell') (num_destination_nodes cell') nodes"
    "num_source_nodes cell' = num_source_nodes cell"
    "source_boundary_offset cell' = source_boundary_offset cell"
  using assms by (auto simp: cell_updated_def holds_Nil split: if_splits)

section \<open>All levels\<close>

text \<open>\<open>level_base p l\<close>: the number of cells on the levels below \<open>l\<close>.\<close>

definition level_base :: "MultiLevelPartition \<Rightarrow> LevelID \<Rightarrow> nat" where
  "level_base p l = sum_list (map (GetNumberOfCells p) [1..<l])"

lemma level_base_Suc: "1 \<le> l \<Longrightarrow> level_base p (Suc l) = level_base p l + GetNumberOfCells p l"
  by (simp add: level_base_def)

lemma level_base_mono: "l \<le> m \<Longrightarrow> level_base p l \<le> level_base p m"
proof (induction "m - l" arbitrary: m)
  case (Suc d)
  then obtain k where k: "m = Suc k" "l \<le> k" by (cases m) auto
  then have "level_base p l \<le> level_base p k" using Suc by simp
  also have "\<dots> \<le> level_base p m" using k by (cases "1 \<le> k") (simp_all add: level_base_def)
  finally show ?case .
qed simp

lemma level_index_less:
  "1 \<le> l \<Longrightarrow> l < m \<Longrightarrow> c < GetNumberOfCells p l \<Longrightarrow> level_base p l + c < level_base p m"
  using level_base_Suc [of l p] level_base_mono [of "Suc l" m p] by simp

lemma count_cells_eq:
  "count_cells p ls n offsets = (n + sum_list (map (GetNumberOfCells p) ls),
     offsets @ map (\<lambda>i. n + sum_list (map (GetNumberOfCells p) (take i ls))) [0..<Suc (length ls)])"
proof (induction ls arbitrary: n offsets)
  case (Cons l ls)
  have "[0..<Suc (length (l # ls))] = 0 # map Suc [0..<Suc (length ls)]" by (simp add: map_Suc_upt upt_conv_Cons del: upt_Suc)
  then show ?case by (simp add: Cons.IH comp_def add.assoc del: upt_Suc)
qed simp

text \<open>The boundary lists of a cell: its nodes with an edge that leaves it and one that stays.\<close>

definition level_sources :: "MultiLevelPartition \<Rightarrow> 'e base_graph \<Rightarrow> LevelID \<Rightarrow> CellID \<Rightarrow> NodeID list" where
  "level_sources p graph l c = filter (\<lambda>v. GetCell p l v = c \<and> is_source p graph l v) [0..<length graph]"

definition level_destinations :: "MultiLevelPartition \<Rightarrow> 'e base_graph \<Rightarrow> LevelID \<Rightarrow> CellID \<Rightarrow> NodeID list" where
  "level_destinations p graph l c = filter (\<lambda>v. GetCell p l v = c \<and> is_destination p graph l v) [0..<length graph]"

definition cells_in_range :: "MultiLevelPartition \<Rightarrow> 'e base_graph \<Rightarrow> bool" where
  "cells_in_range p graph \<longleftrightarrow>
     (\<forall>l v. 1 \<le> l \<longrightarrow> l < GetNumberOfLevels p \<longrightarrow> v < length graph \<longrightarrow> GetCell p l v < GetNumberOfCells p l)"

definition built :: "MultiLevelPartition \<Rightarrow> 'e base_graph \<Rightarrow> LevelID \<Rightarrow> CellStorage \<Rightarrow> bool" where
  "built p graph m cs \<longleftrightarrow>
     length (cs_cells cs) = level_base p (GetNumberOfLevels p) \<and>
     (\<forall>l. 1 \<le> l \<longrightarrow> l \<le> GetNumberOfLevels p \<longrightarrow> level_to_cell_offset cs ! (l - 1) = level_base p l) \<and>
     (\<forall>l c. 1 \<le> l \<longrightarrow> l < GetNumberOfLevels p \<longrightarrow> c < GetNumberOfCells p l \<longrightarrow>
        (let cell = cs_cells cs ! (level_base p l + c)
         in holds (source_boundary cs) (source_boundary_offset cell) (num_source_nodes cell)
              (if l < m then level_sources p graph l c else []) \<and>
            holds (destination_boundary cs) (destination_boundary_offset cell) (num_destination_nodes cell)
              (if l < m then level_destinations p graph l c else [])))"

text \<open>One of the two insertions of a level: \<open>num\<close> and \<open>off\<close> read what it sets.\<close>

lemma sort_pairs_in_range:
  assumes "cells_in_range p graph" "1 \<le> m" "m < GetNumberOfLevels p"
    and "length cells = level_base p (GetNumberOfLevels p)"
  shows "\<forall>x \<in> set (sort (map (\<lambda>v. (GetCell p m v, v)) (filter P [0..<length graph]))).
    level_base p m + fst x < length cells"
  using assms level_index_less [OF assms(2,3)] by (auto simp: cells_in_range_def)

lemma insert_level:
  assumes "cells_in_range p graph" "1 \<le> m" "m < GetNumberOfLevels p"
    and "length cells = level_base p (GetNumberOfLevels p)"
    and "for_each_range (insert_cell_boundary set_num set_off (level_base p m))
      (sort (map (\<lambda>v. (GetCell p m v, v)) (filter P [0..<length graph]))) (b, cells) = (b', cells')"
    and l: "1 \<le> l" "l < GetNumberOfLevels p" "c < GetNumberOfCells p l"
  shows "length cells' = length cells" "\<exists>ys. b' = b @ ys"
    "l < m \<Longrightarrow> cells' ! (level_base p l + c) = cells ! (level_base p l + c)"
    "m \<le> l \<Longrightarrow> cell_updated set_num set_off b'
       (if l = m then filter (\<lambda>v. GetCell p l v = c \<and> P v) [0..<length graph] else [])
       (cells ! (level_base p l + c)) (cells' ! (level_base p l + c))"
proof -
  let ?xs = "sort (map (\<lambda>v. (GetCell p m v, v)) (filter P [0..<length graph]))"
  have srt: "sorted (map fst ?xs)" by (intro sorted_fst) simp
  note r = insert_ranges [OF srt sort_pairs_in_range [OF assms(1-4)] assms(5)]
  show "length cells' = length cells" "\<exists>ys. b' = b @ ys" using r by blast+
  show "cells' ! (level_base p l + c) = cells ! (level_base p l + c)" if "l < m"
    using r level_index_less [OF l(1) that l(3)] by blast
  have run: "map snd (filter (\<lambda>x. fst x = d) ?xs) = filter (\<lambda>v. GetCell p m v = d \<and> P v) [0..<length graph]" for d
    by (subst sort_pairs_cell) (simp_all add: sorted_wrt_filter conj_commute)
  have upd: "cell_updated set_num set_off b' (filter (\<lambda>v. GetCell p m v = d \<and> P v) [0..<length graph])
      (cells ! (level_base p m + d)) (cells' ! (level_base p m + d))" if "level_base p m + d < length cells" for d
    using r that unfolding run by blast
  show "cell_updated set_num set_off b'
       (if l = m then filter (\<lambda>v. GetCell p l v = c \<and> P v) [0..<length graph] else [])
       (cells ! (level_base p l + c)) (cells' ! (level_base p l + c))" if "m \<le> l"
  proof (cases "l = m")
    case True
    then show ?thesis using upd [of c] level_index_less [OF l(1,2,3)] assms(4) by simp
  next
    case False
    let ?d = "level_base p l + c - level_base p m"
    have "level_base p (Suc m) \<le> level_base p l" using that False by (intro level_base_mono) simp
    then have d: "level_base p m + ?d = level_base p l + c" "GetNumberOfCells p m \<le> ?d"
      using level_base_Suc [OF assms(2), of p] by simp_all
    have "filter (\<lambda>v. GetCell p m v = ?d \<and> P v) [0..<length graph] = []"
      using assms(1-3) d(2) unfolding cells_in_range_def filter_empty_conv by fastforce
    then show ?thesis using upd [of ?d] level_index_less [OF l(1,2,3)] assms(4) False unfolding d(1) by simp
  qed
qed

lemma build_level_built:
  fixes u :: nat
  assumes ok: "cells_in_range p graph" and m: "1 \<le> m" "m < GetNumberOfLevels p" and b: "built p graph m cs"
  defines "r \<equiv> build_level p graph m (cs, u)"
  shows "built p graph (Suc m) (fst r)"
    and "snd r = u + length (filter (is_unconnected p graph m) [0..<length graph])"
    and "level_to_cell_offset (fst r) = level_to_cell_offset cs"
proof -
  let ?srcs = "map (\<lambda>v. (GetCell p m v, v)) (filter (is_source p graph m) [0..<length graph])"
  let ?dests = "map (\<lambda>v. (GetCell p m v, v)) (filter (is_destination p graph m) [0..<length graph])"
  obtain S C1 where S: "for_each_range
      (insert_cell_boundary (\<lambda>v c. c\<lparr>num_source_nodes := v\<rparr>) (\<lambda>v c. c\<lparr>source_boundary_offset := v\<rparr>) (level_base p m))
      (sort ?srcs) (source_boundary cs, cs_cells cs) = (S, C1)" by fastforce
  obtain D C2 where D: "for_each_range
      (insert_cell_boundary (\<lambda>v c. c\<lparr>num_destination_nodes := v\<rparr>) (\<lambda>v c. c\<lparr>destination_boundary_offset := v\<rparr>) (level_base p m))
      (sort ?dests) (destination_boundary cs, C1) = (D, C2)" by fastforce
  have base: "level_to_cell_offset cs ! LevelIDToIndex m = level_base p m"
    using b m by (simp add: built_def LevelIDToIndex_def)
  have r: "r = (cs\<lparr>source_boundary := S, destination_boundary := D, cs_cells := C2\<rparr>,
      u + length (filter (is_unconnected p graph m) [0..<length graph]))"
    unfolding r_def build_level_def Let_def prod.case base fold_scan_node append_Nil S D by simp
  then show "snd r = u + length (filter (is_unconnected p graph m) [0..<length graph])"
    "level_to_cell_offset (fst r) = level_to_cell_offset cs" by simp_all
  have len: "length (cs_cells cs) = level_base p (GetNumberOfLevels p)" using b by (simp add: built_def)
  have one: "1 \<le> GetNumberOfLevels p" using m by simp
  have len': "length C1 = length (cs_cells cs)" "length C2 = length C1"
  proof -
    note i = insert_ranges [OF sorted_fst sort_pairs_in_range [OF ok m]]
    show 1: "length C1 = length (cs_cells cs)" using i [OF sorted_sort len S] by blast
    show "length C2 = length C1" using i [OF sorted_sort _ D] len 1 by simp
  qed
  note s = insert_level [OF ok m len S] and d = insert_level [OF ok m trans [OF len'(1) len] D]
  have "let cell = C2 ! (level_base p l + c)
      in holds S (source_boundary_offset cell) (num_source_nodes cell)
           (if l < Suc m then level_sources p graph l c else []) \<and>
         holds D (destination_boundary_offset cell) (num_destination_nodes cell)
           (if l < Suc m then level_destinations p graph l c else [])"
    if l: "1 \<le> l" "l < GetNumberOfLevels p" "c < GetNumberOfCells p l" for l c
  proof -
    let ?i = "level_base p l + c"
    have old: "holds (source_boundary cs) (source_boundary_offset (cs_cells cs ! ?i)) (num_source_nodes (cs_cells cs ! ?i))
          (if l < m then level_sources p graph l c else [])"
        "holds (destination_boundary cs) (destination_boundary_offset (cs_cells cs ! ?i))
          (num_destination_nodes (cs_cells cs ! ?i)) (if l < m then level_destinations p graph l c else [])"
      using b l by (auto simp: built_def Let_def)
    show ?thesis
    proof (cases "l < m")
      case True
      then show ?thesis
        using old s(2,3) [OF l] d(2,3) [OF l] by (auto simp: Let_def intro: holds_append)
    next
      case False
      then have zero: "num_source_nodes (cs_cells cs ! ?i) = 0" "num_destination_nodes (cs_cells cs ! ?i) = 0"
        using old by (simp_all add: holds_def)
      have "m \<le> l" using False by simp
      note su = source_updated [OF s(4) [OF l this] zero(1)]
      have "num_destination_nodes (C1 ! ?i) = 0" using su(2) zero(2) by simp
      note du = destination_updated [OF d(4) [OF l \<open>m \<le> l\<close>] this]
      have "(if l = m then filter (\<lambda>v. GetCell p l v = c \<and> is_source p graph m v) [0..<length graph] else []) =
          (if l < Suc m then level_sources p graph l c else [])"
        "(if l = m then filter (\<lambda>v. GetCell p l v = c \<and> is_destination p graph m v) [0..<length graph] else []) =
          (if l < Suc m then level_destinations p graph l c else [])"
        using False by (auto simp: level_sources_def level_destinations_def less_Suc_eq)
      then show ?thesis using su(1) du unfolding Let_def by simp
    qed
  qed
  then show "built p graph (Suc m) (fst r)"
    using b len len' unfolding r built_def by simp
qed

lemma build_levels_built:
  assumes "cells_in_range p graph" "built p graph 1 cs" "m \<le> GetNumberOfLevels p" "1 \<le> m"
  defines "r \<equiv> fold (build_level p graph) [1..<m] (cs, 0)"
  shows "built p graph m (fst r) \<and>
    snd r = sum_list (map (\<lambda>l. length (filter (is_unconnected p graph l) [0..<length graph])) [1..<m]) \<and>
    level_to_cell_offset (fst r) = level_to_cell_offset cs"
  using assms(3,4) unfolding r_def
proof (induction m)
  case (Suc m)
  show ?case
  proof (cases "m = 0")
    case False
    let ?s = "fold (build_level p graph) [1..<m] (cs, 0)"
    have ih: "built p graph m (fst ?s)"
      "snd ?s = sum_list (map (\<lambda>l. length (filter (is_unconnected p graph l) [0..<length graph])) [1..<m])"
      "level_to_cell_offset (fst ?s) = level_to_cell_offset cs"
      using Suc False by simp_all
    have m: "1 \<le> m" "m < GetNumberOfLevels p" using Suc.prems False by simp_all
    note step = build_level_built [OF assms(1) m ih(1), of "snd ?s"]
    have "fold (build_level p graph) [1..<Suc m] (cs, 0) = build_level p graph m (fst ?s, snd ?s)" using m by simp
    then show ?thesis using step ih(2,3) m by simp
  qed (use assms(2) in simp)
qed simp

lemma set_value_offsets_spec:
  "length (set_value_offsets n cells) = length cells"
  "i < length cells \<Longrightarrow> set_value_offsets n cells ! i =
     (cells ! i)\<lparr>value_offset := n + sum_list (map num_values (take i cells))\<rparr>"
  by (induction cells arbitrary: n i) (auto simp: nth_Cons add.assoc split: nat.splits)

lemma CellStorage_init_spec:
  assumes "cells_in_range p graph" "CellStorage_init p graph = (cs, unconnected)"
  shows "built p graph (GetNumberOfLevels p) cs"
    and "unconnected = sum_list (map (\<lambda>l. length (filter (is_unconnected p graph l) [0..<length graph])) [1..<GetNumberOfLevels p])"
    and "i < length (cs_cells cs) \<Longrightarrow> value_offset (cs_cells cs ! i) = sum_list (map num_values (take i (cs_cells cs)))"
proof -
  let ?L = "GetNumberOfLevels p"
  define cs0 where "cs0 = \<lparr>source_boundary = [], destination_boundary = [],
    cs_cells = replicate (level_base p ?L) CellData_init,
    level_to_cell_offset = map (\<lambda>i. sum_list (map (GetNumberOfCells p) (take i [1..<?L]))) [0..<Suc (length [1..<?L])]\<rparr>"
  let ?r = "fold (build_level p graph) [1..<?L] (cs0, 0)"
  have init: "cs = (fst ?r)\<lparr>cs_cells := set_value_offsets 0 (cs_cells (fst ?r))\<rparr>" "unconnected = snd ?r"
    using assms(2) by (auto simp: CellStorage_init_def count_cells_eq cs0_def level_base_def Let_def split: prod.splits)
  have "level_to_cell_offset cs0 ! (l - 1) = level_base p l" if l: "1 \<le> l" "l \<le> ?L" for l
  proof -
    obtain k where "l = Suc k" using l(1) by (cases l) auto
    then show ?thesis using l(2) by (simp add: cs0_def level_base_def take_upt del: upt_Suc)
  qed
  moreover have "holds [] off (num_source_nodes (cs_cells cs0 ! (level_base p l + c))) [] \<and>
      holds [] off' (num_destination_nodes (cs_cells cs0 ! (level_base p l + c))) []"
    if "1 \<le> l" "l < ?L" "c < GetNumberOfCells p l" for l c off off'
    using level_index_less [OF that] by (simp add: cs0_def CellData_init_def holds_Nil)
  moreover have "source_boundary cs0 = []" "destination_boundary cs0 = []" "length (cs_cells cs0) = level_base p ?L"
    by (simp_all add: cs0_def)
  ultimately have start: "built p graph 1 cs0" unfolding built_def Let_def by auto
  have r: "built p graph ?L (fst ?r) \<and> snd ?r =
      sum_list (map (\<lambda>l. length (filter (is_unconnected p graph l) [0..<length graph])) [1..<?L])"
  proof (cases "1 \<le> ?L")
    case True
    then show ?thesis using build_levels_built [OF assms(1) start order_refl True] by blast
  next
    case False
    then show ?thesis using start by (simp add: built_def)
  qed
  show "unconnected = sum_list (map (\<lambda>l. length (filter (is_unconnected p graph l) [0..<length graph])) [1..<?L])"
    using r init by simp
  have cell: "cs_cells cs ! k = (cs_cells (fst ?r) ! k)\<lparr>value_offset := sum_list (map num_values (take k (cs_cells (fst ?r))))\<rparr>"
    if "k < length (cs_cells (fst ?r))" for k
    using that unfolding init(1) by (simp add: set_value_offsets_spec)
  have len: "length (cs_cells cs) = length (cs_cells (fst ?r))" unfolding init(1) by (simp add: set_value_offsets_spec)
  have "holds (source_boundary cs) (source_boundary_offset (cs_cells cs ! (level_base p l + c)))
        (num_source_nodes (cs_cells cs ! (level_base p l + c))) (level_sources p graph l c) \<and>
      holds (destination_boundary cs) (destination_boundary_offset (cs_cells cs ! (level_base p l + c)))
        (num_destination_nodes (cs_cells cs ! (level_base p l + c))) (level_destinations p graph l c)"
    if l: "1 \<le> l" "l < ?L" "c < GetNumberOfCells p l" for l c
  proof -
    have inr: "level_base p l + c < length (cs_cells (fst ?r))"
      using r level_index_less [OF l] by (simp add: built_def)
    show ?thesis using r l cell [OF inr] init(1) by (simp add: built_def Let_def)
  qed
  then show "built p graph ?L cs" using r len unfolding built_def Let_def by (simp add: init(1))
  have "map num_values (cs_cells cs) = map num_values (cs_cells (fst ?r))"
    using len cell by (intro nth_equalityI) (simp_all add: num_values_def)
  then have "map num_values (take k (cs_cells cs)) = map num_values (take k (cs_cells (fst ?r)))" for k
    by (metis take_map)
  then show "i < length (cs_cells cs) \<Longrightarrow> value_offset (cs_cells cs ! i) = sum_list (map num_values (take i (cs_cells cs)))"
    using cell [of i] len by simp
qed

lemma built_cell:
  assumes "built p graph (GetNumberOfLevels p) cs" "1 \<le> l" "l < GetNumberOfLevels p" "c < GetNumberOfCells p l"
  defines "cell \<equiv> cs_GetCell cs l c"
  shows "GetSourceNodes cs cell = level_sources p graph l c"
    and "GetDestinationNodes cs cell = level_destinations p graph l c"
    and "cell_num_source_nodes cell = length (level_sources p graph l c)"
    and "cell_num_destination_nodes cell = length (level_destinations p graph l c)"
    and "level_base p l + c < length (cs_cells cs)"
    and "cell_values cell = value_offset (cs_cells cs ! (level_base p l + c))"
    and "num_values (cs_cells cs ! (level_base p l + c)) =
      (length (level_sources p graph l c) * length (level_destinations p graph l c)) mod 2 ^ 32"
proof -
  let ?data = "cs_cells cs ! (level_base p l + c)"
  have "level_to_cell_offset cs ! (l - 1) = level_base p l" using assms(1-3) by (simp add: built_def)
  then have cell: "cell = \<lparr>cell_num_source_nodes = num_source_nodes ?data,
      cell_num_destination_nodes = num_destination_nodes ?data, cell_values = value_offset ?data,
      cell_source_boundary = source_boundary_offset ?data,
      cell_destination_boundary = destination_boundary_offset ?data\<rparr>"
    by (simp add: cell_def cs_GetCell_def LevelIDToIndex_def Let_def)
  have h: "holds (source_boundary cs) (source_boundary_offset ?data) (num_source_nodes ?data) (level_sources p graph l c)"
    "holds (destination_boundary cs) (destination_boundary_offset ?data) (num_destination_nodes ?data)
      (level_destinations p graph l c)"
    using assms(1-4) unfolding built_def Let_def by auto
  then show "GetSourceNodes cs cell = level_sources p graph l c"
    "GetDestinationNodes cs cell = level_destinations p graph l c"
    "cell_num_source_nodes cell = length (level_sources p graph l c)"
    "cell_num_destination_nodes cell = length (level_destinations p graph l c)"
    "num_values ?data = (length (level_sources p graph l c) * length (level_destinations p graph l c)) mod 2 ^ 32"
    unfolding cell GetSourceNodes_def GetDestinationNodes_def holds_def num_values_def by auto
  show "level_base p l + c < length (cs_cells cs)"
    using assms(1) level_index_less [OF assms(2-4)] by (simp add: built_def)
  show "cell_values cell = value_offset ?data" by (simp add: cell)
qed

section \<open>Positions of the values\<close>

lemma find_index_nth: "distinct xs \<Longrightarrow> i < length xs \<Longrightarrow> find_index (xs ! i) xs = i"
  unfolding find_index_def
  by (induction xs arbitrary: i) (auto simp: nth_Cons takeWhile_eq_Nil_iff split: nat.splits)

lemma column_range_rows:
  assumes "j < nd"
  shows "column_range (off + j) (off + j + ns * nd) nd = map (\<lambda>i. off + j + nd * i) [0..<ns]"
  using assms by (simp add: column_range_def)

lemma cell_ranges:
  assumes "distinct (GetSourceNodes cs cell)" "distinct (GetDestinationNodes cs cell)"
    and "length (GetSourceNodes cs cell) = cell_num_source_nodes cell"
    and "length (GetDestinationNodes cs cell) = cell_num_destination_nodes cell"
    and "cell_num_source_nodes cell * cell_num_destination_nodes cell < 2 ^ 32"
  shows "i < cell_num_source_nodes cell \<Longrightarrow> GetOutRange cs cell (GetSourceNodes cs cell ! i) =
      map (\<lambda>j. cell_values cell + cell_num_destination_nodes cell * i + j) [0..<cell_num_destination_nodes cell]"
    and "j < cell_num_destination_nodes cell \<Longrightarrow> GetInRange cs cell (GetDestinationNodes cs cell ! j) =
      map (\<lambda>i. cell_values cell + cell_num_destination_nodes cell * i + j) [0..<cell_num_source_nodes cell]"
proof -
  have upt: "[a..<a + n] = map (\<lambda>j. a + j) [0..<n]" for a n :: nat by (induction n) simp_all
  show "i < cell_num_source_nodes cell \<Longrightarrow> GetOutRange cs cell (GetSourceNodes cs cell ! i) =
      map (\<lambda>j. cell_values cell + cell_num_destination_nodes cell * i + j) [0..<cell_num_destination_nodes cell]"
    using assms(1,3) by (simp add: GetOutRange_def find_index_nth Let_def upt)
  assume j: "j < cell_num_destination_nodes cell"
  then have "GetInRange cs cell (GetDestinationNodes cs cell ! j) =
      map (\<lambda>i. cell_values cell + j + cell_num_destination_nodes cell * i) [0..<cell_num_source_nodes cell]"
    using assms(2,4,5) by (simp add: GetInRange_def find_index_nth Let_def column_range_rows)
  also have "\<dots> = map (\<lambda>i. cell_values cell + cell_num_destination_nodes cell * i + j) [0..<cell_num_source_nodes cell]"
    by simp
  finally show "GetInRange cs cell (GetDestinationNodes cs cell ! j) =
      map (\<lambda>i. cell_values cell + cell_num_destination_nodes cell * i + j) [0..<cell_num_source_nodes cell]" .
qed

lemma matrix_position_inj:
  assumes "j < nd" "j' < nd" "off + nd * i + j = off + nd * i' + j'"
  shows "i = i' \<and> j = (j' :: nat)"
proof -
  have "(nd * i + j) div nd = i" "(nd * i' + j') div nd = i'" using assms(1,2) by simp_all
  then have "i = i'" using assms(3) by (simp add: add.assoc)
  then show ?thesis using assms(3) by simp
qed

lemma matrix_position_less:
  assumes "i < ns" "j < nd"
  shows "nd * i + j < ns * (nd :: nat)"
proof -
  have "nd * i + j < nd * Suc i" using assms(2) by simp
  also have "\<dots> \<le> nd * ns" using assms(1) by (intro mult_le_mono2) simp
  finally show ?thesis by (simp add: mult.commute)
qed

lemma sum_list_take_mono: "k \<le> m \<Longrightarrow> sum_list (take k xs) \<le> sum_list (take m (xs :: nat list))"
  by (metis append_take_drop_id le_add1 min.absorb1 sum_list_append take_take)

text \<open>The values of a cell end where those of later cells may begin.\<close>

lemma value_offset_after:
  assumes "\<And>i. i < length cells \<Longrightarrow> value_offset (cells ! i) = sum_list (map num_values (take i cells))"
    and "i < k" "k < length cells"
  shows "value_offset (cells ! i) + num_values (cells ! i) \<le> value_offset (cells ! k)"
proof -
  have "value_offset (cells ! i) + num_values (cells ! i) = sum_list (take (Suc i) (map num_values cells))"
    using assms by (simp add: take_map take_Suc_conv_app_nth)
  also have "\<dots> \<le> sum_list (take k (map num_values cells))" using assms(2) by (intro sum_list_take_mono) simp
  finally show ?thesis using assms by (simp add: take_map)
qed

lemma level_index_inj:
  assumes "1 \<le> l" "1 \<le> l'" "c < GetNumberOfCells p l" "c' < GetNumberOfCells p l'"
    and "level_base p l + c = level_base p l' + c'"
  shows "l = l' \<and> c = c'"
proof -
  have "\<not> l < l'" "\<not> l' < l"
    using level_index_less [of l l' c p] level_index_less [of l' l c' p] assms level_base_mono by fastforce+
  then show ?thesis using assms(5) by simp
qed

definition value_slots :: "MultiLevelPartition \<Rightarrow> 'e base_graph \<Rightarrow> (LevelID \<times> CellID \<times> nat \<times> nat) set" where
  "value_slots p graph = {(l, c, i, j). 1 \<le> l \<and> l < GetNumberOfLevels p \<and> c < GetNumberOfCells p l \<and>
     i < length (level_sources p graph l c) \<and> j < length (level_destinations p graph l c)}"

definition small_cells :: "MultiLevelPartition \<Rightarrow> 'e base_graph \<Rightarrow> bool" where
  "small_cells p graph \<longleftrightarrow> (\<forall>l c. 1 \<le> l \<longrightarrow> l < GetNumberOfLevels p \<longrightarrow> c < GetNumberOfCells p l \<longrightarrow>
     length (level_sources p graph l c) * length (level_destinations p graph l c) < 2 ^ 32)"

lemma value_slot:
  assumes "built p graph (GetNumberOfLevels p) cs" "small_cells p graph" "(l, c, i, j) \<in> value_slots p graph"
  defines "pos \<equiv> value_offset (cs_cells cs ! (level_base p l + c)) + length (level_destinations p graph l c) * i + j"
    and "cell \<equiv> cs_GetCell cs l c"
  shows "GetOutRange cs cell (level_sources p graph l c ! i) ! j = pos"
    and "GetInRange cs cell (level_destinations p graph l c ! j) ! i = pos"
    and "length (GetOutRange cs cell (level_sources p graph l c ! i)) = length (level_destinations p graph l c)"
    and "length (GetInRange cs cell (level_destinations p graph l c ! j)) = length (level_sources p graph l c)"
    and "pos < value_offset (cs_cells cs ! (level_base p l + c)) + num_values (cs_cells cs ! (level_base p l + c))"
    and "level_base p l + c < length (cs_cells cs)"
proof -
  have lc: "1 \<le> l" "l < GetNumberOfLevels p" "c < GetNumberOfCells p l"
    and ij: "i < length (level_sources p graph l c)" "j < length (level_destinations p graph l c)"
    using assms(3) by (simp_all add: value_slots_def)
  note b = built_cell [OF assms(1) lc, folded cell_def]
  have small: "length (level_sources p graph l c) * length (level_destinations p graph l c) < 2 ^ 32"
    using assms(2) lc by (simp add: small_cells_def)
  have dist: "distinct (GetSourceNodes cs cell)" "distinct (GetDestinationNodes cs cell)"
    unfolding b(1,2) by (simp_all add: level_sources_def level_destinations_def)
  note r = cell_ranges [OF dist, unfolded b(1-4), OF refl refl small]
  show "GetOutRange cs cell (level_sources p graph l c ! i) ! j = pos"
    "GetInRange cs cell (level_destinations p graph l c ! j) ! i = pos"
    "length (GetOutRange cs cell (level_sources p graph l c ! i)) = length (level_destinations p graph l c)"
    "length (GetInRange cs cell (level_destinations p graph l c ! j)) = length (level_sources p graph l c)"
    using ij by (simp_all add: r b(6) pos_def)
  show "pos < value_offset (cs_cells cs ! (level_base p l + c)) + num_values (cs_cells cs ! (level_base p l + c))"
    using matrix_position_less [OF ij] small by (simp add: b(7) pos_def)
  show "level_base p l + c < length (cs_cells cs)" by (rule b(5))
qed

lemma slot_in_metric:
  assumes "\<And>i. i < length (cs_cells cs) \<Longrightarrow> value_offset (cs_cells cs ! i) = sum_list (map num_values (take i (cs_cells cs)))"
    and "pos < value_offset (cs_cells cs ! k) + num_values (cs_cells cs ! k)" "k < length (cs_cells cs)"
  shows "pos < length (weights (MakeMetric cs))"
proof -
  let ?last = "length (cs_cells cs) - 1"
  have "value_offset (cs_cells cs ! k) + num_values (cs_cells cs ! k) \<le>
      value_offset (cs_cells cs ! ?last) + num_values (cs_cells cs ! ?last)"
  proof (cases "k = ?last")
    case False
    then have "k < ?last" "?last < length (cs_cells cs)" using assms(3) by simp_all
    from value_offset_after [OF assms(1) this] show ?thesis by simp
  qed simp
  then show ?thesis using assms(2,3) by (auto simp: MakeMetric_def Let_def last_conv_nth)
qed

lemma CellStorage_positions_spec:
  assumes "cells_in_range p graph" "small_cells p graph" "CellStorage_init p graph = (cs, unconnected)"
  shows "inj_on (\<lambda>(l, c, i, j). GetOutRange cs (cs_GetCell cs l c) (level_sources p graph l c ! i) ! j) (value_slots p graph) \<and>
    (\<forall>(l, c, i, j) \<in> value_slots p graph.
       GetInRange cs (cs_GetCell cs l c) (level_destinations p graph l c ! j) ! i =
         GetOutRange cs (cs_GetCell cs l c) (level_sources p graph l c ! i) ! j \<and>
       length (GetOutRange cs (cs_GetCell cs l c) (level_sources p graph l c ! i)) = length (level_destinations p graph l c) \<and>
       length (GetInRange cs (cs_GetCell cs l c) (level_destinations p graph l c ! j)) = length (level_sources p graph l c) \<and>
       GetOutRange cs (cs_GetCell cs l c) (level_sources p graph l c ! i) ! j < length (weights (MakeMetric cs)))"
proof (intro conjI inj_onI ballI)
  note init = CellStorage_init_spec [OF assms(1,3)]
  note slot = value_slot [OF init(1) assms(2)]
  fix x assume x: "x \<in> value_slots p graph"
  obtain l c i j where x': "x = (l, c, i, j)" by (cases x)
  show "case x of (l, c, i, j) \<Rightarrow>
      GetInRange cs (cs_GetCell cs l c) (level_destinations p graph l c ! j) ! i =
        GetOutRange cs (cs_GetCell cs l c) (level_sources p graph l c ! i) ! j \<and>
      length (GetOutRange cs (cs_GetCell cs l c) (level_sources p graph l c ! i)) = length (level_destinations p graph l c) \<and>
      length (GetInRange cs (cs_GetCell cs l c) (level_destinations p graph l c ! j)) = length (level_sources p graph l c) \<and>
      GetOutRange cs (cs_GetCell cs l c) (level_sources p graph l c ! i) ! j < length (weights (MakeMetric cs))"
    using slot(1-4) [OF x [unfolded x']] slot_in_metric [OF init(3) slot(5,6) [OF x [unfolded x']]] x' by simp
  fix y assume y: "y \<in> value_slots p graph"
    and eq: "(\<lambda>(l, c, i, j). GetOutRange cs (cs_GetCell cs l c) (level_sources p graph l c ! i) ! j) x =
      (\<lambda>(l, c, i, j). GetOutRange cs (cs_GetCell cs l c) (level_sources p graph l c ! i) ! j) y"
  obtain l' c' i' j' where y': "y = (l', c', i', j')" by (cases y)
  note s = slot [OF x [unfolded x']] and s' = slot [OF y [unfolded y']]
  let ?k = "level_base p l + c" and ?k' = "level_base p l' + c'"
  have pos: "value_offset (cs_cells cs ! ?k) + length (level_destinations p graph l c) * i + j =
      value_offset (cs_cells cs ! ?k') + length (level_destinations p graph l' c') * i' + j'"
    using eq unfolding x' y' prod.case s(1) s'(1) .
  have "\<not> ?k < ?k'" "\<not> ?k' < ?k"
    using value_offset_after [OF init(3), of ?k ?k'] value_offset_after [OF init(3), of ?k' ?k] s(5,6) s'(5,6) pos
    by fastforce+
  then have lc: "l = l' \<and> c = c'" using x y unfolding x' y' by (intro level_index_inj) (auto simp: value_slots_def)
  then have "i = i' \<and> j = j'"
    using x y pos unfolding x' y' by (intro matrix_position_inj) (auto simp: value_slots_def)
  then show "x = y" using lc x' y' by simp
qed

text \<open>
  Property C30. Boundary lists.  For every cell of every level, \<^verbatim>\<open>GetSourceNodes\<close> are the nodes of
  the cell, in ascending order, that have an edge to another cell and a forward edge inside the
  cell; \<^verbatim>\<open>GetDestinationNodes\<close> likewise with backward edges, or with no arc inside at all; and
  the count of the warning is the number of the latter without any arc.
\<close>

theorem CellStorage_boundaries:
  assumes "cells_in_range p graph" "CellStorage_init p graph = (cs, unconnected)"
    and "1 \<le> l" "l < GetNumberOfLevels p" "c < GetNumberOfCells p l"
  shows "GetSourceNodes cs (cs_GetCell cs l c) =
      filter (\<lambda>v. GetCell p l v = c \<and> is_source p graph l v) [0..<length graph] \<and>
    GetDestinationNodes cs (cs_GetCell cs l c) =
      filter (\<lambda>v. GetCell p l v = c \<and> is_destination p graph l v) [0..<length graph] \<and>
    unconnected = sum_list (map (\<lambda>l. length (filter (is_unconnected p graph l) [0..<length graph]))
      [1..<GetNumberOfLevels p])"
  using CellStorage_init_spec(1,2) [OF assms(1,2)] built_cell(1,2) [OF _ assms(3-5), of graph cs]
  by (simp add: level_sources_def level_destinations_def)

text \<open>
  Property C31. Positions of the values.  Every pair of a source and a destination of a cell has
  one position in the metric, the same through \<^verbatim>\<open>GetOutWeight\<close> of the source and through
  \<^verbatim>\<open>GetInWeight\<close> of the destination; it is inside the arrays of \<^verbatim>\<open>MakeMetric\<close>, and no two
  pairs, of the same cell or of different cells, share a position.
\<close>

theorem CellStorage_positions:
  assumes "cells_in_range p graph" "small_cells p graph" "CellStorage_init p graph = (cs, unconnected)"
  shows "inj_on (\<lambda>(l, c, i, j). GetOutRange cs (cs_GetCell cs l c) (level_sources p graph l c ! i) ! j) (value_slots p graph) \<and>
    (\<forall>(l, c, i, j) \<in> value_slots p graph.
       GetInRange cs (cs_GetCell cs l c) (level_destinations p graph l c ! j) ! i =
         GetOutRange cs (cs_GetCell cs l c) (level_sources p graph l c ! i) ! j \<and>
       length (GetOutRange cs (cs_GetCell cs l c) (level_sources p graph l c ! i)) = length (level_destinations p graph l c) \<and>
       length (GetInRange cs (cs_GetCell cs l c) (level_destinations p graph l c ! j)) = length (level_sources p graph l c) \<and>
       GetOutRange cs (cs_GetCell cs l c) (level_sources p graph l c ! i) ! j < length (weights (MakeMetric cs)))"
  by (rule CellStorage_positions_spec [OF assms])

definition example_partition :: MultiLevelPartition where
  "example_partition = \<lparr>level_data = \<lparr>num_level = 2, lidx_to_offset = [0], lidx_to_mask = [3],
     bit_to_level = [1, 1], lidx_to_children_offsets = [0]\<rparr>,
     partition = [0, 0, 1, 1, 2], cell_to_children = []\<rparr>"

definition example_path :: "unit base_graph" where
  "example_path = map (map (\<lambda>t. \<lparr>be_target = t, be_forward = True, be_backward = True\<rparr>)) [[1], [0, 2], [1, 3], [2]]"

lemma example_cells:
  "GetNumberOfLevels example_partition = 2" "GetNumberOfCells example_partition 1 = 2"
  "length example_path = 4" "map (GetCell example_partition 1) [0, 1, 2, 3] = [0, 0, 1, 1]"
  by (simp_all add: example_partition_def example_path_def GetNumberOfLevels_def GetNumberOfCells_def
      GetSentinelNode_def GetCell_def LevelIDToIndex_def Let_def)

lemma example_in_range: "cells_in_range example_partition example_path"
proof -
  have "GetCell example_partition 1 v < 2" if v: "v < 4" for v
  proof -
    consider "v = 0" | "v = 1" | "v = 2" | "v = 3" using v by linarith
    then show ?thesis using example_cells(4) by cases simp_all
  qed
  moreover have "l = 1" if "1 \<le> l" "l < 2" for l :: nat using that by linarith
  ultimately show ?thesis unfolding cells_in_range_def example_cells by (metis example_cells(2))
qed

lemma example_boundaries:
  "level_sources example_partition example_path 1 0 = [1]" "level_sources example_partition example_path 1 1 = [2]"
  "level_destinations example_partition example_path 1 0 = [1]" "level_destinations example_partition example_path 1 1 = [2]"
proof -
  have upt: "[0..<length example_path] = [0, 1, 2, 3]" unfolding example_cells by (simp add: upt_rec)
  have cell: "GetCell example_partition 1 0 = 0" "GetCell example_partition 1 1 = 0"
    "GetCell example_partition 1 2 = 1" "GetCell example_partition 1 3 = 1" using example_cells(4) by simp_all
  show "level_sources example_partition example_path 1 0 = [1]" "level_sources example_partition example_path 1 1 = [2]"
    "level_destinations example_partition example_path 1 0 = [1]" "level_destinations example_partition example_path 1 1 = [2]"
    unfolding level_sources_def level_destinations_def upt
    using cell by (simp_all add: is_source_def is_destination_def cell_flags_def example_path_def)
qed

lemma CellStorage_boundaries_witness:
  "let cs = fst (CellStorage_init example_partition example_path)
   in GetSourceNodes cs (cs_GetCell cs 1 0) = [1] \<and> GetDestinationNodes cs (cs_GetCell cs 1 0) = [1]"
proof -
  obtain cs u where i: "CellStorage_init example_partition example_path = (cs, u)" by (metis surj_pair)
  have "(0 :: nat) < 2" "(1 :: nat) < 2" by simp_all
  with CellStorage_boundaries [OF example_in_range i, of 1 0, folded level_sources_def level_destinations_def]
  show ?thesis unfolding example_cells example_boundaries i fst_conv Let_def by blast
qed

lemma CellStorage_positions_witness:
  "let cs = fst (CellStorage_init example_partition example_path)
   in GetInRange cs (cs_GetCell cs 1 1) 2 ! 0 = GetOutRange cs (cs_GetCell cs 1 1) 2 ! 0 \<and>
      GetOutRange cs (cs_GetCell cs 1 1) 2 ! 0 \<noteq> GetOutRange cs (cs_GetCell cs 1 0) 1 ! 0"
proof -
  obtain cs u where i: "CellStorage_init example_partition example_path = (cs, u)" by (metis surj_pair)
  have lc: "l = 1 \<and> (c = 0 \<or> c = 1)" if "1 \<le> l" "l < 2" "c < GetNumberOfCells example_partition l" for l c
  proof -
    have "l = 1" using that(1,2) by linarith
    then show ?thesis using that(3) example_cells(2) by auto
  qed
  have small: "small_cells example_partition example_path"
    unfolding small_cells_def example_cells
  proof (intro allI impI)
    fix l c assume "1 \<le> l" "l < 2" "c < GetNumberOfCells example_partition l"
    then have "l = 1 \<and> (c = 0 \<or> c = 1)" by (rule lc)
    then show "length (level_sources example_partition example_path l c) *
        length (level_destinations example_partition example_path l c) < 2 ^ 32"
      using example_boundaries by (elim conjE disjE) simp_all
  qed
  have slots: "(1, 0, 0, 0) \<in> value_slots example_partition example_path" "(1, 1, 0, 0) \<in> value_slots example_partition example_path"
    unfolding value_slots_def mem_Collect_eq prod.case example_cells example_boundaries by simp_all
  note c = CellStorage_positions [OF example_in_range small i]
  from bspec [OF conjunct2 [OF c] slots(2)]
  have "GetInRange cs (cs_GetCell cs 1 1) 2 ! 0 = GetOutRange cs (cs_GetCell cs 1 1) 2 ! 0"
    unfolding prod.case example_boundaries nth_Cons_0 by blast
  moreover have "GetOutRange cs (cs_GetCell cs 1 1) 2 ! 0 \<noteq> GetOutRange cs (cs_GetCell cs 1 0) 1 ! 0"
  proof
    assume "GetOutRange cs (cs_GetCell cs 1 1) 2 ! 0 = GetOutRange cs (cs_GetCell cs 1 0) 1 ! 0"
    then have "(1, 1, 0, 0) = (1 :: LevelID, 0 :: CellID, 0 :: nat, 0 :: nat)"
      using c slots example_boundaries by (intro inj_onD [OF conjunct1 [OF c]]) auto
    then show False by simp
  qed
  ultimately show ?thesis using i by simp
qed

end
