(* ===== verification/InertialFlow.thy ===== *)
theory InertialFlow
  imports Complex_Main DinicMaxFlow
begin

text \<open>
  Inertial flow, \<^verbatim>\<open>src/partitioner/inertial_flow.cpp\<close> with
  \<^verbatim>\<open>include/partitioner/reorder_first_last.hpp\<close>: the best of several minimal cuts between the
  two ends of the nodes in spatial order.

  The arguments \<open>nth_elem\<close> and \<open>hash_order\<close> stand for \<^verbatim>\<open>std::nth_element\<close> and for the order in
  which a hash set is iterated; \<open>rounds\<close> is the order in which the parallel rounds take the
  lock.  A \<^verbatim>\<open>double\<close> is a real number; division by zero, which needs a view of less than two
  nodes, is outside of the theorems.
\<close>

section \<open>The first and the last elements\<close>

type_synonym 'a nth_element = "'a comparator \<Rightarrow> nat \<Rightarrow> 'a list \<Rightarrow> 'a list"

definition flipped :: "'a comparator \<Rightarrow> 'a comparator" where
  "flipped cmp = (\<lambda>lhs rhs. cmp rhs lhs)"

definition reorderFirstLast :: "'a nth_element \<Rightarrow> 'a list \<Rightarrow> nat \<Rightarrow> 'a comparator \<Rightarrow> 'a list" where
  "reorderFirstLast nth_elem xs n cmp =
     (if n = 0 \<or> length xs < 2 then xs
      else let ys = nth_elem cmp (n - 1) xs
           in take n ys @ rev (nth_elem (flipped cmp) (n - 1) (rev (drop n ys))))"

text \<open>What the standard guarantees of \<^verbatim>\<open>std::nth_element\<close>.\<close>

definition nth_element_ok :: "'a nth_element \<Rightarrow> bool" where
  "nth_element_ok nth_elem \<longleftrightarrow> (\<forall>cmp k xs. strict_weak cmp \<longrightarrow> k < length xs \<longrightarrow>
     mset (nth_elem cmp k xs) = mset xs \<and>
     (\<forall>i j. i \<le> k \<longrightarrow> k \<le> j \<longrightarrow> j < length xs \<longrightarrow> \<not> cmp (nth_elem cmp k xs ! j) (nth_elem cmp k xs ! i)))"

lemma nth_element_okD:
  assumes "nth_element_ok nth_elem" "strict_weak cmp" "k < length xs"
  shows "mset (nth_elem cmp k xs) = mset xs" "length (nth_elem cmp k xs) = length xs"
    "i \<le> k \<Longrightarrow> k \<le> j \<Longrightarrow> j < length xs \<Longrightarrow> \<not> cmp (nth_elem cmp k xs ! j) (nth_elem cmp k xs ! i)"
proof -
  show m: "mset (nth_elem cmp k xs) = mset xs" using assms unfolding nth_element_ok_def by blast
  show "length (nth_elem cmp k xs) = length xs" using mset_eq_length [OF m] .
  show "i \<le> k \<Longrightarrow> k \<le> j \<Longrightarrow> j < length xs \<Longrightarrow> \<not> cmp (nth_elem cmp k xs ! j) (nth_elem cmp k xs ! i)"
    using assms unfolding nth_element_ok_def by blast
qed

lemma strict_weak_flipped [simp]: "strict_weak (flipped cmp) = strict_weak cmp"
  unfolding strict_weak_def flipped_def by blast

text \<open>Every element of the first \<open>n\<close> against the rest, for one call.\<close>

lemma nth_element_split:
  assumes "nth_element_ok nth_elem" "strict_weak cmp" "0 < n" "n \<le> length xs"
    and "x \<in> set (take n (nth_elem cmp (n - 1) xs))" "y \<in> set (drop n (nth_elem cmp (n - 1) xs))"
  shows "\<not> cmp y x"
proof -
  let ?ys = "nth_elem cmp (n - 1) xs"
  have k: "n - 1 < length xs" using assms(3,4) by simp
  note ok = nth_element_okD [OF assms(1,2) k]
  obtain i where i: "i < n" "x = ?ys ! i" using assms(5) by (auto simp: in_set_conv_nth)
  obtain j where "j < length (drop n ?ys)" "y = drop n ?ys ! j" using assms(6) by (metis in_set_conv_nth)
  then have j: "n + j < length xs" "y = ?ys ! (n + j)" using ok(2) assms(4) by auto
  show ?thesis using ok(3) [of i "n + j"] i j by simp
qed

lemma reorderFirstLast_spec:
  assumes ok: "nth_element_ok nth_elem" and sw: "strict_weak cmp" and n: "2 * n \<le> length xs"
  defines "ys \<equiv> reorderFirstLast nth_elem xs n cmp"
  shows "mset ys = mset xs"
    and "x \<in> set (take n ys) \<Longrightarrow> y \<in> set (drop n ys) \<Longrightarrow> \<not> cmp y x"
    and "x \<in> set (drop (length xs - n) ys) \<Longrightarrow> y \<in> set (take (length xs - n) ys) \<Longrightarrow> \<not> cmp x y"
proof (atomize (full), cases "n = 0 \<or> length xs < 2")
  case True
  then have "n = 0" "ys = xs" using n by (auto simp: ys_def reorderFirstLast_def)
  then show "mset ys = mset xs \<and> (x \<in> set (take n ys) \<longrightarrow> y \<in> set (drop n ys) \<longrightarrow> \<not> cmp y x) \<and>
    (x \<in> set (drop (length xs - n) ys) \<longrightarrow> y \<in> set (take (length xs - n) ys) \<longrightarrow> \<not> cmp x y)" by simp
next
  case False
  define zs where "zs = nth_elem cmp (n - 1) xs"
  define bs where "bs = nth_elem (flipped cmp) (n - 1) (rev (drop n zs))"
  have ys: "ys = take n zs @ rev bs" using False by (simp add: ys_def reorderFirstLast_def zs_def bs_def Let_def)
  have k: "n - 1 < length xs" "0 < n" "n \<le> length xs" using False n by auto
  note z = nth_element_okD [OF ok sw k(1), folded zs_def]
  have kb: "n - 1 < length (rev (drop n zs))" "n \<le> length (rev (drop n zs))" using z(2) n k(2) by auto
  have sf: "strict_weak (flipped cmp)" using sw by simp
  note b = nth_element_okD [OF ok sf kb(1), folded bs_def]
  have len: "length bs = length xs - n" using b(2) z(2) by simp
  have setb: "set bs = set (drop n zs)" using mset_eq_setD [OF b(1)] by simp
  have "mset ys = mset (take n zs) + mset (drop n zs)" using b(1) by (simp add: ys)
  then have m: "mset ys = mset xs" using z(1) by (metis append_take_drop_id mset_append)
  have front: "\<not> cmp y x" if "x \<in> set (take n zs)" "y \<in> set (drop n zs)" for x y
    using nth_element_split [OF ok sw k(2,3), of x y] that by (simp add: zs_def)
  have "take n ys = take n zs" "drop n ys = rev bs" using z(2) k(3) by (simp_all add: ys)
  then have first: "x \<in> set (take n ys) \<longrightarrow> y \<in> set (drop n ys) \<longrightarrow> \<not> cmp y x" using front setb by simp
  have rear: "drop (length xs - n) ys = rev (take n bs)" "take (length xs - n) ys = take n zs @ rev (drop n bs)"
    using z(2) len n by (simp_all add: ys take_rev drop_rev)
  have "\<not> cmp x y" if "x \<in> set (take n bs)" "y \<in> set (drop n bs)" for x y
    using nth_element_split [OF ok sf k(2) kb(2), folded bs_def, of x y] that by (simp add: flipped_def)
  moreover have "set (take n bs) \<subseteq> set (drop n zs)" using setb set_take_subset by fast
  ultimately have "x \<in> set (drop (length xs - n) ys) \<longrightarrow> y \<in> set (take (length xs - n) ys) \<longrightarrow> \<not> cmp x y"
    using front unfolding rear by auto
  then show "mset ys = mset xs \<and> (x \<in> set (take n ys) \<longrightarrow> y \<in> set (drop n ys) \<longrightarrow> \<not> cmp y x) \<and>
    (x \<in> set (drop (length xs - n) ys) \<longrightarrow> y \<in> set (take (length xs - n) ys) \<longrightarrow> \<not> cmp x y)" using m first by blast
qed

section \<open>Spatial order\<close>

record NodeWithCoordinate =
  nc_nid :: NodeID
  nc_coordinate :: "int \<times> int"

record SpatialOrder =
  sources :: "NodeID list"
  sinks :: "NodeID list"

definition project :: "real \<Rightarrow> NodeWithCoordinate \<Rightarrow> real" where
  "project slope each = slope * of_int (fst (nc_coordinate each)) + (1 - \<bar>slope\<bar>) * of_int (snd (nc_coordinate each))"

definition spatially :: "real \<Rightarrow> NodeWithCoordinate comparator" where
  "spatially slope lhs rhs \<longleftrightarrow> project slope lhs < project slope rhs"

definition embedding_of :: "BisectionGraphView \<Rightarrow> NodeWithCoordinate list" where
  "embedding_of view = map (\<lambda>nid. \<lparr>nc_nid = nid, nc_coordinate = bn_coordinate (bv_Node view nid)\<rparr>)
     [0..<bv_NumberOfNodes view]"

definition makeSpatialOrder ::
  "NodeWithCoordinate nth_element \<Rightarrow> (NodeID list \<Rightarrow> NodeID list) \<Rightarrow> BisectionGraphView \<Rightarrow> real \<Rightarrow> real \<Rightarrow> SpatialOrder" where
  "makeSpatialOrder nth_elem hash_order view ratio slope =
     (let embedding = embedding_of view;
          n = nat \<lfloor>ratio * real (length embedding)\<rfloor>;
          reordered = reorderFirstLast nth_elem embedding n (spatially slope)
      in \<lparr>sources = hash_order (map nc_nid (take n reordered)),
          sinks = hash_order (map nc_nid (drop (length reordered - n) reordered))\<rparr>)"

section \<open>The best cut\<close>

text \<open>The \<^verbatim>\<open>double\<close> that \<^verbatim>\<open>get_balance\<close> returns.\<close>

definition get_balance :: "BisectionGraphView \<Rightarrow> real \<Rightarrow> nat \<Rightarrow> real" where
  "get_balance view balance num_nodes =
     (let perfect_balance = bv_NumberOfNodes view div 2;
          allowed_balance = balance * real perfect_balance;
          bigger_side = max num_nodes (bv_NumberOfNodes view - num_nodes)
      in if real bigger_side > allowed_balance then real bigger_side / allowed_balance else 1)"

definition balance_delta :: "BisectionGraphView \<Rightarrow> nat \<Rightarrow> int" where
  "balance_delta view num_nodes = \<bar>int (bv_NumberOfNodes view) div 2 - int num_nodes\<bar>"

text \<open>The first guess has \<^verbatim>\<open>num_edges = -1\<close>, the greatest 64-bit number.\<close>

definition no_cut :: MinCut where
  "no_cut = \<lparr>num_nodes_source = 0, num_edges = 2 ^ 64 - 1, flags = []\<rparr>"

text \<open>
  One round under the lock.  \<^verbatim>\<open>best_balance\<close> is an \<^verbatim>\<open>int\<close>, so the balance that is stored is
  truncated; \<^verbatim>\<open>best.num_edges * best_balance\<close> is a 64-bit product.
\<close>

definition better_cut :: "BisectionGraphView \<Rightarrow> real \<Rightarrow> MinCut \<Rightarrow> nat \<times> MinCut \<Rightarrow> nat \<times> MinCut" where
  "better_cut view balance mcut = (\<lambda>(best_balance, best).
     let cut_balance = get_balance view balance (num_nodes_source mcut)
     in if real (num_edges mcut) * cut_balance < real ((num_edges best * best_balance) mod 2 ^ 64) \<or>
           num_edges mcut = num_edges best \<and>
           balance_delta view (num_nodes_source mcut) < balance_delta view (num_nodes_source best)
        then (nat \<lfloor>cut_balance\<rfloor>, mcut) else (best_balance, best))"

definition round_cut ::
  "NodeWithCoordinate nth_element \<Rightarrow> (NodeID list \<Rightarrow> NodeID list) \<Rightarrow> BisectionGraphView \<Rightarrow> nat \<Rightarrow> real \<Rightarrow> nat \<Rightarrow>
   MinCut option" where
  "round_cut nth_elem hash_order view n ratio round_no =
     (let slope = - 1 + real round_no * (2 / real n);
          order = makeSpatialOrder nth_elem hash_order view ratio slope
      in DinicMaxFlow view (sources order) (sinks order))"

fun cut_rounds ::
  "NodeWithCoordinate nth_element \<Rightarrow> (NodeID list \<Rightarrow> NodeID list) \<Rightarrow> BisectionGraphView \<Rightarrow> nat \<Rightarrow> real \<Rightarrow> real \<Rightarrow>
   nat list \<Rightarrow> nat \<times> MinCut \<Rightarrow> MinCut option" where
  "cut_rounds nth_elem hash_order view n ratio balance [] (best_balance, best) = Some best"
| "cut_rounds nth_elem hash_order view n ratio balance (round_no # rounds) s =
     (case round_cut nth_elem hash_order view n ratio round_no of
        None \<Rightarrow> None
      | Some mcut \<Rightarrow> cut_rounds nth_elem hash_order view n ratio balance rounds (better_cut view balance mcut s))"

definition bestMinCut ::
  "NodeWithCoordinate nth_element \<Rightarrow> (NodeID list \<Rightarrow> NodeID list) \<Rightarrow> nat list \<Rightarrow>
   BisectionGraphView \<Rightarrow> nat \<Rightarrow> real \<Rightarrow> real \<Rightarrow> MinCut option" where
  "bestMinCut nth_elem hash_order rounds view n ratio balance =
     cut_rounds nth_elem hash_order view n ratio balance rounds (1, no_cut)"

definition computeInertialFlowCut ::
  "NodeWithCoordinate nth_element \<Rightarrow> (NodeID list \<Rightarrow> NodeID list) \<Rightarrow> nat list \<Rightarrow>
   BisectionGraphView \<Rightarrow> nat \<Rightarrow> real \<Rightarrow> real \<Rightarrow> MinCut option" where
  "computeInertialFlowCut nth_elem hash_order rounds view num_slopes balance source_sink_rate =
     bestMinCut nth_elem hash_order rounds view num_slopes source_sink_rate balance"

section \<open>The spatial order\<close>

definition hash_order_ok :: "(NodeID list \<Rightarrow> NodeID list) \<Rightarrow> bool" where
  "hash_order_ok hash_order \<longleftrightarrow> (\<forall>xs. distinct xs \<longrightarrow> distinct (hash_order xs) \<and> set (hash_order xs) = set xs)"

text \<open>The position of a node of a view along the slope.\<close>

definition node_project :: "real \<Rightarrow> BisectionGraphView \<Rightarrow> NodeID \<Rightarrow> real" where
  "node_project slope view v = slope * of_int (fst (bn_coordinate (bv_Node view v))) +
     (1 - \<bar>slope\<bar>) * of_int (snd (bn_coordinate (bv_Node view v)))"

lemma strict_weak_spatially: "strict_weak (spatially slope)"
  by (auto simp: strict_weak_def spatially_def)

lemma order_size:
  assumes "0 \<le> ratio" "ratio \<le> 1 / 2"
  shows "2 * nat \<lfloor>ratio * real m\<rfloor> \<le> m"
proof -
  have "ratio * real m \<le> (1 / 2) * real m" using assms by (intro mult_right_mono) simp_all
  moreover have "real_of_int \<lfloor>ratio * real m\<rfloor> \<le> ratio * real m" by simp
  ultimately have "2 * real_of_int \<lfloor>ratio * real m\<rfloor> \<le> real m" by linarith
  then show ?thesis by linarith
qed

lemma in_drop_if_not_in_take: "y \<in> set xs \<Longrightarrow> y \<notin> set (take n xs) \<Longrightarrow> y \<in> set (drop n xs)"
  by (metis Un_iff append_take_drop_id set_append)

lemma in_take_if_not_in_drop: "y \<in> set xs \<Longrightarrow> y \<notin> set (drop n xs) \<Longrightarrow> y \<in> set (take n xs)"
  by (metis Un_iff append_take_drop_id set_append)

lemma spatial_order_spec:
  fixes slope :: real and view :: BisectionGraphView
  assumes ok: "nth_element_ok nth_elem" "hash_order_ok hash_order" and ratio: "0 \<le> ratio" "ratio \<le> 1 / 2"
  defines "N \<equiv> bv_NumberOfNodes view" and "order \<equiv> makeSpatialOrder nth_elem hash_order view ratio slope"
  shows "distinct (sources order)" "distinct (sinks order)"
    and "length (sources order) = nat \<lfloor>ratio * real N\<rfloor>" "length (sinks order) = nat \<lfloor>ratio * real N\<rfloor>"
    and "set (sources order) \<subseteq> {..<N}" "set (sinks order) \<subseteq> {..<N}" "set (sources order) \<inter> set (sinks order) = {}"
    and "s \<in> set (sources order) \<Longrightarrow> v < N \<Longrightarrow> v \<notin> set (sources order) \<Longrightarrow> node_project slope view s \<le> node_project slope view v"
    and "t \<in> set (sinks order) \<Longrightarrow> v < N \<Longrightarrow> v \<notin> set (sinks order) \<Longrightarrow> node_project slope view v \<le> node_project slope view t"
proof -
  let ?e = "embedding_of view" and ?n = "nat \<lfloor>ratio * real N\<rfloor>"
  let ?r = "reorderFirstLast nth_elem ?e ?n (spatially slope)"
  have len: "length ?e = N" by (simp add: embedding_of_def N_def)
  have n: "2 * ?n \<le> length ?e" using order_size [OF ratio] len by simp
  note spec = reorderFirstLast_spec [OF ok(1) strict_weak_spatially [of slope] n]
  have r: "length ?r = N" using mset_eq_length [OF spec(1)] len by simp
  have ids: "map nc_nid ?e = [0..<N]" by (simp add: embedding_of_def N_def comp_def)
  have "mset (map nc_nid ?r) = mset [0..<N]" using spec(1) ids by (metis mset_map)
  then have dr: "distinct (map nc_nid ?r)" and setr: "set (map nc_nid ?r) = {..<N}"
    using mset_eq_imp_distinct_iff mset_eq_setD by fastforce+
  have at: "x \<in> set ?e \<and> project slope x = node_project slope view (nc_nid x)" if "x \<in> set ?r" for x
    using that mset_eq_setD [OF spec(1)] by (auto simp: embedding_of_def project_def node_project_def)
  have d: "distinct (map nc_nid (take ?n ?r))" "distinct (map nc_nid (drop (N - ?n) ?r))"
    using dr by (metis distinct_take take_map, metis distinct_drop drop_map)
  have order: "sources order = hash_order (map nc_nid (take ?n ?r))"
    "sinks order = hash_order (map nc_nid (drop (N - ?n) ?r))"
    by (simp_all only: order_def makeSpatialOrder_def Let_def len r SpatialOrder.select_convs)
  have sets: "set (sources order) = nc_nid ` set (take ?n ?r)" "set (sinks order) = nc_nid ` set (drop (N - ?n) ?r)"
    and "distinct (sources order)" "distinct (sinks order)"
    using ok(2) d unfolding hash_order_ok_def order by simp_all
  then show dist: "distinct (sources order)" "distinct (sinks order)" by blast+
  have "length (sources order) = length (map nc_nid (take ?n ?r))"
    "length (sinks order) = length (map nc_nid (drop (N - ?n) ?r))"
    using dist sets d by (metis distinct_card set_map)+
  then show "length (sources order) = ?n" "length (sinks order) = ?n" using r n len by simp_all
  show "set (sources order) \<subseteq> {..<N}" "set (sinks order) \<subseteq> {..<N}"
    unfolding sets setr [symmetric] set_map by (intro image_mono set_take_subset set_drop_subset)+
  have le: "?n \<le> N - ?n" using n len by simp
  have "set (take ?n (map nc_nid ?r)) \<inter> set (drop (N - ?n) (map nc_nid ?r)) = {}"
    by (rule set_take_disj_set_drop_if_distinct [OF dr le])
  then show "set (sources order) \<inter> set (sinks order) = {}"
    unfolding sets set_map [symmetric] take_map [symmetric] drop_map [symmetric] .
  have "v \<in> set (map nc_nid ?r)" if "v < N" for v unfolding setr using that by simp
  then have node: "\<exists>x \<in> set ?r. nc_nid x = v" if "v < N" for v unfolding set_map using that by blast
  show "node_project slope view s \<le> node_project slope view v"
    if v: "s \<in> set (sources order)" "v < N" "v \<notin> set (sources order)"
  proof -
    obtain x where x: "x \<in> set (take ?n ?r)" "nc_nid x = s" using v(1) unfolding sets(1) by blast
    obtain y where y: "y \<in> set ?r" "nc_nid y = v" using node [OF v(2)] by blast
    have "y \<notin> set (take ?n ?r)" using y(2) v(3) unfolding sets(1) by blast
    with y(1) have "y \<in> set (drop ?n ?r)" by (rule in_drop_if_not_in_take)
    from spec(2) [OF x(1) this] show ?thesis
      using at x y(2) \<open>y \<in> set ?r\<close> by (metis in_set_takeD not_less spatially_def)
  qed
  show "node_project slope view v \<le> node_project slope view t"
    if v: "t \<in> set (sinks order)" "v < N" "v \<notin> set (sinks order)"
  proof -
    obtain x where x: "x \<in> set (drop (length ?e - ?n) ?r)" "nc_nid x = t" using v(1) unfolding sets(2) len by blast
    obtain y where y: "y \<in> set ?r" "nc_nid y = v" using node [OF v(2)] by blast
    have "y \<notin> set (drop (length ?e - ?n) ?r)" using y(2) v(3) unfolding sets(2) len by blast
    with y(1) have "y \<in> set (take (length ?e - ?n) ?r)" by (rule in_take_if_not_in_drop)
    from spec(3) [OF x(1) this] show ?thesis
      using at x y(2) \<open>y \<in> set ?r\<close> by (metis in_set_dropD not_less spatially_def)
  qed
qed

section \<open>The best of the rounds\<close>

lemma bigger_side_mono:
  assumes "balance_delta view a < balance_delta view b"
  shows "max a (bv_NumberOfNodes view - a) \<le> max b (bv_NumberOfNodes view - b)"
proof -
  define N where "N = bv_NumberOfNodes view"
  define h where "h = N div 2"
  have N: "N = 2 * h \<or> N = 2 * h + 1" unfolding h_def by presburger
  have "int N div 2 = int h" by (simp add: h_def zdiv_int)
  then have "\<bar>int h - int a\<bar> < \<bar>int h - int b\<bar>" using assms by (simp add: balance_delta_def N_def)
  then have "max a (N - a) \<le> max b (N - b)" using N by (elim disjE) (auto simp: max_def)
  then show ?thesis by (simp add: N_def)
qed

lemma get_balance_max:
  assumes "2 \<le> bv_NumberOfNodes view" "1 \<le> balance"
  shows "get_balance view balance m =
    max 1 (real (max m (bv_NumberOfNodes view - m)) / (balance * real (bv_NumberOfNodes view div 2)))"
    and "1 \<le> balance * real (bv_NumberOfNodes view div 2)"
proof -
  have "2 div 2 \<le> bv_NumberOfNodes view div 2" using assms(1) by (rule div_le_mono)
  then have "1 \<le> real (bv_NumberOfNodes view div 2)" by simp
  then show allowed: "1 \<le> balance * real (bv_NumberOfNodes view div 2)"
    using assms(2) mult_mono [of 1 balance 1] by simp
  then show "get_balance view balance m =
      max 1 (real (max m (bv_NumberOfNodes view - m)) / (balance * real (bv_NumberOfNodes view div 2)))"
    unfolding get_balance_def Let_def by (auto simp: max_def field_simps)
qed

lemma get_balance_bounds:
  assumes "2 \<le> bv_NumberOfNodes view" "1 \<le> balance" "m \<le> bv_NumberOfNodes view"
  shows "1 \<le> get_balance view balance m" "get_balance view balance m \<le> real (bv_NumberOfNodes view)"
proof -
  note g = get_balance_max [OF assms(1,2)]
  show "1 \<le> get_balance view balance m" by (simp add: g(1))
  have "real (max m (bv_NumberOfNodes view - m)) / (balance * real (bv_NumberOfNodes view div 2)) \<le>
      real (max m (bv_NumberOfNodes view - m)) / 1"
    using g(2) by (intro divide_left_mono) simp_all
  also have "\<dots> \<le> real (bv_NumberOfNodes view)" using assms(3) by simp
  finally show "get_balance view balance m \<le> real (bv_NumberOfNodes view)" using assms(1) by (simp add: g(1))
qed

lemma get_balance_mono:
  assumes "2 \<le> bv_NumberOfNodes view" "1 \<le> balance" "balance_delta view a < balance_delta view b"
  shows "get_balance view balance a \<le> get_balance view balance b"
proof -
  note g = get_balance_max [OF assms(1,2)]
  have "real (max a (bv_NumberOfNodes view - a)) \<le> real (max b (bv_NumberOfNodes view - b))"
    using bigger_side_mono [OF assms(3)] by linarith
  then have "real (max a (bv_NumberOfNodes view - a)) / (balance * real (bv_NumberOfNodes view div 2)) \<le>
      real (max b (bv_NumberOfNodes view - b)) / (balance * real (bv_NumberOfNodes view div 2))"
    using g(2) by (intro divide_right_mono) simp_all
  then show ?thesis unfolding g(1) by linarith
qed

text \<open>The rating of a cut, and the truncated rating the code compares it with.\<close>

definition rating :: "BisectionGraphView \<Rightarrow> real \<Rightarrow> MinCut \<Rightarrow> real" where
  "rating view balance c = real (num_edges c) * get_balance view balance (num_nodes_source c)"

definition stored_rating :: "BisectionGraphView \<Rightarrow> real \<Rightarrow> MinCut \<Rightarrow> nat" where
  "stored_rating view balance c = num_edges c * nat \<lfloor>get_balance view balance (num_nodes_source c)\<rfloor>"

definition cut_fits :: "BisectionGraphView \<Rightarrow> MinCut \<Rightarrow> bool" where
  "cut_fits view c \<longleftrightarrow> num_nodes_source c \<le> bv_NumberOfNodes view \<and>
     num_edges c * bv_NumberOfNodes view < 2 ^ 64 - 1"

lemma cut_fits_rating:
  assumes "2 \<le> bv_NumberOfNodes view" "1 \<le> balance" "cut_fits view c"
  shows "real (stored_rating view balance c) \<le> rating view balance c" "rating view balance c < 2 ^ 64 - 1"
    "stored_rating view balance c < 2 ^ 64"
proof -
  let ?b = "get_balance view balance (num_nodes_source c)" and ?N = "bv_NumberOfNodes view"
  have b: "1 \<le> ?b" "?b \<le> real ?N" using get_balance_bounds [OF assms(1,2)] assms(3) by (auto simp: cut_fits_def)
  then have "real (nat \<lfloor>?b\<rfloor>) \<le> ?b" by linarith
  then show le: "real (stored_rating view balance c) \<le> rating view balance c"
    unfolding stored_rating_def rating_def by (simp add: mult_left_mono)
  have "rating view balance c \<le> real (num_edges c * ?N)" using b unfolding rating_def by (simp add: mult_left_mono)
  moreover have "real (num_edges c * ?N) < 2 ^ 64 - 1"
  proof -
    have "num_edges c * ?N + 1 < 2 ^ 64" using assms(3) by (simp add: cut_fits_def)
    then have "real (num_edges c * ?N + 1) < real (2 ^ 64)" by (simp only: of_nat_less_iff)
    then show ?thesis by simp
  qed
  ultimately show lt: "rating view balance c < 2 ^ 64 - 1" by linarith
  then have "real (stored_rating view balance c) < real (2 ^ 64)" using le by simp
  then show "stored_rating view balance c < 2 ^ 64" by (simp only: of_nat_less_iff)
qed

text \<open>
  The best so far is the cut of a round, its truncated rating is stored, and that is at most the
  rating of every round so far.
\<close>

definition best_inv :: "BisectionGraphView \<Rightarrow> real \<Rightarrow> MinCut list \<Rightarrow> nat \<times> MinCut \<Rightarrow> bool" where
  "best_inv view balance cuts = (\<lambda>(best_balance, best).
     if cuts = [] then (best_balance, best) = (1, no_cut)
     else best \<in> set cuts \<and> best_balance = nat \<lfloor>get_balance view balance (num_nodes_source best)\<rfloor> \<and>
       (\<forall>c \<in> set cuts. real (stored_rating view balance best) \<le> rating view balance c))"

lemma better_cut_inv:
  assumes "2 \<le> bv_NumberOfNodes view" "1 \<le> balance" "\<forall>c \<in> set (c' # cuts). cut_fits view c"
    and "best_inv view balance cuts s"
  shows "best_inv view balance (c' # cuts) (better_cut view balance c' s)"
proof -
  obtain bb best where s: "s = (bb, best)" by (cases s)
  note fits = cut_fits_rating [OF assms(1,2)]
  have c': "real (stored_rating view balance c') \<le> rating view balance c'" "rating view balance c' < 2 ^ 64 - 1"
    using fits [of c'] assms(3) by simp_all
  let ?gb = "\<lambda>c. get_balance view balance (num_nodes_source c)"
  let ?new = "real (num_edges c') * ?gb c' < real ((num_edges best * bb) mod 2 ^ 64) \<or>
    num_edges c' = num_edges best \<and> balance_delta view (num_nodes_source c') < balance_delta view (num_nodes_source best)"
  have step: "better_cut view balance c' s = (if ?new then (nat \<lfloor>?gb c'\<rfloor>, c') else (bb, best))"
    by (simp only: better_cut_def s prod.case Let_def)
  show ?thesis
  proof (cases "cuts = []")
    case True
    then have "bb = 1" "best = no_cut" using assms(4) s by (simp_all add: best_inv_def)
    then have "real ((num_edges best * bb) mod 2 ^ 64) = 2 ^ 64 - 1" by (simp add: no_cut_def)
    then have new: ?new using c'(2) by (simp add: rating_def)
    show ?thesis unfolding step if_P [OF new] using True c'(1) by (simp add: best_inv_def)
  next
    case False
    then have inv: "best \<in> set cuts" "bb = nat \<lfloor>?gb best\<rfloor>"
      "\<forall>c \<in> set cuts. real (stored_rating view balance best) \<le> rating view balance c"
      using assms(4) s by (simp_all add: best_inv_def)
    have "stored_rating view balance best < 2 ^ 64" using fits(3) assms(3) inv(1) by simp
    then have old: "(num_edges best * bb) mod 2 ^ 64 = stored_rating view balance best"
      unfolding inv(2) stored_rating_def by (rule mod_less)
    show ?thesis
    proof (cases ?new)
      case True
      have "real (stored_rating view balance c') \<le> real (stored_rating view balance best)"
        using True
      proof
        assume "real (num_edges c') * ?gb c' < real ((num_edges best * bb) mod 2 ^ 64)"
        then show ?thesis using c'(1) unfolding old rating_def by linarith
      next
        assume e: "num_edges c' = num_edges best \<and> balance_delta view (num_nodes_source c') < balance_delta view (num_nodes_source best)"
        then have "nat \<lfloor>?gb c'\<rfloor> \<le> nat \<lfloor>?gb best\<rfloor>" using get_balance_mono [OF assms(1,2)] by (intro nat_mono floor_mono) simp
        then show ?thesis using e unfolding stored_rating_def by (simp add: mult_left_mono)
      qed
      then have "\<forall>c \<in> set (c' # cuts). real (stored_rating view balance c') \<le> rating view balance c"
        using inv(3) c'(1) by fastforce
      then show ?thesis unfolding step if_P [OF True] by (simp add: best_inv_def)
    next
      case no: False
      then have "real (stored_rating view balance best) \<le> rating view balance c'"
        unfolding old rating_def by linarith
      then show ?thesis unfolding step if_not_P [OF no] using inv False by (simp add: best_inv_def)
    qed
  qed
qed

lemma cut_rounds_spec:
  assumes "2 \<le> bv_NumberOfNodes view" "1 \<le> balance"
    and "\<And>r. r \<in> set rounds \<Longrightarrow> round_cut nth_elem hash_order view n ratio r = Some (f r) \<and> cut_fits view (f r)"
    and "\<forall>c \<in> set cuts. cut_fits view c" "best_inv view balance cuts s" "rounds \<noteq> [] \<or> cuts \<noteq> []"
  shows "\<exists>best. cut_rounds nth_elem hash_order view n ratio balance rounds s = Some best \<and>
    best \<in> set cuts \<union> f ` set rounds \<and>
    (\<forall>c \<in> set cuts \<union> f ` set rounds. real (stored_rating view balance best) \<le> rating view balance c)"
  using assms(3-)
proof (induction rounds arbitrary: cuts s)
  case Nil
  obtain bb best where "s = (bb, best)" by (cases s)
  then show ?case using Nil by (auto simp: best_inv_def)
next
  case (Cons r rounds)
  have r: "round_cut nth_elem hash_order view n ratio r = Some (f r)" "cut_fits view (f r)" using Cons.prems(1) by simp_all
  have fit: "\<forall>c \<in> set (f r # cuts). cut_fits view c" using r(2) Cons.prems(2) by simp
  from Cons.IH [OF _ fit better_cut_inv [OF assms(1,2) fit Cons.prems(3)]] Cons.prems(1)
  obtain best where "cut_rounds nth_elem hash_order view n ratio balance rounds (better_cut view balance (f r) s) = Some best"
    "best \<in> set (f r # cuts) \<union> f ` set rounds"
    "\<forall>c \<in> set (f r # cuts) \<union> f ` set rounds. real (stored_rating view balance best) \<le> rating view balance c" by auto
  moreover have "set (f r # cuts) \<union> f ` set rounds = set cuts \<union> f ` set (r # rounds)" by auto
  moreover have "cut_rounds nth_elem hash_order view n ratio balance (r # rounds) s =
      cut_rounds nth_elem hash_order view n ratio balance rounds (better_cut view balance (f r) s)"
    using r(1) by (cases s) simp
  ultimately show ?case by (simp only:) blast
qed

section \<open>Every round\<close>

text \<open>The number of edge entries of a view bounds every cut.\<close>

definition num_arcs :: "BisectionGraphView \<Rightarrow> nat" where
  "num_arcs view = sum_list (map (\<lambda>u. length (bv_Edges view u)) [0..<bv_NumberOfNodes view])"

lemma card_crossing_le: "card (crossing view R) \<le> num_arcs view"
proof -
  let ?N = "bv_NumberOfNodes view"
  have sub: "crossing view R \<subseteq> (SIGMA u : {..<?N}. set (bv_Edges view u))" by (auto simp: crossing_def)
  then have "card (crossing view R) \<le> card (SIGMA u : {..<?N}. set (bv_Edges view u))" by (intro card_mono) auto
  also have "\<dots> = (\<Sum>u < ?N. card (set (bv_Edges view u)))" by simp
  also have "\<dots> \<le> (\<Sum>u < ?N. length (bv_Edges view u))" by (intro sum_mono card_length)
  also have "\<dots> = num_arcs view" by (simp add: num_arcs_def sum_list_distinct_conv_sum_set atLeast0LessThan)
  finally show ?thesis .
qed

lemma validate_disjoint:
  assumes "set S \<subseteq> {..<bv_NumberOfNodes view}" "set T \<subseteq> {..<bv_NumberOfNodes view}" "set S \<inter> set T = {}"
  shows "Validate view S T"
proof -
  have "\<forall>v \<in> set S. v < bv_NumberOfNodes view" "\<forall>v \<in> set T. v < bv_NumberOfNodes view" using assms by auto
  then show ?thesis using assms(3) unfolding Validate_def list_ex_iff by (meson disjoint_iff not_le)
qed

lemma round_cut_spec:
  assumes ok: "nth_element_ok nth_elem" "hash_order_ok hash_order" and ratio: "0 \<le> ratio" "ratio \<le> 1 / 2"
    and und: "undirected view" and small: "bv_NumberOfNodes view < INVALID_LEVEL"
    and arcs: "num_arcs view * bv_NumberOfNodes view < 2 ^ 64 - 1"
  shows "\<exists>c. round_cut nth_elem hash_order view n ratio r = Some c \<and> cut_fits view c \<and>
    length (flags c) = bv_NumberOfNodes view"
proof -
  define slope where "slope = - 1 + real r * (2 / real n)"
  define order where "order = makeSpatialOrder nth_elem hash_order view ratio slope"
  note o = spatial_order_spec [OF ok ratio, where view = view and slope = slope, folded order_def]
  have "Validate view (sources order) (sinks order)"
    by (rule validate_disjoint [OF o(5-7)])
  from DinicMaxFlow_spec [OF und this small] obtain c R where
    c: "DinicMaxFlow view (sources order) (sinks order) = Some c" "R = {v. v < bv_NumberOfNodes view \<and> flags c ! v}"
    "length (flags c) = bv_NumberOfNodes view" "num_nodes_source c = card R" "num_edges c = card (crossing view R)"
    by (elim exE conjE) (rule that)
  have "R \<subseteq> {..<bv_NumberOfNodes view}" unfolding c(2) by blast
  then have "num_nodes_source c \<le> bv_NumberOfNodes view" using c(4) card_mono [of "{..<bv_NumberOfNodes view}" R] by simp
  moreover have "num_edges c * bv_NumberOfNodes view \<le> num_arcs view * bv_NumberOfNodes view"
    using card_crossing_le [of view R] c(5) by (intro mult_le_mono1) simp
  ultimately have "cut_fits view c" using arcs unfolding cut_fits_def by linarith
  moreover have "round_cut nth_elem hash_order view n ratio r = Some c"
    using c(1) by (simp only: round_cut_def Let_def order_def slope_def)
  ultimately show ?thesis using c(3) by blast
qed

lemma computeInertialFlowCut_spec:
  assumes "nth_element_ok nth_elem" "hash_order_ok hash_order" "0 \<le> ratio" "ratio \<le> 1 / 2" "1 \<le> balance"
    and "undirected view" "2 \<le> bv_NumberOfNodes view" "bv_NumberOfNodes view < INVALID_LEVEL"
    and "num_arcs view * bv_NumberOfNodes view < 2 ^ 64 - 1" "rounds \<noteq> []"
  shows "\<exists>best r. computeInertialFlowCut nth_elem hash_order rounds view n balance ratio = Some best \<and>
    r \<in> set rounds \<and> round_cut nth_elem hash_order view n ratio r = Some best \<and>
    length (flags best) = bv_NumberOfNodes view \<and>
    (\<forall>r' \<in> set rounds. \<exists>c. round_cut nth_elem hash_order view n ratio r' = Some c \<and>
       real (stored_rating view balance best) \<le> rating view balance c)"
proof -
  have "\<exists>f. \<forall>r. round_cut nth_elem hash_order view n ratio r = Some (f r) \<and> cut_fits view (f r) \<and>
      length (flags (f r)) = bv_NumberOfNodes view"
    using round_cut_spec [OF assms(1-4,6,8,9)] by (intro choice allI)
  then obtain f where f: "\<And>r. round_cut nth_elem hash_order view n ratio r = Some (f r)"
    "\<And>r. cut_fits view (f r)" "\<And>r. length (flags (f r)) = bv_NumberOfNodes view" by blast
  have "best_inv view balance [] (1, no_cut)" by (simp add: best_inv_def)
  then have "\<exists>best. cut_rounds nth_elem hash_order view n ratio balance rounds (1, no_cut) = Some best \<and>
      best \<in> set [] \<union> f ` set rounds \<and>
      (\<forall>c \<in> set [] \<union> f ` set rounds. real (stored_rating view balance best) \<le> rating view balance c)"
    by (intro cut_rounds_spec [OF assms(7,5)]) (use f(1,2) assms(10) in simp_all)
  then show ?thesis using f(1,3) unfolding computeInertialFlowCut_def bestMinCut_def by auto
qed

text \<open>
  Spatial order.  For a ratio of at most one half the sources and the sinks are
  disjoint sets of \<open>ratio\<close> times the number of nodes; no node outside the sources lies before
  one of them along the slope, and none outside the sinks lies behind one of them.
\<close>

theorem makeSpatialOrder_correct:
  assumes "nth_element_ok nth_elem" "hash_order_ok hash_order" "0 \<le> ratio" "ratio \<le> 1 / 2"
    and "order = makeSpatialOrder nth_elem hash_order view ratio slope"
  shows "Validate view (sources order) (sinks order) \<and>
    length (sources order) = nat \<lfloor>ratio * real (bv_NumberOfNodes view)\<rfloor> \<and>
    length (sinks order) = nat \<lfloor>ratio * real (bv_NumberOfNodes view)\<rfloor> \<and>
    distinct (sources order) \<and> distinct (sinks order) \<and>
    (\<forall>v < bv_NumberOfNodes view. \<forall>s \<in> set (sources order). v \<in> set (sources order) \<or>
       node_project slope view s \<le> node_project slope view v) \<and>
    (\<forall>v < bv_NumberOfNodes view. \<forall>t \<in> set (sinks order). v \<in> set (sinks order) \<or>
       node_project slope view v \<le> node_project slope view t)"
proof -
  note o = spatial_order_spec [OF assms(1-4), where view = view and slope = slope, folded assms(5)]
  have "Validate view (sources order) (sinks order)"
    by (rule validate_disjoint [OF o(5-7)])
  then show ?thesis using o(1-4,8,9) by blast
qed

text \<open>
  Property C29. The best cut.  In whatever order the rounds finish, inertial flow returns the
  minimal cut of one of the rounds, and its number of edges times its truncated balance factor
  is at most the rating, edges times balance factor, of the cut of every round.
\<close>

theorem computeInertialFlowCut_correct:
  assumes "nth_element_ok nth_elem" "hash_order_ok hash_order" "0 \<le> ratio" "ratio \<le> 1 / 2" "1 \<le> balance"
    and "undirected view" "2 \<le> bv_NumberOfNodes view" "bv_NumberOfNodes view < INVALID_LEVEL"
    and "num_arcs view * bv_NumberOfNodes view < 2 ^ 64 - 1" "0 < n" "set rounds = {0..<n}"
  shows "\<exists>best r. computeInertialFlowCut nth_elem hash_order rounds view n balance ratio = Some best \<and>
    r < n \<and> round_cut nth_elem hash_order view n ratio r = Some best \<and>
    length (flags best) = bv_NumberOfNodes view \<and>
    (\<forall>r' < n. \<exists>c. round_cut nth_elem hash_order view n ratio r' = Some c \<and>
       real (num_edges best * nat \<lfloor>get_balance view balance (num_nodes_source best)\<rfloor>) \<le>
       real (num_edges c) * get_balance view balance (num_nodes_source c))"
proof -
  have "rounds \<noteq> []" using assms(10,11) by auto
  from computeInertialFlowCut_spec [OF assms(1-9) this, of n] obtain best r where
    "computeInertialFlowCut nth_elem hash_order rounds view n balance ratio = Some best"
    "r \<in> set rounds" "round_cut nth_elem hash_order view n ratio r = Some best" "length (flags best) = bv_NumberOfNodes view"
    "\<forall>r' \<in> set rounds. \<exists>c. round_cut nth_elem hash_order view n ratio r' = Some c \<and>
       real (stored_rating view balance best) \<le> rating view balance c" by blast
  then show ?thesis using assms(11) unfolding stored_rating_def rating_def by auto
qed

text \<open>Sorting by the comparator is one way to meet the guarantee.\<close>

definition cmp_sort :: "'a nth_element" where
  "cmp_sort cmp k xs = foldr (cmp_insort cmp) xs []"

lemma cmp_sort_ok: "nth_element_ok cmp_sort"
  unfolding nth_element_ok_def
proof (intro allI impI conjI)
  fix cmp :: "'a comparator" and k :: nat and xs :: "'a list"
  assume sw: "strict_weak cmp"
  show m: "mset (cmp_sort cmp k xs) = mset xs" unfolding cmp_sort_def by (induction xs) simp_all
  have srt: "sorted_wrt (\<lambda>a b. \<not> cmp b a) (cmp_sort cmp k xs)"
    unfolding cmp_sort_def by (induction xs) (simp_all add: sorted_cmp_insort [OF sw])
  fix i j assume ij: "i \<le> k" "k \<le> j" "j < length xs"
  have len: "length (cmp_sort cmp k xs) = length xs" using mset_eq_length [OF m] .
  show "\<not> cmp (cmp_sort cmp k xs ! j) (cmp_sort cmp k xs ! i)"
  proof (cases "i = j")
    case True
    then show ?thesis using sw unfolding strict_weak_def by blast
  next
    case False
    then show ?thesis using sorted_wrt_nth_less [OF srt, of i j] ij len by simp
  qed
qed

lemma rev_hash_order_ok: "hash_order_ok rev"
  by (simp add: hash_order_ok_def)

lemma makeSpatialOrder_correct_witness:
  "length (sources (makeSpatialOrder cmp_sort rev example_view (1 / 2) 1)) = 1 \<and>
   Validate example_view (sources (makeSpatialOrder cmp_sort rev example_view (1 / 2) 1))
     (sinks (makeSpatialOrder cmp_sort rev example_view (1 / 2) 1))"
  using makeSpatialOrder_correct [OF cmp_sort_ok rev_hash_order_ok, of "1 / 2" _ example_view 1, OF _ _ refl]
  by (simp add: example_view_edges)

lemma computeInertialFlowCut_correct_witness:
  "\<exists>best. computeInertialFlowCut cmp_sort rev [1, 0] example_view 2 (6 / 5) (1 / 4) = Some best \<and> length (flags best) = 3"
proof -
  have upt: "[0..<bv_NumberOfNodes example_view] = [0, 1, 2]" by (simp add: example_view_edges(1) upt_rec)
  have "num_arcs example_view = 4" unfolding num_arcs_def upt by (simp add: example_view_edges(2,4) example_view_edges(3) [simplified])
  then have "num_arcs example_view * bv_NumberOfNodes example_view < 2 ^ 64 - 1"
    "bv_NumberOfNodes example_view < INVALID_LEVEL" "2 \<le> bv_NumberOfNodes example_view"
    by (simp_all add: example_view_edges INVALID_LEVEL_def)
  moreover have "set [1, 0] = {0..<2 :: nat}" by auto
  ultimately show ?thesis
    using computeInertialFlowCut_correct [OF cmp_sort_ok rev_hash_order_ok, of "1 / 4" "6 / 5" example_view 2 "[1, 0]"]
      example_view_undirected by (auto simp: example_view_edges(1))
qed

end
