(* ===== verification/BisectionState.thy ===== *)
theory BisectionState
  imports "HOL-Library.Word" BisectionGraph
begin

text \<open>
  The state of the recursive bisection, \<^verbatim>\<open>src/partitioner/recursive_bisection_state.cpp\<close>, and
  the update of the graph it uses, \<^verbatim>\<open>RemoveEdges\<close> of
  \<^verbatim>\<open>include/partitioner/partition_graph.hpp\<close>.

  An iterator is an index of the array of nodes.  The partition by components,
  \<^verbatim>\<open>PrePartitionWithSCC\<close>, is in the theory \<open>ComponentPartition\<close>.
\<close>

unbundle bit_operations_syntax

section \<open>Definitions\<close>

type_synonym BisectionID = "32 word"

record RecursiveBisectionState =
  scc_levels :: nat
  bisection_graph :: BisectionGraph
  bisection_ids :: "BisectionID list"

definition RecursiveBisectionState_init :: "BisectionGraph \<Rightarrow> RecursiveBisectionState" where
  "RecursiveBisectionState_init g =
     \<lparr>scc_levels = 0, bisection_graph = g, bisection_ids = replicate (length (bg_nodes g)) 0\<rparr>"

definition GetBisectionID :: "RecursiveBisectionState \<Rightarrow> NodeID \<Rightarrow> BisectionID" where
  "GetBisectionID st node = bisection_ids st ! node"

text \<open>\<^verbatim>\<open>std::stable_partition\<close> of the range from \<open>b\<close> to \<open>e\<close>.\<close>

definition partition_range :: "('a \<Rightarrow> bool) \<Rightarrow> nat \<Rightarrow> nat \<Rightarrow> 'a list \<Rightarrow> 'a list" where
  "partition_range P b e xs =
     take b xs @ filter P (slice xs b e) @ filter (\<lambda>x. \<not> P x) (slice xs b e) @ drop e xs"

definition RemoveEdges :: "(NodeID \<Rightarrow> bool) \<Rightarrow> nat \<Rightarrow> BisectionGraph \<Rightarrow> BisectionGraph" where
  "RemoveEdges filtered n g =
     (let node = bg_nodes g ! n;
          edges' = partition_range (\<lambda>edge. \<not> filtered edge) (bn_edges_begin node) (bn_edges_end node) (bg_edges g);
          remaining_edges = length (filter (\<lambda>edge. \<not> filtered edge) (node_edges g node))
      in g\<lparr>bg_edges := edges', bg_nodes := (bg_nodes g)[n := node\<lparr>bn_edges_end := bn_edges_begin node + remaining_edges\<rparr>]\<rparr>)"

definition bisection_flag :: "nat \<Rightarrow> BisectionID" where
  "bisection_flag depth = push_bit (32 - depth - 1) 1"

fun set_flags :: "BisectionID \<Rightarrow> BisectionNode list \<Rightarrow> nat \<Rightarrow> bool list \<Rightarrow> BisectionID list \<Rightarrow> BisectionID list" where
  "set_flags flag [] nid sides ids = ids"
| "set_flags flag (node # nodes) nid sides ids =
     set_flags flag nodes (nid + 1) sides
       (if sides ! nid then ids[bn_original_id node := ids ! bn_original_id node OR flag] else ids)"

definition by_flag_bit :: "BisectionID \<Rightarrow> BisectionID list \<Rightarrow> BisectionNode \<Rightarrow> bool" where
  "by_flag_bit flag ids node \<longleftrightarrow> 0 = (ids ! bn_original_id node AND flag)"

fun node_mapping :: "(BisectionNode \<Rightarrow> bool) \<Rightarrow> BisectionNode list \<Rightarrow> nat \<Rightarrow> nat \<Rightarrow> NodeID list" where
  "node_mapping is_left [] lesser_id upper_id = []"
| "node_mapping is_left (node # nodes) lesser_id upper_id =
     (if is_left node then lesser_id # node_mapping is_left nodes (lesser_id + 1) upper_id
      else upper_id # node_mapping is_left nodes lesser_id (upper_id + 1))"

text \<open>The edges of the node \<open>n\<close> of a range that begins at \<open>b\<close>: those to the other side go.\<close>

definition remove_crossing :: "(BisectionNode \<Rightarrow> bool) \<Rightarrow> nat \<Rightarrow> nat \<Rightarrow> BisectionGraph \<Rightarrow> BisectionGraph" where
  "remove_crossing is_left b n g =
     RemoveEdges (\<lambda>target. is_left (bg_nodes g ! n) \<noteq> is_left (bg_nodes g ! (b + target))) n g"

definition remap_edges :: "NodeID list \<Rightarrow> BisectionNode \<Rightarrow> NodeID list \<Rightarrow> NodeID list" where
  "remap_edges mapping node edges =
     fold (\<lambda>i es. es[i := mapping ! (es ! i)]) [bn_edges_begin node..<bn_edges_end node] edges"

text \<open>The graph part: erase the edges between the sides, reorder the nodes, relabel the edges.\<close>

definition split_graph :: "(BisectionNode \<Rightarrow> bool) \<Rightarrow> nat \<Rightarrow> nat \<Rightarrow> BisectionGraph \<Rightarrow> BisectionGraph \<times> nat" where
  "split_graph is_left b e g =
     (let mapping = node_mapping is_left (slice (bg_nodes g) b e) 0 0;
          g1 = fold (remove_crossing is_left b) [b..<e] g;
          center = b + length (filter is_left (slice (bg_nodes g1) b e));
          g2 = g1\<lparr>bg_nodes := partition_range is_left b e (bg_nodes g1)\<rparr>;
          g3 = g2\<lparr>bg_edges := fold (remap_edges mapping) (slice (bg_nodes g2) b e) (bg_edges g2)\<rparr>
      in (g3, center))"

definition ApplyBisection ::
  "RecursiveBisectionState \<Rightarrow> nat \<Rightarrow> nat \<Rightarrow> nat \<Rightarrow> bool list \<Rightarrow> RecursiveBisectionState \<times> nat" where
  "ApplyBisection st b e depth sides =
     (let g = bisection_graph st;
          flag = bisection_flag depth;
          ids = set_flags flag (slice (bg_nodes g) b e) 0 sides (bisection_ids st);
          (g', center) = split_graph (by_flag_bit flag ids) b e g
      in (st\<lparr>bisection_graph := g', bisection_ids := ids\<rparr>, center))"

section \<open>Invariants and the abstract view\<close>

definition edge_range :: "BisectionNode \<Rightarrow> nat set" where
  "edge_range n = {bn_edges_begin n..<bn_edges_end n}"

definition graph_ok :: "BisectionGraph \<Rightarrow> bool" where
  "graph_ok g \<longleftrightarrow> (\<forall>n \<in> set (bg_nodes g). bn_edges_begin n \<le> bn_edges_end n \<and> bn_edges_end n \<le> length (bg_edges g)) \<and>
     sorted_wrt (\<lambda>m n. edge_range m \<inter> edge_range n = {}) (bg_nodes g) \<and> distinct (map bn_original_id (bg_nodes g))"

definition view_ok :: "BisectionGraph \<Rightarrow> nat \<Rightarrow> nat \<Rightarrow> bool" where
  "view_ok g b e \<longleftrightarrow> b \<le> e \<and> e \<le> length (bg_nodes g) \<and>
     (\<forall>i. b \<le> i \<longrightarrow> i < e \<longrightarrow> (\<forall>t \<in> set (node_edges g (bg_nodes g ! i)). t < e - b))"

text \<open>What a view says of the graph: per node the original id, the coordinate and the original
  ids of the neighbours.\<close>

type_synonym view_node = "NodeID \<times> (int \<times> int) \<times> NodeID list"

definition node_view :: "BisectionGraph \<Rightarrow> nat \<Rightarrow> BisectionNode \<Rightarrow> view_node" where
  "node_view g b n = (bn_original_id n, bn_coordinate n,
     map (\<lambda>t. bn_original_id (bg_nodes g ! (b + t))) (node_edges g n))"

definition abs_view :: "BisectionGraph \<Rightarrow> nat \<Rightarrow> nat \<Rightarrow> view_node list" where
  "abs_view g b e = map (node_view g b) (slice (bg_nodes g) b e)"

text \<open>The part of a view that lies in a set of nodes.\<close>

definition restrict_view :: "NodeID set \<Rightarrow> view_node list \<Rightarrow> view_node list" where
  "restrict_view S V = map (\<lambda>(v, c, adj). (v, c, filter (\<lambda>t. t \<in> S) adj)) (filter (\<lambda>(v, c, adj). v \<in> S) V)"

section \<open>Flags\<close>

lemma length_set_flags [simp]: "length (set_flags flag nodes k sides ids) = length ids"
  by (induction nodes arbitrary: k ids) simp_all

lemma set_flags_other:
  "v \<notin> bn_original_id ` set nodes \<Longrightarrow> set_flags flag nodes k sides ids ! v = ids ! v"
  by (induction nodes arbitrary: k ids) simp_all

lemma set_flags_nth:
  "distinct (map bn_original_id nodes) \<Longrightarrow> \<forall>n \<in> set nodes. bn_original_id n < length ids \<Longrightarrow> i < length nodes \<Longrightarrow>
   set_flags flag nodes k sides ids ! bn_original_id (nodes ! i) =
     (if sides ! (k + i) then ids ! bn_original_id (nodes ! i) OR flag else ids ! bn_original_id (nodes ! i))"
proof (induction nodes arbitrary: k ids i)
  case (Cons n ns)
  let ?ids = "if sides ! k then ids[bn_original_id n := ids ! bn_original_id n OR flag] else ids"
  have n: "bn_original_id n \<notin> bn_original_id ` set ns" "bn_original_id n < length ids" using Cons.prems by simp_all
  show ?case
  proof (cases i)
    case 0
    then show ?thesis using n by (simp add: set_flags_other)
  next
    case (Suc j)
    then have j: "j < length ns" using Cons.prems(3) by simp
    then have "bn_original_id (ns ! j) \<noteq> bn_original_id n" using n(1) by (metis imageI nth_mem)
    then have "?ids ! bn_original_id (ns ! j) = ids ! bn_original_id (ns ! j)" by simp
    moreover have "set_flags flag ns (k + 1) sides ?ids ! bn_original_id (ns ! j) =
        (if sides ! (k + 1 + j) then ?ids ! bn_original_id (ns ! j) OR flag else ?ids ! bn_original_id (ns ! j))"
      using Cons.prems j by (intro Cons.IH) simp_all
    ultimately show ?thesis using Suc by simp
  qed
qed simp

lemma bisection_flag_nonzero: "depth < 32 \<Longrightarrow> bisection_flag depth \<noteq> 0"
  by (simp add: bisection_flag_def push_bit_of_1 exp_eq_zero_iff)

lemma or_flag_and: "(x OR f) AND f = (f :: 'a::len word)"
  by (rule bit_word_eqI) (auto simp: bit_simps)

text \<open>On a range whose flags were clear, the flag of a node is what the partition says.\<close>

lemma by_flag_bit_set_flags:
  assumes "distinct (map bn_original_id nodes)" "\<forall>n \<in> set nodes. bn_original_id n < length ids"
    and "\<forall>n \<in> set nodes. ids ! bn_original_id n AND bisection_flag depth = 0" "depth < 32" "i < length nodes"
  shows "by_flag_bit (bisection_flag depth) (set_flags (bisection_flag depth) nodes 0 sides ids) (nodes ! i) \<longleftrightarrow> \<not> sides ! i"
  using set_flags_nth [OF assms(1,2,5), of "bisection_flag depth" 0 sides] assms(3,5) bisection_flag_nonzero [OF assms(4)]
  by (auto simp: by_flag_bit_def or_flag_and)

section \<open>Removing edges\<close>

lemma length_partition_range [simp]:
  assumes "b \<le> e" "e \<le> length xs"
  shows "length (partition_range P b e xs) = length xs"
  using assms sum_length_filter_compl [of P "slice xs b e"] by (simp add: partition_range_def)

lemma partition_range_outside:
  assumes "b \<le> e" "e \<le> length xs" "i < b \<or> e \<le> i"
  shows "partition_range P b e xs ! i = xs ! i"
proof -
  have "length (filter P (slice xs b e)) + length (filter (\<lambda>x. \<not> P x) (slice xs b e)) = e - b"
    using sum_length_filter_compl [of P "slice xs b e"] by simp
  then have len: "length (take b xs @ filter P (slice xs b e) @ filter (\<lambda>x. \<not> P x) (slice xs b e)) = e"
    using assms(1,2) by simp
  show ?thesis
  proof (cases "i < b")
    case True
    then show ?thesis using assms by (simp add: partition_range_def nth_append)
  next
    case False
    then have "e \<le> i" using assms(3) by simp
    moreover have "partition_range P b e xs = (take b xs @ filter P (slice xs b e) @ filter (\<lambda>x. \<not> P x) (slice xs b e)) @ drop e xs"
      by (simp add: partition_range_def)
    ultimately show ?thesis using len assms(2) by (simp only: nth_append len) simp
  qed
qed

lemma slice_partition_range:
  fixes P :: "'a \<Rightarrow> bool"
  assumes "b \<le> e" "e \<le> length xs"
  defines "c \<equiv> b + length (filter P (slice xs b e))"
  shows "slice (partition_range P b e xs) b c = filter P (slice xs b e)"
    and "slice (partition_range P b e xs) c e = filter (\<lambda>x. \<not> P x) (slice xs b e)"
    and "b \<le> c" "c \<le> e"
proof -
  let ?l = "filter P (slice xs b e)" and ?r = "filter (\<lambda>x. \<not> P x) (slice xs b e)"
  have len: "length ?l + length ?r = e - b" using sum_length_filter_compl [of P "slice xs b e"] by simp
  then show "b \<le> c" "c \<le> e" using assms by (simp_all add: c_def)
  have b: "length (take b xs) = b" using assms by simp
  have "slice (take b xs @ ?l @ ?r @ drop e xs) (length (take b xs)) (length (take b xs) + length ?l) = ?l"
    by (rule slice_middle)
  then show "slice (partition_range P b e xs) b c = ?l" unfolding b partition_range_def c_def .
  have "slice ((take b xs @ ?l) @ ?r @ drop e xs) (length (take b xs @ ?l)) (length (take b xs @ ?l) + length ?r) = ?r"
    by (rule slice_middle)
  moreover have "length (take b xs @ ?l) = c" "length (take b xs @ ?l) + length ?r = e"
    using b len assms(1) by (simp_all add: c_def)
  ultimately show "slice (partition_range P b e xs) c e = ?r" unfolding partition_range_def by simp
qed

lemma graph_okD:
  assumes "graph_ok g" "n < length (bg_nodes g)"
  shows "bn_edges_begin (bg_nodes g ! n) \<le> bn_edges_end (bg_nodes g ! n)"
    "bn_edges_end (bg_nodes g ! n) \<le> length (bg_edges g)"
    "m < length (bg_nodes g) \<Longrightarrow> m \<noteq> n \<Longrightarrow> edge_range (bg_nodes g ! m) \<inter> edge_range (bg_nodes g ! n) = {}"
    "m < length (bg_nodes g) \<Longrightarrow> bn_original_id (bg_nodes g ! m) = bn_original_id (bg_nodes g ! n) \<Longrightarrow> m = n"
proof -
  show "bn_edges_begin (bg_nodes g ! n) \<le> bn_edges_end (bg_nodes g ! n)"
    "bn_edges_end (bg_nodes g ! n) \<le> length (bg_edges g)"
    using assms by (simp_all add: graph_ok_def)
  have srt: "sorted_wrt (\<lambda>m n. edge_range m \<inter> edge_range n = {}) (bg_nodes g)" using assms by (simp add: graph_ok_def)
  show "m < length (bg_nodes g) \<Longrightarrow> m \<noteq> n \<Longrightarrow> edge_range (bg_nodes g ! m) \<inter> edge_range (bg_nodes g ! n) = {}"
    using sorted_wrt_nth_less [OF srt] assms(2) by (metis Int_commute linorder_neqE_nat)
  show "m < length (bg_nodes g) \<Longrightarrow> bn_original_id (bg_nodes g ! m) = bn_original_id (bg_nodes g ! n) \<Longrightarrow> m = n"
    using assms distinct_conv_nth [of "map bn_original_id (bg_nodes g)"] by (auto simp: graph_ok_def)
qed

lemma graph_okI:
  assumes "\<And>n. n < length (bg_nodes g) \<Longrightarrow>
      bn_edges_begin (bg_nodes g ! n) \<le> bn_edges_end (bg_nodes g ! n) \<and> bn_edges_end (bg_nodes g ! n) \<le> length (bg_edges g)"
    and "\<And>m n. m < n \<Longrightarrow> n < length (bg_nodes g) \<Longrightarrow> edge_range (bg_nodes g ! m) \<inter> edge_range (bg_nodes g ! n) = {}"
    and "distinct (map bn_original_id (bg_nodes g))"
  shows "graph_ok g"
  using assms unfolding graph_ok_def sorted_wrt_iff_nth_less by (auto simp: all_set_conv_all_nth)

lemma RemoveEdges_spec:
  fixes F :: "NodeID \<Rightarrow> bool"
  assumes ok: "graph_ok g" and n: "n < length (bg_nodes g)"
  defines "g' \<equiv> RemoveEdges F n g" and "node \<equiv> bg_nodes g ! n"
  shows "bg_nodes g' = (bg_nodes g)[n := node\<lparr>bn_edges_end := bn_edges_begin node + length (filter (\<lambda>t. \<not> F t) (node_edges g node))\<rparr>]"
    and "length (bg_edges g') = length (bg_edges g)"
    and "node_edges g' (bg_nodes g' ! n) = filter (\<lambda>t. \<not> F t) (node_edges g node)"
    and "m < length (bg_nodes g) \<Longrightarrow> m \<noteq> n \<Longrightarrow> node_edges g' (bg_nodes g' ! m) = node_edges g (bg_nodes g ! m)"
    and "graph_ok g'"
proof -
  note o = graph_okD [OF ok n, folded node_def]
  show nodes: "bg_nodes g' = (bg_nodes g)[n := node\<lparr>bn_edges_end := bn_edges_begin node + length (filter (\<lambda>t. \<not> F t) (node_edges g node))\<rparr>]"
    by (simp add: g'_def RemoveEdges_def node_def Let_def)
  have edges: "bg_edges g' = partition_range (\<lambda>t. \<not> F t) (bn_edges_begin node) (bn_edges_end node) (bg_edges g)"
    by (simp add: g'_def RemoveEdges_def node_def Let_def)
  then show len: "length (bg_edges g') = length (bg_edges g)" using o(1,2) by simp
  note sp = slice_partition_range [OF o(1,2), of "\<lambda>t. \<not> F t", folded edges node_edges_def]
  show "node_edges g' (bg_nodes g' ! n) = filter (\<lambda>t. \<not> F t) (node_edges g node)"
    using sp(1) n by (simp add: nodes node_edges_def)
  have other: "bg_nodes g' ! m = bg_nodes g ! m" if "m \<noteq> n" for m using that by (simp add: nodes)
  show "node_edges g' (bg_nodes g' ! m) = node_edges g (bg_nodes g ! m)" if m: "m < length (bg_nodes g)" "m \<noteq> n"
  proof -
    have "bg_edges g' ! i = bg_edges g ! i" if "i \<in> edge_range (bg_nodes g ! m)" for i
    proof -
      have "i \<notin> edge_range node" using that o(3) [OF m] by blast
      then have "i < bn_edges_begin node \<or> bn_edges_end node \<le> i" by (auto simp: edge_range_def)
      then show ?thesis unfolding edges by (rule partition_range_outside [OF o(1,2)])
    qed
    then show ?thesis unfolding other [OF m(2)] node_edges_def by (intro slice_cong) (simp add: edge_range_def)
  qed
  have sub: "edge_range (bg_nodes g' ! m) \<subseteq> edge_range (bg_nodes g ! m)" if "m < length (bg_nodes g)" for m
    using that sp(4) by (cases "m = n") (auto simp: nodes edge_range_def node_def node_edges_def)
  show "graph_ok g'"
  proof (rule graph_okI)
    show "bn_edges_begin (bg_nodes g' ! m) \<le> bn_edges_end (bg_nodes g' ! m) \<and> bn_edges_end (bg_nodes g' ! m) \<le> length (bg_edges g')"
      if "m < length (bg_nodes g')" for m
      using that graph_okD(1,2) [OF ok, of m] sp(3,4) o(2) len by (cases "m = n") (auto simp: nodes node_edges_def)
    show "edge_range (bg_nodes g' ! k) \<inter> edge_range (bg_nodes g' ! m) = {}" if "k < m" "m < length (bg_nodes g')" for k m
      using that sub [of k] sub [of m] graph_okD(3) [OF ok, of m k] by (auto simp: nodes)
    have "map bn_original_id (bg_nodes g') = map bn_original_id (bg_nodes g)"
      by (rule nth_equalityI) (simp_all add: nodes nth_list_update_in node_def)
    then show "distinct (map bn_original_id (bg_nodes g'))" using ok by (simp add: graph_ok_def)
  qed
qed

text \<open>What is the same after the removal: everything of the nodes but the end of their edges.\<close>

definition same_nodes :: "BisectionGraph \<Rightarrow> BisectionGraph \<Rightarrow> bool" where
  "same_nodes g g' \<longleftrightarrow> length (bg_nodes g') = length (bg_nodes g) \<and> length (bg_edges g') = length (bg_edges g) \<and>
     (\<forall>m < length (bg_nodes g). bn_original_id (bg_nodes g' ! m) = bn_original_id (bg_nodes g ! m) \<and>
        bn_coordinate (bg_nodes g' ! m) = bn_coordinate (bg_nodes g ! m))"

lemma same_nodes_RemoveEdges: "graph_ok g \<Longrightarrow> n < length (bg_nodes g) \<Longrightarrow> same_nodes g (RemoveEdges F n g)"
  by (simp add: same_nodes_def RemoveEdges_spec(1,2) nth_list_update_in)

lemma same_nodes_trans: "same_nodes g g' \<Longrightarrow> same_nodes g' g'' \<Longrightarrow> same_nodes g g''"
  by (simp add: same_nodes_def)

lemma remove_crossing_fold:
  assumes "graph_ok g" "e \<le> length (bg_nodes g)" "b \<le> e"
    and side: "\<And>m n. bn_original_id m = bn_original_id n \<Longrightarrow> is_left m = is_left n"
    and targets: "\<And>i t. b \<le> i \<Longrightarrow> i < e \<Longrightarrow> t \<in> set (node_edges g (bg_nodes g ! i)) \<Longrightarrow> b + t < length (bg_nodes g)"
  defines "r \<equiv> fold (remove_crossing is_left b) [b..<e] g"
  shows "graph_ok r \<and> same_nodes g r \<and>
    (\<forall>m < length (bg_nodes g). m < b \<or> e \<le> m \<longrightarrow> bg_nodes r ! m = bg_nodes g ! m \<and> node_edges r (bg_nodes r ! m) = node_edges g (bg_nodes g ! m)) \<and>
    (\<forall>m. b \<le> m \<longrightarrow> m < e \<longrightarrow> node_edges r (bg_nodes r ! m) =
       filter (\<lambda>t. is_left (bg_nodes g ! (b + t)) = is_left (bg_nodes g ! m)) (node_edges g (bg_nodes g ! m)))"
  using assms(2,3) targets unfolding r_def
proof (induction e)
  case 0
  then show ?case using assms(1) by (simp add: same_nodes_def)
next
  case (Suc e)
  show ?case
  proof (cases "b = Suc e")
    case True
    then show ?thesis using assms(1) by (simp add: same_nodes_def)
  next
    case False
    let ?s = "fold (remove_crossing is_left b) [b..<e] g"
    have ih: "graph_ok ?s" "same_nodes g ?s"
      "\<forall>m < length (bg_nodes g). m < b \<or> e \<le> m \<longrightarrow> bg_nodes ?s ! m = bg_nodes g ! m \<and> node_edges ?s (bg_nodes ?s ! m) = node_edges g (bg_nodes g ! m)"
      "\<forall>m. b \<le> m \<longrightarrow> m < e \<longrightarrow> node_edges ?s (bg_nodes ?s ! m) =
         filter (\<lambda>t. is_left (bg_nodes g ! (b + t)) = is_left (bg_nodes g ! m)) (node_edges g (bg_nodes g ! m))"
      using Suc.IH Suc.prems False by auto
    have e: "e < length (bg_nodes ?s)" "b \<le> e" using ih(2) Suc.prems(1,2) False by (auto simp: same_nodes_def)
    define F where "F = (\<lambda>target. is_left (bg_nodes ?s ! e) \<noteq> is_left (bg_nodes ?s ! (b + target)))"
    have step: "fold (remove_crossing is_left b) [b..<Suc e] g = RemoveEdges F e ?s"
      using e(2) by (simp add: remove_crossing_def F_def)
    note rem = RemoveEdges_spec [OF ih(1) e(1), where F = F]
    have len: "length (bg_nodes ?s) = length (bg_nodes g)" "length (bg_edges ?s) = length (bg_edges g)"
      using ih(2) by (simp_all add: same_nodes_def)
    have left: "is_left (bg_nodes ?s ! m) = is_left (bg_nodes g ! m)" if "m < length (bg_nodes g)" for m
      using ih(2) that by (intro side) (simp add: same_nodes_def)
    have edge_e: "node_edges ?s (bg_nodes ?s ! e) = node_edges g (bg_nodes g ! e)"
      using ih(3) e(1) len(1) by (metis order_refl)
    have here: "filter (\<lambda>t. \<not> F t) (node_edges ?s (bg_nodes ?s ! e)) =
        filter (\<lambda>t. is_left (bg_nodes g ! (b + t)) = is_left (bg_nodes g ! e)) (node_edges g (bg_nodes g ! e))"
      unfolding edge_e
    proof (rule filter_cong [OF refl])
      fix t assume "t \<in> set (node_edges g (bg_nodes g ! e))"
      then have "b + t < length (bg_nodes g)" using Suc.prems(3) e(2) by blast
      then show "(\<not> F t) = (is_left (bg_nodes g ! (b + t)) = is_left (bg_nodes g ! e))" using left e len by (auto simp: F_def)
    qed
    have same: "same_nodes g (RemoveEdges F e ?s)"
      by (rule same_nodes_trans [OF ih(2) same_nodes_RemoveEdges [OF ih(1) e(1)]])
    have other: "bg_nodes (RemoveEdges F e ?s) ! m = bg_nodes ?s ! m" if "m \<noteq> e" for m
      using that by (simp add: rem(1))
    show ?thesis unfolding step
    proof (intro conjI allI impI rem(5) same)
      fix m assume m: "m < length (bg_nodes g)" "m < b \<or> Suc e \<le> m"
      then have "m \<noteq> e" using e(2) by auto
      then show "bg_nodes (RemoveEdges F e ?s) ! m = bg_nodes g ! m"
        "node_edges (RemoveEdges F e ?s) (bg_nodes (RemoveEdges F e ?s) ! m) = node_edges g (bg_nodes g ! m)"
        using ih(3) m other rem(4) len by auto
    next
      fix m assume m: "b \<le> m" "m < Suc e"
      show "node_edges (RemoveEdges F e ?s) (bg_nodes (RemoveEdges F e ?s) ! m) =
        filter (\<lambda>t. is_left (bg_nodes g ! (b + t)) = is_left (bg_nodes g ! m)) (node_edges g (bg_nodes g ! m))"
      proof (cases "m = e")
        case True
        then show ?thesis using rem(3) here by simp
      next
        case False
        then show ?thesis using ih(4) rem(4) [of m] m e(1) by simp
      qed
    qed
  qed
qed

section \<open>New ids\<close>

lemma node_mapping_nth:
  "i < length ns \<Longrightarrow> node_mapping P ns l u ! i =
     (if P (ns ! i) then l + length (filter P (take i ns)) else u + length (filter (\<lambda>n. \<not> P n) (take i ns)))"
  by (induction ns arbitrary: i l u) (auto simp: nth_Cons split: nat.splits)

lemma node_mapping_cong: "map P ns = map P ms \<Longrightarrow> node_mapping P ns l u = node_mapping P ms l u"
proof (induction ns arbitrary: ms l u)
  case (Cons n ns)
  then obtain m ms' where "ms = m # ms'" "P n = P m" "map P ns = map P ms'" by (cases ms) auto
  then show ?case using Cons.IH by simp
qed simp

text \<open>The new id of a node is its index among the nodes of its side.\<close>

lemma filter_nth_rank:
  "i < length xs \<Longrightarrow> P (xs ! i) \<Longrightarrow>
   length (filter P (take i xs)) < length (filter P xs) \<and> filter P xs ! length (filter P (take i xs)) = xs ! i"
  by (induction xs arbitrary: i) (auto simp: nth_Cons split: nat.splits)

lemma node_mapping_side:
  assumes "i < length ns" "P (ns ! i) = s"
  shows "node_mapping P ns 0 0 ! i < length (filter (\<lambda>n. P n = s) ns)"
    and "filter (\<lambda>n. P n = s) ns ! (node_mapping P ns 0 0 ! i) = ns ! i"
  using filter_nth_rank [OF assms(1), of "\<lambda>n. P n = s"] assms by (cases s; simp add: node_mapping_nth)+

lemma remap_range:
  "length (fold (\<lambda>i es. es[i := f (es ! i)]) [b..<e] es) = length es \<and>
   (\<forall>i < length es. fold (\<lambda>i es. es[i := f (es ! i)]) [b..<e] es ! i = (if b \<le> i \<and> i < e then f (es ! i) else es ! i))"
proof (induction e)
  case (Suc e)
  then show ?case by (cases "b \<le> e") (auto simp: nth_list_update_in less_Suc_eq)
qed simp

lemma remap_edges_spec:
  "length (remap_edges M n es) = length es"
  "i < length es \<Longrightarrow> remap_edges M n es ! i = (if i \<in> edge_range n then M ! (es ! i) else es ! i)"
  using remap_range [of "(!) M" "bn_edges_begin n" "bn_edges_end n" es] by (auto simp: remap_edges_def edge_range_def)

lemma remap_all:
  assumes "sorted_wrt (\<lambda>m n. edge_range m \<inter> edge_range n = {}) ns"
  shows "length (fold (remap_edges M) ns es) = length es \<and>
    (\<forall>i < length es. fold (remap_edges M) ns es ! i =
       (if \<exists>n \<in> set ns. i \<in> edge_range n then M ! (es ! i) else es ! i))"
  using assms
proof (induction ns arbitrary: es)
  case (Cons n ns)
  have "\<not> (\<exists>m \<in> set ns. i \<in> edge_range m)" if "i \<in> edge_range n" for i using Cons.prems that by auto
  then show ?case using Cons.IH [of "remap_edges M n es"] Cons.prems by (auto simp: remap_edges_spec)
qed simp

lemma remap_all_node:
  fixes g :: BisectionGraph and M :: "NodeID list"
  assumes "sorted_wrt (\<lambda>m n. edge_range m \<inter> edge_range n = {}) ns" "bn_edges_end n \<le> length (bg_edges g)"
  defines "g' \<equiv> g\<lparr>bg_edges := fold (remap_edges M) ns (bg_edges g)\<rparr>"
  shows "n \<in> set ns \<Longrightarrow> node_edges g' n = map ((!) M) (node_edges g n)"
    and "\<forall>m \<in> set ns. edge_range m \<inter> edge_range n = {} \<Longrightarrow> node_edges g' n = node_edges g n"
proof -
  note r = remap_all [OF assms(1), of M "bg_edges g"]
  have i: "i < length (bg_edges g)" if "i \<in> edge_range n" for i using that assms(2) by (auto simp: edge_range_def)
  show "node_edges g' n = map ((!) M) (node_edges g n)" if n: "n \<in> set ns"
  proof -
    have "fold (remap_edges M) ns (bg_edges g) ! i = M ! (bg_edges g ! i)" if "i \<in> edge_range n" for i
      using r i [OF that] that n by auto
    then show ?thesis by (auto simp: g'_def node_edges_def slice_def edge_range_def)
  qed
  show "node_edges g' n = node_edges g n" if n: "\<forall>m \<in> set ns. edge_range m \<inter> edge_range n = {}"
  proof -
    have "fold (remap_edges M) ns (bg_edges g) ! i = bg_edges g ! i" if "i \<in> edge_range n" for i
      using r i [OF that] that n by (auto split: if_splits)
    then show ?thesis by (auto simp: g'_def node_edges_def slice_def edge_range_def)
  qed
qed

text \<open>Sorting the range by side keeps the edge ranges apart.\<close>

lemma sorted_wrt_partition:
  assumes sym: "\<And>x y. R x y \<Longrightarrow> R y x" and "sorted_wrt R xs"
  shows "sorted_wrt R (filter P xs @ filter (\<lambda>x. \<not> P x) xs)"
proof -
  have "R x y" if xy: "x \<in> set xs" "y \<in> set xs" "x \<noteq> y" for x y
  proof -
    obtain i j where ij: "i < length xs" "j < length xs" "xs ! i = x" "xs ! j = y" using xy by (metis in_set_conv_nth)
    then have "i \<noteq> j" using xy(3) by blast
    then consider "i < j" | "j < i" by linarith
    then show ?thesis
    proof cases
      case 1
      then show ?thesis using sorted_wrt_nth_less [OF assms(2) 1 ij(2)] ij by simp
    next
      case 2
      then show ?thesis using sym [OF sorted_wrt_nth_less [OF assms(2) 2 ij(1)]] ij by simp
    qed
  qed
  then have "R x y" if "x \<in> set (filter P xs)" "y \<in> set (filter (\<lambda>x. \<not> P x) xs)" for x y using that by auto
  then show ?thesis unfolding sorted_wrt_append using sorted_wrt_filter [OF assms(2)] by blast
qed

lemma sorted_wrt_partition_range:
  assumes sym: "\<And>x y. R x y \<Longrightarrow> R y x" and "sorted_wrt R xs" "b \<le> e" "e \<le> length xs"
  shows "sorted_wrt R (partition_range P b e xs)"
proof -
  have "sorted_wrt R (take b xs @ slice xs b e @ drop e xs)"
    using assms(2) slice_append_drop [OF assms(3,4)] by simp
  then have parts: "sorted_wrt R (take b xs)" "sorted_wrt R (slice xs b e)" "sorted_wrt R (drop e xs)"
    "\<forall>x \<in> set (take b xs). \<forall>y \<in> set (slice xs b e) \<union> set (drop e xs). R x y"
    "\<forall>x \<in> set (slice xs b e). \<forall>y \<in> set (drop e xs). R x y"
    by (simp_all add: sorted_wrt_append)
  have both: "set (filter P (slice xs b e) @ filter (\<lambda>x. \<not> P x) (slice xs b e)) = set (slice xs b e)" by auto
  have "sorted_wrt R ((filter P (slice xs b e) @ filter (\<lambda>x. \<not> P x) (slice xs b e)) @ drop e xs)"
    unfolding sorted_wrt_append [of R _ "drop e xs"] both using sorted_wrt_partition [OF sym parts(2)] parts(3,5) by blast
  then have "sorted_wrt R (take b xs @ (filter P (slice xs b e) @ filter (\<lambda>x. \<not> P x) (slice xs b e)) @ drop e xs)"
    unfolding sorted_wrt_append [of R "take b xs"] using parts(1,4) by auto
  then show ?thesis by (simp add: partition_range_def)
qed

lemma mset_partition_range:
  assumes "b \<le> e" "e \<le> length xs"
  shows "mset (partition_range P b e xs) = mset xs"
proof -
  have "mset (partition_range P b e xs) = mset (take b xs @ slice xs b e @ drop e xs)"
    using multiset_partition [of "mset (slice xs b e)" P] by (simp add: partition_range_def)
  then show ?thesis using slice_append_drop [OF assms] by simp
qed

section \<open>The split\<close>

lemma split_graph_spec:
  assumes ok: "graph_ok g" "view_ok g b e"
    and side_of: "\<forall>m n. bn_original_id m = bn_original_id n \<longrightarrow> is_left m = is_left n"
    and split: "split_graph is_left b e g = (g', c)"
  defines "g1 \<equiv> fold (remove_crossing is_left b) [b..<e] g"
  shows "b \<le> c" "c \<le> e" "graph_ok g'" "length (bg_nodes g') = length (bg_nodes g)"
    and "slice (bg_nodes g') b c = filter is_left (slice (bg_nodes g1) b e)"
    and "slice (bg_nodes g') c e = filter (\<lambda>n. \<not> is_left n) (slice (bg_nodes g1) b e)"
    and "\<And>i. b \<le> i \<Longrightarrow> i < e \<Longrightarrow> node_edges g' (bg_nodes g1 ! i) =
      map ((!) (node_mapping is_left (slice (bg_nodes g1) b e) 0 0))
        (filter (\<lambda>t. is_left (bg_nodes g ! (b + t)) = is_left (bg_nodes g ! i)) (node_edges g (bg_nodes g ! i)))"
    and "\<And>m. m < length (bg_nodes g) \<Longrightarrow> m < b \<or> e \<le> m \<Longrightarrow>
      bg_nodes g' ! m = bg_nodes g ! m \<and> node_edges g' (bg_nodes g ! m) = node_edges g (bg_nodes g ! m)"
    and "length (bg_edges g') = length (bg_edges g)"
    and "bn_original_id ` set (bg_nodes g') = bn_original_id ` set (bg_nodes g)"
proof -
  have side: "bn_original_id m = bn_original_id n \<Longrightarrow> is_left m = is_left n" for m n using side_of by blast
  have be: "b \<le> e" "e \<le> length (bg_nodes g)" using ok(2) by (simp_all add: view_ok_def)
  have targets: "b + t < length (bg_nodes g)" if "b \<le> i" "i < e" "t \<in> set (node_edges g (bg_nodes g ! i))" for i t
  proof -
    have "t < e - b" using ok(2) that by (simp add: view_ok_def)
    then show ?thesis using be by linarith
  qed
  note rc = remove_crossing_fold [where is_left = is_left, OF ok(1) be(2,1), folded g1_def]
  have g1: "graph_ok g1" "same_nodes g g1"
    "\<forall>m < length (bg_nodes g). m < b \<or> e \<le> m \<longrightarrow> bg_nodes g1 ! m = bg_nodes g ! m \<and> node_edges g1 (bg_nodes g1 ! m) = node_edges g (bg_nodes g ! m)"
    "\<forall>m. b \<le> m \<longrightarrow> m < e \<longrightarrow> node_edges g1 (bg_nodes g1 ! m) =
       filter (\<lambda>t. is_left (bg_nodes g ! (b + t)) = is_left (bg_nodes g ! m)) (node_edges g (bg_nodes g ! m))"
    using rc side targets by blast+
  have len: "length (bg_nodes g1) = length (bg_nodes g)" using g1(2) by (simp add: same_nodes_def)
  then have be1: "e \<le> length (bg_nodes g1)" using be by simp
  have left: "is_left (bg_nodes g1 ! m) = is_left (bg_nodes g ! m)" if "m < length (bg_nodes g)" for m
    using g1(2) that by (intro side) (simp add: same_nodes_def)
  define M where "M = node_mapping is_left (slice (bg_nodes g1) b e) 0 0"
  have M: "node_mapping is_left (slice (bg_nodes g) b e) 0 0 = M"
    unfolding M_def using left be by (intro node_mapping_cong) (simp add: slice_def)
  define nodes where "nodes = partition_range is_left b e (bg_nodes g1)"
  have nodes: "bg_nodes g' = nodes"
    and edges: "bg_edges g' = fold (remap_edges M) (slice nodes b e) (bg_edges g1)"
    and c: "c = b + length (filter is_left (slice (bg_nodes g1) b e))"
    using split by (auto simp: split_graph_def Let_def M nodes_def simp flip: g1_def)
  note sp = slice_partition_range [OF be(1) be1, of is_left, folded nodes_def c]
  show "b \<le> c" "c \<le> e" by (rule sp(3), rule sp(4))
  show "length (bg_nodes g') = length (bg_nodes g)" using be(1) be1 len by (simp add: nodes nodes_def)
  show "slice (bg_nodes g') b c = filter is_left (slice (bg_nodes g1) b e)"
    "slice (bg_nodes g') c e = filter (\<lambda>n. \<not> is_left n) (slice (bg_nodes g1) b e)" unfolding nodes by (rule sp(1), rule sp(2))
  have apart: "sorted_wrt (\<lambda>m n. edge_range m \<inter> edge_range n = {}) nodes"
    unfolding nodes_def by (rule sorted_wrt_partition_range) (use g1(1) be(1) be1 in \<open>auto simp: graph_ok_def\<close>)
  have perm: "mset nodes = mset (bg_nodes g1)" unfolding nodes_def by (rule mset_partition_range [OF be(1) be1])
  have elen: "length (bg_edges g') = length (bg_edges g1)" "length nodes = length (bg_nodes g1)"
    using remap_all [OF sorted_wrt_slice [OF apart]] be1 mset_eq_length [OF perm] by (simp_all add: edges)
  have "map bn_original_id (bg_nodes g1) = map bn_original_id (bg_nodes g)"
    using g1(2) by (intro nth_equalityI) (simp_all add: same_nodes_def)
  then have "bn_original_id ` set (bg_nodes g1) = bn_original_id ` set (bg_nodes g)" by (metis set_map)
  then show "bn_original_id ` set (bg_nodes g') = bn_original_id ` set (bg_nodes g)"
    unfolding nodes mset_eq_setD [OF perm] .
  show "length (bg_edges g') = length (bg_edges g)" using elen(1) g1(2) by (simp add: same_nodes_def)
  show "graph_ok g'"
    using g1(1) apart mset_eq_setD [OF perm] mset_eq_imp_distinct_iff [of "map bn_original_id nodes" "map bn_original_id (bg_nodes g1)"] perm
    unfolding graph_ok_def nodes elen(1) by simp
  have "g' = g1\<lparr>bg_nodes := nodes, bg_edges := fold (remap_edges M) (slice nodes b e) (bg_edges g1)\<rparr>"
    using nodes edges by (cases g') simp
  then have "node_edges g' n = node_edges (g1\<lparr>bg_edges := fold (remap_edges M) (slice nodes b e) (bg_edges g1)\<rparr>) n" for n
    by (simp add: node_edges_def)
  note remap = remap_all_node [OF sorted_wrt_slice [OF apart], of e _ g1 b M, folded this]
  have range: "set (slice nodes b e) = set (slice (bg_nodes g1) b e)"
  proof -
    have "slice nodes b e = slice nodes b c @ slice nodes c e" using sp(3,4) by (rule slice_join)
    then show ?thesis unfolding sp(1,2) by auto
  qed
  show "node_edges g' (bg_nodes g1 ! i) = map ((!) M)
      (filter (\<lambda>t. is_left (bg_nodes g ! (b + t)) = is_left (bg_nodes g ! i)) (node_edges g (bg_nodes g ! i)))"
    if i: "b \<le> i" "i < e" for i
  proof -
    have "bg_nodes g1 ! i \<in> set (slice nodes b e)" unfolding range in_slice using i by blast
    moreover have "bn_edges_end (bg_nodes g1 ! i) \<le> length (bg_edges g1)" using graph_okD(2) [OF g1(1)] i be1 by simp
    ultimately show ?thesis using remap(1) g1(4) i elen(2) be1 by simp
  qed
  show "bg_nodes g' ! m = bg_nodes g ! m \<and> node_edges g' (bg_nodes g ! m) = node_edges g (bg_nodes g ! m)"
    if m: "m < length (bg_nodes g)" "m < b \<or> e \<le> m" for m
  proof -
    have same: "bg_nodes g1 ! m = bg_nodes g ! m" "node_edges g1 (bg_nodes g1 ! m) = node_edges g (bg_nodes g ! m)"
      using g1(3) m by blast+
    have "edge_range n \<inter> edge_range (bg_nodes g1 ! m) = {}" if n: "n \<in> set (slice nodes b e)" for n
    proof -
      obtain k where k: "b \<le> k" "k < e" "n = bg_nodes g1 ! k" using n unfolding range in_slice by blast
      then have "k \<noteq> m" "k < length (bg_nodes g1)" using m be1 by auto
      then show ?thesis using graph_okD(3) [OF g1(1), of m k] m(1) k(3) len by simp
    qed
    moreover have "bn_edges_end (bg_nodes g1 ! m) \<le> length (bg_edges g1)" using graph_okD(2) [OF g1(1)] m(1) len by simp
    ultimately have "node_edges g' (bg_nodes g1 ! m) = node_edges g1 (bg_nodes g1 ! m)" using remap(2) elen(2) be1 by simp
    then show ?thesis using same partition_range_outside [OF be(1) be1 m(2), of is_left] by (simp add: nodes nodes_def)
  qed
qed

text \<open>The two halves, as views: one lemma for both sides.\<close>

lemma restrict_view_map:
  assumes "\<And>i. b \<le> i \<Longrightarrow> i < e \<Longrightarrow> bn_original_id (bg_nodes g ! i) \<in> S \<longleftrightarrow> P i"
    and "\<And>i t. b \<le> i \<Longrightarrow> i < e \<Longrightarrow> t \<in> set (node_edges g (bg_nodes g ! i)) \<Longrightarrow> b + t < e"
  shows "restrict_view S (abs_view g b e) =
    map (\<lambda>i. (bn_original_id (bg_nodes g ! i), bn_coordinate (bg_nodes g ! i),
        map (\<lambda>t. bn_original_id (bg_nodes g ! (b + t))) (filter (\<lambda>t. P (b + t)) (node_edges g (bg_nodes g ! i)))))
      (filter P [b..<e])"
proof -
  have "filter (\<lambda>t. t \<in> S) (map (\<lambda>t. bn_original_id (bg_nodes g ! (b + t))) (node_edges g (bg_nodes g ! i))) =
      map (\<lambda>t. bn_original_id (bg_nodes g ! (b + t))) (filter (\<lambda>t. P (b + t)) (node_edges g (bg_nodes g ! i)))"
    if "b \<le> i" "i < e" for i
    unfolding filter_map comp_def
    using assms(2) [OF that] by (intro arg_cong [where f = "map _"] filter_cong refl assms(1)) auto
  moreover have "filter (\<lambda>i. bn_original_id (bg_nodes g ! i) \<in> S) [b..<e] = filter P [b..<e]"
    using assms(1) by (intro filter_cong) auto
  ultimately show ?thesis
    unfolding restrict_view_def abs_view_def node_view_def slice_def
    by (simp add: filter_map comp_def)
qed

lemma split_side:
  fixes s :: bool
  assumes ok: "graph_ok g" "view_ok g b e"
    and side_of: "\<forall>m n. bn_original_id m = bn_original_id n \<longrightarrow> is_left m = is_left n"
    and split: "split_graph is_left b e g = (g', c)"
  defines "lo \<equiv> if s then b else c" and "hi \<equiv> if s then c else e"
    and "S \<equiv> bn_original_id ` {n \<in> set (slice (bg_nodes g) b e). is_left n = s}"
  shows "abs_view g' lo hi = restrict_view S (abs_view g b e)" "view_ok g' lo hi"
proof -
  have side: "bn_original_id m = bn_original_id n \<Longrightarrow> is_left m = is_left n" for m n using side_of by blast
  define g1 where "g1 = fold (remove_crossing is_left b) [b..<e] g"
  define ns1 where "ns1 = slice (bg_nodes g1) b e"
  define M where "M = node_mapping is_left ns1 0 0"
  note sp = split_graph_spec [where is_left = is_left, OF ok side_of split, folded g1_def, folded ns1_def, folded M_def]
  have be: "b \<le> e" "e \<le> length (bg_nodes g)" using ok(2) by (simp_all add: view_ok_def)
  have targets: "b + t < e" if "b \<le> i" "i < e" "t \<in> set (node_edges g (bg_nodes g ! i))" for i t
    using ok(2) that unfolding view_ok_def by fastforce
  note rc = remove_crossing_fold [where is_left = is_left, OF ok(1) be(2,1), folded g1_def]
  have "b + t < length (bg_nodes g)" if "b \<le> i" "i < e" "t \<in> set (node_edges g (bg_nodes g ! i))" for i t
    using targets [OF that] be(2) by simp
  then have same: "same_nodes g g1" using rc side by blast
  have len: "length ns1 = e - b" by (simp add: ns1_def)
  have attrs: "bn_original_id (bg_nodes g1 ! i) = bn_original_id (bg_nodes g ! i)"
    "bn_coordinate (bg_nodes g1 ! i) = bn_coordinate (bg_nodes g ! i)" "is_left (bg_nodes g1 ! i) = is_left (bg_nodes g ! i)"
    if "i < e" for i
  proof -
    show "bn_original_id (bg_nodes g1 ! i) = bn_original_id (bg_nodes g ! i)"
      "bn_coordinate (bg_nodes g1 ! i) = bn_coordinate (bg_nodes g ! i)"
      using same that be(2) by (simp_all add: same_nodes_def)
    then show "is_left (bg_nodes g1 ! i) = is_left (bg_nodes g ! i)" by (intro side)
  qed
  have slice': "slice (bg_nodes g') lo hi = filter (\<lambda>n. is_left n = s) ns1"
    using sp(5,6) by (cases s) (simp_all add: lo_def hi_def)
  have new: "M ! t < hi - lo" "bg_nodes g' ! (lo + M ! t) = bg_nodes g1 ! (b + t)"
    if t: "b + t < e" "is_left (bg_nodes g ! (b + t)) = s" for t
  proof -
    have t': "t < length ns1" "is_left (ns1 ! t) = s" using t attrs(3) len by (simp_all add: ns1_def)
    note m = node_mapping_side [where P = is_left, OF t', folded M_def]
    show lt: "M ! t < hi - lo" using m(1) arg_cong [OF slice', of length] by simp
    have "slice (bg_nodes g') lo hi ! (M ! t) = ns1 ! t" using m(2) unfolding slice' .
    then show "bg_nodes g' ! (lo + M ! t) = bg_nodes g1 ! (b + t)" using lt t' len by (simp add: ns1_def)
  qed
  let ?old = "\<lambda>i. filter (\<lambda>t. is_left (bg_nodes g ! (b + t)) = s) (node_edges g (bg_nodes g ! i))"
  have edges: "node_edges g' (bg_nodes g1 ! i) = map ((!) M) (?old i)" if "b \<le> i" "i < e" "is_left (bg_nodes g ! i) = s" for i
    using sp(7) [OF that(1,2)] that(3) by simp
  have view: "node_view g' lo (bg_nodes g1 ! i) = (bn_original_id (bg_nodes g ! i), bn_coordinate (bg_nodes g ! i),
      map (\<lambda>t. bn_original_id (bg_nodes g ! (b + t))) (?old i))"
    if i: "b \<le> i" "i < e" "is_left (bg_nodes g ! i) = s" for i
  proof -
    have "bn_original_id (bg_nodes g' ! (lo + M ! t)) = bn_original_id (bg_nodes g ! (b + t))" if "t \<in> set (?old i)" for t
      using that new(2) targets [OF i(1,2)] attrs(1) by auto
    then show ?thesis using attrs(1,2) i(2) by (simp add: node_view_def edges [OF i])
  qed
  have fil: "slice (bg_nodes g') lo hi = map ((!) (bg_nodes g1)) (filter (\<lambda>i. is_left (bg_nodes g ! i) = s) [b..<e])"
  proof -
    have "filter (\<lambda>i. is_left (bg_nodes g1 ! i) = s) [b..<e] = filter (\<lambda>i. is_left (bg_nodes g ! i) = s) [b..<e]"
      using attrs(3) by (intro filter_cong) auto
    then show ?thesis unfolding slice' unfolding ns1_def slice_def by (simp add: filter_map comp_def)
  qed
  have member: "bn_original_id (bg_nodes g ! i) \<in> S \<longleftrightarrow> is_left (bg_nodes g ! i) = s" if "b \<le> i" "i < e" for i
  proof
    assume "bn_original_id (bg_nodes g ! i) \<in> S"
    then obtain n where "is_left n = s" "bn_original_id n = bn_original_id (bg_nodes g ! i)" unfolding S_def by force
    then show "is_left (bg_nodes g ! i) = s" using side_of by metis
  qed (use that in \<open>auto simp: S_def in_slice\<close>)
  show "abs_view g' lo hi = restrict_view S (abs_view g b e)"
  proof -
    have "abs_view g' lo hi = map (\<lambda>i. node_view g' lo (bg_nodes g1 ! i)) (filter (\<lambda>i. is_left (bg_nodes g ! i) = s) [b..<e])"
      by (simp add: abs_view_def fil comp_def)
    also have "\<dots> = map (\<lambda>i. (bn_original_id (bg_nodes g ! i), bn_coordinate (bg_nodes g ! i),
        map (\<lambda>t. bn_original_id (bg_nodes g ! (b + t))) (?old i))) (filter (\<lambda>i. is_left (bg_nodes g ! i) = s) [b..<e])"
      using view by (intro map_cong) auto
    also have "\<dots> = restrict_view S (abs_view g b e)"
      by (rule restrict_view_map [where P = "\<lambda>i. is_left (bg_nodes g ! i) = s", symmetric]) (use member targets in auto)
    finally show ?thesis .
  qed
  show "view_ok g' lo hi"
    unfolding view_ok_def
  proof (intro conjI allI impI ballI)
    show "lo \<le> hi" "hi \<le> length (bg_nodes g')" using sp(1,2,4) be by (auto simp: lo_def hi_def)
    fix i t assume i: "lo \<le> i" "i < hi" and t: "t \<in> set (node_edges g' (bg_nodes g' ! i))"
    have "bg_nodes g' ! i \<in> set (slice (bg_nodes g') lo hi)" using i by (auto simp: in_slice)
    then obtain k where k: "b \<le> k" "k < e" "is_left (bg_nodes g ! k) = s" "bg_nodes g' ! i = bg_nodes g1 ! k"
      unfolding fil by auto
    then obtain t' where t': "t' \<in> set (?old k)" "t = M ! t'" using t edges [OF k(1-3)] by auto
    then show "t < hi - lo" using new(1) targets [OF k(1,2)] by auto
  qed
qed

section \<open>Applying a bisection\<close>

text \<open>The original ids of the nodes of a range that a partition puts on one side.\<close>

definition side_ids :: "BisectionGraph \<Rightarrow> nat \<Rightarrow> nat \<Rightarrow> bool list \<Rightarrow> bool \<Rightarrow> NodeID set" where
  "side_ids g b e sides s = {bn_original_id (bg_nodes g ! (b + i)) | i. i < e - b \<and> sides ! i = s}"

definition flags_clear :: "RecursiveBisectionState \<Rightarrow> nat \<Rightarrow> nat \<Rightarrow> nat \<Rightarrow> bool" where
  "flags_clear st b e depth \<longleftrightarrow> (\<forall>n \<in> set (slice (bg_nodes (bisection_graph st)) b e).
     bisection_ids st ! bn_original_id n AND bisection_flag depth = 0)"

definition ids_ok :: "RecursiveBisectionState \<Rightarrow> bool" where
  "ids_ok st \<longleftrightarrow> (\<forall>n \<in> set (bg_nodes (bisection_graph st)). bn_original_id n < length (bisection_ids st))"

lemma side_ids_set:
  "side_ids g b e sides s = set (map (\<lambda>i. bn_original_id (bg_nodes g ! (b + i))) (filter (\<lambda>i. sides ! i = s) [0..<e - b]))"
  by (auto simp: side_ids_def)

lemma ApplyBisection_spec:
  assumes ok: "graph_ok (bisection_graph st)" "view_ok (bisection_graph st) b e" "ids_ok st"
    and clear: "flags_clear st b e depth" "depth < 32"
    and r: "ApplyBisection st b e depth sides = (st', c)"
  defines "g \<equiv> bisection_graph st" and "g' \<equiv> bisection_graph st'"
  shows "b \<le> c" "c \<le> e" "graph_ok g'" "view_ok g' b c" "view_ok g' c e" "length (bg_nodes g') = length (bg_nodes g)"
    and "abs_view g' b c = restrict_view (side_ids g b e sides False) (abs_view g b e)"
    and "abs_view g' c e = restrict_view (side_ids g b e sides True) (abs_view g b e)"
    and "\<And>m. m < length (bg_nodes g) \<Longrightarrow> m < b \<or> e \<le> m \<Longrightarrow>
      bg_nodes g' ! m = bg_nodes g ! m \<and> node_edges g' (bg_nodes g ! m) = node_edges g (bg_nodes g ! m)"
    and "length (bisection_ids st') = length (bisection_ids st)"
    and "\<And>v. v < length (bisection_ids st) \<Longrightarrow> bisection_ids st' ! v =
      (if v \<in> side_ids g b e sides True then bisection_ids st ! v OR bisection_flag depth else bisection_ids st ! v)"
    and "scc_levels st' = scc_levels st" and "length (bg_edges g') = length (bg_edges g)" and "ids_ok st'"
proof -
  define ns where "ns = slice (bg_nodes g) b e"
  define ids where "ids = set_flags (bisection_flag depth) ns 0 sides (bisection_ids st)"
  define is_left where "is_left = by_flag_bit (bisection_flag depth) ids"
  have be: "b \<le> e" "e \<le> length (bg_nodes g)" using ok(2) by (simp_all add: view_ok_def g_def)
  obtain g3 where split: "split_graph is_left b e g = (g3, c)" and st': "st' = st\<lparr>bisection_graph := g3, bisection_ids := ids\<rparr>"
    using r unfolding ApplyBisection_def Let_def g_def [symmetric] ns_def [symmetric] ids_def [symmetric] is_left_def [symmetric]
    by (auto split: prod.splits)
  have g': "g' = g3" by (simp add: g'_def st')
  have side_of: "\<forall>m n. bn_original_id m = bn_original_id n \<longrightarrow> is_left m = is_left n"
    by (simp add: is_left_def by_flag_bit_def)
  have okg: "graph_ok g" "view_ok g b e" using ok by (simp_all add: g_def)
  note sp = split_graph_spec [where is_left = is_left, OF okg side_of split, folded g']
  note sides = split_side [where is_left = is_left, OF okg side_of split, folded g' ns_def]
  have dist: "distinct (map bn_original_id ns)"
    using okg(1) be(2) unfolding ns_def graph_ok_def by (intro distinct_map_slice) blast+
  have inr: "\<forall>n \<in> set ns. bn_original_id n < length (bisection_ids st)"
    using ok(3) be(2) by (auto simp: ids_ok_def ns_def in_slice g_def)
  have flag: "is_left (ns ! i) \<longleftrightarrow> \<not> sides ! i" if "i < length ns" for i
    unfolding is_left_def ids_def
    using by_flag_bit_set_flags [OF dist inr _ clear(2) that] clear(1) by (simp add: flags_clear_def ns_def g_def)
  have S: "bn_original_id ` {n \<in> set ns. is_left n = s} = side_ids g b e sides (\<not> s)" for s
  proof -
    have "{n \<in> set ns. is_left n = s} = {ns ! i | i. i < length ns \<and> sides ! i = (\<not> s)}"
      using flag by (auto simp: in_set_conv_nth)
    moreover have "bn_original_id ` {ns ! i | i. i < length ns \<and> sides ! i = (\<not> s)} =
        {bn_original_id (ns ! i) | i. i < length ns \<and> sides ! i = (\<not> s)}" by blast
    moreover have "{bn_original_id (ns ! i) | i. i < length ns \<and> sides ! i = (\<not> s)} = side_ids g b e sides (\<not> s)"
      unfolding side_ids_def by (rule Collect_cong, rule ex_cong1) (auto simp: ns_def)
    ultimately show ?thesis by (simp only:)
  qed
  show "b \<le> c" "c \<le> e" "graph_ok g'" "length (bg_nodes g') = length (bg_nodes g)"
    "length (bg_edges g') = length (bg_edges g)" by (rule sp)+
  show "view_ok g' b c" "abs_view g' b c = restrict_view (side_ids g b e sides False) (abs_view g b e)"
    using sides [of True] S [of True] by simp_all
  show "view_ok g' c e" "abs_view g' c e = restrict_view (side_ids g b e sides True) (abs_view g b e)"
    using sides [of False] S [of False] by simp_all
  show "m < length (bg_nodes g) \<Longrightarrow> m < b \<or> e \<le> m \<Longrightarrow>
      bg_nodes g' ! m = bg_nodes g ! m \<and> node_edges g' (bg_nodes g ! m) = node_edges g (bg_nodes g ! m)" for m
    by (rule sp(8))
  show len: "length (bisection_ids st') = length (bisection_ids st)" and "scc_levels st' = scc_levels st"
    by (simp_all add: st' ids_def)
  show "ids_ok st'"
    unfolding ids_ok_def len
  proof
    fix n assume "n \<in> set (bg_nodes (bisection_graph st'))"
    then have "bn_original_id n \<in> bn_original_id ` set (bg_nodes g)" using sp(10) by (auto simp: g'_def)
    then show "bn_original_id n < length (bisection_ids st)" using ok(3) by (auto simp: ids_ok_def g_def)
  qed
  show "bisection_ids st' ! v =
      (if v \<in> side_ids g b e sides True then bisection_ids st ! v OR bisection_flag depth else bisection_ids st ! v)"
    if "v < length (bisection_ids st)" for v
  proof (cases "v \<in> bn_original_id ` set ns")
    case True
    then obtain i where i: "i < length ns" "v = bn_original_id (ns ! i)" by (auto simp: in_set_conv_nth)
    have "v \<in> side_ids g b e sides True \<longleftrightarrow> sides ! i"
    proof
      assume "v \<in> side_ids g b e sides True"
      then obtain j where j: "j < length ns" "sides ! j" "v = bn_original_id (ns ! j)" by (auto simp: side_ids_def ns_def)
      then have "i = j" using dist i nth_eq_iff_index_eq [of "map bn_original_id ns" i j] by simp
      then show "sides ! i" using j by simp
    qed (use i in \<open>auto simp: side_ids_def ns_def\<close>)
    then show ?thesis using set_flags_nth [OF dist inr i(1)] i(2) by (simp add: st' ids_def)
  next
    case False
    then have "v \<notin> side_ids g b e sides True" using S [of False] by auto
    then show ?thesis using set_flags_other [OF False] by (simp add: st' ids_def)
  qed
qed

text \<open>
  Property C8. Applying a bisection.  The range is split at the returned iterator into two
  well-formed views: as sets of original nodes they are the two sides of the partition, in their
  old order, each node with its coordinate and exactly its old edges to its own side.  Nodes and
  edges outside the range are untouched, and exactly the nodes of the right side get the bit of
  this depth in their bisection id.
\<close>

theorem ApplyBisection_correct:
  assumes "graph_ok (bisection_graph st)" "view_ok (bisection_graph st) b e" "ids_ok st"
    and "flags_clear st b e depth" "depth < 32"
    and "ApplyBisection st b e depth sides = (st', center)"
  shows "b \<le> center \<and> center \<le> e \<and> graph_ok (bisection_graph st') \<and>
    view_ok (bisection_graph st') b center \<and> view_ok (bisection_graph st') center e \<and>
    abs_view (bisection_graph st') b center =
      restrict_view (side_ids (bisection_graph st) b e sides False) (abs_view (bisection_graph st) b e) \<and>
    abs_view (bisection_graph st') center e =
      restrict_view (side_ids (bisection_graph st) b e sides True) (abs_view (bisection_graph st) b e) \<and>
    (\<forall>m < length (bg_nodes (bisection_graph st)). b \<le> m \<and> m < e \<or>
       bg_nodes (bisection_graph st') ! m = bg_nodes (bisection_graph st) ! m \<and>
       node_edges (bisection_graph st') (bg_nodes (bisection_graph st) ! m) =
         node_edges (bisection_graph st) (bg_nodes (bisection_graph st) ! m)) \<and>
    (\<forall>v < length (bisection_ids st). GetBisectionID st' v =
       (if v \<in> side_ids (bisection_graph st) b e sides True
        then GetBisectionID st v OR bisection_flag depth else GetBisectionID st v))"
proof -
  note a = ApplyBisection_spec [OF assms]
  have "\<forall>m < length (bg_nodes (bisection_graph st)). b \<le> m \<and> m < e \<or>
       bg_nodes (bisection_graph st') ! m = bg_nodes (bisection_graph st) ! m \<and>
       node_edges (bisection_graph st') (bg_nodes (bisection_graph st) ! m) =
         node_edges (bisection_graph st) (bg_nodes (bisection_graph st) ! m)"
    using a(9) by (metis not_le)
  then show ?thesis unfolding GetBisectionID_def using a(1-8,11) by blast
qed

definition example_state :: RecursiveBisectionState where
  "example_state = RecursiveBisectionState_init \<lparr>bg_nodes =
     [\<lparr>bn_edges_begin = 0, bn_edges_end = 1, bn_coordinate = (0, 0), bn_original_id = 0\<rparr>,
      \<lparr>bn_edges_begin = 1, bn_edges_end = 3, bn_coordinate = (1, 0), bn_original_id = 1\<rparr>,
      \<lparr>bn_edges_begin = 3, bn_edges_end = 4, bn_coordinate = (2, 0), bn_original_id = 2\<rparr>],
     bg_edges = [1, 0, 2, 1]\<rparr>"

lemma example_state_edges:
  "node_edges (bisection_graph example_state) (bg_nodes (bisection_graph example_state) ! 0) = [1]"
  "node_edges (bisection_graph example_state) (bg_nodes (bisection_graph example_state) ! 1) = [0, 2]"
  "node_edges (bisection_graph example_state) (bg_nodes (bisection_graph example_state) ! 2) = [1]"
  by (simp_all add: example_state_def RecursiveBisectionState_init_def node_edges_def slice_def upt_rec)

lemma example_state_ok:
  "graph_ok (bisection_graph example_state)" "view_ok (bisection_graph example_state) 0 3" "ids_ok example_state"
  "flags_clear example_state 0 3 0"
proof -
  show "graph_ok (bisection_graph example_state)" "ids_ok example_state"
    by (simp_all add: example_state_def RecursiveBisectionState_init_def graph_ok_def edge_range_def ids_ok_def)
  show "flags_clear example_state 0 3 0"
    by (simp add: example_state_def RecursiveBisectionState_init_def flags_clear_def slice_def upt_rec)
  have "t < 3" if i: "i < 3" and t: "t \<in> set (node_edges (bisection_graph example_state) (bg_nodes (bisection_graph example_state) ! i))" for i t
  proof -
    consider "i = 0" | "i = 1" | "i = 2" using i by linarith
    then show ?thesis by cases (use t example_state_edges in auto)
  qed
  moreover have "length (bg_nodes (bisection_graph example_state)) = 3"
    by (simp add: example_state_def RecursiveBisectionState_init_def)
  ultimately show "view_ok (bisection_graph example_state) 0 3" by (simp add: view_ok_def)
qed

lemma example_state_view:
  "abs_view (bisection_graph example_state) 0 3 = [(0, (0, 0), [1]), (1, (1, 0), [0, 2]), (2, (2, 0), [1])]"
  by (simp add: abs_view_def node_view_def node_edges_def slice_def upt_rec example_state_def RecursiveBisectionState_init_def)

lemma example_side_ids: "side_ids (bisection_graph example_state) 0 3 [True, False, False] s = (if s then {0} else {1, 2})"
  by (simp add: side_ids_set upt_rec example_state_def RecursiveBisectionState_init_def)

lemma ApplyBisection_correct_witness:
  "\<exists>st' c. ApplyBisection example_state 0 3 0 [True, False, False] = (st', c) \<and>
     abs_view (bisection_graph st') 0 c = [(1, (1, 0), [2]), (2, (2, 0), [1])] \<and>
     abs_view (bisection_graph st') c 3 = [(0, (0, 0), [])]"
proof -
  obtain st' c where r: "ApplyBisection example_state 0 3 0 [True, False, False] = (st', c)" by fastforce
  have "(0 :: nat) < 32" by simp
  from ApplyBisection_correct [OF example_state_ok this r]
  have "abs_view (bisection_graph st') 0 c = [(1, (1, 0), [2]), (2, (2, 0), [1])]"
    "abs_view (bisection_graph st') c 3 = [(0, (0, 0), [])]"
    unfolding example_side_ids example_state_view by (simp_all add: restrict_view_def)
  then show ?thesis using r by blast
qed

end
