(* ===== verification/RecursiveBisection.thy ===== *)
theory RecursiveBisection
  imports InertialFlow BisectionState
begin

text \<open>
  The recursive bisection, \<^verbatim>\<open>src/partitioner/recursive_bisection.cpp\<close>: the trees below the big
  components are built by tasks, each of which cuts its view by inertial flow and feeds the
  halves that are still to be cut.

  The task loop of the library is one sequence of tasks in an arbitrary order, given by
  \<open>pick\<close>; the tasks work on disjoint views.  The components are what
  \<^verbatim>\<open>PrePartitionWithSCC\<close> returns, an argument here; the theory \<open>ComponentPartition\<close> has the
  whole constructor.
\<close>

section \<open>Definitions\<close>

record TreeNode =
  tn_begin :: nat
  tn_end :: nat
  tn_depth :: nat

record BisectionParams =
  maximum_cell_size :: nat
  balance :: real
  boundary_factor :: real
  num_optimizing_cuts :: nat

text \<open>What the run depends on beside the parameters: the library functions of the inertial flow,
  the order of its rounds in every task, and the order of the tasks.\<close>

record BisectionEnv =
  env_nth_element :: "NodeWithCoordinate nth_element"
  env_hash_order :: "NodeID list \<Rightarrow> NodeID list"
  env_rounds :: "TreeNode \<Rightarrow> nat list"
  env_pick :: "TreeNode list \<Rightarrow> nat"

definition tn_view :: "BisectionGraph \<Rightarrow> TreeNode \<Rightarrow> BisectionGraphView" where
  "tn_view g t = \<lparr>bv_graph = g, bv_begin = tn_begin t, bv_end = tn_end t\<rparr>"

definition tn_size :: "TreeNode \<Rightarrow> nat" where
  "tn_size t = tn_end t - tn_begin t"

definition terminal :: "BisectionParams \<Rightarrow> TreeNode \<Rightarrow> bool" where
  "terminal P node \<longleftrightarrow>
     (let maximum_depth = 32;
          too_small = tn_size node < maximum_cell_size P;
          too_deep = maximum_depth \<le> tn_depth node
      in too_small \<or> too_deep)"

definition bisect_node :: "BisectionEnv \<Rightarrow> BisectionParams \<Rightarrow> RecursiveBisectionState \<Rightarrow> TreeNode \<Rightarrow>
    (RecursiveBisectionState \<times> TreeNode list) option" where
  "bisect_node E P st node =
     (case computeInertialFlowCut (env_nth_element E) (env_hash_order E) (env_rounds E node)
        (tn_view (bisection_graph st) node) (num_optimizing_cuts P) (balance P) (boundary_factor P) of
        None \<Rightarrow> None
      | Some mcut \<Rightarrow>
          let (st', center) = ApplyBisection st (tn_begin node) (tn_end node) (tn_depth node) (flags mcut);
              left_node = \<lparr>tn_begin = tn_begin node, tn_end = center, tn_depth = tn_depth node + 1\<rparr>;
              right_node = \<lparr>tn_begin = center, tn_end = tn_end node, tn_depth = tn_depth node + 1\<rparr>
          in Some (st', (if \<not> terminal P left_node then [left_node] else []) @
               (if \<not> terminal P right_node then [right_node] else [])))"

partial_function (option) bisect_forest ::
  "BisectionEnv \<Rightarrow> BisectionParams \<Rightarrow> RecursiveBisectionState \<Rightarrow> TreeNode list \<Rightarrow> RecursiveBisectionState option" where
  "bisect_forest E P st tasks =
     (if tasks = [] then Some st
      else let k = env_pick E tasks mod length tasks
           in Option.bind (bisect_node E P st (tasks ! k))
                (\<lambda>(st', fed). bisect_forest E P st' (take k tasks @ drop (Suc k) tasks @ fed)))"

text \<open>The last component collects the small ones and is not bisected.\<close>

definition RecursiveBisection :: "BisectionEnv \<Rightarrow> BisectionParams \<Rightarrow> RecursiveBisectionState \<Rightarrow> (nat \<times> nat) list \<Rightarrow>
    RecursiveBisectionState option" where
  "RecursiveBisection E P st components =
     bisect_forest E P st
       (map (\<lambda>(b, e). \<lparr>tn_begin = b, tn_end = e, tn_depth = scc_levels st\<rparr>) (butlast components))"

section \<open>Pairs of a multiset\<close>

definition all_pairs :: "('a \<Rightarrow> 'a \<Rightarrow> bool) \<Rightarrow> 'a multiset \<Rightarrow> bool" where
  "all_pairs R M \<longleftrightarrow> (\<forall>x y. {#x, y#} \<subseteq># M \<longrightarrow> R x y)"

lemma all_pairs_add:
  assumes sym: "\<And>x y. R x y \<Longrightarrow> R y x"
  shows "all_pairs R (add_mset t N) \<longleftrightarrow> all_pairs R N \<and> (\<forall>x \<in># N. R t x)"
proof
  assume a: "all_pairs R (add_mset t N)"
  have "{#x, y#} \<subseteq># add_mset t N" if "{#x, y#} \<subseteq># N" for x y
    using that by (metis add_mset_add_single mset_subset_eq_add_left subset_mset.order_trans)
  moreover have "{#t, x#} \<subseteq># add_mset t N" if "x \<in># N" for x using that by simp
  ultimately show "all_pairs R N \<and> (\<forall>x \<in># N. R t x)" using a unfolding all_pairs_def by blast
next
  assume a: "all_pairs R N \<and> (\<forall>x \<in># N. R t x)"
  have "R x y" if p: "{#x, y#} \<subseteq># add_mset t N" for x y
  proof -
    consider "x = t" | "y = t" | "x \<noteq> t" "y \<noteq> t" by blast
    then show ?thesis
    proof cases
      case 1
      then have "y \<in># N" using p by simp
      then show ?thesis using a 1 by blast
    next
      case 2
      then have "{#t, x#} \<subseteq># add_mset t N" using p by (simp add: add_mset_commute)
      then have "x \<in># N" by simp
      then show ?thesis using a 2 sym by blast
    next
      case 3
      have "{#x, y#} \<subseteq># N"
      proof (rule mset_subset_eqI)
        fix z
        have "count {#x, y#} z \<le> count (add_mset t N) z" using p by (rule mset_subset_eq_count)
        then show "count {#x, y#} z \<le> count N z" using 3 by (cases "z = t") auto
      qed
      then show ?thesis using a unfolding all_pairs_def by blast
    qed
  qed
  then show "all_pairs R (add_mset t N)" unfolding all_pairs_def by blast
qed

lemma all_pairs_empty: "all_pairs R {#}"
  by (simp add: all_pairs_def)

section \<open>Views and what they say\<close>

text \<open>The neighbourhood of a view is symmetric.\<close>

definition sym_view :: "view_node list \<Rightarrow> bool" where
  "sym_view V \<longleftrightarrow> (\<forall>(v, c, adj) \<in> set V. \<forall>t \<in> set adj. \<exists>(u, c', adj') \<in> set V. u = t \<and> v \<in> set adj')"

lemma sym_restrict:
  assumes "sym_view V"
  shows "sym_view (restrict_view S V)"
  unfolding sym_view_def
proof (intro ballI, clarify)
  fix v c adj t assume n: "(v, c, adj) \<in> set (restrict_view S V)" and t: "t \<in> set adj"
  then obtain adj0 where a: "(v, c, adj0) \<in> set V" "adj = filter (\<lambda>t. t \<in> S) adj0" "v \<in> S"
    by (auto simp: restrict_view_def)
  then obtain c' adj' where u: "(t, c', adj') \<in> set V" "v \<in> set adj'" using assms t unfolding sym_view_def by fastforce
  have "t \<in> S" using t a(2) by simp
  then have "(t, c', filter (\<lambda>t. t \<in> S) adj') \<in> set (restrict_view S V)" using u(1) by (force simp: restrict_view_def)
  then show "\<exists>(u, c', adj') \<in> set (restrict_view S V). u = t \<and> v \<in> set adj'"
    by (rule bexI [rotated]) (use u(2) a(3) in simp)
qed

lemma restrict_restrict: "restrict_view S (restrict_view T V) = restrict_view (S \<inter> T) V"
  by (induction V) (auto simp: restrict_view_def conj_commute)

lemma restrict_UNIV: "restrict_view UNIV V = V"
  by (simp add: restrict_view_def split_beta filter_True)

lemma tn_view_simps [simp]:
  "bv_NumberOfNodes (tn_view g t) = tn_size t"
  "bv_Edges (tn_view g t) u = node_edges g (bg_nodes g ! (tn_begin t + u))"
  by (simp_all add: tn_view_def bv_NumberOfNodes_def bv_Edges_def bv_Node_def tn_size_def)

lemma view_okD:
  assumes "view_ok g b e" "i < e - b" "w \<in> set (node_edges g (bg_nodes g ! (b + i)))"
  shows "w < e - b"
proof -
  have "b \<le> b + i" "b + i < e" using assms(2) by simp_all
  then show ?thesis using assms(1,3) unfolding view_ok_def by blast
qed

lemma undirected_view:
  assumes ok: "graph_ok g" "view_ok g (tn_begin t) (tn_end t)" and sym: "sym_view (abs_view g (tn_begin t) (tn_end t))"
  shows "undirected (tn_view g t)"
  unfolding undirected_def tn_view_simps
proof (intro allI impI ballI)
  let ?b = "tn_begin t" and ?e = "tn_end t"
  fix u v assume u: "u < tn_size t" and v: "v \<in> set (node_edges g (bg_nodes g ! (?b + u)))"
  have be: "?b \<le> ?e" "?e \<le> length (bg_nodes g)" using ok(2) by (simp_all add: view_ok_def)
  have targets: "w < tn_size t" if "i < tn_size t" "w \<in> set (node_edges g (bg_nodes g ! (?b + i)))" for i w
    using view_okD [OF ok(2)] that by (simp add: tn_size_def)
  have "node_view g ?b (bg_nodes g ! (?b + u)) \<in> set (abs_view g ?b ?e)"
    unfolding abs_view_def set_map by (rule imageI) (use u in \<open>auto simp: in_slice_offset tn_size_def\<close>)
  moreover have "bn_original_id (bg_nodes g ! (?b + v)) \<in> set (snd (snd (node_view g ?b (bg_nodes g ! (?b + u)))))"
    using v by (simp add: node_view_def)
  ultimately obtain w where w: "w \<in> set (abs_view g ?b ?e)" "fst w = bn_original_id (bg_nodes g ! (?b + v))"
    "bn_original_id (bg_nodes g ! (?b + u)) \<in> set (snd (snd w))"
    using sym unfolding sym_view_def by (fastforce simp: node_view_def)
  then obtain k where k: "k < tn_size t" "w = node_view g ?b (bg_nodes g ! (?b + k))"
    unfolding abs_view_def set_map by (auto simp: in_slice_offset tn_size_def)
  have vt: "v < tn_size t" using targets [OF u v] .
  have same: "i = j" if "i < tn_size t" "j < tn_size t"
    "bn_original_id (bg_nodes g ! (?b + i)) = bn_original_id (bg_nodes g ! (?b + j))" for i j
    using graph_okD(4) [OF ok(1), of "?b + j" "?b + i"] that be by (simp add: tn_size_def)
  have "k = v" using same [OF k(1) vt] w(2) k(2) by (simp add: node_view_def)
  moreover obtain x where "x \<in> set (node_edges g (bg_nodes g ! (?b + k)))"
    "bn_original_id (bg_nodes g ! (?b + x)) = bn_original_id (bg_nodes g ! (?b + u))"
    using w(3) k(2) by (auto simp: node_view_def)
  moreover have "x < tn_size t" using targets [OF k(1) calculation(2)] .
  ultimately show "v < tn_size t \<and> u \<in> set (node_edges g (bg_nodes g ! (?b + v)))"
    using vt same [OF _ u] by auto
qed

lemma num_arcs_le:
  assumes "graph_ok g" "tn_end t \<le> length (bg_nodes g)"
  shows "num_arcs (tn_view g t) \<le> length (bg_edges g)"
proof -
  have "num_arcs (tn_view g t) = (\<Sum>i < tn_size t. card (edge_range (bg_nodes g ! (tn_begin t + i))))"
    by (simp add: num_arcs_def node_edges_def edge_range_def sum_list_distinct_conv_sum_set atLeast0LessThan)
  also have "\<dots> = card (\<Union>i \<in> {..<tn_size t}. edge_range (bg_nodes g ! (tn_begin t + i)))"
  proof (rule card_UN_disjoint [symmetric])
    show "\<forall>i \<in> {..<tn_size t}. \<forall>j \<in> {..<tn_size t}. i \<noteq> j \<longrightarrow>
        edge_range (bg_nodes g ! (tn_begin t + i)) \<inter> edge_range (bg_nodes g ! (tn_begin t + j)) = {}"
    proof (intro ballI impI)
      fix i j assume "i \<in> {..<tn_size t}" "j \<in> {..<tn_size t}" "i \<noteq> j"
      then show "edge_range (bg_nodes g ! (tn_begin t + i)) \<inter> edge_range (bg_nodes g ! (tn_begin t + j)) = {}"
        using assms(2) by (intro graph_okD(3) [OF assms(1)]) (simp_all add: tn_size_def)
    qed
  qed (simp_all add: edge_range_def)
  also have "\<dots> \<le> card {..<length (bg_edges g)}"
  proof (rule card_mono)
    have "edge_range (bg_nodes g ! (tn_begin t + i)) \<subseteq> {..<length (bg_edges g)}" if "i < tn_size t" for i
    proof -
      have "tn_begin t + i < length (bg_nodes g)" using assms(2) that by (simp add: tn_size_def)
      then show ?thesis using graph_okD(2) [OF assms(1)] by (fastforce simp: edge_range_def)
    qed
    then show "(\<Union>i \<in> {..<tn_size t}. edge_range (bg_nodes g ! (tn_begin t + i))) \<subseteq> {..<length (bg_edges g)}" by auto
  qed simp
  finally show ?thesis by simp
qed

section \<open>One bisection\<close>

text \<open>The bisection id of the node at a position.\<close>

definition node_id :: "RecursiveBisectionState \<Rightarrow> nat \<Rightarrow> BisectionID" where
  "node_id st i = GetBisectionID st (bn_original_id (bg_nodes (bisection_graph st) ! i))"

lemma bit_flag: "d < 32 \<Longrightarrow> bit (bisection_flag d) k \<longleftrightarrow> k = 31 - d"
  by (auto simp: bisection_flag_def bit_exp_iff)

lemma and_flag_clear: "d < 32 \<Longrightarrow> x AND bisection_flag d = 0 \<longleftrightarrow> \<not> bit x (31 - d)"
  by (simp add: bisection_flag_def and_exp_eq_0_iff_not_bit)

lemma frame_view:
  assumes "view_ok g b e" "length (bg_nodes g') = length (bg_nodes g)"
    and same: "\<And>m. b \<le> m \<Longrightarrow> m < e \<Longrightarrow> bg_nodes g' ! m = bg_nodes g ! m \<and> node_edges g' (bg_nodes g ! m) = node_edges g (bg_nodes g ! m)"
  shows "abs_view g' b e = abs_view g b e" "view_ok g' b e"
proof -
  show "view_ok g' b e" using assms unfolding view_ok_def by metis
  have "node_view g' b (bg_nodes g' ! (b + i)) = node_view g b (bg_nodes g ! (b + i))" if i: "i < e - b" for i
  proof -
    have "bg_nodes g' ! (b + t) = bg_nodes g ! (b + t)" if "t \<in> set (node_edges g (bg_nodes g ! (b + i)))" for t
      using view_okD [OF assms(1) i that] same by simp
    then show ?thesis using same [of "b + i"] i by (simp add: node_view_def)
  qed
  then show "abs_view g' b e = abs_view g b e" unfolding abs_view_def by (intro nth_equalityI) simp_all
qed

text \<open>The ids after a bisection: unchanged outside of the range, the flag set on the right.\<close>

lemma node_id_outside:
  assumes "graph_ok (bisection_graph st)" "view_ok (bisection_graph st) b e" "ids_ok st"
    and "flags_clear st b e depth" "depth < 32" "ApplyBisection st b e depth sides = (st', c)"
    and i: "i < length (bg_nodes (bisection_graph st))" "i < b \<or> e \<le> i"
  shows "node_id st' i = node_id st i"
proof -
  note a = ApplyBisection_spec [OF assms(1-6)]
  let ?g = "bisection_graph st" and ?v = "bn_original_id (bg_nodes (bisection_graph st) ! i)"
  have "?v \<notin> side_ids ?g b e sides True"
  proof
    assume "?v \<in> side_ids ?g b e sides True"
    then obtain k where k: "k < e - b" "bn_original_id (bg_nodes ?g ! (b + k)) = ?v" by (auto simp: side_ids_def)
    have "e \<le> length (bg_nodes ?g)" using assms(2) by (simp add: view_ok_def)
    then have "b + k < length (bg_nodes ?g)" using k(1) by linarith
    then have "b + k = i" using graph_okD(4) [OF assms(1) i(1)] k(2) by blast
    then show False using i(2) k(1) by simp
  qed
  moreover have "?v < length (bisection_ids st)" using assms(3) i(1) by (simp add: ids_ok_def)
  ultimately show ?thesis using a(9) [OF i] a(11) by (simp add: node_id_def GetBisectionID_def)
qed

lemma half_ids:
  assumes "graph_ok (bisection_graph st)" "view_ok (bisection_graph st) b e" "ids_ok st"
    and "flags_clear st b e depth" "depth < 32" "ApplyBisection st b e depth sides = (st', c)"
    and i: "if s then c \<le> i \<and> i < e else b \<le> i \<and> i < c"
  shows "\<exists>k. b \<le> k \<and> k < e \<and>
    node_id st' i = (if s then node_id st k OR bisection_flag depth else node_id st k)"
proof -
  note a = ApplyBisection_spec [OF assms(1-6)]
  let ?g = "bisection_graph st" and ?g' = "bisection_graph st'"
  let ?v = "bn_original_id (bg_nodes ?g' ! i)"
  define lo hi where "lo = (if s then c else b)" and "hi = (if s then e else c)"
  have view: "abs_view ?g' lo hi = restrict_view (side_ids ?g b e sides s) (abs_view ?g b e)"
    using a(7,8) by (simp add: lo_def hi_def)
  have "lo \<le> i" "i < hi" using i by (auto simp: lo_def hi_def split: if_splits)
  then have "node_view ?g' lo (bg_nodes ?g' ! i) \<in> set (abs_view ?g' lo hi)"
    unfolding abs_view_def set_map by (intro imageI) (auto simp: in_slice)
  then have "?v \<in> side_ids ?g b e sides s" unfolding view by (auto simp: node_view_def restrict_view_def)
  then obtain k where k: "k < e - b" "sides ! k = s" "?v = bn_original_id (bg_nodes ?g ! (b + k))" by (auto simp: side_ids_def)
  have be: "e \<le> length (bg_nodes ?g)" using assms(2) by (simp add: view_ok_def)
  have "?v \<in> side_ids ?g b e sides True \<longleftrightarrow> s"
  proof
    assume "?v \<in> side_ids ?g b e sides True"
    then obtain j where j: "j < e - b" "sides ! j" "bn_original_id (bg_nodes ?g ! (b + j)) = ?v" by (auto simp: side_ids_def)
    then have "b + j = b + k" using graph_okD(4) [OF assms(1), of "b + k" "b + j"] k be by simp
    then show s using j k by simp
  qed (use \<open>?v \<in> side_ids ?g b e sides s\<close> in simp)
  moreover have "?v < length (bisection_ids st)" using assms(3) k be by (simp add: ids_ok_def)
  ultimately have "node_id st' i = (if s then node_id st (b + k) OR bisection_flag depth else node_id st (b + k))"
    using a(11) [of ?v] k(3) by (simp add: node_id_def GetBisectionID_def)
  then show ?thesis using k(1) by (intro exI [of _ "b + k"]) simp
qed

section \<open>The invariant of the run\<close>

definition tn_range :: "TreeNode \<Rightarrow> nat set" where
  "tn_range t = {tn_begin t..<tn_end t}"

text \<open>A task: its view is well-formed and symmetric and a part of one of the views \<open>Vs\<close>, each
  given with its range, its nodes have one and the same id, and the bits from its depth on are
  free.\<close>

definition task_ok :: "(nat \<times> nat \<times> view_node list) set \<Rightarrow> RecursiveBisectionState \<Rightarrow> TreeNode \<Rightarrow> bool" where
  "task_ok Vs st t \<longleftrightarrow>
     (let V = abs_view (bisection_graph st) (tn_begin t) (tn_end t)
      in view_ok (bisection_graph st) (tn_begin t) (tn_end t) \<and> sym_view V \<and>
         (\<exists>(b, e, W) \<in> Vs. tn_range t \<subseteq> {b..<e} \<and> (\<exists>S. V = restrict_view S W))) \<and>
     tn_depth t \<le> 32 \<and>
     (\<forall>i \<in> tn_range t. \<forall>j \<in> tn_range t. node_id st i = node_id st j) \<and>
     (\<forall>i \<in> tn_range t. \<forall>d. tn_depth t \<le> d \<longrightarrow> d < 32 \<longrightarrow> \<not> bit (node_id st i) (31 - d))"

lemma task_okD:
  assumes "task_ok Vs st t"
  shows "view_ok (bisection_graph st) (tn_begin t) (tn_end t)"
    and "sym_view (abs_view (bisection_graph st) (tn_begin t) (tn_end t))"
    and "\<exists>(b, e, W) \<in> Vs. tn_range t \<subseteq> {b..<e} \<and>
      (\<exists>S. abs_view (bisection_graph st) (tn_begin t) (tn_end t) = restrict_view S W)"
    and "tn_depth t \<le> 32"
    and "i \<in> tn_range t \<Longrightarrow> j \<in> tn_range t \<Longrightarrow> node_id st i = node_id st j"
    and "i \<in> tn_range t \<Longrightarrow> tn_depth t \<le> d \<Longrightarrow> d < 32 \<Longrightarrow> \<not> bit (node_id st i) (31 - d)"
  using assms unfolding task_ok_def Let_def by blast+

text \<open>Two tasks have no node in common and differ in a bit above their depths.\<close>

definition tasks_apart :: "RecursiveBisectionState \<Rightarrow> TreeNode \<Rightarrow> TreeNode \<Rightarrow> bool" where
  "tasks_apart st s t \<longleftrightarrow> (\<forall>i \<in> tn_range s. \<forall>j \<in> tn_range t. i \<noteq> j \<and>
     (\<exists>d < min (tn_depth s) (tn_depth t). bit (node_id st i) (31 - d) \<noteq> bit (node_id st j) (31 - d)))"

lemma tasks_apart_sym: "tasks_apart st s t \<Longrightarrow> tasks_apart st t s"
  unfolding tasks_apart_def by (metis min.commute)

definition run_inv :: "(nat \<times> nat \<times> view_node list) set \<Rightarrow> nat \<Rightarrow> nat \<Rightarrow> nat set \<Rightarrow> RecursiveBisectionState \<Rightarrow> TreeNode multiset \<Rightarrow> bool" where
  "run_inv Vs nn ne U st M \<longleftrightarrow>
     graph_ok (bisection_graph st) \<and> ids_ok st \<and>
     length (bg_nodes (bisection_graph st)) = nn \<and> length (bg_edges (bisection_graph st)) = ne \<and>
     (\<forall>t \<in># M. task_ok Vs st t) \<and> all_pairs (tasks_apart st) M \<and> (\<Union>t \<in> set_mset M. tn_range t) = U"

definition left_of :: "TreeNode \<Rightarrow> nat \<Rightarrow> TreeNode" where
  "left_of t c = \<lparr>tn_begin = tn_begin t, tn_end = c, tn_depth = tn_depth t + 1\<rparr>"

definition right_of :: "TreeNode \<Rightarrow> nat \<Rightarrow> TreeNode" where
  "right_of t c = \<lparr>tn_begin = c, tn_end = tn_end t, tn_depth = tn_depth t + 1\<rparr>"

lemma task_flags_clear:
  assumes "task_ok Vs st t" "tn_depth t < 32"
  shows "flags_clear st (tn_begin t) (tn_end t) (tn_depth t)"
proof -
  have "\<not> bit (node_id st i) (31 - tn_depth t)" if "tn_begin t \<le> i" "i < tn_end t" for i
    by (rule task_okD(6) [OF assms(1) _ order_refl assms(2)]) (use that in \<open>simp add: tn_range_def\<close>)
  then show ?thesis
    unfolding flags_clear_def by (auto simp: in_slice and_flag_clear [OF assms(2)] node_id_def GetBisectionID_def)
qed

text \<open>Another task does not notice.\<close>

lemma task_ok_frame:
  assumes inv: "graph_ok (bisection_graph st)" "ids_ok st" and t: "task_ok Vs st t" "tn_depth t < 32"
    and a: "ApplyBisection st (tn_begin t) (tn_end t) (tn_depth t) sides = (st', c)"
    and x: "task_ok Vs st x" "tasks_apart st t x"
  shows "task_ok Vs st' x" "\<And>i. i \<in> tn_range x \<Longrightarrow> node_id st' i = node_id st i"
proof -
  note vt = task_okD(1) [OF t(1)] and vx = task_okD(1) [OF x(1)]
  note clear = task_flags_clear [OF t]
  note sp = ApplyBisection_spec [OF inv(1) vt inv(2) clear t(2) a]
  have out: "i < tn_begin t \<or> tn_end t \<le> i" and len: "i < length (bg_nodes (bisection_graph st))" if "i \<in> tn_range x" for i
  proof -
    show "i < length (bg_nodes (bisection_graph st))" using that vx by (auto simp: tn_range_def view_ok_def)
    have "i \<notin> tn_range t" using x(2) that unfolding tasks_apart_def by blast
    then show "i < tn_begin t \<or> tn_end t \<le> i" by (auto simp: tn_range_def)
  qed
  show ids: "node_id st' i = node_id st i" if "i \<in> tn_range x" for i
    using node_id_outside [OF inv(1) vt inv(2) clear t(2) a len [OF that] out [OF that]] .
  have same: "bg_nodes (bisection_graph st') ! m = bg_nodes (bisection_graph st) ! m \<and>
      node_edges (bisection_graph st') (bg_nodes (bisection_graph st) ! m) = node_edges (bisection_graph st) (bg_nodes (bisection_graph st) ! m)"
    if m: "tn_begin x \<le> m" "m < tn_end x" for m
  proof -
    have "m \<in> tn_range x" using m by (simp add: tn_range_def)
    from sp(9) [OF len [OF this] out [OF this]] show ?thesis .
  qed
  have fr: "abs_view (bisection_graph st') (tn_begin x) (tn_end x) = abs_view (bisection_graph st) (tn_begin x) (tn_end x)"
    "view_ok (bisection_graph st') (tn_begin x) (tn_end x)"
    using frame_view [OF vx sp(6)] same by blast+
  show "task_ok Vs st' x"
    unfolding task_ok_def Let_def fr(1)
  proof (intro conjI ballI allI impI)
    fix i j assume "i \<in> tn_range x" "j \<in> tn_range x"
    then show "node_id st' i = node_id st' j" using ids task_okD(5) [OF x(1)] by metis
  next
    fix i d assume "i \<in> tn_range x" "tn_depth x \<le> d" "d < 32"
    then show "\<not> bit (node_id st' i) (31 - d)" using ids task_okD(6) [OF x(1)] by simp
  qed (use fr(2) task_okD(2-4) [OF x(1)] in blast)+
qed

text \<open>The two halves are tasks again, apart from each other and from the other tasks.\<close>

lemma half_ok:
  fixes s :: bool
  assumes inv: "graph_ok (bisection_graph st)" "ids_ok st" and t: "task_ok Vs st t" "tn_depth t < 32"
    and a: "ApplyBisection st (tn_begin t) (tn_end t) (tn_depth t) sides = (st', c)"
  defines "h \<equiv> if s then right_of t c else left_of t c"
  shows "task_ok Vs st' h"
    and "i \<in> tn_range h \<Longrightarrow> \<exists>k \<in> tn_range t. \<forall>d < 32.
      bit (node_id st' i) (31 - d) = (bit (node_id st k) (31 - d) \<or> s \<and> d = tn_depth t)"
proof -
  note vt = task_okD(1) [OF t(1)] and clear = task_flags_clear [OF t]
  note sp = ApplyBisection_spec [OF inv(1) vt inv(2) clear t(2) a]
  have range: "tn_range h = {if s then c else tn_begin t..<if s then tn_end t else c}"
    by (simp add: h_def tn_range_def left_of_def right_of_def)
  have half: "\<exists>k \<in> tn_range t. node_id st' i = (if s then node_id st k OR bisection_flag (tn_depth t) else node_id st k)"
    if i: "i \<in> tn_range h" for i
  proof -
    have "if s then c \<le> i \<and> i < tn_end t else tn_begin t \<le> i \<and> i < c" using i unfolding range by (simp split: if_splits)
    from half_ids [OF inv(1) vt inv(2) clear t(2) a this] show ?thesis by (auto simp: tn_range_def)
  qed
  show bits: "\<exists>k \<in> tn_range t. \<forall>d < 32. bit (node_id st' i) (31 - d) = (bit (node_id st k) (31 - d) \<or> s \<and> d = tn_depth t)"
    if i: "i \<in> tn_range h" for i
  proof -
    obtain k where k: "k \<in> tn_range t" "node_id st' i = (if s then node_id st k OR bisection_flag (tn_depth t) else node_id st k)"
      using half [OF i] by blast
    have "bit (node_id st' i) (31 - d) = (bit (node_id st k) (31 - d) \<or> s \<and> d = tn_depth t)" if "d < 32" for d
      unfolding k(2) using that t(2) by (auto simp: bit_or_iff bit_flag)
    then show ?thesis using k(1) by blast
  qed
  show "task_ok Vs st' h"
    unfolding task_ok_def Let_def
  proof (intro conjI ballI allI impI)
    have view: "abs_view (bisection_graph st') (tn_begin h) (tn_end h) =
        restrict_view (side_ids (bisection_graph st) (tn_begin t) (tn_end t) sides s)
          (abs_view (bisection_graph st) (tn_begin t) (tn_end t))"
      using sp(7,8) by (simp add: h_def left_of_def right_of_def)
    show "view_ok (bisection_graph st') (tn_begin h) (tn_end h)"
      using sp(4,5) by (simp add: h_def left_of_def right_of_def)
    show "sym_view (abs_view (bisection_graph st') (tn_begin h) (tn_end h))"
      unfolding view by (rule sym_restrict [OF task_okD(2) [OF t(1)]])
    obtain b e W S where W: "(b, e, W) \<in> Vs" "tn_range t \<subseteq> {b..<e}"
      "abs_view (bisection_graph st) (tn_begin t) (tn_end t) = restrict_view S W"
      using task_okD(3) [OF t(1)] by blast
    moreover have "tn_range h \<subseteq> tn_range t"
      using sp(1,2) by (auto simp: h_def tn_range_def left_of_def right_of_def)
    ultimately show "\<exists>(b, e, W) \<in> Vs. tn_range h \<subseteq> {b..<e} \<and>
        (\<exists>S. abs_view (bisection_graph st') (tn_begin h) (tn_end h) = restrict_view S W)"
      unfolding view W(3) restrict_restrict by blast
    show "tn_depth h \<le> 32" using t(2) by (simp add: h_def left_of_def right_of_def)
    fix i j assume i: "i \<in> tn_range h" and j: "j \<in> tn_range h"
    then show "node_id st' i = node_id st' j" using half [OF i] half [OF j] task_okD(5) [OF t(1)] by metis
  next
    fix i d assume i: "i \<in> tn_range h" and d: "tn_depth h \<le> d" "d < 32"
    obtain k where k: "k \<in> tn_range t" "\<forall>d < 32. bit (node_id st' i) (31 - d) = (bit (node_id st k) (31 - d) \<or> s \<and> d = tn_depth t)"
      using bits [OF i] by blast
    have "tn_depth t < d" using d(1) by (simp add: h_def left_of_def right_of_def split: if_splits)
    then show "\<not> bit (node_id st' i) (31 - d)" using k d(2) task_okD(6) [OF t(1) k(1), of d] by simp
  qed
qed

lemma halves_apart:
  assumes inv: "graph_ok (bisection_graph st)" "ids_ok st" and t: "task_ok Vs st t" "tn_depth t < 32"
    and a: "ApplyBisection st (tn_begin t) (tn_end t) (tn_depth t) sides = (st', c)"
  shows "tasks_apart st' (left_of t c) (right_of t c)"
    and "task_ok Vs st x \<Longrightarrow> tasks_apart st t x \<Longrightarrow> tasks_apart st' (if s then right_of t c else left_of t c) x"
proof -
  note vt = task_okD(1) [OF t(1)] and clear = task_flags_clear [OF t]
  note sp = ApplyBisection_spec [OF inv(1) vt inv(2) clear t(2) a]
  show "tasks_apart st' (left_of t c) (right_of t c)"
    unfolding tasks_apart_def
  proof (intro ballI conjI exI [of _ "tn_depth t"])
    fix i j assume i: "i \<in> tn_range (left_of t c)" and j: "j \<in> tn_range (right_of t c)"
    show "i \<noteq> j" using i j by (simp add: tn_range_def left_of_def right_of_def)
    show "tn_depth t < min (tn_depth (left_of t c)) (tn_depth (right_of t c))" by (simp add: left_of_def right_of_def)
    obtain k where "k \<in> tn_range t" "bit (node_id st' i) (31 - tn_depth t) = bit (node_id st k) (31 - tn_depth t)"
      using half_ok(2) [OF inv t a, where s = False] i t(2) by auto
    moreover have "bit (node_id st' j) (31 - tn_depth t)"
      using half_ok(2) [OF inv t a, where s = True] j t(2) by auto
    ultimately show "bit (node_id st' i) (31 - tn_depth t) \<noteq> bit (node_id st' j) (31 - tn_depth t)"
      using task_okD(6) [OF t(1) _ order_refl t(2)] by blast
  qed
  assume x: "task_ok Vs st x" "tasks_apart st t x"
  let ?h = "if s then right_of t c else left_of t c"
  have sub: "tn_range ?h \<subseteq> tn_range t" using sp(1,2) by (auto simp: tn_range_def left_of_def right_of_def)
  show "tasks_apart st' ?h x"
    unfolding tasks_apart_def
  proof (intro ballI conjI)
    fix i j assume i: "i \<in> tn_range ?h" and j: "j \<in> tn_range x"
    show "i \<noteq> j" using i j sub x(2) unfolding tasks_apart_def by blast
    obtain k where k: "k \<in> tn_range t" "\<forall>d < 32. bit (node_id st' i) (31 - d) = (bit (node_id st k) (31 - d) \<or> s \<and> d = tn_depth t)"
      using half_ok(2) [OF inv t a i] by blast
    obtain d where d: "d < min (tn_depth t) (tn_depth x)" "bit (node_id st k) (31 - d) \<noteq> bit (node_id st j) (31 - d)"
      using x(2) k(1) j unfolding tasks_apart_def by blast
    have "bit (node_id st' i) (31 - d) = bit (node_id st k) (31 - d)" using k(2) d(1) t(2) by simp
    moreover have "node_id st' j = node_id st j" using task_ok_frame(2) [OF inv t a x j] .
    moreover have "d < min (tn_depth ?h) (tn_depth x)" using d(1) by (simp add: left_of_def right_of_def)
    ultimately show "\<exists>d < min (tn_depth ?h) (tn_depth x). bit (node_id st' i) (31 - d) \<noteq> bit (node_id st' j) (31 - d)"
      using d(2) by metis
  qed
qed

section \<open>The run\<close>

definition env_ok :: "BisectionEnv \<Rightarrow> bool" where
  "env_ok E \<longleftrightarrow> nth_element_ok (env_nth_element E) \<and> hash_order_ok (env_hash_order E) \<and> (\<forall>t. env_rounds E t \<noteq> [])"

definition params_ok :: "BisectionParams \<Rightarrow> bool" where
  "params_ok P \<longleftrightarrow> 2 \<le> maximum_cell_size P \<and> 1 \<le> balance P \<and> 0 \<le> boundary_factor P \<and> boundary_factor P \<le> 1 / 2"

lemma run_inv_split:
  assumes inv: "run_inv Vs nn ne U st (add_mset t N)" and t: "tn_depth t < 32"
    and a: "ApplyBisection st (tn_begin t) (tn_end t) (tn_depth t) sides = (st', c)"
  shows "run_inv Vs nn ne U st' (add_mset (left_of t c) (add_mset (right_of t c) N))"
proof -
  have g: "graph_ok (bisection_graph st)" "ids_ok st" and ok: "task_ok Vs st t" "\<forall>x \<in># N. task_ok Vs st x"
    and pairs: "all_pairs (tasks_apart st) N" "\<forall>x \<in># N. tasks_apart st t x"
    using inv all_pairs_add [of "tasks_apart st" t N] tasks_apart_sym by (auto simp: run_inv_def)
  note vt = task_okD(1) [OF ok(1)] and clear = task_flags_clear [OF ok(1) t]
  note sp = ApplyBisection_spec [OF g(1) vt g(2) clear t a]
  have others: "task_ok Vs st' x" if "x \<in># N" for x
    using task_ok_frame(1) [OF g ok(1) t a] ok(2) pairs(2) that by blast
  have "tasks_apart st' x y" if "{#x, y#} \<subseteq># N" for x y
  proof -
    have xy: "x \<in># N" "y \<in># N" using mset_subset_eqD [OF that] by auto
    have ids: "node_id st' i = node_id st i" if "i \<in> tn_range z" "z \<in># N" for i z
      using task_ok_frame(2) [OF g ok(1) t a] ok(2) pairs(2) that by blast
    have "tasks_apart st x y" using pairs(1) \<open>{#x, y#} \<subseteq># N\<close> unfolding all_pairs_def by blast
    then show ?thesis using ids [OF _ xy(1)] ids [OF _ xy(2)] unfolding tasks_apart_def by simp
  qed
  then have "all_pairs (tasks_apart st') N" unfolding all_pairs_def by blast
  moreover have "tasks_apart st' (left_of t c) x" "tasks_apart st' (right_of t c) x" if "x \<in># N" for x
    using halves_apart(2) [OF g ok(1) t a, of x False] halves_apart(2) [OF g ok(1) t a, of x True] ok(2) pairs(2) that by simp_all
  ultimately have "all_pairs (tasks_apart st') (add_mset (left_of t c) (add_mset (right_of t c) N))"
    using halves_apart(1) [OF g ok(1) t a] all_pairs_add [of "tasks_apart st'"] tasks_apart_sym by simp
  moreover have "task_ok Vs st' (left_of t c)" "task_ok Vs st' (right_of t c)"
    using half_ok(1) [OF g ok(1) t a, of False] half_ok(1) [OF g ok(1) t a, of True] by simp_all
  moreover have "tn_range t = tn_range (left_of t c) \<union> tn_range (right_of t c)"
    using sp(1,2) by (auto simp: tn_range_def left_of_def right_of_def)
  ultimately show ?thesis using inv others sp(3,6,13,14) by (auto simp: run_inv_def)
qed

lemma bisect_node_step:
  assumes E: "env_ok E" and P: "params_ok P"
    and inv: "run_inv Vs nn ne U st (add_mset t N)" and t: "2 \<le> tn_size t" "tn_depth t < 32"
    and small: "nn < INVALID_LEVEL" "ne * nn < 2 ^ 64 - 1"
  shows "\<exists>st' c. bisect_node E P st t = Some (st', filter (\<lambda>h. \<not> terminal P h) [left_of t c, right_of t c]) \<and>
    run_inv Vs nn ne U st' (add_mset (left_of t c) (add_mset (right_of t c) N))"
proof -
  let ?g = "bisection_graph st"
  have g: "graph_ok ?g" and ok: "task_ok Vs st t" and len: "length (bg_nodes ?g) = nn" "length (bg_edges ?g) = ne"
    using inv by (auto simp: run_inv_def)
  have te: "tn_end t \<le> length (bg_nodes ?g)" using task_okD(1) [OF ok] by (simp add: view_ok_def)
  have und: "undirected (tn_view ?g t)" by (rule undirected_view [OF g task_okD(1,2) [OF ok]])
  have size: "tn_size t \<le> nn" using te len(1) by (simp add: tn_size_def)
  have "num_arcs (tn_view ?g t) * tn_size t \<le> ne * nn" using num_arcs_le [OF g te] len(2) size by (intro mult_le_mono) simp_all
  then have arcs: "num_arcs (tn_view ?g t) * bv_NumberOfNodes (tn_view ?g t) < 2 ^ 64 - 1" using small(2) by simp
  have lib: "nth_element_ok (env_nth_element E)" "hash_order_ok (env_hash_order E)" "env_rounds E t \<noteq> []"
    using E by (simp_all add: env_ok_def)
  have par: "0 \<le> boundary_factor P" "boundary_factor P \<le> 1 / 2" "1 \<le> balance P" using P by (simp_all add: params_ok_def)
  have "2 \<le> bv_NumberOfNodes (tn_view ?g t)" "bv_NumberOfNodes (tn_view ?g t) < INVALID_LEVEL" using t(1) size small(1) by simp_all
  from computeInertialFlowCut_spec [OF lib(1,2) par und this arcs lib(3), of "num_optimizing_cuts P"] obtain best where
    best: "computeInertialFlowCut (env_nth_element E) (env_hash_order E) (env_rounds E t) (tn_view ?g t)
      (num_optimizing_cuts P) (balance P) (boundary_factor P) = Some best" by blast
  obtain st' c where a: "ApplyBisection st (tn_begin t) (tn_end t) (tn_depth t) (flags best) = (st', c)" by fastforce
  have "bisect_node E P st t = Some (st', filter (\<lambda>h. \<not> terminal P h) [left_of t c, right_of t c])"
    by (simp add: bisect_node_def best a Let_def left_of_def right_of_def)
  then show ?thesis using run_inv_split [OF inv t(2) a] by blast
qed

text \<open>The work that is left: a task of depth \<open>d\<close> has at most two successors of depth \<open>d + 1\<close>.\<close>

definition work :: "TreeNode list \<Rightarrow> nat" where
  "work tasks = sum_list (map (\<lambda>t. 3 ^ (32 - tn_depth t)) tasks)"

lemma work_halves:
  assumes "tn_depth t < 32"
  shows "work (filter Q [left_of t c, right_of t c]) < 3 ^ (32 - tn_depth t)"
proof -
  have "32 - tn_depth t = Suc (31 - tn_depth t)" using assms by simp
  then show ?thesis by (auto simp: work_def left_of_def right_of_def)
qed

lemma bisect_forest_returns:
  assumes E: "env_ok E" and P: "params_ok P" and small: "nn < INVALID_LEVEL" "ne * nn < 2 ^ 64 - 1"
  shows "run_inv Vs nn ne U st (mset tasks + mset leaves) \<Longrightarrow> \<forall>t \<in> set tasks. 2 \<le> tn_size t \<and> tn_depth t < 32 \<Longrightarrow>
    \<exists>st' leaves'. bisect_forest E P st tasks = Some st' \<and> run_inv Vs nn ne U st' (mset leaves') \<and>
      set leaves \<subseteq> set leaves' \<and> (\<forall>t \<in> set leaves'. terminal P t \<or> t \<in> set leaves)"
proof (induction "work tasks" arbitrary: tasks leaves st rule: less_induct)
  case less
  show ?case
  proof (cases "tasks = []")
    case True
    then show ?thesis using less.prems by (auto simp: bisect_forest.simps)
  next
    case False
    define k where "k = env_pick E tasks mod length tasks"
    define t where "t = tasks ! k"
    define rest where "rest = take k tasks @ drop (Suc k) tasks"
    have k: "k < length tasks" using False by (simp add: k_def)
    have split: "tasks = take k tasks @ t # drop (Suc k) tasks" unfolding t_def using k by (rule id_take_nth_drop)
    have m: "mset tasks = add_mset t (mset rest)" "set rest \<subseteq> set tasks" "t \<in> set tasks"
      using split k by (auto simp: rest_def t_def dest: in_set_takeD in_set_dropD) (metis mset_append mset.simps(2) union_mset_add_mset_right)
    have t: "2 \<le> tn_size t" "tn_depth t < 32" using less.prems(2) m(3) by blast+
    have inv: "run_inv Vs nn ne U st (add_mset t (mset rest + mset leaves))" using less.prems(1) m(1) by simp
    obtain st' c where step: "bisect_node E P st t = Some (st', filter (\<lambda>h. \<not> terminal P h) [left_of t c, right_of t c])"
      and inv': "run_inv Vs nn ne U st' (add_mset (left_of t c) (add_mset (right_of t c) (mset rest + mset leaves)))"
      using bisect_node_step [OF E P inv t small] by blast
    define fed where "fed = filter (\<lambda>h. \<not> terminal P h) [left_of t c, right_of t c]"
    define leaves1 where "leaves1 = filter (terminal P) [left_of t c, right_of t c] @ leaves"
    have eq: "bisect_forest E P st tasks = bisect_forest E P st' (rest @ fed)"
      using False step by (subst bisect_forest.simps) (simp add: Let_def fed_def rest_def t_def k_def)
    have "work tasks = work rest + 3 ^ (32 - tn_depth t)" by (subst split) (simp add: work_def rest_def)
    then have "work (rest @ fed) < work tasks" using work_halves [OF t(2), of "\<lambda>h. \<not> terminal P h" c] by (simp add: work_def fed_def)
    moreover have "add_mset (left_of t c) (add_mset (right_of t c) (mset rest + mset leaves)) =
        mset (rest @ fed) + mset leaves1" by (simp add: fed_def leaves1_def)
    then have "run_inv Vs nn ne U st' (mset (rest @ fed) + mset leaves1)" using inv' by (simp only:)
    moreover have "\<forall>h \<in> set (rest @ fed). 2 \<le> tn_size h \<and> tn_depth h < 32"
      using less.prems(2) m(2) P by (auto simp: fed_def terminal_def params_ok_def Let_def not_le not_less split: if_splits)
    ultimately obtain st'' leaves' where "bisect_forest E P st' (rest @ fed) = Some st''"
      "run_inv Vs nn ne U st'' (mset leaves')" "set leaves1 \<subseteq> set leaves'"
      "\<forall>h \<in> set leaves'. terminal P h \<or> h \<in> set leaves1" using less.hyps by blast
    moreover have "\<forall>h \<in> set leaves1. terminal P h \<or> h \<in> set leaves" "set leaves \<subseteq> set leaves1"
      by (auto simp: leaves1_def)
    ultimately show ?thesis unfolding eq by blast
  qed
qed

section \<open>The forest\<close>

lemma all_pairs_sorted:
  assumes "\<And>x y. R x y \<Longrightarrow> R y x"
  shows "sorted_wrt R xs \<Longrightarrow> all_pairs R (mset xs)"
  by (induction xs) (simp_all add: all_pairs_empty all_pairs_add [OF assms])

definition root_task :: "RecursiveBisectionState \<Rightarrow> nat \<times> nat \<Rightarrow> TreeNode" where
  "root_task st = (\<lambda>(b, e). \<lparr>tn_begin = b, tn_end = e, tn_depth = scc_levels st\<rparr>)"

text \<open>
  What the partition by components leaves: every component is a well-formed symmetric view whose
  nodes share one id, free below the component bits, and the components are disjoint and differ
  in the component bits.  Those that are bisected have at least two nodes.
\<close>

definition component_ok :: "RecursiveBisectionState \<Rightarrow> nat \<times> nat \<Rightarrow> bool" where
  "component_ok st = (\<lambda>(b, e). view_ok (bisection_graph st) b e \<and> sym_view (abs_view (bisection_graph st) b e) \<and>
     (\<exists>x. \<forall>i \<in> {b..<e}. node_id st i = x \<and> (\<forall>d. scc_levels st \<le> d \<longrightarrow> d < 32 \<longrightarrow> \<not> bit x (31 - d))))"

definition components_ok :: "RecursiveBisectionState \<Rightarrow> (nat \<times> nat) list \<Rightarrow> bool" where
  "components_ok st components \<longleftrightarrow>
     graph_ok (bisection_graph st) \<and> ids_ok st \<and> scc_levels st < 32 \<and> (\<forall>c \<in> set components. component_ok st c) \<and>
     sorted_wrt (tasks_apart st) (map (root_task st) components)"

definition forest_ok :: "RecursiveBisectionState \<Rightarrow> (nat \<times> nat) list \<Rightarrow> bool" where
  "forest_ok st components \<longleftrightarrow> components_ok st (butlast components) \<and> (\<forall>(b, e) \<in> set (butlast components). b + 2 \<le> e)"

definition component_views :: "RecursiveBisectionState \<Rightarrow> (nat \<times> nat) list \<Rightarrow> (nat \<times> nat \<times> view_node list) set" where
  "component_views st components = (\<lambda>(b, e). (b, e, abs_view (bisection_graph st) b e)) ` set components"

definition component_range :: "(nat \<times> nat) list \<Rightarrow> nat set" where
  "component_range components = (\<Union>(b, e) \<in> set components. {b..<e})"

lemma components_inv:
  assumes "components_ok st components"
  shows "run_inv (component_views st components) (length (bg_nodes (bisection_graph st))) (length (bg_edges (bisection_graph st)))
      (component_range components) st (mset (map (root_task st) components))"
proof -
  let ?Vs = "component_views st components" and ?g = "bisection_graph st"
  have ok: "task_ok ?Vs st (root_task st (b, e))" if c: "(b, e) \<in> set components" for b e
  proof -
    have d: "component_ok st (b, e)" using assms c unfolding components_ok_def by blast
    then have d': "view_ok ?g b e" "sym_view (abs_view ?g b e)" by (simp_all add: component_ok_def)
    have "(b, e, abs_view ?g b e) \<in> ?Vs" using c by (force simp: component_views_def)
    moreover have "abs_view ?g b e = restrict_view UNIV (abs_view ?g b e)" by (rule restrict_UNIV [symmetric])
    ultimately have part: "\<exists>(b', e', W) \<in> ?Vs. {b..<e} \<subseteq> {b'..<e'} \<and> (\<exists>S. abs_view ?g b e = restrict_view S W)" by blast
    obtain x where x: "\<forall>i \<in> {b..<e}. node_id st i = x \<and> (\<forall>d. scc_levels st \<le> d \<longrightarrow> d < 32 \<longrightarrow> \<not> bit x (31 - d))"
      using d unfolding component_ok_def by blast
    have "scc_levels st \<le> 32" using assms by (simp add: components_ok_def)
    then show ?thesis
      unfolding task_ok_def root_task_def tn_range_def Let_def prod.case TreeNode.select_convs
      using d' part x by (intro conjI ballI allI impI) (assumption | simp)+
  qed
  have "all_pairs (tasks_apart st) (mset (map (root_task st) components))"
    by (rule all_pairs_sorted [OF tasks_apart_sym]) (use assms in \<open>simp_all only: components_ok_def\<close>)
  moreover have "(\<Union>t \<in> set (map (root_task st) components). tn_range t) = component_range components"
    by (auto simp: root_task_def tn_range_def component_range_def)
  ultimately show ?thesis
    using ok assms unfolding run_inv_def components_ok_def by (auto simp del: UN_simps)
qed

lemma root_tasks_size:
  assumes "components_ok st components" "\<forall>(b, e) \<in> set big. b + 2 \<le> e"
  shows "\<forall>t \<in> set (map (root_task st) big). 2 \<le> tn_size t \<and> tn_depth t < 32"
  using assms by (fastforce simp: components_ok_def root_task_def tn_size_def)

lemma leaf_ids:
  assumes "run_inv Vs nn ne U st (mset leaves)" "i \<in> U" "j \<in> U"
  shows "node_id st i = node_id st j \<longleftrightarrow> (\<exists>t \<in> set leaves. i \<in> tn_range t \<and> j \<in> tn_range t)"
proof
  obtain s t where st: "s \<in> set leaves" "t \<in> set leaves" "i \<in> tn_range s" "j \<in> tn_range t"
    using assms unfolding run_inv_def by auto
  assume eq: "node_id st i = node_id st j"
  have "s = t"
  proof (rule ccontr)
    assume "s \<noteq> t"
    then have "{#s, t#} \<subseteq># mset leaves"
      using st(1,2) by (intro mset_subset_eqI) (auto simp: Suc_le_eq)
    then have "tasks_apart st s t" using assms(1) unfolding run_inv_def all_pairs_def by blast
    then show False using st(3,4) eq unfolding tasks_apart_def by fastforce
  qed
  then show "\<exists>t \<in> set leaves. i \<in> tn_range t \<and> j \<in> tn_range t" using st by blast
next
  assume "\<exists>t \<in> set leaves. i \<in> tn_range t \<and> j \<in> tn_range t"
  then show "node_id st i = node_id st j" using assms(1) task_okD(5) unfolding run_inv_def by (metis set_mset_mset)
qed

text \<open>
  Property C7. Recursive bisection.  In whatever order the tasks run, the bisection of the
  components returns.  Every leaf is smaller than the maximal cell size or has used all bits, is
  a part of a component with exactly the edges between its own nodes, and two nodes of the
  components have the same bisection id exactly when they are in the same leaf.
\<close>

theorem RecursiveBisection_correct:
  assumes "env_ok E" "params_ok P" "forest_ok st components"
    and "length (bg_nodes (bisection_graph st)) < INVALID_LEVEL"
    and "length (bg_edges (bisection_graph st)) * length (bg_nodes (bisection_graph st)) < 2 ^ 64 - 1"
  shows "\<exists>st' leaves. RecursiveBisection E P st components = Some st' \<and>
    (\<forall>t \<in> set leaves. tn_size t < maximum_cell_size P \<or> 32 \<le> tn_depth t) \<and>
    (\<forall>t \<in> set leaves. \<exists>(b, e) \<in> set (butlast components). \<exists>S.
       abs_view (bisection_graph st') (tn_begin t) (tn_end t) = restrict_view S (abs_view (bisection_graph st) b e)) \<and>
    (\<forall>i j. i \<in> (\<Union>(b, e) \<in> set (butlast components). {b..<e}) \<longrightarrow> j \<in> (\<Union>(b, e) \<in> set (butlast components). {b..<e}) \<longrightarrow>
       (node_id st' i = node_id st' j \<longleftrightarrow> (\<exists>t \<in> set leaves. i \<in> tn_range t \<and> j \<in> tn_range t)))"
proof -
  let ?big = "butlast components"
  have ok: "components_ok st ?big" "\<forall>(b, e) \<in> set ?big. b + 2 \<le> e" using assms(3) by (simp_all add: forest_ok_def)
  have "run_inv (component_views st ?big) (length (bg_nodes (bisection_graph st))) (length (bg_edges (bisection_graph st)))
      (component_range ?big) st (mset (map (root_task st) ?big) + mset [])" using components_inv [OF ok(1)] by simp
  from bisect_forest_returns [OF assms(1,2,4,5) this root_tasks_size [OF ok]] obtain st' leaves where
    r: "bisect_forest E P st (map (root_task st) ?big) = Some st'"
      "run_inv (component_views st ?big) (length (bg_nodes (bisection_graph st))) (length (bg_edges (bisection_graph st)))
         (component_range ?big) st' (mset leaves)"
      "\<forall>t \<in> set leaves. terminal P t" by auto
  have "\<exists>(b, e) \<in> set ?big. \<exists>S.
      abs_view (bisection_graph st') (tn_begin t) (tn_end t) = restrict_view S (abs_view (bisection_graph st) b e)"
    if "t \<in> set leaves" for t
    using task_okD(3) [of "component_views st ?big" st' t] r(2) that unfolding run_inv_def component_views_def by fastforce
  moreover have "RecursiveBisection E P st components = Some st'"
    using r(1) by (simp add: RecursiveBisection_def root_task_def)
  moreover have "\<forall>t \<in> set leaves. tn_size t < maximum_cell_size P \<or> 32 \<le> tn_depth t" using r(3) by (simp add: terminal_def)
  ultimately show ?thesis
    using leaf_ids [OF r(2)] unfolding component_range_def by (intro exI [of _ st'] exI [of _ leaves]) blast
qed

definition example_env :: BisectionEnv where
  "example_env = \<lparr>env_nth_element = cmp_sort, env_hash_order = rev, env_rounds = (\<lambda>_. [0]), env_pick = (\<lambda>_. 0)\<rparr>"

definition example_params :: BisectionParams where
  "example_params = \<lparr>maximum_cell_size = 2, balance = 6 / 5, boundary_factor = 1 / 4, num_optimizing_cuts = 1\<rparr>"

lemma example_forest: "forest_ok example_state [(0, 3), (3, 3)]"
proof -
  have "sym_view (abs_view (bisection_graph example_state) 0 3)"
    unfolding example_state_view by (simp add: sym_view_def)
  moreover have "node_id example_state i = 0" if "i \<in> {0..<3}" for i
    using that by (auto simp: node_id_def GetBisectionID_def example_state_def RecursiveBisectionState_init_def
        numeral_3_eq_3 less_Suc_eq)
  moreover have "scc_levels example_state = 0" by (simp add: example_state_def RecursiveBisectionState_init_def)
  ultimately show ?thesis using example_state_ok(1-3) by (auto simp: forest_ok_def components_ok_def component_ok_def)
qed

lemma RecursiveBisection_correct_witness:
  "\<exists>st' leaves. RecursiveBisection example_env example_params example_state [(0, 3), (3, 3)] = Some st' \<and>
     (\<forall>t \<in> set leaves. tn_size t < 2 \<or> 32 \<le> tn_depth t)"
proof -
  have "env_ok example_env" using cmp_sort_ok rev_hash_order_ok by (simp add: env_ok_def example_env_def)
  moreover have "params_ok example_params" by (simp add: params_ok_def example_params_def)
  moreover have "length (bg_nodes (bisection_graph example_state)) < INVALID_LEVEL"
    "length (bg_edges (bisection_graph example_state)) * length (bg_nodes (bisection_graph example_state)) < 2 ^ 64 - 1"
    by (simp_all add: example_state_def RecursiveBisectionState_init_def INVALID_LEVEL_def)
  ultimately show ?thesis
    using RecursiveBisection_correct [OF _ _ example_forest, of example_env example_params]
    by (auto simp: example_params_def)
qed

end
