(* ===== verification/TarjanSCC.thy ===== *)
theory TarjanSCC
  imports OSRM_Prelude
begin

text \<open>
  Strongly connected components, \<^verbatim>\<open>include/util/tarjan_scc.hpp\<close>: Tarjan's algorithm with an
  explicit stack of frames in place of the recursion.

  The template's graph is its number of nodes and the list of targets of every node.
\<close>

section \<open>Definitions\<close>

record TarjanStackFrame =
  tf_v :: NodeID
  tf_parent :: NodeID

record TarjanNode =
  tj_index :: nat
  low_link :: nat
  on_stack :: bool

definition TarjanNode_init :: TarjanNode where
  "TarjanNode_init = \<lparr>tj_index = SPECIAL_NODEID, low_link = SPECIAL_NODEID, on_stack = False\<rparr>"

text \<open>The members of the class and the local variables of \<^verbatim>\<open>Run\<close>.  The top of a stack is the head
  of the list.\<close>

record TarjanSCC =
  components_index :: "nat list"
  component_size_vector :: "nat list"
  recursion_stack :: "TarjanStackFrame list"
  tarjan_stack :: "NodeID list"
  tarjan_node_list :: "TarjanNode list"
  component_index :: nat
  next_index :: nat
  before_recursion :: "bool list"

definition TarjanSCC_init :: "nat \<Rightarrow> TarjanSCC" where
  "TarjanSCC_init number_of_nodes =
     \<lparr>components_index = replicate number_of_nodes SPECIAL_NODEID, component_size_vector = [],
      recursion_stack = [], tarjan_stack = [],
      tarjan_node_list = replicate number_of_nodes TarjanNode_init,
      component_index = 0, next_index = 0, before_recursion = replicate number_of_nodes True\<rparr>"

text \<open>One edge of the node \<open>v\<close> that is entered.\<close>

definition scan_edge :: "NodeID \<Rightarrow> NodeID \<Rightarrow> TarjanSCC \<Rightarrow> TarjanSCC" where
  "scan_edge v vprime st =
     (let nodes = tarjan_node_list st
      in if SPECIAL_NODEID = tj_index (nodes ! vprime)
         then st\<lparr>recursion_stack := \<lparr>tf_v = vprime, tf_parent = v\<rparr> # recursion_stack st\<rparr>
         else if on_stack (nodes ! vprime) \<and> tj_index (nodes ! vprime) < low_link (nodes ! v)
         then st\<lparr>tarjan_node_list := nodes[v := (nodes ! v)\<lparr>low_link := tj_index (nodes ! vprime)\<rparr>]\<rparr>
         else st)"

text \<open>The part before the recursive calls.\<close>

definition enter_node :: "(NodeID \<Rightarrow> NodeID list) \<Rightarrow> TarjanStackFrame \<Rightarrow> TarjanSCC \<Rightarrow> TarjanSCC" where
  "enter_node adj currentFrame st =
     (let v = tf_v currentFrame;
          st1 = st\<lparr>recursion_stack := currentFrame # recursion_stack st,
                   before_recursion := (before_recursion st)[v := False],
                   tarjan_node_list := (tarjan_node_list st)[v :=
                     \<lparr>tj_index = next_index st, low_link = next_index st, on_stack = True\<rparr>],
                   tarjan_stack := v # tarjan_stack st,
                   next_index := next_index st + 1\<rparr>
      in fold (scan_edge v) (adj v) st1)"

text \<open>Popping a component: the stack down to \<open>v\<close>.  The empty stack, whose top the code would
  read, is not reached.\<close>

fun pop_component ::
  "NodeID \<Rightarrow> nat \<Rightarrow> NodeID list \<Rightarrow> nat \<Rightarrow> TarjanNode list \<Rightarrow> nat list \<Rightarrow>
   NodeID list \<times> nat \<times> TarjanNode list \<times> nat list" where
  "pop_component v c [] sz nodes components = ([], sz, nodes, components)"
| "pop_component v c (vprime # stack) sz nodes components =
     (let nodes' = nodes[vprime := (nodes ! vprime)\<lparr>on_stack := False\<rparr>];
          components' = components[vprime := c]
      in if v \<noteq> vprime then pop_component v c stack (sz + 1) nodes' components'
         else (stack, sz + 1, nodes', components'))"

text \<open>The part after the recursive calls.\<close>

definition leave_node :: "TarjanStackFrame \<Rightarrow> TarjanSCC \<Rightarrow> TarjanSCC" where
  "leave_node currentFrame st =
     (let u = tf_parent currentFrame;
          v = tf_v currentFrame;
          nodes = tarjan_node_list st;
          nodes1 = nodes[u := (nodes ! u)\<lparr>low_link := min (low_link (nodes ! u)) (low_link (nodes ! v))\<rparr>];
          st1 = st\<lparr>before_recursion := (before_recursion st)[v := True], tarjan_node_list := nodes1\<rparr>
      in if low_link (nodes1 ! v) = tj_index (nodes1 ! v)
         then (let (stack', size_of_current_component, nodes', components') =
                     pop_component v (component_index st) (tarjan_stack st) 0 nodes1 (components_index st)
               in st1\<lparr>tarjan_stack := stack', tarjan_node_list := nodes', components_index := components',
                      component_size_vector := component_size_vector st @ [size_of_current_component],
                      component_index := component_index st + 1\<rparr>)
         else st1)"

definition tarjan_frame :: "(NodeID \<Rightarrow> NodeID list) \<Rightarrow> TarjanStackFrame \<Rightarrow> TarjanSCC \<Rightarrow> TarjanSCC" where
  "tarjan_frame adj currentFrame st =
     (let v = tf_v currentFrame
      in if before_recursion st ! v \<and> tj_index (tarjan_node_list st ! v) \<noteq> SPECIAL_NODEID then st
         else if before_recursion st ! v then enter_node adj currentFrame st
         else leave_node currentFrame st)"

partial_function (option) tarjan_loop :: "(NodeID \<Rightarrow> NodeID list) \<Rightarrow> TarjanSCC \<Rightarrow> TarjanSCC option" where
  "tarjan_loop adj st =
     (case recursion_stack st of
        [] \<Rightarrow> Some st
      | currentFrame # stack \<Rightarrow>
          tarjan_loop adj (tarjan_frame adj currentFrame (st\<lparr>recursion_stack := stack\<rparr>)))"

fun tarjan_roots :: "(NodeID \<Rightarrow> NodeID list) \<Rightarrow> NodeID list \<Rightarrow> TarjanSCC \<Rightarrow> TarjanSCC option" where
  "tarjan_roots adj [] st = Some st"
| "tarjan_roots adj (node # nodes) st =
     Option.bind (tarjan_loop adj
         (if SPECIAL_NODEID = components_index st ! node
          then st\<lparr>recursion_stack := \<lparr>tf_v = node, tf_parent = node\<rparr> # recursion_stack st\<rparr> else st))
       (tarjan_roots adj nodes)"

text \<open>\<^verbatim>\<open>SPECIAL_NODEID\<close> and \<^verbatim>\<open>UINT_MAX\<close> are the same number.\<close>

definition Run :: "(NodeID \<Rightarrow> NodeID list) \<Rightarrow> nat \<Rightarrow> TarjanSCC \<Rightarrow> TarjanSCC option" where
  "Run adj number_of_nodes st = tarjan_roots adj [0..<number_of_nodes] st"

definition GetNumberOfComponents :: "TarjanSCC \<Rightarrow> nat" where
  "GetNumberOfComponents st = length (component_size_vector st)"

definition GetSizeOneCount :: "TarjanSCC \<Rightarrow> nat" where
  "GetSizeOneCount st = length (filter (\<lambda>value. 1 = value) (component_size_vector st))"

definition GetComponentSize :: "TarjanSCC \<Rightarrow> nat \<Rightarrow> nat" where
  "GetComponentSize st component_id = component_size_vector st ! component_id"

definition GetComponentID :: "TarjanSCC \<Rightarrow> NodeID \<Rightarrow> nat" where
  "GetComponentID st node = components_index st ! node"

section \<open>The low links\<close>

text \<open>
  The invariant of the low links over plain functions and sets: \<open>S\<close> is the stack, \<open>P\<close> the path
  of active nodes, \<open>ix\<close> and \<open>lo\<close> the numbers of a node.  A node of the stack belongs to the last
  active node that was entered before it.
\<close>

definition owns :: "('a \<Rightarrow> nat) \<Rightarrow> 'a set \<Rightarrow> 'a \<Rightarrow> 'a \<Rightarrow> bool" where
  "owns ix P v x \<longleftrightarrow> ix v \<le> ix x \<and> (\<forall>p \<in> P. ix p \<le> ix x \<longrightarrow> ix p \<le> ix v)"

definition low_inv :: "('a \<times> 'a) set \<Rightarrow> ('a \<Rightarrow> nat) \<Rightarrow> ('a \<Rightarrow> nat) \<Rightarrow> 'a set \<Rightarrow> 'a set \<Rightarrow> bool" where
  "low_inv E ix lo S P \<longleftrightarrow>
     inj_on ix S \<and> P \<subseteq> S \<and>
     (\<forall>x \<in> S. \<exists>v \<in> P. ix v \<le> ix x) \<and>
     (\<forall>x \<in> S - P. lo x < ix x) \<and>
     (\<forall>x \<in> S. lo x \<le> ix x \<and> (\<exists>w \<in> S. ix w = lo x \<and> (x, w) \<in> E\<^sup>*)) \<and>
     (\<forall>v \<in> P. \<forall>x \<in> S. owns ix P v x \<longrightarrow> (v, x) \<in> E\<^sup>* \<and> (\<forall>w \<in> S. (x, w) \<in> E \<longrightarrow> lo v \<le> ix w))"

lemma low_invD:
  assumes "low_inv E ix lo S P"
  shows "inj_on ix S" "P \<subseteq> S"
    and "x \<in> S \<Longrightarrow> \<exists>v \<in> P. ix v \<le> ix x"
    and "x \<in> S \<Longrightarrow> x \<notin> P \<Longrightarrow> lo x < ix x"
    and "x \<in> S \<Longrightarrow> lo x \<le> ix x"
    and "x \<in> S \<Longrightarrow> \<exists>w \<in> S. ix w = lo x \<and> (x, w) \<in> E\<^sup>*"
    and "v \<in> P \<Longrightarrow> x \<in> S \<Longrightarrow> owns ix P v x \<Longrightarrow> (v, x) \<in> E\<^sup>*"
    and "v \<in> P \<Longrightarrow> x \<in> S \<Longrightarrow> owns ix P v x \<Longrightarrow> w \<in> S \<Longrightarrow> (x, w) \<in> E \<Longrightarrow> lo v \<le> ix w"
  using assms unfolding low_inv_def by blast+

lemma low_invI:
  assumes "inj_on ix S" "P \<subseteq> S"
    and "\<And>x. x \<in> S \<Longrightarrow> \<exists>v \<in> P. ix v \<le> ix x"
    and "\<And>x. x \<in> S \<Longrightarrow> x \<notin> P \<Longrightarrow> lo x < ix x"
    and "\<And>x. x \<in> S \<Longrightarrow> lo x \<le> ix x"
    and "\<And>x. x \<in> S \<Longrightarrow> \<exists>w \<in> S. ix w = lo x \<and> (x, w) \<in> E\<^sup>*"
    and "\<And>v x. v \<in> P \<Longrightarrow> x \<in> S \<Longrightarrow> owns ix P v x \<Longrightarrow> (v, x) \<in> E\<^sup>*"
    and "\<And>v x w. v \<in> P \<Longrightarrow> x \<in> S \<Longrightarrow> owns ix P v x \<Longrightarrow> w \<in> S \<Longrightarrow> (x, w) \<in> E \<Longrightarrow> lo v \<le> ix w"
  shows "low_inv E ix lo S P"
  using assms unfolding low_inv_def by blast

lemma low_inv_cong:
  assumes "low_inv E ix lo S P" "\<forall>x \<in> S. ix' x = ix x \<and> lo' x = lo x"
  shows "low_inv E ix' lo' S P"
proof -
  note d = low_invD [OF assms(1)]
  have P: "ix' p = ix p" "lo' p = lo p" if "p \<in> P" for p using that d(2) assms(2) by auto
  have o: "owns ix P v x" if "owns ix' P v x" "v \<in> P" "x \<in> S" for v x
    using that assms(2) P unfolding owns_def by auto
  show ?thesis
  proof (rule low_invI)
    show "inj_on ix' S" using d(1) assms(2) by (simp add: inj_on_def)
    show "\<exists>v \<in> P. ix' v \<le> ix' x" if "x \<in> S" for x using d(3) [OF that] that assms(2) P by auto
    show "\<exists>w \<in> S. ix' w = lo' x \<and> (x, w) \<in> E\<^sup>*" if "x \<in> S" for x using d(6) [OF that] that assms(2) by auto
  qed (use d o assms(2) P in auto)
qed

lemma sorted_key_cong:
  "sorted_wrt (\<lambda>x y. f y < (f x :: nat)) zs \<Longrightarrow> \<forall>z \<in> set zs. g z = f z \<Longrightarrow> sorted_wrt (\<lambda>x y. g y < g x) zs"
  by (rule sorted_wrt_mono_rel [of zs "\<lambda>x y. f y < f x"]) simp_all

lemma sorted_key_distinct: "sorted_wrt (\<lambda>x y. f y < (f x :: nat)) zs \<Longrightarrow> distinct zs"
  by (induction zs) auto

text \<open>Entering a node.\<close>

lemma low_enter:
  assumes inv: "low_inv E ix lo S P" and x: "x \<notin> S" "\<forall>s \<in> S. ix s < ix' x"
    and same: "\<forall>s \<in> S. ix' s = ix s \<and> lo' s = lo s"
    and low: "lo' x \<le> ix' x" "\<exists>w \<in> insert x S. ix' w = lo' x \<and> (x, w) \<in> E\<^sup>*"
      "\<forall>w \<in> insert x S. (x, w) \<in> E \<longrightarrow> lo' x \<le> ix' w"
  shows "low_inv E ix' lo' (insert x S) (insert x P)"
proof -
  note d = low_invD [OF inv]
  have P: "p \<in> S" if "p \<in> P" for p using that d(2) by blast
  have old: "v \<in> P \<and> y \<in> S \<and> owns ix P v y"
    if o: "owns ix' (insert x P) v y" "v \<in> insert x P" "y \<in> insert x S" "\<not> (v = x \<and> y = x)" for v y
  proof -
    have "y \<noteq> x"
    proof
      assume "y = x"
      then have "v \<in> P" "ix' x \<le> ix' v" using o unfolding owns_def by auto
      then show False using P x(2) same by force
    qed
    then have y: "y \<in> S" using o(3) by blast
    then have "v \<noteq> x" using o(1) x(2) same unfolding owns_def by (metis leD)
    then have v: "v \<in> P" using o(2) by blast
    have "ix' y = ix y" "ix' v = ix v" "\<And>p. p \<in> P \<Longrightarrow> ix' p = ix p" using y v P same by auto
    then show ?thesis using o(1) y v unfolding owns_def by auto
  qed
  have own: "owns ix' (insert x P) x y \<Longrightarrow> y \<in> insert x S \<Longrightarrow> y = x" for y
    using old [of x y] x(1) P by blast
  show ?thesis
  proof (rule low_invI)
    have "inj_on ix' S" using d(1) same by (simp add: inj_on_def)
    moreover have "ix' x \<notin> ix' ` S"
    proof
      assume "ix' x \<in> ix' ` S"
      then obtain s where "s \<in> S" "ix' x = ix' s" by blast
      then show False using x(2) same by force
    qed
    ultimately show "inj_on ix' (insert x S)" using x(1) by simp
    show "insert x P \<subseteq> insert x S" using d(2) by blast
    show "\<exists>v \<in> insert x P. ix' v \<le> ix' y" if y: "y \<in> insert x S" for y
    proof (cases "y = x")
      case False
      then obtain p where "p \<in> P" "ix p \<le> ix y" "y \<in> S" using y d(3) by blast
      then show ?thesis using same P by auto
    qed simp
    show "lo' y < ix' y" if "y \<in> insert x S" "y \<notin> insert x P" for y using that d(4) same by auto
    show "lo' y \<le> ix' y" if "y \<in> insert x S" for y using that d(5) same low(1) by auto
    show "\<exists>w \<in> insert x S. ix' w = lo' y \<and> (y, w) \<in> E\<^sup>*" if "y \<in> insert x S" for y
      using that d(6) [of y] same low(2) by (cases "y = x") auto
    fix v y assume v: "v \<in> insert x P" and y: "y \<in> insert x S" and o: "owns ix' (insert x P) v y"
    show "(v, y) \<in> E\<^sup>*" using old [OF o v y] d(7) [of v y] by blast
    fix w assume w: "w \<in> insert x S" "(y, w) \<in> E"
    show "lo' v \<le> ix' w"
    proof (cases "v = x \<and> y = x")
      case True
      then show ?thesis using low(3) w by blast
    next
      case False
      note o' = old [OF o v y False]
      have v': "v \<in> S" using o' P by blast
      show ?thesis
      proof (cases "w = x")
        case True
        have "lo' v \<le> ix v" "ix v < ix' x" using v' d(5) same x(2) by auto
        then show ?thesis using True by simp
      next
        case False
        then show ?thesis using o' w d(8) [of v y w] same v' by auto
      qed
    qed
  qed
qed

text \<open>Leaving the last active node, when it is not the root of a component.\<close>

lemma low_leave:
  assumes inv: "low_inv E ix lo S (insert v P)" and v: "v \<notin> P" "\<forall>p \<in> P. ix p < ix v" "lo v < ix v"
    and u: "u \<in> P" "\<forall>p \<in> P. ix p \<le> ix u" "(u, v) \<in> E"
  shows "low_inv E ix (lo(u := min (lo u) (lo v))) S P"
proof -
  note d = low_invD [OF inv]
  let ?lo = "lo(u := min (lo u) (lo v))"
  have le: "?lo y \<le> lo y" for y by simp
  have own: "(p \<noteq> u \<or> ix y < ix v) \<and> owns ix (insert v P) p y \<or> p = u \<and> owns ix (insert v P) v y"
    if "p \<in> P" "y \<in> S" "owns ix P p y" for p y
  proof (cases "ix v \<le> ix y")
    case True
    then have "ix u \<le> ix y" using u(1) v(2) by force
    then have "ix u \<le> ix p" using that(3) u(1) unfolding owns_def by blast
    then have "ix u = ix p" using u(2) that(1) by force
    then have "u = p" using d(1,2) u(1) that(1) unfolding inj_on_def by blast
    then show ?thesis using True v(2) unfolding owns_def by (auto intro: less_imp_le)
  next
    case False
    then show ?thesis using that unfolding owns_def by auto
  qed
  show ?thesis
  proof (rule low_invI)
    show "\<exists>p \<in> P. ix p \<le> ix x" if "x \<in> S" for x
    proof -
      obtain p where "p \<in> insert v P" "ix p \<le> ix x" using d(3) \<open>x \<in> S\<close> by blast
      then show ?thesis using u(1) v(2) by (cases "p = v") (force intro: bexI [of _ u])+
    qed
    show "?lo x < ix x" if "x \<in> S" "x \<notin> P" for x using that d(4) [of x] v(3) u(1) by (cases "x = v") auto
    show "?lo x \<le> ix x" if "x \<in> S" for x using d(5) [OF that] le [of x] by simp
    show "\<exists>w \<in> S. ix w = ?lo x \<and> (x, w) \<in> E\<^sup>*" if x: "x \<in> S" for x
    proof (cases "x = u \<and> lo v < lo u")
      case True
      have "v \<in> S" using d(2) by blast
      then obtain w where "w \<in> S" "ix w = lo v" "(v, w) \<in> E\<^sup>*" using d(6) by blast
      then show ?thesis using True u(3) by (intro bexI [of _ w]) (auto intro: converse_rtrancl_into_rtrancl)
    next
      case False
      then have "?lo x = lo x" by auto
      then show ?thesis using d(6) [OF x] by simp
    qed
    fix p y assume p: "p \<in> P" and y: "y \<in> S" and o: "owns ix P p y"
    note o' = own [OF p y o]
    show "(p, y) \<in> E\<^sup>*"
      using o' d(7) [of p y] d(7) [of v y] p y u(3) by (auto intro: converse_rtrancl_into_rtrancl)
    fix w assume w: "w \<in> S" "(y, w) \<in> E"
    show "?lo p \<le> ix w"
      using o'
    proof
      assume "(p \<noteq> u \<or> ix y < ix v) \<and> owns ix (insert v P) p y"
      then have "lo p \<le> ix w" using d(8) [of p y w] p y w by blast
      then show ?thesis using le [of p] by simp
    next
      assume "p = u \<and> owns ix (insert v P) v y"
      then show ?thesis using d(8) [of v y w] y w by auto
    qed
  qed (use d(1,2) in auto)
qed

text \<open>Leaving the root of a component: the rest of the stack, and the component.\<close>

lemma low_root:
  assumes inv: "low_inv E ix lo S (insert v P)" and v: "v \<notin> P" "\<forall>p \<in> P. ix p < ix v"
  shows "low_inv E ix lo {x \<in> S. ix x < ix v} P"
proof -
  note d = low_invD [OF inv]
  have own: "owns ix (insert v P) p y" if "owns ix P p y" "ix y < ix v" for p y
    using that unfolding owns_def by auto
  show ?thesis
  proof (rule low_invI)
    show "inj_on ix {x \<in> S. ix x < ix v}" by (rule inj_on_subset [OF d(1)]) blast
    show "P \<subseteq> {x \<in> S. ix x < ix v}" using d(2) v(2) by blast
    show "\<exists>p \<in> P. ix p \<le> ix x" if "x \<in> {x \<in> S. ix x < ix v}" for x using that d(3) [of x] by auto
    show "\<exists>w \<in> {x \<in> S. ix x < ix v}. ix w = lo x \<and> (x, w) \<in> E\<^sup>*" if "x \<in> {x \<in> S. ix x < ix v}" for x
      using that d(6) [of x] d(5) [of x] by fastforce
  qed (use d(4,5,7,8) own in auto)
qed

lemma low_component:
  assumes inv: "low_inv E ix lo S (insert v P)" and v: "\<forall>p \<in> P. ix p < ix v" "lo v = ix v"
    and C: "E `` C \<subseteq> C" "S \<inter> C = {}" and out: "\<forall>x \<in> S. ix v \<le> ix x \<longrightarrow> E `` {x} \<subseteq> S \<union> C"
  defines "T \<equiv> {x \<in> S. ix v \<le> ix x}"
  shows "v \<in> T" "E `` T \<subseteq> T \<union> C" "x \<in> T \<Longrightarrow> (v, x) \<in> E\<^sup>* \<and> (x, v) \<in> E\<^sup>*"
proof -
  note d = low_invD [OF inv]
  show "v \<in> T" using d(2) by (simp add: T_def)
  have own: "owns ix (insert v P) v x" if "x \<in> T" for x
    using that v(1) by (auto simp: owns_def T_def intro: less_imp_le)
  show T: "E `` T \<subseteq> T \<union> C"
  proof
    fix w assume "w \<in> E `` T"
    then obtain x where x: "x \<in> T" "(x, w) \<in> E" by blast
    then have "w \<in> S \<union> C" using out unfolding T_def by blast
    moreover have "ix v \<le> ix w" if "w \<in> S" using d(8) [OF _ _ own [OF x(1)] that x(2)] x(1) v(2) by (simp add: T_def)
    ultimately show "w \<in> T \<union> C" by (auto simp: T_def)
  qed
  have closed: "w \<in> T \<union> C" if "(x, w) \<in> E\<^sup>*" "x \<in> T \<union> C" for x w
    using that T C(1) by (induction rule: rtrancl_induct) blast+
  have home: "(x, v) \<in> E\<^sup>*" if "x \<in> T" for x
    using that
  proof (induction "ix x" arbitrary: x rule: less_induct)
    case less
    show ?case
    proof (cases "x \<in> insert v P")
      case True
      then show ?thesis using less.prems v(1) by (auto simp: T_def)
    next
      case False
      have "x \<in> S" using less.prems by (simp add: T_def)
      then obtain w where w: "w \<in> S" "ix w = lo x" "(x, w) \<in> E\<^sup>*" using d(6) by blast
      then have "w \<in> T" using closed [OF w(3)] less.prems C(2) by blast
      moreover have "ix w < ix x" using d(4) [OF \<open>x \<in> S\<close> False] w(2) by simp
      ultimately show ?thesis using less.hyps w(3) by (meson rtrancl_trans)
    qed
  qed
  show "(v, x) \<in> E\<^sup>* \<and> (x, v) \<in> E\<^sup>*" if "x \<in> T"
    using d(7) [OF _ _ own [OF that]] home [OF that] that by (simp add: T_def)
qed

section \<open>The components\<close>

definition scc_inv :: "('a \<times> 'a) set \<Rightarrow> ('a \<Rightarrow> nat) \<Rightarrow> nat list \<Rightarrow> 'a set \<Rightarrow> bool" where
  "scc_inv E cmp sizes C \<longleftrightarrow>
     finite C \<and> E `` C \<subseteq> C \<and> cmp ` C = {..<length sizes} \<and>
     (\<forall>c < length sizes. sizes ! c = card {x \<in> C. cmp x = c}) \<and>
     (\<forall>x \<in> C. \<forall>y \<in> C. cmp x = cmp y \<longleftrightarrow> (x, y) \<in> E\<^sup>* \<and> (y, x) \<in> E\<^sup>*) \<and>
     (\<forall>x \<in> C. \<forall>y. (x, y) \<in> E \<longrightarrow> cmp y \<le> cmp x)"

lemma scc_invD:
  assumes "scc_inv E cmp sizes C"
  shows "finite C" "E `` C \<subseteq> C" "cmp ` C = {..<length sizes}"
    "c < length sizes \<Longrightarrow> sizes ! c = card {x \<in> C. cmp x = c}"
    "x \<in> C \<Longrightarrow> y \<in> C \<Longrightarrow> cmp x = cmp y \<longleftrightarrow> (x, y) \<in> E\<^sup>* \<and> (y, x) \<in> E\<^sup>*"
    "x \<in> C \<Longrightarrow> (x, y) \<in> E \<Longrightarrow> cmp y \<le> cmp x"
  using assms unfolding scc_inv_def by blast+

lemma closed_rtrancl: "E `` C \<subseteq> C \<Longrightarrow> (x, y) \<in> E\<^sup>* \<Longrightarrow> x \<in> C \<Longrightarrow> y \<in> C"
  by (erule rtrancl_induct) blast+

lemma scc_inv_add:
  assumes inv: "scc_inv E cmp sizes C" and T: "T \<inter> C = {}" "finite T" "E `` T \<subseteq> T \<union> C" "v \<in> T"
    and conn: "\<And>x. x \<in> T \<Longrightarrow> (v, x) \<in> E\<^sup>* \<and> (x, v) \<in> E\<^sup>*"
    and cmp': "\<forall>x \<in> C. cmp' x = cmp x" "\<forall>x \<in> T. cmp' x = length sizes"
  shows "scc_inv E cmp' (sizes @ [card T]) (T \<union> C)"
proof -
  note d = scc_invD [OF inv]
  have less: "cmp' x < length sizes" if "x \<in> C" for x using that d(3) cmp'(1) by auto
  have "cmp' ` C = {..<length sizes}" using d(3) cmp'(1) by simp
  moreover have "cmp' ` T = {length sizes}" using cmp'(2) T(4) by auto
  ultimately have img: "cmp' ` (T \<union> C) = {..<length (sizes @ [card T])}"
    unfolding image_Un by (auto simp: less_Suc_eq)
  have sz: "(sizes @ [card T]) ! c = card {x \<in> T \<union> C. cmp' x = c}" if "c < length (sizes @ [card T])" for c
  proof (cases "c < length sizes")
    case True
    then have "{x \<in> T \<union> C. cmp' x = c} = {x \<in> C. cmp x = c}" using cmp' by auto
    then show ?thesis using d(4) [OF True] True by (simp add: nth_append)
  next
    case False
    then have "{x \<in> T \<union> C. cmp' x = c} = T" using that cmp' less by fastforce
    then show ?thesis using that False by (simp add: nth_append)
  qed
  have eq: "cmp' x = cmp' y \<longleftrightarrow> (x, y) \<in> E\<^sup>* \<and> (y, x) \<in> E\<^sup>*" if xy: "x \<in> T \<union> C" "y \<in> T \<union> C" for x y
  proof -
    consider "x \<in> C" "y \<in> C" | "x \<in> T" "y \<in> T" | "x \<in> T" "y \<in> C" | "x \<in> C" "y \<in> T" using xy by blast
    then show ?thesis
    proof cases
      case 1
      then show ?thesis using d(5) cmp'(1) by simp
    next
      case 2
      then have "(x, y) \<in> E\<^sup>*" "(y, x) \<in> E\<^sup>*" using conn by (blast intro: rtrancl_trans [of _ v])+
      then show ?thesis using 2 cmp'(2) by simp
    next
      case 3
      then have "(y, x) \<notin> E\<^sup>*" using closed_rtrancl [OF d(2)] T(1) by blast
      then show ?thesis using less [of y] cmp'(2) 3 by auto
    next
      case 4
      then have "(x, y) \<notin> E\<^sup>*" using closed_rtrancl [OF d(2)] T(1) by blast
      then show ?thesis using less [of x] cmp'(2) 4 by auto
    qed
  qed
  have topo: "cmp' y \<le> cmp' x" if "x \<in> T \<union> C" "(x, y) \<in> E" for x y
  proof (cases "x \<in> C")
    case True
    then show ?thesis using d(2) d(6) [of x y] that(2) cmp'(1) by fastforce
  next
    case False
    then have "x \<in> T" "y \<in> T \<union> C" using that T(3) by blast+
    then show ?thesis using cmp'(2) less [of y] by auto
  qed
  show ?thesis
    unfolding scc_inv_def
  proof (intro conjI)
    show "finite (T \<union> C)" using d(1) T(2) by simp
    show "E `` (T \<union> C) \<subseteq> T \<union> C" using d(2) T(3) by blast
    show "cmp' ` (T \<union> C) = {..<length (sizes @ [card T])}" by (rule img)
  qed (intro allI ballI impI; rule sz eq topo; assumption)+
qed

section \<open>The state\<close>

definition tj_arcs :: "(NodeID \<Rightarrow> NodeID list) \<Rightarrow> nat \<Rightarrow> (NodeID \<times> NodeID) set" where
  "tj_arcs adj n = {(x, y). x < n \<and> y \<in> set (adj x)}"

definition arcs_ok :: "(NodeID \<Rightarrow> NodeID list) \<Rightarrow> nat \<Rightarrow> bool" where
  "arcs_ok adj n \<longleftrightarrow> n \<le> SPECIAL_NODEID \<and> (\<forall>x < n. \<forall>y \<in> set (adj x). y < n)"

definition tj_ix :: "TarjanSCC \<Rightarrow> NodeID \<Rightarrow> nat" where
  "tj_ix st x = tj_index (tarjan_node_list st ! x)"

definition tj_lo :: "TarjanSCC \<Rightarrow> NodeID \<Rightarrow> nat" where
  "tj_lo st x = low_link (tarjan_node_list st ! x)"

definition assigned :: "TarjanSCC \<Rightarrow> NodeID set" where
  "assigned st = {x. x < length (components_index st) \<and> components_index st ! x \<noteq> SPECIAL_NODEID}"

definition entered :: "TarjanSCC \<Rightarrow> NodeID set" where
  "entered st = set (tarjan_stack st) \<union> assigned st"

text \<open>The stack of frames for the path \<open>P\<close> of active nodes, last one first: above the frame that
  marks an active node wait the frames of its edges.\<close>

definition mark :: "NodeID \<Rightarrow> NodeID list \<Rightarrow> TarjanStackFrame" where
  "mark v P = \<lparr>tf_v = v, tf_parent = (case P of [] \<Rightarrow> v | u # _ \<Rightarrow> u)\<rparr>"

fun frames_ok :: "(NodeID \<Rightarrow> NodeID list) \<Rightarrow> NodeID list \<Rightarrow> TarjanStackFrame list \<Rightarrow> bool" where
  "frames_ok adj [] fs \<longleftrightarrow> fs = [] \<or> (\<exists>r. fs = [\<lparr>tf_v = r, tf_parent = r\<rparr>])"
| "frames_ok adj (v # P) fs \<longleftrightarrow>
     (\<exists>pend rest. fs = map (\<lambda>x. \<lparr>tf_v = x, tf_parent = v\<rparr>) pend @ mark v P # rest \<and> set pend \<subseteq> set (adj v) - {v} \<and>
        (case P of [] \<Rightarrow> rest = [] | u # _ \<Rightarrow> v \<in> set (adj u) \<and> frames_ok adj P rest))"

definition tj_shape :: "(NodeID \<Rightarrow> NodeID list) \<Rightarrow> nat \<Rightarrow> NodeID list \<Rightarrow> TarjanSCC \<Rightarrow> bool" where
  "tj_shape adj n P st \<longleftrightarrow>
     length (tarjan_node_list st) = n \<and> length (components_index st) = n \<and> length (before_recursion st) = n \<and>
     frames_ok adj P (recursion_stack st) \<and> (\<forall>f \<in> set (recursion_stack st). tf_v f < n) \<and>
     sorted_wrt (\<lambda>x y. tj_ix st y < tj_ix st x) (tarjan_stack st) \<and> sorted_wrt (\<lambda>x y. tj_ix st y < tj_ix st x) P \<and>
     set P \<subseteq> set (tarjan_stack st) \<and> set (tarjan_stack st) \<subseteq> {..<n} \<and>
     set (tarjan_stack st) \<inter> assigned st = {} \<and>
     (\<forall>x < n. before_recursion st ! x \<longleftrightarrow> x \<notin> set P) \<and>
     (\<forall>x < n. on_stack (tarjan_node_list st ! x) \<longleftrightarrow> x \<in> set (tarjan_stack st)) \<and>
     (\<forall>x < n. tj_ix st x = SPECIAL_NODEID \<longleftrightarrow> x \<notin> entered st) \<and>
     next_index st = card (entered st) \<and> (\<forall>x \<in> entered st. tj_ix st x < next_index st) \<and>
     component_index st = length (component_size_vector st) \<and>
     (\<forall>x \<in> entered st. \<forall>y \<in> set (adj x). y \<in> entered st \<or>
        x \<in> set P \<and> \<lparr>tf_v = y, tf_parent = x\<rparr> \<in> set (recursion_stack st)) \<and>
     (\<forall>f \<in> set (recursion_stack st). tf_v f \<in> entered st \<longrightarrow> tf_v f \<noteq> tf_parent f \<longrightarrow>
        tj_ix st (tf_parent f) < tj_ix st (tf_v f))"

definition tj_inv :: "(NodeID \<Rightarrow> NodeID list) \<Rightarrow> nat \<Rightarrow> NodeID list \<Rightarrow> TarjanSCC \<Rightarrow> bool" where
  "tj_inv adj n P st \<longleftrightarrow> tj_shape adj n P st \<and>
     low_inv (tj_arcs adj n) (tj_ix st) (tj_lo st) (set (tarjan_stack st)) (set P) \<and>
     scc_inv (tj_arcs adj n) (\<lambda>x. components_index st ! x) (component_size_vector st) (assigned st)"

lemma tj_inv_shape: "tj_inv adj n P st \<Longrightarrow> tj_shape adj n P st"
  by (simp add: tj_inv_def)

lemma frames_parents: "frames_ok adj P fs \<Longrightarrow> P \<noteq> [] \<Longrightarrow> f \<in> set fs \<Longrightarrow> tf_parent f \<in> set P"
proof (induction P arbitrary: fs)
  case (Cons v P)
  then obtain pend rest where fs: "fs = map (\<lambda>x. \<lparr>tf_v = x, tf_parent = v\<rparr>) pend @ mark v P # rest"
    and rest: "case P of [] \<Rightarrow> rest = [] | u # _ \<Rightarrow> v \<in> set (adj u) \<and> frames_ok adj P rest" by auto
  show ?case
  proof (cases "f \<in> set rest")
    case True
    then have "P \<noteq> []" "frames_ok adj P rest" using rest by (auto split: list.splits)
    then show ?thesis using Cons.IH True by simp
  next
    case False
    then show ?thesis using Cons.prems(3) fs by (auto simp: mark_def split: list.splits)
  qed
qed simp

lemma two_updates:
  "r = s\<lparr>recursion_stack := a, tarjan_node_list := b\<rparr> \<Longrightarrow> s = st\<lparr>recursion_stack := c, tarjan_node_list := d\<rparr> \<Longrightarrow>
   r = st\<lparr>recursion_stack := a, tarjan_node_list := b\<rparr>"
  by simp

text \<open>Scanning the edges of an entered node.\<close>

lemma scan_edges_spec:
  fixes ys :: "NodeID list"
  assumes "v < length (tarjan_node_list st)" "tj_ix st v \<noteq> SPECIAL_NODEID"
  defines "r \<equiv> fold (scan_edge v) ys st"
  shows "recursion_stack r = map (\<lambda>y. \<lparr>tf_v = y, tf_parent = v\<rparr>) (rev (filter (\<lambda>y. tj_ix st y = SPECIAL_NODEID) ys)) @ recursion_stack st \<and>
    (\<exists>l. r = st\<lparr>recursion_stack := recursion_stack r, tarjan_node_list :=
        (tarjan_node_list st)[v := (tarjan_node_list st ! v)\<lparr>low_link := l\<rparr>]\<rparr> \<and>
      l \<le> tj_lo st v \<and>
      (\<forall>y \<in> set ys. tj_ix st y \<noteq> SPECIAL_NODEID \<longrightarrow> on_stack (tarjan_node_list st ! y) \<longrightarrow> l \<le> tj_ix st y) \<and>
      (l = tj_lo st v \<or> (\<exists>y \<in> set ys. on_stack (tarjan_node_list st ! y) \<and> tj_ix st y \<noteq> SPECIAL_NODEID \<and> l = tj_ix st y)))"
  using assms(1,2) unfolding r_def
proof (induction ys arbitrary: st)
  case Nil
  then show ?case by (auto simp: tj_lo_def intro: exI [of _ "low_link (tarjan_node_list st ! v)"])
next
  case (Cons y ys)
  let ?s = "scan_edge v y st" and ?ns = "tarjan_node_list st"
  let ?r = "fold (scan_edge v) ys ?s"
  obtain l1 where l1: "tarjan_node_list ?s = ?ns[v := (?ns ! v)\<lparr>low_link := l1\<rparr>]"
    "l1 \<le> tj_lo st v" "tj_ix st y \<noteq> SPECIAL_NODEID \<Longrightarrow> on_stack (?ns ! y) \<Longrightarrow> l1 \<le> tj_ix st y"
    "l1 = tj_lo st v \<or> on_stack (?ns ! y) \<and> tj_ix st y \<noteq> SPECIAL_NODEID \<and> l1 = tj_ix st y"
    and eq: "?s = st\<lparr>recursion_stack := recursion_stack ?s, tarjan_node_list := tarjan_node_list ?s\<rparr>"
  proof (cases "tj_ix st y \<noteq> SPECIAL_NODEID \<and> on_stack (?ns ! y) \<and> tj_ix st y < tj_lo st v")
    case True
    then show ?thesis by (intro that [of "tj_ix st y"]) (auto simp: scan_edge_def Let_def tj_ix_def tj_lo_def)
  next
    case False
    then show ?thesis
      by (intro that [of "tj_lo st v"]) (auto simp: scan_edge_def Let_def tj_ix_def tj_lo_def)
  qed
  have keep: "tj_ix ?s x = tj_ix st x" "on_stack (tarjan_node_list ?s ! x) = on_stack (?ns ! x)"
    and lo: "tj_lo ?s v = l1" for x
    using Cons.prems(1) by (simp_all add: tj_ix_def tj_lo_def l1(1) nth_list_update_if)
  have stk: "recursion_stack ?s = (if tj_ix st y = SPECIAL_NODEID then [\<lparr>tf_v = y, tf_parent = v\<rparr>] else []) @ recursion_stack st"
    by (auto simp: scan_edge_def Let_def tj_ix_def)
  have v: "v < length (tarjan_node_list ?s)" "tj_ix ?s v \<noteq> SPECIAL_NODEID" using Cons.prems keep by (simp_all add: l1(1))
  from Cons.IH [OF v, unfolded keep lo] obtain l where
    ih: "recursion_stack ?r = map (\<lambda>y. \<lparr>tf_v = y, tf_parent = v\<rparr>) (rev (filter (\<lambda>y. tj_ix st y = SPECIAL_NODEID) ys)) @ recursion_stack ?s"
      "?r = ?s\<lparr>recursion_stack := recursion_stack ?r,
        tarjan_node_list := (tarjan_node_list ?s)[v := (tarjan_node_list ?s ! v)\<lparr>low_link := l\<rparr>]\<rparr>"
      "l \<le> l1" "\<forall>y \<in> set ys. tj_ix st y \<noteq> SPECIAL_NODEID \<longrightarrow> on_stack (?ns ! y) \<longrightarrow> l \<le> tj_ix st y"
      "l = l1 \<or> (\<exists>y \<in> set ys. on_stack (?ns ! y) \<and> tj_ix st y \<noteq> SPECIAL_NODEID \<and> l = tj_ix st y)"
    by (elim conjE exE)
  have "(tarjan_node_list ?s)[v := (tarjan_node_list ?s ! v)\<lparr>low_link := l\<rparr>] = ?ns[v := (?ns ! v)\<lparr>low_link := l\<rparr>]"
    using Cons.prems(1) by (simp add: l1(1))
  then have "?r = st\<lparr>recursion_stack := recursion_stack ?r, tarjan_node_list := ?ns[v := (?ns ! v)\<lparr>low_link := l\<rparr>]\<rparr>"
    using two_updates [OF ih(2) eq] by (simp only:)
  moreover have "l \<le> tj_lo st v" using ih(3) l1(2) by simp
  moreover have "\<forall>y \<in> set (y # ys). tj_ix st y \<noteq> SPECIAL_NODEID \<longrightarrow> on_stack (?ns ! y) \<longrightarrow> l \<le> tj_ix st y"
    using ih(3,4) l1(3) by auto
  moreover have "l = tj_lo st v \<or> (\<exists>y \<in> set (y # ys). on_stack (?ns ! y) \<and> tj_ix st y \<noteq> SPECIAL_NODEID \<and> l = tj_ix st y)"
    using ih(5) l1(4) by auto
  moreover have "recursion_stack ?r = map (\<lambda>y. \<lparr>tf_v = y, tf_parent = v\<rparr>)
      (rev (filter (\<lambda>y. tj_ix st y = SPECIAL_NODEID) (y # ys))) @ recursion_stack st" using ih(1) stk by auto
  moreover have "fold (scan_edge v) (y # ys) st = ?r" by simp
  ultimately show ?case by (simp only:) blast
qed

lemma tj_shapeD:
  assumes "tj_shape adj n P st"
  shows "length (tarjan_node_list st) = n" "length (components_index st) = n" "length (before_recursion st) = n"
    "frames_ok adj P (recursion_stack st)" "f \<in> set (recursion_stack st) \<Longrightarrow> tf_v f < n"
    "sorted_wrt (\<lambda>x y. tj_ix st y < tj_ix st x) (tarjan_stack st)" "sorted_wrt (\<lambda>x y. tj_ix st y < tj_ix st x) P"
    "set P \<subseteq> set (tarjan_stack st)" "set (tarjan_stack st) \<subseteq> {..<n}" "set (tarjan_stack st) \<inter> assigned st = {}"
    "x < n \<Longrightarrow> before_recursion st ! x \<longleftrightarrow> x \<notin> set P"
    "x < n \<Longrightarrow> on_stack (tarjan_node_list st ! x) \<longleftrightarrow> x \<in> set (tarjan_stack st)"
    "x < n \<Longrightarrow> tj_ix st x = SPECIAL_NODEID \<longleftrightarrow> x \<notin> entered st"
    "next_index st = card (entered st)" "x \<in> entered st \<Longrightarrow> tj_ix st x < next_index st"
    "component_index st = length (component_size_vector st)"
    "x \<in> entered st \<Longrightarrow> y \<in> set (adj x) \<Longrightarrow> y \<in> entered st \<or> x \<in> set P \<and> \<lparr>tf_v = y, tf_parent = x\<rparr> \<in> set (recursion_stack st)"
    "f \<in> set (recursion_stack st) \<Longrightarrow> tf_v f \<in> entered st \<Longrightarrow> tf_v f \<noteq> tf_parent f \<Longrightarrow> tj_ix st (tf_parent f) < tj_ix st (tf_v f)"
  using assms unfolding tj_shape_def by blast+

lemma entered_less: "tj_shape adj n P st \<Longrightarrow> entered st \<subseteq> {..<n}"
  using tj_shapeD(2,9) by (fastforce simp: entered_def assigned_def)

definition push_frame :: "TarjanStackFrame \<Rightarrow> TarjanSCC \<Rightarrow> TarjanSCC" where
  "push_frame f st = st\<lparr>recursion_stack := f # recursion_stack st\<rparr>"

lemma push_frame_simps [simp]:
  "recursion_stack (push_frame f st) = f # recursion_stack st" "tj_ix (push_frame f st) = tj_ix st"
  "tj_lo (push_frame f st) = tj_lo st" "assigned (push_frame f st) = assigned st" "entered (push_frame f st) = entered st"
  "tarjan_stack (push_frame f st) = tarjan_stack st" "tarjan_node_list (push_frame f st) = tarjan_node_list st"
  "components_index (push_frame f st) = components_index st" "before_recursion (push_frame f st) = before_recursion st"
  "component_size_vector (push_frame f st) = component_size_vector st" "component_index (push_frame f st) = component_index st"
  "next_index (push_frame f st) = next_index st"
  by (simp_all add: push_frame_def tj_ix_def tj_lo_def assigned_def entered_def fun_eq_iff)

lemma enter_inv:
  assumes ok: "arcs_ok adj n" and inv: "tj_inv adj n P (push_frame (mark x P) st)" and x: "x \<notin> entered st"
    and edge: "case P of [] \<Rightarrow> recursion_stack st = [] | u # _ \<Rightarrow> x \<in> set (adj u) \<and> frames_ok adj P (recursion_stack st)"
  shows "tj_inv adj n (x # P) (enter_node adj (mark x P) st)"
    and "entered (enter_node adj (mark x P) st) = insert x (entered st)"
    and "length (recursion_stack (enter_node adj (mark x P) st)) \<le> length (recursion_stack st) + 1 + length (adj x)"
    and "set (recursion_stack st) \<subseteq> set (recursion_stack (enter_node adj (mark x P) st))"
proof -
  let ?E = "tj_arcs adj n" and ?ns = "tarjan_node_list st" and ?S = "set (tarjan_stack st)"
  let ?r = "enter_node adj (mark x P) st"
  define st1 where "st1 = st\<lparr>recursion_stack := mark x P # recursion_stack st, before_recursion := (before_recursion st)[x := False],
      tarjan_node_list := ?ns[x := \<lparr>tj_index = next_index st, low_link = next_index st, on_stack = True\<rparr>],
      tarjan_stack := x # tarjan_stack st, next_index := next_index st + 1\<rparr>"
  have shape: "tj_shape adj n P (push_frame (mark x P) st)" using inv by (simp add: tj_inv_def)
  note d = tj_shapeD [OF shape, unfolded push_frame_simps] and below = entered_less [OF shape, unfolded push_frame_simps]
  have xn: "x < n" using d(5) [of "mark x P"] by (simp add: mark_def)
  have "entered st \<subseteq> {..<n} - {x}" using below x by blast
  then have "card (entered st) \<le> card ({..<n} - {x})" by (intro card_mono) simp_all
  then have idx: "next_index st < n" "next_index st \<noteq> SPECIAL_NODEID" using d(14) xn ok by (auto simp: arcs_ok_def)
  have ix1: "tj_ix st1 y = (if y = x then next_index st else tj_ix st y)" for y
    using xn d(1) by (simp add: st1_def tj_ix_def nth_list_update_if)
  have on1: "on_stack (tarjan_node_list st1 ! y) \<longleftrightarrow> y = x \<or> on_stack (?ns ! y)" for y
    using xn d(1) by (simp add: st1_def nth_list_update_if)
  have r: "?r = fold (scan_edge x) (adj x) st1" by (simp add: enter_node_def mark_def st1_def Let_def)
  have "x < length (tarjan_node_list st1)" "tj_ix st1 x \<noteq> SPECIAL_NODEID" "tj_lo st1 x = next_index st"
    using xn d(1) idx by (simp_all add: ix1 tj_lo_def) (simp_all add: st1_def)
  note sp = scan_edges_spec [OF this(1,2), of "adj x", unfolded this(3), folded r]
  have rs: "recursion_stack ?r = map (\<lambda>y. \<lparr>tf_v = y, tf_parent = x\<rparr>)
      (rev (filter (\<lambda>y. tj_ix st1 y = SPECIAL_NODEID) (adj x))) @ mark x P # recursion_stack st"
    using sp by (simp add: st1_def)
  obtain l where l: "?r = st1\<lparr>recursion_stack := recursion_stack ?r, tarjan_node_list :=
        (tarjan_node_list st1)[x := (tarjan_node_list st1 ! x)\<lparr>low_link := l\<rparr>]\<rparr>" "l \<le> next_index st"
      "\<forall>y \<in> set (adj x). tj_ix st1 y \<noteq> SPECIAL_NODEID \<longrightarrow> on_stack (tarjan_node_list st1 ! y) \<longrightarrow> l \<le> tj_ix st1 y"
      "l = next_index st \<or> (\<exists>y \<in> set (adj x). on_stack (tarjan_node_list st1 ! y) \<and> tj_ix st1 y \<noteq> SPECIAL_NODEID \<and> l = tj_ix st1 y)"
    using sp by blast
  have nodes: "tarjan_node_list ?r = ?ns[x := \<lparr>tj_index = next_index st, low_link = l, on_stack = True\<rparr>]"
    using xn d(1) by (subst l(1)) (simp add: st1_def)
  have f: "tarjan_stack ?r = x # tarjan_stack st" "components_index ?r = components_index st"
    "component_size_vector ?r = component_size_vector st" "component_index ?r = component_index st"
    "next_index ?r = next_index st + 1" "before_recursion ?r = (before_recursion st)[x := False]"
    by (subst l(1), simp add: st1_def)+
  have ix: "tj_ix ?r y = (if y = x then next_index st else tj_ix st y)" for y
    using xn d(1) by (simp add: tj_ix_def nodes nth_list_update_if)
  have lo: "tj_lo ?r y = (if y = x then l else tj_lo st y)" for y
    using xn d(1) by (simp add: tj_lo_def nodes nth_list_update_if)
  have asg: "assigned ?r = assigned st" by (simp add: assigned_def f)
  show ent: "entered ?r = insert x (entered st)" by (simp add: entered_def asg f)
  show "length (recursion_stack ?r) \<le> length (recursion_stack st) + 1 + length (adj x)"
    "set (recursion_stack st) \<subseteq> set (recursion_stack ?r)" by (auto simp: rs)
  have fin: "finite (entered st)" using below finite_subset by blast
  have S: "y < n" "tj_ix st y < next_index st" if "y \<in> ?S" for y
    using that d(9) d(15) by (auto simp: entered_def)
  have targets: "y < n" if "y \<in> set (adj x)" for y using ok xn that by (simp add: arcs_ok_def)
  have undisc: "tj_ix st1 y = SPECIAL_NODEID \<longleftrightarrow> y \<notin> insert x (entered st)" if "y \<in> set (adj x)" for y
    using d(13) [OF targets [OF that]] idx by (simp add: ix1)
  have low: "low_inv ?E (tj_ix ?r) (tj_lo ?r) (insert x ?S) (insert x (set P))"
  proof (rule low_enter)
    show "low_inv ?E (tj_ix st) (tj_lo st) ?S (set P)" using inv by (simp add: tj_inv_def)
    show "x \<notin> ?S" using x by (simp add: entered_def)
    show "\<forall>s \<in> ?S. tj_ix st s < tj_ix ?r x" using S(2) by (simp add: ix)
    show "\<forall>s \<in> ?S. tj_ix ?r s = tj_ix st s \<and> tj_lo ?r s = tj_lo st s" using \<open>x \<notin> ?S\<close> by (auto simp: ix lo)
    show "tj_lo ?r x \<le> tj_ix ?r x" using l(2) by (simp add: ix lo)
    show "\<exists>w \<in> insert x ?S. tj_ix ?r w = tj_lo ?r x \<and> (x, w) \<in> ?E\<^sup>*"
      using l(4)
    proof
      assume "\<exists>y \<in> set (adj x). on_stack (tarjan_node_list st1 ! y) \<and> tj_ix st1 y \<noteq> SPECIAL_NODEID \<and> l = tj_ix st1 y"
      then obtain y where y: "y \<in> set (adj x)" "on_stack (tarjan_node_list st1 ! y)" "l = tj_ix st1 y" by blast
      have "y \<in> insert x ?S" using y(2) d(12) [OF targets [OF y(1)]] by (auto simp: on1)
      moreover have "(x, y) \<in> ?E" using y(1) xn by (simp add: tj_arcs_def)
      ultimately show ?thesis using y(3) by (intro bexI [of _ y]) (auto simp: ix lo ix1)
    qed (auto simp: ix lo)
    show "\<forall>w \<in> insert x ?S. (x, w) \<in> ?E \<longrightarrow> tj_lo ?r x \<le> tj_ix ?r w"
    proof (intro ballI impI)
      fix w assume w: "w \<in> insert x ?S" "(x, w) \<in> ?E"
      have "w \<in> set (adj x)" using w(2) by (simp add: tj_arcs_def)
      moreover have "tj_ix st1 w \<noteq> SPECIAL_NODEID" using undisc [OF calculation] w(1) by (auto simp: entered_def)
      moreover have "on_stack (tarjan_node_list st1 ! w)" using w(1) d(12) [of w] S(1) by (auto simp: on1)
      ultimately show "tj_lo ?r x \<le> tj_ix ?r w" using l(3) by (simp add: lo ix ix1)
    qed
  qed
  have "frames_ok adj (x # P) (recursion_stack ?r)"
    unfolding frames_ok.simps rs
    by (intro exI conjI) (use edge undisc [of x] in \<open>auto split: list.splits\<close>)
  moreover have "tf_v g < n" if "g \<in> set (recursion_stack ?r)" for g
    using that [unfolded rs] d(5) [of g] targets xn by (auto simp: mark_def)
  moreover have "sorted_wrt (\<lambda>x y. tj_ix ?r y < tj_ix ?r x) (x # tarjan_stack st)"
    "sorted_wrt (\<lambda>x y. tj_ix ?r y < tj_ix ?r x) (x # P)"
  proof -
    have "sorted_wrt (\<lambda>x y. tj_ix ?r y < tj_ix ?r x) zs"
      if "sorted_wrt (\<lambda>x y. tj_ix st y < tj_ix st x) zs" "set zs \<subseteq> ?S" for zs
      by (rule sorted_wrt_mono_rel [OF _ that(1)]) (use that(2) x in \<open>auto simp: ix entered_def\<close>)
    from this [OF d(6)] this [OF d(7) d(8)] show "sorted_wrt (\<lambda>x y. tj_ix ?r y < tj_ix ?r x) (x # tarjan_stack st)"
      "sorted_wrt (\<lambda>x y. tj_ix ?r y < tj_ix ?r x) (x # P)"
      using S(2) d(8) x by (auto simp: ix entered_def)
  qed
  moreover have "y \<in> entered ?r \<or> z \<in> set (x # P) \<and> \<lparr>tf_v = y, tf_parent = z\<rparr> \<in> set (recursion_stack ?r)"
    if "z \<in> entered ?r" "y \<in> set (adj z)" for y z
  proof (cases "z = x")
    case True
    then show ?thesis using that(2) undisc [of y] by (auto simp: ent rs)
  next
    case False
    then show ?thesis unfolding ent rs using that [unfolded ent] d(17) [of z y] by (auto simp: mark_def)
  qed
  moreover have "tj_ix ?r (tf_parent g) < tj_ix ?r (tf_v g)"
    if g: "g \<in> set (recursion_stack ?r)" "tf_v g \<in> entered ?r" "tf_v g \<noteq> tf_parent g" for g
  proof -
    have parent: "tf_parent g \<in> ?S" if "g = mark x P \<or> g \<in> set (recursion_stack st)" "tf_v g \<noteq> tf_parent g"
    proof (cases P)
      case Nil
      then show ?thesis using that edge by (auto simp: mark_def)
    next
      case (Cons u Q)
      then have "tf_parent g \<in> set P" using that(1) edge frames_parents [of adj P "recursion_stack st" g] by (auto simp: mark_def)
      then show ?thesis using d(8) by blast
    qed
    consider "g = mark x P \<or> g \<in> set (recursion_stack st)" | y where "g = \<lparr>tf_v = y, tf_parent = x\<rparr>" "y \<in> set (adj x)" "tj_ix st1 y = SPECIAL_NODEID"
      using g(1) by (auto simp: rs)
    then show ?thesis
    proof cases
      case 1
      have p: "tf_parent g \<in> ?S" "tf_parent g \<noteq> x" using parent 1 g(3) x by (auto simp: entered_def)
      show ?thesis
      proof (cases "tf_v g = x")
        case True
        then show ?thesis using p S(2) by (simp add: ix)
      next
        case False
        moreover have "g \<in> set (recursion_stack st)" using 1 False by (auto simp: mark_def)
        ultimately show ?thesis using d(18) [of g] g(2,3) p by (simp add: ix ent)
      qed
    next
      case 2
      then show ?thesis using undisc [of y] g(2) by (simp add: ent)
    qed
  qed
  moreover have "before_recursion ?r ! y \<longleftrightarrow> y \<notin> set (x # P)" if "y < n" for y
    using that d(3,11) by (simp add: f nth_list_update_in)
  moreover have "on_stack (tarjan_node_list ?r ! y) \<longleftrightarrow> y \<in> set (x # tarjan_stack st)" if "y < n" for y
    using that d(1) d(12) [OF that] by (simp add: nodes nth_list_update_in)
  moreover have "tj_ix ?r y = SPECIAL_NODEID \<longleftrightarrow> y \<notin> entered ?r" if "y < n" for y
    using that d(13) [OF that] idx by (simp add: ix ent)
  moreover have "tj_ix ?r y < next_index st + 1" if "y \<in> entered ?r" for y
    using that d(15) [of y] by (auto simp: ix ent)
  moreover have "next_index st + 1 = card (entered ?r)" using d(14) x fin by (simp add: ent)
  ultimately have "tj_shape adj n (x # P) ?r"
    unfolding tj_shape_def f nodes using d(1,2,3,8,9,10,16) xn x by (auto simp: asg entered_def)
  then show "tj_inv adj n (x # P) ?r" using low inv by (simp add: tj_inv_def f asg)
qed

text \<open>Popping a component.\<close>

lemma pop_component_spec:
  assumes "v \<notin> set A" "pop_component v c (A @ v # B) sz nodes components = (stack', sz', nodes', components')"
  shows "stack' = B \<and> sz' = sz + length A + 1 \<and> length nodes' = length nodes \<and> length components' = length components \<and>
    (\<forall>x < length nodes. nodes' ! x = (if x \<in> set (v # A) then (nodes ! x)\<lparr>on_stack := False\<rparr> else nodes ! x)) \<and>
    (\<forall>x < length components. components' ! x = (if x \<in> set (v # A) then c else components ! x))"
  using assms
proof (induction A arbitrary: sz nodes components)
  case (Cons a A)
  let ?ns = "nodes[a := (nodes ! a)\<lparr>on_stack := False\<rparr>]" and ?cs = "components[a := c]"
  have "pop_component v c (A @ v # B) (sz + 1) ?ns ?cs = (stack', sz', nodes', components')" using Cons.prems by (simp add: Let_def)
  note ih = Cons.IH [OF _ this]
  have "nodes' ! x = (if x \<in> set (v # a # A) then (nodes ! x)\<lparr>on_stack := False\<rparr> else nodes ! x)" if x: "x < length nodes" for x
  proof -
    have "nodes' ! x = (if x \<in> set (v # A) then (?ns ! x)\<lparr>on_stack := False\<rparr> else ?ns ! x)" using ih Cons.prems(1) x by simp
    then show ?thesis using x by (cases "x = a") simp_all
  qed
  moreover have "components' ! x = (if x \<in> set (v # a # A) then c else components ! x)" if x: "x < length components" for x
  proof -
    have "components' ! x = (if x \<in> set (v # A) then c else ?cs ! x)" using ih Cons.prems(1) x by simp
    then show ?thesis using x by (cases "x = a") simp_all
  qed
  ultimately show ?case using ih Cons.prems(1) by simp
qed (auto simp: Let_def nth_list_update_in)

lemma stack_split:
  assumes "sorted_wrt (\<lambda>x y. f y < (f x :: nat)) S" "v \<in> set S"
  obtains A B where "S = A @ v # B" "v \<notin> set A" "set (v # A) = {x \<in> set S. f v \<le> f x}" "set B = {x \<in> set S. f x < f v}"
proof -
  obtain A B where s: "S = A @ v # B" "v \<notin> set A" using assms(2) by (meson split_list_first)
  then have "\<forall>x \<in> set A. f v < f x" "\<forall>x \<in> set B. f x < f v" using assms(1) by (auto simp: sorted_wrt_append)
  then show thesis by (intro that [OF s]) (use s in \<open>auto simp: less_imp_le leD\<close>)
qed

text \<open>Leaving a node keeps the shape, whatever is popped.\<close>

lemma leave_targets:
  assumes shape: "tj_shape adj n (v # P) (push_frame (mark v P) st)"
    and rest: "case P of [] \<Rightarrow> recursion_stack st = [] | u # _ \<Rightarrow> v \<in> set (adj u) \<and> frames_ok adj P (recursion_stack st)"
    and xy: "x \<in> entered st" "y \<in> set (adj x)"
  shows "y \<in> entered st \<or> x \<in> set P \<and> \<lparr>tf_v = y, tf_parent = x\<rparr> \<in> set (recursion_stack st)"
proof (cases "y \<in> entered st")
  case False
  note d = tj_shapeD [OF shape, unfolded push_frame_simps]
  have "v \<in> entered st" using d(8) by (auto simp: entered_def)
  moreover have "\<lparr>tf_v = y, tf_parent = x\<rparr> \<in> set (mark v P # recursion_stack st)" using d(17) [OF xy] False by blast
  ultimately have f: "\<lparr>tf_v = y, tf_parent = x\<rparr> \<in> set (recursion_stack st)" using False by (auto simp: mark_def)
  moreover have "x \<in> set P" using f rest frames_parents [of adj P "recursion_stack st", OF _ _ f] by (cases P) simp_all
  ultimately show ?thesis by simp
qed simp

lemma leave_shape:
  assumes shape: "tj_shape adj n (v # P) (push_frame (mark v P) st)"
    and rest: "case P of [] \<Rightarrow> recursion_stack st = [] | u # _ \<Rightarrow> v \<in> set (adj u) \<and> frames_ok adj P (recursion_stack st)"
    and r: "recursion_stack r = recursion_stack st" "entered r = entered st" "next_index r = next_index st"
      "before_recursion r = (before_recursion st)[v := True]" "length (tarjan_node_list r) = n" "length (components_index r) = n"
      "component_index r = length (component_size_vector r)" "\<And>x. x < n \<Longrightarrow> tj_ix r x = tj_ix st x"
    and stack: "sorted_wrt (\<lambda>x y. tj_ix st y < tj_ix st x) (tarjan_stack r)" "set P \<subseteq> set (tarjan_stack r)"
      "set (tarjan_stack r) \<subseteq> set (tarjan_stack st)" "set (tarjan_stack r) \<inter> assigned r = {}"
      "\<forall>x < n. on_stack (tarjan_node_list r ! x) \<longleftrightarrow> x \<in> set (tarjan_stack r)"
  shows "tj_shape adj n P r"
proof -
  note d = tj_shapeD [OF shape, unfolded push_frame_simps] and below = entered_less [OF shape, unfolded push_frame_simps]
  have v: "v \<in> entered st" "v < n" "v \<notin> set P" using d(7,8,9) by (auto simp: entered_def)
  have parents: "tf_parent f \<in> set P" if "f \<in> set (recursion_stack st)" for f
    using that rest frames_parents [of adj P "recursion_stack st" f] by (cases P) simp_all
  have ent: "tj_ix r x = tj_ix st x" if "x \<in> entered st" for x using r(8) below that by blast
  have P: "p \<in> entered st" if "p \<in> set P" for p using that d(8) by (auto simp: entered_def)
  have "frames_ok adj P (recursion_stack st)" using rest by (cases P) simp_all
  moreover have "sorted_wrt (\<lambda>x y. tj_ix r y < tj_ix r x) (tarjan_stack r)" "sorted_wrt (\<lambda>x y. tj_ix r y < tj_ix r x) P"
    by (rule sorted_key_cong [OF stack(1)], use ent stack(3) in \<open>auto simp: entered_def\<close>)
      (rule sorted_key_cong [of "tj_ix st"], use d(7) ent P in auto)
  moreover have "tj_ix r (tf_parent f) < tj_ix r (tf_v f)"
    if "f \<in> set (recursion_stack st)" "tf_v f \<in> entered st" "tf_v f \<noteq> tf_parent f" for f
    using d(18) [of f] that ent P parents by simp
  moreover have "before_recursion r ! x \<longleftrightarrow> x \<notin> set P" if "x < n" for x
    using that r(4) d(3) d(11) [OF that] v(3) by (auto simp: nth_list_update_in)
  moreover have "tj_ix r x = SPECIAL_NODEID \<longleftrightarrow> x \<notin> entered st" if "x < n" for x using r(8) d(13) that by simp
  moreover have "tj_ix r x < next_index st" if "x \<in> entered st" for x using ent [OF that] d(15) [OF that] by simp
  moreover note leave_targets [OF shape rest]
  ultimately show ?thesis
    unfolding tj_shape_def r(1-3) using r(4-7) stack(2-5) d(3,5,9,14) by simp
qed

lemma leave_inv:
  assumes ok: "arcs_ok adj n" and inv: "tj_inv adj n (v # P) (push_frame (mark v P) st)"
    and rest: "case P of [] \<Rightarrow> recursion_stack st = [] | u # _ \<Rightarrow> v \<in> set (adj u) \<and> frames_ok adj P (recursion_stack st)"
  shows "tj_inv adj n P (leave_node (mark v P) st)" "entered (leave_node (mark v P) st) = entered st"
    "recursion_stack (leave_node (mark v P) st) = recursion_stack st"
proof -
  let ?E = "tj_arcs adj n" and ?ns = "tarjan_node_list st" and ?S = "set (tarjan_stack st)"
  let ?r = "leave_node (mark v P) st"
  define u where "u = tf_parent (mark v P)"
  have shape: "tj_shape adj n (v # P) (push_frame (mark v P) st)"
    and low: "low_inv ?E (tj_ix st) (tj_lo st) ?S (insert v (set P))"
    and scc: "scc_inv ?E (\<lambda>x. components_index st ! x) (component_size_vector st) (assigned st)"
    using inv by (simp_all add: tj_inv_def)
  note d = tj_shapeD [OF shape, unfolded push_frame_simps]
  have v: "v \<in> ?S" "v < n" "v \<notin> set P" "\<forall>p \<in> set P. tj_ix st p < tj_ix st v" using d(7,8,9) by auto
  have u: "if P = [] then u = v else u \<in> set P \<and> v \<in> set (adj u) \<and> (\<forall>p \<in> set P. tj_ix st p \<le> tj_ix st u)"
    using rest d(7) by (cases P) (auto simp: u_def mark_def intro: less_imp_le)
  have un: "u < n" using u v(2) d(8,9) by (auto split: if_splits)
  define nodes1 where "nodes1 = ?ns[u := (?ns ! u)\<lparr>low_link := min (low_link (?ns ! u)) (low_link (?ns ! v))\<rparr>]"
  define st1 where "st1 = st\<lparr>before_recursion := (before_recursion st)[v := True], tarjan_node_list := nodes1\<rparr>"
  have n1: "tj_index (nodes1 ! x) = tj_ix st x" "on_stack (nodes1 ! x) = on_stack (?ns ! x)"
    "low_link (nodes1 ! x) = ((tj_lo st)(u := min (tj_lo st u) (tj_lo st v))) x" "length nodes1 = n" for x
    using un d(1) by (auto simp: nodes1_def tj_ix_def tj_lo_def nth_list_update_if)
  have v1: "low_link (nodes1 ! v) = tj_lo st v" using u v(3) by (auto simp: n1(3) split: if_splits)
  have nl: "tarjan_node_list st1 = nodes1" by (simp add: st1_def)
  have asg1: "assigned st1 = assigned st" "entered st1 = entered st" by (simp_all add: st1_def assigned_def entered_def)
  show "tj_inv adj n P ?r" "entered ?r = entered st" "recursion_stack ?r = recursion_stack st"
  proof (atomize (full), cases "tj_lo st v = tj_ix st v")
    case False
    then have lt: "tj_lo st v < tj_ix st v" using low_invD(5) [OF low v(1)] by simp
    have r: "?r = st1" using False by (simp add: leave_node_def Let_def mark_def u_def [unfolded mark_def, simplified, symmetric]
          nodes1_def [symmetric] v1 n1(1) st1_def)
    have P: "P \<noteq> []"
    proof
      assume "P = []"
      obtain w where "w \<in> ?S" "tj_ix st w = tj_lo st v" using low_invD(6) [OF low v(1)] by blast
      then show False using low_invD(3) [OF low, of w] lt \<open>P = []\<close> by auto
    qed
    have "(u, v) \<in> ?E" using u P un by (simp add: tj_arcs_def)
    then have "low_inv ?E (tj_ix st) ((tj_lo st)(u := min (tj_lo st u) (tj_lo st v))) ?S (set P)"
      using u P by (intro low_leave [OF low v(3,4) lt]) simp_all
    moreover have ix: "tj_ix st1 = tj_ix st" "tj_lo st1 = (tj_lo st)(u := min (tj_lo st u) (tj_lo st v))"
      using n1(1,3) by (simp_all add: nl fun_eq_iff tj_ix_def [of st1] tj_lo_def [of st1])
    moreover have "tj_shape adj n P st1"
      by (rule leave_shape [OF shape rest]) (use asg1 d(2,6,8,10,12,16) ix(1) n1(2,4) in \<open>simp_all add: st1_def\<close>)
    ultimately show "tj_inv adj n P ?r \<and> entered ?r = entered st \<and> recursion_stack ?r = recursion_stack st"
      unfolding r using scc asg1 by (simp add: tj_inv_def st1_def)
  next
    case True
    obtain A B where S: "tarjan_stack st = A @ v # B" "v \<notin> set A" "set (v # A) = {x \<in> ?S. tj_ix st v \<le> tj_ix st x}"
      "set B = {x \<in> ?S. tj_ix st x < tj_ix st v}" by (rule stack_split [OF d(6) v(1)])
    obtain stack' sz' nodes' components' where pop: "pop_component v (component_index st) (A @ v # B) 0 nodes1 (components_index st) =
        (stack', sz', nodes', components')" by (metis prod_cases4)
    note p = pop_component_spec [OF S(2) pop]
    have r: "?r = st1\<lparr>tarjan_stack := B, tarjan_node_list := nodes', components_index := components',
        component_size_vector := component_size_vector st @ [Suc (length A)], component_index := component_index st + 1\<rparr>"
      using True p pop by (simp add: leave_node_def Let_def mark_def u_def [unfolded mark_def, simplified, symmetric]
          nodes1_def [symmetric] v1 n1(1) st1_def S(1))
    let ?T = "set (v # A)"
    have T: "?T \<inter> assigned st = {}" "?T \<subseteq> {..<n}" using d(9,10) S(1) by auto
    have special: "component_index st \<noteq> SPECIAL_NODEID"
    proof -
      have "length (component_size_vector st) \<le> card (assigned st)"
        using card_image_le [OF scc_invD(1) [OF scc], of "\<lambda>x. components_index st ! x"] scc_invD(3) [OF scc] by simp
      also have "\<dots> \<le> card ({..<n} - {v})" using T(1) d(2) by (intro card_mono) (auto simp: assigned_def)
      also have "\<dots> < n" using v(2) by simp
      finally show ?thesis using d(16) ok by (simp add: arcs_ok_def)
    qed
    have comps: "components' ! x = (if x \<in> ?T then component_index st else components_index st ! x)" if "x < n" for x
      using p d(2) that by simp
    have asg: "assigned ?r = ?T \<union> assigned st"
      using T(2) d(2) p special by (auto simp: assigned_def r comps split: if_splits)
    have ent: "entered ?r = entered st" unfolding entered_def asg by (auto simp: r S(1))
    have nodes': "nodes' ! x = (if x \<in> ?T then (nodes1 ! x)\<lparr>on_stack := False\<rparr> else nodes1 ! x)" if "x < n" for x
      using p n1(4) that by simp
    have nr: "tarjan_node_list ?r = nodes'" and sr: "tarjan_stack ?r = B" by (simp_all add: r)
    have SB: "?S = ?T \<union> set B" "?T \<inter> set B = {}" using sorted_key_distinct [OF d(6)] S(1) by auto
    have ix: "tj_ix ?r x = tj_ix st x" "tj_lo ?r x = ((tj_lo st)(u := min (tj_lo st u) (tj_lo st v))) x" if "x < n" for x
      using that nodes' [OF that] n1(1,3) by (simp_all add: tj_ix_def [of ?r] tj_lo_def [of ?r] nr)
    have out: "?E `` {x} \<subseteq> ?S \<union> assigned st" if "x \<in> ?S" "tj_ix st v \<le> tj_ix st x" for x
    proof -
      have "x \<notin> set P" using that(2) v(4) by (auto simp: leD)
      then show ?thesis using leave_targets [OF shape rest, of x] that(1) by (auto simp: tj_arcs_def entered_def)
    qed
    note comp = low_component [OF low v(4) True scc_invD(2) [OF scc] d(10), folded S(3)]
    have "scc_inv ?E (\<lambda>x. components_index ?r ! x) (component_size_vector st @ [card ?T]) (?T \<union> assigned st)"
    proof (rule scc_inv_add [OF scc T(1)])
      show "?E `` ?T \<subseteq> ?T \<union> assigned st" using comp(2) out by blast
      show "(v, x) \<in> ?E\<^sup>* \<and> (x, v) \<in> ?E\<^sup>*" if "x \<in> ?T" for x using comp(3) out that by blast
      show "\<forall>x \<in> assigned st. components_index ?r ! x = components_index st ! x"
        using T(1) d(2) comps by (auto simp: r assigned_def)
      show "\<forall>x \<in> ?T. components_index ?r ! x = length (component_size_vector st)"
        using T(2) comps d(16) by (auto simp: r)
    qed simp_all
    moreover have "card ?T = Suc (length A)"
      using sorted_key_distinct [OF d(6)] S(1,2) by (simp add: distinct_card)
    moreover have "low_inv ?E (tj_ix ?r) (tj_lo ?r) (set B) (set P)"
    proof (rule low_inv_cong)
      show "low_inv ?E (tj_ix st) (tj_lo st) (set B) (set P)" using low_root [OF low v(3,4)] by (simp add: S(4))
      have low_u: "tj_lo st u \<le> tj_lo st v"
      proof (cases "P = []")
        case False
        then have "u \<in> set P" using u by simp
        then have "tj_lo st u \<le> tj_ix st u" "tj_ix st u < tj_ix st v"
          using low_invD(5) [OF low, of u] low_invD(2) [OF low] v(4) by auto
        then show ?thesis using True by simp
      qed (use u in simp)
      have "(tj_lo st)(u := min (tj_lo st u) (tj_lo st v)) = tj_lo st"
        using low_u by (simp add: fun_eq_iff)
      then show "\<forall>x \<in> set B. tj_ix ?r x = tj_ix st x \<and> tj_lo ?r x = tj_lo st x" using ix d(9) S(1) by auto
    qed
    moreover have "tj_shape adj n P ?r"
    proof (rule leave_shape [OF shape rest])
      show "\<forall>x < n. on_stack (tarjan_node_list ?r ! x) \<longleftrightarrow> x \<in> set (tarjan_stack ?r)"
      proof (intro allI impI)
        fix x assume x: "x < n"
        show "on_stack (tarjan_node_list ?r ! x) \<longleftrightarrow> x \<in> set (tarjan_stack ?r)"
          using nodes' [OF x] n1(2) d(12) [OF x] SB unfolding nr sr by (cases "x \<in> ?T") auto
      qed
      show "set P \<subseteq> set (tarjan_stack ?r)" unfolding sr S(4) using v(4) d(8) by auto
      show "set (tarjan_stack ?r) \<inter> assigned ?r = {}" unfolding asg sr using d(10) SB by auto
      show "set (tarjan_stack ?r) \<subseteq> ?S" unfolding sr SB(1) by blast
      show "sorted_wrt (\<lambda>x y. tj_ix st y < tj_ix st x) (tarjan_stack ?r)"
        unfolding sr using d(6) S(1) by (simp add: sorted_wrt_append)
    qed (use ent ix(1) d(2,16) p n1(4) in \<open>simp_all add: r st1_def\<close>)
    ultimately show "tj_inv adj n P ?r \<and> entered ?r = entered st \<and> recursion_stack ?r = recursion_stack st"
      unfolding tj_inv_def asg by (simp add: ent) (simp add: r st1_def)
  qed
qed

section \<open>The run\<close>

text \<open>The work that is left.\<close>

definition tj_work :: "(NodeID \<Rightarrow> NodeID list) \<Rightarrow> nat \<Rightarrow> TarjanSCC \<Rightarrow> nat" where
  "tj_work adj n st = length (recursion_stack st) + (\<Sum>x \<in> {..<n} - entered st. length (adj x) + 2)"

lemma tj_work_enter:
  assumes "x < n" "x \<notin> entered st" "entered st' = insert x (entered st)"
    and "length (recursion_stack st') \<le> length (recursion_stack st) + 1 + length (adj x)"
  shows "tj_work adj n st' < tj_work adj n (push_frame f st)"
proof -
  define W where "W = {..<n} - entered st'"
  have W: "{..<n} - entered st = insert x W" "x \<notin> W" "finite W" using assms(1-3) by (auto simp: W_def)
  have "(\<Sum>x \<in> {..<n} - entered st. length (adj x) + 2) = length (adj x) + 2 + (\<Sum>x \<in> {..<n} - entered st'. length (adj x) + 2)"
    unfolding W(1) W_def [symmetric] by (rule sum.insert [OF W(3,2)])
  then show ?thesis using assms(4) by (simp add: tj_work_def)
qed

lemma skip_inv:
  assumes inv: "tj_inv adj n P (push_frame f st)" and f: "tf_v f \<in> entered st" "frames_ok adj P (recursion_stack st)"
  shows "tj_inv adj n P st"
proof -
  have shape: "tj_shape adj n P (push_frame f st)" using inv by (simp add: tj_inv_def)
  note d = tj_shapeD [OF shape, unfolded push_frame_simps]
  have "y \<in> entered st \<or> x \<in> set P \<and> \<lparr>tf_v = y, tf_parent = x\<rparr> \<in> set (recursion_stack st)"
    if "x \<in> entered st" "y \<in> set (adj x)" for x y
    using d(17) [OF that] f(1) by auto
  moreover have "tf_v g < n" if "g \<in> set (recursion_stack st)" for g using d(5) [of g] that by simp
  moreover have "tj_ix st (tf_parent g) < tj_ix st (tf_v g)"
    if "g \<in> set (recursion_stack st)" "tf_v g \<in> entered st" "tf_v g \<noteq> tf_parent g" for g using d(18) [of g] that by simp
  ultimately have "tj_shape adj n P st"
    unfolding tj_shape_def
    by (intro conjI ballI allI impI) (assumption | rule d(1-3) d(6-16) f(2))+
  then show ?thesis using inv by (simp add: tj_inv_def)
qed

lemma frame_step:
  assumes ok: "arcs_ok adj n" and inv: "tj_inv adj n P (push_frame f st)"
  defines "r \<equiv> tarjan_frame adj f st"
  shows "\<exists>P'. tj_inv adj n P' r" "entered st \<subseteq> entered r" "tf_v f \<in> entered r"
    "set (recursion_stack st) \<subseteq> set (recursion_stack r)" "tj_work adj n r < tj_work adj n (push_frame f st)"
proof -
  have shape: "tj_shape adj n P (push_frame f st)" using inv by (simp add: tj_inv_def)
  note d = tj_shapeD [OF shape, unfolded push_frame_simps]
  have fn: "tf_v f < n" using d(5) [of f] by simp
  have special: "tj_index (tarjan_node_list st ! tf_v f) = SPECIAL_NODEID \<longleftrightarrow> tf_v f \<notin> entered st"
    using d(13) [OF fn] by (simp add: tj_ix_def)
  have before: "before_recursion st ! tf_v f \<longleftrightarrow> tf_v f \<notin> set P" using d(11) [OF fn] .
  have enter: "(\<exists>P'. tj_inv adj n P' r) \<and> entered st \<subseteq> entered r \<and> tf_v f \<in> entered r \<and>
      set (recursion_stack st) \<subseteq> set (recursion_stack r) \<and> tj_work adj n r < tj_work adj n (push_frame f st)"
    if f: "f = mark (tf_v f) P" "tf_v f \<notin> entered st"
      "case P of [] \<Rightarrow> recursion_stack st = [] | u # _ \<Rightarrow> tf_v f \<in> set (adj u) \<and> frames_ok adj P (recursion_stack st)"
  proof -
    have nP: "tf_v f \<notin> set P" using f(2) d(8) by (auto simp: entered_def)
    then have r: "r = enter_node adj (mark (tf_v f) P) st"
      using before special f(1,2) by (simp add: r_def tarjan_frame_def)
    have inv': "tj_inv adj n P (push_frame (mark (tf_v f) P) st)" using inv f(1) by metis
    note e = enter_inv [OF ok inv' f(2,3), folded r]
    show ?thesis using e tj_work_enter [of "tf_v f" n st r adj f, OF fn f(2) e(2,3)] by blast
  qed
  have skip: "r = st" if "tf_v f \<in> entered st" "tf_v f \<notin> set P"
    using that before special by (simp add: r_def tarjan_frame_def)
  have less: "tj_work adj n st < tj_work adj n (push_frame f st)" by (simp add: tj_work_def)
  have "(\<exists>P'. tj_inv adj n P' r) \<and> entered st \<subseteq> entered r \<and> tf_v f \<in> entered r \<and>
      set (recursion_stack st) \<subseteq> set (recursion_stack r) \<and> tj_work adj n r < tj_work adj n (push_frame f st)"
  proof (cases P)
    case Nil
    then have rest: "recursion_stack st = []" "f = mark (tf_v f) P" using d(4) by (auto simp: mark_def)
    show ?thesis
    proof (cases "tf_v f \<in> entered st")
      case True
      moreover have "tj_inv adj n P st" by (rule skip_inv [OF inv True]) (use rest Nil in simp)
      ultimately show ?thesis using skip less Nil by auto
    qed (use enter rest Nil in simp)
  next
    case (Cons v Q)
    obtain pend rest where fs: "f # recursion_stack st = map (\<lambda>x. \<lparr>tf_v = x, tf_parent = v\<rparr>) pend @ mark v Q # rest"
      "set pend \<subseteq> set (adj v) - {v}" "case Q of [] \<Rightarrow> rest = [] | u # _ \<Rightarrow> v \<in> set (adj u) \<and> frames_ok adj Q rest"
      using d(4) Cons by auto
    show ?thesis
    proof (cases pend)
      case Nil
      then have f: "f = mark v Q" "recursion_stack st = rest" using fs(1) by simp_all
      have v: "tf_v f = v" by (simp add: f mark_def)
      have vS: "v \<in> entered st" using d(8) Cons by (auto simp: entered_def)
      have r: "r = leave_node (mark v Q) st" using before by (simp add: r_def tarjan_frame_def v Cons) (simp add: f)
      have "tj_inv adj n (v # Q) (push_frame (mark v Q) st)" using inv f(1) Cons by simp
      moreover have "case Q of [] \<Rightarrow> recursion_stack st = [] | u # _ \<Rightarrow> v \<in> set (adj u) \<and> frames_ok adj Q (recursion_stack st)"
        using fs(3) unfolding f(2) .
      ultimately have l: "tj_inv adj n Q r" "entered r = entered st" "recursion_stack r = recursion_stack st"
        unfolding r using leave_inv [OF ok] by blast+
      then have "tj_work adj n r < tj_work adj n (push_frame f st)" using less by (simp add: tj_work_def)
      then show ?thesis using l v vS by auto
    next
      case (Cons x pend')
      then have f: "f = \<lparr>tf_v = x, tf_parent = v\<rparr>" "x \<in> set (adj v)" "x \<noteq> v"
        "recursion_stack st = map (\<lambda>x. \<lparr>tf_v = x, tf_parent = v\<rparr>) pend' @ mark v Q # rest" using fs(1,2) by auto
      have rest: "frames_ok adj P (recursion_stack st)"
        unfolding \<open>P = v # Q\<close> frames_ok.simps f(4) using fs(2,3) Cons by auto
      have m: "f = mark (tf_v f) P" by (simp add: f \<open>P = v # Q\<close> mark_def)
      show ?thesis
      proof (cases "tf_v f \<in> entered st")
        case True
        have "x \<notin> set P"
        proof
          assume "x \<in> set P"
          then have "tj_ix st x \<le> tj_ix st v" using d(7) \<open>P = v # Q\<close> by (auto intro: less_imp_le)
          then show False using d(18) [of f] True f(1,3) by simp
        qed
        then have "r = st" using skip True f(1) by simp
        then show ?thesis using skip_inv [OF inv True rest] True less by blast
      next
        case False
        then show ?thesis using enter [OF m] rest f(1,2) \<open>P = v # Q\<close> by simp
      qed
    qed
  qed
  then show "\<exists>P'. tj_inv adj n P' r" "entered st \<subseteq> entered r" "tf_v f \<in> entered r"
    "set (recursion_stack st) \<subseteq> set (recursion_stack r)" "tj_work adj n r < tj_work adj n (push_frame f st)"
    by blast+
qed

lemma loop_returns:
  assumes "arcs_ok adj n"
  shows "tj_inv adj n P st \<Longrightarrow> \<exists>st' P'. tarjan_loop adj st = Some st' \<and> tj_inv adj n P' st' \<and> recursion_stack st' = [] \<and>
    entered st \<subseteq> entered st' \<and> tf_v ` set (recursion_stack st) \<subseteq> entered st'"
proof (induction "tj_work adj n st" arbitrary: P st rule: less_induct)
  case less
  show ?case
  proof (cases "recursion_stack st")
    case Nil
    then show ?thesis using less.prems by (subst tarjan_loop.simps) auto
  next
    case (Cons f fs)
    define st0 where "st0 = st\<lparr>recursion_stack := fs\<rparr>"
    have st: "st = push_frame f st0" using Cons by (simp add: st0_def push_frame_def)
    note step = frame_step [OF assms less.prems [unfolded st]]
    obtain P1 where "tj_inv adj n P1 (tarjan_frame adj f st0)" using step(1) by blast
    from less.hyps [OF step(5) [folded st] this] obtain st' P' where
      r: "tarjan_loop adj (tarjan_frame adj f st0) = Some st'" "tj_inv adj n P' st'" "recursion_stack st' = []"
        "entered (tarjan_frame adj f st0) \<subseteq> entered st'"
        "tf_v ` set (recursion_stack (tarjan_frame adj f st0)) \<subseteq> entered st'" by blast
    have "tarjan_loop adj st = Some st'" using r(1) Cons by (subst tarjan_loop.simps) (simp add: st0_def)
    moreover have "recursion_stack st = f # recursion_stack st0" "entered st = entered st0" by (simp_all add: st)
    moreover have "tf_v ` set (recursion_stack st0) \<subseteq> entered st'" using r(5) step(4) by (meson image_mono order_trans)
    ultimately show ?thesis using r(2-4) step(2,3) by auto
  qed
qed

lemma idle_stack:
  assumes "tj_inv adj n P st" "recursion_stack st = []"
  shows "P = []" "entered st = assigned st"
proof -
  have "frames_ok adj P []" using assms tj_shapeD(4) by (force simp: tj_inv_def)
  then show "P = []" by (cases P) auto
  then have "set (tarjan_stack st) = {}" using assms(1) low_invD(3) by (fastforce simp: tj_inv_def)
  then show "entered st = assigned st" by (simp add: entered_def)
qed

lemma push_root:
  assumes inv: "tj_inv adj n [] st" and r: "recursion_stack st = []" "x < n"
  shows "tj_inv adj n [] (push_frame \<lparr>tf_v = x, tf_parent = x\<rparr> st)"
proof -
  have shape: "tj_shape adj n [] st" using inv by (simp add: tj_inv_def)
  note d = tj_shapeD [OF shape]
  have "y \<in> entered st" if "z \<in> entered st" "y \<in> set (adj z)" for y z using d(17) [OF that] by simp
  then have "tj_shape adj n [] (push_frame \<lparr>tf_v = x, tf_parent = x\<rparr> st)"
    unfolding tj_shape_def push_frame_simps r(1)
    by (intro conjI ballI allI impI) (assumption | rule d(1-3) d(6-16) | use r(2) in simp)+
  then show ?thesis using inv by (simp add: tj_inv_def)
qed

lemma roots_return:
  assumes ok: "arcs_ok adj n"
  shows "tj_inv adj n [] st \<Longrightarrow> recursion_stack st = [] \<Longrightarrow> \<forall>x \<in> set nodes. x < n \<Longrightarrow>
    \<exists>st'. tarjan_roots adj nodes st = Some st' \<and> tj_inv adj n [] st' \<and> recursion_stack st' = [] \<and>
      entered st \<union> set nodes \<subseteq> entered st'"
proof (induction nodes arbitrary: st)
  case (Cons x nodes)
  define st1 where "st1 = (if SPECIAL_NODEID = components_index st ! x
    then st\<lparr>recursion_stack := \<lparr>tf_v = x, tf_parent = x\<rparr> # recursion_stack st\<rparr> else st)"
  have st1: "st1 = (if x \<in> entered st then st else push_frame \<lparr>tf_v = x, tf_parent = x\<rparr> st)"
  proof -
    have "length (components_index st) = n" by (rule tj_shapeD(2) [OF tj_inv_shape [OF Cons.prems(1)]])
    then have "x \<in> assigned st \<longleftrightarrow> components_index st ! x \<noteq> SPECIAL_NODEID" using Cons.prems(3) by (simp add: assigned_def)
    then show ?thesis using idle_stack(2) [OF Cons.prems(1,2)] by (auto simp: st1_def push_frame_def)
  qed
  have "tj_inv adj n [] st1" using Cons.prems push_root by (simp add: st1)
  from loop_returns [OF ok this] obtain st2 P where st2: "tarjan_loop adj st1 = Some st2" "tj_inv adj n P st2"
    "recursion_stack st2 = []" "entered st1 \<subseteq> entered st2" "tf_v ` set (recursion_stack st1) \<subseteq> entered st2" by blast
  have P: "P = []" by (rule idle_stack(1) [OF st2(2,3)])
  have "entered st \<subseteq> entered st2" "x \<in> entered st2" using st2(4,5) by (auto simp: st1 split: if_splits)
  moreover obtain st' where "tarjan_roots adj nodes st2 = Some st'" "tj_inv adj n [] st'" "recursion_stack st' = []"
    "entered st2 \<union> set nodes \<subseteq> entered st'" using Cons.IH [of st2] st2(2,3) P Cons.prems(3) by auto
  ultimately show ?case using st2(1) by (simp add: st1_def) blast
qed simp

lemma init_inv: "tj_inv adj n [] (TarjanSCC_init n)"
proof -
  have "assigned (TarjanSCC_init n) = {}" by (auto simp: assigned_def TarjanSCC_init_def)
  moreover have "entered (TarjanSCC_init n) = {}" using calculation by (simp add: entered_def TarjanSCC_init_def)
  ultimately show ?thesis
    by (simp add: tj_inv_def tj_shape_def low_inv_def scc_inv_def)
      (simp add: TarjanSCC_init_def TarjanNode_init_def tj_ix_def)
qed

lemma Run_spec:
  assumes "arcs_ok adj n"
  obtains st where "Run adj n (TarjanSCC_init n) = Some st" "length (components_index st) = n"
    "scc_inv (tj_arcs adj n) (GetComponentID st) (component_size_vector st) {..<n}"
proof -
  obtain st where st: "tarjan_roots adj [0..<n] (TarjanSCC_init n) = Some st" "tj_inv adj n [] st" "recursion_stack st = []"
    "set [0..<n] \<subseteq> entered st"
    using roots_return [OF assms init_inv, of "[0..<n]"] by (auto simp: TarjanSCC_init_def)
  have "entered st \<subseteq> {..<n}" by (rule entered_less [OF tj_inv_shape [OF st(2)]])
  then have "assigned st = {..<n}" using st(4) idle_stack(2) [OF st(2,3)] by auto
  moreover have "GetComponentID st = (\<lambda>x. components_index st ! x)" by (simp add: fun_eq_iff GetComponentID_def)
  ultimately show thesis using that [of st] st(1,2) tj_shapeD(2) [OF tj_inv_shape [OF st(2)]]
    by (simp add: Run_def tj_inv_def)
qed

text \<open>
  Property C6. Tarjan's algorithm.  On every graph whose edges stay within its nodes the run
  returns; two nodes have the same component exactly when each reaches the other, the components
  are numbered without gaps, an edge never leads to a component with a larger number, and the size
  of a component is the number of its nodes.
\<close>

theorem TarjanSCC_correct:
  assumes "arcs_ok adj n"
  shows "\<exists>st. Run adj n (TarjanSCC_init n) = Some st \<and>
    (\<forall>x < n. \<forall>y < n. GetComponentID st x = GetComponentID st y \<longleftrightarrow>
       (x, y) \<in> (tj_arcs adj n)\<^sup>* \<and> (y, x) \<in> (tj_arcs adj n)\<^sup>*) \<and>
    GetComponentID st ` {..<n} = {..<GetNumberOfComponents st} \<and>
    (\<forall>x < n. \<forall>y \<in> set (adj x). GetComponentID st y \<le> GetComponentID st x) \<and>
    (\<forall>c < GetNumberOfComponents st. GetComponentSize st c = card {x. x < n \<and> GetComponentID st x = c})"
proof -
  obtain st where st: "Run adj n (TarjanSCC_init n) = Some st"
    "scc_inv (tj_arcs adj n) (GetComponentID st) (component_size_vector st) {..<n}" by (rule Run_spec [OF assms])
  note d = scc_invD [OF st(2)]
  show ?thesis
    using st(1) d(3) d(4,5,6) unfolding GetNumberOfComponents_def GetComponentSize_def
    by (intro exI [of _ st]) (simp add: tj_arcs_def)
qed

definition example_arcs :: "NodeID \<Rightarrow> NodeID list" where
  "example_arcs v = [[1], [2, 0, 3, 3], [0], [3, 4], [3]] ! v"

lemma TarjanSCC_correct_witness:
  "\<exists>st. Run example_arcs 5 (TarjanSCC_init 5) = Some st \<and>
     (\<forall>x < 5. \<forall>y < 5. GetComponentID st x = GetComponentID st y \<longleftrightarrow>
        (x, y) \<in> (tj_arcs example_arcs 5)\<^sup>* \<and> (y, x) \<in> (tj_arcs example_arcs 5)\<^sup>*)"
proof -
  have "\<forall>y \<in> set (example_arcs x). y < 5" if "x < 5" for x
  proof -
    have "x = 0 \<or> x = 1 \<or> x = 2 \<or> x = 3 \<or> x = 4" using that by linarith
    then show ?thesis by (elim disjE) (simp_all add: example_arcs_def)
  qed
  then have "arcs_ok example_arcs 5" by (simp add: arcs_ok_def SPECIAL_NODEID_def)
  from TarjanSCC_correct [OF this] show ?thesis by blast
qed

end
