(* ===== verification/ComponentPartition.thy ===== *)
theory ComponentPartition
  imports RecursiveBisection TarjanSCC
begin

text \<open>
  The first step of the recursive bisection, \<^verbatim>\<open>PrePartitionWithSCC\<close> of
  \<^verbatim>\<open>src/partitioner/recursive_bisection_state.cpp\<close> with
  \<^verbatim>\<open>src/partitioner/tarjan_graph_wrapper.cpp\<close>: the nodes are grouped by component, small
  components together at the end, and the number of its group starts the id of a node.  The
  whole constructor of \<^verbatim>\<open>src/partitioner/recursive_bisection.cpp\<close> is the composition with the
  recursive bisection of the big components.

  The double-precision quotient of logarithms is the exact one.
\<close>

section \<open>Definitions\<close>

definition tgw_targets :: "BisectionGraph \<Rightarrow> NodeID \<Rightarrow> NodeID list" where
  "tgw_targets g nid = node_edges g (bg_nodes g ! nid)"

definition in_small :: "TarjanSCC \<Rightarrow> nat \<Rightarrow> NodeID \<Rightarrow> bool" where
  "in_small scc_algo small_component_size nid \<longleftrightarrow>
     GetComponentSize scc_algo (GetComponentID scc_algo nid) \<le> small_component_size"

text \<open>\<^verbatim>\<open>-1\<close> as a \<^verbatim>\<open>std::size_t\<close>.\<close>

definition small_component_id :: nat where
  "small_component_id = 18446744073709551615"

definition transform_id :: "TarjanSCC \<Rightarrow> nat \<Rightarrow> NodeID \<Rightarrow> nat" where
  "transform_id scc_algo small_component_size nid =
     (if in_small scc_algo small_component_size nid then small_component_id
      else GetComponentID scc_algo nid)"

text \<open>The loop that fills \<^verbatim>\<open>mapping\<close>; a key that is not yet in \<^verbatim>\<open>component_map\<close> has the value 0.\<close>

fun component_mapping ::
  "(NodeID \<Rightarrow> nat) \<Rightarrow> BisectionNode list \<Rightarrow> (nat \<Rightarrow> nat) \<Rightarrow> NodeID list \<Rightarrow> NodeID list" where
  "component_mapping tid [] component_map mapping = mapping"
| "component_mapping tid (node # nodes) component_map mapping =
     (let t = tid (bn_original_id node)
      in component_mapping tid nodes (component_map(t := component_map t + 1))
           (mapping[bn_original_id node := component_map t]))"

text \<open>The views: \<open>i\<close> is the iterator of the loop.\<close>

fun split_views :: "(NodeID \<Rightarrow> nat) \<Rightarrow> BisectionNode list \<Rightarrow> nat \<Rightarrow> nat \<Rightarrow> nat \<Rightarrow> (nat \<times> nat) list" where
  "split_views tid [] i last_pos last_id = [(last_pos, i)]"
| "split_views tid (node # nodes) i last_pos last_id =
     (let itr_id = tid (bn_original_id node)
      in if last_id \<noteq> itr_id then (last_pos, i) # split_views tid nodes (i + 1) i itr_id
         else split_views tid nodes (i + 1) last_pos last_id)"

definition has_small_component :: "TarjanSCC \<Rightarrow> nat \<Rightarrow> bool" where
  "has_small_component scc_algo small_component_size \<longleftrightarrow>
     list_ex (\<lambda>i. GetComponentSize scc_algo i \<le> small_component_size) [0..<GetNumberOfComponents scc_algo]"

definition needed_levels :: "nat \<Rightarrow> nat" where
  "needed_levels num_views = nat \<lceil>ln (real num_views) / ln 2\<rceil>"

definition consecutive_component_id :: "nat list \<Rightarrow> nat \<Rightarrow> nat" where
  "consecutive_component_id ordered_component_ids component_id =
     length (takeWhile (\<lambda>c. c \<noteq> component_id) ordered_component_ids)"

definition store_component_ids :: "(NodeID \<Rightarrow> nat) \<Rightarrow> nat list \<Rightarrow> nat \<Rightarrow> BisectionNode list \<Rightarrow> BisectionID list \<Rightarrow> BisectionID list" where
  "store_component_ids tid ordered_component_ids shift nodes ids =
     fold (\<lambda>node ids. ids[bn_original_id node :=
         word_of_nat (push_bit shift (consecutive_component_id ordered_component_ids (tid (bn_original_id node))))])
       nodes ids"

definition group_by_component :: "(NodeID \<Rightarrow> nat) \<Rightarrow> BisectionGraph \<Rightarrow> BisectionGraph" where
  "group_by_component tid g =
     (let mapping = component_mapping tid (bg_nodes g) (\<lambda>_. 0) (replicate (length (bg_nodes g)) SPECIAL_NODEID);
          nodes = sort_key (\<lambda>node. tid (bn_original_id node)) (bg_nodes g)
      in \<lparr>bg_nodes = nodes, bg_edges = fold (remap_edges mapping) nodes (bg_edges g)\<rparr>)"

definition PrePartitionWithSCC ::
  "nat \<Rightarrow> RecursiveBisectionState \<Rightarrow> (RecursiveBisectionState \<times> (nat \<times> nat) list) option" where
  "PrePartitionWithSCC small_component_size st =
     (let g = bisection_graph st; num = length (bg_nodes g)
      in map_option (\<lambda>scc_algo.
           let tid = transform_id scc_algo small_component_size;
               g' = group_by_component tid g;
               views = split_views tid (bg_nodes g') 0 0 (tid (bn_original_id (bg_nodes g' ! 0)));
               ordered_component_ids = sorted_list_of_set (set (map (\<lambda>node. tid (bn_original_id node)) (bg_nodes g')));
               views' = (if \<not> has_small_component scc_algo small_component_size then views @ [(num, num)] else views);
               levels = needed_levels (length views');
               ids = store_component_ids tid ordered_component_ids (32 - levels) (bg_nodes g') (bisection_ids st)
           in (st\<lparr>scc_levels := levels, bisection_graph := g', bisection_ids := ids\<rparr>, views'))
         (Run (tgw_targets g) num (TarjanSCC_init num)))"

text \<open>The constructor.\<close>

definition RecursiveBisection_init :: "BisectionEnv \<Rightarrow> BisectionParams \<Rightarrow> nat \<Rightarrow> BisectionGraph \<Rightarrow> RecursiveBisectionState option" where
  "RecursiveBisection_init E P small_component_size g =
     Option.bind (PrePartitionWithSCC small_component_size (RecursiveBisectionState_init g))
       (\<lambda>(st, components). RecursiveBisection E P st components)"

section \<open>Grouping the nodes\<close>

lemma component_mapping_nth:
  assumes "distinct (map bn_original_id ns)" "\<forall>n \<in> set ns. bn_original_id n < length mapping"
  shows "length (component_mapping tid ns cm mapping) = length mapping \<and>
    (\<forall>v. v \<notin> bn_original_id ` set ns \<longrightarrow> component_mapping tid ns cm mapping ! v = mapping ! v) \<and>
    (\<forall>i < length ns. component_mapping tid ns cm mapping ! bn_original_id (ns ! i) =
       cm (tid (bn_original_id (ns ! i))) +
       length (filter (\<lambda>n. tid (bn_original_id n) = tid (bn_original_id (ns ! i))) (take i ns)))"
  using assms
proof (induction ns arbitrary: cm mapping)
  case (Cons n ns)
  let ?t = "tid (bn_original_id n)"
  define m where "m = mapping[bn_original_id n := cm ?t]"
  define cm' where "cm' = cm(?t := cm ?t + 1)"
  have n: "bn_original_id n \<notin> bn_original_id ` set ns" "distinct (map bn_original_id ns)"
    "\<forall>n \<in> set ns. bn_original_id n < length m" using Cons.prems by (simp_all add: m_def)
  note ih = Cons.IH [OF n(2,3), of cm']
  have step: "component_mapping tid (n # ns) cm mapping = component_mapping tid ns cm' m" by (simp add: m_def cm'_def Let_def)
  have m: "m ! bn_original_id n = cm ?t" "length m = length mapping" "v \<noteq> bn_original_id n \<Longrightarrow> m ! v = mapping ! v" for v
    using Cons.prems(2) by (simp_all add: m_def)
  have "component_mapping tid ns cm' m ! bn_original_id ((n # ns) ! i) =
      cm (tid (bn_original_id ((n # ns) ! i))) +
      length (filter (\<lambda>m. tid (bn_original_id m) = tid (bn_original_id ((n # ns) ! i))) (take i (n # ns)))"
    if "i < length (n # ns)" for i
  proof (cases i)
    case 0
    then show ?thesis using ih n(1) m(1) by simp
  next
    case (Suc j)
    let ?u = "tid (bn_original_id (ns ! j))"
    have "cm' ?u = (if ?u = ?t then cm ?t + 1 else cm ?u)" by (simp add: cm'_def)
    then show ?thesis using Suc ih that by simp
  qed
  then show ?case unfolding step using ih m(2,3) by simp
qed simp

lemma sorted_last_max: "sorted (map key ds) \<Longrightarrow> \<forall>d \<in> set ds. (key d :: nat) \<le> key (last ds)"
  by (cases ds rule: rev_cases) (auto simp: sorted_append)

lemma split_views_spec:
  assumes "sorted (map key (ds @ ns))" "ds \<noteq> []" "key = (\<lambda>n. tid (bn_original_id n))"
  shows "split_views tid ns (length ds) (key_count key (ds @ ns) (key (last ds))) (key (last ds)) =
    map (\<lambda>t. (key_count key (ds @ ns) t, key_count key (ds @ ns) (Suc t))) (remdups_adj (key (last ds) # map key ns))"
  using assms(1,2)
proof (induction ns arbitrary: ds)
  case Nil
  then have "\<forall>d \<in> set ds. key d \<le> key (last ds)" using sorted_last_max by simp
  then have "key_count key ds (Suc (key (last ds))) = length ds" by (intro key_count_all) auto
  then show ?case by simp
next
  case (Cons n ns)
  have ih: "split_views tid ns (length (ds @ [n])) (key_count key (ds @ n # ns) (key n)) (key n) =
      map (\<lambda>t. (key_count key (ds @ n # ns) t, key_count key (ds @ n # ns) (Suc t))) (remdups_adj (key n # map key ns))"
    using Cons.IH [of "ds @ [n]"] Cons.prems by simp
  show ?case
  proof (cases "key (last ds) = key n")
    case True
    then show ?thesis using ih assms(3) by (simp add: Let_def)
  next
    case False
    have srt: "\<forall>d \<in> set ds. key d \<le> key (last ds)" "key (last ds) \<le> key n" "\<forall>m \<in> set ns. key n \<le> key m"
      using Cons.prems sorted_last_max [of key ds] by (auto simp: sorted_append)
    have "key_count key (ds @ n # ns) t = length ds" if "key (last ds) < t" "t \<le> key n" for t
      using srt that False unfolding key_count_def by (subst takeWhile_append2) auto
    then have "key_count key (ds @ n # ns) (Suc (key (last ds))) = length ds" "key_count key (ds @ n # ns) (key n) = length ds"
      using srt(2) False by simp_all
    then show ?thesis using ih assms(3) False by (simp add: Let_def)
  qed
qed

lemma sorted_wrt_mset:
  assumes sym: "\<And>x y. R x y \<Longrightarrow> R y x" and "sorted_wrt R xs" "mset ys = mset xs"
  shows "sorted_wrt R ys"
proof -
  have "sorted_wrt R ys" if "all_pairs R (mset ys)" for ys :: "'a list"
    using that by (induction ys) (simp_all add: all_pairs_add [where R = R, OF sym])
  then show ?thesis using all_pairs_sorted [of R, OF sym assms(2)] assms(3) by simp
qed

text \<open>A graph as it is built: the position of a node is its id.\<close>

definition fresh_graph :: "BisectionGraph \<Rightarrow> bool" where
  "fresh_graph g \<longleftrightarrow> graph_ok g \<and> view_ok g 0 (length (bg_nodes g)) \<and>
     (\<forall>i < length (bg_nodes g). bn_original_id (bg_nodes g ! i) = i)"

text \<open>Grouping by a number that the two ends of an edge share.\<close>

lemma group_spec:
  fixes tid :: "NodeID \<Rightarrow> nat"
  assumes fresh: "fresh_graph g"
    and closed: "\<forall>i < length (bg_nodes g). \<forall>u \<in> set (node_edges g (bg_nodes g ! i)). tid u = tid i"
  defines "g' \<equiv> group_by_component tid g" and "key \<equiv> \<lambda>node. tid (bn_original_id node)"
  shows "graph_ok g'" "length (bg_nodes g') = length (bg_nodes g)" "length (bg_edges g') = length (bg_edges g)"
    and "sorted (map key (bg_nodes g'))" "bn_original_id ` set (bg_nodes g') = {..<length (bg_nodes g)}"
    and "OSRM_Prelude.slice (bg_nodes g') (key_count key (bg_nodes g') t) (key_count key (bg_nodes g') (Suc t)) =
      filter (\<lambda>node. key node = t) (bg_nodes g)"
    and "view_ok g' (key_count key (bg_nodes g') t) (key_count key (bg_nodes g') (Suc t))"
    and "abs_view g' (key_count key (bg_nodes g') t) (key_count key (bg_nodes g') (Suc t)) =
      restrict_view {v. tid v = t} (abs_view g 0 (length (bg_nodes g)))"
proof -
  let ?ns = "bg_nodes g" and ?n = "length (bg_nodes g)"
  define M where "M = component_mapping tid ?ns (\<lambda>_. 0) (replicate ?n SPECIAL_NODEID)"
  have ok: "graph_ok g" "view_ok g 0 ?n" and ident: "bn_original_id (?ns ! i) = i" if "i < ?n" for i
    using fresh that by (simp_all add: fresh_graph_def)
  have ok: "graph_ok g" "view_ok g 0 ?n" using fresh by (simp_all add: fresh_graph_def)
  have targets: "u < ?n" if "i < ?n" "u \<in> set (node_edges g (?ns ! i))" for i u
    using view_okD [OF ok(2)] that by simp
  have g': "g' = \<lparr>bg_nodes = sort_key key ?ns, bg_edges = fold (remap_edges M) (sort_key key ?ns) (bg_edges g)\<rparr>"
    by (simp add: g'_def group_by_component_def M_def key_def Let_def)
  have nodes: "bg_nodes g' = sort_key key ?ns" by (simp add: g')
  have apart: "sorted_wrt (\<lambda>m n. edge_range m \<inter> edge_range n = {}) (bg_nodes g')"
    by (rule sorted_wrt_mset [of _ ?ns]) (use ok(1) in \<open>auto simp: graph_ok_def nodes\<close>)
  show len: "length (bg_nodes g') = ?n" by (simp add: nodes)
  show elen: "length (bg_edges g') = length (bg_edges g)" using remap_all [OF apart] by (simp add: g')
  show srt: "sorted (map key (bg_nodes g'))" by (simp add: nodes)
  have "bn_original_id ` set ?ns = {..<?n}" using ident by (force simp: in_set_conv_nth)
  then show "bn_original_id ` set (bg_nodes g') = {..<?n}" by (simp add: nodes)
  have "distinct (map bn_original_id (bg_nodes g'))"
    using ok(1) mset_eq_imp_distinct_iff [of "map bn_original_id (bg_nodes g')" "map bn_original_id ?ns"]
    by (simp add: graph_ok_def nodes)
  then show "graph_ok g'" using ok(1) apart elen by (simp add: graph_ok_def nodes)
  have edges: "node_edges g' n = map ((!) M) (node_edges g n)" if "n \<in> set ?ns" for n
  proof -
    have "bn_edges_end n \<le> length (bg_edges g)" using ok(1) that by (simp add: graph_ok_def)
    from remap_all_node(1) [OF apart this, of M] show ?thesis using that by (simp add: g' node_edges_def)
  qed
  have M: "M ! v = length (filter (\<lambda>n. key n = tid v) (take v ?ns))" if "v < ?n" for v
  proof -
    have "distinct (map bn_original_id ?ns)" "\<forall>n \<in> set ?ns. bn_original_id n < length (replicate ?n SPECIAL_NODEID)"
      using ok(1) ident by (auto simp: graph_ok_def in_set_conv_nth)
    from component_mapping_nth [OF this, of tid "\<lambda>_. 0"] show ?thesis
      using that ident [OF that] by (auto simp: M_def key_def)
  qed
  define b e where "b = key_count key (bg_nodes g') t" and "e = key_count key (bg_nodes g') (Suc t)"
  have be: "b \<le> e" "e \<le> ?n"
    using key_count_mono [of t "Suc t"] key_count_le [of key "bg_nodes g'" "Suc t"] by (auto simp: b_def e_def len)
  have sl: "OSRM_Prelude.slice (bg_nodes g') b e = filter (\<lambda>n. key n = t) ?ns"
    unfolding b_def e_def using slice_key_count [OF srt] by (simp add: nodes sort_key_stable)
  then show "OSRM_Prelude.slice (bg_nodes g') (key_count key (bg_nodes g') t) (key_count key (bg_nodes g') (Suc t)) =
      filter (\<lambda>node. key node = t) ?ns" by (simp add: b_def e_def)
  have new: "M ! u < e - b" "bg_nodes g' ! (b + M ! u) = ?ns ! u" if u: "u < ?n" "tid u = t" for u
  proof -
    have P: "key (?ns ! u) = t" using u ident by (simp add: key_def)
    note r = filter_nth_rank [where P = "\<lambda>n. key n = t", OF u(1) P]
    have "M ! u = length (filter (\<lambda>n. key n = t) (take u ?ns))" using M u by simp
    then show lt: "M ! u < e - b" and "bg_nodes g' ! (b + M ! u) = ?ns ! u"
      using r arg_cong [OF sl, of length] arg_cong [OF sl, of "\<lambda>xs. xs ! (M ! u)"] by simp_all
  qed
  have fil: "OSRM_Prelude.slice (bg_nodes g') b e = map ((!) ?ns) (filter (\<lambda>i. tid i = t) [0..<?n])"
  proof -
    have "filter (\<lambda>n. key n = t) (map ((!) ?ns) [0..<?n]) = map ((!) ?ns) (filter (\<lambda>i. tid i = t) [0..<?n])"
      unfolding filter_map comp_def using ident by (intro arg_cong [where f = "map _"] filter_cong) (auto simp: key_def)
    then show ?thesis unfolding sl by (simp add: map_nth)
  qed
  have member: "n \<in> set ?ns \<and> bn_original_id n < ?n \<and> tid (bn_original_id n) = t \<and> n = ?ns ! bn_original_id n"
    if "n \<in> set (OSRM_Prelude.slice (bg_nodes g') b e)" for n
    using that ident unfolding fil by auto
  have "view_ok g' b e"
    unfolding view_ok_def
  proof (intro conjI allI impI ballI)
    fix i w assume i: "b \<le> i" "i < e" and w: "w \<in> set (node_edges g' (bg_nodes g' ! i))"
    have "bg_nodes g' ! i \<in> set (OSRM_Prelude.slice (bg_nodes g') b e)" using i by (auto simp: in_slice)
    note m = member [OF this]
    then obtain u where "u \<in> set (node_edges g (?ns ! bn_original_id (bg_nodes g' ! i)))" "w = M ! u"
      using w edges by auto
    moreover have "u < ?n" "tid u = t" using targets closed m calculation(1) by auto
    ultimately show "w < e - b" using new(1) by simp
  qed (use be len in simp_all)
  then show "view_ok g' (key_count key (bg_nodes g') t) (key_count key (bg_nodes g') (Suc t))" by (simp add: b_def e_def)
  have view: "node_view g' b (?ns ! i) = (i, bn_coordinate (?ns ! i), node_edges g (?ns ! i))" if i: "i < ?n" "tid i = t" for i
  proof -
    have "bn_original_id (bg_nodes g' ! (b + M ! u)) = u" if "u \<in> set (node_edges g (?ns ! i))" for u
      using new(2) ident targets [OF i(1) that] closed i that by simp
    then show ?thesis using i ident edges [of "?ns ! i"] by (simp add: node_view_def map_idI)
  qed
  have "abs_view g' b e = map (\<lambda>i. (i, bn_coordinate (?ns ! i), node_edges g (?ns ! i))) (filter (\<lambda>i. tid i = t) [0..<?n])"
    unfolding abs_view_def fil map_map comp_def using view by (intro map_cong) auto
  also have "\<dots> = restrict_view {v. tid v = t} (abs_view g 0 ?n)"
  proof -
    have same: "map (\<lambda>u. bn_original_id (?ns ! (0 + u))) (filter (\<lambda>u. tid (0 + u) = t) (node_edges g (?ns ! i))) =
        node_edges g (?ns ! i)" if i: "i < ?n" "tid i = t" for i
    proof -
      have all: "filter (\<lambda>u. tid u = t) (node_edges g (?ns ! i)) = node_edges g (?ns ! i)"
        using closed i by (intro filter_True) auto
      show ?thesis unfolding add_0 all using ident targets [OF i(1)] by (intro map_idI) auto
    qed
    have "map (\<lambda>i. (i, bn_coordinate (?ns ! i), node_edges g (?ns ! i))) (filter (\<lambda>i. tid i = t) [0..<?n]) =
        map (\<lambda>i. (bn_original_id (?ns ! i), bn_coordinate (?ns ! i),
            map (\<lambda>u. bn_original_id (?ns ! (0 + u))) (filter (\<lambda>u. tid (0 + u) = t) (node_edges g (?ns ! i)))))
          (filter (\<lambda>i. tid i = t) [0..<?n])"
    proof (intro map_cong [OF refl])
      fix i assume "i \<in> set (filter (\<lambda>i. tid i = t) [0..<?n])"
      then have "i < ?n" "tid i = t" by auto
      then show "(i, bn_coordinate (?ns ! i), node_edges g (?ns ! i)) = (bn_original_id (?ns ! i), bn_coordinate (?ns ! i),
          map (\<lambda>u. bn_original_id (?ns ! (0 + u))) (filter (\<lambda>u. tid (0 + u) = t) (node_edges g (?ns ! i))))"
        using same ident by (simp only:)
    qed
    also have "\<dots> = restrict_view {v. tid v = t} (abs_view g 0 ?n)"
      by (rule restrict_view_map [symmetric]) (use ident targets in auto)
    finally show ?thesis .
  qed
  finally show "abs_view g' (key_count key (bg_nodes g') t) (key_count key (bg_nodes g') (Suc t)) =
      restrict_view {v. tid v = t} (abs_view g 0 ?n)" by (simp add: b_def e_def)
qed

section \<open>Component numbers in the ids\<close>

lemma needed_levels_bounds:
  assumes "0 < k"
  shows "k \<le> 2 ^ needed_levels k" "k \<le> 2 ^ m \<Longrightarrow> needed_levels k \<le> m"
proof -
  have lg: "ln (real k) / ln 2 = log 2 (real k)" by (simp add: log_def)
  have "real k = 2 powr log 2 (real k)" using assms by simp
  also have "\<dots> \<le> 2 powr real (needed_levels k)"
    unfolding needed_levels_def lg by (intro powr_mono) linarith+
  also have "\<dots> = 2 ^ needed_levels k" by (simp add: powr_realpow)
  finally show "k \<le> 2 ^ needed_levels k" using of_nat_le_iff [of k "2 ^ needed_levels k", where 'a = real] by simp
  assume "k \<le> 2 ^ m"
  then have "real k \<le> 2 ^ m" using of_nat_le_iff [of k "2 ^ m", where 'a = real] by simp
  then have "log 2 (real k) \<le> real m" using assms log_le_iff [of 2 "real k" "real m"] by (simp add: powr_realpow)
  then show "needed_levels k \<le> m" unfolding needed_levels_def lg by linarith
qed

lemma small_nat_bit: "(r :: nat) < 2 ^ L \<Longrightarrow> L \<le> b \<Longrightarrow> \<not> bit r b"
proof -
  assume "r < 2 ^ L" "L \<le> b"
  then have "r < 2 ^ b" by (meson less_le_trans one_le_numeral power_increasing)
  then show ?thesis by (simp add: bit_iff_odd)
qed

definition component_word :: "nat \<Rightarrow> nat \<Rightarrow> BisectionID" where
  "component_word L r = word_of_nat (push_bit (32 - L) r)"

lemma component_word_bits:
  assumes "L < 32"
  shows "L \<le> d \<Longrightarrow> d < 32 \<Longrightarrow> \<not> bit (component_word L r) (31 - d)"
    and "d < L \<Longrightarrow> bit (component_word L r) (31 - d) \<longleftrightarrow> bit r (L - 1 - d)"
proof -
  have w: "bit (component_word L r) k \<longleftrightarrow> k < 32 \<and> 32 - L \<le> k \<and> bit r (k - (32 - L))" for k
    by (auto simp: component_word_def bit_simps)
  show "L \<le> d \<Longrightarrow> d < 32 \<Longrightarrow> \<not> bit (component_word L r) (31 - d)" unfolding w using assms by linarith
  assume d: "d < L"
  then have "31 - d - (32 - L) = L - 1 - d" "32 - L \<le> 31 - d" "31 - d < 32" using assms by linarith+
  then show "bit (component_word L r) (31 - d) \<longleftrightarrow> bit r (L - 1 - d)" unfolding w by simp
qed

lemma component_words_differ:
  assumes "L < 32" "r < 2 ^ L" "r' < 2 ^ L" "r \<noteq> r'"
  shows "\<exists>d < L. bit (component_word L r) (31 - d) \<noteq> bit (component_word L r') (31 - d)"
proof -
  obtain b where b: "bit r b \<noteq> bit r' b" using assms(4) bit_eqI by blast
  then have "b < L" using small_nat_bit assms(2,3) not_le by blast
  then have "L - 1 - b < L" "L - 1 - (L - 1 - b) = b" by simp_all
  then show ?thesis using b component_word_bits(2) [OF assms(1)] by metis
qed

lemma store_component_ids_nth:
  "length (store_component_ids tid K sh ns ids) = length ids \<and>
   (\<forall>v < length ids. store_component_ids tid K sh ns ids ! v =
     (if v \<in> bn_original_id ` set ns then word_of_nat (push_bit sh (consecutive_component_id K (tid v))) else ids ! v))"
proof (induction ns arbitrary: ids)
  case (Cons n ns)
  let ?ids = "ids[bn_original_id n := word_of_nat (push_bit sh (consecutive_component_id K (tid (bn_original_id n))))]"
  have step: "store_component_ids tid K sh (n # ns) ids = store_component_ids tid K sh ns ?ids"
    by (simp add: store_component_ids_def)
  have "?ids ! v = (if v = bn_original_id n then word_of_nat (push_bit sh (consecutive_component_id K (tid v))) else ids ! v)"
    if "v < length ids" for v using that by (simp add: nth_list_update_in)
  then show ?case using Cons.IH [of ?ids] unfolding step by auto
qed (simp add: store_component_ids_def)

lemma consecutive_id:
  assumes "t \<in> set ks"
  shows "consecutive_component_id ks t < length ks" "ks ! consecutive_component_id ks t = t"
proof -
  let ?tw = "takeWhile (\<lambda>c. c \<noteq> t) ks"
  show lt: "consecutive_component_id ks t < length ks"
    unfolding consecutive_component_id_def
    using assms length_takeWhile_le [of "\<lambda>c. c \<noteq> t" ks] takeWhile_eq_all_conv [of "\<lambda>c. c \<noteq> t" ks]
    by (metis (mono_tags, lifting) le_neq_implies_less takeWhile_eq_take take_all_iff order_refl)
  then show "ks ! consecutive_component_id ks t = t"
    unfolding consecutive_component_id_def using nth_length_takeWhile [of "\<lambda>c. c \<noteq> t" ks] by simp
qed

section \<open>The partition by components\<close>

definition graph_arcs :: "BisectionGraph \<Rightarrow> (NodeID \<times> NodeID) set" where
  "graph_arcs g = tj_arcs (tgw_targets g) (length (bg_nodes g))"

definition component_of :: "BisectionGraph \<Rightarrow> NodeID \<Rightarrow> NodeID set" where
  "component_of g v = {w. (v, w) \<in> (graph_arcs g)\<^sup>*}"

definition small_nodes :: "BisectionGraph \<Rightarrow> nat \<Rightarrow> NodeID set" where
  "small_nodes g k = {v. v < length (bg_nodes g) \<and> card (component_of g v) \<le> k}"

lemma fresh_graphD:
  assumes "fresh_graph g"
  shows "graph_ok g" "view_ok g 0 (length (bg_nodes g))" "i < length (bg_nodes g) \<Longrightarrow> bn_original_id (bg_nodes g ! i) = i"
    "i < length (bg_nodes g) \<Longrightarrow> u \<in> set (node_edges g (bg_nodes g ! i)) \<Longrightarrow> u < length (bg_nodes g)"
  using assms view_okD [of g 0 "length (bg_nodes g)" i u] by (auto simp: fresh_graph_def)

lemma graph_arcs_sym:
  assumes fresh: "fresh_graph g" and symv: "sym_view (abs_view g 0 (length (bg_nodes g)))"
  shows "(x, y) \<in> graph_arcs g \<Longrightarrow> (y, x) \<in> graph_arcs g" "(x, y) \<in> (graph_arcs g)\<^sup>* \<Longrightarrow> (y, x) \<in> (graph_arcs g)\<^sup>*"
proof -
  let ?n = "length (bg_nodes g)"
  note fr = fresh_graphD [OF fresh]
  have nv: "node_view g 0 (bg_nodes g ! i) = (i, bn_coordinate (bg_nodes g ! i), node_edges g (bg_nodes g ! i))" if "i < ?n" for i
    using fr(3,4) that by (auto simp: node_view_def intro!: map_idI)
  show arc: "(y, x) \<in> graph_arcs g" if a: "(x, y) \<in> graph_arcs g" for x y
  proof -
    have x: "x < ?n" "y \<in> set (node_edges g (bg_nodes g ! x))" using a by (simp_all add: graph_arcs_def tj_arcs_def tgw_targets_def)
    have "node_view g 0 (bg_nodes g ! x) \<in> set (abs_view g 0 ?n)"
      unfolding abs_view_def set_map using x(1) by (intro imageI) (auto simp: in_slice)
    then obtain w where w: "w \<in> set (abs_view g 0 ?n)" "fst w = y" "x \<in> set (snd (snd w))"
      using symv x nv [OF x(1)] unfolding sym_view_def by fastforce
    then obtain k where "k < ?n" "w = node_view g 0 (bg_nodes g ! k)" unfolding abs_view_def set_map by (auto simp: in_slice)
    then show ?thesis using w(2,3) nv by (simp add: graph_arcs_def tj_arcs_def tgw_targets_def)
  qed
  show "(x, y) \<in> (graph_arcs g)\<^sup>* \<Longrightarrow> (y, x) \<in> (graph_arcs g)\<^sup>*"
    by (induction rule: rtrancl_induct) (auto intro: arc converse_rtrancl_into_rtrancl)
qed

lemma component_of_less:
  assumes "fresh_graph g" "v < length (bg_nodes g)" "w \<in> component_of g v"
  shows "w < length (bg_nodes g)"
proof -
  have "(v, w) \<in> (graph_arcs g)\<^sup>*" using assms(3) by (simp add: component_of_def)
  then show ?thesis
    by (induction rule: rtrancl_induct) (use assms(1,2) fresh_graphD(4) in \<open>auto simp: graph_arcs_def tj_arcs_def tgw_targets_def\<close>)
qed

text \<open>What the numbering of the components says.\<close>

lemma numbering:
  assumes fresh: "fresh_graph g" and symv: "sym_view (abs_view g 0 (length (bg_nodes g)))"
    and n: "length (bg_nodes g) < INVALID_LEVEL"
  obtains scc where "Run (tgw_targets g) (length (bg_nodes g)) (TarjanSCC_init (length (bg_nodes g))) = Some scc"
    and "\<And>v. v < length (bg_nodes g) \<Longrightarrow> GetComponentID scc v < small_component_id"
    and "\<And>v w. v < length (bg_nodes g) \<Longrightarrow> w < length (bg_nodes g) \<Longrightarrow>
      GetComponentID scc v = GetComponentID scc w \<longleftrightarrow> w \<in> component_of g v"
    and "\<And>v k. v < length (bg_nodes g) \<Longrightarrow> in_small scc k v \<longleftrightarrow> v \<in> small_nodes g k"
    and "\<And>k. has_small_component scc k \<longleftrightarrow> small_nodes g k \<noteq> {}"
proof -
  let ?n = "length (bg_nodes g)"
  have "arcs_ok (tgw_targets g) ?n"
    using n fresh_graphD(4) [OF fresh] by (simp add: arcs_ok_def tgw_targets_def INVALID_LEVEL_def SPECIAL_NODEID_def)
  then obtain scc where scc: "Run (tgw_targets g) ?n (TarjanSCC_init ?n) = Some scc"
    "scc_inv (graph_arcs g) (GetComponentID scc) (component_size_vector scc) {..<?n}"
    by (rule Run_spec) (simp add: graph_arcs_def)
  note d = scc_invD [OF scc(2)]
  have same: "GetComponentID scc v = GetComponentID scc w \<longleftrightarrow> w \<in> component_of g v" if "v < ?n" "w < ?n" for v w
    using d(5) that graph_arcs_sym(2) [OF fresh symv] by (auto simp: component_of_def)
  have num: "GetNumberOfComponents scc \<le> ?n"
    using d(3) card_image_le [OF d(1), of "GetComponentID scc"] by (simp add: GetNumberOfComponents_def)
  have id: "GetComponentID scc v < GetNumberOfComponents scc" if "v < ?n" for v
    using d(3) that unfolding GetNumberOfComponents_def by blast
  have size: "GetComponentSize scc (GetComponentID scc v) = card (component_of g v)" if v: "v < ?n" for v
  proof -
    have "{x \<in> {..<?n}. GetComponentID scc x = GetComponentID scc v} = component_of g v"
      using same [OF v, THEN sym] component_of_less [OF fresh v] by (auto simp: eq_commute [of _ "GetComponentID scc v"])
    then show ?thesis using d(4) id [OF v] by (simp add: GetComponentSize_def GetNumberOfComponents_def)
  qed
  have small: "in_small scc k v \<longleftrightarrow> v \<in> small_nodes g k" if "v < ?n" for v k
    using that size by (simp add: in_small_def small_nodes_def)
  have "has_small_component scc k \<longleftrightarrow> small_nodes g k \<noteq> {}" for k
  proof
    assume "has_small_component scc k"
    then obtain i where i: "i < GetNumberOfComponents scc" "GetComponentSize scc i \<le> k"
      by (auto simp: has_small_component_def list_ex_iff)
    have "i \<in> GetComponentID scc ` {..<?n}" unfolding d(3) using i(1) by (simp add: GetNumberOfComponents_def)
    then obtain v where "v < ?n" "GetComponentID scc v = i" by auto
    then show "small_nodes g k \<noteq> {}" using i(2) size by (auto simp: small_nodes_def)
  next
    assume "small_nodes g k \<noteq> {}"
    then obtain v where "v < ?n" "card (component_of g v) \<le> k" by (auto simp: small_nodes_def)
    then show "has_small_component scc k"
      unfolding has_small_component_def list_ex_iff
      using id size by (intro bexI [of _ "GetComponentID scc v"]) simp_all
  qed
  moreover have "GetComponentID scc v < small_component_id" if "v < ?n" for v
    using id [OF that] num n by (simp add: small_component_id_def INVALID_LEVEL_def)
  ultimately show thesis using that scc(1) same small by blast
qed

lemma distinct_sorted_wrt: "distinct xs \<Longrightarrow> (\<And>x y. x \<in> set xs \<Longrightarrow> y \<in> set xs \<Longrightarrow> x \<noteq> y \<Longrightarrow> R x y) \<Longrightarrow> sorted_wrt R xs"
  by (induction xs) auto

text \<open>The keys of the views: those of the nodes and, last, that of the small components.\<close>

lemma view_keys:
  fixes key :: "BisectionNode \<Rightarrow> nat"
  assumes srt: "sorted (map key ns)" and ns: "ns \<noteq> []" and key: "key = (\<lambda>n. tid (bn_original_id n))"
    and small: "\<forall>n \<in> set ns. key n \<le> m"
  defines "f \<equiv> \<lambda>t. (key_count key ns t, key_count key ns (Suc t))"
    and "ts \<equiv> remdups_adj (map key ns) @ (if m \<in> key ` set ns then [] else [m])"
  shows "split_views tid ns 0 0 (tid (bn_original_id (ns ! 0))) @ (if m \<in> key ` set ns then [] else [(length ns, length ns)]) = map f ts"
    and "distinct ts" "last ts = m" "set (butlast ts) = key ` set ns - {m}" "ts \<noteq> []"
proof -
  let ?r = "remdups_adj (map key ns)"
  obtain n ns' where Cons: "ns = n # ns'" using ns by (cases ns) auto
  have "split_views tid ns 0 0 (tid (bn_original_id (ns ! 0))) = split_views tid ns' (length [n]) 0 (key (last [n]))"
    by (simp add: Cons key Let_def)
  also have "\<dots> = map f ?r"
  proof -
    have "\<not> (\<exists>x \<in> set ns. key x < key n)" using srt Cons by auto
    then have "key_count key ns (key n) = 0" using Cons by (simp add: key_count_def)
    then show ?thesis using split_views_spec [of key "[n]" ns' tid] srt Cons key by (simp add: f_def)
  qed
  finally have views: "split_views tid ns 0 0 (tid (bn_original_id (ns ! 0))) = map f ?r" .
  have "f m = (length ns, length ns)" if "m \<notin> key ` set ns"
  proof -
    have "\<forall>n \<in> set ns. key n < m" using small that by (metis image_eqI order.not_eq_order_implies_strict)
    then show ?thesis unfolding f_def by (auto intro!: key_count_all)
  qed
  then show "split_views tid ns 0 0 (tid (bn_original_id (ns ! 0))) @
      (if m \<in> key ` set ns then [] else [(length ns, length ns)]) = map f ts" unfolding views ts_def by auto
  have d: "distinct ?r" by (rule sorted_distinct_remdups_adj [OF srt])
  have s: "set ?r = key ` set ns" "?r \<noteq> []" using ns by simp_all
  show "distinct ts" using d s(1) by (auto simp: ts_def)
  show "ts \<noteq> []" using s(2) by (simp add: ts_def)
  have max: "last ?r = m" if "m \<in> key ` set ns"
  proof -
    have "last ?r = key (last ns)" using ns by (simp add: last_remdups_adj last_map)
    moreover have "m \<le> key (last ns)" using that sorted_last_max [OF srt] by auto
    ultimately show ?thesis using small ns by (simp add: order.antisym)
  qed
  then show last: "last ts = m" using s(2) by (auto simp: ts_def)
  have ts: "ts = butlast ts @ [m]" using \<open>ts \<noteq> []\<close> last by (metis append_butlast_last_id)
  have "set ts = insert m (key ` set ns)" using s(1) by (auto simp: ts_def)
  moreover have "set ts = insert m (set (butlast ts))" by (subst ts) simp
  moreover have "distinct (butlast ts @ [m])" using \<open>distinct ts\<close> ts by simp
  ultimately show "set (butlast ts) = key ` set ns - {m}" by auto
qed

lemma restrict_view_cong:
  assumes "fresh_graph g" "\<And>v. v < length (bg_nodes g) \<Longrightarrow> v \<in> S \<longleftrightarrow> v \<in> S'"
  shows "restrict_view S (abs_view g 0 (length (bg_nodes g))) = restrict_view S' (abs_view g 0 (length (bg_nodes g)))"
proof -
  let ?V = "abs_view g 0 (length (bg_nodes g))"
  have V: "v < length (bg_nodes g) \<and> (\<forall>t \<in> set adj. t < length (bg_nodes g))" if "(v, c, adj) \<in> set ?V" for v c adj
    using that fresh_graphD(3,4) [OF assms(1)] by (auto simp: abs_view_def node_view_def in_slice)
  have "filter (\<lambda>(v, c, adj). v \<in> S) ?V = filter (\<lambda>(v, c, adj). v \<in> S') ?V"
    using V assms(2) by (intro filter_cong) auto
  moreover have "filter (\<lambda>t. t \<in> S) adj = filter (\<lambda>t. t \<in> S') adj" if "(v, c, adj) \<in> set ?V" for v c adj
    using V [OF that] assms(2) by (intro filter_cong) auto
  ultimately show ?thesis unfolding restrict_view_def by (auto intro!: map_cong)
qed

lemma sum_of_classes:
  assumes "finite T" "\<And>t. t \<in> T \<Longrightarrow> 2 \<le> card {v. v < n \<and> c v = (t :: nat)}"
  shows "2 * card T \<le> n"
proof -
  have "2 * card T = (\<Sum>t \<in> T. 2)" by simp
  also have "\<dots> \<le> (\<Sum>t \<in> T. card {v. v < n \<and> c v = t})" using assms(2) by (rule sum_mono)
  also have "\<dots> = card (\<Union>t \<in> T. {v. v < n \<and> c v = t})"
    by (rule card_UN_disjoint [symmetric]) (use assms(1) in auto)
  also have "\<dots> \<le> card {..<n}" by (rule card_mono) auto
  finally show ?thesis by simp
qed

text \<open>The number of a view and the id of its nodes.\<close>

lemma grouped_components_ok:
  fixes tid :: "NodeID \<Rightarrow> nat"
  assumes fresh: "fresh_graph g" and symv: "sym_view (abs_view g 0 (length (bg_nodes g)))"
    and closed: "\<forall>i < length (bg_nodes g). \<forall>u \<in> set (node_edges g (bg_nodes g ! i)). tid u = tid i"
    and L: "L < 32" "card (tid ` {..<length (bg_nodes g)}) \<le> 2 ^ L" and ts: "distinct ts"
  defines "g' \<equiv> group_by_component tid g" and "key \<equiv> \<lambda>node. tid (bn_original_id node)"
    and "ks \<equiv> sorted_list_of_set (tid ` {..<length (bg_nodes g)})"
  defines "st \<equiv> \<lparr>scc_levels = L, bisection_graph = g',
      bisection_ids = store_component_ids tid ks (32 - L) (bg_nodes g') (replicate (length (bg_nodes g)) 0)\<rparr>"
  shows "components_ok st (map (\<lambda>t. (key_count key (bg_nodes g') t, key_count key (bg_nodes g') (Suc t))) ts)"
proof -
  let ?n = "length (bg_nodes g)" and ?f = "\<lambda>t. (key_count key (bg_nodes g') t, key_count key (bg_nodes g') (Suc t))"
  note gs = group_spec [where tid = tid, OF fresh closed, folded g'_def key_def]
  have ids: "length (bisection_ids st) = ?n" "v < ?n \<Longrightarrow> bisection_ids st ! v = component_word L (consecutive_component_id ks (tid v))" for v
    using store_component_ids_nth [of tid ks "32 - L" "bg_nodes g'" "replicate ?n 0"] gs(5)
    by (auto simp: st_def component_word_def)
  have len: "length (bg_nodes g') = ?n" "length (bg_edges g') = length (bg_edges g)" using gs(2,3) by simp_all
  have orig: "bn_original_id (bg_nodes g' ! i) < ?n" if "i < ?n" for i
    using gs(5) that len(1) nth_mem [of i "bg_nodes g'"] by auto
  have nid: "node_id st i = component_word L (consecutive_component_id ks (key (bg_nodes g' ! i)))" if "i < ?n" for i
    using ids(2) [OF orig [OF that]] by (simp add: node_id_def GetBisectionID_def key_def) (simp add: st_def)
  have pos: "i < ?n \<and> key (bg_nodes g' ! i) = t" if "i \<in> {fst (?f t)..<snd (?f t)}" for i t
  proof -
    have i: "i < ?n" using that key_count_le [of key "bg_nodes g'" "Suc t"] len(1) by simp
    have "key (bg_nodes g' ! i) < Suc t" "\<not> key (bg_nodes g' ! i) < t"
      using that i key_count_iff [OF gs(4), of i t] key_count_iff [OF gs(4), of i "Suc t"] len(1) by auto
    then show ?thesis using i by simp
  qed
  have rank: "consecutive_component_id ks t < 2 ^ L" "ks ! consecutive_component_id ks t = t" if "t \<in> tid ` {..<?n}" for t
    using consecutive_id [of t ks] that L(2) by (simp_all add: ks_def)
  have key_in: "key (bg_nodes g' ! i) \<in> tid ` {..<?n}" if "i < ?n" for i using orig [OF that] by (simp add: key_def)
  have comp: "component_ok st (?f t)" for t
  proof -
    have "sym_view (abs_view g' (fst (?f t)) (snd (?f t)))" using sym_restrict [OF symv] gs(8) by simp
    moreover have "\<forall>i \<in> {fst (?f t)..<snd (?f t)}. node_id st i = component_word L (consecutive_component_id ks t) \<and>
        (\<forall>d. L \<le> d \<longrightarrow> d < 32 \<longrightarrow> \<not> bit (component_word L (consecutive_component_id ks t)) (31 - d))"
      using pos nid component_word_bits(1) [OF L(1)] by metis
    moreover have "bisection_graph st = g'" "scc_levels st = L" by (simp_all add: st_def)
    ultimately show ?thesis using gs(7) unfolding component_ok_def by auto
  qed
  have apart: "tasks_apart st (root_task st (?f s)) (root_task st (?f t))" if "s \<noteq> t" for s t
    unfolding tasks_apart_def
  proof (intro ballI conjI)
    fix i j assume "i \<in> tn_range (root_task st (?f s))" "j \<in> tn_range (root_task st (?f t))"
    then have i: "i \<in> {fst (?f s)..<snd (?f s)}" and j: "j \<in> {fst (?f t)..<snd (?f t)}"
      by (simp_all add: tn_range_def root_task_def)
    note p = pos [OF i] pos [OF j]
    show "i \<noteq> j" using p that by auto
    have "consecutive_component_id ks s \<noteq> consecutive_component_id ks t" using rank(2) key_in p that by metis
    moreover have "consecutive_component_id ks s < 2 ^ L" "consecutive_component_id ks t < 2 ^ L" using rank(1) key_in p by metis+
    ultimately obtain d where "d < L" "bit (component_word L (consecutive_component_id ks s)) (31 - d) \<noteq>
        bit (component_word L (consecutive_component_id ks t)) (31 - d)"
      using component_words_differ [OF L(1)] by blast
    then have "bit (node_id st i) (31 - d) \<noteq> bit (node_id st j) (31 - d)" using nid p by simp
    moreover have "tn_depth (root_task st (?f s)) = L" "tn_depth (root_task st (?f t)) = L" by (simp_all add: root_task_def st_def)
    ultimately show "\<exists>d < min (tn_depth (root_task st (?f s))) (tn_depth (root_task st (?f t))).
        bit (node_id st i) (31 - d) \<noteq> bit (node_id st j) (31 - d)" using \<open>d < L\<close> by auto
  qed
  have "ids_ok st" using orig ids(1) len(1) by (auto simp: ids_ok_def in_set_conv_nth st_def)
  moreover have "sorted_wrt (tasks_apart st) (map (root_task st) (map ?f ts))"
    unfolding map_map sorted_wrt_map comp_def by (rule distinct_sorted_wrt [OF ts]) (rule apart)
  ultimately show ?thesis using gs(1) L(1) comp unfolding components_ok_def by (simp add: st_def)
qed

lemma PrePartition_spec:
  assumes fresh: "fresh_graph g" and symv: "sym_view (abs_view g 0 (length (bg_nodes g)))"
    and n: "bg_nodes g \<noteq> []" "length (bg_nodes g) < INVALID_LEVEL" and k: "1 \<le> k"
  obtains st components where "PrePartitionWithSCC k (RecursiveBisectionState_init g) = Some (st, components)"
    and "components_ok st components" "components \<noteq> []" "\<forall>(b, e) \<in> set (butlast components). b + 2 \<le> e"
    and "component_range components = {..<length (bg_nodes g)}"
    and "length (bg_nodes (bisection_graph st)) = length (bg_nodes g)"
    and "length (bg_edges (bisection_graph st)) = length (bg_edges g)"
    and "length (bisection_ids st) = length (bg_nodes g)"
    and "\<And>b e. (b, e) \<in> set (butlast components) \<Longrightarrow> \<exists>v < length (bg_nodes g). v \<notin> small_nodes g k \<and>
      abs_view (bisection_graph st) b e = restrict_view (component_of g v) (abs_view g 0 (length (bg_nodes g)))"
    and "\<And>b e. last components = (b, e) \<Longrightarrow>
      abs_view (bisection_graph st) b e = restrict_view (small_nodes g k) (abs_view g 0 (length (bg_nodes g)))"
proof -
  let ?n = "length (bg_nodes g)" and ?m = small_component_id and ?V = "abs_view g 0 (length (bg_nodes g))"
  obtain scc where scc: "Run (tgw_targets g) ?n (TarjanSCC_init ?n) = Some scc"
    and id: "\<And>v. v < ?n \<Longrightarrow> GetComponentID scc v < ?m"
    and same: "\<And>v w. v < ?n \<Longrightarrow> w < ?n \<Longrightarrow> GetComponentID scc v = GetComponentID scc w \<longleftrightarrow> w \<in> component_of g v"
    and small: "\<And>v k. v < ?n \<Longrightarrow> in_small scc k v \<longleftrightarrow> v \<in> small_nodes g k"
    and has: "\<And>k. has_small_component scc k \<longleftrightarrow> small_nodes g k \<noteq> {}" by (rule numbering [OF fresh symv n(2)]) blast
  define tid where "tid = transform_id scc k"
  have tid: "tid v = (if v \<in> small_nodes g k then ?m else GetComponentID scc v)" if "v < ?n" for v
    using small [OF that] by (simp add: tid_def transform_id_def)
  have tid_m: "tid v = ?m \<longleftrightarrow> v \<in> small_nodes g k" "tid v \<le> ?m" if "v < ?n" for v
    using tid [OF that] id [OF that] by auto
  have "tid u = tid i" if "i < ?n" "u \<in> set (node_edges g (bg_nodes g ! i))" for i u
  proof -
    have "(i, u) \<in> graph_arcs g" using that by (simp add: graph_arcs_def tj_arcs_def tgw_targets_def)
    then have "u \<in> component_of g i" by (auto simp: component_of_def)
    then have "GetComponentID scc i = GetComponentID scc u" using same [OF that(1)] fresh_graphD(4) [OF fresh that] by simp
    then show ?thesis by (simp add: tid_def transform_id_def in_small_def)
  qed
  then have closed: "\<forall>i < ?n. \<forall>u \<in> set (node_edges g (bg_nodes g ! i)). tid u = tid i" by blast
  have big: "{w. w < ?n \<and> tid w = tid v} = component_of g v" if v: "v < ?n" "v \<notin> small_nodes g k" for v
  proof -
    have "tid w = tid v \<longleftrightarrow> w \<in> component_of g v" if w: "w < ?n" for w
    proof
      assume "tid w = tid v"
      then have "GetComponentID scc v = GetComponentID scc w" using tid [OF v(1)] tid [OF w] v id [OF v(1)] by (auto split: if_splits)
      then show "w \<in> component_of g v" using same [OF v(1) w] by simp
    next
      assume "w \<in> component_of g v"
      then have "GetComponentID scc v = GetComponentID scc w" using same [OF v(1) w] by simp
      then show "tid w = tid v" by (simp add: tid_def transform_id_def in_small_def)
    qed
    then show ?thesis using component_of_less [OF fresh v(1)] by blast
  qed
  have big_card: "2 \<le> card {w. w < ?n \<and> tid w = t}" if t: "t \<in> tid ` {..<?n} - {?m}" for t
  proof -
    obtain v where v: "v < ?n" "t = tid v" "v \<notin> small_nodes g k" using t tid_m(1) by auto
    then show ?thesis using big [OF v(1,3)] k by (simp add: small_nodes_def)
  qed
  define g' where "g' = group_by_component tid g"
  define key where "key = (\<lambda>node :: BisectionNode. tid (bn_original_id node))"
  define f where "f = (\<lambda>t. (key_count key (bg_nodes g') t, key_count key (bg_nodes g') (Suc t)))"
  define ts where "ts = remdups_adj (map key (bg_nodes g')) @ (if ?m \<in> key ` set (bg_nodes g') then [] else [?m])"
  note gs = group_spec [where tid = tid, OF fresh closed, folded g'_def key_def]
  have keys: "key ` set (bg_nodes g') = tid ` {..<?n}" using gs(5) unfolding key_def image_image [symmetric] by simp
  have ne: "bg_nodes g' \<noteq> []" using gs(2) n(1) by auto
  have "\<forall>t \<in> key ` set (bg_nodes g'). t \<le> ?m" unfolding keys using tid_m(2) by simp
  then have "\<forall>node \<in> set (bg_nodes g'). key node \<le> ?m" by simp
  note vk = view_keys [OF gs(4) ne key_def this, folded f_def ts_def]
  have big_keys: "set (butlast ts) = tid ` {..<?n} - {?m}" using vk(4) by (simp only: keys)
  have m_key: "?m \<in> key ` set (bg_nodes g') \<longleftrightarrow> small_nodes g k \<noteq> {}"
  proof -
    have "?m \<in> tid ` {..<?n} \<longleftrightarrow> (\<exists>v. v < ?n \<and> ?m = tid v)" unfolding image_iff lessThan_iff Bex_def ..
    also have "\<dots> \<longleftrightarrow> (\<exists>v. v < ?n \<and> v \<in> small_nodes g k)" by (rule ex_cong) (use tid_m(1) in metis)
    finally show ?thesis unfolding keys by (auto simp: small_nodes_def)
  qed
  define L where "L = needed_levels (length ts)"
  have lts: "length ts = Suc (card (tid ` {..<?n} - {?m}))"
  proof -
    have "length ts = Suc (length (butlast ts))" using vk(5) by (cases ts rule: rev_cases) simp_all
    also have "length (butlast ts) = card (set (butlast ts))" using vk(2) by (simp add: distinct_card distinct_butlast)
    finally show ?thesis unfolding big_keys .
  qed
  have "card (tid ` {..<?n}) \<le> length ts"
    unfolding lts using card_Suc_Diff1 [of "tid ` {..<?n}" ?m] by (cases "?m \<in> tid ` {..<?n}") auto
  then have L: "card (tid ` {..<?n}) \<le> 2 ^ L" using needed_levels_bounds(1) [of "length ts"] lts by (simp add: L_def)
  have "2 * card (tid ` {..<?n} - {?m}) \<le> ?n" using big_card by (intro sum_of_classes [of _ _ tid]) auto
  then have "length ts \<le> 2 ^ 31" using lts n(2) by (simp add: INVALID_LEVEL_def)
  then have L32: "L < 32" using needed_levels_bounds(2) [of "length ts" 31] lts by (simp add: L_def)
  define st where "st = \<lparr>scc_levels = L, bisection_graph = g',
      bisection_ids = store_component_ids tid (sorted_list_of_set (tid ` {..<?n})) (32 - L) (bg_nodes g') (replicate ?n 0)\<rparr>"
  have pre: "PrePartitionWithSCC k (RecursiveBisectionState_init g) = Some (st, map f ts)"
  proof -
    have "(if \<not> has_small_component scc k
        then split_views tid (bg_nodes g') 0 0 (tid (bn_original_id (bg_nodes g' ! 0))) @ [(?n, ?n)]
        else split_views tid (bg_nodes g') 0 0 (tid (bn_original_id (bg_nodes g' ! 0)))) = map f ts"
      using vk(1) unfolding m_key has gs(2) by (cases "small_nodes g k = {}") simp_all
    moreover have "set (map (\<lambda>node. tid (bn_original_id node)) (bg_nodes g')) = tid ` {..<?n}" using keys by (simp add: key_def)
    ultimately show ?thesis
      unfolding PrePartitionWithSCC_def Let_def RecursiveBisectionState_init_def RecursiveBisectionState.select_convs scc
        option.map tid_def [symmetric] g'_def [symmetric] st_def L_def RecursiveBisectionState.update_convs
      by (simp only: length_map)
  qed
  have comps: "components_ok st (map f ts)"
    unfolding st_def f_def key_def g'_def
    by (rule grouped_components_ok [where tid = tid, OF fresh symv closed L32 L vk(2)])
  have bg: "bisection_graph st = g'" by (simp add: st_def)
  have bl: "butlast (map f ts) = map f (butlast ts)" by (simp add: map_butlast)
  have "b + 2 \<le> e" if be: "(b, e) \<in> set (butlast (map f ts))" for b e
  proof -
    obtain t where t: "t \<in> tid ` {..<?n} - {?m}" "(b, e) = f t" using be unfolding bl set_map big_keys by blast
    have "e - b = length (filter (\<lambda>node. key node = t) (bg_nodes g))"
      using arg_cong [OF gs(6) [of t], of length] t(2) by (simp add: f_def key_def)
    also have "\<dots> = card {i. i < ?n \<and> key (bg_nodes g ! i) = t}" by (rule length_filter_conv_card)
    also have "{i. i < ?n \<and> key (bg_nodes g ! i) = t} = {i. i < ?n \<and> tid i = t}"
      using fresh_graphD(3) [OF fresh] by (auto simp: key_def)
    finally show ?thesis using big_card [OF t(1)] by simp
  qed
  moreover have "component_range (map f ts) = {..<?n}"
  proof (intro equalityI subsetI)
    fix i assume "i \<in> component_range (map f ts)"
    then obtain t where "i < key_count key (bg_nodes g') (Suc t)" by (auto simp: component_range_def f_def)
    then show "i \<in> {..<?n}" using key_count_le [of key "bg_nodes g'" "Suc t"] gs(2) by simp
  next
    fix i assume i: "i \<in> {..<?n}"
    then have t: "key (bg_nodes g' ! i) \<in> set ts" using gs(2) by (auto simp: ts_def)
    have "i \<in> {fst (f (key (bg_nodes g' ! i)))..<snd (f (key (bg_nodes g' ! i)))}"
      using i gs(2) key_count_iff [OF gs(4), of i "key (bg_nodes g' ! i)"] key_count_iff [OF gs(4), of i "Suc (key (bg_nodes g' ! i))"]
      by (simp add: f_def)
    then show "i \<in> component_range (map f ts)" using t by (force simp: component_range_def f_def)
  qed
  moreover have "\<exists>v < ?n. v \<notin> small_nodes g k \<and> abs_view g' b e = restrict_view (component_of g v) ?V"
    if "(b, e) \<in> set (butlast (map f ts))" for b e
  proof -
    obtain t where t: "t \<in> tid ` {..<?n} - {?m}" "(b, e) = f t" using \<open>(b, e) \<in> set (butlast (map f ts))\<close>
      unfolding bl set_map big_keys by blast
    then obtain v where v: "v < ?n" "t = tid v" "v \<notin> small_nodes g k" using tid_m(1) by auto
    have "restrict_view {v. tid v = t} ?V = restrict_view (component_of g v) ?V"
      by (rule restrict_view_cong [OF fresh]) (use big [OF v(1,3)] v(2) in auto)
    then show ?thesis using gs(8) [of t] t(2) v by (auto simp: f_def)
  qed
  moreover have "abs_view g' b e = restrict_view (small_nodes g k) ?V" if "last (map f ts) = (b, e)" for b e
  proof -
    have "(b, e) = f ?m" using that vk(3,5) by (simp add: last_map)
    moreover have "restrict_view {v. tid v = ?m} ?V = restrict_view (small_nodes g k) ?V"
      by (rule restrict_view_cong [OF fresh]) (use tid_m(1) in auto)
    ultimately show ?thesis using gs(8) [of ?m] by (simp add: f_def)
  qed
  moreover have "length (bisection_ids st) = ?n" using store_component_ids_nth by (simp add: st_def)
  ultimately show thesis
    using that [OF pre comps] vk(5) gs(2,3) unfolding bg by fastforce
qed


section \<open>The constructor\<close>

text \<open>The original ids of the nodes of a task.\<close>

definition leaf_nodes :: "RecursiveBisectionState \<Rightarrow> TreeNode \<Rightarrow> NodeID set" where
  "leaf_nodes st t = (\<lambda>i. bn_original_id (bg_nodes (bisection_graph st) ! i)) ` tn_range t"

lemma fst_restrict: "fst ` set (restrict_view S V) = S \<inter> fst ` set V"
  by (force simp: restrict_view_def)

lemma fst_view: "fst ` set (abs_view g b e) = (\<lambda>i. bn_original_id (bg_nodes g ! i)) ` {b..<e}"
  by (simp add: abs_view_def node_view_def image_image set_slice)

lemma fresh_originals: "fresh_graph g \<Longrightarrow> fst ` set (abs_view g 0 (length (bg_nodes g))) = {..<length (bg_nodes g)}"
  by (auto simp: fst_view fresh_graphD(3) image_iff)

lemma leaf_nodes_view: "leaf_nodes st t = fst ` set (abs_view (bisection_graph st) (tn_begin t) (tn_end t))"
  by (simp add: fst_view leaf_nodes_def tn_range_def)

text \<open>The nodes of the graph after the run are a permutation of the original ones.\<close>

lemma run_originals:
  assumes inv: "run_inv Vs n ne {..<n} st M" and vs: "\<forall>(b, e, W) \<in> Vs. fst ` set W \<subseteq> {..<n}"
  defines "orig \<equiv> \<lambda>i. bn_original_id (bg_nodes (bisection_graph st) ! i)"
  shows "bij_betw orig {..<n} {..<n}" and "t \<in># M \<Longrightarrow> tn_range t \<subseteq> {..<n}"
    and "t \<in># M \<Longrightarrow> i < n \<Longrightarrow> orig i \<in> leaf_nodes st t \<longleftrightarrow> i \<in> tn_range t"
    and "t \<in># M \<Longrightarrow> card (leaf_nodes st t) = tn_size t"
proof -
  have g: "graph_ok (bisection_graph st)" "length (bg_nodes (bisection_graph st)) = n" using inv by (simp_all add: run_inv_def)
  have rng: "tn_range t \<subseteq> {..<n}" if "t \<in># M" for t using inv that unfolding run_inv_def by blast
  then show "t \<in># M \<Longrightarrow> tn_range t \<subseteq> {..<n}" .
  have inj: "inj_on orig {..<n}" using graph_okD(4) [OF g(1)] g(2) by (auto simp: inj_on_def orig_def)
  have "orig i < n" if i: "i < n" for i
  proof -
    obtain t where t: "t \<in># M" "i \<in> tn_range t" using inv i unfolding run_inv_def by blast
    then have "task_ok Vs st t" using inv by (simp add: run_inv_def)
    then obtain b e W S where W: "(b, e, W) \<in> Vs" "abs_view (bisection_graph st) (tn_begin t) (tn_end t) = restrict_view S W"
      using task_okD(3) by blast
    have "orig i \<in> fst ` set (restrict_view S W)"
      unfolding W(2) [symmetric] fst_view orig_def using t(2) by (simp add: tn_range_def)
    moreover have "fst ` set W \<subseteq> {..<n}" using vs W(1) by fast
    ultimately show ?thesis unfolding fst_restrict by blast
  qed
  then show "bij_betw orig {..<n} {..<n}"
    using endo_inj_surj [of "{..<n}" orig] inj by (auto simp: bij_betw_def)
  assume t: "t \<in># M"
  show "i < n \<Longrightarrow> orig i \<in> leaf_nodes st t \<longleftrightarrow> i \<in> tn_range t"
    using inj rng [OF t] unfolding leaf_nodes_def orig_def [symmetric] inj_on_def by fast
  have "card (leaf_nodes st t) = card (tn_range t)"
    using inj_on_subset [OF inj rng [OF t]] unfolding leaf_nodes_def orig_def [symmetric] by (rule card_image)
  then show "card (leaf_nodes st t) = tn_size t" by (simp add: tn_range_def tn_size_def)
qed

lemma leaf_ids_original:
  assumes inv: "run_inv Vs n ne {..<n} st (mset leaves)" and vs: "\<forall>(b, e, W) \<in> Vs. fst ` set W \<subseteq> {..<n}"
    and vw: "v < n" "w < n"
  shows "bisection_ids st ! v = bisection_ids st ! w \<longleftrightarrow> (\<exists>t \<in> set leaves. v \<in> leaf_nodes st t \<and> w \<in> leaf_nodes st t)"
    and "\<exists>t \<in> set leaves. v \<in> leaf_nodes st t"
proof -
  let ?orig = "\<lambda>i. bn_original_id (bg_nodes (bisection_graph st) ! i)"
  have "u \<in> ?orig ` {..<n}" if "u < n" for u
    using run_originals(1) [OF inv vs] that unfolding bij_betw_def by simp
  then obtain i j where ij: "i < n" "v = ?orig i" "j < n" "w = ?orig j" using vw by blast
  have "bisection_ids st ! v = bisection_ids st ! w \<longleftrightarrow> (\<exists>t \<in> set leaves. i \<in> tn_range t \<and> j \<in> tn_range t)"
    using leaf_ids [OF inv, of i j] ij by (simp add: node_id_def GetBisectionID_def)
  then show "bisection_ids st ! v = bisection_ids st ! w \<longleftrightarrow> (\<exists>t \<in> set leaves. v \<in> leaf_nodes st t \<and> w \<in> leaf_nodes st t)"
    unfolding ij(2,4) using run_originals(3) [OF inv vs _ ij(1)] run_originals(3) [OF inv vs _ ij(3)] by simp
  obtain t where "t \<in> set leaves" "i \<in> tn_range t" using inv ij(1) unfolding run_inv_def by auto
  then show "\<exists>t \<in> set leaves. v \<in> leaf_nodes st t" unfolding ij(2) using run_originals(3) [OF inv vs _ ij(1)] by auto
qed

lemma tasks_meet:
  assumes "run_inv Vs nn ne U st (mset leaves)" "s \<in> set leaves" "t \<in> set leaves" "i \<in> tn_range t" "i \<in> tn_range s"
  shows "s = t"
proof (rule ccontr)
  assume "s \<noteq> t"
  then have "{#s, t#} \<subseteq># mset leaves" using assms(2,3) by (intro mset_subset_eqI) (auto simp: Suc_le_eq)
  then have "tasks_apart st s t" using assms(1) unfolding run_inv_def all_pairs_def by blast
  then show False using assms(4,5) unfolding tasks_apart_def by blast
qed

text \<open>A leaf inside a range of its own holds a part of the view of that range.\<close>

lemma apart_ranges:
  assumes "run_inv Vs n ne U st (mset (map (root_task st) components))"
    and "c \<in> set components" "d \<in> set components" "i \<in> {fst c..<snd c}" "i \<in> {fst d..<snd d}"
  shows "c = d"
proof -
  have rng: "tn_range (root_task st x) = {fst x..<snd x}" for x by (cases x) (simp add: tn_range_def root_task_def)
  have "root_task st c = root_task st d" using tasks_meet [OF assms(1)] assms(2-5) by (simp add: rng)
  then show ?thesis by (cases c; cases d) (simp add: root_task_def)
qed

lemma component_not_small:
  assumes "fresh_graph g" "sym_view (abs_view g 0 (length (bg_nodes g)))" "v < length (bg_nodes g)" "v \<notin> small_nodes g k"
  shows "component_of g v \<inter> small_nodes g k = {}"
proof -
  have "component_of g w = component_of g v" if "w \<in> component_of g v" for w
  proof -
    have "(v, w) \<in> (graph_arcs g)\<^sup>*" "(w, v) \<in> (graph_arcs g)\<^sup>*"
      using that graph_arcs_sym(2) [OF assms(1,2)] by (simp_all add: component_of_def)
    then show ?thesis unfolding component_of_def by (auto intro: rtrancl_trans)
  qed
  then show ?thesis using assms(3,4) by (auto simp: small_nodes_def)
qed

lemma leaf_within:
  assumes inv: "run_inv Vs n ne U st (mset (map (root_task st) components))" and Vs: "Vs = component_views st components"
    and t: "task_ok Vs st' t" and c: "c \<in> set components" "tn_range t \<subseteq> {fst c..<snd c}"
  shows "leaf_nodes st' t \<subseteq> fst ` set (abs_view (bisection_graph st) (fst c) (snd c))"
proof (cases "tn_range t = {}")
  case True
  then show ?thesis by (simp add: leaf_nodes_def)
next
  case False
  then obtain i where i: "i \<in> tn_range t" by blast
  obtain d W S where d: "d \<in> set components" "W = abs_view (bisection_graph st) (fst d) (snd d)" "tn_range t \<subseteq> {fst d..<snd d}"
    "abs_view (bisection_graph st') (tn_begin t) (tn_end t) = restrict_view S W"
    using task_okD(3) [OF t] unfolding Vs component_views_def by auto
  have "c = d" by (rule apart_ranges [OF inv c(1) d(1)]) (use i c(2) d(3) in blast)+
  then show ?thesis unfolding leaf_nodes_view d(4) fst_restrict d(2) by blast
qed

text \<open>
  Property C2.  The constructor.  From a fresh symmetric graph the whole recursive bisection
  returns, and the ids it leaves say which leaf a node is in: two nodes have the same id exactly
  when they are in the same leaf.  The nodes of small components form one leaf, and every other
  leaf lies in one strongly connected component and is smaller than the maximal cell size, unless
  the 32 bits of the id are used up.
\<close>

theorem RecursiveBisection_init_correct:
  assumes E: "env_ok E" and P: "params_ok P" and fresh: "fresh_graph g"
    and symv: "sym_view (abs_view g 0 (length (bg_nodes g)))"
    and n: "bg_nodes g \<noteq> []" "length (bg_nodes g) < INVALID_LEVEL"
    and m: "length (bg_edges g) * length (bg_nodes g) < 2 ^ 64 - 1" and k: "1 \<le> small_component_size"
  shows "\<exists>st' leaves. RecursiveBisection_init E P small_component_size g = Some st' \<and>
    (\<forall>v < length (bg_nodes g). \<exists>t \<in> set leaves. v \<in> leaf_nodes st' t) \<and>
    (\<forall>v < length (bg_nodes g). \<forall>w < length (bg_nodes g). bisection_ids st' ! v = bisection_ids st' ! w \<longleftrightarrow>
       (\<exists>t \<in> set leaves. v \<in> leaf_nodes st' t \<and> w \<in> leaf_nodes st' t)) \<and>
    (\<forall>t \<in> set leaves. leaf_nodes st' t = small_nodes g small_component_size \<or>
       (\<exists>v < length (bg_nodes g). leaf_nodes st' t \<subseteq> component_of g v - small_nodes g small_component_size) \<and>
       (card (leaf_nodes st' t) < maximum_cell_size P \<or> 32 \<le> tn_depth t))"
proof -
  let ?n = "length (bg_nodes g)" and ?small = "small_nodes g small_component_size" and ?V = "abs_view g 0 (length (bg_nodes g))"
  obtain st components where pre: "PrePartitionWithSCC small_component_size (RecursiveBisectionState_init g) = Some (st, components)"
    and ok: "components_ok st components" "components \<noteq> []" "\<forall>(b, e) \<in> set (butlast components). b + 2 \<le> e"
    and rng: "component_range components = {..<?n}"
    and len: "length (bg_nodes (bisection_graph st)) = ?n" "length (bg_edges (bisection_graph st)) = length (bg_edges g)"
    and bigv: "\<And>b e. (b, e) \<in> set (butlast components) \<Longrightarrow> \<exists>v < ?n. v \<notin> ?small \<and>
      abs_view (bisection_graph st) b e = restrict_view (component_of g v) ?V"
    and smallv: "\<And>b e. last components = (b, e) \<Longrightarrow> abs_view (bisection_graph st) b e = restrict_view ?small ?V"
    by (rule PrePartition_spec [OF fresh symv n k]) blast
  define Vs where "Vs = component_views st components"
  define big where "big = butlast components"
  define l where "l = last components"
  have comps: "components = big @ [l]" using ok(2) by (simp add: big_def l_def)
  have inv: "run_inv Vs ?n (length (bg_edges g)) {..<?n} st (mset (map (root_task st) components))"
    using components_inv [OF ok(1)] unfolding len rng Vs_def .
  then have "run_inv Vs ?n (length (bg_edges g)) {..<?n} st (mset (map (root_task st) big) + mset [root_task st l])"
    by (simp add: comps)
  from bisect_forest_returns [OF E P n(2) m this] root_tasks_size [OF ok(1,3)]
  obtain st' leaves where forest: "bisect_forest E P st (map (root_task st) big) = Some st'"
    and inv': "run_inv Vs ?n (length (bg_edges g)) {..<?n} st' (mset leaves)" and kept: "root_task st l \<in> set leaves"
    and stop: "\<forall>t \<in> set leaves. terminal P t \<or> t = root_task st l" unfolding big_def by auto
  have viewV: "fst ` set ?V = {..<?n}" by (rule fresh_originals [OF fresh])
  have view_l: "fst ` set (abs_view (bisection_graph st) (fst l) (snd l)) = ?small"
    using smallv [of "fst l" "snd l"] by (auto simp: l_def fst_restrict viewV small_nodes_def)
  have view_big: "\<exists>v < ?n. v \<notin> ?small \<and> fst ` set (abs_view (bisection_graph st) (fst c) (snd c)) = component_of g v" if c: "c \<in> set big" for c
  proof -
    obtain v where v: "v < ?n" "v \<notin> ?small" "abs_view (bisection_graph st) (fst c) (snd c) = restrict_view (component_of g v) ?V"
      using bigv [of "fst c" "snd c"] c unfolding big_def prod.collapse by blast
    then show ?thesis using component_of_less [OF fresh v(1)] by (auto simp: fst_restrict viewV)
  qed
  have vs: "\<forall>(b, e, W) \<in> Vs. fst ` set W \<subseteq> {..<?n}"
  proof -
    have "fst ` set (abs_view (bisection_graph st) (fst c) (snd c)) \<subseteq> {..<?n}" if c: "c \<in> set components" for c
    proof (cases "c = l")
      case True
      then show ?thesis using view_l by (auto simp: small_nodes_def)
    next
      case False
      then obtain v where "v < ?n" "fst ` set (abs_view (bisection_graph st) (fst c) (snd c)) = component_of g v"
        using view_big [of c] c by (auto simp: comps)
      then show ?thesis using component_of_less [OF fresh] by auto
    qed
    then show ?thesis unfolding Vs_def component_views_def by fastforce
  qed
  have tasks: "task_ok Vs st' t" if "t \<in> set leaves" for t using inv' that by (simp add: run_inv_def)
  have leaf: "leaf_nodes st' t = ?small \<or> (\<exists>v < ?n. leaf_nodes st' t \<subseteq> component_of g v - ?small) \<and>
      (card (leaf_nodes st' t) < maximum_cell_size P \<or> 32 \<le> tn_depth t)" if t: "t \<in> set leaves" for t
  proof (cases "t = root_task st l")
    case True
    have "leaf_nodes st' t \<subseteq> ?small"
      using leaf_within [OF inv Vs_def tasks [OF t], of l] True view_l by (cases l) (simp add: comps tn_range_def root_task_def)
    moreover have "card ?small \<le> card (leaf_nodes st' t)"
    proof -
      have "card ?small \<le> length (abs_view (bisection_graph st) (fst l) (snd l))"
        unfolding view_l [symmetric] using card_length [of "map fst (abs_view (bisection_graph st) (fst l) (snd l))"] by simp
      also have "\<dots> = tn_size t" using True by (cases l) (simp add: abs_view_def tn_size_def root_task_def)
      finally show ?thesis using run_originals(4) [OF inv' vs] t by simp
    qed
    moreover have "finite ?small" by (simp add: small_nodes_def)
    ultimately show ?thesis using card_seteq by blast
  next
    case False
    have "\<exists>v < ?n. leaf_nodes st' t \<subseteq> component_of g v - ?small"
    proof (cases "tn_range t = {}")
      case True
      then show ?thesis using n(1) by (intro exI [of _ 0]) (simp add: leaf_nodes_def)
    next
      case nonempty: False
      then obtain i where i: "i \<in> tn_range t" by blast
      obtain c where c: "c \<in> set components" "tn_range t \<subseteq> {fst c..<snd c}"
        using task_okD(3) [OF tasks [OF t]] unfolding Vs_def component_views_def by auto
      have "c \<noteq> l"
      proof
        assume "c = l"
        then have "i \<in> tn_range (root_task st l)" using c(2) i by (cases l) (auto simp: tn_range_def root_task_def)
        then show False using tasks_meet [OF inv' _ _ i] t kept False by simp
      qed
      then obtain v where v: "v < ?n" "v \<notin> ?small" "fst ` set (abs_view (bisection_graph st) (fst c) (snd c)) = component_of g v"
        using view_big [of c] c(1) by (auto simp: comps)
      then show ?thesis
        using leaf_within [OF inv Vs_def tasks [OF t] c] component_not_small [OF fresh symv v(1,2)] by blast
    qed
    moreover have "card (leaf_nodes st' t) < maximum_cell_size P \<or> 32 \<le> tn_depth t"
      using stop t False run_originals(4) [OF inv' vs] by (auto simp: terminal_def)
    ultimately show ?thesis by blast
  qed
  have "RecursiveBisection_init E P small_component_size g = Some st'"
    using forest by (simp add: RecursiveBisection_init_def pre RecursiveBisection_def root_task_def big_def)
  then show ?thesis using leaf leaf_ids_original [OF inv' vs] by blast
qed

lemma example_fresh: "fresh_graph (bisection_graph example_state)" "length (bg_nodes (bisection_graph example_state)) = 3"
  "sym_view (abs_view (bisection_graph example_state) 0 (length (bg_nodes (bisection_graph example_state))))"
proof -
  show len: "length (bg_nodes (bisection_graph example_state)) = 3"
    by (simp add: example_state_def RecursiveBisectionState_init_def)
  show "sym_view (abs_view (bisection_graph example_state) 0 (length (bg_nodes (bisection_graph example_state))))"
    unfolding len example_state_view by (simp add: sym_view_def)
  have "\<forall>i < 3. bn_original_id (bg_nodes (bisection_graph example_state) ! i) = i"
    by (auto simp: example_state_def RecursiveBisectionState_init_def less_Suc_eq numeral_3_eq_3)
  then show "fresh_graph (bisection_graph example_state)" using example_state_ok(1,2) by (simp add: fresh_graph_def len)
qed

lemma RecursiveBisection_init_correct_witness:
  "\<exists>st' leaves. RecursiveBisection_init example_env example_params 1 (bisection_graph example_state) = Some st' \<and>
     (\<forall>v < 3. \<forall>w < 3. bisection_ids st' ! v = bisection_ids st' ! w \<longleftrightarrow>
       (\<exists>t \<in> set leaves. v \<in> leaf_nodes st' t \<and> w \<in> leaf_nodes st' t))"
proof -
  have "env_ok example_env" using cmp_sort_ok rev_hash_order_ok by (simp add: env_ok_def example_env_def)
  moreover have "params_ok example_params" by (simp add: params_ok_def example_params_def)
  moreover have "bg_nodes (bisection_graph example_state) \<noteq> []" "length (bg_nodes (bisection_graph example_state)) < INVALID_LEVEL"
    "length (bg_edges (bisection_graph example_state)) * length (bg_nodes (bisection_graph example_state)) < 2 ^ 64 - 1"
    by (simp_all add: example_state_def RecursiveBisectionState_init_def INVALID_LEVEL_def)
  ultimately show ?thesis
    using RecursiveBisection_init_correct [OF _ _ example_fresh(1,3), of example_env example_params 1]
    unfolding example_fresh(2) by blast
qed

end
