(* ===== verification/StaticGraph.thy ===== *)
theory StaticGraph
  imports Permutation "HOL-Library.Monad_Syntax"
begin

text \<open>
  The immutable adjacency array, \<^verbatim>\<open>include/util/static_graph.hpp\<close>: construction from sorted
  edges, queries and renumbering.

  The node array holds the index of the first edge of every node and one more entry.  It is read
  with \<^verbatim>\<open>at\<close>: a node out of range throws \<^verbatim>\<open>std::out_of_range\<close>, the result \<open>None\<close>.
\<close>

section \<open>Definitions\<close>

record 'd EdgeArrayEntry =
  ea_target :: NodeID
  ea_data :: 'd

record 'd SortableEdgeWithData =
  se_source :: NodeID
  se_target :: NodeID
  se_data :: 'd

definition se_less :: "'d SortableEdgeWithData \<Rightarrow> 'd SortableEdgeWithData \<Rightarrow> bool" where
  "se_less l r \<longleftrightarrow> se_source l < se_source r \<or> se_source l = se_source r \<and> se_target l < se_target r"

definition se_equal :: "'d SortableEdgeWithData \<Rightarrow> 'd SortableEdgeWithData \<Rightarrow> bool" where
  "se_equal l r \<longleftrightarrow> se_source l = se_source r \<and> se_target l = se_target r"

definition edgeToEntry :: "'d SortableEdgeWithData \<Rightarrow> 'd EdgeArrayEntry" where
  "edgeToEntry from = \<lparr>ea_target = se_target from, ea_data = se_data from\<rparr>"

record 'd StaticGraph =
  sg_number_of_nodes :: nat
  sg_number_of_edges :: nat
  sg_node_array :: "EdgeID list"
  sg_edge_array :: "'d EdgeArrayEntry list"

definition sg_GetNumberOfNodes :: "'d StaticGraph \<Rightarrow> nat" where
  "sg_GetNumberOfNodes g = sg_number_of_nodes g"

definition sg_GetNumberOfEdges :: "'d StaticGraph \<Rightarrow> nat" where
  "sg_GetNumberOfEdges g = sg_number_of_edges g"

text \<open>\<^verbatim>\<open>std::vector::at\<close>.\<close>

definition vector_at :: "'a list \<Rightarrow> nat \<Rightarrow> 'a option" where
  "vector_at xs i = (if i < length xs then Some (xs ! i) else None)"

definition sg_BeginEdges :: "'d StaticGraph \<Rightarrow> NodeID \<Rightarrow> EdgeID option" where
  "sg_BeginEdges g n = vector_at (sg_node_array g) n"

definition sg_EndEdges :: "'d StaticGraph \<Rightarrow> NodeID \<Rightarrow> EdgeID option" where
  "sg_EndEdges g n = vector_at (sg_node_array g) ((n + 1) mod 2 ^ 32)"

definition sg_GetAdjacentEdgeRange :: "'d StaticGraph \<Rightarrow> NodeID \<Rightarrow> EdgeID list option" where
  "sg_GetAdjacentEdgeRange g node = do {
     b \<leftarrow> sg_BeginEdges g node;
     e \<leftarrow> sg_EndEdges g node;
     Some [b..<e]
   }"

definition sg_GetOutDegree :: "'d StaticGraph \<Rightarrow> NodeID \<Rightarrow> nat option" where
  "sg_GetOutDegree g n = do {
     e \<leftarrow> sg_EndEdges g n;
     b \<leftarrow> sg_BeginEdges g n;
     Some ((e + 2 ^ 32 - b) mod 2 ^ 32)
   }"

definition sg_GetTarget :: "'d StaticGraph \<Rightarrow> EdgeID \<Rightarrow> NodeID" where
  "sg_GetTarget g e = ea_target (sg_edge_array g ! e)"

definition sg_GetEdgeData :: "'d StaticGraph \<Rightarrow> EdgeID \<Rightarrow> 'd" where
  "sg_GetEdgeData g e = ea_data (sg_edge_array g ! e)"

definition sg_FindEdge :: "'d StaticGraph \<Rightarrow> NodeID \<Rightarrow> NodeID \<Rightarrow> EdgeID option" where
  "sg_FindEdge g from to = do {
     r \<leftarrow> sg_GetAdjacentEdgeRange g from;
     Some (case find (\<lambda>i. to = ea_target (sg_edge_array g ! i)) r of Some i \<Rightarrow> i | None \<Rightarrow> SPECIAL_EDGEID)
   }"

definition sg_FindSmallestEdge ::
  "('d \<Rightarrow> EdgeWeight) \<Rightarrow> 'd StaticGraph \<Rightarrow> NodeID \<Rightarrow> NodeID \<Rightarrow> ('d \<Rightarrow> bool) \<Rightarrow> EdgeID option" where
  "sg_FindSmallestEdge weight g from to filter_edge = do {
     r \<leftarrow> sg_GetAdjacentEdgeRange g from;
     Some (fst (min_scan (\<lambda>edge. sg_GetTarget g edge = to \<and> filter_edge (sg_GetEdgeData g edge))
       (\<lambda>edge. weight (sg_GetEdgeData g edge)) r (SPECIAL_EDGEID, INVALID_EDGE_WEIGHT)))
   }"

definition sg_FindEdgeInEitherDirection :: "'d StaticGraph \<Rightarrow> NodeID \<Rightarrow> NodeID \<Rightarrow> EdgeID option" where
  "sg_FindEdgeInEitherDirection g from to = do {
     tmp \<leftarrow> sg_FindEdge g from to;
     if SPECIAL_NODEID \<noteq> tmp then Some tmp else sg_FindEdge g to from
   }"

text \<open>The edge and the new value of the argument \<^verbatim>\<open>result\<close>.\<close>

definition sg_FindEdgeIndicateIfReverse ::
  "'d StaticGraph \<Rightarrow> NodeID \<Rightarrow> NodeID \<Rightarrow> bool \<Rightarrow> (EdgeID \<times> bool) option" where
  "sg_FindEdgeIndicateIfReverse g from to result = do {
     current \<leftarrow> sg_FindEdge g from to;
     if SPECIAL_NODEID = current then do {
       current' \<leftarrow> sg_FindEdge g to from;
       Some (current', if SPECIAL_NODEID \<noteq> current' then True else result)
     } else Some (current, result)
   }"

text \<open>Construction.\<close>

fun sg_node_offsets :: "'d SortableEdgeWithData list \<Rightarrow> NodeID list \<Rightarrow> nat \<Rightarrow> EdgeID list" where
  "sg_node_offsets edges [] iter = []"
| "sg_node_offsets edges (node # nodes) iter =
     (let iter' = skip_key se_source edges node iter
      in iter' # sg_node_offsets edges nodes iter')"

definition InitializeFromSortedEdgeRange :: "nat \<Rightarrow> 'd SortableEdgeWithData list \<Rightarrow> 'd StaticGraph" where
  "InitializeFromSortedEdgeRange nodes edges =
     \<lparr>sg_number_of_nodes = nodes, sg_number_of_edges = length edges,
      sg_node_array = 0 # sg_node_offsets edges [0..<nodes] 0,
      sg_edge_array = map edgeToEntry edges\<rparr>"

definition StaticGraph_of_arrays :: "EdgeID list \<Rightarrow> 'd EdgeArrayEntry list \<Rightarrow> 'd StaticGraph" where
  "StaticGraph_of_arrays node_array edge_array =
     \<lparr>sg_number_of_nodes = length node_array - 1, sg_number_of_edges = last node_array,
      sg_node_array = node_array, sg_edge_array = edge_array\<rparr>"

text \<open>Renumbering: the state of the loops is the edge array, the permutation of the edges and the
  next new index.\<close>

definition sg_renumber_edge ::
  "NodeID list \<Rightarrow> EdgeID \<Rightarrow> 'd EdgeArrayEntry list \<times> EdgeID list \<times> nat \<Rightarrow> 'd EdgeArrayEntry list \<times> EdgeID list \<times> nat" where
  "sg_renumber_edge old_to_new_node edge = (\<lambda>(edges, old_to_new_edge, new_edge_index).
     (edges[edge := (edges ! edge)\<lparr>ea_target := old_to_new_node ! ea_target (edges ! edge)\<rparr>],
      old_to_new_edge[edge := new_edge_index], new_edge_index + 1))"

fun sg_renumber_nodes ::
  "'d StaticGraph \<Rightarrow> NodeID list \<Rightarrow> NodeID list \<Rightarrow> NodeID list \<Rightarrow> EdgeID list \<Rightarrow>
   'd EdgeArrayEntry list \<times> EdgeID list \<times> nat \<Rightarrow> (EdgeID list \<times> 'd EdgeArrayEntry list \<times> EdgeID list \<times> nat) option" where
  "sg_renumber_nodes g old_to_new_node new_to_old_node [] new_node_array s = Some (new_node_array, s)"
| "sg_renumber_nodes g old_to_new_node new_to_old_node (node # nodes) new_node_array s = do {
     r \<leftarrow> sg_GetAdjacentEdgeRange g (new_to_old_node ! node);
     sg_renumber_nodes g old_to_new_node new_to_old_node nodes (new_node_array[node := snd (snd s)])
       (fold (sg_renumber_edge old_to_new_node) r s)
   }"

definition sg_Renumber :: "NodeID list \<Rightarrow> 'd StaticGraph \<Rightarrow> 'd StaticGraph option" where
  "sg_Renumber old_to_new_node g = do {
     let new_to_old_node = orderingToPermutation_loop old_to_new_node [0..<sg_number_of_nodes g]
       (replicate (sg_number_of_nodes g) 0);
     (new_node_array, edges, old_to_new_edge, new_edge_index) \<leftarrow>
       sg_renumber_nodes g old_to_new_node new_to_old_node [0..<sg_number_of_nodes g]
         (replicate (length (sg_node_array g)) 0)
         (sg_edge_array g, replicate (length (sg_edge_array g)) SPECIAL_EDGEID, 0);
     edges' \<leftarrow> inplacePermutation old_to_new_edge edges;
     Some (g\<lparr>sg_node_array := new_node_array[length new_node_array - 1 := new_edge_index],
             sg_edge_array := edges'\<rparr>)
   }"

section \<open>Adjacency\<close>

text \<open>The edges of a node in their order, and well-formedness.\<close>

definition sg_range :: "'d StaticGraph \<Rightarrow> NodeID \<Rightarrow> EdgeID list" where
  "sg_range g v = [sg_node_array g ! v..<sg_node_array g ! Suc v]"

definition sg_out :: "'d StaticGraph \<Rightarrow> NodeID \<Rightarrow> 'd EdgeArrayEntry list" where
  "sg_out g v = map ((!) (sg_edge_array g)) (sg_range g v)"

definition sg_inv :: "'d StaticGraph \<Rightarrow> bool" where
  "sg_inv g \<longleftrightarrow> length (sg_node_array g) = sg_number_of_nodes g + 1 \<and> sg_number_of_nodes g + 1 < 2 ^ 32 \<and>
     sorted (sg_node_array g) \<and> sg_node_array g ! 0 = 0 \<and>
     sg_node_array g ! sg_number_of_nodes g = length (sg_edge_array g) \<and>
     sg_number_of_edges g = length (sg_edge_array g) \<and> length (sg_edge_array g) < SPECIAL_EDGEID"

lemma sg_invD:
  assumes "sg_inv g"
  shows "length (sg_node_array g) = sg_number_of_nodes g + 1" "sg_number_of_nodes g + 1 < 2 ^ 32"
    and "i \<le> j \<Longrightarrow> j \<le> sg_number_of_nodes g \<Longrightarrow> sg_node_array g ! i \<le> sg_node_array g ! j"
    and "sg_node_array g ! 0 = 0" "sg_node_array g ! sg_number_of_nodes g = length (sg_edge_array g)"
    and "sg_number_of_edges g = length (sg_edge_array g)" "length (sg_edge_array g) < SPECIAL_EDGEID"
  using assms sorted_nth_mono [of "sg_node_array g" i j] by (auto simp: sg_inv_def)

lemma sg_range_less:
  assumes "sg_inv g" "v < sg_number_of_nodes g" "i \<in> set (sg_range g v)"
  shows "i < length (sg_edge_array g)"
  using sg_invD(3) [OF assms(1), of "Suc v" "sg_number_of_nodes g"] sg_invD(5) [OF assms(1)] assms(2,3)
  by (simp add: sg_range_def)

lemma sg_edges_of:
  assumes "sg_inv g"
  shows "sg_GetAdjacentEdgeRange g v = (if v < sg_number_of_nodes g then Some (sg_range g v) else None)"
proof -
  note inv = sg_invD [OF assms]
  show ?thesis
  proof (cases "v < sg_number_of_nodes g")
    case True
    then show ?thesis
      using inv(1,2) by (simp add: sg_GetAdjacentEdgeRange_def sg_BeginEdges_def sg_EndEdges_def vector_at_def sg_range_def)
  next
    case False
    show ?thesis
    proof (cases "v = sg_number_of_nodes g")
      case True
      then show ?thesis
        using inv(1,2) by (simp add: sg_GetAdjacentEdgeRange_def sg_BeginEdges_def sg_EndEdges_def vector_at_def)
    next
      case gt: False
      then show ?thesis
        using False inv(1) by (simp add: sg_GetAdjacentEdgeRange_def sg_BeginEdges_def vector_at_def)
    qed
  qed
qed

section \<open>Construction\<close>

lemma sg_node_offsets_spec:
  assumes srt: "sorted (map se_source edges)"
  shows "a \<le> b \<Longrightarrow> sg_node_offsets edges [a..<b] (key_count se_source edges a) =
    map (\<lambda>v. key_count se_source edges (Suc v)) [a..<b]"
proof (induction "b - a" arbitrary: a)
  case (Suc d)
  have "skip_key se_source edges a (key_count se_source edges a) = key_count se_source edges (Suc a)"
    by (rule skip_key_count [OF srt]) (simp_all add: key_count_mono)
  then show ?case using Suc.hyps(1) [of "Suc a"] Suc.hyps(2) Suc.prems by (simp add: upt_conv_Cons)
qed simp

lemma StaticGraph_init_spec:
  assumes srt: "sorted (map se_source edges)" and src: "\<forall>e \<in> set edges. se_source e < nodes"
    and small: "nodes + 1 < 2 ^ 32" "length edges < SPECIAL_EDGEID"
  defines "g \<equiv> InitializeFromSortedEdgeRange nodes edges"
  shows "sg_inv g" "i \<le> nodes \<Longrightarrow> sg_node_array g ! i = key_count se_source edges i"
    and "v < nodes \<Longrightarrow> sg_out g v = map edgeToEntry (filter (\<lambda>e. se_source e = v) edges)"
proof -
  have "0 # map (\<lambda>v. key_count se_source edges (Suc v)) [0..<nodes] = map (key_count se_source edges) [0..<Suc nodes]"
    by (subst upt_conv_Cons [of 0 "Suc nodes"]) (simp_all add: map_Suc_upt [symmetric] del: upt_Suc)
  then have na: "sg_node_array g = map (key_count se_source edges) [0..<Suc nodes]"
    using sg_node_offsets_spec [OF srt, of 0 nodes] by (simp add: g_def InitializeFromSortedEdgeRange_def del: upt_Suc)
  have nth: "sg_node_array g ! i = key_count se_source edges i" if "i \<le> nodes" for i
    using that unfolding na by (simp del: upt_Suc)
  then show "i \<le> nodes \<Longrightarrow> sg_node_array g ! i = key_count se_source edges i" .
  have "sorted (sg_node_array g)" unfolding na by (simp add: sorted_iff_nth_mono key_count_mono del: upt_Suc)
  moreover have "key_count se_source edges nodes = length edges" using src by (intro key_count_all) simp
  moreover have "length (sg_node_array g) = nodes + 1" by (simp add: na)
  moreover have "sg_number_of_nodes g = nodes" "sg_number_of_edges g = length edges" "length (sg_edge_array g) = length edges"
    by (simp_all add: g_def InitializeFromSortedEdgeRange_def)
  ultimately show "sg_inv g" using small nth [of 0] nth [of nodes] by (simp add: sg_inv_def)
  assume v: "v < nodes"
  have "sg_out g v = map edgeToEntry (slice edges (key_count se_source edges v) (key_count se_source edges (Suc v)))"
    using v key_count_le [of se_source edges "Suc v"]
    by (auto simp: sg_out_def sg_range_def nth slice_def) (simp add: g_def InitializeFromSortedEdgeRange_def)
  then show "sg_out g v = map edgeToEntry (filter (\<lambda>e. se_source e = v) edges)"
    by (simp add: slice_key_count [OF srt])
qed

text \<open>
  Property C26.  The static graph.  From edges sorted by their source the constructor makes a
  well-formed graph in which the edges of every node are the given ones with that source, in
  their order.
\<close>

theorem StaticGraph_init_correct:
  assumes "sorted (map se_source edges)" "\<forall>e \<in> set edges. se_source e < nodes"
    and "nodes + 1 < 2 ^ 32" "length edges < SPECIAL_EDGEID"
  shows "sg_inv (InitializeFromSortedEdgeRange nodes edges) \<and>
    sg_GetNumberOfNodes (InitializeFromSortedEdgeRange nodes edges) = nodes \<and>
    sg_GetNumberOfEdges (InitializeFromSortedEdgeRange nodes edges) = length edges \<and>
    (\<forall>v < nodes. sg_out (InitializeFromSortedEdgeRange nodes edges) v = map edgeToEntry (filter (\<lambda>e. se_source e = v) edges))"
  using StaticGraph_init_spec [OF assms]
  by (simp add: sg_GetNumberOfNodes_def sg_GetNumberOfEdges_def) (simp add: InitializeFromSortedEdgeRange_def)

definition example_sg_edges :: "int SortableEdgeWithData list" where
  "example_sg_edges = [\<lparr>se_source = 0, se_target = 1, se_data = 5\<rparr>, \<lparr>se_source = 0, se_target = 2, se_data = 3\<rparr>,
     \<lparr>se_source = 2, se_target = 1, se_data = 4\<rparr>]"

lemma StaticGraph_init_correct_witness:
  "sg_inv (InitializeFromSortedEdgeRange 3 example_sg_edges) \<and>
   sg_out (InitializeFromSortedEdgeRange 3 example_sg_edges) 0 =
     [\<lparr>ea_target = 1, ea_data = 5\<rparr>, \<lparr>ea_target = 2, ea_data = 3\<rparr>]"
  using StaticGraph_init_correct [of example_sg_edges 3]
  by (simp add: example_sg_edges_def edgeToEntry_def SPECIAL_EDGEID_def)

section \<open>Queries\<close>

lemma sg_FindEdge_spec:
  assumes "sg_inv g" "from < sg_number_of_nodes g"
  shows "\<exists>e. sg_FindEdge g from to = Some e \<and>
    (if to \<in> ea_target ` set (sg_out g from)
     then e \<in> set (sg_range g from) \<and> sg_GetTarget g e = to \<and> (\<forall>i \<in> set (sg_range g from). i < e \<longrightarrow> sg_GetTarget g i \<noteq> to)
     else e = SPECIAL_EDGEID)"
proof (cases "find (\<lambda>i. to = ea_target (sg_edge_array g ! i)) (sg_range g from)")
  case None
  then have "to \<notin> ea_target ` set (sg_out g from)" by (auto simp: find_None_iff sg_out_def)
  then show ?thesis using assms None by (simp add: sg_FindEdge_def sg_edges_of)
next
  case (Some e)
  then obtain k where k: "k < length (sg_range g from)" "e = sg_range g from ! k" "ea_target (sg_edge_array g ! e) = to"
    "\<forall>j < k. to \<noteq> ea_target (sg_edge_array g ! (sg_range g from ! j))"
    by (auto simp: find_Some_iff)
  have "sg_GetTarget g i \<noteq> to" if i: "i \<in> set (sg_range g from)" "i < e" for i
  proof -
    have "sg_range g from ! (i - sg_node_array g ! from) = i" "i - sg_node_array g ! from < k"
      using k(1,2) i by (simp_all add: sg_range_def less_diff_conv2)
    then show ?thesis using k(4) by (auto simp: sg_GetTarget_def)
  qed
  moreover have e: "e \<in> set (sg_range g from)" using k(1,2) by simp
  moreover have "to \<in> ea_target ` set (sg_out g from)" using e k(3) by (auto simp: sg_out_def)
  ultimately show ?thesis using assms Some k(3) by (simp add: sg_FindEdge_def sg_edges_of sg_GetTarget_def)
qed

text \<open>
  Queries of the static graph.  A query of a node out of range throws; any other
  returns.  \<^verbatim>\<open>FindEdge\<close> returns the first edge to the target and \<^verbatim>\<open>FindSmallestEdge\<close> one of least
  weight among those that pass the filter and weigh less than the invalid weight;
  \<^verbatim>\<open>SPECIAL_EDGEID\<close> says that there is none.
\<close>

theorem StaticGraph_queries_correct:
  assumes inv: "sg_inv g"
  shows "(v \<ge> sg_number_of_nodes g \<longrightarrow> sg_GetAdjacentEdgeRange g v = None \<and> sg_GetOutDegree g v = None \<and>
      sg_FindEdge g v to = None \<and> sg_FindSmallestEdge weight g v to ok = None) \<and>
    (v < sg_number_of_nodes g \<longrightarrow> sg_GetAdjacentEdgeRange g v = Some (sg_range g v) \<and>
      sg_GetOutDegree g v = Some (length (sg_out g v)) \<and>
      (\<exists>e. sg_FindEdge g v to = Some e \<and>
         (if to \<in> ea_target ` set (sg_out g v)
          then e \<in> set (sg_range g v) \<and> sg_GetTarget g e = to \<and> (\<forall>i \<in> set (sg_range g v). i < e \<longrightarrow> sg_GetTarget g i \<noteq> to)
          else e = SPECIAL_EDGEID)) \<and>
      (\<exists>e. sg_FindSmallestEdge weight g v to ok = Some e \<and>
         (if \<exists>x \<in> set (sg_out g v). ea_target x = to \<and> ok (ea_data x) \<and> weight (ea_data x) < INVALID_EDGE_WEIGHT
          then e \<in> set (sg_range g v) \<and> sg_GetTarget g e = to \<and> ok (sg_GetEdgeData g e) \<and>
            (\<forall>x \<in> set (sg_out g v). ea_target x = to \<longrightarrow> ok (ea_data x) \<longrightarrow> weight (sg_GetEdgeData g e) \<le> weight (ea_data x))
          else e = SPECIAL_EDGEID)))"
proof (cases "v < sg_number_of_nodes g")
  case False
  then have "sg_GetOutDegree g v = None"
    using sg_edges_of [OF inv, of v] by (auto simp: sg_GetOutDegree_def sg_GetAdjacentEdgeRange_def split: bind_splits)
  then show ?thesis using False by (simp add: sg_edges_of [OF inv] sg_FindEdge_def sg_FindSmallestEdge_def)
next
  case True
  note r = sg_edges_of [OF inv, of v]
  let ?b = "sg_node_array g ! v" and ?e = "sg_node_array g ! Suc v"
  have be: "?b \<le> ?e" "?e \<le> length (sg_edge_array g)"
    using sg_invD(3) [OF inv] sg_invD(5) [OF inv] True by (metis Suc_leI le_SucI order_refl)+
  have "sg_BeginEdges g v = Some ?b" "sg_EndEdges g v = Some ?e"
    using True sg_invD(1,2) [OF inv] by (simp_all add: sg_BeginEdges_def sg_EndEdges_def vector_at_def)
  moreover have "(?e + 2 ^ 32 - ?b) mod 2 ^ 32 = ?e - ?b"
  proof -
    have "?e + 2 ^ 32 - ?b = (?e - ?b) + 2 ^ 32" using be(1) by simp
    moreover have "?e - ?b < 2 ^ 32" using be sg_invD(7) [OF inv] by (simp add: SPECIAL_EDGEID_def)
    ultimately show ?thesis by (metis mod_add_self2 mod_less)
  qed
  ultimately have deg: "sg_GetOutDegree g v = Some (length (sg_out g v))"
    by (simp add: sg_GetOutDegree_def sg_out_def sg_range_def)
  obtain s sw where m: "min_scan (\<lambda>edge. sg_GetTarget g edge = to \<and> ok (sg_GetEdgeData g edge))
      (\<lambda>edge. weight (sg_GetEdgeData g edge)) (sg_range g v) (SPECIAL_EDGEID, INVALID_EDGE_WEIGHT) = (s, sw)" by fastforce
  note ms = min_scan_spec [OF m]
  have f: "sg_FindSmallestEdge weight g v to ok = Some s" using True r m by (simp add: sg_FindSmallestEdge_def)
  have out: "set (sg_out g v) = (\<lambda>i. sg_edge_array g ! i) ` set (sg_range g v)" by (simp add: sg_out_def)
  have "if \<exists>x \<in> set (sg_out g v). ea_target x = to \<and> ok (ea_data x) \<and> weight (ea_data x) < INVALID_EDGE_WEIGHT
     then s \<in> set (sg_range g v) \<and> sg_GetTarget g s = to \<and> ok (sg_GetEdgeData g s) \<and>
       (\<forall>x \<in> set (sg_out g v). ea_target x = to \<longrightarrow> ok (ea_data x) \<longrightarrow> weight (sg_GetEdgeData g s) \<le> weight (ea_data x))
     else s = SPECIAL_EDGEID"
  proof (cases "\<exists>x \<in> set (sg_out g v). ea_target x = to \<and> ok (ea_data x) \<and> weight (ea_data x) < INVALID_EDGE_WEIGHT")
    case ex: True
    then obtain i where i: "i \<in> set (sg_range g v)" "sg_GetTarget g i = to" "ok (sg_GetEdgeData g i)"
      "weight (sg_GetEdgeData g i) < INVALID_EDGE_WEIGHT" by (auto simp: out sg_GetTarget_def sg_GetEdgeData_def)
    then have "sw \<noteq> INVALID_EDGE_WEIGHT" using ms(2) by force
    then have s: "s \<in> set (sg_range g v)" "sg_GetTarget g s = to" "ok (sg_GetEdgeData g s)" "sw = weight (sg_GetEdgeData g s)"
      "sw < INVALID_EDGE_WEIGHT" using ms(1) by auto
    have "weight (sg_GetEdgeData g s) \<le> weight (ea_data x)" if "x \<in> set (sg_out g v)" "ea_target x = to" "ok (ea_data x)" for x
      using that ms(2) s(4,5) by (fastforce simp: out sg_GetTarget_def sg_GetEdgeData_def)
    then show ?thesis using ex s by simp
  next
    case False
    have "(s, sw) = (SPECIAL_EDGEID, INVALID_EDGE_WEIGHT)"
      using ms(1) False by (auto simp: out sg_GetTarget_def sg_GetEdgeData_def)
    then show ?thesis unfolding if_not_P [OF False] by simp
  qed
  then show ?thesis using True r deg f sg_FindEdge_spec [OF inv True, of to] by simp
qed

lemma StaticGraph_queries_correct_witness:
  "sg_FindEdge (InitializeFromSortedEdgeRange 3 example_sg_edges) 3 1 = None \<and>
   (\<exists>e. sg_FindEdge (InitializeFromSortedEdgeRange 3 example_sg_edges) 1 0 = Some e \<and> e = SPECIAL_EDGEID)"
proof -
  have inv: "sg_inv (InitializeFromSortedEdgeRange 3 example_sg_edges)"
    and out: "sg_out (InitializeFromSortedEdgeRange 3 example_sg_edges) 1 = []"
    using StaticGraph_init_spec [of example_sg_edges 3]
    by (simp_all add: example_sg_edges_def SPECIAL_EDGEID_def)
  have n: "sg_number_of_nodes (InitializeFromSortedEdgeRange 3 example_sg_edges) = 3"
    by (simp add: InitializeFromSortedEdgeRange_def)
  show ?thesis
    using StaticGraph_queries_correct [OF inv, of 3 1 id "\<lambda>_. True"] StaticGraph_queries_correct [OF inv, of 1 0 id "\<lambda>_. True"]
    unfolding n out by auto
qed

section \<open>Renumbering\<close>

lemma sg_renumber_edges:
  assumes "distinct es" "set es \<subseteq> {..<length edges}" "length ote = length edges"
    and "fold (sg_renumber_edge p) es (edges, ote, idx) = (edges', ote', idx')"
  shows "idx' = idx + length es \<and> length edges' = length edges \<and> length ote' = length edges \<and>
    (\<forall>i. edges' ! i = (if i \<in> set es then (edges ! i)\<lparr>ea_target := p ! ea_target (edges ! i)\<rparr> else edges ! i)) \<and>
    (\<forall>k < length es. ote' ! (es ! k) = idx + k) \<and> (\<forall>i. i \<notin> set es \<longrightarrow> ote' ! i = ote ! i)"
  using assms
proof (induction es arbitrary: edges ote idx)
  case (Cons e es)
  let ?edges = "edges[e := (edges ! e)\<lparr>ea_target := p ! ea_target (edges ! e)\<rparr>]" and ?ote = "ote[e := idx]"
  have "fold (sg_renumber_edge p) es (?edges, ?ote, idx + 1) = (edges', ote', idx')"
    using Cons.prems(4) by (simp add: sg_renumber_edge_def [of p e])
  from Cons.IH [OF _ _ _ this] Cons.prems(1-3)
  have ih: "idx' = idx + 1 + length es" "length edges' = length edges" "length ote' = length edges"
    "\<forall>i. edges' ! i = (if i \<in> set es then (?edges ! i)\<lparr>ea_target := p ! ea_target (?edges ! i)\<rparr> else ?edges ! i)"
    "\<forall>k < length es. ote' ! (es ! k) = idx + 1 + k" "\<forall>i. i \<notin> set es \<longrightarrow> ote' ! i = ?ote ! i" by simp_all
  have e: "e < length edges" "e \<notin> set es" using Cons.prems(1,2) by simp_all
  have "edges' ! i = (if i \<in> set (e # es) then (edges ! i)\<lparr>ea_target := p ! ea_target (edges ! i)\<rparr> else edges ! i)" for i
    using ih(4) e by (cases "i = e") auto
  moreover have "ote' ! ((e # es) ! k) = idx + k" if "k < length (e # es)" for k
    using that ih(5,6) e Cons.prems(3) by (cases k) auto
  ultimately show ?case using ih by simp
qed simp

lemma sg_renumber_nodes_spec:
  assumes inv: "sg_inv g" and nodes: "\<forall>v \<in> set ns. nto ! v < sg_number_of_nodes g"
  shows "distinct ns \<Longrightarrow> set ns \<subseteq> {..<length na} \<Longrightarrow> snd (snd s) = idx \<Longrightarrow> \<exists>na'.
    sg_renumber_nodes g p nto ns na s = Some (na', fold (sg_renumber_edge p) (concat (map (\<lambda>v. sg_range g (nto ! v)) ns)) s) \<and>
    length na' = length na \<and> (\<forall>i. i \<notin> set ns \<longrightarrow> na' ! i = na ! i) \<and>
    (\<forall>k < length ns. na' ! (ns ! k) = idx + length (concat (map (\<lambda>v. sg_range g (nto ! v)) (take k ns))))"
  using nodes
proof (induction ns arbitrary: na s idx)
  case (Cons v ns)
  let ?r = "sg_range g (nto ! v)"
  have idx: "snd (snd (fold (sg_renumber_edge p) es s)) = idx + length es" for es
    using Cons.prems(3) by (induction es rule: rev_induct) (auto simp: sg_renumber_edge_def split: prod.splits)
  obtain na' where na': "sg_renumber_nodes g p nto ns (na[v := idx]) (fold (sg_renumber_edge p) ?r s) =
      Some (na', fold (sg_renumber_edge p) (concat (map (\<lambda>v. sg_range g (nto ! v)) ns)) (fold (sg_renumber_edge p) ?r s))"
    "length na' = length na" "\<forall>i. i \<notin> set ns \<longrightarrow> na' ! i = na[v := idx] ! i"
    "\<forall>k < length ns. na' ! (ns ! k) = idx + length ?r + length (concat (map (\<lambda>v. sg_range g (nto ! v)) (take k ns)))"
    using Cons.IH [of "na[v := idx]" "fold (sg_renumber_edge p) ?r s" "idx + length ?r"] Cons.prems idx by auto
  have step: "sg_renumber_nodes g p nto (v # ns) na s =
      Some (na', fold (sg_renumber_edge p) (concat (map (\<lambda>v. sg_range g (nto ! v)) (v # ns))) s)"
    using na'(1) Cons.prems(3,4) by (simp add: sg_edges_of [OF inv])
  have "na' ! ((v # ns) ! k) = idx + length (concat (map (\<lambda>v. sg_range g (nto ! v)) (take k (v # ns))))"
    if "k < length (v # ns)" for k
    using that na'(3,4) Cons.prems(1,2) by (cases k) auto
  moreover have "na' ! i = na ! i" if "i \<notin> set (v # ns)" for i using that na'(3) by simp
  ultimately show ?case using step na'(2) by blast
qed simp

lemma concat_take_slice:
  assumes "j < length xss"
  shows "slice (concat xss) (length (concat (take j xss))) (length (concat (take (Suc j) xss))) = xss ! j"
proof -
  have "xss = take j xss @ [xss ! j] @ drop (Suc j) xss" using id_take_nth_drop [OF assms] by simp
  then have "concat xss = concat (take j xss) @ xss ! j @ concat (drop (Suc j) xss)" by (metis concat.simps concat_append append_Nil2)
  then show ?thesis using assms by (simp add: take_Suc_conv_app_nth slice_middle)
qed

text \<open>The new order of the edges is a permutation.\<close>

lemma sg_order_perm:
  assumes inv: "sg_inv g" and vs: "is_perm vs (sg_number_of_nodes g)"
  shows "is_perm (concat (map (sg_range g) vs)) (length (sg_edge_array g))"
proof -
  let ?n = "sg_number_of_nodes g" and ?m = "length (sg_edge_array g)" and ?na = "sg_node_array g"
  have mono: "?na ! Suc i \<le> ?na ! j" if "i < j" "j < ?n" for i j
    using sg_invD(3) [OF inv, of "Suc i" j] that by simp
  have "set (sg_range g i) \<inter> set (sg_range g j) = {}" if "i < ?n" "j < ?n" "i < j" for i j
    using mono [of i j] that by (auto simp: sg_range_def)
  then have disj: "set (sg_range g i) \<inter> set (sg_range g j) = {}" if "i < ?n" "j < ?n" "i \<noteq> j" for i j
    using that linorder_neqE_nat [of i j] by (metis inf_commute)
  have "set (concat (map (sg_range g) vs)) = {..<?m}"
  proof -
    have "set (concat (map (sg_range g) [0..<v])) = {..<?na ! v}" if "v \<le> ?n" for v
      using that
    proof (induction v)
      case (Suc v)
      then show ?case using sg_invD(3) [OF inv, of v "Suc v"] by (auto simp: sg_range_def)
    qed (simp add: sg_invD(4) [OF inv])
    from this [of ?n] show ?thesis using is_perm_set [OF vs] sg_invD(5) [OF inv] by (simp add: atLeast0LessThan)
  qed
  moreover have "distinct (concat (map (sg_range g) us))" if "distinct us" "set us \<subseteq> {..<?n}" for us
    using that
  proof (induction us)
    case (Cons u us)
    have "set (sg_range g u) \<inter> set (concat (map (sg_range g) us)) = {}"
      using disj Cons.prems by fastforce
    then show ?case using Cons by (simp add: sg_range_def [of g u])
  qed simp
  then have "distinct (concat (map (sg_range g) vs))" using vs by (simp add: is_perm_def)
  ultimately show ?thesis using distinct_card [of "concat (map (sg_range g) vs)"] by (simp add: is_perm_def)
qed

lemma sg_Renumber_spec:
  assumes inv: "sg_inv g" and p: "is_perm p (sg_number_of_nodes g)"
  shows "\<exists>g'. sg_Renumber p g = Some g' \<and> sg_inv g' \<and> sg_number_of_nodes g' = sg_number_of_nodes g \<and>
    (\<forall>v < sg_number_of_nodes g. sg_out g' (p ! v) = map (\<lambda>e. e\<lparr>ea_target := p ! ea_target e\<rparr>) (sg_out g v))"
proof -
  let ?n = "sg_number_of_nodes g" and ?m = "length (sg_edge_array g)" and ?f = "\<lambda>e. e\<lparr>ea_target := p ! ea_target e\<rparr>"
  define nto where "nto = orderingToPermutation p"
  have plen: "length p = ?n" using p by (simp add: is_perm_def)
  note nth = orderingToPermutation_nth [OF p, folded nto_def]
  have perm: "is_perm nto ?n" using orderingToPermutation_perm [OF p] by (simp add: nto_def)
  define xss where "xss = map (sg_range g) nto"
  have order: "map (\<lambda>v. sg_range g (nto ! v)) [0..<?n] = xss" using nth(1) by (intro nth_equalityI) (simp_all add: xss_def)
  have xss: "length xss = ?n" by (simp add: xss_def nth(1))
  have ord: "is_perm (concat xss) ?m" unfolding xss_def by (rule sg_order_perm [OF inv perm])
  obtain edges ote idx where f: "fold (sg_renumber_edge p) (concat xss) (sg_edge_array g, replicate ?m SPECIAL_EDGEID, 0) = (edges, ote, idx)"
    by (metis prod_cases3)
  have "i \<in> set (concat xss)" if "i < ?m" for i
    using is_perm_set [OF ord] that by simp
  then have e: "idx = ?m" "length edges = ?m" "length ote = ?m" "\<And>i. i < ?m \<Longrightarrow> edges ! i = ?f (sg_edge_array g ! i)"
    "\<forall>k < ?m. ote ! (concat xss ! k) = k"
    using sg_renumber_edges [OF _ _ _ f] ord unfolding is_perm_def by simp_all
  have ote: "ote = orderingToPermutation (concat xss)" by (rule orderingToPermutation_unique [OF ord e(3,5)])
  have sub: "set [0..<?n] \<subseteq> {..<length (replicate (length (sg_node_array g)) (0 :: nat))}"
    using sg_invD(1) [OF inv] by auto
  obtain na where na: "sg_renumber_nodes g p nto [0..<?n] (replicate (length (sg_node_array g)) 0)
      (sg_edge_array g, replicate ?m SPECIAL_EDGEID, 0) = Some (na, edges, ote, idx)"
    "length na = ?n + 1" "\<forall>k < ?n. na ! k = length (concat (take k xss))"
    using sg_renumber_nodes_spec [OF inv _ distinct_upt sub, of nto
        "(sg_edge_array g, replicate ?m SPECIAL_EDGEID, 0)" 0 p] is_perm_less [OF perm] sg_invD(1) [OF inv] f
    by (auto simp: order [symmetric] take_map min_def)
  define g' where "g' = g\<lparr>sg_node_array := na[?n := ?m], sg_edge_array := map ((!) edges) (concat xss)\<rparr>"
  have "inplacePermutation ote edges = Some (map ((!) edges) (concat xss))"
    unfolding ote by (rule permute_ordering) (use ord e(2) in simp)
  then have r: "sg_Renumber p g = Some g'"
    using na(1,2) e(1) unfolding sg_Renumber_def g'_def nto_def orderingToPermutation_def plen by simp
  have all: "length (concat xss) = ?m" using ord by (simp add: is_perm_def)
  have na': "sg_node_array g' ! k = length (concat (take k xss))" if "k \<le> ?n" for k
    using na(2,3) that xss all by (cases "k = ?n") (simp_all add: g'_def)
  have "length (concat (take i xss)) \<le> length (concat (take j xss))" if "i \<le> j" for i j
    using that by (metis concat_append le_add1 length_append le_Suc_ex take_add)
  then have "sorted (sg_node_array g')" using na' na(2) by (auto simp: sorted_iff_nth_mono g'_def)
  then have inv': "sg_inv g'"
    using sg_invD [OF inv] na' [of 0] na' [of ?n] na(2) all xss by (simp add: sg_inv_def) (simp add: g'_def)
  moreover have "sg_out g' (p ! v) = map ?f (sg_out g v)" if v: "v < ?n" for v
  proof -
    have j: "p ! v < ?n" using is_perm_less [OF p v] .
    have "sg_out g' (p ! v) = slice (map ((!) edges) (concat xss)) (length (concat (take (p ! v) xss))) (length (concat (take (Suc (p ! v)) xss)))"
      unfolding sg_out_def sg_range_def using na' j by (simp add: slice_def) (simp add: g'_def)
    also have "\<dots> = map ((!) edges) (xss ! (p ! v))"
    proof -
      have "length (concat (take (Suc (p ! v)) xss)) \<le> length (concat xss)"
        by (metis append_take_drop_id concat_append le_add1 length_append)
      then have "slice (map ((!) edges) (concat xss)) (length (concat (take (p ! v) xss))) (length (concat (take (Suc (p ! v)) xss))) =
          map ((!) edges) (slice (concat xss) (length (concat (take (p ! v) xss))) (length (concat (take (Suc (p ! v)) xss))))"
        by (simp add: slice_def)
      then show ?thesis using concat_take_slice [of "p ! v" xss] j xss by simp
    qed
    also have "xss ! (p ! v) = sg_range g v" using j v nth by (simp add: xss_def)
    also have "map ((!) edges) (sg_range g v) = map ?f (sg_out g v)"
      using e(4) sg_range_less [OF inv v] by (simp add: sg_out_def)
    finally show ?thesis .
  qed
  moreover have "sg_number_of_nodes g' = ?n" by (simp add: g'_def)
  ultimately show ?thesis using r by blast
qed

text \<open>
  Property C25.  Renumbering a static graph with a permutation of its nodes returns; the result is
  well-formed and the edges of the node with the new number \<open>p ! v\<close> are those of \<open>v\<close>, in their
  order, with their targets renumbered.
\<close>

theorem StaticGraph_Renumber_correct:
  assumes "sg_inv g" "is_perm old_to_new_node (sg_number_of_nodes g)"
  shows "\<exists>g'. sg_Renumber old_to_new_node g = Some g' \<and> sg_inv g' \<and> sg_number_of_nodes g' = sg_number_of_nodes g \<and>
    (\<forall>v < sg_number_of_nodes g. sg_out g' (old_to_new_node ! v) =
       map (\<lambda>e. e\<lparr>ea_target := old_to_new_node ! ea_target e\<rparr>) (sg_out g v))"
  by (rule sg_Renumber_spec [OF assms])

lemma StaticGraph_Renumber_correct_witness:
  "\<exists>g'. sg_Renumber [2, 0, 1] (InitializeFromSortedEdgeRange 3 example_sg_edges) = Some g' \<and>
     sg_out g' 2 = [\<lparr>ea_target = 0, ea_data = 5\<rparr>, \<lparr>ea_target = 1, ea_data = 3\<rparr>]"
proof -
  let ?g = "InitializeFromSortedEdgeRange 3 example_sg_edges"
  have sp: "sg_inv ?g" "sg_out ?g 0 = [\<lparr>ea_target = 1, ea_data = 5\<rparr>, \<lparr>ea_target = 2, ea_data = 3\<rparr>]"
    using StaticGraph_init_spec [of example_sg_edges 3]
    by (simp_all add: example_sg_edges_def edgeToEntry_def SPECIAL_EDGEID_def)
  have n: "sg_number_of_nodes ?g = 3" by (simp add: InitializeFromSortedEdgeRange_def)
  have p: "is_perm [2, 0, 1] (sg_number_of_nodes ?g)" by (auto simp: is_perm_def n)
  obtain g' where g': "sg_Renumber [2, 0, 1] ?g = Some g'"
    "\<forall>v < 3. sg_out g' ([2, 0, 1] ! v) = map (\<lambda>e. e\<lparr>ea_target := [2, 0, 1] ! ea_target e\<rparr>) (sg_out ?g v)"
    using StaticGraph_Renumber_correct [OF sp(1) p] unfolding n by blast
  have "(0 :: nat) < 3" by simp
  with g'(2) have "sg_out g' ([2, 0, 1] ! 0) = map (\<lambda>e. e\<lparr>ea_target := [2, 0, 1] ! ea_target e\<rparr>) (sg_out ?g 0)" by blast
  then show ?thesis using g'(1) by (simp add: sp(2))
qed

end
