(* ===== verification/MultiLevelGraph.thy ===== *)
theory MultiLevelGraph
  imports StaticGraph MultiLevelPartition
begin

text \<open>
  The graph of the multi-level search, \<^verbatim>\<open>include/partitioner/multi_level_graph.hpp\<close>: a static
  graph whose edges are sorted by the highest level on which they cross cells, with the position
  per node and level where the edges that leave the cell begin.

  The argument \<open>psort\<close> stands for \<^verbatim>\<open>tbb::parallel_sort\<close>, which is not stable.
\<close>

section \<open>Definitions\<close>

record 'd MultiLevelGraph =
  mg_graph :: "'d StaticGraph"
  node_to_edge_offset :: "nat list"

definition GetHighestBorderLevel :: "MultiLevelPartition \<Rightarrow> 'd SortableEdgeWithData list \<Rightarrow> LevelID list" where
  "GetHighestBorderLevel mlp edges =
     map (\<lambda>edge. GetHighestDifferentLevel mlp (se_source edge) (se_target edge)) edges"

text \<open>\<^verbatim>\<open>operator<\<close> of the tuples of source, level and target.\<close>

definition border_less :: "LevelID list \<Rightarrow> 'd SortableEdgeWithData list \<Rightarrow> nat comparator" where
  "border_less levels edges lhs rhs \<longleftrightarrow>
     se_source (edges ! lhs) < se_source (edges ! rhs) \<or>
     se_source (edges ! lhs) = se_source (edges ! rhs) \<and>
       (levels ! lhs < levels ! rhs \<or> levels ! lhs = levels ! rhs \<and> se_target (edges ! lhs) < se_target (edges ! rhs))"

definition SortEdgesByHighestLevel ::
  "(nat comparator \<Rightarrow> nat list \<Rightarrow> nat list) \<Rightarrow> LevelID list \<Rightarrow> 'd SortableEdgeWithData list \<Rightarrow> nat list" where
  "SortEdgesByHighestLevel psort highest_border_level edges =
     psort (border_less highest_border_level edges) [0..<length edges]"

text \<open>\<^verbatim>\<open>std::find_if\<close> from a position.\<close>

definition find_if :: "('a \<Rightarrow> bool) \<Rightarrow> 'a list \<Rightarrow> nat \<Rightarrow> nat" where
  "find_if p xs iter = iter + length (takeWhile (\<lambda>x. \<not> p x) (drop iter xs))"

text \<open>The offsets are stored in eight bits.\<close>

fun offset_levels ::
  "('d SortableEdgeWithData \<times> LevelID) list \<Rightarrow> NodeID \<Rightarrow> nat \<Rightarrow> LevelID list \<Rightarrow> nat \<times> nat list \<Rightarrow> nat \<times> nat list" where
  "offset_levels els node level_begin [] (iter, offsets) = (iter, offsets)"
| "offset_levels els node level_begin (level # levels) (iter, offsets) =
     (let iter' = find_if (\<lambda>(edge, l). se_source edge \<noteq> node \<or> l \<noteq> level) els iter
      in offset_levels els node level_begin levels (iter', offsets @ [(iter' - level_begin) mod 256]))"

definition offset_node ::
  "nat \<Rightarrow> ('d SortableEdgeWithData \<times> LevelID) list \<Rightarrow> NodeID \<Rightarrow> nat \<times> nat list \<Rightarrow> nat \<times> nat list" where
  "offset_node num_levels els node = (\<lambda>(iter, offsets).
     let (iter', offsets') = offset_levels els node iter [0..<num_levels] (iter, offsets @ [0])
     in (iter', butlast offsets'))"

definition InitializeOffsetsFromSortedEdges ::
  "nat \<Rightarrow> NodeID \<Rightarrow> ('d SortableEdgeWithData \<times> LevelID) list \<Rightarrow> nat list" where
  "InitializeOffsetsFromSortedEdges num_levels max_border_node_id els =
     snd (fold (offset_node num_levels els) [0..<max_border_node_id + 1] (0, [])) @ [num_levels]"

definition max_border_node :: "LevelID list \<Rightarrow> 'd SortableEdgeWithData list \<Rightarrow> NodeID" where
  "max_border_node levels edges =
     fold (\<lambda>i m. if levels ! i > 0 then max m (max (se_source (edges ! i)) (se_target (edges ! i))) else m)
       [0..<length edges] 0"

definition MultiLevelGraph_init ::
  "(nat comparator \<Rightarrow> nat list \<Rightarrow> nat list) \<Rightarrow> MultiLevelPartition \<Rightarrow> nat \<Rightarrow> 'd SortableEdgeWithData list \<Rightarrow> 'd MultiLevelGraph" where
  "MultiLevelGraph_init psort mlp num_nodes edges =
     (let highest_border_level = GetHighestBorderLevel mlp edges;
          permutation = SortEdgesByHighestLevel psort highest_border_level edges
      in \<lparr>mg_graph = InitializeFromSortedEdgeRange num_nodes (map ((!) edges) permutation),
          node_to_edge_offset = InitializeOffsetsFromSortedEdges (GetNumberOfLevels mlp)
            (max_border_node highest_border_level edges)
            (map (\<lambda>i. (edges ! i, highest_border_level ! i)) permutation)\<rparr>)"

definition mg_GetNumberOfLevels :: "'d MultiLevelGraph \<Rightarrow> nat" where
  "mg_GetNumberOfLevels g = last (node_to_edge_offset g)"

text \<open>The index is a product of 32 bits.\<close>

definition BeginBorderEdges :: "'d MultiLevelGraph \<Rightarrow> LevelID \<Rightarrow> NodeID \<Rightarrow> EdgeID option" where
  "BeginBorderEdges g level node =
     (let index = (node * mg_GetNumberOfLevels g) mod 2 ^ 32
      in if index \<ge> length (node_to_edge_offset g) - 1
         then (if level = 0 then sg_BeginEdges (mg_graph g) node else sg_EndEdges (mg_graph g) node)
         else map_option (\<lambda>b. b + node_to_edge_offset g ! (index + level)) (sg_BeginEdges (mg_graph g) node))"

definition GetBorderEdgeRange :: "'d MultiLevelGraph \<Rightarrow> LevelID \<Rightarrow> NodeID \<Rightarrow> EdgeID list option" where
  "GetBorderEdgeRange g level node = do {
     b \<leftarrow> BeginBorderEdges g level node;
     e \<leftarrow> sg_EndEdges (mg_graph g) node;
     Some [b..<e]
   }"

definition GetInternalEdgeRange :: "'d MultiLevelGraph \<Rightarrow> LevelID \<Rightarrow> NodeID \<Rightarrow> EdgeID list option" where
  "GetInternalEdgeRange g level node = do {
     b \<leftarrow> sg_BeginEdges (mg_graph g) node;
     e \<leftarrow> BeginBorderEdges g level node;
     Some [b..<e]
   }"

definition GetMaxBorderNodeID :: "'d MultiLevelGraph \<Rightarrow> NodeID" where
  "GetMaxBorderNodeID g = (length (node_to_edge_offset g) - 1) div mg_GetNumberOfLevels g - 1"

section \<open>The order of the edges\<close>

lemma strict_weak_border: "strict_weak (border_less levels edges)"
  by (auto simp: strict_weak_def border_less_def)

text \<open>One number for source and level.\<close>

definition border_key :: "nat \<Rightarrow> 'd SortableEdgeWithData \<times> LevelID \<Rightarrow> nat" where
  "border_key L = (\<lambda>(e, h). se_source e * L + h)"

lemma border_key_less:
  "h < L \<Longrightarrow> border_key L (e, h) < v * L + l \<longleftrightarrow> se_source e < v \<or> se_source e = v \<and> h < l" if "l \<le> L"
proof (cases "se_source e = v")
  case False
  assume h: "h < L"
  consider "se_source e < v" | "v < se_source e" using False by linarith
  then show ?thesis
  proof cases
    case 1
    then have "Suc (se_source e) * L \<le> v * L" by (intro mult_le_mono1) simp
    then show ?thesis using 1 h by (simp add: border_key_def)
  next
    case 2
    then have "Suc v * L \<le> se_source e * L" by (intro mult_le_mono1) simp
    then show ?thesis using 2 that by (simp add: border_key_def)
  qed
qed (simp add: border_key_def)

lemma border_key_less0: "h < L \<Longrightarrow> border_key L (e, h) < v * L \<longleftrightarrow> se_source e < v"
  using border_key_less [of 0 L h e v] by simp

lemma border_key_eq: "h < L \<Longrightarrow> l < L \<Longrightarrow> border_key L (e, h) = v * L + l \<longleftrightarrow> se_source e = v \<and> h = l"
proof -
  assume h: "h < L" and l: "l < L"
  have "se_source e = v" if "se_source e * L + h = v * L + l"
    using arg_cong [OF that, of "\<lambda>x. x div L"] h l by simp
  then show ?thesis by (auto simp: border_key_def)
qed

lemma find_if_skip: "find_if (\<lambda>x. key x \<noteq> k) xs i = skip_key key xs k i"
proof (induction "length xs - i" arbitrary: i)
  case 0
  then show ?case by (subst skip_key.simps) (simp add: find_if_def)
next
  case (Suc d)
  have "find_if (\<lambda>x. key x \<noteq> k) xs (Suc i) = skip_key key xs k (Suc i)" using Suc by simp
  moreover have "drop i xs = xs ! i # drop (Suc i) xs" "i < length xs" using Suc by (simp_all add: Cons_nth_drop_Suc)
  ultimately show ?case by (subst skip_key.simps) (simp add: find_if_def)
qed

lemma find_if_cong: "(\<And>x. x \<in> set xs \<Longrightarrow> p x = q x) \<Longrightarrow> find_if p xs i = find_if q xs i"
  unfolding find_if_def by (intro arg_cong [where f = "\<lambda>ys. i + length ys"] takeWhile_cong refl) (auto dest: in_set_dropD)

text \<open>The edges sorted by source and level, and the number of those before a node and level.\<close>

definition border_sorted :: "nat \<Rightarrow> ('d SortableEdgeWithData \<times> LevelID) list \<Rightarrow> bool" where
  "border_sorted L els \<longleftrightarrow> sorted (map (border_key L) els) \<and> (\<forall>(e, h) \<in> set els. h < L)"

abbreviation before :: "nat \<Rightarrow> ('d SortableEdgeWithData \<times> LevelID) list \<Rightarrow> nat \<Rightarrow> nat" where
  "before L els k \<equiv> key_count (border_key L) els k"

lemma offset_levels_spec:
  assumes srt: "border_sorted L els" and b: "b \<le> L"
  shows "a \<le> b \<Longrightarrow> offset_levels els v s [a..<b] (before L els (v * L + a), offsets) =
    (before L els (v * L + b), offsets @ map (\<lambda>l. (before L els (v * L + Suc l) - s) mod 256) [a..<b])"
proof (induction "b - a" arbitrary: a offsets)
  case (Suc d)
  have "find_if (\<lambda>(edge, l). se_source edge \<noteq> v \<or> l \<noteq> a) els (before L els (v * L + a)) =
      find_if (\<lambda>x. border_key L x \<noteq> v * L + a) els (before L els (v * L + a))"
    using srt Suc.hyps(2) b by (intro find_if_cong) (auto simp: border_sorted_def border_key_eq)
  also have "\<dots> = before L els (v * L + Suc a)"
    using srt by (simp add: find_if_skip skip_key_count border_sorted_def key_count_mono)
  finally show ?case using Suc.hyps(1) [of "Suc a"] Suc.hyps(2) Suc.prems by (simp add: upt_conv_Cons Let_def)
qed simp

lemma offset_node_spec:
  assumes srt: "border_sorted L els" and L: "0 < L"
  shows "offset_node L els v (before L els (v * L), offsets) =
    (before L els (Suc v * L), offsets @ map (\<lambda>l. (before L els (v * L + l) - before L els (v * L)) mod 256) [0..<L])"
proof -
  let ?f = "\<lambda>l. (before L els (v * L + l) - before L els (v * L)) mod 256"
  have "map ?f [0..<Suc L] = ?f 0 # map (\<lambda>l. ?f (Suc l)) [0..<L]"
    by (subst upt_conv_Cons) (simp_all add: map_Suc_upt [symmetric] del: upt_Suc)
  then have "0 # map (\<lambda>l. ?f (Suc l)) [0..<L] = map ?f [0..<L] @ [?f L]" by simp
  then have "butlast (offsets @ 0 # map (\<lambda>l. ?f (Suc l)) [0..<L]) = offsets @ map ?f [0..<L]"
    by (metis append_assoc butlast_snoc)
  then show ?thesis
    using offset_levels_spec [OF srt order_refl, of 0 v "before L els (v * L)" "offsets @ [0]"]
    by (simp add: offset_node_def add.commute)
qed

lemma offsets_spec:
  assumes srt: "border_sorted L els" and L: "0 < L"
  shows "InitializeOffsetsFromSortedEdges L m els =
    map (\<lambda>i. (before L els i - before L els (i div L * L)) mod 256) [0..<Suc m * L] @ [L]"
proof -
  let ?f = "\<lambda>i. (before L els i - before L els (i div L * L)) mod 256"
  have "fold (offset_node L els) [0..<v] (0, []) = (before L els (v * L), map ?f [0..<v * L])" for v
  proof (induction v)
    case (Suc v)
    have "[0..<Suc v * L] = [0..<v * L] @ map (\<lambda>l. v * L + l) [0..<L]"
      using upt_add_eq_append [of 0 "v * L" L] map_add_upt [of "v * L" L] by (simp add: add.commute)
    then have "map ?f [0..<Suc v * L] = map ?f [0..<v * L] @ map (\<lambda>l. (before L els (v * L + l) - before L els (v * L)) mod 256) [0..<L]"
      using L by simp
    then show ?case using offset_node_spec [OF srt L, of v] Suc by simp
  qed simp
  then show ?thesis by (simp add: InitializeOffsetsFromSortedEdges_def del: upt_Suc)
qed

section \<open>The constructor\<close>

lemma max_border_node_ge:
  assumes "i < length edges" "0 < levels ! i"
  shows "se_source (edges ! i) \<le> max_border_node levels edges" "se_target (edges ! i) \<le> max_border_node levels edges"
proof -
  let ?f = "\<lambda>i m. if levels ! i > 0 then max m (max (se_source (edges ! i)) (se_target (edges ! i))) else m"
  have ge: "m \<le> fold ?f is m" for "is" m
  proof (induction "is" arbitrary: m)
    case (Cons j "is")
    have "m \<le> ?f j m" by simp
    then show ?case using Cons [of "?f j m"] by (simp only: fold_simps)
  qed simp
  have "max (se_source (edges ! i)) (se_target (edges ! i)) \<le> fold ?f is m" if "i \<in> set is" for "is" m
    using that
  proof (induction "is" arbitrary: m)
    case (Cons j "is")
    show ?case
    proof (cases "i = j")
      case True
      then have "max (se_source (edges ! i)) (se_target (edges ! i)) \<le> ?f j m" using assms(2) by simp
      then show ?thesis using ge [of "?f j m" "is"] by (simp only: fold_simps)
    next
      case False
      then have "i \<in> set is" using Cons.prems by simp
      then show ?thesis using Cons.IH by (simp only: fold_simps)
    qed
  qed simp
  then have "max (se_source (edges ! i)) (se_target (edges ! i)) \<le> max_border_node levels edges"
    using assms(1) by (simp add: max_border_node_def)
  then show "se_source (edges ! i) \<le> max_border_node levels edges" "se_target (edges ! i) \<le> max_border_node levels edges"
    by simp_all
qed

text \<open>What the constructor relies on: the sort, ids in range, the limit of 255 edges per node and
  an index of 32 bits.\<close>

definition mlg_input :: "MultiLevelPartition \<Rightarrow> nat \<Rightarrow> 'd SortableEdgeWithData list \<Rightarrow> bool" where
  "mlg_input mlp n edges \<longleftrightarrow>
     n + 1 < 2 ^ 32 \<and> length edges < SPECIAL_EDGEID \<and> 0 < GetNumberOfLevels mlp \<and> n * GetNumberOfLevels mlp < 2 ^ 32 \<and>
     (\<forall>e \<in> set edges. se_source e < n \<and> GetHighestDifferentLevel mlp (se_source e) (se_target e) < GetNumberOfLevels mlp) \<and>
     (\<forall>v < n. length (filter (\<lambda>e. se_source e = v) edges) < 256)"

lemma key_count_cong:
  "(\<And>x. x \<in> set xs \<Longrightarrow> key x < k \<longleftrightarrow> key' x < k') \<Longrightarrow> key_count key xs k = key_count key' xs k'"
  unfolding key_count_def by (intro arg_cong [where f = length] takeWhile_cong) auto

lemma MultiLevelGraph_sorted:
  assumes ok: "sort_ok psort" and inp: "mlg_input mlp n edges"
  defines "L \<equiv> GetNumberOfLevels mlp" and "levels \<equiv> GetHighestBorderLevel mlp edges"
  defines "perm \<equiv> SortEdgesByHighestLevel psort levels edges"
  defines "els \<equiv> map (\<lambda>i. (edges ! i, levels ! i)) perm"
  shows "mset (map fst els) = mset edges" "border_sorted L els" "sorted (map se_source (map fst els))"
    and "(e, h) \<in> set els \<Longrightarrow> h = GetHighestDifferentLevel mlp (se_source e) (se_target e) \<and> se_source e < n"
    and "(e, h) \<in> set els \<Longrightarrow> 0 < h \<Longrightarrow> se_source e \<le> max_border_node levels edges"
proof -
  have p: "mset perm = mset [0..<length edges]" "sorted_wrt (\<lambda>a b. \<not> border_less levels edges b a) perm"
    using ok strict_weak_border [of levels edges] unfolding sort_ok_def perm_def SortEdgesByHighestLevel_def by blast+
  have set: "set perm = {0..<length edges}" using arg_cong [OF p(1), of set_mset] by simp
  have "mset (map fst els) = image_mset ((!) edges) (mset perm)" by (simp add: els_def comp_def)
  also have "\<dots> = mset (map ((!) edges) [0..<length edges])" unfolding p(1) by simp
  finally show "mset (map fst els) = mset edges" by (simp only: map_nth)
  have lev: "levels ! i = GetHighestDifferentLevel mlp (se_source (edges ! i)) (se_target (edges ! i))" if "i < length edges" for i
    using that by (simp add: levels_def GetHighestBorderLevel_def)
  then have in_els: "h = GetHighestDifferentLevel mlp (se_source e) (se_target e) \<and> e \<in> set edges" if "(e, h) \<in> set els" for e h
    using that set by (auto simp: els_def)
  then show "(e, h) \<in> set els \<Longrightarrow> h = GetHighestDifferentLevel mlp (se_source e) (se_target e) \<and> se_source e < n"
    using inp by (auto simp: mlg_input_def)
  have less: "\<forall>(e, h) \<in> set els. h < L" using in_els inp by (fastforce simp: mlg_input_def L_def)
  show "(e, h) \<in> set els \<Longrightarrow> 0 < h \<Longrightarrow> se_source e \<le> max_border_node levels edges"
    using set max_border_node_ge [of _ edges levels] by (auto simp: els_def)
  have "sorted (map se_source (map fst els))"
    unfolding els_def sorted_map sorted_wrt_map map_map
    by (rule sorted_wrt_mono_rel [OF _ p(2)]) (auto simp: border_less_def)
  then show "sorted (map se_source (map fst els))" .
  have "sorted (map (border_key L) els)"
    unfolding els_def sorted_wrt_map sorted_map
  proof (rule sorted_wrt_mono_rel [OF _ p(2)])
    fix i j assume ij: "i \<in> set perm" "j \<in> set perm" and nl: "\<not> border_less levels edges j i"
    have "levels ! i < L" "levels ! j < L" using less ij by (auto simp: els_def)
    then show "border_key L (edges ! i, levels ! i) \<le> border_key L (edges ! j, levels ! j)"
      using nl border_key_less [of "levels ! i" L "levels ! j" "edges ! j" "se_source (edges ! i)"]
      by (auto simp: border_less_def border_key_def not_less)
  qed
  then show "border_sorted L els" using less by (simp add: border_sorted_def)
qed

lemma BeginBorderEdges_spec:
  assumes ok: "sort_ok psort" and inp: "mlg_input mlp n edges"
    and v: "v < n" and l: "l < GetNumberOfLevels mlp"
  defines "L \<equiv> GetNumberOfLevels mlp" and "g \<equiv> MultiLevelGraph_init psort mlp n edges"
  defines "levels \<equiv> GetHighestBorderLevel mlp edges"
  defines "els \<equiv> map (\<lambda>i. (edges ! i, levels ! i)) (SortEdgesByHighestLevel psort levels edges)"
  shows "sg_inv (mg_graph g)" "sg_range (mg_graph g) v = [before L els (v * L)..<before L els (Suc v * L)]"
    and "sg_number_of_nodes (mg_graph g) = n" "sg_edge_array (mg_graph g) = map edgeToEntry (map fst els)"
    and "BeginBorderEdges g l v = Some (before L els (v * L + l))"
    and "sg_BeginEdges (mg_graph g) v = Some (before L els (v * L))" "sg_EndEdges (mg_graph g) v = Some (before L els (Suc v * L))"
    and "mset (sg_out (mg_graph g) v) = mset (map edgeToEntry (filter (\<lambda>e. se_source e = v) edges))"
proof -
  note srt = MultiLevelGraph_sorted [OF ok inp, folded levels_def, folded els_def L_def]
  have L: "0 < L" "n + 1 < 2 ^ 32" "length edges < SPECIAL_EDGEID" "n * L < 2 ^ 32"
    using inp by (simp_all add: mlg_input_def L_def)
  have less: "\<forall>(e, h) \<in> set els. h < L" using srt(2) by (simp add: border_sorted_def)
  have g: "mg_graph g = InitializeFromSortedEdgeRange n (map fst els)"
    by (simp add: g_def MultiLevelGraph_init_def Let_def els_def levels_def comp_def)
  then show "sg_number_of_nodes (mg_graph g) = n" "sg_edge_array (mg_graph g) = map edgeToEntry (map fst els)"
    by (simp_all add: InitializeFromSortedEdgeRange_def)
  have src: "\<forall>e \<in> set (map fst els). se_source e < n" using srt(4) by fastforce
  have len: "length (map fst els) < SPECIAL_EDGEID" using L(3) mset_eq_length [OF srt(1)] by simp
  have init: "sg_inv (mg_graph g)" "i \<le> n \<Longrightarrow> sg_node_array (mg_graph g) ! i = key_count se_source (map fst els) i" for i
    unfolding g using StaticGraph_init_spec(1,2) [OF srt(3) src L(2) len] by blast+
  then show "sg_inv (mg_graph g)" by simp
  have nodes: "sg_node_array (mg_graph g) ! i = before L els (i * L)" if "i \<le> n" for i
  proof -
    have "key_count se_source (map fst els) i = key_count (\<lambda>x. se_source (fst x)) els i"
      by (simp add: key_count_def takeWhile_map comp_def)
    also have "\<dots> = before L els (i * L)"
      using less by (intro key_count_cong) (auto simp: border_key_less0)
    finally show ?thesis using init(2) that by simp
  qed
  show range: "sg_range (mg_graph g) v = [before L els (v * L)..<before L els (Suc v * L)]"
    using nodes [of v] nodes [of "Suc v"] v by (simp add: sg_range_def)
  show be: "sg_BeginEdges (mg_graph g) v = Some (before L els (v * L))" "sg_EndEdges (mg_graph g) v = Some (before L els (Suc v * L))"
    using sg_invD(1) [OF init(1)] \<open>sg_number_of_nodes (mg_graph g) = n\<close> v L(2) nodes [of v] nodes [of "Suc v"]
    by (simp_all add: sg_BeginEdges_def sg_EndEdges_def vector_at_def)
  have out: "sg_out (mg_graph g) v = map edgeToEntry (filter (\<lambda>e. se_source e = v) (map fst els))"
    unfolding g using StaticGraph_init_spec(3) [OF srt(3) src L(2) len v] .
  have deg: "mset (filter (\<lambda>e. se_source e = v) (map fst els)) = mset (filter (\<lambda>e. se_source e = v) edges)"
    using srt(1) by (metis mset_filter)
  show "mset (sg_out (mg_graph g) v) = mset (map edgeToEntry (filter (\<lambda>e. se_source e = v) edges))"
    unfolding out mset_map deg ..
  let ?m = "max_border_node levels edges"
  have off: "node_to_edge_offset g = map (\<lambda>i. (before L els i - before L els (i div L * L)) mod 256) [0..<Suc ?m * L] @ [L]"
    using offsets_spec [OF srt(2) L(1), of ?m] by (simp add: g_def MultiLevelGraph_init_def Let_def els_def levels_def L_def del: upt_Suc mult_Suc)
  have "v * L \<le> n * L" using v by (intro mult_le_mono1) simp
  then have "v * L < 2 ^ 32" using L(4) by (rule le_less_trans)
  then have index: "(v * mg_GetNumberOfLevels g) mod 2 ^ 32 = v * L" by (simp add: mg_GetNumberOfLevels_def off)
  have size: "length (node_to_edge_offset g) - 1 = Suc ?m * L" by (simp add: off del: upt_Suc mult_Suc)
  have mono: "before L els (v * L) \<le> before L els (v * L + l)" "before L els (v * L + l) \<le> before L els (Suc v * L)"
    using l by (simp_all add: key_count_mono L_def)
  show "BeginBorderEdges g l v = Some (before L els (v * L + l))"
  proof (cases "v \<le> ?m")
    case True
    then have "v * L \<le> ?m * L" by (intro mult_le_mono1)
    moreover have "l < L" using l by (simp add: L_def)
    ultimately have "v * L + l < Suc ?m * L" "v * L < Suc ?m * L" unfolding mult_Suc by linarith+
    then have "node_to_edge_offset g ! (v * L + l) = (before L els (v * L + l) - before L els (v * L)) mod 256"
      using l by (simp add: off nth_append L_def del: upt_Suc mult_Suc)
    also have "\<dots> = before L els (v * L + l) - before L els (v * L)"
    proof -
      have "before L els (Suc v * L) - before L els (v * L) = length (sg_out (mg_graph g) v)" by (simp add: sg_out_def range)
      also have "\<dots> = length (filter (\<lambda>e. se_source e = v) edges)" unfolding out length_map mset_eq_length [OF deg] ..
      finally have "before L els (v * L + l) - before L els (v * L) \<le> length (filter (\<lambda>e. se_source e = v) edges)"
        using mono by linarith
      also have "\<dots> < 256" using inp v by (simp add: mlg_input_def)
      finally have "before L els (v * L + l) - before L els (v * L) < 256" .
      then show ?thesis by simp
    qed
    finally show ?thesis
      using \<open>v * L < Suc ?m * L\<close> mono(1) be(1) unfolding BeginBorderEdges_def Let_def index size by (simp del: mult_Suc)
  next
    case False
    then have "Suc ?m * L \<le> v * L" by (intro mult_le_mono1) simp
    then have out: "BeginBorderEdges g l v = (if l = 0 then sg_BeginEdges (mg_graph g) v else sg_EndEdges (mg_graph g) v)"
      unfolding BeginBorderEdges_def Let_def index size by (simp del: mult_Suc)
    have "before L els (v * L + l) = before L els (Suc v * L)" if "0 < l"
    proof (rule key_count_cong)
      fix x assume x: "x \<in> set els"
      obtain e h where eh: "x = (e, h)" by (cases x)
      have h: "h < L" "se_source e = v \<Longrightarrow> h = 0" using less x srt(5) [of e h] False eh by auto
      have "border_key L x < Suc v * L \<longleftrightarrow> se_source e \<le> v" unfolding eh border_key_less0 [OF h(1)] by (rule less_Suc_eq_le)
      moreover have "border_key L x < v * L + l \<longleftrightarrow> se_source e < v \<or> se_source e = v \<and> h < l"
        unfolding eh using h(1) l by (intro border_key_less) (simp add: L_def)
      ultimately show "border_key L x < v * L + l \<longleftrightarrow> border_key L x < Suc v * L" using h(2) that by auto
    qed
    then show ?thesis using be by (simp add: out)
  qed
qed

lemma MultiLevelGraph_ranges_spec:
  assumes ok: "sort_ok psort" and inp: "mlg_input mlp n edges"
    and v: "v < n" and l: "l < GetNumberOfLevels mlp"
  defines "g \<equiv> MultiLevelGraph_init psort mlp n edges"
  shows "sg_inv (mg_graph g) \<and> sg_number_of_nodes (mg_graph g) = n \<and>
    mset (sg_out (mg_graph g) v) = mset (map edgeToEntry (filter (\<lambda>e. se_source e = v) edges)) \<and>
    (\<exists>inner outer. GetInternalEdgeRange g l v = Some inner \<and> GetBorderEdgeRange g l v = Some outer \<and>
       inner @ outer = sg_range (mg_graph g) v \<and>
       (\<forall>i \<in> set inner. GetHighestDifferentLevel mlp v (sg_GetTarget (mg_graph g) i) < l) \<and>
       (\<forall>i \<in> set outer. l \<le> GetHighestDifferentLevel mlp v (sg_GetTarget (mg_graph g) i)))"
proof -
  define L where "L = GetNumberOfLevels mlp"
  define levels where "levels = GetHighestBorderLevel mlp edges"
  define els where "els = map (\<lambda>i. (edges ! i, levels ! i)) (SortEdgesByHighestLevel psort levels edges)"
  note srt = MultiLevelGraph_sorted [OF ok inp, folded levels_def, folded els_def L_def]
  note b = BeginBorderEdges_spec [OF ok inp v l, folded levels_def, folded els_def L_def g_def]
  let ?b = "before L els (v * L)" and ?c = "before L els (v * L + l)" and ?e = "before L els (Suc v * L)"
  have le: "?b \<le> ?c" "?c \<le> ?e" using l by (simp_all add: key_count_mono L_def)
  have ranges: "GetInternalEdgeRange g l v = Some [?b..<?c]" "GetBorderEdgeRange g l v = Some [?c..<?e]"
    by (simp_all add: GetInternalEdgeRange_def GetBorderEdgeRange_def b)
  have lev: "(i < ?c \<longleftrightarrow> GetHighestDifferentLevel mlp v (sg_GetTarget (mg_graph g) i) < l)" if i: "i \<in> {?b..<?e}" for i
  proof -
    have il: "i < length els" using i key_count_le [of "border_key L" els "Suc v * L"] by simp
    obtain e h where eh: "els ! i = (e, h)" by (cases "els ! i")
    then have in_els: "(e, h) \<in> set els" using il by (metis nth_mem)
    then have h: "h < L" "h = GetHighestDifferentLevel mlp (se_source e) (se_target e)"
      using srt(2,4) by (auto simp: border_sorted_def)
    have iff: "i < before L els k \<longleftrightarrow> border_key L (e, h) < k" for k
      using key_count_iff [of "border_key L" els i k] srt(2) il eh by (simp add: border_sorted_def)
    have "se_source e = v"
      using i iff [of "v * L"] iff [of "Suc v * L"] border_key_less0 [OF h(1), of e v] border_key_less0 [OF h(1), of e "Suc v"]
      by simp
    moreover have "sg_GetTarget (mg_graph g) i = se_target e"
      using il eh by (simp add: sg_GetTarget_def b(4) edgeToEntry_def)
    ultimately show ?thesis
      using iff [of "v * L + l"] border_key_less [OF _ h(1), of l e v] l h(2) by (simp add: L_def)
  qed
  have "[?b..<?c] @ [?c..<?e] = sg_range (mg_graph g) v" unfolding b(2) using le upt_add_eq_append [of ?b ?c "?e - ?c"] by simp
  moreover have "GetHighestDifferentLevel mlp v (sg_GetTarget (mg_graph g) i) < l" if "i \<in> set [?b..<?c]" for i
  proof -
    have "?b \<le> i" "i < ?c" using that by simp_all
    then show ?thesis using lev [of i] le(2) by simp
  qed
  moreover have "l \<le> GetHighestDifferentLevel mlp v (sg_GetTarget (mg_graph g) i)" if "i \<in> set [?c..<?e]" for i
  proof -
    have "?c \<le> i" "i < ?e" using that by simp_all
    then show ?thesis using lev [of i] le(1) by simp
  qed
  ultimately show ?thesis using b(1,3,8) ranges by blast
qed

text \<open>
  Property C19.  Edge ranges of the multi-level graph.  The constructor keeps the edges of every
  node; for every level, the internal and the border edges of a node are together its edges,
  the internal ones those whose ends differ on lower levels only, the border ones those whose
  ends differ on that level or above; on level 0 every edge is a border edge.
\<close>

theorem MultiLevelGraph_ranges:
  assumes ok: "sort_ok psort" and inp: "mlg_input mlp n edges"
    and v: "v < n" and l: "l < GetNumberOfLevels mlp"
  defines "g \<equiv> MultiLevelGraph_init psort mlp n edges"
  shows "sg_inv (mg_graph g) \<and> sg_number_of_nodes (mg_graph g) = n \<and>
    mset (sg_out (mg_graph g) v) = mset (map edgeToEntry (filter (\<lambda>e. se_source e = v) edges)) \<and>
    (\<exists>inner outer. GetInternalEdgeRange g l v = Some inner \<and> GetBorderEdgeRange g l v = Some outer \<and>
       inner @ outer = sg_range (mg_graph g) v \<and>
       (\<forall>i \<in> set inner. GetHighestDifferentLevel mlp v (sg_GetTarget (mg_graph g) i) < l) \<and>
       (\<forall>i \<in> set outer. l \<le> GetHighestDifferentLevel mlp v (sg_GetTarget (mg_graph g) i)))"
  unfolding g_def by (rule MultiLevelGraph_ranges_spec [OF ok inp v l])

definition example_mlp :: MultiLevelPartition where
  "example_mlp = \<lparr>level_data = example_level_data, partition = [0, 1], cell_to_children = []\<rparr>"

definition example_mlg_edges :: "int SortableEdgeWithData list" where
  "example_mlg_edges = [\<lparr>se_source = 0, se_target = 1, se_data = 5\<rparr>, \<lparr>se_source = 1, se_target = 0, se_data = 5\<rparr>]"

lemma example_mlp_levels:
  "GetNumberOfLevels example_mlp = 3" "GetHighestDifferentLevel example_mlp 0 1 = 1" "GetHighestDifferentLevel example_mlp 1 0 = 1"
proof -
  have "util_msb (1 :: 64 word) = 0" by (simp add: util_msb_def floorlog_def)
  moreover have "num_level example_level_data = 3" "bit_to_level example_level_data ! 0 = 1"
    using example_layout(1) by (simp_all add: layout_ok_def bits_before_def level_bits_example)
  ultimately show "GetNumberOfLevels example_mlp = 3" "GetHighestDifferentLevel example_mlp 0 1 = 1" "GetHighestDifferentLevel example_mlp 1 0 = 1"
    by (simp_all add: example_mlp_def GetNumberOfLevels_def GetHighestDifferentLevel_def)
qed

lemma MultiLevelGraph_ranges_witness:
  "\<exists>inner. GetInternalEdgeRange (MultiLevelGraph_init insertion_sort example_mlp 2 example_mlg_edges) 2 0 = Some inner \<and>
     length inner = 1"
proof -
  let ?g = "MultiLevelGraph_init insertion_sort example_mlp 2 example_mlg_edges"
  have inp: "mlg_input example_mlp 2 example_mlg_edges"
    using example_mlp_levels by (simp add: mlg_input_def example_mlg_edges_def SPECIAL_EDGEID_def)
  have l: "(0 :: nat) < 2" "2 < GetNumberOfLevels example_mlp" by (simp_all add: example_mlp_levels)
  from MultiLevelGraph_ranges [OF insertion_sort_ok inp l] obtain inner outer where
    r: "mset (sg_out (mg_graph ?g) 0) = mset (map edgeToEntry (filter (\<lambda>e. se_source e = 0) example_mlg_edges))"
      "GetInternalEdgeRange ?g 2 0 = Some inner" "inner @ outer = sg_range (mg_graph ?g) 0"
      "\<forall>i \<in> set outer. 2 \<le> GetHighestDifferentLevel example_mlp 0 (sg_GetTarget (mg_graph ?g) i)" by blast
  have out: "sg_out (mg_graph ?g) 0 = [\<lparr>ea_target = 1, ea_data = 5\<rparr>]"
    using r(1) by (simp add: example_mlg_edges_def edgeToEntry_def)
  have "outer = []"
  proof (cases outer)
    case (Cons i rest)
    then have "i \<in> set (sg_range (mg_graph ?g) 0)" unfolding r(3) [symmetric] by simp
    then have "sg_edge_array (mg_graph ?g) ! i \<in> set (sg_out (mg_graph ?g) 0)" by (simp add: sg_out_def)
    then show ?thesis using r(4) Cons example_mlp_levels(2) by (simp add: out sg_GetTarget_def)
  qed simp
  moreover have "length (sg_range (mg_graph ?g) 0) = 1" using arg_cong [OF out, of length] by (simp add: sg_out_def)
  ultimately show ?thesis using r(2,3) by auto
qed

end
