(* ===== verification/EdgeBasedEdge.thy ===== *)
theory EdgeBasedEdge
  imports OSRM_Prelude "HOL-Library.Product_Lexorder"
begin

text \<open>
  The edge of the edge-based graph, \<^verbatim>\<open>include/extractor/edge_based_edge.hpp\<close>: its data and its
  order.
\<close>

record EdgeData =
  ed_turn_id :: NodeID
  ed_weight :: EdgeWeight
  ed_distance :: EdgeDistance
  ed_duration :: EdgeDuration
  ed_forward :: bool
  ed_backward :: bool

definition is_unidirectional :: "EdgeData \<Rightarrow> bool" where
  "is_unidirectional data \<longleftrightarrow> \<not> ed_forward data \<or> \<not> ed_backward data"

record EdgeBasedEdge =
  eb_source :: NodeID
  eb_target :: NodeID
  eb_data :: EdgeData

definition edge_less :: "EdgeBasedEdge comparator" where
  "edge_less l r \<longleftrightarrow>
     (eb_source l, eb_target l, ed_weight (eb_data l), is_unidirectional (eb_data l)) <
     (eb_source r, eb_target r, ed_weight (eb_data r), is_unidirectional (eb_data r))"

lemma strict_weak_edge_less: "strict_weak edge_less"
  using strict_weak_key [of "\<lambda>e. (eb_source e, eb_target e, ed_weight (eb_data e), is_unidirectional (eb_data e))"]
  by (simp only: edge_less_def [abs_def])

end
