(* ===== verification/LabelSearch.thy ===== *)
theory LabelSearch
  imports OSRM_Prelude "HOL-Library.Product_Lexorder"
begin

text \<open>
  A search that settles the labels of nodes in the order of their weights, over two kinds of arcs,
  as the customisation of \<^verbatim>\<open>include/customizer/cell_customizer.hpp\<close> does it: border arcs, and
  clique arcs, which a node that was itself reached over a clique arc does not relax again.  The
  label of a node is the triple of weight, duration and distance, ordered lexicographically, with
  the kind of the last arc and whether the node is settled.
\<close>

section \<open>Costs\<close>

text \<open>Costs are kept whole: quantifiers over them are not split into three.\<close>

declare split_paired_All [simp del] split_paired_Ex [simp del]

type_synonym Cost = "EdgeWeight \<times> EdgeDuration \<times> EdgeDistance"

definition cost_add :: "Cost \<Rightarrow> Cost \<Rightarrow> Cost" where
  "cost_add a b = (fst a + fst b, fst (snd a) + fst (snd b), snd (snd a) + snd (snd b))"

definition cost_zero :: Cost where
  "cost_zero = (0, 0, 0)"

lemma cost_add_assoc: "cost_add (cost_add a b) c = cost_add a (cost_add b c)"
  by (simp add: cost_add_def)

lemma cost_add_zero [simp]: "cost_add a cost_zero = a" "cost_add cost_zero a = a"
  by (simp_all add: cost_add_def cost_zero_def)

lemma fst_cost_add [simp]: "fst (cost_add a b) = fst a + fst b"
  by (simp add: cost_add_def)

lemma cost_add_mono1: "a \<le> b \<Longrightarrow> cost_add a c \<le> cost_add b c"
  by (auto simp: cost_add_def less_eq_prod_def)

lemma cost_add_mono2: "b \<le> c \<Longrightarrow> cost_add a b \<le> cost_add a c"
  by (auto simp: cost_add_def less_eq_prod_def)

lemma cost_leI: "fst a < fst b \<Longrightarrow> a \<le> b" for a b :: Cost
  by (auto simp: less_eq_prod_def)

lemma cost_fst_mono: "a \<le> b \<Longrightarrow> fst a \<le> fst b" for a b :: Cost
  by (auto simp: less_eq_prod_def)

section \<open>Labels\<close>

type_synonym labels = "NodeID \<rightharpoonup> Cost \<times> bool \<times> bool"

definition relax_label :: "bool \<Rightarrow> NodeID \<times> Cost \<Rightarrow> labels \<Rightarrow> labels" where
  "relax_label clique = (\<lambda>(v, c) m. m(v \<mapsto> (case m v of None \<Rightarrow> (c, clique, False)
     | Some (c0, f, r) \<Rightarrow> if c < c0 then (c, clique, r) else (c0, f, r))))"

definition relax_all :: "bool \<Rightarrow> Cost \<Rightarrow> (NodeID \<times> Cost) list \<Rightarrow> labels \<Rightarrow> labels" where
  "relax_all clique c arcs = fold (\<lambda>(v, a). relax_label clique (v, cost_add c a)) arcs"

text \<open>Settling a node and relaxing its arcs.\<close>

definition settle :: "(NodeID \<Rightarrow> (NodeID \<times> Cost) list) \<Rightarrow> (NodeID \<Rightarrow> (NodeID \<times> Cost) list) \<Rightarrow>
    NodeID \<Rightarrow> Cost \<Rightarrow> bool \<Rightarrow> labels \<Rightarrow> labels" where
  "settle B C n c f m =
     (let m1 = m(n \<mapsto> (c, f, True));
          m2 = (if f then m1 else relax_all True c (C n) m1)
      in relax_all False c (B n) m2)"

inductive walk :: "(NodeID \<Rightarrow> (NodeID \<times> Cost) list) \<Rightarrow> (NodeID \<Rightarrow> (NodeID \<times> Cost) list) \<Rightarrow> NodeID \<Rightarrow> NodeID \<Rightarrow> Cost \<Rightarrow> bool"
  for B C s where
  walk_start: "walk B C s s cost_zero"
| walk_arc: "walk B C s u c \<Longrightarrow> (v, a) \<in> set (B u) \<union> set (C u) \<Longrightarrow> walk B C s v (cost_add c a)"

text \<open>What the search relies on: the arcs of the nodes in \<open>A\<close> stay in \<open>A\<close>, have positive weight
  up to trivial clique arcs, and clique arcs satisfy the triangle inequality.\<close>

definition arcs_ok :: "(NodeID \<Rightarrow> (NodeID \<times> Cost) list) \<Rightarrow> (NodeID \<Rightarrow> (NodeID \<times> Cost) list) \<Rightarrow> NodeID set \<Rightarrow> bool" where
  "arcs_ok B C A \<longleftrightarrow> (\<forall>u \<in> A.
     (\<forall>(v, a) \<in> set (B u). v \<in> A \<and> 0 < fst a) \<and>
     (\<forall>(v, a) \<in> set (C u). v \<in> A \<and> (0 < fst a \<or> v = u \<and> a = cost_zero)) \<and>
     (\<forall>(v, a) \<in> set (C u). \<forall>(w, b) \<in> set (C v). \<exists>d. (w, d) \<in> set (C u) \<and> d \<le> cost_add a b))"

lemma arcs_okD:
  assumes "arcs_ok B C A" "u \<in> A"
  shows "(v, a) \<in> set (B u) \<Longrightarrow> v \<in> A" "(v, a) \<in> set (B u) \<Longrightarrow> 0 < fst a"
    and "(v, a) \<in> set (C u) \<Longrightarrow> v \<in> A" "(v, a) \<in> set (C u) \<Longrightarrow> 0 < fst a \<or> v = u \<and> a = cost_zero"
    and "(v, a) \<in> set (C u) \<Longrightarrow> (w, b) \<in> set (C v) \<Longrightarrow> \<exists>d. (w, d) \<in> set (C u) \<and> d \<le> cost_add a b"
  using assms unfolding arcs_ok_def by fast+

lemma walk_in: "walk B C s v c \<Longrightarrow> arcs_ok B C A \<Longrightarrow> s \<in> A \<Longrightarrow> v \<in> A"
  by (induction rule: walk.induct) (auto dest: arcs_okD(1,3))

section \<open>Relaxing\<close>

definition settled :: "labels \<Rightarrow> NodeID \<Rightarrow> bool" where
  "settled m v \<longleftrightarrow> (\<exists>c f. m v = Some (c, f, True))"

text \<open>Labels that are costs of walks, exact for settled nodes.\<close>

definition sound :: "(NodeID \<Rightarrow> Cost \<Rightarrow> bool) \<Rightarrow> labels \<Rightarrow> bool" where
  "sound W m \<longleftrightarrow> (\<forall>v c f r. m v = Some (c, f, r) \<longrightarrow> W v c \<and> (r \<longrightarrow> (\<forall>d. W v d \<longrightarrow> c \<le> d)))"

lemma soundD:
  "sound W m \<Longrightarrow> m v = Some (c, f, r) \<Longrightarrow> W v c"
  "sound W m \<Longrightarrow> m v = Some (c, f, True) \<Longrightarrow> W v d \<Longrightarrow> c \<le> d"
  unfolding sound_def by blast+

definition label_le :: "labels \<Rightarrow> NodeID \<Rightarrow> Cost \<Rightarrow> bool" where
  "label_le m v d \<longleftrightarrow> (\<exists>c f r. m v = Some (c, f, r) \<and> c \<le> d)"

definition improves :: "labels \<Rightarrow> labels \<Rightarrow> bool" where
  "improves m m' \<longleftrightarrow> (\<forall>v. settled m v \<or> settled m' v \<longrightarrow> m' v = m v) \<and> (\<forall>v d. label_le m v d \<longrightarrow> label_le m' v d)"

lemma improves_refl: "improves m m"
  by (simp add: improves_def)

lemma improves_trans: "improves m m' \<Longrightarrow> improves m' m'' \<Longrightarrow> improves m m''"
  unfolding improves_def settled_def by metis

lemma label_le_trans: "label_le m v c \<Longrightarrow> c \<le> d \<Longrightarrow> label_le m v d"
  unfolding label_le_def by (meson order_trans)

lemma relax_label_laws:
  fixes k :: bool
  assumes s: "sound W m" and w: "W v c"
  defines "m' \<equiv> relax_label k (v, c) m"
  shows "sound W m'" "improves m m'" "label_le m' v c"
    and "m' u = m u \<or> u = v \<and> (\<exists>r. m' u = Some (c, k, r))"
proof -
  have "sound W m' \<and> improves m m' \<and> label_le m' v c \<and> (m' u = m u \<or> u = v \<and> (\<exists>r. m' u = Some (c, k, r)))"
  proof (cases "m v")
    case None
    then show ?thesis using s w
      by (auto simp: m'_def relax_label_def sound_def improves_def settled_def label_le_def)
  next
    case (Some x)
    obtain c0 f r where x: "m v = Some (c0, f, r)" using Some by (cases x) auto
    show ?thesis
    proof (cases "c < c0")
      case True
      then have "\<not> r" using soundD(2) [OF s, of v c0 f c] x w by auto
      then show ?thesis using s w x True
        by (auto simp: m'_def relax_label_def sound_def improves_def settled_def label_le_def)
    next
      case False
      then have "m' = m" using x by (auto simp: m'_def relax_label_def)
      then show ?thesis using s x False by (auto simp: improves_refl label_le_def not_less)
    qed
  qed
  then show "sound W m'" "improves m m'" "label_le m' v c"
    "m' u = m u \<or> u = v \<and> (\<exists>r. m' u = Some (c, k, r))" by blast+
qed

lemma relax_all_laws:
  assumes "sound W m" and "\<And>v a. (v, a) \<in> set arcs \<Longrightarrow> W v (cost_add c a)"
  shows "sound W (relax_all k c arcs m) \<and> improves m (relax_all k c arcs m) \<and>
    (\<forall>(v, a) \<in> set arcs. label_le (relax_all k c arcs m) v (cost_add c a)) \<and>
    (\<forall>u. relax_all k c arcs m u = m u \<or> (\<exists>a r. (u, a) \<in> set arcs \<and> relax_all k c arcs m u = Some (cost_add c a, k, r)))"
  using assms
proof (induction arcs arbitrary: m)
  case Nil
  then show ?case by (simp add: relax_all_def improves_refl)
next
  case (Cons x arcs)
  obtain v a where x: "x = (v, a)" by (cases x)
  let ?m = "relax_label k (v, cost_add c a) m"
  have "W v (cost_add c a)" using Cons.prems(2) x by simp
  note st = relax_label_laws [OF Cons.prems(1) this, where k = k]
  have eq: "relax_all k c (x # arcs) m = relax_all k c arcs ?m" by (simp add: relax_all_def x)
  have ih: "sound W (relax_all k c arcs ?m)" "improves ?m (relax_all k c arcs ?m)"
    "\<forall>(v, a) \<in> set arcs. label_le (relax_all k c arcs ?m) v (cost_add c a)"
    "\<forall>u. relax_all k c arcs ?m u = ?m u \<or> (\<exists>a r. (u, a) \<in> set arcs \<and> relax_all k c arcs ?m u = Some (cost_add c a, k, r))"
    using Cons.IH [OF st(1)] Cons.prems(2) by auto
  have "label_le (relax_all k c arcs ?m) v (cost_add c a)" using ih(2) st(3) by (simp add: improves_def)
  then have "\<forall>(v, a) \<in> set (x # arcs). label_le (relax_all k c arcs ?m) v (cost_add c a)" using ih(3) x by simp
  moreover have "\<exists>a r. (u, a) \<in> set (x # arcs) \<and> relax_all k c arcs ?m u = Some (cost_add c a, k, r)"
    if "relax_all k c arcs ?m u \<noteq> m u" for u
    using ih(4) st(4) [of u] that x by (metis list.set_intros)
  ultimately show ?case unfolding eq using ih(1) improves_trans [OF st(2) ih(2)] by blast
qed

section \<open>The invariant\<close>

text \<open>All arcs of a settled node are relaxed, and a node reached over a clique arc has a settled
  node behind it.\<close>

definition arcs_relaxed :: "(NodeID \<Rightarrow> (NodeID \<times> Cost) list) \<Rightarrow> (NodeID \<Rightarrow> (NodeID \<times> Cost) list) \<Rightarrow> labels \<Rightarrow> NodeID \<Rightarrow> bool" where
  "arcs_relaxed B C m u \<longleftrightarrow> (\<forall>c f. m u = Some (c, f, True) \<longrightarrow>
     (\<forall>(v, a) \<in> set (B u) \<union> set (C u). label_le m v (cost_add c a)))"

definition clique_parents :: "(NodeID \<Rightarrow> (NodeID \<times> Cost) list) \<Rightarrow> labels \<Rightarrow> bool" where
  "clique_parents C m \<longleftrightarrow> (\<forall>v c r. m v = Some (c, True, r) \<longrightarrow>
     (\<exists>u c0 f a. m u = Some (c0, f, True) \<and> (v, a) \<in> set (C u) \<and> c = cost_add c0 a))"

definition search_inv :: "(NodeID \<Rightarrow> (NodeID \<times> Cost) list) \<Rightarrow> (NodeID \<Rightarrow> (NodeID \<times> Cost) list) \<Rightarrow> NodeID \<Rightarrow> labels \<Rightarrow> bool" where
  "search_inv B C s m \<longleftrightarrow> sound (walk B C s) m \<and> label_le m s cost_zero \<and> (\<forall>u. arcs_relaxed B C m u) \<and> clique_parents C m"

lemma search_invD:
  assumes "search_inv B C s m"
  shows "sound (walk B C s) m" "label_le m s cost_zero" "clique_parents C m"
    and "m u = Some (c, f, True) \<Longrightarrow> (v, a) \<in> set (B u) \<union> set (C u) \<Longrightarrow> label_le m v (cost_add c a)"
proof -
  show "sound (walk B C s) m" "label_le m s cost_zero" "clique_parents C m" using assms by (simp_all add: search_inv_def)
  assume u: "m u = Some (c, f, True)" and va: "(v, a) \<in> set (B u) \<union> set (C u)"
  have "\<forall>(v, a) \<in> set (B u) \<union> set (C u). label_le m v (cost_add c a)"
    using assms u unfolding search_inv_def arcs_relaxed_def by blast
  then show "label_le m v (cost_add c a)" using va by blast
qed

text \<open>Every walk ends in a settled or waiting node with an exact label, or some waiting node is
  strictly closer.\<close>

lemma walk_frontier:
  assumes inv: "search_inv B C s m" and ok: "arcs_ok B C A" "s \<in> A"
  shows "walk B C s v d \<Longrightarrow> label_le m v d \<or> (\<exists>y c f. m y = Some (c, f, False) \<and> fst c < fst d)"
proof (induction rule: walk.induct)
  case walk_start
  then show ?case using search_invD(2) [OF inv] by simp
next
  case (walk_arc u d v a)
  have uA: "u \<in> A" using walk_in [OF walk_arc(1) ok] .
  have pos: "0 < fst a \<or> v = u \<and> a = cost_zero" using arcs_okD(2,4) [OF ok(1) uA] walk_arc(2) by blast
  from walk_arc.IH show ?case
  proof
    assume "\<exists>y c f. m y = Some (c, f, False) \<and> fst c < fst d"
    then show ?thesis using pos by (force simp: cost_zero_def)
  next
    assume "label_le m u d"
    then obtain c f r where u: "m u = Some (c, f, r)" "c \<le> d" by (auto simp: label_le_def)
    show ?thesis
    proof (cases r)
      case True
      then have "label_le m v (cost_add c a)" using search_invD(4) [OF inv] u(1) walk_arc(2) by simp
      then show ?thesis using label_le_trans [OF _ cost_add_mono1 [OF u(2)]] by blast
    next
      case False
      have "fst c < fst (cost_add d a)" if "0 < fst a" using cost_fst_mono [OF u(2)] that by simp
      moreover have "label_le m v (cost_add d a)" if "v = u \<and> a = cost_zero" using u that by (auto simp: label_le_def)
      ultimately show ?thesis using pos u(1) False by auto
    qed
  qed
qed

lemma settle_inv:
  assumes inv: "search_inv B C s m" and ok: "arcs_ok B C A" "s \<in> A"
    and n: "m n = Some (c, f, False)" and least: "\<forall>y d g. m y = Some (d, g, False) \<longrightarrow> fst c \<le> fst d"
  defines "m' \<equiv> settle B C n c f m"
  shows "search_inv B C s m'" "settled m' n" "\<And>v. settled m v \<Longrightarrow> settled m' v" "\<And>v. settled m' v \<Longrightarrow> settled m v \<or> v = n"
    and "\<And>v. m v \<noteq> None \<Longrightarrow> m' v \<noteq> None"
proof -
  note snd = search_invD(1) [OF inv]
  have path: "walk B C s n c" using soundD(1) [OF snd n] .
  have nA: "n \<in> A" using walk_in [OF path ok] .
  have exact: "c \<le> d" if "walk B C s n d" for d
    using walk_frontier [OF inv ok that] n least cost_leI by (fastforce simp: label_le_def)
  define m1 where "m1 = m(n \<mapsto> (c, f, True))"
  define m2 where "m2 = (if f then m1 else relax_all True c (C n) m1)"
  have m': "m' = relax_all False c (B n) m2" by (simp add: m'_def settle_def m2_def m1_def)
  have s1: "sound (walk B C s) m1" using snd path exact by (auto simp: sound_def m1_def)
  have le1: "label_le m v d \<Longrightarrow> label_le m1 v d" for v d using n by (auto simp: label_le_def m1_def)
  have arcs: "walk B C s v (cost_add c a)" if "(v, a) \<in> set (B n) \<union> set (C n)" for v a by (rule walk_arc [OF path that])
  have "sound (walk B C s) m2 \<and> improves m1 m2 \<and> (f \<or> (\<forall>(v, a) \<in> set (C n). label_le m2 v (cost_add c a))) \<and>
      (\<forall>u. m2 u = m1 u \<or> (\<exists>a r. (u, a) \<in> set (C n) \<and> m2 u = Some (cost_add c a, True, r)))"
    using relax_all_laws [OF s1, of "C n" c True] arcs s1 improves_refl by (auto simp: m2_def)
  then have m2: "sound (walk B C s) m2" "improves m1 m2" "\<not> f \<Longrightarrow> (v, a) \<in> set (C n) \<Longrightarrow> label_le m2 v (cost_add c a)"
    "m2 u = m1 u \<or> (\<exists>a r. (u, a) \<in> set (C n) \<and> m2 u = Some (cost_add c a, True, r))" for v a u by auto
  have m3: "sound (walk B C s) m'" "improves m2 m'" "(v, a) \<in> set (B n) \<Longrightarrow> label_le m' v (cost_add c a)"
    "m' u = m2 u \<or> (\<exists>a r. (u, a) \<in> set (B n) \<and> m' u = Some (cost_add c a, False, r))" for v a u
    using relax_all_laws [OF m2(1), of "B n" c False] arcs unfolding m' by auto
  have imp: "improves m1 m'" using improves_trans [OF m2(2) m3(2)] .
  have keep: "m' v = m1 v" if "settled m1 v \<or> settled m' v" for v using imp that unfolding improves_def by blast
  have le: "label_le m v d \<Longrightarrow> label_le m' v d" for v d using imp le1 by (simp add: improves_def)
  have n1: "m' n = Some (c, f, True)" using keep [of n] by (simp add: settled_def m1_def)
  have set1: "settled m1 v \<longleftrightarrow> settled m v \<or> v = n" for v using n by (auto simp: settled_def m1_def)
  show "settled m' n" using n1 by (simp add: settled_def)
  show "settled m v \<Longrightarrow> settled m' v" for v using keep [of v] set1 [of v] by (simp add: settled_def)
  show "settled m' v \<Longrightarrow> settled m v \<or> v = n" for v using keep [of v] set1 [of v] by (simp add: settled_def)
  show "m' v \<noteq> None" if v: "m v \<noteq> None" for v
  proof -
    obtain d g r where "m v = Some (d, g, r)" using v by (cases "m v") auto
    then have "label_le m' v d" by (intro le) (auto simp: label_le_def)
    then show ?thesis by (auto simp: label_le_def)
  qed
  have old: "m u = Some (d, g, True)" if "m' u = Some (d, g, True)" "u \<noteq> n" for u d g
    using keep [of u] that by (auto simp: settled_def m1_def)
  have mono: "m' u = Some (d, g, True)" if "m u = Some (d, g, True)" for u d g
  proof -
    have "u \<noteq> n" using n that by auto
    then show ?thesis using keep [of u] that by (simp add: settled_def m1_def)
  qed
  have clique: "label_le m' v (cost_add c a)" if va: "(v, a) \<in> set (C n)" for v a
  proof (cases f)
    case False
    then show ?thesis using m2(3) [OF _ va] m3(2) by (simp add: improves_def)
  next
    case True
    then have "m n = Some (c, True, False)" using n by simp
    then obtain u c0 g b where u: "m u = Some (c0, g, True)" "(n, b) \<in> set (C u)" "c = cost_add c0 b"
      using search_invD(3) [OF inv] unfolding clique_parents_def by blast
    have "u \<in> A" using walk_in [OF soundD(1) [OF snd u(1)] ok] .
    from arcs_okD(5) [OF ok(1) this u(2) va] obtain d where d: "(v, d) \<in> set (C u)" "d \<le> cost_add b a" by blast
    have "label_le m v (cost_add c0 d)" using search_invD(4) [OF inv u(1)] d(1) by simp
    then show ?thesis using le label_le_trans cost_add_mono2 [OF d(2), of c0] unfolding u(3) cost_add_assoc by blast
  qed
  have "arcs_relaxed B C m' u" for u
  proof (cases "u = n")
    case True
    then show ?thesis using n1 m3(3) clique by (auto simp: arcs_relaxed_def)
  next
    case False
    then show ?thesis using old search_invD(4) [OF inv] le unfolding arcs_relaxed_def by fast
  qed
  moreover have "clique_parents C m'"
    unfolding clique_parents_def
  proof (intro allI impI)
    fix v d r assume v: "m' v = Some (d, True, r)"
    then have "m' v = m2 v" using m3(4) [of v] by auto
    then consider "m2 v = m1 v" | a where "(v, a) \<in> set (C n)" "d = cost_add c a" using m2(4) [of v] v by auto
    then show "\<exists>u c0 f a. m' u = Some (c0, f, True) \<and> (v, a) \<in> set (C u) \<and> d = cost_add c0 a"
    proof cases
      case 1
      then have "m1 v = Some (d, True, r)" using v \<open>m' v = m2 v\<close> by simp
      then have "\<exists>r'. m v = Some (d, True, r')" using n by (auto simp: m1_def split: if_splits)
      then obtain u c0 g a where "m u = Some (c0, g, True)" "(v, a) \<in> set (C u)" "d = cost_add c0 a"
        using search_invD(3) [OF inv] unfolding clique_parents_def by blast
      then show ?thesis using mono by blast
    next
      case 2
      then show ?thesis using n1 by blast
    qed
  qed
  ultimately show "search_inv B C s m'"
    using m3(1) le search_invD(2) [OF inv] unfolding search_inv_def by blast
qed

text \<open>What the invariant says of a settled node, and of all nodes when none is waiting.\<close>

definition least_cost :: "(Cost \<Rightarrow> bool) \<Rightarrow> Cost \<Rightarrow> bool" where
  "least_cost W c \<longleftrightarrow> W c \<and> (\<forall>d. W d \<longrightarrow> c \<le> d)"

lemma search_result:
  assumes inv: "search_inv B C s m" and ok: "arcs_ok B C A" "s \<in> A"
    and fin: "settled m v \<or> (\<forall>y c f. m y \<noteq> Some (c, f, False))"
  shows "case m v of None \<Rightarrow> \<forall>d. \<not> walk B C s v d | Some (c, f, r) \<Rightarrow> least_cost (walk B C s v) c"
proof (cases "m v")
  case None
  then have "\<not> walk B C s v d" for d
    using walk_frontier [OF inv ok, of v d] fin by (auto simp: label_le_def settled_def)
  then show ?thesis using None by simp
next
  case (Some x)
  then obtain c f r where x: "m v = Some (c, f, r)" by (cases x) auto
  then have "r" using fin unfolding settled_def by (cases r) auto
  then show ?thesis using soundD [OF search_invD(1) [OF inv]] x by (auto simp: least_cost_def)
qed

lemma search_start: "search_inv B C s [s \<mapsto> (cost_zero, False, False)]"
  by (auto simp: search_inv_def sound_def label_le_def arcs_relaxed_def clique_parents_def walk_start)

end
