(* ===== verification/CellCustomizer.thy ===== *)
theory CellCustomizer
  imports QueryHeap CellStorage MultiLevelGraph EdgeBasedEdge LabelSearch
begin

text \<open>
  The customisation of the cells, \<^verbatim>\<open>include/customizer/cell_customizer.hpp\<close>: for every source of
  a cell a search inside the cell, over the clique arcs of the cells one level below and the
  edges between them, fills the row of the source in the metric.

  The heap and its index storage are the arguments \<open>H\<close> and \<open>S\<close>.  The cells of a level, which the
  code processes in parallel with a heap per thread, are processed in order with one heap.  A node
  out of range of the graph throws, the result \<open>None\<close>.
\<close>

section \<open>Definitions\<close>

declare split_paired_All [simp del] split_paired_Ex [simp del]

record CustomizerHeapData =
  hc_from_clique :: bool
  hc_duration :: EdgeDuration
  hc_distance :: EdgeDistance

type_synonym ('h, 's) CustomizerHeap = "('h, 's, CustomizerHeapData) QueryHeap"
type_synonym MultiLevelEdgeBasedGraph = "EdgeData MultiLevelGraph"

definition relax_to :: "'h heap_ops \<Rightarrow> 's index_ops \<Rightarrow> bool \<Rightarrow> NodeID \<Rightarrow> Cost \<Rightarrow>
    ('h, 's) CustomizerHeap \<Rightarrow> ('h, 's) CustomizerHeap" where
  "relax_to H S from_clique to cost q =
     (let (to_weight, to_duration, to_distance) = cost;
          data = \<lparr>hc_from_clique = from_clique, hc_duration = to_duration, hc_distance = to_distance\<rparr>
      in if \<not> qh_was_inserted S q to then qh_insert H S q to to_weight data
         else if (to_weight, to_duration, to_distance) <
           (qh_get_key S q to, hc_duration (qh_get_data S q to), hc_distance (qh_get_data S q to))
         then qh_set_data S (qh_decrease_key H S q to to_weight) to data
         else q)"

text \<open>The clique arcs of the cell below: \<open>j\<close> is the position of the three iterators, which
  \<^verbatim>\<open>continue\<close> does not advance.\<close>

fun relax_clique :: "'h heap_ops \<Rightarrow> 's index_ops \<Rightarrow> bool list \<Rightarrow> Cost \<Rightarrow> NodeID list \<Rightarrow> EdgeDuration list \<Rightarrow>
    EdgeDistance list \<Rightarrow> EdgeWeight list \<Rightarrow> nat \<Rightarrow> ('h, 's) CustomizerHeap \<Rightarrow> ('h, 's) CustomizerHeap" where
  "relax_clique H S allowed_nodes cost dests durs dists [] j q = q"
| "relax_clique H S allowed_nodes cost dests durs dists (subcell_weight # ws) j q =
     (if subcell_weight \<noteq> INVALID_EDGE_WEIGHT
      then (let to = dests ! j
            in if \<not> allowed_nodes ! to then relax_clique H S allowed_nodes cost dests durs dists ws j q
               else relax_clique H S allowed_nodes cost dests durs dists ws (j + 1)
                 (relax_to H S True to (cost_add cost (subcell_weight, durs ! j, dists ! j)) q))
      else relax_clique H S allowed_nodes cost dests durs dists ws (j + 1) q)"

definition relax_subcell :: "'h heap_ops \<Rightarrow> 's index_ops \<Rightarrow> MultiLevelPartition \<Rightarrow> CellStorage \<Rightarrow> bool list \<Rightarrow> CellMetric \<Rightarrow>
    LevelID \<Rightarrow> NodeID \<Rightarrow> Cost \<Rightarrow> ('h, 's) CustomizerHeap \<Rightarrow> ('h, 's) CustomizerHeap" where
  "relax_subcell H S p cells allowed_nodes metric level node cost q =
     (let subcell = cs_GetCell cells (level - 1) (GetCell p (level - 1) node)
      in relax_clique H S allowed_nodes cost (GetDestinationNodes cells subcell)
           (GetOutDuration cells metric subcell node) (GetOutDistance cells metric subcell node)
           (GetOutWeight cells metric subcell node) 0 q)"

definition edge_cost :: "EdgeData \<Rightarrow> Cost" where
  "edge_cost data = (ed_weight data, ed_duration data, ed_distance data)"

definition relax_base_edge :: "'h heap_ops \<Rightarrow> 's index_ops \<Rightarrow> MultiLevelPartition \<Rightarrow> MultiLevelEdgeBasedGraph \<Rightarrow> bool list \<Rightarrow>
    LevelID \<Rightarrow> NodeID \<Rightarrow> Cost \<Rightarrow> EdgeID \<Rightarrow> ('h, 's) CustomizerHeap \<Rightarrow> ('h, 's) CustomizerHeap" where
  "relax_base_edge H S p graph allowed_nodes level node cost edge q =
     (let to = sg_GetTarget (mg_graph graph) edge
      in if \<not> allowed_nodes ! to then q
         else let data = sg_GetEdgeData (mg_graph graph) edge
              in if ed_forward data \<and> (level = 1 \<or> GetCell p (level - 1) node \<noteq> GetCell p (level - 1) to)
                 then relax_to H S False to (cost_add cost (edge_cost data)) q
                 else q)"

definition RelaxNode :: "'h heap_ops \<Rightarrow> 's index_ops \<Rightarrow> MultiLevelPartition \<Rightarrow> MultiLevelEdgeBasedGraph \<Rightarrow> CellStorage \<Rightarrow>
    bool list \<Rightarrow> CellMetric \<Rightarrow> LevelID \<Rightarrow> NodeID \<Rightarrow> Cost \<Rightarrow> ('h, 's) CustomizerHeap \<Rightarrow> ('h, 's) CustomizerHeap option" where
  "RelaxNode H S p graph cells allowed_nodes metric level node cost q =
     (let q1 = (if level \<noteq> 1 \<and> \<not> hc_from_clique (qh_get_data S q node)
                then relax_subcell H S p cells allowed_nodes metric level node cost q else q)
      in map_option (\<lambda>edges. fold (relax_base_edge H S p graph allowed_nodes level node cost) edges q1)
           (GetInternalEdgeRange graph level node))"

partial_function (option) explore :: "'h heap_ops \<Rightarrow> 's index_ops \<Rightarrow> MultiLevelPartition \<Rightarrow> MultiLevelEdgeBasedGraph \<Rightarrow>
    CellStorage \<Rightarrow> bool list \<Rightarrow> CellMetric \<Rightarrow> LevelID \<Rightarrow> ('h, 's) CustomizerHeap \<Rightarrow> NodeID list \<Rightarrow> ('h, 's) CustomizerHeap option" where
  "explore H S p graph cells allowed_nodes metric level q destinations_set =
     (if qh_empty H q \<or> destinations_set = [] then Some q
      else let (node, q1) = qh_delete_min H q;
               cost = (qh_get_key S q1 node, hc_duration (qh_get_data S q1 node), hc_distance (qh_get_data S q1 node))
           in Option.bind (RelaxNode H S p graph cells allowed_nodes metric level node cost q1)
                (\<lambda>q2. explore H S p graph cells allowed_nodes metric level q2 (removeAll node destinations_set)))"

fun write_row :: "'s index_ops \<Rightarrow> ('h, 's) CustomizerHeap \<Rightarrow> NodeID list \<Rightarrow> nat list \<Rightarrow> CellMetric \<Rightarrow> CellMetric" where
  "write_row S q [] positions metric = metric"
| "write_row S q (destination # destinations) positions metric =
     (let inserted = qh_was_inserted S q destination; i = hd positions
      in write_row S q destinations (tl positions)
           \<lparr>weights = (weights metric)[i := (if inserted then qh_get_key S q destination else INVALID_EDGE_WEIGHT)],
            durations = (durations metric)[i := (if inserted then hc_duration (qh_get_data S q destination) else MAXIMAL_EDGE_DURATION)],
            distances = (distances metric)[i := (if inserted then hc_distance (qh_get_data S q destination) else INVALID_EDGE_DISTANCE)]\<rparr>)"

definition customize_source :: "'h heap_ops \<Rightarrow> 's index_ops \<Rightarrow> MultiLevelPartition \<Rightarrow> MultiLevelEdgeBasedGraph \<Rightarrow>
    CellStorage \<Rightarrow> bool list \<Rightarrow> LevelID \<Rightarrow> CellID \<Rightarrow> NodeID \<Rightarrow>
    ('h, 's) CustomizerHeap \<times> CellMetric \<Rightarrow> (('h, 's) CustomizerHeap \<times> CellMetric) option" where
  "customize_source H S p graph cells allowed_nodes level cell_id source = (\<lambda>(q, metric).
     if \<not> allowed_nodes ! source then Some (q, metric)
     else let cell = cs_GetCell cells level cell_id;
              destinations = GetDestinationNodes cells cell;
              destinations_set = remdups (filter (\<lambda>d. allowed_nodes ! d) destinations);
              q1 = qh_insert H S (qh_clear H S q) source 0 \<lparr>hc_from_clique = False, hc_duration = 0, hc_distance = 0\<rparr>
          in map_option (\<lambda>q2. (q2, write_row S q2 destinations (GetOutRange cells cell source) metric))
               (explore H S p graph cells allowed_nodes metric level q1 destinations_set))"

definition CustomizeCell :: "'h heap_ops \<Rightarrow> 's index_ops \<Rightarrow> MultiLevelPartition \<Rightarrow> MultiLevelEdgeBasedGraph \<Rightarrow>
    CellStorage \<Rightarrow> bool list \<Rightarrow> LevelID \<Rightarrow> CellID \<Rightarrow>
    ('h, 's) CustomizerHeap \<times> CellMetric \<Rightarrow> (('h, 's) CustomizerHeap \<times> CellMetric) option" where
  "CustomizeCell H S p graph cells allowed_nodes level cell_id =
     fold_option (customize_source H S p graph cells allowed_nodes level cell_id) (GetSourceNodes cells (cs_GetCell cells level cell_id))"

definition Customize :: "'h heap_ops \<Rightarrow> 's index_ops \<Rightarrow> MultiLevelPartition \<Rightarrow> MultiLevelEdgeBasedGraph \<Rightarrow>
    CellStorage \<Rightarrow> bool list \<Rightarrow> ('h, 's) CustomizerHeap \<times> CellMetric \<Rightarrow> (('h, 's) CustomizerHeap \<times> CellMetric) option" where
  "Customize H S p graph cells allowed_nodes =
     fold_option (\<lambda>level. fold_option (CustomizeCell H S p graph cells allowed_nodes level) [0..<GetNumberOfCells p level])
       [1..<GetNumberOfLevels p]"

section \<open>The heap as labels\<close>

definition heap_labels :: "'s index_ops \<Rightarrow> ('h, 's) CustomizerHeap \<Rightarrow> labels" where
  "heap_labels S q n = map_option (\<lambda>(w, d, r). ((w, hc_duration d, hc_distance d), hc_from_clique d, r)) (qh_view S q n)"

lemma heap_labels_update:
  "qh_view S q' = (qh_view S q)(n \<mapsto> (w, d, r)) \<Longrightarrow>
   heap_labels S q' = (heap_labels S q)(n \<mapsto> ((w, hc_duration d, hc_distance d), hc_from_clique d, r))"
  by (auto simp: heap_labels_def fun_eq_iff)

lemma relax_all_simps [simp]:
  "relax_all k c [] m = m"
  "relax_all k c ((v, a) # arcs) m = relax_all k c arcs (relax_label k (v, cost_add c a) m)"
  by (simp_all add: relax_all_def)

text \<open>The clique arcs as the iterators pass them, with the invalid ones left out.\<close>

fun clique_list :: "NodeID list \<Rightarrow> EdgeDuration list \<Rightarrow> EdgeDistance list \<Rightarrow> EdgeWeight list \<Rightarrow> nat \<Rightarrow> (NodeID \<times> Cost) list" where
  "clique_list dests durs dists [] j = []"
| "clique_list dests durs dists (w # ws) j =
     (if w \<noteq> INVALID_EDGE_WEIGHT then [(dests ! j, (w, durs ! j, dists ! j))] else []) @ clique_list dests durs dists ws (j + 1)"

text \<open>The arcs at a node: the edges inside the cell that cross subcells, and the arcs of its
  subcell.\<close>

definition relaxes :: "MultiLevelPartition \<Rightarrow> MultiLevelEdgeBasedGraph \<Rightarrow> bool list \<Rightarrow> LevelID \<Rightarrow> NodeID \<Rightarrow> EdgeID \<Rightarrow> bool" where
  "relaxes p graph allowed_nodes level v e \<longleftrightarrow>
     allowed_nodes ! sg_GetTarget (mg_graph graph) e \<and> ed_forward (sg_GetEdgeData (mg_graph graph) e) \<and>
     (level = 1 \<or> GetCell p (level - 1) v \<noteq> GetCell p (level - 1) (sg_GetTarget (mg_graph graph) e))"

definition edge_arc :: "MultiLevelEdgeBasedGraph \<Rightarrow> EdgeID \<Rightarrow> NodeID \<times> Cost" where
  "edge_arc graph e = (sg_GetTarget (mg_graph graph) e, edge_cost (sg_GetEdgeData (mg_graph graph) e))"

definition level_arcs :: "MultiLevelPartition \<Rightarrow> MultiLevelEdgeBasedGraph \<Rightarrow> bool list \<Rightarrow> LevelID \<Rightarrow> NodeID \<Rightarrow> (NodeID \<times> Cost) list" where
  "level_arcs p graph allowed_nodes level v =
     map (edge_arc graph) (filter (relaxes p graph allowed_nodes level v) (the (GetInternalEdgeRange graph level v)))"

definition subcell_arcs :: "MultiLevelPartition \<Rightarrow> CellStorage \<Rightarrow> CellMetric \<Rightarrow> LevelID \<Rightarrow> NodeID \<Rightarrow> (NodeID \<times> Cost) list" where
  "subcell_arcs p cells metric level v =
     (if level = 1 then []
      else let subcell = cs_GetCell cells (level - 1) (GetCell p (level - 1) v)
        in clique_list (GetDestinationNodes cells subcell) (GetOutDuration cells metric subcell v)
             (GetOutDistance cells metric subcell v) (GetOutWeight cells metric subcell v) 0)"

text \<open>Valid arcs of the subcell lead to allowed nodes.\<close>

definition subcell_ok :: "MultiLevelPartition \<Rightarrow> CellStorage \<Rightarrow> bool list \<Rightarrow> CellMetric \<Rightarrow> LevelID \<Rightarrow> NodeID set \<Rightarrow> NodeID \<Rightarrow> bool" where
  "subcell_ok p cells allowed_nodes metric level V v \<longleftrightarrow> level = 1 \<or>
     (let subcell = cs_GetCell cells (level - 1) (GetCell p (level - 1) v); ws = GetOutWeight cells metric subcell v;
          dests = GetDestinationNodes cells subcell
      in \<forall>i < length ws. ws ! i \<noteq> INVALID_EDGE_WEIGHT \<longrightarrow> allowed_nodes ! (dests ! i) \<and> dests ! i \<in> V)"

context query_heap
begin

lemma relax_to_laws:
  assumes inv: "inv q" and v: "to \<in> V"
  shows "inv (relax_to H S k to c q) \<and> heap_labels S (relax_to H S k to c q) = relax_label k (to, c) (heap_labels S q)"
proof -
  obtain w du di where c: "c = (w, du, di)" by (cases c)
  let ?d = "\<lparr>hc_from_clique = k, hc_duration = du, hc_distance = di\<rparr>"
  show ?thesis
  proof (cases "qh_view S q to")
    case None
    then have "relax_to H S k to c q = qh_insert H S q to w ?d" by (simp add: relax_to_def c was_inserted_view)
    then show ?thesis
      using insert_inv [OF inv v None] heap_labels_update [OF insert_view [OF inv v None, of w ?d]] None
      by (simp add: relax_label_def c heap_labels_def)
  next
    case (Some x)
    obtain w0 d0 r where x: "qh_view S q to = Some (w0, d0, r)" using Some by (cases x) auto
    note get = get_view [OF x]
    have lab: "heap_labels S q to = Some ((w0, hc_duration d0, hc_distance d0), hc_from_clique d0, r)"
      by (simp add: heap_labels_def x)
    show ?thesis
    proof (cases "c < (w0, hc_duration d0, hc_distance d0)")
      case True
      then have le: "w \<le> w0" by (auto simp: c)
      note dec = decrease_key_laws [OF inv x le]
      have "qh_view S (qh_decrease_key H S q to w) to = Some (w, d0, r)" by (simp add: dec(2))
      note upd = set_data_laws [OF dec(1) this, of ?d]
      have "relax_to H S k to c q = qh_set_data S (qh_decrease_key H S q to w) to ?d"
        using True by (simp add: relax_to_def c get)
      moreover have "qh_view S (qh_set_data S (qh_decrease_key H S q to w) to ?d) = (qh_view S q)(to \<mapsto> (w, ?d, r))"
        unfolding upd(2) dec(2) by simp
      ultimately show ?thesis
        using upd(1) heap_labels_update [of S _ q to w ?d r] True by (simp add: relax_label_def lab c)
    next
      case False
      then have "relax_to H S k to c q = q" by (simp add: relax_to_def c get del: less_prod_simp)
      then show ?thesis using inv lab False by (auto simp: relax_label_def)
    qed
  qed
qed

lemma relax_clique_laws:
  assumes "inv q" and "\<forall>i < length ws. ws ! i \<noteq> INVALID_EDGE_WEIGHT \<longrightarrow> allowed_nodes ! (dests ! (j + i)) \<and> dests ! (j + i) \<in> V"
  shows "inv (relax_clique H S allowed_nodes c dests durs dists ws j q) \<and>
    heap_labels S (relax_clique H S allowed_nodes c dests durs dists ws j q) =
      relax_all True c (clique_list dests durs dists ws j) (heap_labels S q)"
  using assms
proof (induction ws arbitrary: j q)
  case (Cons w ws)
  have rest: "\<forall>i < length ws. ws ! i \<noteq> INVALID_EDGE_WEIGHT \<longrightarrow>
      allowed_nodes ! (dests ! (j + 1 + i)) \<and> dests ! (j + 1 + i) \<in> V"
    using Cons.prems(2) by (metis Suc_less_eq add.assoc length_Cons nth_Cons_Suc plus_1_eq_Suc)
  show ?case
  proof (cases "w = INVALID_EDGE_WEIGHT")
    case True
    then show ?thesis using Cons.IH [OF Cons.prems(1) rest] by simp
  next
    case False
    then have ok: "allowed_nodes ! (dests ! j)" "dests ! j \<in> V" using Cons.prems(2) by (auto dest: spec [of _ 0])
    note st = relax_to_laws [OF Cons.prems(1) ok(2), of True "cost_add c (w, durs ! j, dists ! j)"]
    show ?thesis using Cons.IH [OF conjunct1 [OF st] rest] st ok False by (simp add: Let_def)
  qed
qed simp

lemma relax_base_edges_laws:
  assumes "inv q" and "\<forall>e \<in> set edges. sg_GetTarget (mg_graph graph) e \<in> V"
  shows "inv (fold (relax_base_edge H S p graph allowed_nodes level v c) edges q) \<and>
    heap_labels S (fold (relax_base_edge H S p graph allowed_nodes level v c) edges q) =
      relax_all False c (map (edge_arc graph) (filter (relaxes p graph allowed_nodes level v) edges)) (heap_labels S q)"
  using assms
proof (induction edges arbitrary: q)
  case (Cons e edges)
  let ?t = "sg_GetTarget (mg_graph graph) e" and ?d = "sg_GetEdgeData (mg_graph graph) e"
  have t: "?t \<in> V" and rest: "\<forall>e \<in> set edges. sg_GetTarget (mg_graph graph) e \<in> V" using Cons.prems(2) by simp_all
  note st = relax_to_laws [OF Cons.prems(1) t, of False "cost_add c (edge_cost ?d)"]
  have "relax_base_edge H S p graph allowed_nodes level v c e q =
      (if relaxes p graph allowed_nodes level v e then relax_to H S False ?t (cost_add c (edge_cost ?d)) q else q)"
    by (auto simp: relax_base_edge_def relaxes_def Let_def)
  then show ?case
    using Cons.IH [OF conjunct1 [OF st] rest] Cons.IH [OF Cons.prems(1) rest] st
    by (cases "relaxes p graph allowed_nodes level v e") (simp_all add: edge_arc_def)
qed simp

lemma RelaxNode_laws:
  assumes inv: "inv q" and v: "heap_labels S q v = Some (c, f, True)"
    and range: "GetInternalEdgeRange graph level v = Some edges" "\<forall>e \<in> set edges. sg_GetTarget (mg_graph graph) e \<in> V"
    and sub: "subcell_ok p cells allowed_nodes metric level V v"
  shows "\<exists>q'. RelaxNode H S p graph cells allowed_nodes metric level v c q = Some q' \<and> inv q' \<and>
    heap_labels S q' = relax_all False c (level_arcs p graph allowed_nodes level v)
      (if f then heap_labels S q else relax_all True c (subcell_arcs p cells metric level v) (heap_labels S q))"
proof -
  have f: "hc_from_clique (qh_get_data S q v) = f"
    using v get_view [of q v] by (auto simp: heap_labels_def)
  let ?q1 = "if level \<noteq> 1 \<and> \<not> f then relax_subcell H S p cells allowed_nodes metric level v c q else q"
  have q1: "inv ?q1 \<and> heap_labels S ?q1 =
      (if f then heap_labels S q else relax_all True c (subcell_arcs p cells metric level v) (heap_labels S q))"
  proof (cases "level \<noteq> 1 \<and> \<not> f")
    case True
    let ?cell = "cs_GetCell cells (level - 1) (GetCell p (level - 1) v)"
    have "\<forall>i < length (GetOutWeight cells metric ?cell v). GetOutWeight cells metric ?cell v ! i \<noteq> INVALID_EDGE_WEIGHT \<longrightarrow>
        allowed_nodes ! (GetDestinationNodes cells ?cell ! (0 + i)) \<and> GetDestinationNodes cells ?cell ! (0 + i) \<in> V"
      using sub True by (simp add: subcell_ok_def Let_def)
    from relax_clique_laws [OF inv this] show ?thesis
      using True by (simp add: relax_subcell_def subcell_arcs_def Let_def)
  qed (use inv in \<open>auto simp: subcell_arcs_def\<close>)
  have "RelaxNode H S p graph cells allowed_nodes metric level v c q =
      Some (fold (relax_base_edge H S p graph allowed_nodes level v c) edges ?q1)"
    by (simp add: RelaxNode_def range(1) f Let_def)
  then show ?thesis
    using relax_base_edges_laws [OF conjunct1 [OF q1] range(2)] q1 range(1) by (simp add: level_arcs_def)
qed

lemma pop_laws:
  assumes inv: "inv q" and ne: "\<not> qh_empty H q" and pop: "qh_delete_min H q = (n, q1)"
  obtains c f where "inv q1" "heap_labels S q n = Some (c, f, False)" "heap_labels S q1 = (heap_labels S q)(n \<mapsto> (c, f, True))"
    "\<And>y d g. heap_labels S q y = Some (d, g, False) \<Longrightarrow> fst c \<le> fst d"
    "c = (qh_get_key S q1 n, hc_duration (qh_get_data S q1 n), hc_distance (qh_get_data S q1 n))"
proof -
  obtain w d where del: "inv q1" "qh_view S q n = Some (w, d, False)" "qh_view S q1 = (qh_view S q)(n \<mapsto> (w, d, True))"
    "\<And>m w' d'. qh_view S q m = Some (w', d', False) \<Longrightarrow> w \<le> w'"
    by (rule delete_min_laws [OF inv ne pop]) blast
  let ?c = "(w, hc_duration d, hc_distance d)"
  have "qh_view S q1 n = Some (w, d, True)" by (simp add: del(3))
  note get = get_view [OF this]
  have least: "fst ?c \<le> fst d'" if l: "heap_labels S q y = Some (d', g, False)" for y d' g
    using l del(4) [of y] by (auto simp: heap_labels_def)
  have lab: "heap_labels S q n = Some (?c, hc_from_clique d, False)" by (simp add: heap_labels_def del(2))
  have "?c = (qh_get_key S q1 n, hc_duration (qh_get_data S q1 n), hc_distance (qh_get_data S q1 n))" by (simp add: get)
  with del(1) lab heap_labels_update [OF del(3)] least show ?thesis by (rule that)
qed

lemma explore_laws:
  fixes p graph cells allowed_nodes metric level
  defines "B \<equiv> level_arcs p graph allowed_nodes level" and "C \<equiv> subcell_arcs p cells metric level"
  assumes ok: "arcs_ok B C A" "s \<in> A" and A: "finite A" "A \<subseteq> V"
    and node: "\<forall>v \<in> A. subcell_ok p cells allowed_nodes metric level V v \<and> (\<exists>edges. GetInternalEdgeRange graph level v = Some edges \<and>
      (\<forall>e \<in> set edges. sg_GetTarget (mg_graph graph) e \<in> V))"
    and inv: "inv q" "search_inv B C s (heap_labels S q)" and D: "\<forall>d \<in> D. d \<in> set ds \<or> settled (heap_labels S q) d"
  shows "\<exists>q'. explore H S p graph cells allowed_nodes metric level q ds = Some q' \<and> inv q' \<and>
    search_inv B C s (heap_labels S q') \<and>
    ((\<forall>y c f. heap_labels S q' y \<noteq> Some (c, f, False)) \<or> (\<forall>d \<in> D. settled (heap_labels S q') d))"
  using inv D
proof (induction "card {v \<in> A. \<not> settled (heap_labels S q) v}" arbitrary: q ds rule: less_induct)
  case less
  let ?m = "heap_labels S q"
  show ?case
  proof (cases "qh_empty H q \<or> ds = []")
    case True
    then have "explore H S p graph cells allowed_nodes metric level q ds = Some q"
      by (subst explore.simps) simp
    moreover have "\<forall>y c f. ?m y \<noteq> Some (c, f, False)" if "qh_empty H q"
      using that empty_iff [OF less.prems(1)] by (auto simp: heap_labels_def)
    ultimately show ?thesis using True less.prems by auto
  next
    case False
    obtain n q1 where pop: "qh_delete_min H q = (n, q1)" by (cases "qh_delete_min H q")
    have ne: "\<not> qh_empty H q" using False by simp
    obtain c f where c: "inv q1" "?m n = Some (c, f, False)" "heap_labels S q1 = ?m(n \<mapsto> (c, f, True))"
      "\<And>y d g. ?m y = Some (d, g, False) \<Longrightarrow> fst c \<le> fst d"
      "c = (qh_get_key S q1 n, hc_duration (qh_get_data S q1 n), hc_distance (qh_get_data S q1 n))"
      by (rule pop_laws [OF less.prems(1) ne pop]) blast
    have nA: "n \<in> A" using walk_in [OF soundD(1) [OF search_invD(1) [OF less.prems(2)] c(2)] ok] .
    obtain edges where e: "GetInternalEdgeRange graph level n = Some edges" "\<forall>e \<in> set edges. sg_GetTarget (mg_graph graph) e \<in> V"
      and sub: "subcell_ok p cells allowed_nodes metric level V n" using node nA by blast
    have "heap_labels S q1 n = Some (c, f, True)" by (simp add: c(3))
    from RelaxNode_laws [OF c(1) this e sub] obtain q2 where
      q2: "RelaxNode H S p graph cells allowed_nodes metric level n c q1 = Some q2" "inv q2"
        "heap_labels S q2 = settle B C n c f ?m"
      by (auto simp: settle_def B_def C_def c(3))
    have "\<forall>y d g. ?m y = Some (d, g, False) \<longrightarrow> fst c \<le> fst d" using c(4) by blast
    note st = settle_inv [OF less.prems(2) ok c(2) this, folded q2(3)]
    let ?U = "\<lambda>m. {v \<in> A. \<not> settled m v}"
    have "n \<in> ?U ?m" using nA c(2) by (simp add: settled_def)
    moreover have "?U (heap_labels S q2) \<subseteq> ?U ?m" "n \<notin> ?U (heap_labels S q2)" using st(2,3) by auto
    ultimately have dec: "card (?U (heap_labels S q2)) < card (?U ?m)" using A(1) by (intro psubset_card_mono) auto
    have "\<forall>d \<in> D. d \<in> set (removeAll n ds) \<or> settled (heap_labels S q2) d" using less.prems(3) st(2,3) by auto
    from less.hyps [OF dec q2(2) st(1) this] obtain q' where
      q': "explore H S p graph cells allowed_nodes metric level q2 (removeAll n ds) = Some q'" "inv q'" "search_inv B C s (heap_labels S q')"
        "(\<forall>y c f. heap_labels S q' y \<noteq> Some (c, f, False)) \<or> (\<forall>d \<in> D. settled (heap_labels S q') d)" by blast
    have "explore H S p graph cells allowed_nodes metric level q ds = Some q'"
      using False q'(1) q2(1) unfolding c(5) by (subst explore.simps) (simp add: pop Let_def)
    then show ?thesis using q'(2-4) by blast
  qed
qed

end

end
