(* ===== verification/Customization.thy ===== *)
theory Customization
  imports CellCustomizer
begin

text \<open>
  What the customisation computes: the value of a source and a destination of a cell is the least
  cost of a path inside the cell, the shortest paths of a level being composed of border edges of
  the level below and of shortest paths of its subcells.
\<close>

declare split_paired_All [simp del] split_paired_Ex [simp del]

section \<open>Paths inside a cell\<close>

abbreviation out_edges :: "MultiLevelEdgeBasedGraph \<Rightarrow> NodeID \<Rightarrow> EdgeID list" where
  "out_edges graph v \<equiv> sg_range (mg_graph graph) v"

abbreviation edge_target :: "MultiLevelEdgeBasedGraph \<Rightarrow> EdgeID \<Rightarrow> NodeID" where
  "edge_target graph e \<equiv> sg_GetTarget (mg_graph graph) e"

abbreviation edge_data :: "MultiLevelEdgeBasedGraph \<Rightarrow> EdgeID \<Rightarrow> EdgeData" where
  "edge_data graph e \<equiv> sg_GetEdgeData (mg_graph graph) e"

text \<open>Every node of the path is allowed and in the cell of the start.\<close>

inductive cell_path :: "MultiLevelPartition \<Rightarrow> MultiLevelEdgeBasedGraph \<Rightarrow> bool list \<Rightarrow> LevelID \<Rightarrow> NodeID \<Rightarrow> NodeID \<Rightarrow> Cost \<Rightarrow> bool"
  for p graph allowed_nodes l s where
  cell_path_start: "allowed_nodes ! s \<Longrightarrow> cell_path p graph allowed_nodes l s s cost_zero"
| cell_path_edge: "cell_path p graph allowed_nodes l s u c \<Longrightarrow> e \<in> set (out_edges graph u) \<Longrightarrow> ed_forward (edge_data graph e) \<Longrightarrow>
    allowed_nodes ! edge_target graph e \<Longrightarrow> GetCell p l (edge_target graph e) = GetCell p l s \<Longrightarrow>
    cell_path p graph allowed_nodes l s (edge_target graph e) (cost_add c (edge_cost (edge_data graph e)))"

text \<open>The graph: internal ranges are the edges inside the cell, every forward edge has a backward
  entry at its target and a positive weight, the edges are among those the cells were built from,
  \<open>base\<close>, and cells are nested.\<close>

definition customizable :: "MultiLevelPartition \<Rightarrow> 'e base_graph \<Rightarrow> MultiLevelEdgeBasedGraph \<Rightarrow> bool" where
  "customizable p base graph \<longleftrightarrow>
     (\<forall>l v. 1 \<le> l \<longrightarrow> l < GetNumberOfLevels p \<longrightarrow> v < sg_number_of_nodes (mg_graph graph) \<longrightarrow>
        GetInternalEdgeRange graph l v = Some (filter (\<lambda>e. GetCell p l (edge_target graph e) = GetCell p l v) (out_edges graph v))) \<and>
     (\<forall>v < sg_number_of_nodes (mg_graph graph). \<forall>e \<in> set (out_edges graph v).
        edge_target graph e < sg_number_of_nodes (mg_graph graph) \<and>
        (\<exists>e' \<in> set (out_edges graph (edge_target graph e)). edge_target graph e' = v \<and>
           (ed_forward (edge_data graph e) \<longrightarrow> ed_backward (edge_data graph e'))) \<and>
        (ed_forward (edge_data graph e) \<longrightarrow> 0 < ed_weight (edge_data graph e)) \<and>
        (\<exists>b \<in> set (base ! v). be_target b = edge_target graph e) \<and>
        (ed_forward (edge_data graph e) \<longrightarrow> (\<exists>b \<in> set (base ! v). be_target b = edge_target graph e \<and> be_forward b)) \<and>
        (ed_backward (edge_data graph e) \<longrightarrow> (\<exists>b \<in> set (base ! v). be_target b = edge_target graph e \<and> be_backward b))) \<and>
     length base = sg_number_of_nodes (mg_graph graph) \<and>
     (\<forall>v < sg_number_of_nodes (mg_graph graph). \<forall>b \<in> set (base ! v). be_target b < sg_number_of_nodes (mg_graph graph)) \<and>
     (\<forall>l v w. 1 \<le> l \<longrightarrow> Suc l < GetNumberOfLevels p \<longrightarrow> v < sg_number_of_nodes (mg_graph graph) \<longrightarrow>
        w < sg_number_of_nodes (mg_graph graph) \<longrightarrow> GetCell p l v = GetCell p l w \<longrightarrow> GetCell p (Suc l) v = GetCell p (Suc l) w)"

lemma customizableD:
  assumes "customizable p base graph" "v < sg_number_of_nodes (mg_graph graph)"
  shows "1 \<le> l \<Longrightarrow> l < GetNumberOfLevels p \<Longrightarrow> GetInternalEdgeRange graph l v =
      Some (filter (\<lambda>e. GetCell p l (edge_target graph e) = GetCell p l v) (out_edges graph v))"
    and "e \<in> set (out_edges graph v) \<Longrightarrow> edge_target graph e < sg_number_of_nodes (mg_graph graph)"
    and "e \<in> set (out_edges graph v) \<Longrightarrow> \<exists>e' \<in> set (out_edges graph (edge_target graph e)). edge_target graph e' = v \<and>
           (ed_forward (edge_data graph e) \<longrightarrow> ed_backward (edge_data graph e'))"
    and "e \<in> set (out_edges graph v) \<Longrightarrow> ed_forward (edge_data graph e) \<Longrightarrow> 0 < ed_weight (edge_data graph e)"
    and "1 \<le> l \<Longrightarrow> Suc l < GetNumberOfLevels p \<Longrightarrow> w < sg_number_of_nodes (mg_graph graph) \<Longrightarrow>
      GetCell p l v = GetCell p l w \<Longrightarrow> GetCell p (Suc l) v = GetCell p (Suc l) w"
    and "e \<in> set (out_edges graph v) \<Longrightarrow> (\<exists>b \<in> set (base ! v). be_target b = edge_target graph e) \<and>
      (ed_forward (edge_data graph e) \<longrightarrow> (\<exists>b \<in> set (base ! v). be_target b = edge_target graph e \<and> be_forward b)) \<and>
      (ed_backward (edge_data graph e) \<longrightarrow> (\<exists>b \<in> set (base ! v). be_target b = edge_target graph e \<and> be_backward b))"
    and "b \<in> set (base ! v) \<Longrightarrow> be_target b < sg_number_of_nodes (mg_graph graph)"
  using assms unfolding customizable_def by blast+

lemma customizable_length: "customizable p base graph \<Longrightarrow> length base = sg_number_of_nodes (mg_graph graph)"
  by (simp add: customizable_def)

definition boundary :: "MultiLevelPartition \<Rightarrow> 'e base_graph \<Rightarrow> LevelID \<Rightarrow> NodeID \<Rightarrow> bool" where
  "boundary p base l v \<longleftrightarrow> (\<exists>b \<in> set (base ! v). GetCell p l (be_target b) \<noteq> GetCell p l v)"

lemma boundaryI:
  assumes "customizable p base graph" "v < sg_number_of_nodes (mg_graph graph)" "e \<in> set (out_edges graph v)"
    and "GetCell p l (edge_target graph e) \<noteq> GetCell p l v"
  shows "boundary p base l v"
  using customizableD(6) [OF assms(1-3)] assms(4) unfolding boundary_def by metis

lemma is_source_boundary: "is_source p base l v \<Longrightarrow> boundary p base l v"
  by (auto simp: is_source_def cell_flags_def boundary_def)

lemma is_destination_boundary: "is_destination p base l v \<Longrightarrow> boundary p base l v"
  by (auto simp: is_destination_def cell_flags_def boundary_def)

lemma is_source_if:
  assumes "customizable p base graph" "v < sg_number_of_nodes (mg_graph graph)" "boundary p base l v"
    and "e \<in> set (out_edges graph v)" "GetCell p l (edge_target graph e) = GetCell p l v" "ed_forward (edge_data graph e)"
  shows "is_source p base l v"
proof -
  obtain b where "b \<in> set (base ! v)" "GetCell p l (be_target b) = GetCell p l v" "be_forward b"
    using customizableD(6) [OF assms(1,2,4)] assms(5,6) by metis
  then show ?thesis using assms(3) unfolding is_source_def cell_flags_def boundary_def by auto
qed

lemma is_destination_if:
  assumes "customizable p base graph" "v < sg_number_of_nodes (mg_graph graph)" "boundary p base l v"
    and "e \<in> set (out_edges graph v)" "GetCell p l (edge_target graph e) = GetCell p l v" "ed_backward (edge_data graph e)"
  shows "is_destination p base l v"
proof -
  obtain b where "b \<in> set (base ! v)" "GetCell p l (be_target b) = GetCell p l v" "be_backward b"
    using customizableD(6) [OF assms(1,2,4)] assms(5,6) by metis
  then show ?thesis using assms(3) unfolding is_destination_def cell_flags_def boundary_def by auto
qed

lemma boundary_below:
  assumes "customizable p base graph" "1 \<le> l" "Suc l < GetNumberOfLevels p" "v < sg_number_of_nodes (mg_graph graph)"
    and "boundary p base (Suc l) v"
  shows "boundary p base l v"
  using assms(2,3,5) customizableD(5,7) [OF assms(1,4)] unfolding boundary_def by metis

text \<open>A path that is not trivial leaves its start and enters its end inside the cell.\<close>

lemma cell_path_props:
  assumes ok: "customizable p base graph" and s: "s < sg_number_of_nodes (mg_graph graph)"
    and path: "cell_path p graph allowed_nodes l s v c"
  shows "v < sg_number_of_nodes (mg_graph graph) \<and> allowed_nodes ! s \<and> allowed_nodes ! v \<and> GetCell p l v = GetCell p l s \<and>
    (v = s \<and> c = cost_zero \<or> 0 < fst c \<and>
      (\<exists>e \<in> set (out_edges graph s). GetCell p l (edge_target graph e) = GetCell p l s \<and> ed_forward (edge_data graph e)) \<and>
      (\<exists>e \<in> set (out_edges graph v). GetCell p l (edge_target graph e) = GetCell p l v \<and> ed_backward (edge_data graph e)))"
  using path
proof (induction rule: cell_path.induct)
  case (cell_path_edge u c e)
  let ?v = "edge_target graph e"
  have u: "u < sg_number_of_nodes (mg_graph graph)" "GetCell p l u = GetCell p l s" using cell_path_edge.IH by blast+
  note c = customizableD [OF ok u(1)]
  have bwd: "\<exists>e' \<in> set (out_edges graph ?v). GetCell p l (edge_target graph e') = GetCell p l ?v \<and> ed_backward (edge_data graph e')"
    using c(3) [OF cell_path_edge.hyps(2)] cell_path_edge.hyps(3,5) u(2) by metis
  have pos: "0 < fst (edge_cost (edge_data graph e))"
    using c(4) [OF cell_path_edge.hyps(2,3)] by (simp add: edge_cost_def)
  have fwd: "\<exists>e \<in> set (out_edges graph s). GetCell p l (edge_target graph e) = GetCell p l s \<and> ed_forward (edge_data graph e)"
    using cell_path_edge.IH cell_path_edge.hyps(2,3,5) by blast
  have "0 \<le> fst c" using cell_path_edge.IH by (auto simp: cost_zero_def)
  then show ?case using c(2) [OF cell_path_edge.hyps(2)] cell_path_edge.IH cell_path_edge.hyps(4,5) bwd fwd pos by simp
qed (use s in simp)

lemmas cell_path_in = cell_path_props [THEN conjunct1]

lemma cell_path_nonneg:
  assumes "customizable p base graph" "s < sg_number_of_nodes (mg_graph graph)" "cell_path p graph allowed_nodes l s v c"
  shows "cost_zero \<le> c"
  using cell_path_props [OF assms] by (auto intro: cost_leI simp: cost_zero_def)

lemma cell_path_append:
  assumes "cell_path p graph allowed_nodes l s u c" "GetCell p l u = GetCell p l s"
    and "cell_path p graph allowed_nodes l u v d"
  shows "cell_path p graph allowed_nodes l s v (cost_add c d)"
  using assms(3)
proof (induction rule: cell_path.induct)
  case cell_path_start
  then show ?case using assms(1) by simp
next
  case (cell_path_edge w d e)
  then show ?case using assms(2) cell_path.cell_path_edge [OF cell_path_edge.IH] by (simp add: cost_add_assoc)
qed

lemma cell_path_up:
  assumes ok: "customizable p base graph" and l: "1 \<le> l" "Suc l < GetNumberOfLevels p" and s: "s < sg_number_of_nodes (mg_graph graph)"
    and path: "cell_path p graph allowed_nodes l s v c"
  shows "cell_path p graph allowed_nodes (Suc l) s v c"
  using path
proof (induction rule: cell_path.induct)
  case (cell_path_edge u c e)
  have u: "u < sg_number_of_nodes (mg_graph graph)" using cell_path_in [OF ok s cell_path_edge.hyps(1)] .
  note c = customizableD [OF ok u]
  have "GetCell p (Suc l) (edge_target graph e) = GetCell p (Suc l) s"
    using customizableD(5) [OF ok c(2) [OF cell_path_edge.hyps(2)] l s] cell_path_edge.hyps(5) by blast
  then show ?case using cell_path_edge by (blast intro: cell_path.cell_path_edge)
qed (rule cell_path_start)

section \<open>The values of a level\<close>

definition metric_at :: "CellMetric \<Rightarrow> nat \<Rightarrow> Cost" where
  "metric_at metric i = (weights metric ! i, durations metric ! i, distances metric ! i)"

definition no_path :: Cost where
  "no_path = (INVALID_EDGE_WEIGHT, MAXIMAL_EDGE_DURATION, INVALID_EDGE_DISTANCE)"

definition entry_ok :: "(Cost \<Rightarrow> bool) \<Rightarrow> Cost \<Rightarrow> bool" where
  "entry_ok W c \<longleftrightarrow> least_cost W c \<or> c = no_path \<and> (\<forall>d. \<not> W d)"

abbreviation sources_of :: "MultiLevelPartition \<Rightarrow> 'e base_graph \<Rightarrow> LevelID \<Rightarrow> CellID \<Rightarrow> NodeID list" where
  "sources_of p base l c \<equiv> level_sources p base l c"

abbreviation destinations_of :: "MultiLevelPartition \<Rightarrow> 'e base_graph \<Rightarrow> LevelID \<Rightarrow> CellID \<Rightarrow> NodeID list" where
  "destinations_of p base l c \<equiv> level_destinations p base l c"

definition value_pos :: "MultiLevelPartition \<Rightarrow> 'e base_graph \<Rightarrow> CellStorage \<Rightarrow> LevelID \<Rightarrow> CellID \<Rightarrow> nat \<Rightarrow> nat \<Rightarrow> nat" where
  "value_pos p base cells l c i j = GetOutRange cells (cs_GetCell cells l c) (sources_of p base l c ! i) ! j"

definition row_ok :: "MultiLevelPartition \<Rightarrow> 'e base_graph \<Rightarrow> MultiLevelEdgeBasedGraph \<Rightarrow> CellStorage \<Rightarrow> bool list \<Rightarrow> CellMetric \<Rightarrow>
    LevelID \<Rightarrow> CellID \<Rightarrow> nat \<Rightarrow> bool" where
  "row_ok p base graph cells allowed_nodes metric l c i \<longleftrightarrow> (\<forall>j < length (destinations_of p base l c).
     entry_ok (cell_path p graph allowed_nodes l (sources_of p base l c ! i) (destinations_of p base l c ! j))
       (metric_at metric (value_pos p base cells l c i j)))"

text \<open>Some path between two nodes, if there is any, is lighter than the weight of no path.\<close>

definition weights_fit :: "MultiLevelPartition \<Rightarrow> MultiLevelEdgeBasedGraph \<Rightarrow> bool list \<Rightarrow> bool" where
  "weights_fit p graph allowed_nodes \<longleftrightarrow> (\<forall>l s t c. 1 \<le> l \<longrightarrow> l < GetNumberOfLevels p \<longrightarrow>
     s < sg_number_of_nodes (mg_graph graph) \<longrightarrow> cell_path p graph allowed_nodes l s t c \<longrightarrow> (\<exists>d. cell_path p graph allowed_nodes l s t d \<and> fst d < INVALID_EDGE_WEIGHT))"

definition storage_ok :: "MultiLevelPartition \<Rightarrow> 'e base_graph \<Rightarrow> CellStorage \<Rightarrow> bool" where
  "storage_ok p base cells \<longleftrightarrow> cells_in_range p base \<and> small_cells p base \<and>
     cells = fst (CellStorage_init p base)"

lemma storage_okD:
  assumes "storage_ok p base cells"
  shows "cells_in_range p base" "small_cells p base"
    and "CellStorage_init p base = (cells, snd (CellStorage_init p base))"
    and "built p base (GetNumberOfLevels p) cells"
proof -
  show r: "cells_in_range p base" "small_cells p base"
    "CellStorage_init p base = (cells, snd (CellStorage_init p base))"
    using assms by (simp_all add: storage_ok_def)
  show "built p base (GetNumberOfLevels p) cells" by (rule CellStorage_init_spec(1) [OF r(1,3)])
qed

lemma find_index_notin: "x \<notin> set xs \<Longrightarrow> find_index x xs = length xs"
  unfolding find_index_def by (induction xs) auto

lemma set_clique_list:
  "(w, a) \<in> set (clique_list dests durs dists ws j) \<longleftrightarrow>
     (\<exists>i < length ws. ws ! i \<noteq> INVALID_EDGE_WEIGHT \<and> w = dests ! (j + i) \<and> a = (ws ! i, durs ! (j + i), dists ! (j + i)))"
proof (induction ws arbitrary: j)
  case (Cons x ws)
  then show ?case by (auto simp: Cons.IH Ex_less_Suc2)
qed simp

lemma out_range_of:
  assumes st: "storage_ok p base cells" and l: "1 \<le> l" "l < GetNumberOfLevels p" "c < GetNumberOfCells p l"
  defines "cell \<equiv> cs_GetCell cells l c"
  shows "GetSourceNodes cells cell = sources_of p base l c" "GetDestinationNodes cells cell = destinations_of p base l c"
    and "i < length (sources_of p base l c) \<Longrightarrow>
      GetOutRange cells cell (sources_of p base l c ! i) = map (value_pos p base cells l c i) [0..<length (destinations_of p base l c)]"
    and "v \<notin> set (sources_of p base l c) \<Longrightarrow> GetOutRange cells cell v = []"
proof -
  have blt: "built p base (GetNumberOfLevels p) cells" by (rule storage_okD(4) [OF st])
  note b = built_cell [OF blt l, folded cell_def]
  show "GetSourceNodes cells cell = sources_of p base l c" "GetDestinationNodes cells cell = destinations_of p base l c"
    by (rule b(1), rule b(2))
  show "GetOutRange cells cell v = []" if "v \<notin> set (sources_of p base l c)"
    using that by (simp add: GetOutRange_def b(1,3) find_index_notin)
  assume i: "i < length (sources_of p base l c)"
  have small: "small_cells p base" using st by (simp add: storage_ok_def)
  have dist: "distinct (GetSourceNodes cells cell)" "distinct (GetDestinationNodes cells cell)"
    unfolding b(1,2) by (simp_all add: level_sources_def level_destinations_def)
  have "length (sources_of p base l c) * length (destinations_of p base l c) < 2 ^ 32"
    using small l unfolding small_cells_def by blast
  then have "length (GetOutRange cells cell (sources_of p base l c ! i)) = length (destinations_of p base l c)"
    using cell_ranges(1) [OF dist, unfolded b(1-4), of i] i by simp
  then show "GetOutRange cells cell (sources_of p base l c ! i) =
      map (value_pos p base cells l c i) [0..<length (destinations_of p base l c)]"
    by (intro nth_equalityI) (simp_all add: value_pos_def cell_def)
qed

lemma subcell_arcs_iff:
  assumes st: "storage_ok p base cells" and l: "1 \<le> l" "Suc l < GetNumberOfLevels p" and v: "v < sg_number_of_nodes (mg_graph graph)" "v < length base"
    and rows: "\<forall>c < GetNumberOfCells p l. \<forall>i < length (sources_of p base l c). row_ok p base graph cells allowed_nodes metric l c i"
    and fit: "weights_fit p graph allowed_nodes"
  defines "c \<equiv> GetCell p l v"
  shows "(w, a) \<in> set (subcell_arcs p cells metric (Suc l) v) \<longleftrightarrow>
    v \<in> set (sources_of p base l c) \<and> w \<in> set (destinations_of p base l c) \<and>
    least_cost (cell_path p graph allowed_nodes l v w) a"
proof -
  have c: "c < GetNumberOfCells p l" using st l v by (simp add: storage_ok_def cells_in_range_def c_def)
  have l': "l < GetNumberOfLevels p" using l by simp
  note r = out_range_of [OF st l(1) l' c]
  show ?thesis
  proof (cases "v \<in> set (sources_of p base l c)")
    case False
    then show ?thesis using l(1) r(4) [OF False] by (simp add: subcell_arcs_def c_def [symmetric] GetOutWeight_def Let_def)
  next
    case True
    then obtain i where i: "i < length (sources_of p base l c)" "sources_of p base l c ! i = v" by (metis in_set_conv_nth)
    let ?D = "destinations_of p base l c" and ?pos = "value_pos p base cells l c i"
    have out: "GetOutRange cells (cs_GetCell cells l c) v = map ?pos [0..<length ?D]" using r(3) [OF i(1)] i(2) by simp
    have mem: "(w, a) \<in> set (subcell_arcs p cells metric (Suc l) v) \<longleftrightarrow>
        (\<exists>j < length ?D. weights metric ! ?pos j \<noteq> INVALID_EDGE_WEIGHT \<and> w = ?D ! j \<and> a = metric_at metric (?pos j))"
      using l(1) by (simp add: subcell_arcs_def c_def [symmetric] GetOutWeight_def GetOutDuration_def GetOutDistance_def
          Let_def out r(2) set_clique_list metric_at_def cong: conj_cong)
    have valid: "weights metric ! ?pos j \<noteq> INVALID_EDGE_WEIGHT \<and> a = metric_at metric (?pos j) \<longleftrightarrow>
        least_cost (cell_path p graph allowed_nodes l v (?D ! j)) a" if j: "j < length ?D" for j
    proof -
      let ?W = "cell_path p graph allowed_nodes l v (?D ! j)"
      have ok: "entry_ok ?W (metric_at metric (?pos j))" using rows c i j unfolding row_ok_def by blast
      have inv: "fst (metric_at metric (?pos j)) = weights metric ! ?pos j" by (simp add: metric_at_def)
      have "fst d < INVALID_EDGE_WEIGHT" if d: "least_cost ?W d" for d
      proof -
        obtain e where e: "?W e" "fst e < INVALID_EDGE_WEIGHT" using fit l(1) l' v(1) d unfolding weights_fit_def least_cost_def by blast
        then have "d \<le> e" using d by (simp add: least_cost_def)
        then show ?thesis using e(2) cost_fst_mono [of d e] by simp
      qed
      moreover have "d = e" if "least_cost ?W d" "least_cost ?W e" for d e
        using that unfolding least_cost_def by (meson order_antisym)
      moreover have "fst no_path = INVALID_EDGE_WEIGHT" by (simp add: no_path_def)
      ultimately show ?thesis using ok inv unfolding entry_ok_def
        by (metis least_cost_def less_irrefl)
    qed
    show ?thesis unfolding mem using valid True by (metis in_set_conv_nth)
  qed
qed

section \<open>The search inside a cell\<close>

definition cell_nodes :: "MultiLevelPartition \<Rightarrow> MultiLevelEdgeBasedGraph \<Rightarrow> bool list \<Rightarrow> LevelID \<Rightarrow> CellID \<Rightarrow> NodeID set" where
  "cell_nodes p graph allowed_nodes l c = {v. v < sg_number_of_nodes (mg_graph graph) \<and> allowed_nodes ! v \<and> GetCell p l v = c}"

text \<open>The input of the search on a level: the rows of the level below are right.\<close>

definition level_input :: "MultiLevelPartition \<Rightarrow> 'e base_graph \<Rightarrow> MultiLevelEdgeBasedGraph \<Rightarrow> CellStorage \<Rightarrow> bool list \<Rightarrow> CellMetric \<Rightarrow> LevelID \<Rightarrow> bool" where
  "level_input p base graph cells allowed_nodes metric l \<longleftrightarrow>
     customizable p base graph \<and> storage_ok p base cells \<and> weights_fit p graph allowed_nodes \<and> 1 \<le> l \<and> l < GetNumberOfLevels p \<and>
     (1 < l \<longrightarrow> (\<forall>c < GetNumberOfCells p (l - 1). \<forall>i < length (sources_of p base (l - 1) c).
        row_ok p base graph cells allowed_nodes metric (l - 1) c i))"

lemma level_inputD:
  assumes "level_input p base graph cells allowed_nodes metric l"
  shows "customizable p base graph" "storage_ok p base cells" "weights_fit p graph allowed_nodes" "1 \<le> l" "l < GetNumberOfLevels p"
  using assms by (simp_all add: level_input_def)

lemma subcell_arcs_one: "set (subcell_arcs p cells metric 1 v) = {}"
  by (simp add: subcell_arcs_def)

lemma subcell_arcs_spec:
  assumes inp: "level_input p base graph cells allowed_nodes metric l" and v: "v < sg_number_of_nodes (mg_graph graph)" and l: "1 < l"
  shows "(w, a) \<in> set (subcell_arcs p cells metric l v) \<longleftrightarrow>
    v \<in> set (sources_of p base (l - 1) (GetCell p (l - 1) v)) \<and> w \<in> set (destinations_of p base (l - 1) (GetCell p (l - 1) v)) \<and>
    least_cost (cell_path p graph allowed_nodes (l - 1) v w) a"
proof -
  have "1 \<le> l - 1" "Suc (l - 1) < GetNumberOfLevels p" "Suc (l - 1) = l" using inp l by (auto simp: level_input_def)
  then show ?thesis
    using subcell_arcs_iff [OF level_inputD(2) [OF inp], of "l - 1" v graph allowed_nodes metric w a] v inp l
      customizable_length [OF level_inputD(1) [OF inp]]
    by (simp add: level_input_def)
qed

lemma entry_least:
  assumes inp: "level_input p base graph cells allowed_nodes metric l" and v: "v < sg_number_of_nodes (mg_graph graph)" and l: "1 < l"
    and st: "v \<in> set (sources_of p base (l - 1) (GetCell p (l - 1) v))" "w \<in> set (destinations_of p base (l - 1) (GetCell p (l - 1) v))"
    and path: "cell_path p graph allowed_nodes (l - 1) v w d"
  shows "\<exists>a. least_cost (cell_path p graph allowed_nodes (l - 1) v w) a"
proof -
  let ?c = "GetCell p (l - 1) v"
  have "1 \<le> l - 1" "l - 1 < GetNumberOfLevels p" using inp l by (auto simp: level_input_def)
  then have c: "?c < GetNumberOfCells p (l - 1)" using level_inputD(2) [OF inp] v customizable_length [OF level_inputD(1) [OF inp]]
    by (simp add: storage_ok_def cells_in_range_def)
  obtain i j where ij: "i < length (sources_of p base (l - 1) ?c)" "sources_of p base (l - 1) ?c ! i = v"
    "j < length (destinations_of p base (l - 1) ?c)" "destinations_of p base (l - 1) ?c ! j = w"
    using st by (metis in_set_conv_nth)
  have "row_ok p base graph cells allowed_nodes metric (l - 1) ?c i" using inp l c ij(1) by (simp add: level_input_def)
  then have "entry_ok (cell_path p graph allowed_nodes (l - 1) v w) (metric_at metric (value_pos p base cells (l - 1) ?c i j))"
    using ij(3) unfolding row_ok_def ij(2) ij(4) [symmetric] by blast
  then show ?thesis using path unfolding entry_ok_def by blast
qed

lemma level_arcs_iff:
  assumes inp: "level_input p base graph cells allowed_nodes metric l" and v: "v < sg_number_of_nodes (mg_graph graph)"
  shows "(w, a) \<in> set (level_arcs p graph allowed_nodes l v) \<longleftrightarrow>
    (\<exists>e \<in> set (out_edges graph v). GetCell p l (edge_target graph e) = GetCell p l v \<and>
       relaxes p graph allowed_nodes l v e \<and> w = edge_target graph e \<and> a = edge_cost (edge_data graph e))"
proof -
  note r = customizableD(1) [OF level_inputD(1) [OF inp] v level_inputD(4,5) [OF inp]]
  show ?thesis
    unfolding level_arcs_def r option.sel set_map set_filter image_iff edge_arc_def prod.inject mem_Collect_eq by blast
qed

text \<open>Every arc is a path inside the cell.\<close>

lemma arc_is_path:
  assumes inp: "level_input p base graph cells allowed_nodes metric l" and v: "v < sg_number_of_nodes (mg_graph graph)" "allowed_nodes ! v"
    and arc: "(w, a) \<in> set (level_arcs p graph allowed_nodes l v) \<union> set (subcell_arcs p cells metric l v)"
  shows "cell_path p graph allowed_nodes l v w a"
proof (cases "(w, a) \<in> set (level_arcs p graph allowed_nodes l v)")
  case True
  then obtain e where e: "e \<in> set (out_edges graph v)" "GetCell p l (edge_target graph e) = GetCell p l v"
    "relaxes p graph allowed_nodes l v e" "w = edge_target graph e" "a = edge_cost (edge_data graph e)"
    using level_arcs_iff [OF inp v(1)] by blast
  have "cell_path p graph allowed_nodes l v w (cost_add cost_zero a)"
    unfolding e(4,5) by (rule cell_path_edge [OF cell_path_start]) (use e v in \<open>auto simp: relaxes_def\<close>)
  then show ?thesis by simp
next
  case False
  then have sub: "(w, a) \<in> set (subcell_arcs p cells metric l v)" using arc by blast
  then have l: "1 < l" using level_inputD(4) [OF inp] subcell_arcs_one by (cases "l = 1") auto
  have "cell_path p graph allowed_nodes (l - 1) v w a"
    using sub subcell_arcs_spec [OF inp v(1) l] by (simp add: least_cost_def)
  moreover have "1 \<le> l - 1" "Suc (l - 1) < GetNumberOfLevels p" "Suc (l - 1) = l" using inp l by (auto simp: level_input_def)
  ultimately show ?thesis using cell_path_up [OF level_inputD(1) [OF inp] _ _ v(1), of "l - 1"] by metis
qed

lemma walk_is_path:
  assumes inp: "level_input p base graph cells allowed_nodes metric l" and s: "s < sg_number_of_nodes (mg_graph graph)" "allowed_nodes ! s"
    and w: "walk (level_arcs p graph allowed_nodes l) (subcell_arcs p cells metric l) s v c"
  shows "cell_path p graph allowed_nodes l s v c"
  using w
proof (induction rule: walk.induct)
  case walk_start
  then show ?case using s by (intro cell_path_start)
next
  case (walk_arc u c v a)
  note u = cell_path_props [OF level_inputD(1) [OF inp] s(1) walk_arc.IH]
  then show ?case using cell_path_append [OF walk_arc.IH] arc_is_path [OF inp _ _ walk_arc.hyps(2)] by blast
qed

lemma cell_arcs_ok:
  assumes inp: "level_input p base graph cells allowed_nodes metric l"
  shows "arcs_ok (level_arcs p graph allowed_nodes l) (subcell_arcs p cells metric l) (cell_nodes p graph allowed_nodes l c)"
proof -
  note ok = level_inputD(1) [OF inp]
  let ?B = "level_arcs p graph allowed_nodes l" and ?C = "subcell_arcs p cells metric l" and ?A = "cell_nodes p graph allowed_nodes l c"
  have inA: "v \<in> ?A" if "u \<in> ?A" "(v, a) \<in> set (?B u) \<union> set (?C u)" for u v a
    using cell_path_props [OF ok _ arc_is_path [OF inp _ _ that(2)]] that(1) by (auto simp: cell_nodes_def)
  have posB: "0 < fst a" if u: "u \<in> ?A" and a: "(v, a) \<in> set (?B u)" for u v a
  proof -
    have n: "u < sg_number_of_nodes (mg_graph graph)" using u by (simp add: cell_nodes_def)
    obtain e where "e \<in> set (out_edges graph u)" "relaxes p graph allowed_nodes l u e" "a = edge_cost (edge_data graph e)"
      using a level_arcs_iff [OF inp n] by blast
    then show ?thesis using customizableD(4) [OF ok n] by (simp add: relaxes_def edge_cost_def)
  qed
  have posC: "0 < fst a \<or> v = u \<and> a = cost_zero" if u: "u \<in> ?A" and a: "(v, a) \<in> set (?C u)" for u v a
  proof -
    have arc: "(v, a) \<in> set (?B u) \<union> set (?C u)" using a by blast
    show ?thesis using cell_path_props [OF ok _ arc_is_path [OF inp _ _ arc]] u by (auto simp: cell_nodes_def)
  qed
  have tri: "\<exists>d. (w, d) \<in> set (?C u) \<and> d \<le> cost_add a b"
    if u: "u \<in> ?A" and a: "(v, a) \<in> set (?C u)" and b: "(w, b) \<in> set (?C v)" for u v w a b
  proof -
    have l: "1 < l" using a level_inputD(4) [OF inp] subcell_arcs_one [of p cells metric u] by (cases "l = 1") auto
    have n: "u < sg_number_of_nodes (mg_graph graph)" using u by (simp add: cell_nodes_def)
    have a': "u \<in> set (sources_of p base (l - 1) (GetCell p (l - 1) u))" "cell_path p graph allowed_nodes (l - 1) u v a"
      using subcell_arcs_spec [OF inp n l] a unfolding least_cost_def by blast+
    have v: "v < sg_number_of_nodes (mg_graph graph)" "GetCell p (l - 1) v = GetCell p (l - 1) u"
      using cell_path_props [OF ok n a'(2)] by blast+
    have b': "w \<in> set (destinations_of p base (l - 1) (GetCell p (l - 1) u))" "cell_path p graph allowed_nodes (l - 1) v w b"
      using subcell_arcs_spec [OF inp v(1) l] b unfolding v(2) least_cost_def by blast+
    have path: "cell_path p graph allowed_nodes (l - 1) u w (cost_add a b)" by (rule cell_path_append [OF a'(2) v(2) b'(2)])
    obtain d where d: "least_cost (cell_path p graph allowed_nodes (l - 1) u w) d"
      using entry_least [OF inp n l a'(1) b'(1) path] by blast
    then have "(w, d) \<in> set (?C u)" using subcell_arcs_spec [OF inp n l] a'(1) b'(1) by blast
    moreover have "d \<le> cost_add a b" using d path by (simp add: least_cost_def)
    ultimately show ?thesis by blast
  qed
  show ?thesis unfolding arcs_ok_def using inA posB posC tri by blast
qed

text \<open>A path between boundary nodes of a subcell is undercut by an arc of the subcell.\<close>

lemma subcell_shortcut:
  assumes inp: "level_input p base graph cells allowed_nodes metric l" and l: "1 < l" and u: "u < sg_number_of_nodes (mg_graph graph)"
    and bd: "boundary p base (l - 1) u" "boundary p base (l - 1) v"
    and path: "cell_path p graph allowed_nodes (l - 1) u v e"
    and walk: "walk (level_arcs p graph allowed_nodes l) (subcell_arcs p cells metric l) s u d"
  shows "\<exists>d' \<le> cost_add d e. walk (level_arcs p graph allowed_nodes l) (subcell_arcs p cells metric l) s v d'"
proof -
  note ok = level_inputD(1) [OF inp]
  note pr = cell_path_props [OF ok u path]
  show ?thesis
  proof (cases "v = u")
    case True
    have "d \<le> cost_add d e" using cost_add_mono2 [OF cell_path_nonneg [OF ok u path], of d] by simp
    then show ?thesis using True walk by blast
  next
    case False
    let ?c = "GetCell p (l - 1) u"
    have v: "v < sg_number_of_nodes (mg_graph graph)" "GetCell p (l - 1) v = ?c" using pr by blast+
    have "is_source p base (l - 1) u" using is_source_if [OF ok u bd(1)] pr False by blast
    moreover have "is_destination p base (l - 1) v" using is_destination_if [OF ok v(1) bd(2)] pr False by blast
    ultimately have st: "u \<in> set (sources_of p base (l - 1) ?c)" "v \<in> set (destinations_of p base (l - 1) ?c)"
      using u v customizable_length [OF ok] by (simp_all add: level_sources_def level_destinations_def)
    obtain a where a: "least_cost (cell_path p graph allowed_nodes (l - 1) u v) a"
      using entry_least [OF inp u l st path] by blast
    then have "(v, a) \<in> set (subcell_arcs p cells metric l u)" using subcell_arcs_spec [OF inp u l] st by blast
    then have "walk (level_arcs p graph allowed_nodes l) (subcell_arcs p cells metric l) s v (cost_add d a)"
      by (intro walk_arc [OF walk]) blast
    moreover have "a \<le> e" using a path by (simp add: least_cost_def)
    ultimately show ?thesis using cost_add_mono2 by blast
  qed
qed

text \<open>A path inside the cell, cut where it crosses subcells.\<close>

lemma path_cut:
  assumes inp: "level_input p base graph cells allowed_nodes metric l" and l: "1 < l" and s: "s < sg_number_of_nodes (mg_graph graph)"
    and bd: "boundary p base (l - 1) s" and path: "cell_path p graph allowed_nodes l s v c"
  shows "\<exists>u d e. walk (level_arcs p graph allowed_nodes l) (subcell_arcs p cells metric l) s u d \<and>
    u < sg_number_of_nodes (mg_graph graph) \<and> boundary p base (l - 1) u \<and>
    cell_path p graph allowed_nodes (l - 1) u v e \<and> cost_add d e \<le> c"
  using path
proof (induction rule: cell_path.induct)
  case cell_path_start
  have "cell_path p graph allowed_nodes (l - 1) s s cost_zero" by (rule cell_path.cell_path_start) (rule cell_path_start)
  then show ?case using walk_start s bd by (metis cost_add_zero(1) order_refl)
next
  case (cell_path_edge v c x)
  note ok = level_inputD(1) [OF inp]
  let ?w = "edge_target graph x" and ?a = "edge_cost (edge_data graph x)"
  obtain u d e where ude: "walk (level_arcs p graph allowed_nodes l) (subcell_arcs p cells metric l) s u d"
    "u < sg_number_of_nodes (mg_graph graph)" "boundary p base (l - 1) u"
    "cell_path p graph allowed_nodes (l - 1) u v e" "cost_add d e \<le> c" using cell_path_edge.IH by blast
  have v: "v < sg_number_of_nodes (mg_graph graph)" "GetCell p (l - 1) v = GetCell p (l - 1) u" "allowed_nodes ! v"
    using cell_path_props [OF ok ude(2,4)] by blast+
  have vl: "GetCell p l v = GetCell p l s" using cell_path_props [OF ok s cell_path_edge.hyps(1)] by blast
  have le: "cost_add (cost_add d e) ?a \<le> cost_add c ?a" using ude(5) by (rule cost_add_mono1)
  show ?case
  proof (cases "GetCell p (l - 1) ?w = GetCell p (l - 1) v")
    case True
    have "cell_path p graph allowed_nodes (l - 1) u ?w (cost_add e ?a)"
      using cell_path.cell_path_edge [OF ude(4) cell_path_edge.hyps(2-4)] True v(2) by simp
    then show ?thesis using ude(1-3) le unfolding cost_add_assoc by blast
  next
    case False
    then have bv: "boundary p base (l - 1) v" using boundaryI [OF ok v(1) cell_path_edge.hyps(2)] by blast
    obtain d' where d': "d' \<le> cost_add d e" "walk (level_arcs p graph allowed_nodes l) (subcell_arcs p cells metric l) s v d'"
      using subcell_shortcut [OF inp l ude(2,3) bv ude(4,1)] by blast
    have "relaxes p graph allowed_nodes l v x"
      using cell_path_edge.hyps(3,4) False by (simp add: relaxes_def)
    then have "(?w, ?a) \<in> set (level_arcs p graph allowed_nodes l v)"
      using level_arcs_iff [OF inp v(1)] cell_path_edge.hyps(2,5) vl by auto
    then have "walk (level_arcs p graph allowed_nodes l) (subcell_arcs p cells metric l) s ?w (cost_add d' ?a)"
      by (intro walk_arc [OF d'(2)]) blast
    moreover have "cost_add d' ?a \<le> cost_add c ?a" using le cost_add_mono1 [OF d'(1)] by (rule order_trans [rotated])
    moreover have w: "?w < sg_number_of_nodes (mg_graph graph)" using customizableD(2) [OF ok v(1) cell_path_edge.hyps(2)] .
    moreover have "boundary p base (l - 1) ?w"
    proof -
      obtain e' where "e' \<in> set (out_edges graph ?w)" "edge_target graph e' = v"
        using customizableD(3) [OF ok v(1) cell_path_edge.hyps(2)] by blast
      then show ?thesis using boundaryI [OF ok w] False by metis
    qed
    moreover have "cell_path p graph allowed_nodes (l - 1) ?w ?w cost_zero" by (rule cell_path.cell_path_start) (rule cell_path_edge.hyps(4))
    ultimately show ?thesis by (metis cost_add_zero(1))
  qed
qed

lemma path_is_walk:
  assumes inp: "level_input p base graph cells allowed_nodes metric l" and s: "s < sg_number_of_nodes (mg_graph graph)"
    and bd: "boundary p base l s" "boundary p base l t" and path: "cell_path p graph allowed_nodes l s t c"
  shows "\<exists>d \<le> c. walk (level_arcs p graph allowed_nodes l) (subcell_arcs p cells metric l) s t d"
proof (cases "l = 1")
  case True
  note ok = level_inputD(1) [OF inp]
  have "walk (level_arcs p graph allowed_nodes l) (subcell_arcs p cells metric l) s t c"
    using path
  proof (induction rule: cell_path.induct)
    case (cell_path_edge u c e)
    have u: "u < sg_number_of_nodes (mg_graph graph)" "GetCell p l u = GetCell p l s"
      using cell_path_props [OF ok s cell_path_edge.hyps(1)] by blast+
    have "relaxes p graph allowed_nodes l u e" using cell_path_edge.hyps(3,4) True by (simp add: relaxes_def)
    then have "(edge_target graph e, edge_cost (edge_data graph e)) \<in> set (level_arcs p graph allowed_nodes l u)"
      using level_arcs_iff [OF inp u(1)] cell_path_edge.hyps(2,5) u(2) by auto
    then show ?case by (intro walk_arc [OF cell_path_edge.IH]) blast
  qed (rule walk_start)
  then show ?thesis by blast
next
  case False
  then have l: "1 < l" using level_inputD(4) [OF inp] by simp
  note ok = level_inputD(1) [OF inp]
  have lv: "1 \<le> l - 1" "Suc (l - 1) < GetNumberOfLevels p" "Suc (l - 1) = l" using inp l by (auto simp: level_input_def)
  have t: "t < sg_number_of_nodes (mg_graph graph)" using cell_path_in [OF ok s path] .
  have b: "boundary p base (l - 1) s" "boundary p base (l - 1) t"
    using boundary_below [OF ok lv(1,2) s] boundary_below [OF ok lv(1,2) t] bd unfolding lv(3) by blast+
  obtain u d e where ude: "walk (level_arcs p graph allowed_nodes l) (subcell_arcs p cells metric l) s u d"
    "u < sg_number_of_nodes (mg_graph graph)" "boundary p base (l - 1) u"
    "cell_path p graph allowed_nodes (l - 1) u t e" "cost_add d e \<le> c"
    using path_cut [OF inp l s b(1) path] by blast
  obtain d' where "d' \<le> cost_add d e" "walk (level_arcs p graph allowed_nodes l) (subcell_arcs p cells metric l) s t d'"
    using subcell_shortcut [OF inp l ude(2,3) b(2) ude(4,1)] by blast
  then show ?thesis using ude(5) order_trans by blast
qed

definition label_value :: "labels \<Rightarrow> NodeID \<Rightarrow> Cost" where
  "label_value m t = (case m t of None \<Rightarrow> no_path | Some (c, f, r) \<Rightarrow> c)"

lemma search_entry:
  assumes inp: "level_input p base graph cells allowed_nodes metric l" and s: "s < sg_number_of_nodes (mg_graph graph)" "allowed_nodes ! s"
    and t: "t < sg_number_of_nodes (mg_graph graph)" and bd: "boundary p base l s" "boundary p base l t"
    and inv: "search_inv (level_arcs p graph allowed_nodes l) (subcell_arcs p cells metric l) s m"
    and stop: "(\<forall>y c f. m y \<noteq> Some (c, f, False)) \<or> (allowed_nodes ! t \<longrightarrow> settled m t)"
  shows "entry_ok (cell_path p graph allowed_nodes l s t) (label_value m t)"
proof -
  let ?W = "walk (level_arcs p graph allowed_nodes l) (subcell_arcs p cells metric l) s t"
  let ?P = "cell_path p graph allowed_nodes l s t"
  have sound: "?P c" if "?W c" for c using walk_is_path [OF inp s that] .
  have complete: "\<exists>d \<le> c. ?W d" if "?P c" for c using path_is_walk [OF inp s(1) bd that] .
  have res: "case m t of None \<Rightarrow> \<forall>d. \<not> ?W d | Some (c, f, r) \<Rightarrow> least_cost ?W c"
  proof (cases "settled m t \<or> (\<forall>y c f. m y \<noteq> Some (c, f, False))")
    case True
    have "s \<in> cell_nodes p graph allowed_nodes l (GetCell p l s)" using s by (simp add: cell_nodes_def)
    from search_result [OF inv cell_arcs_ok [OF inp] this True] show ?thesis .
  next
    case False
    then have "\<not> allowed_nodes ! t" using stop by blast
    then have none: "\<not> ?W c" for c using cell_path_props [OF level_inputD(1) [OF inp] s(1)] sound by blast
    then have "m t = None" using soundD(1) [OF search_invD(1) [OF inv], of t] by (cases "m t") auto
    then show ?thesis using none by simp
  qed
  show ?thesis
  proof (cases "m t")
    case None
    then have "\<forall>d. \<not> ?W d" using res by simp
    then have "\<not> ?P d" for d using complete by blast
    then show ?thesis using None by (simp add: entry_ok_def label_value_def)
  next
    case (Some x)
    obtain c f r where x: "m t = Some (c, f, r)" using Some by (cases x) auto
    then have c: "?W c" "\<And>d. ?W d \<Longrightarrow> c \<le> d"
      using res by (simp_all add: least_cost_def)
    have "c \<le> d" if "?P d" for d using complete [OF that] c(2) order_trans by blast
    then show ?thesis using sound [OF c(1)] x by (simp add: entry_ok_def label_value_def least_cost_def)
  qed
qed

section \<open>Writing a row\<close>

definition metric_size :: "CellMetric \<Rightarrow> nat \<Rightarrow> bool" where
  "metric_size metric n \<longleftrightarrow> length (weights metric) = n \<and> length (durations metric) = n \<and> length (distances metric) = n"

lemma write_row_spec:
  assumes "metric_size metric n" "distinct ps" "set ps \<subseteq> {..<n}" "length ps = length ds"
  shows "metric_size (write_row S q ds ps metric) n \<and>
    (\<forall>j < length ds. metric_at (write_row S q ds ps metric) (ps ! j) = label_value (heap_labels S q) (ds ! j)) \<and>
    (\<forall>k. k \<notin> set ps \<longrightarrow> metric_at (write_row S q ds ps metric) k = metric_at metric k)"
  using assms
proof (induction ds arbitrary: ps metric)
  case (Cons d ds)
  obtain i is' where ps: "ps = i # is'" using Cons.prems(4) by (cases ps) auto
  let ?ins = "qh_was_inserted S q d"
  define m where "m = \<lparr>weights = (weights metric)[i := (if ?ins then qh_get_key S q d else INVALID_EDGE_WEIGHT)],
    durations = (durations metric)[i := (if ?ins then hc_duration (qh_get_data S q d) else MAXIMAL_EDGE_DURATION)],
    distances = (distances metric)[i := (if ?ins then hc_distance (qh_get_data S q d) else INVALID_EDGE_DISTANCE)]\<rparr>"
  have eq: "write_row S q (d # ds) ps metric = write_row S q ds is' m" by (simp add: ps m_def Let_def)
  have i: "i < n" using Cons.prems(3) ps by simp
  have size: "metric_size m n" using Cons.prems(1) by (simp add: m_def metric_size_def)
  have at: "metric_at m k = (if k = i then label_value (heap_labels S q) d else metric_at metric k)" for k
    using Cons.prems(1) i by (simp add: m_def metric_at_def metric_size_def label_value_def heap_labels_def qh_view_def no_path_def)
  have "distinct is'" "set is' \<subseteq> {..<n}" "length is' = length ds" "i \<notin> set is'" using Cons.prems ps by auto
  note ih = Cons.IH [OF size this(1-3)]
  have "metric_at (write_row S q ds is' m) (ps ! j) = label_value (heap_labels S q) ((d # ds) ! j)" if j: "j < length (d # ds)" for j
  proof (cases j)
    case 0
    then show ?thesis using ih \<open>i \<notin> set is'\<close> at [of i] by (simp add: ps)
  next
    case (Suc k)
    then show ?thesis using ih j by (simp add: ps)
  qed
  then show ?case unfolding eq using ih at by (auto simp: ps)
qed simp

section \<open>One source\<close>

lemma value_pos_laws:
  assumes st: "storage_ok p base cells" and v: "(l, c, i, j) \<in> value_slots p base"
  shows "value_pos p base cells l c i j < length (weights (MakeMetric cells))"
    and "(l', c', i', j') \<in> value_slots p base \<Longrightarrow>
      value_pos p base cells l c i j = value_pos p base cells l' c' i' j' \<Longrightarrow> l = l' \<and> c = c' \<and> i = i' \<and> j = j'"
proof -
  note s = CellStorage_positions_spec [OF storage_okD(1-3) [OF st]]
  show "value_pos p base cells l c i j < length (weights (MakeMetric cells))"
    using bspec [OF conjunct2 [OF s] v] by (simp add: value_pos_def)
  assume v': "(l', c', i', j') \<in> value_slots p base"
    and eq: "value_pos p base cells l c i j = value_pos p base cells l' c' i' j'"
  have "(l, c, i, j) = (l', c', i', j')" by (rule inj_onD [OF conjunct1 [OF s] _ v v']) (use eq in \<open>simp add: value_pos_def\<close>)
  then show "l = l' \<and> c = c' \<and> i = i' \<and> j = j'" by simp
qed

text \<open>The rows of all sources; those of \<open>D\<close> are computed, all others still hold the initial values.\<close>

definition metric_rows :: "MultiLevelPartition \<Rightarrow> 'e base_graph \<Rightarrow> (LevelID \<times> CellID \<times> nat) set" where
  "metric_rows p base = {(l, c, i). 1 \<le> l \<and> l < GetNumberOfLevels p \<and> c < GetNumberOfCells p l \<and> i < length (sources_of p base l c)}"

definition rows_done :: "MultiLevelPartition \<Rightarrow> 'e base_graph \<Rightarrow> MultiLevelEdgeBasedGraph \<Rightarrow> CellStorage \<Rightarrow> bool list \<Rightarrow>
    (LevelID \<times> CellID \<times> nat) set \<Rightarrow> CellMetric \<Rightarrow> bool" where
  "rows_done p base graph cells allowed_nodes D metric \<longleftrightarrow> metric_size metric (length (weights (MakeMetric cells))) \<and>
     (\<forall>(l, c, i) \<in> metric_rows p base.
        if (l, c, i) \<in> D then row_ok p base graph cells allowed_nodes metric l c i
        else \<forall>j < length (destinations_of p base l c). metric_at metric (value_pos p base cells l c i j) = no_path)"

lemma rows_doneD:
  assumes "rows_done p base graph cells allowed_nodes D metric"
  shows "metric_size metric (length (weights (MakeMetric cells)))"
    and "(l, c, i) \<in> metric_rows p base \<Longrightarrow> (l, c, i) \<in> D \<Longrightarrow> row_ok p base graph cells allowed_nodes metric l c i"
    and "(l, c, i) \<in> metric_rows p base \<Longrightarrow> (l, c, i) \<notin> D \<Longrightarrow> j < length (destinations_of p base l c) \<Longrightarrow>
      metric_at metric (value_pos p base cells l c i j) = no_path"
  using assms unfolding rows_done_def by fastforce+

lemma row_slots: "(l, c, i) \<in> metric_rows p base \<Longrightarrow> j < length (destinations_of p base l c) \<Longrightarrow>
    (l, c, i, j) \<in> value_slots p base"
  by (simp add: metric_rows_def value_slots_def)

text \<open>Writing the row of one source.\<close>

lemma rows_done_write:
  assumes st: "storage_ok p base cells" and row: "(l, c, i) \<in> metric_rows p base"
    and done_rows: "rows_done p base graph cells allowed_nodes D metric"
    and val: "\<forall>j < length (destinations_of p base l c). entry_ok (cell_path p graph allowed_nodes l (sources_of p base l c ! i)
      (destinations_of p base l c ! j)) (label_value (heap_labels S q) (destinations_of p base l c ! j))"
  shows "rows_done p base graph cells allowed_nodes (insert (l, c, i) D)
    (write_row S q (destinations_of p base l c) (map (value_pos p base cells l c i) [0..<length (destinations_of p base l c)]) metric)"
    (is "rows_done _ _ _ _ _ _ ?m")
proof -
  let ?ds = "destinations_of p base l c"
  let ?ps = "map (value_pos p base cells l c i) [0..<length ?ds]"
  have "inj_on (value_pos p base cells l c i) {0..<length ?ds}"
    using value_pos_laws(2) [OF st row_slots [OF row] row_slots [OF row]] by (auto intro!: inj_onI)
  then have dist: "distinct ?ps" by (simp add: distinct_map)
  have lt: "set ?ps \<subseteq> {..<length (weights (MakeMetric cells))}"
    using value_pos_laws(1) [OF st row_slots [OF row]] by auto
  note w = write_row_spec [OF rows_doneD(1) [OF done_rows] dist lt, of ?ds S q]
  have other: "metric_at ?m (value_pos p base cells l' c' i' j) = metric_at metric (value_pos p base cells l' c' i' j)"
    if r: "(l', c', i') \<in> metric_rows p base" "(l', c', i') \<noteq> (l, c, i)" and j: "j < length (destinations_of p base l' c')" for l' c' i' j
  proof -
    have "value_pos p base cells l' c' i' j \<noteq> value_pos p base cells l c i k" if k: "k < length ?ds" for k
      using value_pos_laws(2) [OF st row_slots [OF r(1) j] row_slots [OF row k]] r(2) by blast
    then have "value_pos p base cells l' c' i' j \<notin> set ?ps"
      unfolding set_map image_iff set_upt by (metis atLeastLessThan_iff)
    then show ?thesis using w by simp
  qed
  have "row_ok p base graph cells allowed_nodes ?m l c i" unfolding row_ok_def using w val by simp
  moreover have "row_ok p base graph cells allowed_nodes ?m l' c' i'"
    if "(l', c', i') \<in> metric_rows p base" "(l', c', i') \<noteq> (l, c, i)" "(l', c', i') \<in> D" for l' c' i'
    using rows_doneD(2) [OF done_rows that(1,3)] other [OF that(1,2)] unfolding row_ok_def by simp
  moreover have "metric_at ?m (value_pos p base cells l' c' i' j) = no_path"
    if "(l', c', i') \<in> metric_rows p base" "(l', c', i') \<noteq> (l, c, i)" "(l', c', i') \<notin> D" "j < length (destinations_of p base l' c')" for l' c' i' j
    using rows_doneD(3) [OF done_rows that(1,3,4)] other [OF that(1,2,4)] by simp
  moreover have "metric_size ?m (length (weights (MakeMetric cells)))" using w by simp
  ultimately show ?thesis unfolding rows_done_def by (auto split: if_splits)
qed

text \<open>The search and the row of an allowed source.\<close>

context query_heap
begin

lemma subcells_ok:
  assumes inp: "level_input p base graph cells allowed_nodes metric l" and v: "v \<in> cell_nodes p graph allowed_nodes l c"
    and V: "{..<sg_number_of_nodes (mg_graph graph)} \<subseteq> V"
  shows "subcell_ok p cells allowed_nodes metric l V v"
proof (cases "l = 1")
  case False
  let ?cell = "cs_GetCell cells (l - 1) (GetCell p (l - 1) v)"
  have n: "v < sg_number_of_nodes (mg_graph graph)" "allowed_nodes ! v" using v by (simp_all add: cell_nodes_def)
  have "allowed_nodes ! (GetDestinationNodes cells ?cell ! i) \<and> GetDestinationNodes cells ?cell ! i \<in> V"
    if i: "i < length (GetOutWeight cells metric ?cell v)" "GetOutWeight cells metric ?cell v ! i \<noteq> INVALID_EDGE_WEIGHT" for i
  proof -
    let ?t = "GetDestinationNodes cells ?cell ! i"
    have "\<exists>a. (?t, a) \<in> set (subcell_arcs p cells metric l v)"
      using i False by (auto simp: subcell_arcs_def Let_def set_clique_list)
    then obtain a where "(?t, a) \<in> set (level_arcs p graph allowed_nodes l v) \<union> set (subcell_arcs p cells metric l v)" by blast
    from arc_is_path [OF inp n this] show ?thesis
      using cell_path_props [OF level_inputD(1) [OF inp] n(1)] V by blast
  qed
  then show ?thesis by (simp add: subcell_ok_def Let_def)
qed (simp add: subcell_ok_def)

lemma source_search:
  assumes inp: "level_input p base graph cells allowed_nodes metric l" and V: "{..<sg_number_of_nodes (mg_graph graph)} \<subseteq> V"
    and s: "s < sg_number_of_nodes (mg_graph graph)" "allowed_nodes ! s" and inv: "inv q"
    and ds: "\<forall>t \<in> D. allowed_nodes ! t \<longrightarrow> t \<in> set ds"
  defines "q1 \<equiv> qh_insert H S (qh_clear H S q) s 0 \<lparr>hc_from_clique = False, hc_duration = 0, hc_distance = 0\<rparr>"
  shows "\<exists>q2. explore H S p graph cells allowed_nodes metric l q1 ds = Some q2 \<and> inv q2 \<and>
    search_inv (level_arcs p graph allowed_nodes l) (subcell_arcs p cells metric l) s (heap_labels S q2) \<and>
    ((\<forall>y c f. heap_labels S q2 y \<noteq> Some (c, f, False)) \<or> (\<forall>t \<in> D. allowed_nodes ! t \<longrightarrow> settled (heap_labels S q2) t))"
proof -
  let ?A = "cell_nodes p graph allowed_nodes l (GetCell p l s)"
  note ok = level_inputD(1) [OF inp]
  have sV: "s \<in> V" using s(1) V by blast
  note cl = clear_laws [OF inv_parts [OF inv]]
  have none: "qh_view S (qh_clear H S q) s = None" by (simp add: cl(2))
  have q1: "inv q1" unfolding q1_def by (rule insert_inv [OF cl(1) sV none])
  have "qh_view S q1 = [s \<mapsto> (0, \<lparr>hc_from_clique = False, hc_duration = 0, hc_distance = 0\<rparr>, False)]"
    unfolding q1_def insert_view [OF cl(1) sV none] cl(2) ..
  then have lab: "heap_labels S q1 = [s \<mapsto> (cost_zero, False, False)]"
    by (auto simp: heap_labels_def fun_eq_iff cost_zero_def)
  have fin: "finite ?A" "?A \<subseteq> V" using V by (auto simp: cell_nodes_def)
  have sA: "s \<in> ?A" using s by (simp add: cell_nodes_def)
  have node: "\<forall>v \<in> ?A. subcell_ok p cells allowed_nodes metric l V v \<and> (\<exists>edges. GetInternalEdgeRange graph l v = Some edges \<and>
      (\<forall>e \<in> set edges. sg_GetTarget (mg_graph graph) e \<in> V))"
  proof
    fix v assume v: "v \<in> ?A"
    then have n: "v < sg_number_of_nodes (mg_graph graph)" by (simp add: cell_nodes_def)
    show "subcell_ok p cells allowed_nodes metric l V v \<and> (\<exists>edges. GetInternalEdgeRange graph l v = Some edges \<and>
      (\<forall>e \<in> set edges. sg_GetTarget (mg_graph graph) e \<in> V))"
      using subcells_ok [OF inp v V] customizableD(1) [OF ok n level_inputD(4,5) [OF inp]] customizableD(2) [OF ok n] V
      by (auto simp: subset_iff)
  qed
  have D: "\<forall>t \<in> {t \<in> D. allowed_nodes ! t}. t \<in> set ds \<or> settled (heap_labels S q1) t" using ds by blast
  have start: "search_inv (level_arcs p graph allowed_nodes l) (subcell_arcs p cells metric l) s (heap_labels S q1)"
    unfolding lab by (rule search_start)
  have eq: "(\<forall>t \<in> {t \<in> D. allowed_nodes ! t}. Q t) \<longleftrightarrow> (\<forall>t \<in> D. allowed_nodes ! t \<longrightarrow> Q t)" for Q by blast
  from explore_laws [OF cell_arcs_ok [OF inp] sA fin node q1 start D] show ?thesis unfolding eq .
qed

lemma customize_source_step:
  assumes inp: "level_input p base graph cells allowed_nodes metric l" and V: "{..<sg_number_of_nodes (mg_graph graph)} \<subseteq> V"
    and row: "(l, c, i) \<in> metric_rows p base" and inv: "inv q"
    and done_rows: "rows_done p base graph cells allowed_nodes D metric"
  shows "\<exists>q' metric'. customize_source H S p graph cells allowed_nodes l c (sources_of p base l c ! i) (q, metric) = Some (q', metric') \<and>
    inv q' \<and> rows_done p base graph cells allowed_nodes (insert (l, c, i) D) metric'"
proof -
  note ok = level_inputD(1) [OF inp] and st = level_inputD(2) [OF inp]
  let ?s = "sources_of p base l c ! i" and ?ds = "destinations_of p base l c"
  have lc: "1 \<le> l" "l < GetNumberOfLevels p" "c < GetNumberOfCells p l" "i < length (sources_of p base l c)"
    using row by (simp_all add: metric_rows_def)
  have "?s \<in> set (sources_of p base l c)" using lc(4) by simp
  then have s: "?s < sg_number_of_nodes (mg_graph graph)" and bs: "boundary p base l ?s"
    using is_source_boundary customizable_length [OF ok] by (auto simp: level_sources_def)
  show ?thesis
  proof (cases "allowed_nodes ! ?s")
    case False
    then have none: "\<not> cell_path p graph allowed_nodes l ?s t a" for t a
      using cell_path_props [OF ok s] by blast
    have "row_ok p base graph cells allowed_nodes metric l c i"
    proof (cases "(l, c, i) \<in> D")
      case True
      then show ?thesis using rows_doneD(2) [OF done_rows row] by blast
    next
      case not_done: False
      then show ?thesis
        using rows_doneD(3) [OF done_rows row] none unfolding row_ok_def entry_ok_def by blast
    qed
    then have "rows_done p base graph cells allowed_nodes (insert (l, c, i) D) metric"
      using done_rows unfolding rows_done_def by (auto split: if_splits)
    then show ?thesis using inv False by (simp add: customize_source_def)
  next
    case True
    note r = out_range_of [OF st lc(1-3)]
    let ?set = "remdups (filter (\<lambda>d. allowed_nodes ! d) ?ds)"
    have "\<forall>t \<in> set ?ds. allowed_nodes ! t \<longrightarrow> t \<in> set ?set" by simp
    from source_search [OF inp V s True inv this] obtain q2 where
      q2: "explore H S p graph cells allowed_nodes metric l (qh_insert H S (qh_clear H S q) ?s 0
          \<lparr>hc_from_clique = False, hc_duration = 0, hc_distance = 0\<rparr>) ?set = Some q2" "inv q2"
        "search_inv (level_arcs p graph allowed_nodes l) (subcell_arcs p cells metric l) ?s (heap_labels S q2)"
        "(\<forall>y c f. heap_labels S q2 y \<noteq> Some (c, f, False)) \<or> (\<forall>t \<in> set ?ds. allowed_nodes ! t \<longrightarrow> settled (heap_labels S q2) t)"
      by blast
    have "entry_ok (cell_path p graph allowed_nodes l ?s (?ds ! j)) (label_value (heap_labels S q2) (?ds ! j))"
      if j: "j < length ?ds" for j
    proof -
      have mem: "?ds ! j \<in> set ?ds" using j by simp
      then have t: "?ds ! j < sg_number_of_nodes (mg_graph graph)" "is_destination p base l (?ds ! j)"
        using customizable_length [OF ok] by (simp_all add: level_destinations_def)
      show ?thesis
        using search_entry [OF inp s True t(1) bs is_destination_boundary [OF t(2)] q2(3)] q2(4) mem by blast
    qed
    then have "rows_done p base graph cells allowed_nodes (insert (l, c, i) D)
        (write_row S q2 ?ds (map (value_pos p base cells l c i) [0..<length ?ds]) metric)"
      by (intro rows_done_write [OF st row done_rows]) blast
    moreover have "customize_source H S p graph cells allowed_nodes l c ?s (q, metric) =
        Some (q2, write_row S q2 ?ds (map (value_pos p base cells l c i) [0..<length ?ds]) metric)"
      using True q2(1) by (simp add: customize_source_def Let_def r(2) r(3) [OF lc(4)])
    ultimately show ?thesis using q2(2) by blast
  qed
qed

text \<open>All sources of a cell, all cells of a level, all levels.\<close>

lemma CustomizeCell_laws:
  assumes inp: "customizable p base graph" "storage_ok p base cells" "weights_fit p graph allowed_nodes" and V: "{..<sg_number_of_nodes (mg_graph graph)} \<subseteq> V"
    and l: "1 \<le> l" "l < GetNumberOfLevels p" and c: "c < GetNumberOfCells p l" and inv: "inv q"
    and done_rows: "rows_done p base graph cells allowed_nodes D metric" and below: "{(k, d, i). k < l} \<subseteq> D"
  shows "\<exists>q' metric'. CustomizeCell H S p graph cells allowed_nodes l c (q, metric) = Some (q', metric') \<and> inv q' \<and>
    rows_done p base graph cells allowed_nodes (D \<union> {(k, d, i). k = l \<and> d = c \<and> i < length (sources_of p base l c)}) metric'"
proof -
  let ?src = "sources_of p base l c"
  define I where "I xs r \<longleftrightarrow> inv (fst r) \<and>
    rows_done p base graph cells allowed_nodes (D \<union> {(k, d, i). k = l \<and> d = c \<and> i < length xs}) (snd r)" for xs :: "NodeID list" and r :: "('h, 's) CustomizerHeap \<times> CellMetric"
  have step: "\<exists>r'. customize_source H S p graph cells allowed_nodes l c x r = Some r' \<and> I (xs @ [x]) r'"
    if split: "?src = xs @ x # ys" and I: "I xs r" for xs x ys r
  proof -
    obtain q1 m1 where r: "r = (q1, m1)" by (cases r)
    have x: "x = ?src ! length xs" "(l, c, length xs) \<in> metric_rows p base"
      using split l c by (simp_all add: metric_rows_def)
    have rd: "rows_done p base graph cells allowed_nodes (D \<union> {(k, d, i). k = l \<and> d = c \<and> i < length xs}) m1" and q1: "inv q1"
      using I by (simp_all add: I_def r)
    have "row_ok p base graph cells allowed_nodes m1 (l - 1) d i"
      if "1 < l" "d < GetNumberOfCells p (l - 1)" "i < length (sources_of p base (l - 1) d)" for d i
    proof (rule rows_doneD(2) [OF rd])
      have "1 \<le> l - 1" "l - 1 < GetNumberOfLevels p" using that(1) l by linarith+
      then show "(l - 1, d, i) \<in> metric_rows p base" using that by (simp add: metric_rows_def)
      have "(l - 1, d, i) \<in> D" using that(1) by (intro subsetD [OF below]) simp
      then show "(l - 1, d, i) \<in> D \<union> {(k, d, i). k = l \<and> d = c \<and> i < length xs}" ..
    qed
    then have li: "level_input p base graph cells allowed_nodes m1 l" using inp l by (simp add: level_input_def)
    have "insert (l, c, length xs) (D \<union> {(k, d, i). k = l \<and> d = c \<and> i < length xs}) =
        D \<union> {(k, d, i). k = l \<and> d = c \<and> i < length (xs @ [x])}" by auto
    then show ?thesis
      using customize_source_step [OF li V x(2) q1 rd] unfolding x(1) [symmetric] by (auto simp: I_def r)
  qed
  have "D \<union> {(k, d, i). k = l \<and> d = c \<and> i < length ([] :: NodeID list)} = D" by auto
  then have start: "I [] (q, metric)" using inv done_rows by (simp only: I_def fst_conv snd_conv)
  have "\<exists>r'. fold_option (customize_source H S p graph cells allowed_nodes l c) ?src (q, metric) = Some r' \<and> I ?src r'"
    by (rule fold_option_inv [where I = I, OF step append_Nil [symmetric] start])
  then show ?thesis using out_range_of(1) [OF inp(2) l c] by (auto simp: CustomizeCell_def I_def)
qed

lemma Customize_level_laws:
  assumes inp: "customizable p base graph" "storage_ok p base cells" "weights_fit p graph allowed_nodes" and V: "{..<sg_number_of_nodes (mg_graph graph)} \<subseteq> V"
    and l: "1 \<le> l" "l < GetNumberOfLevels p" and inv: "inv q"
    and done_rows: "rows_done p base graph cells allowed_nodes {(k, d, i). k < l} metric"
  shows "\<exists>q' metric'. fold_option (CustomizeCell H S p graph cells allowed_nodes l) [0..<GetNumberOfCells p l] (q, metric) = Some (q', metric') \<and>
    inv q' \<and> rows_done p base graph cells allowed_nodes {(k, d, i). k < Suc l} metric'"
proof -
  define D where "D cs = {(k, d, i). k < l} \<union> {(k, d, i). k = l \<and> d \<in> set cs \<and> i < length (sources_of p base l d)}" for cs
  define I where "I cs r \<longleftrightarrow> inv (fst r) \<and> rows_done p base graph cells allowed_nodes (D cs) (snd r)" for cs and r :: "('h, 's) CustomizerHeap \<times> CellMetric"
  have step: "\<exists>r'. CustomizeCell H S p graph cells allowed_nodes l c r = Some r' \<and> I (cs @ [c]) r'"
    if split: "[0..<GetNumberOfCells p l] = cs @ c # ds" and I: "I cs r" for cs c ds r
  proof -
    obtain q1 m1 where r: "r = (q1, m1)" by (cases r)
    have "c \<in> set [0..<GetNumberOfCells p l]" unfolding split by simp
    then have c: "c < GetNumberOfCells p l" by simp
    have rd: "rows_done p base graph cells allowed_nodes (D cs) m1" and q1: "inv q1" using I by (simp_all add: I_def r)
    have below: "{(k, d, i). k < l} \<subseteq> D cs" by (auto simp: D_def)
    have "D cs \<union> {(k, d, i). k = l \<and> d = c \<and> i < length (sources_of p base l c)} = D (cs @ [c])" by (auto simp: D_def)
    then show ?thesis using CustomizeCell_laws [OF inp V l c q1 rd below] by (auto simp: I_def r)
  qed
  have "D [] = {(k, d, i). k < l}" by (auto simp: D_def)
  then have start: "I [] (q, metric)" using inv done_rows by (simp add: I_def)
  have "\<exists>r'. fold_option (CustomizeCell H S p graph cells allowed_nodes l) [0..<GetNumberOfCells p l] (q, metric) = Some r' \<and>
      I [0..<GetNumberOfCells p l] r'"
    by (rule fold_option_inv [where I = I, OF step append_Nil [symmetric] start])
  then obtain q' m' where r: "fold_option (CustomizeCell H S p graph cells allowed_nodes l) [0..<GetNumberOfCells p l] (q, metric) = Some (q', m')"
    "inv q'" "rows_done p base graph cells allowed_nodes (D [0..<GetNumberOfCells p l]) m'" by (auto simp: I_def)
  have "(l', c, i) \<in> D [0..<GetNumberOfCells p l] \<longleftrightarrow> l' < Suc l" if "(l', c, i) \<in> metric_rows p base" for l' c i
    using that by (cases "l' = l") (auto simp: D_def metric_rows_def)
  then have "rows_done p base graph cells allowed_nodes {(k, d, i). k < Suc l} m'"
    using r(3) unfolding rows_done_def by fastforce
  then show ?thesis using r(1,2) by blast
qed

lemma Customize_laws:
  assumes inp: "customizable p base graph" "storage_ok p base cells" "weights_fit p graph allowed_nodes" and V: "{..<sg_number_of_nodes (mg_graph graph)} \<subseteq> V"
    and inv: "inv q" and start: "rows_done p base graph cells allowed_nodes {} metric"
  shows "\<exists>q' metric'. Customize H S p graph cells allowed_nodes (q, metric) = Some (q', metric') \<and> inv q' \<and>
    (\<forall>(l, c, i) \<in> metric_rows p base. row_ok p base graph cells allowed_nodes metric' l c i)"
proof -
  define I where "I ls r \<longleftrightarrow> inv (fst r) \<and> rows_done p base graph cells allowed_nodes {(k, d, i). k < Suc (length ls)} (snd r)" for ls :: "nat list" and r :: "('h, 's) CustomizerHeap \<times> CellMetric"
  have step: "\<exists>r'. fold_option (CustomizeCell H S p graph cells allowed_nodes l) [0..<GetNumberOfCells p l] r = Some r' \<and> I (ls @ [l]) r'"
    if split: "[1..<GetNumberOfLevels p] = ls @ l # ms" and I: "I ls r" for ls l ms r
  proof -
    obtain q1 m1 where r: "r = (q1, m1)" by (cases r)
    have len: "length ls < length [1..<GetNumberOfLevels p]" unfolding split by simp
    have "[1..<GetNumberOfLevels p] ! length ls = l" unfolding split by simp
    then have l: "l = Suc (length ls)" "1 \<le> l" "l < GetNumberOfLevels p" using len by auto
    then show ?thesis
      using Customize_level_laws [OF inp V l(2,3), of q1 m1] I by (auto simp: I_def r)
  qed
  have "rows_done p base graph cells allowed_nodes {(k, d, i). k < Suc 0} metric"
    using start unfolding rows_done_def by (auto simp: metric_rows_def)
  then have i0: "I [] (q, metric)" using inv by (simp add: I_def)
  have "\<exists>r'. fold_option (\<lambda>l. fold_option (CustomizeCell H S p graph cells allowed_nodes l) [0..<GetNumberOfCells p l])
      [1..<GetNumberOfLevels p] (q, metric) = Some r' \<and> I [1..<GetNumberOfLevels p] r'"
    by (rule fold_option_inv [where I = I, OF step append_Nil [symmetric] i0])
  then obtain q' m' where r: "Customize H S p graph cells allowed_nodes (q, metric) = Some (q', m')" "inv q'"
    "rows_done p base graph cells allowed_nodes {(k, d, i). k < Suc (length [1..<GetNumberOfLevels p])} m'"
    by (auto simp: I_def Customize_def)
  have "row_ok p base graph cells allowed_nodes m' l c i" if row: "(l, c, i) \<in> metric_rows p base" for l c i
    using rows_doneD(2) [OF r(3) row] row by (simp add: metric_rows_def)
  then show ?thesis using r(1,2) by blast
qed

end

lemma MakeMetric_rows:
  assumes st: "storage_ok p base cells"
  shows "rows_done p base graph cells allowed_nodes {} (MakeMetric cells)"
proof -
  have "metric_at (MakeMetric cells) k = no_path" if "k < length (weights (MakeMetric cells))" for k
    using that by (cases "cs_cells cells = []") (simp_all add: MakeMetric_def metric_at_def no_path_def Let_def del: replicate_Suc)
  then have "metric_at (MakeMetric cells) (value_pos p base cells l c i j) = no_path"
    if "(l, c, i) \<in> metric_rows p base" "j < length (destinations_of p base l c)" for l c i j
    using value_pos_laws(1) [OF st row_slots [OF that]] by blast
  moreover have "metric_size (MakeMetric cells) (length (weights (MakeMetric cells)))"
    by (simp add: metric_size_def MakeMetric_def Let_def)
  ultimately show ?thesis unfolding rows_done_def by auto
qed

lemma CellCustomizer_spec:
  assumes "query_heap H content hok S V ixok live" "qh_inv content hok S V ixok live q"
    and "{..<sg_number_of_nodes (mg_graph graph)} \<subseteq> V"
    and "customizable p base graph" "storage_ok p base cells" "weights_fit p graph allowed_nodes"
  shows "\<exists>q' metric. Customize H S p graph cells allowed_nodes (q, MakeMetric cells) = Some (q', metric) \<and>
    (\<forall>l c i j. 1 \<le> l \<longrightarrow> l < GetNumberOfLevels p \<longrightarrow> c < GetNumberOfCells p l \<longrightarrow>
      i < length (GetSourceNodes cells (cs_GetCell cells l c)) \<longrightarrow> j < length (GetDestinationNodes cells (cs_GetCell cells l c)) \<longrightarrow>
      (let cell = cs_GetCell cells l c; source = GetSourceNodes cells cell ! i; destination = GetDestinationNodes cells cell ! j
       in entry_ok (cell_path p graph allowed_nodes l source destination)
            (GetOutWeight cells metric cell source ! j, GetOutDuration cells metric cell source ! j,
             GetOutDistance cells metric cell source ! j)))"
proof -
  from query_heap.Customize_laws [OF assms(1,4-6,3,2) MakeMetric_rows [OF assms(5)]] obtain q' m where
    m: "Customize H S p graph cells allowed_nodes (q, MakeMetric cells) = Some (q', m)"
      "\<forall>(l, c, i) \<in> metric_rows p base. row_ok p base graph cells allowed_nodes m l c i" by blast
  have "entry_ok (cell_path p graph allowed_nodes l (sources_of p base l c ! i) (destinations_of p base l c ! j))
      (metric_at m (value_pos p base cells l c i j))"
    if "1 \<le> l" "l < GetNumberOfLevels p" "c < GetNumberOfCells p l" "i < length (sources_of p base l c)" "j < length (destinations_of p base l c)"
    for l c i j
  proof -
    have "(l, c, i) \<in> metric_rows p base" using that by (simp add: metric_rows_def)
    then have "row_ok p base graph cells allowed_nodes m l c i" using m(2) by blast
    then show ?thesis using that(5) by (simp add: row_ok_def)
  qed
  then have "\<forall>l c i j. 1 \<le> l \<longrightarrow> l < GetNumberOfLevels p \<longrightarrow> c < GetNumberOfCells p l \<longrightarrow>
      i < length (GetSourceNodes cells (cs_GetCell cells l c)) \<longrightarrow> j < length (GetDestinationNodes cells (cs_GetCell cells l c)) \<longrightarrow>
      (let cell = cs_GetCell cells l c; source = GetSourceNodes cells cell ! i; destination = GetDestinationNodes cells cell ! j
       in entry_ok (cell_path p graph allowed_nodes l source destination)
            (GetOutWeight cells m cell source ! j, GetOutDuration cells m cell source ! j, GetOutDistance cells m cell source ! j))"
    using out_range_of [OF assms(5)]
    by (simp add: Let_def GetOutWeight_def GetOutDuration_def GetOutDistance_def metric_at_def)
  then show ?thesis using m(1) by blast
qed

text \<open>
  Property C3. The cell customiser.  From the metric of \<^verbatim>\<open>MakeMetric\<close>, with any heap in its
  invariant, \<^verbatim>\<open>Customize\<close> returns, and afterwards, for every cell of every level, the weight,
  duration and distance of a source and a destination are those of a least path, by weight, then
  duration, then distance, over allowed nodes inside the cell, and the three invalid values when
  there is no such path.  The cells are those of a graph \<open>base\<close> that has all the edges of the
  graph; in the program its weights are older.
\<close>

theorem CellCustomizer_correct:
  assumes "query_heap H content hok S V ixok live" "qh_inv content hok S V ixok live q"
    and "{..<sg_number_of_nodes (mg_graph graph)} \<subseteq> V"
    and "customizable p base graph" "storage_ok p base cells" "weights_fit p graph allowed_nodes"
  shows "\<exists>q' metric. Customize H S p graph cells allowed_nodes (q, MakeMetric cells) = Some (q', metric) \<and>
    (\<forall>l c i j. 1 \<le> l \<longrightarrow> l < GetNumberOfLevels p \<longrightarrow> c < GetNumberOfCells p l \<longrightarrow>
      i < length (GetSourceNodes cells (cs_GetCell cells l c)) \<longrightarrow> j < length (GetDestinationNodes cells (cs_GetCell cells l c)) \<longrightarrow>
      (let cell = cs_GetCell cells l c; source = GetSourceNodes cells cell ! i; destination = GetDestinationNodes cells cell ! j
       in entry_ok (cell_path p graph allowed_nodes l source destination)
            (GetOutWeight cells metric cell source ! j, GetOutDuration cells metric cell source ! j,
             GetOutDistance cells metric cell source ! j)))"
  by (rule CellCustomizer_spec [OF assms])

text \<open>The cells may have been built from the graph itself.\<close>

definition base_graph_of :: "MultiLevelEdgeBasedGraph \<Rightarrow> unit base_graph" where
  "base_graph_of graph = map (\<lambda>v. map (\<lambda>e. \<lparr>be_target = sg_GetTarget (mg_graph graph) e,
       be_forward = ed_forward (sg_GetEdgeData (mg_graph graph) e),
       be_backward = ed_backward (sg_GetEdgeData (mg_graph graph) e)\<rparr>) (sg_range (mg_graph graph) v))
     [0..<sg_number_of_nodes (mg_graph graph)]"

lemma length_base_graph_of [simp]: "length (base_graph_of graph) = sg_number_of_nodes (mg_graph graph)"
  by (simp add: base_graph_of_def)

text \<open>A street of four nodes, the middle two in one cell, with an edge of weight 5 between them.\<close>

definition example_street_partition :: MultiLevelPartition where
  "example_street_partition = \<lparr>level_data = \<lparr>num_level = 2, lidx_to_offset = [0], lidx_to_mask = [3],
     bit_to_level = [1, 1], lidx_to_children_offsets = [0]\<rparr>,
     partition = [0, 1, 1, 2, 3], cell_to_children = []\<rparr>"

definition street_data :: EdgeData where
  "street_data = \<lparr>ed_turn_id = 0, ed_weight = 5, ed_distance = 7, ed_duration = 6, ed_forward = True, ed_backward = True\<rparr>"

definition example_street :: MultiLevelEdgeBasedGraph where
  "example_street = \<lparr>mg_graph = \<lparr>sg_number_of_nodes = 4, sg_number_of_edges = 6, sg_node_array = [0, 1, 3, 5, 6],
     sg_edge_array = map (\<lambda>t. \<lparr>ea_target = t, ea_data = street_data\<rparr>) [1, 2, 0, 1, 3, 2]\<rparr>,
     node_to_edge_offset = [0, 0, 0, 1, 0, 1, 0, 0, 2]\<rparr>"

lemma street_cells:
  "GetNumberOfLevels example_street_partition = 2" "GetNumberOfCells example_street_partition 1 = 3"
  "GetCell example_street_partition 1 0 = 0" "GetCell example_street_partition 1 1 = 1"
  "GetCell example_street_partition 1 2 = 1" "GetCell example_street_partition 1 3 = 2"
  by (simp_all add: example_street_partition_def GetNumberOfLevels_def GetNumberOfCells_def GetSentinelNode_def
      GetCell_def LevelIDToIndex_def Let_def)

lemma street_edges:
  "sg_number_of_nodes (mg_graph example_street) = 4"
  "out_edges example_street 0 = [0]" "out_edges example_street 1 = [1, 2]" "out_edges example_street 2 = [3, 4]" "out_edges example_street 3 = [5]"
  "map (edge_target example_street) [0, 1, 2, 3, 4, 5] = [1, 2, 0, 1, 3, 2]"
  "map (edge_data example_street) [0, 1, 2, 3, 4, 5] = [street_data, street_data, street_data, street_data, street_data, street_data]"
  by (simp_all add: example_street_def sg_range_def sg_GetTarget_def sg_GetEdgeData_def upt_rec)

lemma street_ranges:
  "GetInternalEdgeRange example_street 1 0 = Some []" "GetInternalEdgeRange example_street 1 1 = Some [1]"
  "GetInternalEdgeRange example_street 1 2 = Some [3]" "GetInternalEdgeRange example_street 1 3 = Some []"
  by (simp_all add: GetInternalEdgeRange_def BeginBorderEdges_def mg_GetNumberOfLevels_def sg_BeginEdges_def sg_EndEdges_def
      vector_at_def example_street_def Let_def upt_rec)

lemma less_4_cases: "v < 4 \<Longrightarrow> v = 0 \<or> v = 1 \<or> v = 2 \<or> v = (3 :: nat)"
  by linarith

lemma street_customizable: "customizable example_street_partition (base_graph_of example_street) example_street"
proof -
  have l: "l = 1" if "1 \<le> l" "l < 2" for l :: nat using that by linarith
  have ranges: "GetInternalEdgeRange example_street 1 v = Some (filter (\<lambda>e. GetCell example_street_partition 1 (edge_target example_street e) =
      GetCell example_street_partition 1 v) (out_edges example_street v))" if "v < 4" for v
    using less_4_cases [OF that] street_ranges street_edges street_cells by (elim disjE) simp_all
  have edges: "edge_target example_street e < 4 \<and>
      (\<exists>e' \<in> set (out_edges example_street (edge_target example_street e)). edge_target example_street e' = v \<and>
         (ed_forward (edge_data example_street e) \<longrightarrow> ed_backward (edge_data example_street e'))) \<and>
      (ed_forward (edge_data example_street e) \<longrightarrow> 0 < ed_weight (edge_data example_street e))"
    if "v < 4" "e \<in> set (out_edges example_street v)" for v e
    using less_4_cases [OF that(1)] that(2) street_edges by (elim disjE) (auto simp: street_data_def)
  have base: "base_graph_of example_street ! v = map (\<lambda>e. \<lparr>be_target = edge_target example_street e,
      be_forward = ed_forward (edge_data example_street e), be_backward = ed_backward (edge_data example_street e)\<rparr>)
      (out_edges example_street v)" if "v < 4" for v
    using that by (simp add: base_graph_of_def street_edges)
  have "\<forall>l v. 1 \<le> l \<longrightarrow> l < 2 \<longrightarrow> v < 4 \<longrightarrow> GetInternalEdgeRange example_street l v =
      Some (filter (\<lambda>e. GetCell example_street_partition l (edge_target example_street e) =
        GetCell example_street_partition l v) (out_edges example_street v))" using ranges l by metis
  then show ?thesis
    unfolding customizable_def street_cells street_edges length_base_graph_of using edges base by auto
qed

lemma street_boundaries:
  "sources_of example_street_partition (base_graph_of example_street) 1 0 = []" "destinations_of example_street_partition (base_graph_of example_street) 1 0 = [0]"
  "sources_of example_street_partition (base_graph_of example_street) 1 1 = [1, 2]" "destinations_of example_street_partition (base_graph_of example_street) 1 1 = [1, 2]"
  "sources_of example_street_partition (base_graph_of example_street) 1 2 = []" "destinations_of example_street_partition (base_graph_of example_street) 1 2 = [3]"
proof -
  have upt4: "[0..<4] = [0, 1, 2, 3 :: nat]" by (simp add: upt_rec)
  have graph: "base_graph_of example_street = map (map (\<lambda>t. \<lparr>be_target = t, be_forward = True, be_backward = True\<rparr>)) [[1], [2, 0], [1, 3], [2]]"
    unfolding base_graph_of_def street_edges upt4 using street_edges by (simp add: street_data_def)
  have upt: "[0..<length (base_graph_of example_street)] = [0, 1, 2, 3]" unfolding length_base_graph_of street_edges upt4 ..
  show "sources_of example_street_partition (base_graph_of example_street) 1 0 = []" "destinations_of example_street_partition (base_graph_of example_street) 1 0 = [0]"
    "sources_of example_street_partition (base_graph_of example_street) 1 1 = [1, 2]" "destinations_of example_street_partition (base_graph_of example_street) 1 1 = [1, 2]"
    "sources_of example_street_partition (base_graph_of example_street) 1 2 = []" "destinations_of example_street_partition (base_graph_of example_street) 1 2 = [3]"
    unfolding level_sources_def level_destinations_def upt
    using street_cells by (simp_all add: is_source_def is_destination_def cell_flags_def graph)
qed

lemma street_storage: "storage_ok example_street_partition (base_graph_of example_street) (fst (CellStorage_init example_street_partition (base_graph_of example_street)))"
proof -
  have l: "l = 1" if "1 \<le> l" "l < 2" for l :: nat using that by linarith
  have "GetCell example_street_partition 1 v < 3" if "v < 4" for v
    using less_4_cases [OF that] street_cells by (elim disjE) simp_all
  then have "cells_in_range example_street_partition (base_graph_of example_street)"
    unfolding cells_in_range_def length_base_graph_of street_cells street_edges using l street_cells(2) by metis
  moreover have "length (sources_of example_street_partition (base_graph_of example_street) 1 c) * length (destinations_of example_street_partition (base_graph_of example_street) 1 c) < 2 ^ 32"
    if c: "c < 3" for c
  proof -
    consider "c = 0" | "c = 1" | "c = 2" using c by linarith
    then show ?thesis by cases (simp_all only: street_boundaries, simp_all)
  qed
  then have "small_cells example_street_partition (base_graph_of example_street)"
    unfolding small_cells_def street_cells using l street_cells(2) by metis
  ultimately show ?thesis by (simp add: storage_ok_def)
qed

lemma street_paths:
  assumes "cell_path example_street_partition example_street [True, True, True, True] 1 s t c" "s < 4"
  shows "\<exists>k. c = (5 * int k, 6 * int k, 7 * real k) \<and> (t = s \<or> 1 \<le> k \<and> {s, t} = {1, 2})"
  using assms
proof (induction rule: cell_path.induct)
  case cell_path_start
  show ?case by (rule exI [of _ 0]) (simp add: cost_zero_def)
next
  case (cell_path_edge u c e)
  then obtain k where k: "c = (5 * int k, 6 * int k, 7 * real k)" "u = s \<or> 1 \<le> k \<and> {s, u} = {1, 2}" by blast
  have u: "u < 4" using k(2) cell_path_edge.prems by auto
  let ?t = "edge_target example_street e"
  have data: "edge_data example_street e = street_data"
    using less_4_cases [OF u] cell_path_edge.hyps(2) street_edges by (elim disjE) auto
  have "?t = s \<or> {s, ?t} = {1, 2}"
    using less_4_cases [OF u] less_4_cases [OF cell_path_edge.prems] k(2) cell_path_edge.hyps(2,5) street_edges street_cells
    by (elim disjE) (auto simp: doubleton_eq_iff)
  moreover have "cost_add c (edge_cost (edge_data example_street e)) = (5 * int (Suc k), 6 * int (Suc k), 7 * real (Suc k))"
    by (simp add: data street_data_def edge_cost_def cost_add_def k(1) algebra_simps)
  ultimately show ?case by (intro exI [of _ "Suc k"]) auto
qed

lemma street_edge_path:
  "cell_path example_street_partition example_street [True, True, True, True] 1 1 2 (5, 6, 7)"
  "cell_path example_street_partition example_street [True, True, True, True] 1 2 1 (5, 6, 7)"
proof -
  let ?path = "cell_path example_street_partition example_street [True, True, True, True] 1"
  have "?path 1 (edge_target example_street 1) (cost_add cost_zero (edge_cost (edge_data example_street 1)))"
    by (rule cell_path_edge [OF cell_path_start]) (use street_edges street_cells in \<open>simp_all add: street_data_def\<close>)
  then show "?path 1 2 (5, 6, 7)" using street_edges by (simp add: street_data_def edge_cost_def)
  have "?path 2 (edge_target example_street 3) (cost_add cost_zero (edge_cost (edge_data example_street 3)))"
    by (rule cell_path_edge [OF cell_path_start]) (use street_edges street_cells in \<open>simp_all add: street_data_def\<close>)
  then show "?path 2 1 (5, 6, 7)" using street_edges by (simp add: street_data_def edge_cost_def)
qed

lemma street_weights_fit: "weights_fit example_street_partition example_street [True, True, True, True]"
  unfolding weights_fit_def street_cells street_edges
proof (intro allI impI)
  fix l s t :: nat and c
  assume l: "1 \<le> l" "l < 2" and s: "s < 4" and path: "cell_path example_street_partition example_street [True, True, True, True] l s t c"
  have l1: "l = 1" using l by linarith
  have "[True, True, True, True] ! s" using less_4_cases [OF s] by (elim disjE) simp_all
  then have zero: "cell_path example_street_partition example_street [True, True, True, True] 1 s s cost_zero" by (rule cell_path_start)
  have "t = s \<or> {s, t} = {1, 2}" using street_paths [OF path [unfolded l1] s] by blast
  then show "\<exists>d. cell_path example_street_partition example_street [True, True, True, True] l s t d \<and> fst d < INVALID_EDGE_WEIGHT"
    unfolding l1 using zero street_edge_path by (auto simp: doubleton_eq_iff INVALID_EDGE_WEIGHT_def cost_zero_def)
qed

lemma CellCustomizer_correct_witness:
  "\<exists>q metric. let cells = fst (CellStorage_init example_street_partition (base_graph_of example_street)) in
     Customize ref_heap_ops ArrayStorage example_street_partition example_street cells [True, True, True, True]
       (qh_init ref_heap_ops ArrayStorage ref_empty (ArrayStorage_init 4), MakeMetric cells) = Some (q, metric) \<and>
     GetOutWeight cells metric (cs_GetCell cells 1 1) 1 ! 1 = 5"
proof -
  let ?cells = "fst (CellStorage_init example_street_partition (base_graph_of example_street))"
  let ?q = "qh_init ref_heap_ops ArrayStorage ref_empty (ArrayStorage_init 4) :: (ref_heap, nat list) CustomizerHeap"
  have q: "qh_inv ref_content ref_ok ArrayStorage {..<4} (\<lambda>s. length s = 4) (\<lambda>s. {..<4}) ?q"
    using ref_array.init_laws(1) [of ref_empty "ArrayStorage_init 4" 4] by (simp add: ref_ok_def ref_empty_def ArrayStorage_init_def)
  have V: "{..<sg_number_of_nodes (mg_graph example_street)} \<subseteq> {..<4}" by (simp add: street_edges)
  have lc: "1 \<le> (1::nat)" "1 < GetNumberOfLevels example_street_partition" "1 < GetNumberOfCells example_street_partition 1"
    using street_cells by simp_all
  note r = out_range_of(1,2) [OF street_storage lc, unfolded street_boundaries]
  obtain q' metric where c: "Customize ref_heap_ops ArrayStorage example_street_partition example_street ?cells [True, True, True, True]
      (?q, MakeMetric ?cells) = Some (q', metric)"
    and all: "\<forall>l c i j. 1 \<le> l \<longrightarrow> l < GetNumberOfLevels example_street_partition \<longrightarrow> c < GetNumberOfCells example_street_partition l \<longrightarrow>
      i < length (GetSourceNodes ?cells (cs_GetCell ?cells l c)) \<longrightarrow> j < length (GetDestinationNodes ?cells (cs_GetCell ?cells l c)) \<longrightarrow>
      (let cell = cs_GetCell ?cells l c; source = GetSourceNodes ?cells cell ! i; destination = GetDestinationNodes ?cells cell ! j
       in entry_ok (cell_path example_street_partition example_street [True, True, True, True] l source destination)
            (GetOutWeight ?cells metric cell source ! j, GetOutDuration ?cells metric cell source ! j,
             GetOutDistance ?cells metric cell source ! j))"
    using CellCustomizer_correct [OF ref_array.query_heap_axioms q V street_customizable street_storage street_weights_fit] by blast
  let ?W = "cell_path example_street_partition example_street [True, True, True, True] 1 1 2"
  let ?w = "GetOutWeight ?cells metric (cs_GetCell ?cells 1 1) 1 ! 1"
  obtain du di where e: "entry_ok ?W (?w, du, di)"
    using all [rule_format, OF lc, of 0 1] unfolding r Let_def by simp
  then have least: "least_cost ?W (?w, du, di)" using street_edge_path(1) unfolding entry_ok_def by blast
  have "?w = 5"
  proof -
    obtain k where k: "(?w, du, di) = (5 * int k, 6 * int k, 7 * real k)" "1 \<le> k"
      using street_paths [of 1 2 "(?w, du, di)"] least unfolding least_cost_def by auto
    have "(?w, du, di) \<le> (5, 6, 7)" using least street_edge_path(1) by (simp add: least_cost_def del: less_eq_prod_simp)
    then have "?w \<le> 5" using cost_fst_mono by fastforce
    then show ?thesis using k by simp
  qed
  then show ?thesis using c by (auto simp: Let_def)
qed

end
