(* ===== verification/UnconnectedNodes.thy ===== *)
theory UnconnectedNodes
  imports EdgeBasedEdge DynamicGraph MultiLevelPartition
begin

text \<open>
  Boundary nodes without an edge inside their cell,
  \<^verbatim>\<open>include/partitioner/remove_unconnected.hpp\<close>: such a node is moved, on this level and all lower
  ones, into the cells of a neighbour with which it shares the cell of the next level.
\<close>

section \<open>Definitions\<close>

record BoundaryWitness =
  bw_id :: NodeID
  induced_border_edges :: nat

text \<open>The first loop over the edges of a node.\<close>

definition scan_boundary_edge :: "EdgeData DynamicGraph \<Rightarrow> CellID list \<Rightarrow> NodeID \<Rightarrow> EdgeID \<Rightarrow>
    BoundaryWitness list \<times> bool \<times> bool \<Rightarrow> BoundaryWitness list \<times> bool \<times> bool" where
  "scan_boundary_edge graph part node edge = (\<lambda>(witnesses, is_source, is_target).
     let data = dg_data graph edge; target = dg_target graph edge
     in if part ! target = part ! node
        then (witnesses, is_source \<or> ed_forward data, is_target \<or> ed_backward data)
        else (witnesses @ [\<lparr>bw_id = target, induced_border_edges = 0\<rparr>], is_source, is_target))"

text \<open>How many edges of the node would leave the cells of a witness.\<close>

definition count_induced :: "EdgeData DynamicGraph \<Rightarrow> CellID list list \<Rightarrow> nat \<Rightarrow> NodeID \<Rightarrow> BoundaryWitness \<Rightarrow> BoundaryWitness" where
  "count_induced graph partitions level_index node witness =
     fold (\<lambda>edge w. fold (\<lambda>sublevel_index w.
         if partitions ! sublevel_index ! dg_target graph edge \<noteq> partitions ! sublevel_index ! bw_id w
         then w\<lparr>induced_border_edges := induced_border_edges w + 1\<rparr> else w) (rev [0..<level_index + 1]) w)
       (dg_edge_range graph node) witness"

text \<open>\<^verbatim>\<open>std::min_element\<close>: the first least one.\<close>

definition best_witness :: "BoundaryWitness list \<Rightarrow> BoundaryWitness" where
  "best_witness witnesses =
     foldl (\<lambda>best w. if induced_border_edges w < induced_border_edges best then w else best) (hd witnesses) (tl witnesses)"

definition assign_subcells :: "NodeID \<Rightarrow> NodeID \<Rightarrow> nat \<Rightarrow> CellID list list \<Rightarrow> CellID list list" where
  "assign_subcells node witness level_index partitions =
     fold (\<lambda>sublevel_index partitions.
         partitions[sublevel_index := (partitions ! sublevel_index)[node := partitions ! sublevel_index ! witness]])
       (rev [0..<level_index + 1]) partitions"

definition fix_boundary_node :: "EdgeData DynamicGraph \<Rightarrow> nat \<Rightarrow> NodeID \<Rightarrow>
    CellID list list \<times> nat \<times> nat \<Rightarrow> CellID list list \<times> nat \<times> nat" where
  "fix_boundary_node graph level_index node = (\<lambda>(partitions, num_unconnected, could_not_fix).
     let (witnesses, is_source, is_target) =
           fold (scan_boundary_edge graph (partitions ! level_index) node) (dg_edge_range graph node) ([], False, False);
         unconnected = (witnesses \<noteq> [] \<and> \<not> is_source \<and> \<not> is_target)
     in if \<not> unconnected then (partitions, num_unconnected, could_not_fix)
        else
          let num_unconnected = num_unconnected + 1;
              witnesses = (if level_index + 1 < length partitions
                then filter (\<lambda>w. partitions ! (level_index + 1) ! node = partitions ! (level_index + 1) ! bw_id w) witnesses
                else witnesses)
          in if witnesses = [] then (partitions, num_unconnected, could_not_fix + 1)
             else
               let witnesses = map (count_induced graph partitions level_index node) witnesses;
                   best = best_witness witnesses
               in (assign_subcells node (bw_id best) level_index partitions, num_unconnected, could_not_fix))"

definition fix_boundary_level :: "EdgeData DynamicGraph \<Rightarrow> nat \<Rightarrow> CellID list list \<times> nat \<times> nat \<Rightarrow> CellID list list \<times> nat \<times> nat" where
  "fix_boundary_level graph level_index = fold (fix_boundary_node graph level_index) [0..<dg_number_of_nodes graph]"

definition removeUnconnectedBoundaryNodes :: "EdgeData DynamicGraph \<Rightarrow> CellID list list \<Rightarrow> nat \<times> CellID list list" where
  "removeUnconnectedBoundaryNodes graph partitions =
     (let (partitions', num_unconnected, could_not_fix) =
            fold (fix_boundary_level graph) (rev [0..<length partitions]) (partitions, 0, 0)
      in (num_unconnected, partitions'))"

section \<open>One node\<close>

definition neighbour :: "'d DynamicGraph \<Rightarrow> NodeID \<Rightarrow> NodeID \<Rightarrow> bool" where
  "neighbour graph u t \<longleftrightarrow> (\<exists>e \<in> set (dg_edge_range graph u). dg_target graph e = t)"

text \<open>Every edge has an entry at both of its ends and a direction.\<close>

definition two_way :: "EdgeData DynamicGraph \<Rightarrow> bool" where
  "two_way graph \<longleftrightarrow> (\<forall>u < dg_number_of_nodes graph. \<forall>e \<in> set (dg_edge_range graph u).
     dg_target graph e < dg_number_of_nodes graph \<and> neighbour graph (dg_target graph e) u \<and>
     (ed_forward (dg_data graph e) \<or> ed_backward (dg_data graph e)))"

lemma two_wayD:
  assumes "two_way graph" "u < dg_number_of_nodes graph"
  shows "neighbour graph u t \<Longrightarrow> t < dg_number_of_nodes graph \<and> neighbour graph t u"
    and "e \<in> set (dg_edge_range graph u) \<Longrightarrow> ed_forward (dg_data graph e) \<or> ed_backward (dg_data graph e)"
  using assms unfolding two_way_def neighbour_def by blast+

definition joined :: "'d DynamicGraph \<Rightarrow> CellID list \<Rightarrow> NodeID \<Rightarrow> bool" where
  "joined graph part u \<longleftrightarrow> (\<exists>t. neighbour graph u t \<and> part ! t = part ! u)"

lemma scan_boundary_edges:
  "fold (scan_boundary_edge graph part node) es (ws, s, t) =
     (ws @ map (\<lambda>e. \<lparr>bw_id = dg_target graph e, induced_border_edges = 0\<rparr>) (filter (\<lambda>e. part ! dg_target graph e \<noteq> part ! node) es),
      s \<or> (\<exists>e \<in> set es. part ! dg_target graph e = part ! node \<and> ed_forward (dg_data graph e)),
      t \<or> (\<exists>e \<in> set es. part ! dg_target graph e = part ! node \<and> ed_backward (dg_data graph e)))"
  by (induction es arbitrary: ws s t) (auto simp: scan_boundary_edge_def Let_def)

lemma fold_keeps: "(\<And>x s. f (g x s) = f s) \<Longrightarrow> f (fold g xs s) = f s"
  by (induction xs arbitrary: s) simp_all

lemma count_induced_id [simp]: "bw_id (count_induced graph parts l node w) = bw_id w"
  unfolding count_induced_def by (intro fold_keeps) simp

lemma best_witness_in: "ws \<noteq> [] \<Longrightarrow> best_witness ws \<in> set ws"
proof -
  have "foldl (\<lambda>best w. if induced_border_edges w < induced_border_edges best then w else best) x xs \<in> set (x # xs)" for x xs
    by (induction xs arbitrary: x) (auto split: if_splits)
  then show "ws \<noteq> [] \<Longrightarrow> best_witness ws \<in> set ws" unfolding best_witness_def by (cases ws) auto
qed

lemma assign_subcells_nth:
  assumes "l < length parts"
  shows "length (assign_subcells node w l parts) = length parts \<and>
    (\<forall>k < length parts. assign_subcells node w l parts ! k = (if k \<le> l then (parts ! k)[node := parts ! k ! w] else parts ! k))"
proof -
  have "length (fold (\<lambda>k parts. parts[k := (parts ! k)[node := parts ! k ! w]]) ks p) = length p \<and>
      (\<forall>k < length p. fold (\<lambda>k parts. parts[k := (parts ! k)[node := parts ! k ! w]]) ks p ! k =
         (if k \<in> set ks then (p ! k)[node := p ! k ! w] else p ! k))" if "distinct ks" for ks p
    using that by (induction ks arbitrary: p) (auto simp: nth_list_update_in)
  from this [of "rev [0..<l + 1]" parts] show ?thesis
    unfolding assign_subcells_def by (auto simp: less_Suc_eq_le)
qed

text \<open>The whole step: nothing happens, or the node gets all the cells of a neighbour.\<close>

definition move_to :: "NodeID \<Rightarrow> NodeID \<Rightarrow> CellID list list \<Rightarrow> CellID list list" where
  "move_to node w parts = map (\<lambda>part. part[node := part ! w]) parts"

definition stuck :: "'d DynamicGraph \<Rightarrow> CellID list list \<Rightarrow> nat \<Rightarrow> NodeID \<Rightarrow> bool" where
  "stuck graph parts l u \<longleftrightarrow> Suc l < length parts \<and> (\<forall>t. neighbour graph u t \<longrightarrow> parts ! Suc l ! t \<noteq> parts ! Suc l ! u)"

definition settled :: "'d DynamicGraph \<Rightarrow> CellID list list \<Rightarrow> nat \<Rightarrow> NodeID \<Rightarrow> bool" where
  "settled graph parts l u \<longleftrightarrow> (\<forall>t. \<not> neighbour graph u t) \<or> joined graph (parts ! l) u \<or> stuck graph parts l u"

definition shape :: "CellID list list \<Rightarrow> nat \<Rightarrow> bool" where
  "shape parts n \<longleftrightarrow> (\<forall>part \<in> set parts. length part = n) \<and> nested_parts parts n"

lemma nested_above:
  assumes "shape parts n" "Suc l < length parts" "u < n" "v < n" "parts ! Suc l ! u = parts ! Suc l ! v" "l < k" "k < length parts"
  shows "parts ! k ! u = parts ! k ! v"
proof (cases "k = Suc l")
  case False
  have "nested_parts parts n" using assms(1) by (simp add: shape_def)
  then show ?thesis
    unfolding nested_parts_def using assms(3-7) False by (metis Suc_lessI)
qed (use assms(5) in simp)

lemma fix_boundary_node_spec:
  assumes g: "two_way graph" and n: "node < dg_number_of_nodes graph" and l: "l < length parts"
    and sh: "shape parts (dg_number_of_nodes graph)"
  obtains (same) c where "fix_boundary_node graph l node (parts, a, b) = (parts, a, c)" "settled graph parts l node"
  | (stuck) c where "fix_boundary_node graph l node (parts, a, b) = (parts, Suc a, c)" "settled graph parts l node"
  | (moved) w c where "fix_boundary_node graph l node (parts, a, b) = (move_to node w parts, Suc a, c)"
      "neighbour graph node w" "\<not> joined graph (parts ! l) node"
      "\<forall>k. l < k \<longrightarrow> k < length parts \<longrightarrow> parts ! k ! w = parts ! k ! node"
proof -
  let ?N = "dg_number_of_nodes graph" and ?es = "dg_edge_range graph node"
  define ws where "ws = map (\<lambda>e. \<lparr>bw_id = dg_target graph e, induced_border_edges = 0\<rparr>)
    (filter (\<lambda>e. parts ! l ! dg_target graph e \<noteq> parts ! l ! node) ?es)"
  define s where "s \<longleftrightarrow> (\<exists>e \<in> set ?es. parts ! l ! dg_target graph e = parts ! l ! node \<and> ed_forward (dg_data graph e))"
  define t where "t \<longleftrightarrow> (\<exists>e \<in> set ?es. parts ! l ! dg_target graph e = parts ! l ! node \<and> ed_backward (dg_data graph e))"
  have scan: "fold (scan_boundary_edge graph (parts ! l) node) ?es ([], False, False) = (ws, s, t)"
    unfolding scan_boundary_edges ws_def s_def t_def by simp
  have st: "s \<or> t \<longleftrightarrow> joined graph (parts ! l) node"
    using two_wayD(2) [OF g n] unfolding s_def t_def joined_def neighbour_def by blast
  have wid: "bw_id w = u \<Longrightarrow> w \<in> set ws \<Longrightarrow> neighbour graph node u" for w u
    unfolding ws_def neighbour_def by auto
  have wsI: "\<exists>w \<in> set ws. bw_id w = u" if "\<not> joined graph (parts ! l) node" "neighbour graph node u" for u
    using that unfolding ws_def neighbour_def joined_def by force
  note f = fix_boundary_node_def [of graph l node, THEN fun_cong, of "(parts, a, b)", unfolded prod.case scan Let_def]
  show thesis
  proof (cases "ws \<noteq> [] \<and> \<not> s \<and> \<not> t")
    case False
    then have "settled graph parts l node"
      using st wsI unfolding settled_def by fastforce
    then show thesis using f False by (intro same [of b]) auto
  next
    case True
    then have nj: "\<not> joined graph (parts ! l) node" using st by blast
    define ws' where "ws' = (if l + 1 < length parts
      then filter (\<lambda>w. parts ! (l + 1) ! node = parts ! (l + 1) ! bw_id w) ws else ws)"
    have f': "fix_boundary_node graph l node (parts, a, b) = (if ws' = [] then (parts, a + 1, b + 1)
        else (assign_subcells node (bw_id (best_witness (map (count_induced graph parts l node) ws'))) l parts, a + 1, b))"
      using f True unfolding ws'_def by simp
    show thesis
    proof (cases "ws' = []")
      case empty: True
      then have "l + 1 < length parts" "\<forall>w \<in> set ws. parts ! (l + 1) ! node \<noteq> parts ! (l + 1) ! bw_id w"
        using True unfolding ws'_def by (auto simp: filter_empty_conv split: if_splits)
      then have "UnconnectedNodes.stuck graph parts l node"
        unfolding stuck_def using wsI [OF nj] by fastforce
      then show thesis using f' empty by (intro stuck [of "b + 1"]) (auto simp: settled_def)
    next
      case False
      define w where "w = bw_id (best_witness (map (count_induced graph parts l node) ws'))"
      have "best_witness (map (count_induced graph parts l node) ws') \<in> set (map (count_induced graph parts l node) ws')"
        using False by (intro best_witness_in) simp
      then obtain x where x: "x \<in> set ws'" "w = bw_id x" unfolding w_def by auto
      have xw: "x \<in> set ws" using x(1) unfolding ws'_def by (auto split: if_splits)
      have nb: "neighbour graph node w" using wid [of x w] xw x(2) by blast
      have wn: "w < ?N" using two_wayD(1) [OF g n nb] by blast
      have up: "parts ! k ! w = parts ! k ! node" if k: "l < k" "k < length parts" for k
      proof -
        have "Suc l < length parts" using k by simp
        then have "parts ! Suc l ! w = parts ! Suc l ! node" using x unfolding ws'_def by simp
        then show ?thesis using nested_above [OF sh \<open>Suc l < length parts\<close> wn n _ k] by blast
      qed
      have "assign_subcells node w l parts = move_to node w parts"
      proof (rule nth_equalityI)
        show "length (assign_subcells node w l parts) = length (move_to node w parts)"
          using assign_subcells_nth [OF l] by (simp add: move_to_def)
        fix k assume "k < length (assign_subcells node w l parts)"
        then have k: "k < length parts" using assign_subcells_nth [OF l] by simp
        then show "assign_subcells node w l parts ! k = move_to node w parts ! k"
          using assign_subcells_nth [OF l, of node w] up [of k] by (cases "k \<le> l") (simp_all add: move_to_def)
      qed
      then have "fix_boundary_node graph l node (parts, a, b) = (move_to node w parts, Suc a, b)"
        using f' False unfolding w_def by simp
      then show thesis using nb nj up by (intro moved [of w b]) blast+
    qed
  qed
qed

section \<open>All nodes and levels\<close>

lemma move_to_nth:
  assumes "shape parts n" "k < length parts" "u < n"
  shows "move_to node w parts ! k ! u = parts ! k ! (if u = node then w else u)"
  using assms by (simp add: move_to_def shape_def)

lemma move_to_shape:
  assumes "shape parts n" "node < n" "w < n"
  shows "shape (move_to node w parts) n" "length (move_to node w parts) = length parts"
    and "k < length parts \<Longrightarrow> set (move_to node w parts ! k) \<subseteq> set (parts ! k)"
proof -
  show len: "length (move_to node w parts) = length parts" by (simp add: move_to_def)
  have "move_to node w parts ! j ! u = move_to node w parts ! j ! v"
    if a: "i < j" "j < length parts" "u < n" "v < n" "move_to node w parts ! i ! u = move_to node w parts ! i ! v" for i j u v
  proof -
    have all: "\<forall>i j u v. i < j \<longrightarrow> j < length parts \<longrightarrow> u < n \<longrightarrow> v < n \<longrightarrow> parts ! i ! u = parts ! i ! v \<longrightarrow> parts ! j ! u = parts ! j ! v"
      using assms(1) unfolding shape_def nested_parts_def by blast
    let ?f = "\<lambda>x. if x = node then w else x"
    have "parts ! i ! ?f u = parts ! i ! ?f v" using a by (simp only: move_to_nth [OF assms(1)] less_trans [OF a(1,2)])
    moreover have "?f u < n" "?f v < n" using a(3,4) assms(3) by simp_all
    ultimately have "parts ! j ! ?f u = parts ! j ! ?f v" using all a(1,2) by blast
    then show ?thesis using a(2-4) by (simp only: move_to_nth [OF assms(1)])
  qed
  then have "nested_parts (move_to node w parts) n" unfolding nested_parts_def len by blast
  moreover have "\<forall>part \<in> set (move_to node w parts). length part = n" using assms(1) by (auto simp: move_to_def shape_def)
  ultimately show "shape (move_to node w parts) n" by (simp add: shape_def)
  show "set (move_to node w parts ! k) \<subseteq> set (parts ! k)" if k: "k < length parts"
  proof -
    have "length (parts ! k) = n" using assms(1) k by (simp add: shape_def)
    then have "parts ! k ! w \<in> set (parts ! k)" using assms(3) by simp
    then show ?thesis using k set_update_subset_insert [of "parts ! k"] by (auto simp: move_to_def)
  qed
qed

text \<open>A node that is settled stays settled when another node moves.\<close>

lemma move_to_settled:
  assumes g: "two_way graph" and node: "node < dg_number_of_nodes graph" and sh: "shape parts (dg_number_of_nodes graph)"
    and w: "neighbour graph node w" and nj: "\<not> joined graph (parts ! l) node"
    and up: "\<forall>k. l < k \<longrightarrow> k < length parts \<longrightarrow> parts ! k ! w = parts ! k ! node"
    and l': "l \<le> l'" "l' < length parts" and u: "u < dg_number_of_nodes graph"
    and old: "u = node \<and> l' = l \<or> settled graph parts l' u"
  shows "settled graph (move_to node w parts) l' u"
proof -
  let ?N = "dg_number_of_nodes graph" and ?parts = "move_to node w parts"
  have wn: "w < ?N" using two_wayD(1) [OF g node w] by blast
  have above: "?parts ! k ! v = parts ! k ! v" if "l < k" "k < length parts" "v < ?N" for k v
    using that up by (simp add: move_to_nth [OF sh])
  have nb: "t < ?N" if "neighbour graph u t" for t using two_wayD(1) [OF g u that] by blast
  have st: "stuck graph ?parts l' u" if "stuck graph parts l' u"
    using that above [of "Suc l'"] l'(1) nb u unfolding stuck_def by (simp add: move_to_def)
  have self: "w \<noteq> node" using nj w unfolding joined_def by blast
  show ?thesis
  proof (cases "u = node \<and> l' = l")
    case True
    then have "joined graph (?parts ! l') u"
      unfolding joined_def using w self l' wn node by (intro exI [of _ w]) (simp add: move_to_nth [OF sh])
    then show ?thesis by (simp add: settled_def)
  next
    case False
    then consider "\<forall>t. \<not> neighbour graph u t" | "joined graph (parts ! l') u" | "stuck graph parts l' u"
      using old unfolding settled_def by blast
    then show ?thesis
    proof cases
      case 2
      then obtain t where t: "neighbour graph u t" "parts ! l' ! t = parts ! l' ! u" unfolding joined_def by blast
      have "?parts ! l' ! t = ?parts ! l' ! u"
      proof (cases "l' = l")
        case True
        have "neighbour graph t u" using two_wayD(1) [OF g u t(1)] by blast
        then have "t \<noteq> node" using nj t(2) True unfolding joined_def by metis
        moreover have "u \<noteq> node" using False True by blast
        ultimately show ?thesis using t nb [OF t(1)] u l'(2) by (simp add: move_to_nth [OF sh])
      next
        case False
        then show ?thesis using above t nb [OF t(1)] u l' by simp
      qed
      then show ?thesis using t(1) unfolding settled_def joined_def by blast
    qed (auto simp: settled_def st)
  qed
qed

text \<open>The invariant: all nodes are settled on the levels from \<open>L\<close> on.\<close>

definition settled_from :: "EdgeData DynamicGraph \<Rightarrow> CellID list list \<Rightarrow> nat \<Rightarrow> CellID list list \<times> nat \<times> nat \<Rightarrow> bool" where
  "settled_from graph parts0 L = (\<lambda>(parts, num, c). length parts = length parts0 \<and>
     shape parts (dg_number_of_nodes graph) \<and> (\<forall>k < length parts0. set (parts ! k) \<subseteq> set (parts0 ! k)) \<and>
     (num = 0 \<longrightarrow> parts = parts0) \<and>
     (\<forall>k u. L \<le> k \<longrightarrow> k < length parts0 \<longrightarrow> u < dg_number_of_nodes graph \<longrightarrow> settled graph parts k u))"

definition settled_nodes :: "EdgeData DynamicGraph \<Rightarrow> CellID list list \<Rightarrow> nat \<Rightarrow> nat \<Rightarrow> CellID list list \<times> nat \<times> nat \<Rightarrow> bool" where
  "settled_nodes graph parts0 l m st \<longleftrightarrow> settled_from graph parts0 (Suc l) st \<and> (\<forall>u < m. settled graph (fst st) l u)"

lemma fix_boundary_node_inv:
  assumes g: "two_way graph" and m: "m < dg_number_of_nodes graph" and l: "l < length parts0"
    and inv: "settled_nodes graph parts0 l m st"
  shows "settled_nodes graph parts0 l (Suc m) (fix_boundary_node graph l m st)"
proof -
  obtain parts a b where st: "st = (parts, a, b)" by (cases st)
  have len: "length parts = length parts0" and sh: "shape parts (dg_number_of_nodes graph)"
    and sub: "\<forall>k < length parts0. set (parts ! k) \<subseteq> set (parts0 ! k)" and zero: "a = 0 \<longrightarrow> parts = parts0"
    and above: "\<forall>k u. Suc l \<le> k \<longrightarrow> k < length parts0 \<longrightarrow> u < dg_number_of_nodes graph \<longrightarrow> settled graph parts k u"
    and before: "\<forall>u < m. settled graph parts l u"
    using inv unfolding st settled_nodes_def settled_from_def prod.case fst_conv by blast+
  have new: "settled_nodes graph parts0 l (Suc m) (parts, a', c)" if "settled graph parts l m" "a' = 0 \<longrightarrow> a = 0" for a' c
  proof -
    have "\<forall>u < Suc m. settled graph parts l u" using before that(1) by (simp add: less_Suc_eq)
    then show ?thesis
      unfolding settled_nodes_def settled_from_def prod.case fst_conv using len sh sub above zero that(2) by blast
  qed
  have lp: "l < length parts" using l len by simp
  show ?thesis
  proof (rule fix_boundary_node_spec [OF g m lp sh, of a b])
    fix w c
    assume mv: "fix_boundary_node graph l m (parts, a, b) = (move_to m w parts, Suc a, c)"
      "neighbour graph m w" "\<not> joined graph (parts ! l) m"
      "\<forall>k. l < k \<longrightarrow> k < length parts \<longrightarrow> parts ! k ! w = parts ! k ! m"
    have wn: "w < dg_number_of_nodes graph" using two_wayD(1) [OF g m mv(2)] by blast
    note ms = move_to_shape [OF sh m wn] and keep = move_to_settled [OF g m sh mv(2-4)]
    have "settled graph (move_to m w parts) l u" if u: "u < Suc m" for u
    proof (rule keep [OF order_refl lp])
      show "u < dg_number_of_nodes graph" using u m by simp
      show "u = m \<and> l = l \<or> settled graph parts l u" using before u by (auto simp: less_Suc_eq)
    qed
    moreover have "settled graph (move_to m w parts) k u" if "Suc l \<le> k" "k < length parts0" "u < dg_number_of_nodes graph" for k u
    proof (rule keep)
      show "u = m \<and> k = l \<or> settled graph parts k u" using above that by blast
    qed (use that len in simp_all)
    moreover have "set (move_to m w parts ! k) \<subseteq> set (parts0 ! k)" if "k < length parts0" for k
      using ms(3) [of k] sub that len by auto
    ultimately show ?thesis
      unfolding st mv(1) settled_nodes_def settled_from_def prod.case fst_conv using ms(1,2) len by simp
  next
    fix c assume "fix_boundary_node graph l m (parts, a, b) = (parts, a, c)" "settled graph parts l m"
    then show ?thesis unfolding st using new by simp
  next
    fix c assume "fix_boundary_node graph l m (parts, a, b) = (parts, Suc a, c)" "settled graph parts l m"
    then show ?thesis unfolding st using new by simp
  qed
qed

lemma fix_boundary_level_inv:
  assumes "two_way graph" "l < length parts0" "settled_from graph parts0 (Suc l) st"
  shows "settled_from graph parts0 l (fix_boundary_level graph l st)"
proof -
  have "settled_nodes graph parts0 l m (fold (fix_boundary_node graph l) [0..<m] st)"
    if "m \<le> dg_number_of_nodes graph" for m
    using that
  proof (induction m)
    case (Suc m)
    then show ?case using fix_boundary_node_inv [OF assms(1) _ assms(2)] by simp
  qed (use assms(3) in \<open>simp add: settled_nodes_def\<close>)
  then have n: "settled_nodes graph parts0 l (dg_number_of_nodes graph) (fix_boundary_level graph l st)"
    by (simp add: fix_boundary_level_def)
  obtain parts a b where st: "fix_boundary_level graph l st = (parts, a, b)" by (cases "fix_boundary_level graph l st")
  have "settled graph parts k u" if "l \<le> k" "k < length parts0" "u < dg_number_of_nodes graph" for k u
    using n that unfolding st settled_nodes_def settled_from_def prod.case fst_conv by (cases "k = l") auto
  then show ?thesis using n unfolding st settled_nodes_def settled_from_def prod.case fst_conv by blast
qed

lemma fix_boundary_levels_inv:
  assumes "two_way graph"
  shows "L \<le> length parts0 \<Longrightarrow> settled_from graph parts0 L st \<Longrightarrow>
    settled_from graph parts0 0 (fold (fix_boundary_level graph) (rev [0..<L]) st)"
proof (induction L arbitrary: st)
  case (Suc L)
  then show ?case using fix_boundary_level_inv [OF assms, of L parts0 st] by simp
qed simp

lemma removeUnconnected_spec:
  assumes g: "two_way graph" and sh: "shape parts (dg_number_of_nodes graph)"
    and r: "removeUnconnectedBoundaryNodes graph parts = (num, parts')"
  shows "length parts' = length parts" "shape parts' (dg_number_of_nodes graph)"
    and "k < length parts \<Longrightarrow> set (parts' ! k) \<subseteq> set (parts ! k)" "num = 0 \<Longrightarrow> parts' = parts"
    and "l < length parts \<Longrightarrow> u < dg_number_of_nodes graph \<Longrightarrow> settled graph parts' l u"
proof -
  have "settled_from graph parts (length parts) (parts, 0, 0)" using sh by (simp add: settled_from_def)
  from fix_boundary_levels_inv [OF g order_refl this]
  have s: "\<exists>c. settled_from graph parts 0 (parts', num, c)"
    using r unfolding removeUnconnectedBoundaryNodes_def by (auto simp: Let_def split: prod.splits)
  then show "length parts' = length parts" "shape parts' (dg_number_of_nodes graph)"
    "k < length parts \<Longrightarrow> set (parts' ! k) \<subseteq> set (parts ! k)" "num = 0 \<Longrightarrow> parts' = parts"
    "l < length parts \<Longrightarrow> u < dg_number_of_nodes graph \<Longrightarrow> settled graph parts' l u"
    unfolding settled_from_def by auto
qed

text \<open>
  Property C20.  No fixable boundary node is left.  On a graph whose edges have an entry at both ends and
  a direction, \<^verbatim>\<open>removeUnconnectedBoundaryNodes\<close> keeps the partitions nested and introduces no cell;
  afterwards, on every level, every node with an edge has an edge inside its cell, unless the cells
  of all its neighbours on the next higher level differ from its own.  When nothing is counted,
  nothing is changed.
\<close>

theorem removeUnconnectedBoundaryNodes_correct:
  assumes "two_way graph" "\<forall>part \<in> set parts. length part = dg_number_of_nodes graph" "nested_parts parts (dg_number_of_nodes graph)"
  shows "case removeUnconnectedBoundaryNodes graph parts of (num, parts') \<Rightarrow>
    length parts' = length parts \<and> (\<forall>part \<in> set parts'. length part = dg_number_of_nodes graph) \<and>
    nested_parts parts' (dg_number_of_nodes graph) \<and> (\<forall>k < length parts. set (parts' ! k) \<subseteq> set (parts ! k)) \<and>
    (num = 0 \<longrightarrow> parts' = parts) \<and>
    (\<forall>l < length parts. \<forall>u < dg_number_of_nodes graph. (\<exists>t. neighbour graph u t) \<longrightarrow>
       (\<exists>t. neighbour graph u t \<and> parts' ! l ! t = parts' ! l ! u) \<or>
       Suc l < length parts \<and> (\<forall>t. neighbour graph u t \<longrightarrow> parts' ! Suc l ! t \<noteq> parts' ! Suc l ! u))"
proof -
  obtain num parts' where r: "removeUnconnectedBoundaryNodes graph parts = (num, parts')" by fastforce
  have "shape parts (dg_number_of_nodes graph)" using assms(2,3) by (simp add: shape_def)
  note s = removeUnconnected_spec [OF assms(1) this r]
  have "(\<exists>t. neighbour graph u t \<and> parts' ! l ! t = parts' ! l ! u) \<or>
       Suc l < length parts \<and> (\<forall>t. neighbour graph u t \<longrightarrow> parts' ! Suc l ! t \<noteq> parts' ! Suc l ! u)"
    if "l < length parts" "u < dg_number_of_nodes graph" "\<exists>t. neighbour graph u t" for l u
    using s(5) [OF that(1,2)] s(1) that(3) unfolding settled_def joined_def stuck_def by auto
  then show ?thesis using s(1-4) unfolding r prod.case shape_def by blast
qed

definition example_boundary_graph :: "EdgeData DynamicGraph" where
  "example_boundary_graph =
     (let d = (eb_data \<lparr>eb_source = 0, eb_target = 0, eb_data = \<lparr>ed_turn_id = 0, ed_weight = 1, ed_distance = 1, ed_duration = 1,
                ed_forward = True, ed_backward = True\<rparr>\<rparr>);
          edge = (\<lambda>s t. \<lparr>ie_source = s, ie_target = t, ie_data = d\<rparr>)
      in dg_construct \<lparr>de_target = 0, de_data = d\<rparr> 4 [edge 0 1, edge 1 0, edge 1 2, edge 2 1, edge 2 3, edge 3 2])"

lemma example_boundary_graph_eval:
  "dg_number_of_nodes example_boundary_graph = 4"
  "map (dg_edge_range example_boundary_graph) [0..<4] = [[0], [1, 2], [3, 4], [5]]"
  "map (dg_target example_boundary_graph) [0..<6] = [1, 0, 2, 1, 3, 2]"
  "map (\<lambda>e. ed_forward (dg_data example_boundary_graph e)) [0..<6] = replicate 6 True"
  "removeUnconnectedBoundaryNodes example_boundary_graph [[0, 1, 2, 2], [0, 1, 1, 1]] = (1, [[1, 1, 2, 2], [1, 1, 1, 1]])"
  by code_simp+

lemma example_boundary_graph_two_way: "two_way example_boundary_graph"
proof -
  have "two_way example_boundary_graph \<longleftrightarrow> (\<forall>u \<in> set [0..<4]. \<forall>e \<in> set (dg_edge_range example_boundary_graph u).
     dg_target example_boundary_graph e < 4 \<and>
     (\<exists>e' \<in> set (dg_edge_range example_boundary_graph (dg_target example_boundary_graph e)). dg_target example_boundary_graph e' = u) \<and>
     (ed_forward (dg_data example_boundary_graph e) \<or> ed_backward (dg_data example_boundary_graph e)))"
    unfolding two_way_def neighbour_def example_boundary_graph_eval(1) by auto
  also have "\<dots>" by code_simp
  finally show ?thesis by simp
qed

lemma removeUnconnectedBoundaryNodes_correct_witness:
  "removeUnconnectedBoundaryNodes example_boundary_graph [[0, 1, 2, 2], [0, 1, 1, 1]] = (1, [[1, 1, 2, 2], [1, 1, 1, 1]]) \<and>
   nested_parts [[1, 1, 2, 2], [1, 1, 1, 1]] 4"
proof -
  have "nested_parts [[0, 1, 2, 2], [0, 1, 1, 1]] 4"
    unfolding nested_parts_def
  proof (intro allI impI)
    fix i j u v :: nat
    assume a: "i < j" "j < length [[0, 1, 2, 2], [0, 1, 1, 1 :: nat]]" "u < 4" "v < 4"
      "[[0, 1, 2, 2], [0, 1, 1, 1 :: nat]] ! i ! u = [[0, 1, 2, 2], [0, 1, 1, 1]] ! i ! v"
    then have "i = 0" "j = 1" by simp_all
    moreover have "u \<in> {0, 1, 2, 3}" "v \<in> {0, 1, 2, 3}" using a(3,4) by auto
    ultimately show "[[0, 1, 2, 2], [0, 1, 1, 1 :: nat]] ! j ! u = [[0, 1, 2, 2], [0, 1, 1, 1]] ! j ! v"
      using a(5) by auto
  qed
  moreover have "\<forall>part \<in> set [[0, 1, 2, 2], [0, 1, 1, 1 :: nat]]. length part = 4" by simp
  ultimately show ?thesis
    using removeUnconnectedBoundaryNodes_correct [OF example_boundary_graph_two_way, of "[[0, 1, 2, 2], [0, 1, 1, 1]]"]
    unfolding example_boundary_graph_eval(1,5) prod.case by blast
qed

end
