(* ===== verification/PartitionRenumber.thy ===== *)
theory PartitionRenumber
  imports UnconnectedNodes Permutation "HOL-Library.List_Lexorder"
begin

text \<open>
  The order of the nodes after the partition, \<^verbatim>\<open>src/partitioner/renumber.cpp\<close>, and its application
  to everything that refers to nodes, \<^verbatim>\<open>include/partitioner/renumber.hpp\<close>: nodes on a border of a
  high level come first, within a level nodes of the same cell are next to each other.
\<close>

section \<open>Definitions\<close>

definition mark_border_edge :: "CellID list \<Rightarrow> LevelID \<Rightarrow> NodeID \<Rightarrow> NodeID \<Rightarrow> LevelID list \<Rightarrow> LevelID list" where
  "mark_border_edge part level node target border_level =
     (if part ! node \<noteq> part ! target then border_level[node := level, target := level] else border_level)"

definition mark_border_level :: "'d DynamicGraph \<Rightarrow> LevelID \<times> CellID list \<Rightarrow> LevelID list \<Rightarrow> LevelID list" where
  "mark_border_level graph = (\<lambda>(level, part).
     fold (\<lambda>node. fold (\<lambda>edge. mark_border_edge part level node (dg_target graph edge)) (dg_edge_range graph node))
       [0..<dg_number_of_nodes graph])"

definition getHighestBorderLevel :: "'d DynamicGraph \<Rightarrow> CellID list list \<Rightarrow> LevelID list" where
  "getHighestBorderLevel graph partitions =
     fold (mark_border_level graph) (zip [1..<length partitions + 1] partitions) (replicate (dg_number_of_nodes graph) 0)"

definition makePermutation :: "'d DynamicGraph \<Rightarrow> CellID list list \<Rightarrow> nat list" where
  "makePermutation graph partitions =
     (let ordering = [0..<dg_number_of_nodes graph];
          ordering = fold (\<lambda>part. sort_key ((!) part)) partitions ordering;
          border_level = getHighestBorderLevel graph partitions;
          ordering = sort_key (\<lambda>node. - int (border_level ! node)) ordering
      in orderingToPermutation ordering)"

text \<open>Everything that refers to nodes is renumbered alike.  The enumerations of an override are
  type variables.\<close>

record NBGToEBG =
  nbg_u :: NodeID
  nbg_v :: NodeID
  forward_ebg_node :: NodeID
  backward_ebg_node :: NodeID

record SegmentID =
  segment_id :: NodeID
  enabled :: bool

record EdgeBasedNodeSegment =
  forward_segment_id :: SegmentID
  reverse_segment_id :: SegmentID
  segment_u :: NodeID
  segment_v :: NodeID
  fwd_segment_position :: nat
  is_startpoint :: bool

record ('t, 'm) StorageManeuverOverride =
  node_sequence_offset_begin :: nat
  node_sequence_offset_end :: nat
  start_node :: NodeID
  instruction_node :: NodeID
  override_type :: 't
  override_direction :: 'm

definition renumber_partitions :: "nat list \<Rightarrow> CellID list list \<Rightarrow> CellID list list option" where
  "renumber_partitions permutation partitions = those (map (inplacePermutation permutation) partitions)"

definition renumber_segments :: "nat list \<Rightarrow> EdgeBasedNodeSegment list \<Rightarrow> EdgeBasedNodeSegment list" where
  "renumber_segments permutation segments = map (\<lambda>segment.
     let fwd = forward_segment_id segment; rev = reverse_segment_id segment;
         segment = segment\<lparr>forward_segment_id := fwd\<lparr>segment_id := permutation ! segment_id fwd mod 2 ^ 31\<rparr>\<rparr>
     in if enabled rev then segment\<lparr>reverse_segment_id := rev\<lparr>segment_id := permutation ! segment_id rev mod 2 ^ 31\<rparr>\<rparr>
        else segment) segments"

definition renumber_mapping :: "nat list \<Rightarrow> NBGToEBG list \<Rightarrow> NBGToEBG list" where
  "renumber_mapping permutation mapping = map (\<lambda>m.
     let m = (if backward_ebg_node m \<noteq> SPECIAL_NODEID then m\<lparr>backward_ebg_node := permutation ! backward_ebg_node m\<rparr> else m)
     in if forward_ebg_node m \<noteq> SPECIAL_NODEID then m\<lparr>forward_ebg_node := permutation ! forward_ebg_node m\<rparr> else m) mapping"

definition renumber_node_ids :: "nat list \<Rightarrow> NodeID list \<Rightarrow> NodeID list" where
  "renumber_node_ids permutation node_ids =
     map (\<lambda>node_id. if node_id \<noteq> SPECIAL_NODEID then permutation ! node_id else node_id) node_ids"

definition renumber_overrides ::
  "nat list \<Rightarrow> ('t, 'm) StorageManeuverOverride list \<Rightarrow> ('t, 'm) StorageManeuverOverride list" where
  "renumber_overrides permutation maneuver_overrides = map (\<lambda>override.
     if start_node override \<noteq> SPECIAL_NODEID then override\<lparr>start_node := permutation ! start_node override\<rparr>
     else override) maneuver_overrides"

section \<open>The highest border\<close>

text \<open>A node is on the border of a partition when an edge at it, in either direction, leaves its cell.\<close>

definition on_border :: "'d DynamicGraph \<Rightarrow> CellID list \<Rightarrow> NodeID \<Rightarrow> bool" where
  "on_border graph part v \<longleftrightarrow> (\<exists>a b. a < dg_number_of_nodes graph \<and> neighbour graph a b \<and> part ! a \<noteq> part ! b \<and> (v = a \<or> v = b))"

definition highest_border :: "'d DynamicGraph \<Rightarrow> CellID list list \<Rightarrow> NodeID \<Rightarrow> LevelID" where
  "highest_border graph parts v = Max (insert 0 {l. 1 \<le> l \<and> l \<le> length parts \<and> on_border graph (parts ! (l - 1)) v})"

definition targets_ok :: "'d DynamicGraph \<Rightarrow> bool" where
  "targets_ok graph \<longleftrightarrow> (\<forall>u < dg_number_of_nodes graph. \<forall>t. neighbour graph u t \<longrightarrow> t < dg_number_of_nodes graph)"

lemma fold_pairs_nested:
  "fold (\<lambda>v. fold (f v) (r v)) vs s = fold (\<lambda>(v, e). f v e) (concat (map (\<lambda>v. map (Pair v) (r v)) vs)) s"
  by (induction vs arbitrary: s) (simp_all add: fold_map comp_def)

lemma mark_border_level_spec:
  assumes "targets_ok graph" "length bl = dg_number_of_nodes graph"
  shows "length (mark_border_level graph (l, part) bl) = length bl \<and>
    (\<forall>v < length bl. mark_border_level graph (l, part) bl ! v = (if on_border graph part v then l else bl ! v))"
proof -
  let ?n = "dg_number_of_nodes graph"
  define es where "es = concat (map (\<lambda>v. map (Pair v) (dg_edge_range graph v)) [0..<?n])"
  have es: "(v, e) \<in> set es \<longleftrightarrow> v < ?n \<and> e \<in> set (dg_edge_range graph v)" for v e unfolding es_def by auto
  define step where "step = (\<lambda>(v, e). mark_border_edge part l v (dg_target graph e))"
  have m: "mark_border_level graph (l, part) bl = fold step es bl"
    unfolding mark_border_level_def prod.case fold_pairs_nested es_def step_def ..
  have "length (fold step xs bl) = length bl \<and> (\<forall>v < length bl. fold step xs bl ! v =
      (if \<exists>(a, e) \<in> set xs. part ! a \<noteq> part ! dg_target graph e \<and> (v = a \<or> v = dg_target graph e) then l else bl ! v))"
    for xs
  proof (induction xs rule: rev_induct)
    case (snoc x xs)
    obtain a e where x: "x = (a, e)" by (cases x)
    show ?case
    proof (intro conjI allI impI)
      show "length (fold step (xs @ [x]) bl) = length bl" using snoc.IH by (simp add: step_def x mark_border_edge_def)
      fix v assume v: "v < length bl"
      have "fold step (xs @ [x]) bl ! v = (if part ! a \<noteq> part ! dg_target graph e \<and> (v = a \<or> v = dg_target graph e) then l
          else fold step xs bl ! v)"
        using snoc.IH v by (auto simp: step_def x mark_border_edge_def nth_list_update_in)
      then show "fold step (xs @ [x]) bl ! v = (if \<exists>(a, e) \<in> set (xs @ [x]). part ! a \<noteq> part ! dg_target graph e \<and>
          (v = a \<or> v = dg_target graph e) then l else bl ! v)"
        using snoc.IH v by (auto simp: x)
    qed
  qed simp
  moreover have "(\<exists>(a, e) \<in> set es. part ! a \<noteq> part ! dg_target graph e \<and> (v = a \<or> v = dg_target graph e)) \<longleftrightarrow> on_border graph part v" for v
    unfolding on_border_def neighbour_def using es by fastforce
  ultimately show ?thesis unfolding m by simp
qed

lemma highest_border_Suc:
  "highest_border graph (parts @ [part]) v = (if on_border graph part v then Suc (length parts) else highest_border graph parts v)"
proof -
  let ?S = "\<lambda>parts. {l. 1 \<le> l \<and> l \<le> length parts \<and> on_border graph (parts ! (l - 1)) v}"
  have fin: "finite (?S parts)" for parts by (rule finite_subset [of _ "{0..length parts}"]) auto
  have S: "?S (parts @ [part]) = (if on_border graph part v then insert (Suc (length parts)) (?S parts) else ?S parts)"
    by (auto simp: nth_append le_Suc_eq)
  show ?thesis
  proof (cases "on_border graph part v")
    case True
    have "Max (insert (Suc (length parts)) (insert 0 (?S parts))) = Suc (length parts)"
      by (rule Max_eqI) (use fin in auto)
    then show ?thesis unfolding highest_border_def S using True by (simp add: insert_commute)
  next
    case False
    then show ?thesis unfolding highest_border_def S by simp
  qed
qed

lemma getHighestBorderLevel_spec:
  assumes "targets_ok graph"
  shows "length (getHighestBorderLevel graph parts) = dg_number_of_nodes graph \<and>
    (\<forall>v < dg_number_of_nodes graph. getHighestBorderLevel graph parts ! v = highest_border graph parts v)"
proof (induction parts rule: rev_induct)
  case Nil
  have none: "{l. 1 \<le> l \<and> l \<le> length [] \<and> on_border graph ([] ! (l - 1)) v} = {}" for v by auto
  have "highest_border graph [] v = 0" for v unfolding highest_border_def none by simp
  then show ?case by (simp add: getHighestBorderLevel_def)
next
  case (snoc part parts)
  have "getHighestBorderLevel graph (parts @ [part]) =
      mark_border_level graph (Suc (length parts), part) (getHighestBorderLevel graph parts)"
  proof -
    have "zip [1..<length (parts @ [part]) + 1] (parts @ [part]) = zip [1..<length parts + 1] parts @ [(Suc (length parts), part)]"
      by (simp add: upt_Suc_append del: upt_Suc One_nat_def)
    then show ?thesis by (simp add: getHighestBorderLevel_def)
  qed
  then show ?case
    using mark_border_level_spec [OF assms, of "getHighestBorderLevel graph parts" "Suc (length parts)" part] snoc.IH
    by (simp add: highest_border_Suc)
qed

section \<open>Stable sorting\<close>

lemma insort_key_ordered:
  fixes f :: "'a \<Rightarrow> 'k :: linorder"
  assumes "sorted_wrt (\<lambda>a b. f a < f b \<or> f a = f b \<and> R a b) ys" "\<forall>y \<in> set ys. R x y"
  shows "sorted_wrt (\<lambda>a b. f a < f b \<or> f a = f b \<and> R a b) (insort_key f x ys)"
  using assms
proof (induction ys)
  case (Cons y ys)
  show ?case
  proof (cases "f x \<le> f y")
    case True
    have "f x < f z \<or> f x = f z \<and> R x z" if "z \<in> set (y # ys)" for z
    proof -
      have "f y \<le> f z" using Cons.prems(1) that by auto
      then show ?thesis using True Cons.prems(2) that by fastforce
    qed
    then show ?thesis using True Cons.prems(1) by simp
  next
    case False
    then show ?thesis using Cons by (auto simp: set_insort_key)
  qed
qed simp

lemma sort_key_ordered:
  fixes f :: "'a \<Rightarrow> 'k :: linorder"
  shows "sorted_wrt R xs \<Longrightarrow> sorted_wrt (\<lambda>a b. f a < f b \<or> f a = f b \<and> R a b) (sort_key f xs)"
  by (induction xs) (simp_all add: insort_key_ordered)

text \<open>The cells of a node, the highest level first.\<close>

definition cell_vector :: "CellID list list \<Rightarrow> NodeID \<Rightarrow> CellID list" where
  "cell_vector parts v = map (\<lambda>part. part ! v) (rev parts)"

definition cell_before :: "CellID list list \<Rightarrow> NodeID \<Rightarrow> NodeID \<Rightarrow> bool" where
  "cell_before parts u v \<longleftrightarrow> cell_vector parts u < cell_vector parts v \<or> cell_vector parts u = cell_vector parts v \<and> u < v"

lemma sort_levels_ordered:
  "sorted_wrt (cell_before parts) (fold (\<lambda>part. sort_key ((!) part)) parts [0..<n]) \<and>
   mset (fold (\<lambda>part. sort_key ((!) part)) parts [0..<n]) = mset [0..<n]"
proof (induction parts rule: rev_induct)
  case Nil
  have "sorted_wrt (<) [0..<n]" by simp
  then show ?case by (simp add: cell_before_def [abs_def] cell_vector_def)
next
  case (snoc part parts)
  have "(\<lambda>a b. part ! a < part ! b \<or> part ! a = part ! b \<and> cell_before parts a b) = cell_before (parts @ [part])"
    by (intro ext) (auto simp: cell_before_def cell_vector_def)
  then show ?case using snoc.IH sort_key_ordered [of "cell_before parts" _ "(!) part"] by simp
qed

section \<open>The permutation\<close>

text \<open>The order of the nodes: higher borders first, then the cells from the highest level down, then
  the old number.\<close>

definition node_before :: "'d DynamicGraph \<Rightarrow> CellID list list \<Rightarrow> NodeID \<Rightarrow> NodeID \<Rightarrow> bool" where
  "node_before graph parts u v \<longleftrightarrow> highest_border graph parts v < highest_border graph parts u \<or>
     highest_border graph parts u = highest_border graph parts v \<and> cell_before parts u v"

lemma node_before_order:
  "\<not> node_before graph parts u u" "node_before graph parts u v \<Longrightarrow> \<not> node_before graph parts v u"
  by (auto simp: node_before_def cell_before_def)

lemma makePermutation_spec:
  assumes "targets_ok graph"
  shows "is_perm (makePermutation graph parts) (dg_number_of_nodes graph)"
    and "u < dg_number_of_nodes graph \<Longrightarrow> v < dg_number_of_nodes graph \<Longrightarrow>
      makePermutation graph parts ! u < makePermutation graph parts ! v \<longleftrightarrow> node_before graph parts u v"
proof -
  let ?n = "dg_number_of_nodes graph"
  define cells where "cells = fold (\<lambda>part. sort_key ((!) part)) parts [0..<?n]"
  define ord where "ord = sort_key (\<lambda>v. - int (getHighestBorderLevel graph parts ! v)) cells"
  note c = sort_levels_ordered [of parts ?n, folded cells_def]
  have m: "mset ord = mset [0..<?n]" using c by (simp add: ord_def)
  have set: "set ord = {0..<?n}" using mset_eq_setD [OF m] by simp
  have ord: "is_perm ord ?n"
    using mset_eq_length [OF m] set mset_eq_imp_distinct_iff [OF m] unfolding is_perm_def by (auto simp: atLeast0LessThan)
  have "sorted_wrt (\<lambda>a b. - int (getHighestBorderLevel graph parts ! a) < - int (getHighestBorderLevel graph parts ! b) \<or>
      - int (getHighestBorderLevel graph parts ! a) = - int (getHighestBorderLevel graph parts ! b) \<and> cell_before parts a b) ord"
    unfolding ord_def using c by (intro sort_key_ordered) blast
  moreover have "node_before graph parts a b" if "a \<in> set ord" "b \<in> set ord"
    "- int (getHighestBorderLevel graph parts ! a) < - int (getHighestBorderLevel graph parts ! b) \<or>
      - int (getHighestBorderLevel graph parts ! a) = - int (getHighestBorderLevel graph parts ! b) \<and> cell_before parts a b" for a b
    using that getHighestBorderLevel_spec [OF assms, of parts] unfolding set by (simp add: node_before_def)
  ultimately have srt: "sorted_wrt (node_before graph parts) ord" by (rule sorted_wrt_mono_rel [rotated])
  have perm: "makePermutation graph parts = orderingToPermutation ord"
    by (simp add: makePermutation_def ord_def cells_def)
  show "is_perm (makePermutation graph parts) ?n" unfolding perm by (rule orderingToPermutation_perm [OF ord])
  have len: "length ord = ?n" using ord by (simp add: is_perm_def)
  have lt: "node_before graph parts (ord ! i) (ord ! j)" if "i < j" "j < ?n" for i j
    using srt that len by (simp add: sorted_wrt_iff_nth_less)
  assume u: "u < ?n" and v: "v < ?n"
  obtain i j where ij: "i < ?n" "ord ! i = u" "j < ?n" "ord ! j = v"
    using is_perm_surj [OF ord u] is_perm_surj [OF ord v] by blast
  have "makePermutation graph parts ! u = i" "makePermutation graph parts ! v = j"
    using orderingToPermutation_nth(2) [OF ord] ij unfolding perm by blast+
  then show "makePermutation graph parts ! u < makePermutation graph parts ! v \<longleftrightarrow> node_before graph parts u v"
    using lt [of i j] lt [of j i] ij node_before_order [of graph parts] by (metis nat_neq_iff)
qed

text \<open>
  Property C22.  The order of the nodes.  When all targets are nodes, \<^verbatim>\<open>makePermutation\<close> returns a
  permutation of the nodes; the node that is on the border of a higher level gets the smaller
  number, of two nodes with the same highest border the one with the smaller cell on the highest
  level on which their cells differ, and of two nodes with equal cells the one with the smaller
  old number.
\<close>

theorem makePermutation_correct:
  assumes "\<forall>u < dg_number_of_nodes graph. \<forall>t. neighbour graph u t \<longrightarrow> t < dg_number_of_nodes graph"
  shows "is_perm (makePermutation graph parts) (dg_number_of_nodes graph) \<and>
    (\<forall>u < dg_number_of_nodes graph. \<forall>v < dg_number_of_nodes graph.
       makePermutation graph parts ! u < makePermutation graph parts ! v \<longleftrightarrow>
         highest_border graph parts v < highest_border graph parts u \<or>
         highest_border graph parts u = highest_border graph parts v \<and>
           (cell_vector parts u < cell_vector parts v \<or> cell_vector parts u = cell_vector parts v \<and> u < v))"
  using makePermutation_spec [where graph = graph and parts = parts] assms unfolding targets_ok_def node_before_def cell_before_def by blast

lemma makePermutation_correct_witness:
  "makePermutation example_boundary_graph [[1, 1, 1, 0]] = [2, 3, 1, 0] \<and>
   highest_border example_boundary_graph [[1, 1, 1, 0]] 0 < highest_border example_boundary_graph [[1, 1, 1, 0]] 2"
proof -
  have p: "makePermutation example_boundary_graph [[1, 1, 1, 0]] = [2, 3, 1, 0]" by code_simp
  have "\<forall>u < dg_number_of_nodes example_boundary_graph. \<forall>t. neighbour example_boundary_graph u t \<longrightarrow> t < dg_number_of_nodes example_boundary_graph"
    using two_wayD(1) [OF example_boundary_graph_two_way] by blast
  from makePermutation_correct [OF this, THEN conjunct2, rule_format, of 2 0 "[[1, 1, 1, 0]]"]
  show ?thesis by (simp add: p example_boundary_graph_eval(1) cell_vector_def del: One_nat_def)
qed

section \<open>The renumbered graph\<close>

lemma neighbour_adj: "neighbour graph u t \<longleftrightarrow> (\<exists>e \<in> set (dg_adj graph u). de_target e = t)"
  by (simp add: neighbour_def dg_adj_edges dg_target_def)

lemma renumber_partitions_spec:
  assumes "is_perm p n" "\<forall>part \<in> set parts. length part = n"
  shows "\<exists>parts'. renumber_partitions p parts = Some parts' \<and> length parts' = length parts \<and>
    (\<forall>part \<in> set parts'. length part = n) \<and>
    (\<forall>k < length parts. \<forall>u < n. parts' ! k ! (p ! u) = parts ! k ! u)"
  using assms(2)
proof (induction parts)
  case (Cons part parts)
  then obtain parts' where ih: "renumber_partitions p parts = Some parts'" "length parts' = length parts"
    "\<forall>part \<in> set parts'. length part = n" "\<forall>k < length parts. \<forall>u < n. parts' ! k ! (p ! u) = parts ! k ! u" by auto
  obtain part' where p': "inplacePermutation p part = Some part'" "length part' = n" "\<forall>u < n. part' ! (p ! u) = part ! u"
    using permute_indices_vector [of p part] assms(1) Cons.prems by auto
  have "renumber_partitions p (part # parts) = Some (part' # parts')"
    using ih(1) p'(1) by (simp add: renumber_partitions_def)
  moreover have "(part' # parts') ! k ! (p ! u) = (part # parts) ! k ! u" if "k < length (part # parts)" "u < n" for k u
    using that ih(4) p'(3) by (cases k) auto
  ultimately show ?case using ih(2,3) p'(2) by auto
qed (simp add: renumber_partitions_def)

lemma on_border_renumbered:
  assumes p: "is_perm p n" and n: "dg_number_of_nodes graph = n" "dg_number_of_nodes graph' = n" and t: "targets_ok graph"
    and nb: "\<forall>u < n. \<forall>v < n. neighbour graph' (p ! u) (p ! v) \<longleftrightarrow> neighbour graph u v" and t': "targets_ok graph'"
    and part: "\<forall>u < n. part' ! (p ! u) = part ! u" and v: "v < n"
  shows "on_border graph' part' (p ! v) \<longleftrightarrow> on_border graph part v"
proof
  assume "on_border graph part v"
  then obtain a b where ab: "a < n" "neighbour graph a b" "part ! a \<noteq> part ! b" "v = a \<or> v = b"
    unfolding on_border_def n by blast
  have "b < n" using t ab(1,2) unfolding targets_ok_def n by blast
  then show "on_border graph' part' (p ! v)"
    unfolding on_border_def n using ab nb part is_perm_less [OF p] by (intro exI [of _ "p ! a"] exI [of _ "p ! b"]) auto
next
  assume "on_border graph' part' (p ! v)"
  then obtain x y where xy: "x < n" "neighbour graph' x y" "part' ! x \<noteq> part' ! y" "p ! v = x \<or> p ! v = y"
    unfolding on_border_def n by blast
  have "y < n" using t' xy(1,2) unfolding targets_ok_def n by blast
  then obtain a b where ab: "a < n" "x = p ! a" "b < n" "y = p ! b"
    using is_perm_surj [OF p xy(1)] is_perm_surj [OF p] by metis
  have "v = a \<or> v = b" using xy(4) ab is_perm_inj [OF p v] by blast
  then show "on_border graph part v"
    unfolding on_border_def n using xy(2,3) ab nb part by (intro exI [of _ a] exI [of _ b]) auto
qed

lemma renumber_graph_spec:
  assumes inv: "dg_inv graph" and t: "targets_ok graph"
    and small: "dg_number_of_nodes graph < SPECIAL_NODEID" "length (dg_edge_list graph) < SPECIAL_EDGEID"
    and p: "is_perm p (dg_number_of_nodes graph)"
  obtains graph' where "dg_renumber p graph = Some (Inr graph')" "dg_inv graph'"
    "dg_number_of_nodes graph' = dg_number_of_nodes graph" "targets_ok graph'"
    "\<forall>u < dg_number_of_nodes graph. dg_adj graph' (p ! u) = map (\<lambda>e. e\<lparr>de_target := p ! de_target e\<rparr>) (dg_adj graph u)"
    "\<forall>u < dg_number_of_nodes graph. \<forall>v < dg_number_of_nodes graph. neighbour graph' (p ! u) (p ! v) \<longleftrightarrow> neighbour graph u v"
proof -
  let ?n = "dg_number_of_nodes graph"
  have targets: "\<forall>n < ?n. \<forall>e \<in> set (dg_adj graph n). de_target e < ?n"
    using t unfolding targets_ok_def neighbour_adj by blast
  obtain graph' where g': "dg_renumber p graph = Some (Inr graph')" "dg_inv graph'" "dg_number_of_nodes graph' = ?n"
    "\<forall>u < ?n. dg_adj graph' (p ! u) = map (\<lambda>e. e\<lparr>de_target := p ! de_target e\<rparr>) (dg_adj graph u)"
    using dg_renumber_spec [OF inv p targets small] by blast
  have nb': "neighbour graph' (p ! u) x \<longleftrightarrow> (\<exists>v < ?n. neighbour graph u v \<and> x = p ! v)" if "u < ?n" for u x
    using g'(4) targets that unfolding neighbour_adj by fastforce
  have "neighbour graph' (p ! u) (p ! v) \<longleftrightarrow> neighbour graph u v" if "u < ?n" "v < ?n" for u v
    using nb' [OF that(1)] is_perm_inj [OF p that(2)] that(2) by blast
  moreover have "targets_ok graph'"
    unfolding targets_ok_def g'(3)
  proof (intro allI impI)
    fix x y assume "x < ?n" "neighbour graph' x y"
    then show "y < ?n" using is_perm_surj [OF p] nb' is_perm_less [OF p] by metis
  qed
  ultimately show thesis using that [OF g'(1-3)] g'(4) by blast
qed

lemma renumbered_shape:
  assumes p: "is_perm p n" and old: "shape parts n" and len: "length parts' = length parts" "\<forall>part \<in> set parts'. length part = n"
    and eq: "\<forall>k < length parts. \<forall>u < n. parts' ! k ! (p ! u) = parts ! k ! u"
  shows "shape parts' n" "k < length parts \<Longrightarrow> set (parts' ! k) = set (parts ! k)"
proof -
  have all: "\<forall>i j u v. i < j \<longrightarrow> j < length parts \<longrightarrow> u < n \<longrightarrow> v < n \<longrightarrow> parts ! i ! u = parts ! i ! v \<longrightarrow> parts ! j ! u = parts ! j ! v"
    using old unfolding shape_def nested_parts_def by blast
  have "parts' ! j ! x = parts' ! j ! y"
    if a: "i < j" "j < length parts'" "x < n" "y < n" "parts' ! i ! x = parts' ! i ! y" for i j x y
  proof -
    obtain u v where "u < n" "p ! u = x" "v < n" "p ! v = y"
      using is_perm_surj [OF p a(3)] is_perm_surj [OF p a(4)] by blast
    then show ?thesis using a all eq len(1) by (metis less_trans)
  qed
  then show "shape parts' n" using len(2) unfolding shape_def nested_parts_def by blast
  assume k: "k < length parts"
  have l: "length (parts ! k) = n" "length (parts' ! k) = n" using old len k by (simp_all add: shape_def)
  show "set (parts' ! k) = set (parts ! k)"
  proof
    show "set (parts ! k) \<subseteq> set (parts' ! k)"
    proof
      fix c assume "c \<in> set (parts ! k)"
      then obtain u where "u < n" "c = parts ! k ! u" using l by (metis in_set_conv_nth)
      then show "c \<in> set (parts' ! k)" using eq k l is_perm_less [OF p] by (metis nth_mem)
    qed
    show "set (parts' ! k) \<subseteq> set (parts ! k)"
    proof
      fix c assume "c \<in> set (parts' ! k)"
      then obtain x where "x < n" "c = parts' ! k ! x" using l by (metis in_set_conv_nth)
      moreover then obtain u where "u < n" "p ! u = x" using is_perm_surj [OF p] by blast
      ultimately show "c \<in> set (parts ! k)" using eq k l by (metis nth_mem)
    qed
  qed
qed

lemma highest_border_renumbered:
  assumes "\<And>k. k < length parts \<Longrightarrow> on_border graph' (parts' ! k) (p ! v) \<longleftrightarrow> on_border graph (parts ! k) v"
    and "length parts' = length parts"
  shows "highest_border graph' parts' (p ! v) = highest_border graph parts v"
proof -
  have "{l. 1 \<le> l \<and> l \<le> length parts' \<and> on_border graph' (parts' ! (l - 1)) (p ! v)} =
      {l. 1 \<le> l \<and> l \<le> length parts \<and> on_border graph (parts ! (l - 1)) v}"
    using assms by (intro Collect_cong) (metis diff_less le_trans less_le_trans zero_less_one less_numeral_extra(1))
  then show ?thesis unfolding highest_border_def by simp
qed

lemma renumber_borders_spec:
  assumes inv: "dg_inv graph" and t: "targets_ok graph"
    and small: "dg_number_of_nodes graph < SPECIAL_NODEID" "length (dg_edge_list graph) < SPECIAL_EDGEID"
    and parts: "shape parts (dg_number_of_nodes graph)"
  defines "p \<equiv> makePermutation graph parts"
  obtains graph' parts' where "dg_renumber p graph = Some (Inr graph')" "renumber_partitions p parts = Some parts'" "dg_inv graph'"
    "dg_number_of_nodes graph' = dg_number_of_nodes graph" "targets_ok graph'" "length parts' = length parts"
    "\<forall>u < dg_number_of_nodes graph. dg_adj graph' (p ! u) = map (\<lambda>e. e\<lparr>de_target := p ! de_target e\<rparr>) (dg_adj graph u)"
    "\<forall>k < length parts. \<forall>u < dg_number_of_nodes graph. parts' ! k ! (p ! u) = parts ! k ! u"
    "shape parts' (dg_number_of_nodes graph)" "\<forall>k < length parts. set (parts' ! k) = set (parts ! k)"
    "\<forall>u v. u < v \<longrightarrow> v < dg_number_of_nodes graph \<longrightarrow> highest_border graph' parts' v \<le> highest_border graph' parts' u"
proof -
  let ?n = "dg_number_of_nodes graph"
  note mp = makePermutation_spec [OF t, where parts = parts, folded p_def]
  obtain graph' where g': "dg_renumber p graph = Some (Inr graph')" "dg_inv graph'"
    "dg_number_of_nodes graph' = ?n" "targets_ok graph'"
    "\<forall>u < ?n. dg_adj graph' (p ! u) = map (\<lambda>e. e\<lparr>de_target := p ! de_target e\<rparr>) (dg_adj graph u)"
    "\<forall>u < ?n. \<forall>v < ?n. neighbour graph' (p ! u) (p ! v) \<longleftrightarrow> neighbour graph u v"
    using renumber_graph_spec [OF inv t small mp(1)] by blast
  have len: "\<forall>part \<in> set parts. length part = ?n" using parts by (simp add: shape_def)
  obtain parts' where parts': "renumber_partitions p parts = Some parts'" "length parts' = length parts"
    "\<forall>part \<in> set parts'. length part = ?n" "\<forall>k < length parts. \<forall>u < ?n. parts' ! k ! (p ! u) = parts ! k ! u"
    using renumber_partitions_spec [OF mp(1) len] by blast
  note sh = renumbered_shape [OF mp(1) parts parts'(2,3,4)]
  have hb: "highest_border graph' parts' (p ! v) = highest_border graph parts v" if v: "v < ?n" for v
  proof (rule highest_border_renumbered [OF _ parts'(2)])
    fix k assume "k < length parts"
    then show "on_border graph' (parts' ! k) (p ! v) \<longleftrightarrow> on_border graph (parts ! k) v"
      using on_border_renumbered [OF mp(1) refl g'(3) t g'(6,4) _ v] parts'(4) by blast
  qed
  have "highest_border graph' parts' y \<le> highest_border graph' parts' x" if xy: "x < y" "y < ?n" for x y
  proof -
    obtain u where u: "u < ?n" "p ! u = x" using is_perm_surj [OF mp(1)] xy by (meson less_trans)
    obtain v where v: "v < ?n" "p ! v = y" using is_perm_surj [OF mp(1) xy(2)] by blast
    have "\<not> node_before graph parts v u" using mp(2) u v xy(1) by fastforce
    then show ?thesis using hb [OF u(1)] hb [OF v(1)] u(2) v(2) by (auto simp: node_before_def)
  qed
  then show thesis using that [OF g'(1) parts'(1) g'(2,3,4) parts'(2) g'(5) parts'(4) sh(1)] sh(2) by blast
qed

text \<open>
  Property C21.  The renumbered partition.  Renumbering a well-formed graph and its partitions with
  \<^verbatim>\<open>makePermutation\<close> succeeds; every node keeps its cells and its edges under its new number, the
  partitions stay nested, and the highest levels on whose border the nodes lie descend with their
  numbers, so that the nodes on the border of a level and above are exactly the first ones.
\<close>

theorem renumber_borders_first:
  assumes "dg_inv graph" "\<forall>u < dg_number_of_nodes graph. \<forall>t. neighbour graph u t \<longrightarrow> t < dg_number_of_nodes graph"
    and "dg_number_of_nodes graph < SPECIAL_NODEID" "length (dg_edge_list graph) < SPECIAL_EDGEID"
    and "\<forall>part \<in> set parts. length part = dg_number_of_nodes graph" "nested_parts parts (dg_number_of_nodes graph)"
  shows "let p = makePermutation graph parts in \<exists>graph' parts'.
    dg_renumber p graph = Some (Inr graph') \<and> renumber_partitions p parts = Some parts' \<and> dg_inv graph' \<and>
    (\<forall>u < dg_number_of_nodes graph. dg_adj graph' (p ! u) = map (\<lambda>e. e\<lparr>de_target := p ! de_target e\<rparr>) (dg_adj graph u)) \<and>
    (\<forall>k < length parts. \<forall>u < dg_number_of_nodes graph. parts' ! k ! (p ! u) = parts ! k ! u) \<and>
    nested_parts parts' (dg_number_of_nodes graph) \<and>
    (\<forall>u v. u < v \<longrightarrow> v < dg_number_of_nodes graph \<longrightarrow> highest_border graph' parts' v \<le> highest_border graph' parts' u)"
proof -
  have t: "targets_ok graph" and sh: "shape parts (dg_number_of_nodes graph)" using assms(2,5,6) by (simp_all add: targets_ok_def shape_def)
  show ?thesis
    by (rule renumber_borders_spec [OF assms(1) t assms(3,4) sh]) (auto simp: Let_def shape_def)
qed

lemma renumber_borders_first_witness:
  "\<exists>graph' parts'. dg_renumber [2, 3, 1, 0] example_boundary_graph = Some (Inr graph') \<and>
     renumber_partitions [2, 3, 1, 0] [[1, 1, 1, 0]] = Some parts' \<and> parts' ! 0 ! 0 = 0 \<and> parts' ! 0 ! 1 = 1 \<and>
     highest_border graph' parts' 3 \<le> highest_border graph' parts' 1"
proof -
  have p: "makePermutation example_boundary_graph [[1, 1, 1, 0]] = [2, 3, 1, 0]" by code_simp
  have inv: "dg_inv example_boundary_graph"
    unfolding example_boundary_graph_def Let_def by (rule dg_construct_spec(1)) (simp_all add: SPECIAL_NODEID_def)
  have t: "\<forall>u < dg_number_of_nodes example_boundary_graph. \<forall>t. neighbour example_boundary_graph u t \<longrightarrow> t < dg_number_of_nodes example_boundary_graph"
    using two_wayD(1) [OF example_boundary_graph_two_way] by blast
  have "length (dg_edge_list example_boundary_graph) = 6" by code_simp
  then have small: "dg_number_of_nodes example_boundary_graph < SPECIAL_NODEID" "length (dg_edge_list example_boundary_graph) < SPECIAL_EDGEID"
    by (simp_all add: example_boundary_graph_eval(1) SPECIAL_NODEID_def SPECIAL_EDGEID_def)
  have parts: "\<forall>part \<in> set [[1, 1, 1, 0 :: nat]]. length part = dg_number_of_nodes example_boundary_graph"
    "nested_parts [[1, 1, 1, 0]] (dg_number_of_nodes example_boundary_graph)"
    by (simp_all add: example_boundary_graph_eval(1) nested_parts_def)
  obtain graph' parts' where g: "dg_renumber [2, 3, 1, 0] example_boundary_graph = Some (Inr graph')"
    "renumber_partitions [2, 3, 1, 0] [[1, 1, 1, 0]] = Some parts'"
    "\<forall>k < length [[1, 1, 1, 0 :: nat]]. \<forall>u < 4. parts' ! k ! ([2, 3, 1, 0] ! u) = [[1, 1, 1, 0]] ! k ! u"
    "\<forall>u v. u < v \<longrightarrow> v < 4 \<longrightarrow> highest_border graph' parts' v \<le> highest_border graph' parts' u"
    using renumber_borders_first [OF inv t small parts, unfolded p Let_def example_boundary_graph_eval(1)] by blast
  have "parts' ! 0 ! 0 = 0" "parts' ! 0 ! 1 = 1"
    using g(3) [rule_format, of 0 3] g(3) [rule_format, of 0 2] by (simp_all add: eval_nat_numeral)
  then show ?thesis using g(1,2) g(4) [rule_format, of 1 3] by auto
qed

end
