(* ===== verification/EdgeBasedGraphReader.thy ===== *)
theory EdgeBasedGraphReader
  imports EdgeBasedEdge DynamicGraph
begin

text \<open>
  The edges of the edge-based graph in both directions,
  \<^verbatim>\<open>include/partitioner/edge_based_graph_reader.hpp\<close>: every edge is split into an entry at each
  end, of the entries between two nodes only the lightest of either direction are kept, merged
  when their weights agree, and the forward edges of a graph are collected again by turn id.

  The argument \<open>psort\<close> stands for \<^verbatim>\<open>std::sort\<close>, which is not stable; \<open>mk\<close> is the constructor of the
  template's edge type.  Reading files is not modelled.
\<close>

section \<open>Definitions\<close>

definition split_edge :: "EdgeBasedEdge \<Rightarrow> EdgeBasedEdge list" where
  "split_edge edge =
     (let data = eb_data edge; weight = max (ed_weight data) 1
      in if ed_weight data = INVALID_EDGE_WEIGHT then []
         else [\<lparr>eb_source = eb_source edge, eb_target = eb_target edge, eb_data =
                 \<lparr>ed_turn_id = ed_turn_id data, ed_weight = weight, ed_distance = ed_distance data,
                  ed_duration = ed_duration data, ed_forward = ed_forward data, ed_backward = ed_backward data\<rparr>\<rparr>,
               \<lparr>eb_source = eb_target edge, eb_target = eb_source edge, eb_data =
                 \<lparr>ed_turn_id = ed_turn_id data, ed_weight = weight, ed_distance = ed_distance data,
                  ed_duration = ed_duration data, ed_forward = ed_backward data, ed_backward = ed_forward data\<rparr>\<rparr>])"

definition splitBidirectionalEdges :: "EdgeBasedEdge list \<Rightarrow> EdgeBasedEdge list" where
  "splitBidirectionalEdges edges = concat (map split_edge edges)"

definition prepare_less :: "EdgeBasedEdge comparator" where
  "prepare_less lhs rhs \<longleftrightarrow>
     (eb_source lhs, eb_target lhs, ed_forward (eb_data rhs), ed_weight (eb_data lhs)) <
     (eb_source rhs, eb_target rhs, ed_forward (eb_data lhs), ed_weight (eb_data rhs))"

abbreviation edge_ends :: "EdgeBasedEdge \<Rightarrow> NodeID \<times> NodeID" where
  "edge_ends e \<equiv> (eb_source e, eb_target e)"

text \<open>The output for one block of edges with the same ends.\<close>

definition prepare_block :: "(NodeID \<Rightarrow> NodeID \<Rightarrow> EdgeData \<Rightarrow> 'o) \<Rightarrow> EdgeBasedEdge list \<Rightarrow> 'o list" where
  "prepare_block mk block =
     (let first = hd block; source = eb_source first; target = eb_target first
      in if source = target then []
         else case find (\<lambda>e. ed_backward (eb_data e)) block of
           None \<Rightarrow> [mk source target (eb_data first)]
         | Some first_backward \<Rightarrow>
             if ed_backward (eb_data first) then [mk source target (eb_data first_backward)]
             else if ed_weight (eb_data first) = ed_weight (eb_data first_backward)
             then [mk source target ((eb_data first)\<lparr>ed_backward := True\<rparr>)]
             else [mk source target (eb_data first), mk source target (eb_data first_backward)])"

function prepare_intervals :: "(NodeID \<Rightarrow> NodeID \<Rightarrow> EdgeData \<Rightarrow> 'o) \<Rightarrow> EdgeBasedEdge list \<Rightarrow> 'o list" where
  "prepare_intervals mk [] = []"
| "prepare_intervals mk (e # es) =
     prepare_block mk (e # takeWhile (\<lambda>x. edge_ends x = edge_ends e) es) @
     prepare_intervals mk (dropWhile (\<lambda>x. edge_ends x = edge_ends e) es)"
  by pat_completeness auto
termination
  by (relation "measure (\<lambda>(mk, es). length es)") (auto simp: le_imp_less_Suc length_dropWhile_le)

definition prepareEdgesForUsageInGraph ::
  "(NodeID \<Rightarrow> NodeID \<Rightarrow> EdgeData \<Rightarrow> 'o) \<Rightarrow> (EdgeBasedEdge comparator \<Rightarrow> EdgeBasedEdge list \<Rightarrow> EdgeBasedEdge list) \<Rightarrow>
   EdgeBasedEdge list \<Rightarrow> 'o list" where
  "prepareEdgesForUsageInGraph mk psort edges = prepare_intervals mk (psort prepare_less edges)"

definition EdgeBasedEdge_default :: EdgeBasedEdge where
  "EdgeBasedEdge_default = \<lparr>eb_source = 0, eb_target = 0, eb_data =
     \<lparr>ed_turn_id = 0, ed_weight = 0, ed_distance = 0, ed_duration = 0, ed_forward = False, ed_backward = False\<rparr>\<rparr>"

definition max_turn_id :: "EdgeData DynamicGraph \<Rightarrow> NodeID" where
  "max_turn_id graph =
     fold (\<lambda>node m. fold (\<lambda>edge m. max m (ed_turn_id (dg_data graph edge))) (dg_edge_range graph node) m)
       [0..<dg_number_of_nodes graph] 0"

definition save_forward_edge :: "EdgeData DynamicGraph \<Rightarrow> NodeID \<Rightarrow> EdgeID \<Rightarrow> EdgeBasedEdge list \<Rightarrow> EdgeBasedEdge list" where
  "save_forward_edge graph node edge edges =
     (let data = dg_data graph edge
      in if ed_forward data
         then edges[ed_turn_id data := \<lparr>eb_source = node, eb_target = dg_target graph edge,
                eb_data = data\<lparr>ed_forward := True, ed_backward := False\<rparr>\<rparr>]
         else edges)"

definition graphToEdges :: "EdgeData DynamicGraph \<Rightarrow> EdgeBasedEdge list" where
  "graphToEdges graph =
     fold (\<lambda>node. fold (save_forward_edge graph node) (dg_edge_range graph node)) [0..<dg_number_of_nodes graph]
       (replicate (max_turn_id graph + 1) EdgeBasedEdge_default)"

section \<open>Splitting\<close>

lemma in_split_edge:
  "x \<in> set (split_edge e) \<Longrightarrow> ed_weight (eb_data e) \<noteq> INVALID_EDGE_WEIGHT \<and> 1 \<le> ed_weight (eb_data x) \<and>
     ed_weight (eb_data x) = max (ed_weight (eb_data e)) 1 \<and>
     (edge_ends x = edge_ends e \<and> ed_forward (eb_data x) = ed_forward (eb_data e) \<and> ed_backward (eb_data x) = ed_backward (eb_data e) \<or>
      edge_ends x = (eb_target e, eb_source e) \<and> ed_forward (eb_data x) = ed_backward (eb_data e) \<and>
        ed_backward (eb_data x) = ed_forward (eb_data e))"
  by (auto simp: split_edge_def Let_def split: if_splits)

text \<open>The forward weights between two nodes: of edges that run this way, and of edges that run the
  other way and may be used backward.\<close>

definition arc_weights :: "EdgeBasedEdge list \<Rightarrow> NodeID \<Rightarrow> NodeID \<Rightarrow> EdgeWeight set" where
  "arc_weights edges s t = {w. \<exists>e \<in> set edges. ed_weight (eb_data e) \<noteq> INVALID_EDGE_WEIGHT \<and> w = max (ed_weight (eb_data e)) 1 \<and>
     (edge_ends e = (s, t) \<and> ed_forward (eb_data e) \<or> edge_ends e = (t, s) \<and> ed_backward (eb_data e))}"

definition flag_weights :: "(EdgeData \<Rightarrow> bool) \<Rightarrow> EdgeBasedEdge list \<Rightarrow> NodeID \<Rightarrow> NodeID \<Rightarrow> EdgeWeight set" where
  "flag_weights flag edges s t = {w. \<exists>e \<in> set edges. edge_ends e = (s, t) \<and> flag (eb_data e) \<and> w = ed_weight (eb_data e)}"

lemma split_weights:
  "flag_weights ed_forward (splitBidirectionalEdges edges) s t = arc_weights edges s t"
  "flag_weights ed_backward (splitBidirectionalEdges edges) s t = arc_weights edges t s"
  unfolding flag_weights_def arc_weights_def splitBidirectionalEdges_def split_edge_def Let_def
  by (auto split: if_splits)

section \<open>Blocks\<close>

text \<open>The lightest weight, as a property of a set.\<close>

definition lightest :: "EdgeWeight set \<Rightarrow> EdgeWeight \<Rightarrow> bool" where
  "lightest W w \<longleftrightarrow> w \<in> W \<and> (\<forall>x \<in> W. w \<le> x)"

definition exclusive_flags :: "EdgeBasedEdge list \<Rightarrow> bool" where
  "exclusive_flags edges \<longleftrightarrow> (\<forall>e \<in> set edges. eb_source e \<noteq> eb_target e \<longrightarrow> ed_forward (eb_data e) \<noteq> ed_backward (eb_data e))"

lemma strict_weak_prepare: "strict_weak prepare_less"
proof -
  have "prepare_less l r \<longleftrightarrow> (eb_source l, eb_target l, \<not> ed_forward (eb_data l), ed_weight (eb_data l)) <
      (eb_source r, eb_target r, \<not> ed_forward (eb_data r), ed_weight (eb_data r))" for l r
    by (auto simp: prepare_less_def)
  then have eq: "prepare_less = (\<lambda>l r. (eb_source l, eb_target l, \<not> ed_forward (eb_data l), ed_weight (eb_data l)) <
      (eb_source r, eb_target r, \<not> ed_forward (eb_data r), ed_weight (eb_data r)))" by (intro ext)
  show ?thesis unfolding eq by (rule strict_weak_key)
qed

lemma prepare_less_block:
  "edge_ends a = edge_ends b \<Longrightarrow> prepare_less a b \<longleftrightarrow> ed_forward (eb_data a) \<and> \<not> ed_forward (eb_data b) \<or>
     ed_forward (eb_data a) = ed_forward (eb_data b) \<and> ed_weight (eb_data a) < ed_weight (eb_data b)"
  by (auto simp: prepare_less_def)

text \<open>The entry of a block for a direction, as triples of source, target and data.\<close>

abbreviation triple :: "NodeID \<Rightarrow> NodeID \<Rightarrow> EdgeData \<Rightarrow> NodeID \<times> NodeID \<times> EdgeData" where
  "triple s t d \<equiv> (s, t, d)"

lemma prepare_block_map: "prepare_block mk block = map (\<lambda>(s, t, d). mk s t d) (prepare_block triple block)"
  by (simp add: prepare_block_def Let_def split: option.splits)

lemma prepare_intervals_map: "prepare_intervals mk es = map (\<lambda>(s, t, d). mk s t d) (prepare_intervals triple es)"
proof (induction "length es" arbitrary: es rule: less_induct)
  case less
  show ?case
  proof (cases es)
    case (Cons x xs)
    let ?d = "dropWhile (\<lambda>y. edge_ends y = edge_ends x) xs"
    have "length ?d < length es" using length_dropWhile_le [of _ xs] Cons by (simp add: le_imp_less_Suc)
    then show ?thesis
      using less.hyps [of ?d] prepare_block_map [of mk "x # takeWhile (\<lambda>y. edge_ends y = edge_ends x) xs"] Cons by simp
  qed simp
qed

definition entries_of :: "(EdgeData \<Rightarrow> bool) \<Rightarrow> EdgeWeight set \<Rightarrow> EdgeData list \<Rightarrow> bool" where
  "entries_of flag W ds \<longleftrightarrow> (\<forall>d \<in> set ds. flag d \<longrightarrow> lightest W (ed_weight d)) \<and>
     length (filter flag ds) = (if W = {} then 0 else 1)"

lemma find_backward:
  assumes "find (\<lambda>e. ed_backward (eb_data e)) block = Some b"
  obtains i where "i < length block" "b = block ! i" "ed_backward (eb_data b)" "\<And>j. j < i \<Longrightarrow> \<not> ed_backward (eb_data (block ! j))"
  using assms unfolding find_Some_iff by blast

lemma prepare_block_spec:
  assumes ne: "block \<noteq> []" and ends: "\<forall>e \<in> set block. edge_ends e = (s, t)" and st: "s \<noteq> t"
    and ex: "exclusive_flags block" and srt: "sorted_wrt (\<lambda>a b. \<not> prepare_less b a) block"
  shows "\<exists>ds. prepare_block triple block = map (\<lambda>d. (s, t, d)) ds \<and>
    entries_of ed_forward (flag_weights ed_forward block s t) ds \<and> entries_of ed_backward (flag_weights ed_backward block s t) ds"
proof -
  let ?F = "flag_weights ed_forward block s t" and ?B = "flag_weights ed_backward block s t"
  obtain x xs where blk: "block = x # xs" using ne by (cases block) auto
  have xs: "eb_source x = s" "eb_target x = t" using ends blk by simp_all
  have ord: "ed_forward (eb_data (block ! i)) \<longrightarrow> ed_weight (eb_data (block ! i)) \<le> ed_weight (eb_data (block ! j)) \<or> \<not> ed_forward (eb_data (block ! j))"
    "ed_forward (eb_data (block ! j)) \<longrightarrow> ed_forward (eb_data (block ! i)) \<and> ed_weight (eb_data (block ! i)) \<le> ed_weight (eb_data (block ! j))"
    "\<not> ed_forward (eb_data (block ! i)) \<longrightarrow> \<not> ed_forward (eb_data (block ! j)) \<and> ed_weight (eb_data (block ! i)) \<le> ed_weight (eb_data (block ! j))"
    if "i < j" "j < length block" for i j
  proof -
    have nl: "\<not> prepare_less (block ! j) (block ! i)" using srt that by (simp add: sorted_wrt_iff_nth_less)
    have same: "edge_ends (block ! j) = edge_ends (block ! i)" using ends that by simp
    note c = nl [unfolded prepare_less_block [OF same] de_Morgan_disj de_Morgan_conj not_not not_less]
    show "ed_forward (eb_data (block ! i)) \<longrightarrow> ed_weight (eb_data (block ! i)) \<le> ed_weight (eb_data (block ! j)) \<or> \<not> ed_forward (eb_data (block ! j))"
      "ed_forward (eb_data (block ! j)) \<longrightarrow> ed_forward (eb_data (block ! i)) \<and> ed_weight (eb_data (block ! i)) \<le> ed_weight (eb_data (block ! j))"
      "\<not> ed_forward (eb_data (block ! i)) \<longrightarrow> \<not> ed_forward (eb_data (block ! j)) \<and> ed_weight (eb_data (block ! i)) \<le> ed_weight (eb_data (block ! j))"
      using c by blast+
  qed
  have excl: "ed_forward (eb_data e) \<longleftrightarrow> \<not> ed_backward (eb_data e)" if "e \<in> set block" for e
    using ex ends st that unfolding exclusive_flags_def by (metis prod.inject)
  have F: "lightest ?F (ed_weight (eb_data x))" if "ed_forward (eb_data x)"
  proof -
    have "ed_weight (eb_data x) \<le> ed_weight (eb_data e)" if e: "e \<in> set block" "ed_forward (eb_data e)" for e
    proof -
      obtain j where j: "j < length block" "block ! j = e" using e(1) unfolding in_set_conv_nth by blast
      then show ?thesis using ord(2) [of 0 j] e(2) blk by (cases "j = 0") auto
    qed
    then show ?thesis using that ends blk by (auto simp: lightest_def flag_weights_def)
  qed
  have F0: "?F = {}" if "\<not> ed_forward (eb_data x)"
  proof -
    have "\<not> ed_forward (eb_data e)" if e: "e \<in> set block" for e
    proof -
      obtain j where j: "j < length block" "block ! j = e" using e unfolding in_set_conv_nth by blast
      then show ?thesis using ord(3) [of 0 j] \<open>\<not> ed_forward (eb_data x)\<close> blk by (cases "j = 0") auto
    qed
    then show ?thesis by (auto simp: flag_weights_def)
  qed
  have bw: "prepare_block triple block = (case find (\<lambda>e. ed_backward (eb_data e)) block of
       None \<Rightarrow> [(s, t, eb_data x)]
     | Some b \<Rightarrow> if ed_backward (eb_data x) then [(s, t, eb_data b)]
         else if ed_weight (eb_data x) = ed_weight (eb_data b) then [(s, t, (eb_data x)\<lparr>ed_backward := True\<rparr>)]
         else [(s, t, eb_data x), (s, t, eb_data b)])"
    using st unfolding prepare_block_def blk list.sel Let_def xs by simp
  show ?thesis
  proof (cases "find (\<lambda>e. ed_backward (eb_data e)) block")
    case None
    then have nb: "\<forall>e \<in> set block. \<not> ed_backward (eb_data e)" by (simp add: find_None_iff)
    then have "?B = {}" "ed_forward (eb_data x)" "\<not> ed_backward (eb_data x)" using excl blk by (auto simp: flag_weights_def)
    moreover have "?F \<noteq> {}" using F [OF \<open>ed_forward (eb_data x)\<close>] by (auto simp: lightest_def)
    ultimately show ?thesis
      using F by (intro exI [of _ "[eb_data x]"]) (simp add: bw None entries_of_def)
  next
    case (Some b)
    then obtain i where i: "i < length block" "b = block ! i" "ed_backward (eb_data b)" "\<And>j. j < i \<Longrightarrow> \<not> ed_backward (eb_data (block ! j))"
      by (rule find_backward) blast
    have B: "lightest ?B (ed_weight (eb_data b))"
    proof -
      have "ed_weight (eb_data b) \<le> ed_weight (eb_data e)" if e: "e \<in> set block" "ed_backward (eb_data e)" for e
      proof -
        obtain j where j: "j < length block" "block ! j = e" using e(1) unfolding in_set_conv_nth by blast
        then have "i \<le> j" using i(4) [of j] e(2) by (meson not_le)
        moreover have "\<not> ed_forward (eb_data b)" using i excl by auto
        ultimately show ?thesis using ord(3) [of i j] i(2) j by (cases "i = j") auto
      qed
      then show ?thesis using i ends by (auto simp: lightest_def flag_weights_def)
    qed
    then have Bne: "?B \<noteq> {}" by (auto simp: lightest_def)
    have bf: "\<not> ed_forward (eb_data b)" using i excl by auto
    show ?thesis
    proof (cases "ed_backward (eb_data x)")
      case True
      then have "\<not> ed_forward (eb_data x)" using excl blk by simp
      from F0 [OF this] show ?thesis
        using True i(3) B Bne bf by (intro exI [of _ "[eb_data b]"]) (simp add: bw Some entries_of_def)
    next
      case False
      then have f: "ed_forward (eb_data x)" using excl blk by simp
      have Fne: "?F \<noteq> {}" using F [OF f] by (auto simp: lightest_def)
      show ?thesis
      proof (cases "ed_weight (eb_data x) = ed_weight (eb_data b)")
        case True
        then show ?thesis
          using False F [OF f] f B Bne Fne
          by (intro exI [of _ "[(eb_data x)\<lparr>ed_backward := True\<rparr>]"]) (simp add: bw Some entries_of_def)
      next
        case neq: False
        then show ?thesis
          using False F [OF f] f B Bne Fne bf i(3)
          by (intro exI [of _ "[eb_data x, eb_data b]"]) (simp add: bw Some entries_of_def)
      qed
    qed
  qed
qed

section \<open>All blocks\<close>

lemma edge_ends_sorted:
  assumes "sorted_wrt (\<lambda>a b. \<not> prepare_less b a) es"
  shows "sorted (map edge_ends es)"
  unfolding sorted_wrt_map sorted_map by (rule sorted_wrt_mono_rel [OF _ assms]) (auto simp: prepare_less_def)

lemma prepare_intervals_blocks:
  assumes "sorted (map edge_ends es)"
  shows "prepare_intervals mk es = concat (map (\<lambda>k. prepare_block mk (filter (\<lambda>e. edge_ends e = k) es)) (remdups_adj (map edge_ends es)))"
  using assms
proof (induction "length es" arbitrary: es rule: less_induct)
  case less
  show ?case
  proof (cases es)
    case (Cons x xs)
    let ?t = "takeWhile (\<lambda>y. edge_ends y = edge_ends x) xs" and ?d = "dropWhile (\<lambda>y. edge_ends y = edge_ends x) xs"
    note run = key_run [where key = edge_ends, OF less.prems [unfolded Cons]]
    have short: "length ?d < length es" using length_dropWhile_le [of _ xs] Cons by (simp add: le_imp_less_Suc)
    have adj: "remdups_adj (map edge_ends es) = edge_ends x # remdups_adj (map edge_ends ?d)"
    proof -
      have "remdups_adj (map edge_ends es) = edge_ends x # remdups_adj (dropWhile (\<lambda>k. k = edge_ends x) (map edge_ends xs))"
        unfolding Cons list.map remdups_adj_Cons' by simp
      also have "dropWhile (\<lambda>k. k = edge_ends x) (map edge_ends xs) = map edge_ends ?d" by (simp add: dropWhile_map comp_def)
      finally show ?thesis .
    qed
    have rest: "filter (\<lambda>e. edge_ends e = k) es = filter (\<lambda>e. edge_ends e = k) ?d" if "k \<in> set (remdups_adj (map edge_ends ?d))" for k
    proof -
      have "k \<noteq> edge_ends x" using that run(3) by (metis (no_types, lifting) list.set_map remdups_adj_set)
      then show ?thesis using run(2) unfolding Cons by blast
    qed
    have "prepare_intervals mk es = prepare_block mk (filter (\<lambda>e. edge_ends e = edge_ends x) es) @ prepare_intervals mk ?d"
      unfolding Cons run(1) by simp
    also have "prepare_intervals mk ?d = concat (map (\<lambda>k. prepare_block mk (filter (\<lambda>e. edge_ends e = k) es)) (remdups_adj (map edge_ends ?d)))"
      unfolding less.hyps [OF short run(4)] using rest by (intro arg_cong [where f = concat] map_cong) simp_all
    finally show ?thesis unfolding adj by simp
  qed simp
qed

text \<open>The data of the entries from \<open>s\<close> to \<open>t\<close>, in their order.\<close>

definition data_of :: "(NodeID \<times> NodeID \<times> EdgeData) list \<Rightarrow> NodeID \<Rightarrow> NodeID \<Rightarrow> EdgeData list" where
  "data_of entries s t = map (\<lambda>(a, b, d). d) (filter (\<lambda>(a, b, d). (a, b) = (s, t)) entries)"

lemma in_data_of: "d \<in> set (data_of entries s t) \<longleftrightarrow> (s, t, d) \<in> set entries"
  by (force simp: data_of_def)

lemma concat_single:
  "distinct ks \<Longrightarrow> concat (map (\<lambda>k. if k = k0 then f k else []) ks) = (if k0 \<in> set ks then f k0 else [])"
  by (induction ks) auto

lemma sorted_concat_blocks:
  fixes ks :: "'k :: linorder list"
  assumes "sorted ks" "\<And>k x. k \<in> set ks \<Longrightarrow> x \<in> set (f k) \<Longrightarrow> g x = k"
  shows "sorted (map g (concat (map f ks)))"
  using assms
proof (induction ks)
  case (Cons k ks)
  have "map g (f k) = replicate (length (f k)) k" using Cons.prems(2) by (intro nth_equalityI) simp_all
  moreover have "g x \<in> set ks" if "x \<in> set (concat (map f ks))" for x using that Cons.prems(2) by auto
  ultimately show ?case using Cons by (auto simp: sorted_append)
qed simp

lemma prepare_block_entries:
  assumes "block \<noteq> []" "\<forall>e \<in> set block. edge_ends e = k" "(a, b, d) \<in> set (prepare_block triple block)"
  shows "(a, b) = k \<and> a \<noteq> b"
proof -
  have "edge_ends (hd block) = k" using assms(1,2) by simp
  then show ?thesis using assms(3) by (auto simp: prepare_block_def Let_def split: option.splits if_splits)
qed

lemma prepareEdges_spec:
  assumes ok: "sort_ok psort" and ex: "exclusive_flags edges"
  defines "out \<equiv> prepareEdgesForUsageInGraph triple psort edges"
  shows "sorted (map (\<lambda>(a, b, d). (a, b)) out)" "(a, b, d) \<in> set out \<Longrightarrow> a \<noteq> b"
    and "(a, b, d) \<in> set out \<Longrightarrow> (a, b) \<in> edge_ends ` set edges"
    and "s \<noteq> t \<Longrightarrow> entries_of ed_forward (flag_weights ed_forward edges s t) (data_of out s t) \<and>
      entries_of ed_backward (flag_weights ed_backward edges s t) (data_of out s t)"
proof -
  define es where "es = psort prepare_less edges"
  have es: "mset es = mset edges" "sorted_wrt (\<lambda>a b. \<not> prepare_less b a) es"
    using ok strict_weak_prepare unfolding sort_ok_def es_def by blast+
  have set: "set es = set edges" using es(1) by (metis set_mset_mset)
  note srt = edge_ends_sorted [OF es(2)]
  define ks where "ks = remdups_adj (map edge_ends es)"
  define blk where "blk k = filter (\<lambda>e. edge_ends e = k) es" for k
  have ks: "sorted ks" "distinct ks" "set ks = edge_ends ` set edges"
    using srt sorted_distinct_remdups_adj [OF srt] by (simp_all add: ks_def set sorted_remdups_adj)
  have out: "out = concat (map (\<lambda>k. prepare_block triple (blk k)) ks)"
    unfolding out_def prepareEdgesForUsageInGraph_def es_def [symmetric] blk_def ks_def
    by (rule prepare_intervals_blocks [OF srt])
  have ne: "blk k \<noteq> []" if "k \<in> set ks" for k
    using that ks(3) set by (auto simp: blk_def filter_empty_conv)
  have ends: "\<forall>e \<in> set (blk k). edge_ends e = k" for k by (simp add: blk_def)
  have entry: "(a, b) = k \<and> a \<noteq> b" if "k \<in> set ks" "(a, b, d) \<in> set (prepare_block triple (blk k))" for k a b d
    using prepare_block_entries [OF ne [OF that(1)] ends that(2)] .
  show "sorted (map (\<lambda>(a, b, d). (a, b)) out)"
    unfolding out by (rule sorted_concat_blocks [OF ks(1)]) (use entry in fastforce)
  have in_out: "a \<noteq> b \<and> (a, b) \<in> set ks" if o: "(a, b, d) \<in> set out" for a b d
  proof -
    obtain k where k: "k \<in> set ks" "(a, b, d) \<in> set (prepare_block triple (blk k))" using o unfolding out by auto
    then show ?thesis using entry [OF k] by blast
  qed
  show "(a, b, d) \<in> set out \<Longrightarrow> a \<noteq> b" using in_out by blast
  show "(a, b, d) \<in> set out \<Longrightarrow> (a, b) \<in> edge_ends ` set edges" using in_out unfolding ks(3) by blast
  assume st: "s \<noteq> t"
  have "filter (\<lambda>(a, b, d). (a, b) = (s, t)) (prepare_block triple (blk k)) =
      (if k = (s, t) then prepare_block triple (blk k) else [])" if k: "k \<in> set ks" for k
  proof -
    have "(\<lambda>(a, b, d). (a, b) = (s, t)) x \<longleftrightarrow> k = (s, t)" if "x \<in> set (prepare_block triple (blk k))" for x
      using entry [OF k, of "fst x" "fst (snd x)" "snd (snd x)"] that by (cases x) auto
    then have "filter (\<lambda>(a, b, d). (a, b) = (s, t)) (prepare_block triple (blk k)) = filter (\<lambda>x. k = (s, t)) (prepare_block triple (blk k))"
      by (rule filter_cong [OF refl])
    then show ?thesis by simp
  qed
  then have "data_of out s t = map (\<lambda>(a, b, d). d) (concat (map (\<lambda>k. if k = (s, t) then prepare_block triple (blk k) else []) ks))"
    unfolding data_of_def out filter_concat map_map comp_def
    by (intro arg_cong [where f = "map (\<lambda>(a, b, d). d)"] arg_cong [where f = concat] map_cong) simp_all
  then have data: "data_of out s t = map (\<lambda>(a, b, d). d) (if (s, t) \<in> set ks then prepare_block triple (blk (s, t)) else [])"
    by (simp only: concat_single [OF ks(2)])
  have W: "flag_weights flag edges s t = flag_weights flag (blk (s, t)) s t" for flag
    by (auto simp: flag_weights_def blk_def set)
  show "entries_of ed_forward (flag_weights ed_forward edges s t) (data_of out s t) \<and>
      entries_of ed_backward (flag_weights ed_backward edges s t) (data_of out s t)"
  proof (cases "(s, t) \<in> set ks")
    case True
    have "exclusive_flags (blk (s, t))" using ex by (simp add: exclusive_flags_def blk_def set)
    moreover have "sorted_wrt (\<lambda>a b. \<not> prepare_less b a) (blk (s, t))" unfolding blk_def by (rule sorted_wrt_filter [OF es(2)])
    ultimately obtain ds where ds: "prepare_block triple (blk (s, t)) = map (\<lambda>d. (s, t, d)) ds"
      "entries_of ed_forward (flag_weights ed_forward (blk (s, t)) s t) ds"
      "entries_of ed_backward (flag_weights ed_backward (blk (s, t)) s t) ds"
      using prepare_block_spec [OF ne [OF True] ends st] by blast
    have "data_of out s t = ds" using data True ds(1) by (simp add: comp_def)
    then show ?thesis using ds(2,3) unfolding W by simp
  next
    case False
    then have "flag_weights flag edges s t = {}" for flag using ks(3) by (auto simp: flag_weights_def)
    then show ?thesis using data False by (simp add: entries_of_def)
  qed
qed

lemma split_exclusive: "exclusive_flags edges \<Longrightarrow> exclusive_flags (splitBidirectionalEdges edges)"
  by (auto simp: exclusive_flags_def splitBidirectionalEdges_def dest!: in_split_edge)

text \<open>Where the data of an entry comes from.\<close>

lemma prepare_block_data:
  assumes "block \<noteq> []" "\<forall>e \<in> set block. edge_ends e = k" "exclusive_flags block" "(a, b, d) \<in> set (prepare_block triple block)"
  shows "(ed_forward d \<longrightarrow> (\<exists>e \<in> set block. ed_forward (eb_data e) \<and> ed_turn_id (eb_data e) = ed_turn_id d)) \<and>
    (ed_forward d \<or> ed_backward d)"
proof -
  have k: "edge_ends (hd block) = k" "hd block \<in> set block" using assms(1,2) by simp_all
  have ab: "(a, b) = k" "a \<noteq> b" using prepare_block_entries [OF assms(1,2,4)] by blast+
  then have fwd: "ed_forward (eb_data (hd block)) \<longleftrightarrow> \<not> ed_backward (eb_data (hd block))"
    using assms(3) k unfolding exclusive_flags_def by auto
  have ne: "eb_source (hd block) \<noteq> eb_target (hd block)" using ab k by auto
  note blk = assms(4) [unfolded prepare_block_def Let_def if_not_P [OF ne]]
  show ?thesis
  proof (cases "find (\<lambda>e. ed_backward (eb_data e)) block")
    case None
    then have "\<not> ed_backward (eb_data (hd block))" using k(2) by (simp add: find_None_iff)
    then have "d = eb_data (hd block)" "ed_forward (eb_data (hd block))" using blk None fwd by simp_all
    then show ?thesis using k(2) by blast
  next
    case (Some x)
    then have x: "x \<in> set block" "ed_backward (eb_data x)" by (auto simp: find_Some_iff)
    then show ?thesis using blk Some k(2) fwd by (auto split: if_splits)
  qed
qed

lemma prepareEdges_data:
  assumes ok: "sort_ok psort" and ex: "exclusive_flags edges"
    and m: "(a, b, d) \<in> set (prepareEdgesForUsageInGraph triple psort edges)"
  shows "ed_forward d \<Longrightarrow> \<exists>e \<in> set edges. edge_ends e = (a, b) \<and> ed_forward (eb_data e) \<and> ed_turn_id (eb_data e) = ed_turn_id d"
    and "ed_forward d \<or> ed_backward d"
proof -
  define es where "es = psort prepare_less edges"
  have es: "mset es = mset edges" "sorted_wrt (\<lambda>a b. \<not> prepare_less b a) es"
    using ok strict_weak_prepare unfolding sort_ok_def es_def by blast+
  have set: "set es = set edges" using es(1) by (metis set_mset_mset)
  obtain k where k: "k \<in> set (map edge_ends es)" "(a, b, d) \<in> set (prepare_block triple (filter (\<lambda>e. edge_ends e = k) es))"
    using m unfolding prepareEdgesForUsageInGraph_def es_def [symmetric] prepare_intervals_blocks [OF edge_ends_sorted [OF es(2)]]
      set_concat set_map remdups_adj_set by blast
  let ?blk = "filter (\<lambda>e. edge_ends e = k) es"
  have b: "?blk \<noteq> []" "\<forall>e \<in> set ?blk. edge_ends e = k" "exclusive_flags ?blk"
    using k(1) ex by (auto simp: filter_empty_conv exclusive_flags_def set)
  have "(a, b) = k" using prepare_block_entries [OF b(1,2) k(2)] by blast
  then show "ed_forward d \<Longrightarrow> \<exists>e \<in> set edges. edge_ends e = (a, b) \<and> ed_forward (eb_data e) \<and> ed_turn_id (eb_data e) = ed_turn_id d"
    "ed_forward d \<or> ed_backward d"
    using prepare_block_data [OF b k(2)] set by auto
qed

text \<open>Everything about the entries made of a list of edges.\<close>

definition tidied :: "(EdgeBasedEdge comparator \<Rightarrow> EdgeBasedEdge list \<Rightarrow> EdgeBasedEdge list) \<Rightarrow> EdgeBasedEdge list \<Rightarrow>
    (NodeID \<times> NodeID \<times> EdgeData) list" where
  "tidied psort edges = prepareEdgesForUsageInGraph triple psort (splitBidirectionalEdges edges)"

lemma prepareEdges_tidied:
  "prepareEdgesForUsageInGraph mk psort (splitBidirectionalEdges edges) = map (\<lambda>(s, t, d). mk s t d) (tidied psort edges)"
  unfolding tidied_def prepareEdgesForUsageInGraph_def by (rule prepare_intervals_map)

lemma in_arc_weights: "w \<in> arc_weights edges s t \<Longrightarrow> 1 \<le> w \<and> w \<noteq> INVALID_EDGE_WEIGHT"
proof -
  have "1 \<le> max x 1 \<and> max x 1 \<noteq> INVALID_EDGE_WEIGHT" if "x \<noteq> INVALID_EDGE_WEIGHT" for x
  proof (cases "x \<le> 1")
    case True
    then have "max x 1 = 1" by (rule max_absorb2)
    then show ?thesis by (simp add: INVALID_EDGE_WEIGHT_def)
  next
    case False
    then have "max x 1 = x" by (intro max_absorb1) linarith
    then show ?thesis using that False by linarith
  qed
  moreover assume "w \<in> arc_weights edges s t"
  then obtain e :: EdgeBasedEdge where "ed_weight (eb_data e) \<noteq> INVALID_EDGE_WEIGHT" "w = max (ed_weight (eb_data e)) 1"
    unfolding arc_weights_def mem_Collect_eq by blast
  ultimately show ?thesis by simp
qed

lemma tidied_spec:
  assumes ok: "sort_ok psort" and ex: "exclusive_flags edges"
  shows "sorted (map (\<lambda>(a, b, d). (a, b)) (tidied psort edges))"
    and "(a, b, d) \<in> set (tidied psort edges) \<Longrightarrow> a \<noteq> b \<and> (ed_forward d \<or> ed_backward d)"
    and "(a, b, d) \<in> set (tidied psort edges) \<Longrightarrow> (a, b) \<in> edge_ends ` set edges \<or> (b, a) \<in> edge_ends ` set edges"
    and "(a, b, d) \<in> set (tidied psort edges) \<Longrightarrow> ed_forward d \<Longrightarrow> lightest (arc_weights edges a b) (ed_weight d)"
    and "(a, b, d) \<in> set (tidied psort edges) \<Longrightarrow> ed_backward d \<Longrightarrow> lightest (arc_weights edges b a) (ed_weight d)"
    and "a \<noteq> b \<Longrightarrow> arc_weights edges a b \<noteq> {} \<Longrightarrow>
      (\<exists>d. (a, b, d) \<in> set (tidied psort edges) \<and> ed_forward d) \<and> (\<exists>d. (b, a, d) \<in> set (tidied psort edges) \<and> ed_backward d)"
    and "length (filter (\<lambda>(x, y, d). (x, y) = (a, b) \<and> ed_forward d) (tidied psort edges)) \<le> 1"
    and "(a, b, d) \<in> set (tidied psort edges) \<Longrightarrow> 1 \<le> ed_weight d \<and> ed_weight d \<noteq> INVALID_EDGE_WEIGHT"
    and "(a, b, d) \<in> set (tidied psort edges) \<Longrightarrow> ed_forward d \<Longrightarrow> \<exists>e \<in> set edges. ed_turn_id (eb_data e) = ed_turn_id d \<and>
      (edge_ends e = (a, b) \<and> ed_forward (eb_data e) \<or> edge_ends e = (b, a) \<and> ed_backward (eb_data e))"
proof -
  note p = prepareEdges_spec [OF ok split_exclusive [OF ex], folded tidied_def]
    and d = prepareEdges_data [OF ok split_exclusive [OF ex], folded tidied_def]
  have split: "e' \<in> set (splitBidirectionalEdges edges) \<Longrightarrow> \<exists>e \<in> set edges. e' \<in> set (split_edge e)" for e'
    by (auto simp: splitBidirectionalEdges_def)
  show "sorted (map (\<lambda>(a, b, d). (a, b)) (tidied psort edges))" by (rule p(1))
  show ne: "(a, b, d) \<in> set (tidied psort edges) \<Longrightarrow> a \<noteq> b \<and> (ed_forward d \<or> ed_backward d)" for a b d
    using p(2) d(2) by blast
  show "(a, b) \<in> edge_ends ` set edges \<or> (b, a) \<in> edge_ends ` set edges" if m: "(a, b, d) \<in> set (tidied psort edges)"
  proof -
    obtain e' where "e' \<in> set (splitBidirectionalEdges edges)" "edge_ends e' = (a, b)" using p(3) [OF m] by auto
    moreover from this obtain e where e: "e \<in> set edges" "e' \<in> set (split_edge e)" using split by blast
    ultimately have "edge_ends e = (a, b) \<or> edge_ends e = (b, a)" using in_split_edge [OF e(2)] by auto
    then show ?thesis using imageI [OF e(1), of edge_ends] by auto
  qed
  have fwd: "entries_of ed_forward (arc_weights edges s t) (data_of (tidied psort edges) s t)"
    and bwd: "entries_of ed_backward (arc_weights edges t s) (data_of (tidied psort edges) s t)" if "s \<noteq> t" for s t
    using p(4) [OF that] unfolding split_weights by blast+
  show f: "(a, b, d) \<in> set (tidied psort edges) \<Longrightarrow> ed_forward d \<Longrightarrow> lightest (arc_weights edges a b) (ed_weight d)" for a b d
    using fwd [of a b] ne [of a b d] in_data_of [of d "tidied psort edges" a b] unfolding entries_of_def by blast
  show b: "(a, b, d) \<in> set (tidied psort edges) \<Longrightarrow> ed_backward d \<Longrightarrow> lightest (arc_weights edges b a) (ed_weight d)" for a b d
    using bwd [of a b] ne [of a b d] in_data_of [of d "tidied psort edges" a b] unfolding entries_of_def by blast
  have ex1: "\<exists>d. (s, t, d) \<in> set (tidied psort edges) \<and> flag d"
    if "entries_of flag W (data_of (tidied psort edges) s t)" "W \<noteq> {}" for flag W s t
  proof -
    have "filter flag (data_of (tidied psort edges) s t) \<noteq> []" using that by (auto simp: entries_of_def)
    then show ?thesis by (auto simp: filter_empty_conv in_data_of)
  qed
  show "a \<noteq> b \<Longrightarrow> arc_weights edges a b \<noteq> {} \<Longrightarrow>
      (\<exists>d. (a, b, d) \<in> set (tidied psort edges) \<and> ed_forward d) \<and> (\<exists>d. (b, a, d) \<in> set (tidied psort edges) \<and> ed_backward d)"
    using ex1 [OF fwd [of a b]] ex1 [OF bwd [of b a]] by simp
  show "length (filter (\<lambda>(x, y, d). (x, y) = (a, b) \<and> ed_forward d) (tidied psort edges)) \<le> 1"
  proof (cases "a = b")
    case True
    then have "filter (\<lambda>(x, y, d). (x, y) = (a, b) \<and> ed_forward d) (tidied psort edges) = []"
      using ne by (auto simp: filter_empty_conv)
    then show ?thesis by simp
  next
    case False
    have "length (filter (\<lambda>(x, y, d). (x, y) = (a, b) \<and> ed_forward d) xs) = length (filter ed_forward (data_of xs a b))" for xs
      by (induction xs) (auto simp: data_of_def)
    then show ?thesis using fwd [OF False] unfolding entries_of_def by simp
  qed
  show "(a, b, d) \<in> set (tidied psort edges) \<Longrightarrow> 1 \<le> ed_weight d \<and> ed_weight d \<noteq> INVALID_EDGE_WEIGHT"
    using ne [of a b d] f [of a b d] b [of a b d] in_arc_weights unfolding lightest_def by blast
  show "\<exists>e \<in> set edges. ed_turn_id (eb_data e) = ed_turn_id d \<and>
      (edge_ends e = (a, b) \<and> ed_forward (eb_data e) \<or> edge_ends e = (b, a) \<and> ed_backward (eb_data e))"
    if m: "(a, b, d) \<in> set (tidied psort edges)" "ed_forward d"
  proof -
    obtain e' where e': "e' \<in> set (splitBidirectionalEdges edges)" "edge_ends e' = (a, b)" "ed_forward (eb_data e')"
      "ed_turn_id (eb_data e') = ed_turn_id d" using d(1) [OF m] by blast
    moreover obtain e where e: "e \<in> set edges" "e' \<in> set (split_edge e)" using split [OF e'(1)] by blast
    moreover have "ed_turn_id (eb_data e') = ed_turn_id (eb_data e)"
      using e(2) by (auto simp: split_edge_def Let_def split: if_splits)
    ultimately show ?thesis using in_split_edge [OF e(2)] by (intro bexI [OF _ e(1)]) auto
  qed
qed

text \<open>
  Property C23.  The tidied edges.  From edges with one direction each, splitting and preparing
  makes entries in the order of their ends, without loops, such that for different nodes \<open>s\<close> and \<open>t\<close>
  there is exactly one forward entry from \<open>s\<close> to \<open>t\<close>, of the least weight, if some edge of a valid
  weight leads from \<open>s\<close> to \<open>t\<close>, and none otherwise; and likewise one backward entry for the edges
  from \<open>t\<close> to \<open>s\<close>.  Weights below one count as one.
\<close>

theorem prepared_edges_correct:
  assumes "sort_ok psort" "exclusive_flags edges"
  shows "let out = prepareEdgesForUsageInGraph (\<lambda>s t d. (s, t, d)) psort (splitBidirectionalEdges edges)
    in sorted (map (\<lambda>(a, b, d). (a, b)) out) \<and> (\<forall>(a, b, d) \<in> set out. a \<noteq> b) \<and>
       (\<forall>s t. s \<noteq> t \<longrightarrow> entries_of ed_forward (arc_weights edges s t) (data_of out s t) \<and>
          entries_of ed_backward (arc_weights edges t s) (data_of out s t))"
  using prepareEdges_spec [OF assms(1) split_exclusive [OF assms(2)]] unfolding Let_def split_weights by blast

definition example_reader_edges :: "EdgeBasedEdge list" where
  "example_reader_edges =
     [\<lparr>eb_source = 0, eb_target = 1, eb_data = \<lparr>ed_turn_id = 0, ed_weight = 5, ed_distance = 1, ed_duration = 2, ed_forward = True, ed_backward = False\<rparr>\<rparr>,
      \<lparr>eb_source = 1, eb_target = 0, eb_data = \<lparr>ed_turn_id = 1, ed_weight = 5, ed_distance = 1, ed_duration = 2, ed_forward = True, ed_backward = False\<rparr>\<rparr>,
      \<lparr>eb_source = 0, eb_target = 1, eb_data = \<lparr>ed_turn_id = 2, ed_weight = 9, ed_distance = 1, ed_duration = 2, ed_forward = True, ed_backward = False\<rparr>\<rparr>]"

lemma prepared_edges_correct_witness:
  "length (filter ed_forward (data_of (prepareEdgesForUsageInGraph (\<lambda>s t d. (s, t, d)) insertion_sort
     (splitBidirectionalEdges example_reader_edges)) 0 1)) = 1"
proof -
  have "exclusive_flags example_reader_edges" by (simp add: exclusive_flags_def example_reader_edges_def)
  from prepared_edges_correct [OF insertion_sort_ok this]
  have "entries_of ed_forward (arc_weights example_reader_edges 0 1) (data_of (prepareEdgesForUsageInGraph (\<lambda>s t d. (s, t, d)) insertion_sort
     (splitBidirectionalEdges example_reader_edges)) 0 1)" by (simp add: Let_def)
  moreover have "5 \<in> arc_weights example_reader_edges 0 1"
    by (auto simp: arc_weights_def example_reader_edges_def INVALID_EDGE_WEIGHT_def)
  ultimately show ?thesis by (auto simp: entries_of_def)
qed

section \<open>Collecting the edges again\<close>

lemma fold_pairs: "fold (\<lambda>v. fold (f v) (r v)) vs s = fold (\<lambda>(v, e). f v e) (concat (map (\<lambda>v. map (Pair v) (r v)) vs)) s"
  by (induction vs arbitrary: s) (simp_all add: fold_map comp_def)

abbreviation graph_edges :: "EdgeData DynamicGraph \<Rightarrow> (NodeID \<times> EdgeID) list" where
  "graph_edges graph \<equiv> concat (map (\<lambda>v. map (Pair v) (dg_edge_range graph v)) [0..<dg_number_of_nodes graph])"

lemma fold_max_ge:
  fixes f :: "'a \<Rightarrow> nat"
  shows "m \<le> fold (\<lambda>x m. max m (f x)) xs m \<and> (\<forall>x \<in> set xs. f x \<le> fold (\<lambda>x m. max m (f x)) xs m)"
proof (induction xs arbitrary: m)
  case (Cons x xs)
  have "max m (f x) \<le> fold (\<lambda>x m. max m (f x)) xs (max m (f x))" using Cons.IH by blast
  then show ?case using Cons.IH [of "max m (f x)"] by simp
qed simp

lemma turn_id_le: "(v, e) \<in> set (graph_edges graph) \<Longrightarrow> ed_turn_id (dg_data graph e) \<le> max_turn_id graph"
proof -
  have "max_turn_id graph = fold (\<lambda>x m. max m (ed_turn_id (dg_data graph (snd x)))) (graph_edges graph) 0"
    unfolding max_turn_id_def fold_pairs by (simp add: case_prod_beta')
  then show "(v, e) \<in> set (graph_edges graph) \<Longrightarrow> ed_turn_id (dg_data graph e) \<le> max_turn_id graph"
    using fold_max_ge [of 0 "\<lambda>x. ed_turn_id (dg_data graph (snd x))" "graph_edges graph"] by fastforce
qed

definition saved_edge :: "EdgeData DynamicGraph \<Rightarrow> NodeID \<Rightarrow> EdgeID \<Rightarrow> EdgeBasedEdge" where
  "saved_edge graph v e = \<lparr>eb_source = v, eb_target = dg_target graph e,
     eb_data = (dg_data graph e)\<lparr>ed_forward := True, ed_backward := False\<rparr>\<rparr>"

definition distinct_turn_ids :: "EdgeData DynamicGraph \<Rightarrow> (NodeID \<times> EdgeID) list \<Rightarrow> bool" where
  "distinct_turn_ids graph xs \<longleftrightarrow> (\<forall>v e v' e'. (v, e) \<in> set xs \<longrightarrow> (v', e') \<in> set xs \<longrightarrow> ed_forward (dg_data graph e) \<longrightarrow>
     ed_forward (dg_data graph e') \<longrightarrow> ed_turn_id (dg_data graph e) = ed_turn_id (dg_data graph e') \<longrightarrow> v = v' \<and> e = e')"

definition saved_in :: "EdgeData DynamicGraph \<Rightarrow> nat \<Rightarrow> (NodeID \<times> EdgeID) list \<Rightarrow> EdgeBasedEdge list \<Rightarrow> bool" where
  "saved_in graph n xs r \<longleftrightarrow> length r = n \<and>
     (\<forall>v e. (v, e) \<in> set xs \<longrightarrow> ed_forward (dg_data graph e) \<longrightarrow> r ! ed_turn_id (dg_data graph e) = saved_edge graph v e) \<and>
     (\<forall>x \<in> set r. x = EdgeBasedEdge_default \<or> (\<exists>v e. (v, e) \<in> set xs \<and> ed_forward (dg_data graph e) \<and> x = saved_edge graph v e))"

lemma save_edges_spec:
  assumes "distinct_turn_ids graph xs" "\<forall>v e. (v, e) \<in> set xs \<longrightarrow> ed_turn_id (dg_data graph e) < n"
  shows "saved_in graph n xs (fold (\<lambda>(v, e). save_forward_edge graph v e) xs (replicate n EdgeBasedEdge_default))"
  using assms
proof (induction xs rule: rev_induct)
  case Nil
  then show ?case by (simp add: saved_in_def)
next
  case (snoc x xs)
  obtain v e where x: "x = (v, e)" by (cases x)
  define r where "r = fold (\<lambda>(v, e). save_forward_edge graph v e) xs (replicate n EdgeBasedEdge_default)"
  have "distinct_turn_ids graph xs" using snoc.prems(1) unfolding distinct_turn_ids_def by simp
  then have ih: "saved_in graph n xs r" using snoc.IH snoc.prems(2) unfolding r_def by simp
  have step: "fold (\<lambda>(v, e). save_forward_edge graph v e) (xs @ [x]) (replicate n EdgeBasedEdge_default) =
      (if ed_forward (dg_data graph e) then r[ed_turn_id (dg_data graph e) := saved_edge graph v e] else r)"
    by (simp add: r_def x save_forward_edge_def saved_edge_def Let_def)
  have lt: "ed_turn_id (dg_data graph e) < n" using snoc.prems(2) x by simp
  show ?case
  proof (cases "ed_forward (dg_data graph e)")
    case False
    have "y = EdgeBasedEdge_default \<or> (\<exists>v e. (v, e) \<in> set (xs @ [x]) \<and> ed_forward (dg_data graph e) \<and> y = saved_edge graph v e)"
      if "y \<in> set r" for y
      using ih that unfolding saved_in_def by (metis Un_iff set_append)
    moreover have "r ! ed_turn_id (dg_data graph e') = saved_edge graph v' e'"
      if "(v', e') \<in> set (xs @ [x])" "ed_forward (dg_data graph e')" for v' e'
      using ih that False unfolding saved_in_def x by auto
    ultimately show ?thesis unfolding step saved_in_def using ih False by (simp add: saved_in_def)
  next
    case True
    let ?r' = "r[ed_turn_id (dg_data graph e) := saved_edge graph v e]"
    have "?r' ! ed_turn_id (dg_data graph e') = saved_edge graph v' e'"
      if m: "(v', e') \<in> set (xs @ [x])" "ed_forward (dg_data graph e')" for v' e'
    proof (cases "(v', e') = (v, e)")
      case True
      then show ?thesis using lt ih by (simp add: saved_in_def)
    next
      case False
      have "(v, e) \<in> set (xs @ [x])" by (simp add: x)
      then have "ed_turn_id (dg_data graph e') \<noteq> ed_turn_id (dg_data graph e)"
        using snoc.prems(1) m True False unfolding distinct_turn_ids_def by blast
      then have "?r' ! ed_turn_id (dg_data graph e') = r ! ed_turn_id (dg_data graph e')" by simp
      moreover have "(v', e') \<in> set xs" using m(1) False by (auto simp: x)
      ultimately show ?thesis using ih m(2) unfolding saved_in_def by simp
    qed
    moreover have "y = EdgeBasedEdge_default \<or> (\<exists>v e. (v, e) \<in> set (xs @ [x]) \<and> ed_forward (dg_data graph e) \<and> y = saved_edge graph v e)"
      if "y \<in> set ?r'" for y
    proof -
      have "y = saved_edge graph v e \<or> y \<in> set r" using set_update_subset_insert that by fast
      then show ?thesis
      proof
        assume "y = saved_edge graph v e"
        then show ?thesis using True x by (intro disjI2 exI [of _ v] exI [of _ e]) simp
      next
        assume "y \<in> set r"
        then show ?thesis using ih unfolding saved_in_def by (metis Un_iff set_append)
      qed
    qed
    moreover have "length ?r' = n" using ih by (simp add: saved_in_def)
    ultimately show ?thesis unfolding step saved_in_def using True by simp
  qed
qed

text \<open>The weights of the forward edges between two nodes of a graph.\<close>

definition forward_weights :: "EdgeData DynamicGraph \<Rightarrow> NodeID \<Rightarrow> NodeID \<Rightarrow> EdgeWeight set" where
  "forward_weights graph s t =
    {ed_weight (dg_data graph e) | e. s < dg_number_of_nodes graph \<and> e \<in> set (dg_edge_range graph s) \<and>
       dg_target graph e = t \<and> ed_forward (dg_data graph e)}"

lemma graphToEdges_weights:
  assumes "distinct_turn_ids graph (graph_edges graph)"
    and "\<forall>v e. (v, e) \<in> set (graph_edges graph) \<longrightarrow> 1 \<le> ed_weight (dg_data graph e) \<and> ed_weight (dg_data graph e) \<noteq> INVALID_EDGE_WEIGHT"
  shows "arc_weights (graphToEdges graph) s t = forward_weights graph s t" "exclusive_flags (graphToEdges graph)"
proof -
  let ?r = "graphToEdges graph" and ?es = "graph_edges graph"
  have r: "?r = fold (\<lambda>(v, e). save_forward_edge graph v e) ?es (replicate (max_turn_id graph + 1) EdgeBasedEdge_default)"
    unfolding graphToEdges_def fold_pairs ..
  have lt: "\<forall>v e. (v, e) \<in> set ?es \<longrightarrow> ed_turn_id (dg_data graph e) < max_turn_id graph + 1"
    using turn_id_le by (metis Suc_eq_plus1 le_imp_less_Suc)
  note sp = save_edges_spec [OF assms(1) lt, folded r, unfolded saved_in_def]
  have mem: "(s, e) \<in> set ?es \<longleftrightarrow> s < dg_number_of_nodes graph \<and> e \<in> set (dg_edge_range graph s)" for s e by auto
  let ?arc = "\<lambda>w x. ed_weight (eb_data x) \<noteq> INVALID_EDGE_WEIGHT \<and> w = max (ed_weight (eb_data x)) 1 \<and>
      (edge_ends x = (s, t) \<and> ed_forward (eb_data x) \<or> edge_ends x = (t, s) \<and> ed_backward (eb_data x))"
  have "(\<exists>x \<in> set ?r. ?arc w x) \<longleftrightarrow>
    (\<exists>e. (s, e) \<in> set ?es \<and> dg_target graph e = t \<and> ed_forward (dg_data graph e) \<and> w = ed_weight (dg_data graph e))" for w
  proof
    assume "\<exists>x \<in> set ?r. ?arc w x"
    then obtain x where x: "x \<in> set ?r" "?arc w x" by blast
    then have "x \<noteq> EdgeBasedEdge_default" by (auto simp: EdgeBasedEdge_default_def)
    then obtain v e where ve: "(v, e) \<in> set ?es" "ed_forward (dg_data graph e)" "x = saved_edge graph v e"
      using sp x(1) by blast
    then have "v = s" "dg_target graph e = t" using x(2) by (auto simp: saved_edge_def)
    moreover have "1 \<le> ed_weight (dg_data graph e)" using assms(2) ve(1) by blast
    then have "w = ed_weight (dg_data graph e)" using x(2) ve(3) by (simp add: saved_edge_def max_def)
    ultimately show "\<exists>e. (s, e) \<in> set ?es \<and> dg_target graph e = t \<and> ed_forward (dg_data graph e) \<and> w = ed_weight (dg_data graph e)"
      using ve by blast
  next
    assume "\<exists>e. (s, e) \<in> set ?es \<and> dg_target graph e = t \<and> ed_forward (dg_data graph e) \<and> w = ed_weight (dg_data graph e)"
    then obtain e where e: "(s, e) \<in> set ?es" "dg_target graph e = t" "ed_forward (dg_data graph e)" "w = ed_weight (dg_data graph e)" by blast
    have "?r ! ed_turn_id (dg_data graph e) = saved_edge graph s e" "ed_turn_id (dg_data graph e) < length ?r"
      using sp lt e(1,3) by auto
    then have "saved_edge graph s e \<in> set ?r" by (metis nth_mem)
    moreover have "1 \<le> w \<and> w \<noteq> INVALID_EDGE_WEIGHT" unfolding e(4) using assms(2) e(1) by blast
    ultimately show "\<exists>x \<in> set ?r. ?arc w x" using e by (intro bexI [of _ "saved_edge graph s e"]) (simp_all add: saved_edge_def)
  qed
  then show "arc_weights ?r s t = forward_weights graph s t" unfolding arc_weights_def forward_weights_def using mem by blast
  have "eb_source x = eb_target x \<or> ed_forward (eb_data x) \<noteq> ed_backward (eb_data x)" if "x \<in> set ?r" for x
  proof -
    have "x = EdgeBasedEdge_default \<or> (\<exists>v e. x = saved_edge graph v e)" using sp that by blast
    then show ?thesis by (auto simp: EdgeBasedEdge_default_def saved_edge_def)
  qed
  then show "exclusive_flags ?r" unfolding exclusive_flags_def by blast
qed


definition example_reader_graph :: "EdgeData DynamicGraph" where
  "example_reader_graph = dg_construct \<lparr>de_target = 0, de_data = eb_data EdgeBasedEdge_default\<rparr> 2
     (prepareEdgesForUsageInGraph (\<lambda>s t d. \<lparr>ie_source = s, ie_target = t, ie_data = d\<rparr>) insertion_sort
       (splitBidirectionalEdges example_reader_edges))"

lemma example_reader_graph_eval:
  "dg_number_of_nodes example_reader_graph = 2" "dg_edge_range example_reader_graph 0 = [0]" "dg_edge_range example_reader_graph 1 = [1]"
  "map (dg_target example_reader_graph) [0, 1] = [1, 0]"
  "map (\<lambda>e. (ed_turn_id (dg_data example_reader_graph e), ed_weight (dg_data example_reader_graph e), ed_forward (dg_data example_reader_graph e))) [0, 1] =
     [(0, 5, True), (1, 5, True)]"
  by code_simp+


end
