(* ===== verification/Pipeline.thy ===== *)
theory Pipeline
  imports PartitionRenumber EdgeBasedGraphReader Customization BisectionToPartition
begin

text \<open>
  The tools that build the multi-level data, \<^verbatim>\<open>Partitioner::Run\<close> after the bisection
  (\<^verbatim>\<open>src/partitioner/partitioner.cpp\<close>) and \<^verbatim>\<open>Customizer::Run\<close>
  (\<^verbatim>\<open>src/customize/customizer.cpp\<close>), composed of the components of the other theories.

  What the tools read is an argument, what they write is the result; the updater's edges are an
  argument of the customiser.  \<open>esort\<close>, \<open>osort\<close> and \<open>isort\<close> stand for the sorts of the library at three
  types, \<open>junk\<close> for uninitialised memory.
\<close>

declare split_paired_All [simp del] split_paired_Ex [simp del]

section \<open>Definitions\<close>

definition LoadEdgeBasedGraph ::
  "(EdgeBasedEdge comparator \<Rightarrow> EdgeBasedEdge list \<Rightarrow> EdgeBasedEdge list) \<Rightarrow> EdgeData DynamicEdge \<Rightarrow> nat \<Rightarrow>
   EdgeBasedEdge list \<Rightarrow> EdgeData DynamicGraph" where
  "LoadEdgeBasedGraph esort junk_edge number_of_edge_based_nodes edges =
     (let directed = splitBidirectionalEdges edges;
          tidied = prepareEdgesForUsageInGraph (\<lambda>s t d. \<lparr>ie_source = s, ie_target = t, ie_data = d\<rparr>) esort directed
      in dg_construct junk_edge number_of_edge_based_nodes tidied)"

text \<open>The bisection ids of the edge-based nodes.\<close>

definition edge_based_partition_ids :: "BisectionID list \<Rightarrow> NBGToEBG list \<Rightarrow> nat \<Rightarrow> BisectionID list" where
  "edge_based_partition_ids node_based_partition_ids mapping num_nodes =
     fold (\<lambda>entry ids.
         let ids = ids[forward_ebg_node entry := node_based_partition_ids ! nbg_u entry]
         in if backward_ebg_node entry \<noteq> SPECIAL_NODEID
            then ids[backward_ebg_node entry := node_based_partition_ids ! nbg_v entry] else ids)
       mapping (replicate num_nodes (of_nat SPECIAL_NODEID))"

text \<open>The data per edge-based node that the partitioner renumbers.\<close>

record ('n, 't, 'm) NodeFiles =
  nf_mapping :: "NBGToEBG list"
  nf_segments :: "EdgeBasedNodeSegment list"
  nf_node_data :: "'n list"
  nf_node_weights :: "EdgeWeight list"
  nf_node_durations :: "EdgeDuration list"
  nf_node_distances :: "EdgeDuration list"
  nf_maneuver_overrides :: "('t, 'm) StorageManeuverOverride list"
  nf_node_sequences :: "NodeID list"

definition renumber_files ::
  "(('t, 'm) StorageManeuverOverride comparator \<Rightarrow> ('t, 'm) StorageManeuverOverride list \<Rightarrow> ('t, 'm) StorageManeuverOverride list) \<Rightarrow>
   nat list \<Rightarrow> ('n, 't, 'm) NodeFiles \<Rightarrow> ('n, 't, 'm) NodeFiles option" where
  "renumber_files osort permutation files = do {
     node_data \<leftarrow> inplacePermutation permutation (nf_node_data files);
     node_weights \<leftarrow> inplacePermutation permutation (nf_node_weights files);
     node_durations \<leftarrow> inplacePermutation permutation (nf_node_durations files);
     node_distances \<leftarrow> inplacePermutation permutation (nf_node_distances files);
     Some (files\<lparr>nf_mapping := renumber_mapping permutation (nf_mapping files),
       nf_segments := renumber_segments permutation (nf_segments files), nf_node_data := node_data,
       nf_node_weights := node_weights, nf_node_durations := node_durations, nf_node_distances := node_distances,
       nf_maneuver_overrides := osort (\<lambda>a b. start_node a < start_node b)
         (renumber_overrides permutation (nf_maneuver_overrides files)),
       nf_node_sequences := renumber_node_ids permutation (nf_node_sequences files)\<rparr>)
   }"

definition base_graph_of_dynamic :: "EdgeData DynamicGraph \<Rightarrow> unit base_graph" where
  "base_graph_of_dynamic graph = map (\<lambda>v. map (\<lambda>e. \<lparr>be_target = dg_target graph e, be_forward = ed_forward (dg_data graph e),
       be_backward = ed_backward (dg_data graph e)\<rparr>) (dg_edge_range graph v)) [0..<dg_number_of_nodes graph]"

datatype partitioner_error = Renumbering graph_error | Packing partition_error

definition Partitioner_Run ::
  "partition_fn \<Rightarrow> (EdgeBasedEdge comparator \<Rightarrow> EdgeBasedEdge list \<Rightarrow> EdgeBasedEdge list) \<Rightarrow>
   (('t, 'm) StorageManeuverOverride comparator \<Rightarrow> ('t, 'm) StorageManeuverOverride list \<Rightarrow> ('t, 'm) StorageManeuverOverride list) \<Rightarrow>
   EdgeData DynamicEdge \<Rightarrow> LevelData \<Rightarrow> nat list \<Rightarrow> BisectionID list \<Rightarrow> nat \<Rightarrow> EdgeBasedEdge list \<Rightarrow> ('n, 't, 'm) NodeFiles \<Rightarrow>
   (partitioner_error + ('n, 't, 'm) NodeFiles \<times> MultiLevelPartition \<times> CellStorage \<times> EdgeBasedEdge list) option" where
  "Partitioner_Run part esort osort junk_edge junk max_cell_sizes node_based_partition_ids num_nodes edges files =
     (let edge_based_graph = LoadEdgeBasedGraph esort junk_edge num_nodes edges;
          ids = edge_based_partition_ids node_based_partition_ids (nf_mapping files) num_nodes;
          (partitions, level_to_num_cells) = bisectionToPartition part ids max_cell_sizes;
          (num_unconnected, partitions) = removeUnconnectedBoundaryNodes edge_based_graph partitions;
          permutation = makePermutation edge_based_graph partitions
      in do {
        renumbered \<leftarrow> dg_renumber permutation edge_based_graph;
        partitions \<leftarrow> renumber_partitions permutation partitions;
        files \<leftarrow> renumber_files osort permutation files;
        Some (case renumbered of
            Inl e \<Rightarrow> Inl (Renumbering e)
          | Inr edge_based_graph \<Rightarrow>
              (case MultiLevelPartition_init junk partitions level_to_num_cells of
                 Inl e \<Rightarrow> Inl (Packing e)
               | Inr mlp \<Rightarrow>
                   let storage = fst (CellStorage_init mlp (base_graph_of_dynamic edge_based_graph))
                   in Inr (files, mlp, storage, graphToEdges edge_based_graph)))
      })"

definition LoadAndUpdateEdgeExpandedGraph ::
  "(EdgeBasedEdge comparator \<Rightarrow> EdgeBasedEdge list \<Rightarrow> EdgeBasedEdge list) \<Rightarrow> (nat comparator \<Rightarrow> nat list \<Rightarrow> nat list) \<Rightarrow>
   MultiLevelPartition \<Rightarrow> nat \<Rightarrow> EdgeBasedEdge list \<Rightarrow> MultiLevelEdgeBasedGraph" where
  "LoadAndUpdateEdgeExpandedGraph esort isort mlp num_nodes edge_based_edge_list =
     (let directed = splitBidirectionalEdges edge_based_edge_list;
          tidied = prepareEdgesForUsageInGraph (\<lambda>s t d. \<lparr>se_source = s, se_target = t, se_data = d\<rparr>) esort directed
      in MultiLevelGraph_init isort mlp num_nodes tidied)"

text \<open>Every call of \<^verbatim>\<open>Customize\<close> makes its own heap, here \<open>fresh_heap\<close>.\<close>

definition customizeFilteredMetrics where
  "customizeFilteredMetrics H S mlp fresh_heap graph storage node_filters =
     those (map (\<lambda>filter. map_option snd (Customize H S mlp graph storage filter (fresh_heap, MakeMetric storage))) node_filters)"

text \<open>The classes of the nodes, and the filters of the excludable ones
  (\<^verbatim>\<open>node_data_container.hpp\<close>, \<^verbatim>\<open>exclude_flag.hpp\<close>).\<close>

type_synonym ClassData = "8 word"

definition INAVLID_CLASS_DATA :: ClassData where
  "INAVLID_CLASS_DATA = 255"

record EdgeBasedNodeDataContainer =
  annotation_ids :: "nat list"
  annotation_classes :: "ClassData list"

definition GetClassData :: "EdgeBasedNodeDataContainer \<Rightarrow> NodeID \<Rightarrow> ClassData" where
  "GetClassData node_data node_id = annotation_classes node_data ! (annotation_ids node_data ! node_id)"

definition excludeFlagsToNodeFilter :: "nat \<Rightarrow> EdgeBasedNodeDataContainer \<Rightarrow> ClassData list \<Rightarrow> bool list list" where
  "excludeFlagsToNodeFilter number_of_nodes node_data excludable_classes =
     map (\<lambda>mask. map (\<lambda>node. and (GetClassData node_data node) mask = 0) [0..<number_of_nodes])
       (filter (\<lambda>mask. mask \<noteq> INAVLID_CLASS_DATA) excludable_classes)"

text \<open>The graph that is written keeps the turn ids and the flags of the edges, and no weights
  (\<^verbatim>\<open>customizer/edge_based_graph.hpp\<close>).  Its counts are not written and stay at zero.\<close>

record CustomizedGraph =
  cg_graph :: "NodeID MultiLevelGraph"
  cg_node_weights :: "EdgeWeight list"
  cg_node_durations :: "EdgeDuration list"
  cg_node_distances :: "EdgeDistance list"
  cg_is_forward_edge :: "bool list"
  cg_is_backward_edge :: "bool list"

definition CustomizedGraph_init :: "MultiLevelEdgeBasedGraph \<Rightarrow> EdgeWeight list \<Rightarrow> EdgeDuration list \<Rightarrow> EdgeDistance list \<Rightarrow> CustomizedGraph" where
  "CustomizedGraph_init graph node_weights node_durations node_distances =
     (let original_edge_array = sg_edge_array (mg_graph graph)
      in \<lparr>cg_graph = \<lparr>mg_graph = \<lparr>sg_number_of_nodes = 0, sg_number_of_edges = 0, sg_node_array = sg_node_array (mg_graph graph),
             sg_edge_array = map (\<lambda>edge. \<lparr>ea_target = ea_target edge, ea_data = ed_turn_id (ea_data edge)\<rparr>) original_edge_array\<rparr>,
           node_to_edge_offset = node_to_edge_offset graph\<rparr>,
         cg_node_weights = node_weights, cg_node_durations = node_durations, cg_node_distances = node_distances,
         cg_is_forward_edge = map (\<lambda>edge. ed_forward (ea_data edge)) original_edge_array,
         cg_is_backward_edge = map (\<lambda>edge. ed_backward (ea_data edge)) original_edge_array\<rparr>)"

definition GetNodeWeight :: "CustomizedGraph \<Rightarrow> NodeID \<Rightarrow> EdgeWeight" where
  "GetNodeWeight graph node = cg_node_weights graph ! node"

definition GetNodeDuration :: "CustomizedGraph \<Rightarrow> NodeID \<Rightarrow> EdgeDuration" where
  "GetNodeDuration graph node = cg_node_durations graph ! node"

definition GetNodeDistance :: "CustomizedGraph \<Rightarrow> NodeID \<Rightarrow> EdgeDistance" where
  "GetNodeDistance graph node = cg_node_distances graph ! node"

definition IsForwardEdge :: "CustomizedGraph \<Rightarrow> EdgeID \<Rightarrow> bool" where
  "IsForwardEdge graph edge = cg_is_forward_edge graph ! edge"

definition IsBackwardEdge :: "CustomizedGraph \<Rightarrow> EdgeID \<Rightarrow> bool" where
  "IsBackwardEdge graph edge = cg_is_backward_edge graph ! edge"

text \<open>The edges and node values are those the updater returns; the result is what is written.\<close>

definition Customizer_Run where
  "Customizer_Run H S fresh_heap esort isort mlp storage num_nodes edges node_weights node_durations node_distances
       node_data excludable_classes =
     (let graph = LoadAndUpdateEdgeExpandedGraph esort isort mlp num_nodes edges;
          node_weights = map (take_bit 31) node_weights;
          filters = excludeFlagsToNodeFilter (sg_GetNumberOfNodes (mg_graph graph)) node_data excludable_classes
      in do {
        metrics \<leftarrow> customizeFilteredMetrics H S mlp fresh_heap graph storage filters;
        Some (metrics, CustomizedGraph_init graph node_weights node_durations node_distances)
      })"

section \<open>Graphs made of tidied edges\<close>

lemma edge_range_adj:
  "(\<exists>e \<in> set (dg_edge_range graph u). P (dg_target graph e) (dg_data graph e)) \<longleftrightarrow>
   (\<exists>x \<in> set (dg_adj graph u). P (de_target x) (de_data x))"
  by (simp add: dg_adj_edges dg_target_def dg_data_def)

text \<open>The graph has the entries as edges, its nodes numbered by \<open>p\<close>.\<close>

definition represents :: "EdgeData DynamicGraph \<Rightarrow> (NodeID \<times> NodeID \<times> EdgeData) list \<Rightarrow> nat list \<Rightarrow> bool" where
  "represents graph out p \<longleftrightarrow> dg_number_of_nodes graph = length p \<and>
     (\<forall>v < length p. dg_adj graph (p ! v) = map (\<lambda>(a, b, d). \<lparr>de_target = p ! b, de_data = d\<rparr>) (filter (\<lambda>(a, b, d). a = v) out))"

lemma represents_adj:
  assumes "represents graph out p" "v < length p"
  shows "x \<in> set (dg_adj graph (p ! v)) \<longleftrightarrow> (\<exists>b d. (v, b, d) \<in> set out \<and> x = \<lparr>de_target = p ! b, de_data = d\<rparr>)"
  using assms unfolding represents_def by force

lemma represents_ex:
  assumes "represents graph out p" "v < length p"
  shows "(\<exists>x \<in> set (dg_adj graph (p ! v)). P (de_target x) (de_data x)) \<longleftrightarrow> (\<exists>b d. (v, b, d) \<in> set out \<and> P (p ! b) d)"
proof
  assume "\<exists>x \<in> set (dg_adj graph (p ! v)). P (de_target x) (de_data x)"
  then obtain x where x: "x \<in> set (dg_adj graph (p ! v))" "P (de_target x) (de_data x)" by blast
  obtain b d where "(v, b, d) \<in> set out" "x = \<lparr>de_target = p ! b, de_data = d\<rparr>"
    using x(1) unfolding represents_adj [OF assms] by blast
  then show "\<exists>b d. (v, b, d) \<in> set out \<and> P (p ! b) d" using x(2) by auto
next
  assume "\<exists>b d. (v, b, d) \<in> set out \<and> P (p ! b) d"
  then obtain b d where "(v, b, d) \<in> set out" "P (p ! b) d" by blast
  then have "\<lparr>de_target = p ! b, de_data = d\<rparr> \<in> set (dg_adj graph (p ! v))" unfolding represents_adj [OF assms] by blast
  then show "\<exists>x \<in> set (dg_adj graph (p ! v)). P (de_target x) (de_data x)" using \<open>P (p ! b) d\<close> by force
qed

text \<open>The forward weights and the neighbours.\<close>

lemma represents_forward:
  assumes r: "represents graph out p" and p: "is_perm p n" and out: "\<forall>(a, b, d) \<in> set out. b < n" and s: "s < n" and t: "t < n"
  shows "forward_weights graph (p ! s) (p ! t) = {ed_weight d | d. (s, t, d) \<in> set out \<and> ed_forward d}"
proof -
  have len: "length p = n" "dg_number_of_nodes graph = n" using p r by (simp_all add: is_perm_def represents_def)
  have "w \<in> forward_weights graph (p ! s) (p ! t) \<longleftrightarrow> (\<exists>e \<in> set (dg_edge_range graph (p ! s)).
      dg_target graph e = p ! t \<and> ed_forward (dg_data graph e) \<and> w = ed_weight (dg_data graph e))" for w
    unfolding forward_weights_def using is_perm_less [OF p s] len by auto
  also have "\<dots> w \<longleftrightarrow> (\<exists>x \<in> set (dg_adj graph (p ! s)). de_target x = p ! t \<and> ed_forward (de_data x) \<and> w = ed_weight (de_data x))" for w
    by (rule edge_range_adj)
  also have "\<dots> w \<longleftrightarrow> (\<exists>b d. (s, b, d) \<in> set out \<and> p ! b = p ! t \<and> ed_forward d \<and> w = ed_weight d)" for w
    using represents_ex [OF r, of s "\<lambda>y d. y = p ! t \<and> ed_forward d \<and> w = ed_weight d"] s len by blast
  also have "\<dots> w \<longleftrightarrow> (\<exists>d. (s, t, d) \<in> set out \<and> ed_forward d \<and> w = ed_weight d)" for w
    using is_perm_inj [OF p _ t] out by blast
  finally show ?thesis by auto
qed

lemma represents_neighbour:
  assumes "represents graph out p" "v < length p"
  shows "neighbour graph (p ! v) x \<longleftrightarrow> (\<exists>b d. (v, b, d) \<in> set out \<and> x = p ! b)"
  unfolding neighbour_adj eq_commute [of x] by (rule represents_ex [OF assms, of "\<lambda>y d. y = x"])

text \<open>What the entries must satisfy for the graph to have an entry at both ends of every edge, and
  different turn ids.\<close>

definition valid_edges :: "nat \<Rightarrow> EdgeBasedEdge list \<Rightarrow> bool" where
  "valid_edges n edges \<longleftrightarrow> exclusive_flags edges \<and> (\<forall>e \<in> set edges. eb_source e < n \<and> eb_target e < n)"

definition own_turn_ids :: "EdgeBasedEdge list \<Rightarrow> bool" where
  "own_turn_ids edges \<longleftrightarrow> inj_on (\<lambda>e. ed_turn_id (eb_data e)) (set edges)"

lemma tidied_range:
  assumes "sort_ok esort" "valid_edges n edges" "(a, b, d) \<in> set (tidied esort edges)"
  shows "a < n" "b < n" "a \<noteq> b" "ed_forward d \<or> ed_backward d"
  using tidied_spec(2,3) [OF assms(1) _ assms(3)] assms(2) unfolding valid_edges_def by auto

lemma represents_two_way:
  assumes ok: "sort_ok esort" and v: "valid_edges n edges" and p: "is_perm p n" and r: "represents graph (tidied esort edges) p"
  shows "two_way graph"
proof -
  let ?out = "tidied esort edges"
  have ex: "exclusive_flags edges" using v by (simp add: valid_edges_def)
  have len: "length p = n" "dg_number_of_nodes graph = n" using p r by (simp_all add: is_perm_def represents_def)
  note range = tidied_range [OF ok v]
  have mirror: "\<exists>d'. (b, a, d') \<in> set ?out" if m: "(a, b, d) \<in> set ?out" for a b d
  proof (cases "ed_forward d")
    case True
    then have "arc_weights edges a b \<noteq> {}" using tidied_spec(4) [OF ok ex m] unfolding lightest_def by blast
    then show ?thesis using tidied_spec(6) [OF ok ex range(3) [OF m]] by blast
  next
    case False
    then have "arc_weights edges b a \<noteq> {}" using range(4) [OF m] tidied_spec(5) [OF ok ex m] unfolding lightest_def by blast
    moreover have "b \<noteq> a" using range(3) [OF m] by simp
    ultimately show ?thesis using tidied_spec(6) [OF ok ex] by blast
  qed
  have "dg_target graph e < n \<and> neighbour graph (dg_target graph e) x \<and> (ed_forward (dg_data graph e) \<or> ed_backward (dg_data graph e))"
    if x: "x < n" and e: "e \<in> set (dg_edge_range graph x)" for x e
  proof -
    obtain u where u: "u < n" "x = p ! u" using is_perm_surj [OF p x] by blast
    have "dg_edge_list graph ! e \<in> set (dg_adj graph x)" using e by (simp add: dg_adj_edges)
    then obtain b d where bd: "(u, b, d) \<in> set ?out" "dg_target graph e = p ! b" "dg_data graph e = d"
      using represents_adj [OF r, of u] u len by (auto simp: dg_target_def dg_data_def)
    obtain d' where "(b, u, d') \<in> set ?out" using mirror [OF bd(1)] by blast
    then have "neighbour graph (p ! b) (p ! u)" using represents_neighbour [OF r, of b] range(2) [OF bd(1)] len by auto
    then show ?thesis using bd u range(2,4) [OF bd(1)] is_perm_less [OF p] by simp
  qed
  then show ?thesis unfolding two_way_def len by blast
qed

lemma filter_unique:
  assumes "length (filter P xs) \<le> 1" "i < length xs" "j < length xs" "P (xs ! i)" "P (xs ! j)"
  shows "i = j"
proof -
  have "card {i. i < length xs \<and> P (xs ! i)} \<le> Suc 0" using assms(1) by (simp add: length_filter_conv_card)
  then show ?thesis using assms(2-5) by (subst (asm) card_le_Suc0_iff_eq) auto
qed

lemma graph_edges_adj:
  assumes "(v, e) \<in> set (graph_edges graph)"
  obtains i where "v < dg_number_of_nodes graph" "i < length (dg_adj graph v)" "e = dg_begin graph v + i"
    "dg_target graph e = de_target (dg_adj graph v ! i)" "dg_data graph e = de_data (dg_adj graph v ! i)"
proof -
  have "v < dg_number_of_nodes graph" "dg_begin graph v \<le> e" "e < dg_end graph v" using assms by (auto simp: dg_edge_range_def)
  moreover from this have "e - dg_begin graph v < length (dg_adj graph v)" by (simp add: dg_adj_def)
  ultimately show thesis
    by (intro that [of "e - dg_begin graph v"]) (simp_all add: dg_adj_def dg_target_def dg_data_def)
qed

lemma represents_turn_ids:
  assumes ok: "sort_ok esort" and v: "valid_edges n edges" and own: "own_turn_ids edges" and p: "is_perm p n"
    and r: "represents graph (tidied esort edges) p"
  shows "distinct_turn_ids graph (graph_edges graph)"
  unfolding distinct_turn_ids_def
proof (intro allI impI)
  let ?out = "tidied esort edges"
  have ex: "exclusive_flags edges" using v by (simp add: valid_edges_def)
  have len: "length p = n" "dg_number_of_nodes graph = n" using p r by (simp_all add: is_perm_def represents_def)
  have entry: "\<exists>u b i d. v = p ! u \<and> u < n \<and> (u, b, d) \<in> set ?out \<and> dg_data graph e = d \<and> i < length (dg_adj graph v) \<and>
      e = dg_begin graph v + i \<and> dg_adj graph v ! i = \<lparr>de_target = p ! b, de_data = d\<rparr>"
    if ge: "(v, e) \<in> set (graph_edges graph)" for v e
  proof -
    obtain i where i: "v < dg_number_of_nodes graph" "i < length (dg_adj graph v)" "e = dg_begin graph v + i"
      "dg_data graph e = de_data (dg_adj graph v ! i)" by (rule graph_edges_adj [OF ge])
    obtain u where u: "u < n" "v = p ! u" using is_perm_surj [OF p] i(1) len by metis
    have "dg_adj graph v ! i \<in> set (dg_adj graph v)" using i(2) by simp
    then obtain b d where "(u, b, d) \<in> set ?out" "dg_adj graph v ! i = \<lparr>de_target = p ! b, de_data = d\<rparr>"
      using represents_adj [OF r, of u] u len by auto
    then show ?thesis using i u by auto
  qed
  fix x e x' e'
  assume g: "(x, e) \<in> set (graph_edges graph)" "(x', e') \<in> set (graph_edges graph)"
    and f: "ed_forward (dg_data graph e)" "ed_forward (dg_data graph e')"
    and same: "ed_turn_id (dg_data graph e) = ed_turn_id (dg_data graph e')"
  obtain u b i d where 1: "x = p ! u" "u < n" "(u, b, d) \<in> set ?out" "dg_data graph e = d" "i < length (dg_adj graph x)"
    "e = dg_begin graph x + i" "dg_adj graph x ! i = \<lparr>de_target = p ! b, de_data = d\<rparr>" using entry [OF g(1)] by blast
  obtain u' b' i' d' where 2: "x' = p ! u'" "u' < n" "(u', b', d') \<in> set ?out" "dg_data graph e' = d'" "i' < length (dg_adj graph x')"
    "e' = dg_begin graph x' + i'" "dg_adj graph x' ! i' = \<lparr>de_target = p ! b', de_data = d'\<rparr>" using entry [OF g(2)] by blast
  obtain o1 where o1: "o1 \<in> set edges" "ed_turn_id (eb_data o1) = ed_turn_id d"
    "edge_ends o1 = (u, b) \<and> ed_forward (eb_data o1) \<or> edge_ends o1 = (b, u) \<and> ed_backward (eb_data o1)"
    using tidied_spec(9) [OF ok ex 1(3)] f(1) 1(4) by blast
  obtain o2 where o2: "o2 \<in> set edges" "ed_turn_id (eb_data o2) = ed_turn_id d'"
    "edge_ends o2 = (u', b') \<and> ed_forward (eb_data o2) \<or> edge_ends o2 = (b', u') \<and> ed_backward (eb_data o2)"
    using tidied_spec(9) [OF ok ex 2(3)] f(2) 2(4) by blast
  have "o1 = o2" using own o1(1,2) o2(1,2) same 1(4) 2(4) unfolding own_turn_ids_def inj_on_def by auto
  moreover have "ed_forward (eb_data o1) \<noteq> ed_backward (eb_data o1)"
    using ex o1(1,3) tidied_range(3) [OF ok v 1(3)] unfolding exclusive_flags_def by auto
  ultimately have ub: "u' = u" "b' = b" using o1(3) o2(3) by auto
  have "length (filter (\<lambda>y. de_target y = p ! b \<and> ed_forward (de_data y)) (dg_adj graph x)) =
      length (filter (\<lambda>(s, t, d). (s, t) = (u, b) \<and> ed_forward d) ?out)"
  proof -
    have b: "b < n" by (rule tidied_range(2) [OF ok v 1(3)])
    have "p ! t = p ! b \<longleftrightarrow> t = b" if "(s, t, d) \<in> set ?out" for s t d
      using is_perm_inj [OF p _ b] tidied_range(2) [OF ok v that] by blast
    then have A: "filter (\<lambda>(s, t, d). s = u \<and> p ! t = p ! b \<and> ed_forward d) ?out = filter (\<lambda>(s, t, d). (s, t) = (u, b) \<and> ed_forward d) ?out"
      by (intro filter_cong) auto
    have B: "filter (\<lambda>y. de_target y = p ! b \<and> ed_forward (de_data y)) (map (\<lambda>(a, b, d). \<lparr>de_target = p ! b, de_data = d\<rparr>)
        (filter (\<lambda>(a, b, d). a = u) xs)) = map (\<lambda>(a, b, d). \<lparr>de_target = p ! b, de_data = d\<rparr>)
        (filter (\<lambda>(s, t, d). s = u \<and> p ! t = p ! b \<and> ed_forward d) xs)" for xs
      by (induction xs) auto
    have C: "dg_adj graph x = map (\<lambda>(a, b, d). \<lparr>de_target = p ! b, de_data = d\<rparr>) (filter (\<lambda>(a, b, d). a = u) ?out)"
      using r 1(1,2) len unfolding represents_def by blast
    show ?thesis unfolding C B A length_map ..
  qed
  then have "i = i'"
    using tidied_spec(7) [OF ok ex, of u b] 1 2 ub f
    by (intro filter_unique [of "\<lambda>y. de_target y = p ! b \<and> ed_forward (de_data y)" "dg_adj graph x"]) auto
  then show "x = x' \<and> e = e'" using 1 2 ub by simp
qed

section \<open>Loading and renumbering\<close>

lemma length_prepare_block:
  assumes "block \<noteq> []"
  shows "length (prepare_block mk block) \<le> length block"
proof (cases "find (\<lambda>e. ed_backward (eb_data e)) block")
  case (Some b)
  have "2 \<le> length block" if "\<not> ed_backward (eb_data (hd block))"
  proof -
    have "b \<in> set block" "ed_backward (eb_data b)" using Some by (auto simp: find_Some_iff)
    then have "tl block \<noteq> []" using that assms by (cases block) auto
    then show ?thesis using assms by (cases block) (auto simp: Suc_le_eq)
  qed
  moreover have "1 \<le> length block" using assms by (cases block) auto
  ultimately show ?thesis using Some by (simp add: prepare_block_def Let_def numeral_2_eq_2)
next
  case None
  have "1 \<le> length block" using assms by (cases block) auto
  then show ?thesis using None by (simp add: prepare_block_def Let_def)
qed

lemma length_prepare_intervals: "length (prepare_intervals mk es) \<le> length es"
proof (induction mk es rule: prepare_intervals.induct)
  case (2 mk e es)
  let ?t = "takeWhile (\<lambda>x. edge_ends x = edge_ends e) es" and ?d = "dropWhile (\<lambda>x. edge_ends x = edge_ends e) es"
  have "length (prepare_block mk (e # ?t)) \<le> Suc (length ?t)" using length_prepare_block [of "e # ?t" mk] by simp
  moreover have "length es = length ?t + length ?d" by (metis length_append takeWhile_dropWhile_id)
  ultimately show ?case using "2.IH" by simp
qed simp

lemma length_tidied:
  assumes "sort_ok esort"
  shows "length (tidied esort edges) \<le> 2 * length edges"
proof -
  have "length (splitBidirectionalEdges edges) \<le> 2 * length edges"
    unfolding splitBidirectionalEdges_def by (induction edges) (auto simp: split_edge_def Let_def)
  moreover have "length (esort prepare_less es) = length es" for es
    using assms strict_weak_prepare mset_eq_length unfolding sort_ok_def by blast
  ultimately show ?thesis
    using length_prepare_intervals [of triple "esort prepare_less (splitBidirectionalEdges edges)"]
    by (simp add: tidied_def prepareEdgesForUsageInGraph_def)
qed

lemma sorted_sources:
  assumes "sorted (map (\<lambda>(a, b, d). (a, b)) (xs :: (NodeID \<times> NodeID \<times> EdgeData) list))"
  shows "sorted (map (\<lambda>(a, b, d). a) xs)"
  using assms unfolding sorted_map by (rule sorted_wrt_mono_rel [rotated]) auto

lemma LoadEdgeBasedGraph_spec:
  fixes junk_edge :: "EdgeData DynamicEdge"
  assumes ok: "sort_ok esort" and v: "valid_edges n edges" and n: "n < SPECIAL_NODEID"
  defines "graph \<equiv> LoadEdgeBasedGraph esort junk_edge n edges"
  shows "dg_inv graph" "represents graph (tidied esort edges) [0..<n]" "length (dg_edge_list graph) \<le> 2 * length edges"
proof -
  let ?out = "tidied esort edges" and ?mk = "\<lambda>(s, t, d :: EdgeData). \<lparr>ie_source = s, ie_target = t, ie_data = d\<rparr>"
  have graph: "graph = dg_construct junk_edge n (map ?mk ?out)"
    by (simp add: graph_def LoadEdgeBasedGraph_def prepareEdges_tidied)
  have ex: "exclusive_flags edges" using v by (simp add: valid_edges_def)
  have src: "map ie_source (map ?mk ?out) = map (\<lambda>(a, b, d). a) ?out" by auto
  have srt: "sorted (map ie_source (map ?mk ?out))" unfolding src by (rule sorted_sources [OF tidied_spec(1) [OF ok ex]])
  have range: "\<forall>e \<in> set (map ?mk ?out). ie_source e < n \<and> ie_target e \<noteq> SPECIAL_NODEID"
    using tidied_range(1,2) [OF ok v] n by fastforce
  note c = dg_construct_spec [OF srt range, where junk = junk_edge, folded graph]
  show "dg_inv graph" by (rule c(1))
  have adj: "map edge_of_input (filter (\<lambda>e. ie_source e = v) (map ?mk xs)) =
      map (\<lambda>(a, b, d). \<lparr>de_target = b, de_data = d\<rparr>) (filter (\<lambda>(a, b, d). a = v) xs)" for v xs
    by (induction xs) (auto simp: edge_of_input_def)
  have "dg_adj graph ([0..<n] ! v) = map (\<lambda>(a, b, d). \<lparr>de_target = [0..<n] ! b, de_data = d\<rparr>) (filter (\<lambda>(a, b, d). a = v) ?out)"
    if "v < n" for v
  proof -
    have "map (\<lambda>(a, b, d). \<lparr>de_target = b, de_data = d\<rparr>) (filter (\<lambda>(a, b, d). a = v) ?out) =
        map (\<lambda>(a, b, d). \<lparr>de_target = [0..<n] ! b, de_data = d\<rparr>) (filter (\<lambda>(a, b, d). a = v) ?out)"
      using tidied_range(2) [OF ok v] by (intro map_cong) auto
    then show ?thesis using c(5) [OF that] adj that by simp
  qed
  then show "represents graph ?out [0..<n]" using c(2) by (simp add: represents_def)
  show "length (dg_edge_list graph) \<le> 2 * length edges" using c(4) length_tidied [OF ok] by simp
qed

lemma renumbered_represents:
  assumes r: "represents graph out [0..<n]" and p: "is_perm p n" and range: "\<forall>(a, b, d) \<in> set out. b < n"
    and n: "dg_number_of_nodes graph' = n"
    and adj: "\<forall>u < n. dg_adj graph' (p ! u) = map (\<lambda>e. e\<lparr>de_target := p ! de_target e\<rparr>) (dg_adj graph u)"
  shows "represents graph' out p"
proof -
  have len: "length p = n" using p by (simp add: is_perm_def)
  have "dg_adj graph' (p ! v) = map (\<lambda>(a, b, d). \<lparr>de_target = p ! b, de_data = d\<rparr>) (filter (\<lambda>(a, b, d). a = v) out)" if v: "v < n" for v
  proof -
    have "dg_adj graph v = map (\<lambda>(a, b, d). \<lparr>de_target = [0..<n] ! b, de_data = d\<rparr>) (filter (\<lambda>(a, b, d). a = v) out)"
      using r v unfolding represents_def by simp
    then show ?thesis using adj v range by auto
  qed
  then show ?thesis using len n by (simp add: represents_def)
qed

text \<open>What \<^verbatim>\<open>graphToEdges\<close> writes is valid input again.\<close>

lemma graphToEdges_valid:
  assumes "distinct_turn_ids graph (graph_edges graph)" "two_way graph" "0 < dg_number_of_nodes graph"
    and "\<forall>v e. (v, e) \<in> set (graph_edges graph) \<longrightarrow> 1 \<le> ed_weight (dg_data graph e) \<and> ed_weight (dg_data graph e) \<noteq> INVALID_EDGE_WEIGHT"
  shows "valid_edges (dg_number_of_nodes graph) (graphToEdges graph)" "length (graphToEdges graph) = max_turn_id graph + 1"
    and "\<forall>x \<in> set (graphToEdges graph). ed_weight (eb_data x) \<noteq> INVALID_EDGE_WEIGHT"
proof -
  have r: "graphToEdges graph = fold (\<lambda>(v, e). save_forward_edge graph v e) (graph_edges graph) (replicate (max_turn_id graph + 1) EdgeBasedEdge_default)"
    unfolding graphToEdges_def fold_pairs ..
  have lt: "\<forall>v e. (v, e) \<in> set (graph_edges graph) \<longrightarrow> ed_turn_id (dg_data graph e) < max_turn_id graph + 1"
    using turn_id_le by (metis Suc_eq_plus1 le_imp_less_Suc)
  note sp = save_edges_spec [OF assms(1) lt, folded r, unfolded saved_in_def]
  show "length (graphToEdges graph) = max_turn_id graph + 1" using sp by blast
  have x: "eb_source x < dg_number_of_nodes graph \<and> eb_target x < dg_number_of_nodes graph \<and> ed_weight (eb_data x) \<noteq> INVALID_EDGE_WEIGHT" if "x \<in> set (graphToEdges graph)" for x
  proof -
    consider "x = EdgeBasedEdge_default" | v e where "(v, e) \<in> set (graph_edges graph)" "x = saved_edge graph v e"
      using sp \<open>x \<in> set (graphToEdges graph)\<close> by blast
    then show ?thesis
    proof cases
      case 1
      then show ?thesis using assms(3) by (simp add: EdgeBasedEdge_default_def INVALID_EDGE_WEIGHT_def)
    next
      case 2
      then have "v < dg_number_of_nodes graph" "e \<in> set (dg_edge_range graph v)" by auto
      moreover have "ed_weight (dg_data graph e) \<noteq> INVALID_EDGE_WEIGHT" using assms(4) 2(1) by blast
      ultimately show ?thesis using 2(2) assms(2) unfolding two_way_def by (simp add: saved_edge_def)
    qed
  qed
  then show "\<forall>x \<in> set (graphToEdges graph). ed_weight (eb_data x) \<noteq> INVALID_EDGE_WEIGHT" by blast
  show "valid_edges (dg_number_of_nodes graph) (graphToEdges graph)"
    using x graphToEdges_weights(2) [OF assms(1,4)] by (simp add: valid_edges_def)
qed

section \<open>The packed partition of the renumbered cells\<close>

lemma children_levels_layout:
  "layout_ok cells (level_data (foldl (children_level parts perm) mlp ks)) = layout_ok cells (level_data mlp)"
  by (induction ks arbitrary: mlp) (simp_all add: children_level_def Let_def)

text \<open>What the customisation needs of the partition.\<close>

definition packed :: "MultiLevelPartition \<Rightarrow> nat \<Rightarrow> nat \<Rightarrow> bool" where
  "packed mlp n levels \<longleftrightarrow> GetNumberOfLevels mlp = levels + 1 \<and>
     (\<forall>l u. 1 \<le> l \<longrightarrow> l \<le> levels \<longrightarrow> u < n \<longrightarrow> GetCell mlp l u < GetNumberOfCells mlp l) \<and>
     (\<forall>l u v. 1 \<le> l \<longrightarrow> l < levels \<longrightarrow> u < n \<longrightarrow> v < n \<longrightarrow> GetCell mlp l u = GetCell mlp l v \<longrightarrow>
        GetCell mlp (Suc l) u = GetCell mlp (Suc l) v) \<and>
     (\<forall>u v. u < n \<longrightarrow> v < n \<longrightarrow> GetHighestDifferentLevel mlp u v \<le> levels \<and>
        (\<forall>l. 1 \<le> l \<longrightarrow> l \<le> levels \<longrightarrow> (GetHighestDifferentLevel mlp u v < l \<longleftrightarrow> GetCell mlp l u = GetCell mlp l v)))"

lemma packedD:
  assumes "packed mlp n levels"
  shows "GetNumberOfLevels mlp = levels + 1"
    and "1 \<le> l \<Longrightarrow> l \<le> levels \<Longrightarrow> u < n \<Longrightarrow> GetCell mlp l u < GetNumberOfCells mlp l"
    and "1 \<le> l \<Longrightarrow> l < levels \<Longrightarrow> u < n \<Longrightarrow> v < n \<Longrightarrow> GetCell mlp l u = GetCell mlp l v \<Longrightarrow>
      GetCell mlp (Suc l) u = GetCell mlp (Suc l) v"
    and "u < n \<Longrightarrow> v < n \<Longrightarrow> GetHighestDifferentLevel mlp u v \<le> levels"
    and "u < n \<Longrightarrow> v < n \<Longrightarrow> 1 \<le> l \<Longrightarrow> l \<le> levels \<Longrightarrow>
      GetHighestDifferentLevel mlp u v < l \<longleftrightarrow> GetCell mlp l u = GetCell mlp l v"
  using assms unfolding packed_def by blast+

lemma init_packed:
  assumes ok: "layout_ok cells ld" and p: "parts_ok parts n cells" and len: "length cells < 255"
  defines "mlp \<equiv> InitializePartitionIDs parts \<lparr>level_data = ld, partition = [], cell_to_children = []\<rparr>"
  shows "packed mlp n (length cells)"
    and "1 \<le> l \<Longrightarrow> l \<le> length cells \<Longrightarrow> u < n \<Longrightarrow> v < n \<Longrightarrow>
      GetCell mlp l u = GetCell mlp l v \<longleftrightarrow> parts ! (l - 1) ! u = parts ! (l - 1) ! v"
proof -
  let ?m = "\<lparr>level_data = ld, partition = [], cell_to_children = []\<rparr>" and ?L = "length cells"
  have ok': "layout_ok cells (level_data ?m)" using ok by simp
  note c = init_cells_spec [OF ok' p, folded mlp_def] and a = assigned_spec(1) [OF ok' p]
  show eq: "1 \<le> l \<Longrightarrow> l \<le> ?L \<Longrightarrow> u < n \<Longrightarrow> v < n \<Longrightarrow>
      GetCell mlp l u = GetCell mlp l v \<longleftrightarrow> parts ! (l - 1) ! u = parts ! (l - 1) ! v" for l u v
    using c by blast
  have layout: "layout_ok cells (level_data mlp)"
    using keepsD(1) [OF a] ok unfolding mlp_def InitializePartitionIDs_assigned children_levels_layout by simp
  have parts: "nested_parts parts n" "length parts = ?L" and num: "\<forall>k < ?L. cells ! k < 2 ^ 32" using p by (simp_all add: parts_ok_def)
  have lp: "length (partition mlp) = n + 1" using keepsD(2) [OF a] by (simp add: mlp_def init_frame(2))
  have nest: "parts ! i ! u = parts ! i ! v \<Longrightarrow> parts ! j ! u = parts ! j ! v" if "i < j" "j < ?L" "u < n" "v < n" for i j u v
    using parts that unfolding nested_parts_def by metis
  have words: "\<not> bit (partition mlp ! w) i" if "w < n + 1" "bits_before cells ?L \<le> i" for w i
  proof -
    have "bit (partition mlp ! w) i = bit (replicate (n + 1) (0 :: 64 word) ! w) i"
      using a that unfolding mlp_def init_frame(2) keeps_def by simp
    then show ?thesis unfolding nth_replicate [OF that(1)] by simp
  qed
  have spare: "same_spare_bits cells mlp u v" if "u < n" "v < n" for u v
    unfolding same_spare_bits_def by (rule bit_eqI) (use words [of u] words [of v] that in \<open>simp add: bit_drop_bit_eq\<close>)
  have diff: "GetHighestDifferentLevel mlp u v \<le> ?L \<and>
      (\<forall>l. 1 \<le> l \<longrightarrow> l \<le> ?L \<longrightarrow> (GetHighestDifferentLevel mlp u v < l \<longleftrightarrow> GetCell mlp l u = GetCell mlp l v))"
    if uv: "u < n" "v < n" for u v
  proof -
    let ?h = "GetHighestDifferentLevel mlp u v"
    note h = HighestDifferentLevel_spec [OF layout spare [OF uv] num]
    have "?h < l" if l: "1 \<le> l" "l \<le> ?L" "GetCell mlp l u = GetCell mlp l v" for l
    proof (rule ccontr)
      assume "\<not> ?h < l"
      then have lh: "l \<le> ?h" "?h \<noteq> 0" using l(1) by simp_all
      then have "GetCell mlp ?h u \<noteq> GetCell mlp ?h v" "?h \<le> ?L" "1 \<le> ?h" using h by auto
      then have "parts ! (?h - 1) ! u \<noteq> parts ! (?h - 1) ! v" using eq [OF _ _ uv] by blast
      moreover have "parts ! (l - 1) ! u = parts ! (l - 1) ! v" using eq [OF l(1,2) uv] l(3) by blast
      ultimately have "l \<noteq> ?h" by auto
      then have "l - 1 < ?h - 1" "?h - 1 < ?L" using lh(1) l(1) \<open>?h \<le> ?L\<close> \<open>1 \<le> ?h\<close> by linarith+
      then show False
        using nest [OF _ _ uv] \<open>parts ! (?h - 1) ! u \<noteq> parts ! (?h - 1) ! v\<close> \<open>parts ! (l - 1) ! u = parts ! (l - 1) ! v\<close> by blast
    qed
    then show ?thesis using h by blast
  qed
  have step: "GetCell mlp (Suc l) u = GetCell mlp (Suc l) v"
    if l: "1 \<le> l" "l < ?L" and uv: "u < n" "v < n" and same: "GetCell mlp l u = GetCell mlp l v" for l u v
    using eq [OF l(1) _ uv] eq [of "Suc l", OF _ _ uv] nest [of "l - 1" l, OF _ l(2) uv] l same by simp
  have levels: "GetNumberOfLevels mlp = ?L + 1" using layout len by (simp add: GetNumberOfLevels_def layout_ok_def)
  have below: "GetCell mlp l u < GetNumberOfCells mlp l" if "1 \<le> l" "l \<le> ?L" "u < n" for l u
    using c [OF that(1,2,3,3)] by simp
  show "packed mlp n ?L" unfolding packed_def using levels below step diff by blast
qed

section \<open>The graph of the customisation\<close>

definition se_entry :: "NodeID \<times> NodeID \<times> EdgeData \<Rightarrow> EdgeData SortableEdgeWithData" where
  "se_entry = (\<lambda>(s, t, d). \<lparr>se_source = s, se_target = t, se_data = d\<rparr>)"

lemma LoadAndUpdate_init:
  "LoadAndUpdateEdgeExpandedGraph esort isort mlp n edges = MultiLevelGraph_init isort mlp n (map se_entry (tidied esort edges))"
  by (simp add: LoadAndUpdateEdgeExpandedGraph_def prepareEdges_tidied se_entry_def)

lemma graph_entries:
  assumes "sort_ok isort" "mlg_input mlp n (map se_entry out)" "v < n"
  defines "graph \<equiv> MultiLevelGraph_init isort mlp n (map se_entry out)"
  shows "e \<in> set (out_edges graph v) \<Longrightarrow> (v, edge_target graph e, edge_data graph e) \<in> set out"
    and "(v, b, d) \<in> set out \<Longrightarrow> \<exists>e \<in> set (out_edges graph v). edge_target graph e = b \<and> edge_data graph e = d"
proof -
  have l: "0 < GetNumberOfLevels mlp" using assms(2) by (simp add: mlg_input_def)
  have "mset (sg_out (mg_graph graph) v) = mset (map edgeToEntry (filter (\<lambda>e. se_source e = v) (map se_entry out)))"
    using MultiLevelGraph_ranges_spec [OF assms(1-3) l] unfolding graph_def by blast
  then have out: "set (sg_out (mg_graph graph) v) = set (map edgeToEntry (filter (\<lambda>e. se_source e = v) (map se_entry out)))"
    by (rule mset_eq_setD)
  have entry: "x \<in> set (map edgeToEntry (filter (\<lambda>e. se_source e = v) (map se_entry out))) \<longleftrightarrow>
      (\<exists>b d. (v, b, d) \<in> set out \<and> x = \<lparr>ea_target = b, ea_data = d\<rparr>)" for x
    by (force simp: se_entry_def edgeToEntry_def)
  show "(v, edge_target graph e, edge_data graph e) \<in> set out" if e: "e \<in> set (out_edges graph v)"
  proof -
    have "sg_edge_array (mg_graph graph) ! e \<in> set (sg_out (mg_graph graph) v)" using e by (simp add: sg_out_def)
    then obtain b d where "(v, b, d) \<in> set out" "sg_edge_array (mg_graph graph) ! e = \<lparr>ea_target = b, ea_data = d\<rparr>"
      unfolding out entry by blast
    then show ?thesis by (simp add: sg_GetTarget_def sg_GetEdgeData_def)
  qed
  show "\<exists>e \<in> set (out_edges graph v). edge_target graph e = b \<and> edge_data graph e = d" if "(v, b, d) \<in> set out"
  proof -
    have "\<lparr>ea_target = b, ea_data = d\<rparr> \<in> set (sg_out (mg_graph graph) v)" unfolding out entry using that by blast
    then obtain e where "e \<in> set (out_edges graph v)" "sg_edge_array (mg_graph graph) ! e = \<lparr>ea_target = b, ea_data = d\<rparr>"
      by (auto simp: sg_out_def)
    then show ?thesis by (intro bexI [of _ e]) (simp_all add: sg_GetTarget_def sg_GetEdgeData_def)
  qed
qed

lemma forward_weights_edge:
  "u < dg_number_of_nodes graph \<Longrightarrow> forward_weights graph u t \<noteq> {} \<longleftrightarrow>
     (\<exists>e \<in> set (dg_edge_range graph u). dg_target graph e = t \<and> ed_forward (dg_data graph e))"
  unfolding forward_weights_def by blast

lemma base_edges:
  assumes "v < dg_number_of_nodes graph"
  shows "(\<exists>b \<in> set (base_graph_of_dynamic graph ! v). P (be_target b) (be_forward b) (be_backward b)) \<longleftrightarrow>
    (\<exists>e \<in> set (dg_edge_range graph v). P (dg_target graph e) (ed_forward (dg_data graph e)) (ed_backward (dg_data graph e)))"
  using assms by (simp add: base_graph_of_dynamic_def)

lemma filter_prefix:
  assumes "\<forall>x \<in> set xs. P x" "\<forall>y \<in> set ys. \<not> P y"
  shows "filter P (xs @ ys) = xs"
  using assms by (simp add: filter_True filter_empty_conv)

text \<open>The updater may change the weights of the saved edges, but not their ends and directions.\<close>

definition updated :: "EdgeBasedEdge list \<Rightarrow> EdgeBasedEdge list \<Rightarrow> bool" where
  "updated old new \<longleftrightarrow>
     map (\<lambda>e. (edge_ends e, ed_forward (eb_data e), ed_backward (eb_data e))) new =
     map (\<lambda>e. (edge_ends e, ed_forward (eb_data e), ed_backward (eb_data e))) old"

lemma updated_edge:
  assumes "updated old new" "e \<in> set new"
  obtains e' where "e' \<in> set old" "edge_ends e = edge_ends e'" "ed_forward (eb_data e) = ed_forward (eb_data e')"
    "ed_backward (eb_data e) = ed_backward (eb_data e')"
proof -
  let ?f = "\<lambda>e. (edge_ends e, ed_forward (eb_data e), ed_backward (eb_data e))"
  have "?f e \<in> ?f ` set new" using assms(2) by (rule imageI)
  also have "?f ` set new = ?f ` set old" using arg_cong [OF assms(1) [unfolded updated_def], of set] by (simp only: set_map)
  finally obtain e' where "e' \<in> set old" "?f e = ?f e'" by (elim imageE)
  then show thesis using that by simp
qed

lemma updated_valid: "updated old new \<Longrightarrow> valid_edges n old \<Longrightarrow> valid_edges n new"
proof -
  assume up: "updated old new" and old: "valid_edges n old"
  have "(eb_source e \<noteq> eb_target e \<longrightarrow> ed_forward (eb_data e) \<noteq> ed_backward (eb_data e)) \<and> eb_source e < n \<and> eb_target e < n"
    if e: "e \<in> set new" for e
  proof -
    obtain e' where "e' \<in> set old" "edge_ends e = edge_ends e'" "ed_forward (eb_data e) = ed_forward (eb_data e')"
      "ed_backward (eb_data e) = ed_backward (eb_data e')" using updated_edge [OF up e] by blast
    then show ?thesis using old unfolding valid_edges_def exclusive_flags_def by simp
  qed
  then show ?thesis unfolding valid_edges_def exclusive_flags_def by blast
qed

lemma updated_arcs:
  assumes "updated old new" "\<forall>e \<in> set old. ed_weight (eb_data e) \<noteq> INVALID_EDGE_WEIGHT" "arc_weights new a b \<noteq> {}"
  shows "arc_weights old a b \<noteq> {}"
proof -
  obtain e :: EdgeBasedEdge where e: "e \<in> set new" "edge_ends e = (a, b) \<and> ed_forward (eb_data e) \<or> edge_ends e = (b, a) \<and> ed_backward (eb_data e)"
    using assms(3) unfolding arc_weights_def by blast
  obtain e' where "e' \<in> set old" "edge_ends e = edge_ends e'" "ed_forward (eb_data e) = ed_forward (eb_data e')"
    "ed_backward (eb_data e) = ed_backward (eb_data e')" using updated_edge [OF assms(1) e(1)] by blast
  then have "max (ed_weight (eb_data e')) 1 \<in> arc_weights old a b"
    using assms(2) e(2) unfolding arc_weights_def mem_Collect_eq by (intro bexI [of _ e']) simp_all
  then show ?thesis by blast
qed

lemma represents_edge:
  assumes p: "is_perm p n" and r: "represents graph out p" and ve: "v < n" "e \<in> set (dg_edge_range graph v)"
  shows "\<exists>s t d. s < n \<and> v = p ! s \<and> (s, t, d) \<in> set out \<and> dg_target graph e = p ! t \<and> dg_data graph e = d"
proof -
  obtain s where s: "s < n" "v = p ! s" using is_perm_surj [OF p ve(1)] by blast
  have "dg_edge_list graph ! e \<in> set (dg_adj graph v)" using ve(2) by (simp add: dg_adj_edges)
  moreover have "s < length p" using s(1) p by (simp add: is_perm_def)
  ultimately obtain t d where "(s, t, d) \<in> set out" "dg_edge_list graph ! e = \<lparr>de_target = p ! t, de_data = d\<rparr>"
    using represents_adj [OF r, of s] unfolding s(2) by blast
  moreover from this(2) have "dg_target graph e = p ! t" "dg_data graph e = d" by (simp_all add: dg_target_def dg_data_def)
  ultimately show ?thesis using s by blast
qed

text \<open>The saved edges of the renumbered graph.\<close>

lemma represents_saved:
  assumes esort: "sort_ok esort" and v: "valid_edges n edges" and own: "own_turn_ids edges"
    and n: "0 < n" and p: "is_perm p n" and r: "represents graph (tidied esort edges) p"
  shows "arc_weights (graphToEdges graph) a b = forward_weights graph a b" "valid_edges n (graphToEdges graph)"
    and "\<forall>x \<in> set (graphToEdges graph). ed_weight (eb_data x) \<noteq> INVALID_EDGE_WEIGHT"
proof -
  have N: "dg_number_of_nodes graph = n" using r p by (simp add: represents_def is_perm_def)
  have ex: "exclusive_flags edges" using v by (simp add: valid_edges_def)
  have two: "two_way graph" by (rule represents_two_way [OF esort v p r])
  have turns: "distinct_turn_ids graph (graph_edges graph)" by (rule represents_turn_ids [OF esort v own p r])
  have weights: "\<forall>v e. (v, e) \<in> set (graph_edges graph) \<longrightarrow> 1 \<le> ed_weight (dg_data graph e) \<and> ed_weight (dg_data graph e) \<noteq> INVALID_EDGE_WEIGHT"
  proof (intro allI impI)
    fix v e assume "(v, e) \<in> set (graph_edges graph)"
    then have "v < n" "e \<in> set (dg_edge_range graph v)" using N by auto
    then obtain s t d where "(s, t, d) \<in> set (tidied esort edges)" "dg_data graph e = d" using represents_edge [OF p r] by blast
    then show "1 \<le> ed_weight (dg_data graph e) \<and> ed_weight (dg_data graph e) \<noteq> INVALID_EDGE_WEIGHT"
      using tidied_spec(8) [OF esort ex] by blast
  qed
  show "arc_weights (graphToEdges graph) a b = forward_weights graph a b" by (rule graphToEdges_weights(1) [OF turns weights])
  show "valid_edges n (graphToEdges graph)" "\<forall>x \<in> set (graphToEdges graph). ed_weight (eb_data x) \<noteq> INVALID_EDGE_WEIGHT"
    using graphToEdges_valid(1,3) [OF turns two _ weights] n N by simp_all
qed

text \<open>The renumbered graph is the base of the graph that the customiser makes of its saved edges.\<close>

lemma pipeline_customizable:
  assumes esort: "sort_ok esort" and isort: "sort_ok isort" and v: "valid_edges n edges" and own: "own_turn_ids edges"
    and n: "0 < n" and p: "is_perm p n" and r: "represents graph (tidied esort edges) p"
    and mlp: "packed mlp n levels" and up: "updated (graphToEdges graph) edges2"
    and inp: "mlg_input mlp n (map se_entry (tidied esort edges2))"
  shows "customizable mlp (base_graph_of_dynamic graph) (LoadAndUpdateEdgeExpandedGraph esort isort mlp n edges2)"
    and "sg_number_of_nodes (mg_graph (LoadAndUpdateEdgeExpandedGraph esort isort mlp n edges2)) = n"
proof -
  let ?edges = "graphToEdges graph" and ?base = "base_graph_of_dynamic graph"
  let ?out = "tidied esort edges2" and ?g = "LoadAndUpdateEdgeExpandedGraph esort isort mlp n edges2"
  have N: "dg_number_of_nodes graph = n" using r p by (simp add: represents_def is_perm_def)
  have ex: "exclusive_flags edges" using v by (simp add: valid_edges_def)
  note two = represents_two_way [OF esort v p r] and turns = represents_turn_ids [OF esort v own p r]
  note data = represents_edge [OF p r] and sv = represents_saved [OF esort v own n p r]
  have v2: "valid_edges n edges2" by (rule updated_valid [OF up sv(2)])
  then have ex2: "exclusive_flags edges2" by (simp add: valid_edges_def)
  have arcs: "forward_weights graph a b \<noteq> {}" if "arc_weights edges2 a b \<noteq> {}" for a b
    using updated_arcs [OF up sv(3) that] unfolding sv(1) .
  note range = tidied_range [OF esort v2] and spec = tidied_spec [OF esort ex2]
  have g: "?g = MultiLevelGraph_init isort mlp n (map se_entry ?out)" by (rule LoadAndUpdate_init)
  note entries = graph_entries [OF isort inp, folded g]
  have L: "0 < GetNumberOfLevels mlp" using packedD(1) [OF mlp] by simp
  show gn: "sg_number_of_nodes (mg_graph ?g) = n"
    using MultiLevelGraph_ranges_spec [OF isort inp n L] unfolding g by blast
  have fwd: "\<exists>e \<in> set (dg_edge_range graph a). dg_target graph e = b \<and> ed_forward (dg_data graph e)"
    if m: "(a, b, d) \<in> set ?out" "ed_forward d" for a b d
  proof -
    have "forward_weights graph a b \<noteq> {}" using arcs [of a b] spec(4) [OF m] unfolding lightest_def by blast
    then show ?thesis using forward_weights_edge [of a graph b] range(1) [OF m(1)] N by blast
  qed
  have bwd: "\<exists>e \<in> set (dg_edge_range graph a). dg_target graph e = b \<and> ed_backward (dg_data graph e)"
    if m: "(a, b, d) \<in> set ?out" "ed_backward d" for a b d
  proof -
    have ab: "a < n" "b < n" using range(1,2) [OF m(1)] by blast+
    have "forward_weights graph b a \<noteq> {}" using arcs [of b a] spec(5) [OF m] unfolding lightest_def by blast
    then obtain e where e: "e \<in> set (dg_edge_range graph b)" "dg_target graph e = a" "ed_forward (dg_data graph e)"
      using forward_weights_edge [of b graph a] ab N by blast
    obtain s t d0 where std: "s < n" "b = p ! s" "(s, t, d0) \<in> set (tidied esort edges)" "a = p ! t" "ed_forward d0"
      using data [OF ab(2) e(1)] e(2,3) by blast
    then have "arc_weights edges s t \<noteq> {}" "s \<noteq> t" using tidied_spec(2,4) [OF esort ex std(3)] unfolding lightest_def by blast+
    then obtain d1 where d1: "(t, s, d1) \<in> set (tidied esort edges)" "ed_backward d1" using tidied_spec(6) [OF esort ex] by blast
    have "\<exists>x \<in> set (dg_adj graph (p ! t)). de_target x = p ! s \<and> ed_backward (de_data x)"
      using represents_ex [OF r, of t "\<lambda>y d. y = p ! s \<and> ed_backward d"] d1 tidied_range(1) [OF esort v d1(1)] p
      unfolding is_perm_def by blast
    then show ?thesis using edge_range_adj [of graph a "\<lambda>y d. y = b \<and> ed_backward d"] std by blast
  qed
  have mirror: "\<exists>d'. (b, a, d') \<in> set ?out \<and> (ed_forward d \<longrightarrow> ed_backward d')" if m: "(a, b, d) \<in> set ?out" for a b d
  proof (cases "ed_forward d")
    case True
    then have "arc_weights edges2 a b \<noteq> {}" using spec(4) [OF m] unfolding lightest_def by blast
    then show ?thesis using spec(6) range(3) [OF m] by blast
  next
    case False
    then have "arc_weights edges2 b a \<noteq> {}" using spec(5) [OF m] range(4) [OF m] unfolding lightest_def by blast
    moreover have "b \<noteq> a" using range(3) [OF m] by simp
    ultimately show ?thesis using spec(6) False by blast
  qed
  have internal: "GetInternalEdgeRange ?g l v = Some (filter (\<lambda>e. GetCell mlp l (edge_target ?g e) = GetCell mlp l v) (out_edges ?g v))"
    if l: "1 \<le> l" "l < GetNumberOfLevels mlp" and v: "v < n" for l v
  proof -
    have "l \<le> levels" using l(2) packedD(1) [OF mlp] by simp
    obtain inner outer where io: "GetInternalEdgeRange ?g l v = Some inner" "inner @ outer = out_edges ?g v"
      "\<forall>i \<in> set inner. GetHighestDifferentLevel mlp v (edge_target ?g i) < l"
      "\<forall>i \<in> set outer. l \<le> GetHighestDifferentLevel mlp v (edge_target ?g i)"
      using MultiLevelGraph_ranges_spec [OF isort inp v l(2)] unfolding g by blast
    have cell: "GetHighestDifferentLevel mlp v (edge_target ?g i) < l \<longleftrightarrow> GetCell mlp l (edge_target ?g i) = GetCell mlp l v"
      if "i \<in> set (inner @ outer)" for i
    proof -
      have "(v, edge_target ?g i, edge_data ?g i) \<in> set ?out" using entries(1) [OF v] that unfolding io(2) by blast
      then have "edge_target ?g i < n" by (rule range(2))
      then show ?thesis using packedD(5) [OF mlp v _ l(1) \<open>l \<le> levels\<close>] by metis
    qed
    have "filter (\<lambda>e. GetCell mlp l (edge_target ?g e) = GetCell mlp l v) (inner @ outer) = inner"
      using cell io(3,4) by (intro filter_prefix) (auto simp: not_less [symmetric])
    then show ?thesis using io(1,2) by simp
  qed
  have edge: "edge_target ?g e < n \<and>
        (\<exists>e' \<in> set (out_edges ?g (edge_target ?g e)). edge_target ?g e' = v \<and> (ed_forward (edge_data ?g e) \<longrightarrow> ed_backward (edge_data ?g e'))) \<and>
        (ed_forward (edge_data ?g e) \<longrightarrow> 0 < ed_weight (edge_data ?g e)) \<and>
        (\<exists>b \<in> set (?base ! v). be_target b = edge_target ?g e) \<and>
        (ed_forward (edge_data ?g e) \<longrightarrow> (\<exists>b \<in> set (?base ! v). be_target b = edge_target ?g e \<and> be_forward b)) \<and>
        (ed_backward (edge_data ?g e) \<longrightarrow> (\<exists>b \<in> set (?base ! v). be_target b = edge_target ?g e \<and> be_backward b))"
    if v: "v < n" and e: "e \<in> set (out_edges ?g v)" for v e
  proof -
    have m: "(v, edge_target ?g e, edge_data ?g e) \<in> set ?out" by (rule entries(1) [OF v e])
    have t: "edge_target ?g e < n" by (rule range(2) [OF m])
    obtain d' where d': "(edge_target ?g e, v, d') \<in> set ?out" "ed_forward (edge_data ?g e) \<longrightarrow> ed_backward d'" using mirror [OF m] by blast
    then have mir: "\<exists>e' \<in> set (out_edges ?g (edge_target ?g e)). edge_target ?g e' = v \<and> (ed_forward (edge_data ?g e) \<longrightarrow> ed_backward (edge_data ?g e'))"
      using entries(2) [OF t d'(1)] by blast
    have f: "ed_forward (edge_data ?g e) \<Longrightarrow> \<exists>b \<in> set (?base ! v). be_target b = edge_target ?g e \<and> be_forward b"
      using fwd [OF m] base_edges [of v graph "\<lambda>t f b. t = edge_target ?g e \<and> f"] v N by blast
    have b: "ed_backward (edge_data ?g e) \<Longrightarrow> \<exists>b \<in> set (?base ! v). be_target b = edge_target ?g e \<and> be_backward b"
      using bwd [OF m] base_edges [of v graph "\<lambda>t f b. t = edge_target ?g e \<and> b"] v N by blast
    have any: "\<exists>b \<in> set (?base ! v). be_target b = edge_target ?g e" using f b range(4) [OF m] by blast
    have "1 \<le> ed_weight (edge_data ?g e)" using spec(8) [OF m] by blast
    then have "0 < ed_weight (edge_data ?g e)" by linarith
    then show ?thesis using t mir f b any by blast
  qed
  have targets: "be_target b < n" if "v < n" "b \<in> set (?base ! v)" for v b
    using that two N unfolding two_way_def by (auto simp: base_graph_of_dynamic_def)
  have nested: "GetCell mlp (Suc l) v = GetCell mlp (Suc l) w"
    if "1 \<le> l" "Suc l < GetNumberOfLevels mlp" "v < n" "w < n" "GetCell mlp l v = GetCell mlp l w" for l v w
    using packedD(3) [OF mlp that(1) _ that(3-5)] that(2) packedD(1) [OF mlp] by simp
  have "length ?base = n" by (simp add: base_graph_of_dynamic_def N)
  then show "customizable mlp ?base ?g"
    unfolding customizable_def gn using internal edge targets nested by blast
qed

section \<open>Weights that fit\<close>

text \<open>A bound of the weights of the edges is enough: some path of least weight has less edges than
  there are nodes.\<close>

lemma weights_fit_bound:
  assumes ok: "customizable p base graph"
    and W: "\<forall>v < sg_number_of_nodes (mg_graph graph). \<forall>e \<in> set (out_edges graph v). ed_weight (edge_data graph e) \<le> W"
    and small: "0 \<le> W" "int (sg_number_of_nodes (mg_graph graph)) * W < INVALID_EDGE_WEIGHT"
  shows "weights_fit p graph allowed_nodes"
  unfolding weights_fit_def
proof (intro allI impI)
  let ?n = "sg_number_of_nodes (mg_graph graph)"
  fix l s t c
  assume s: "s < ?n" and path: "cell_path p graph allowed_nodes l s t c"
  let ?path = "cell_path p graph allowed_nodes l s"
  define R where "R k = {v. \<exists>c. ?path v c \<and> fst c \<le> int k * W}" for k
  have fin: "R k \<subseteq> {..<?n}" for k unfolding R_def using cell_path_in [OF ok s] by blast
  have mono: "R k \<subseteq> R (Suc k)" for k
    unfolding R_def using small(1) by (auto simp: distrib_right intro: order_trans)
  have step: "edge_target graph e \<in> R (Suc k)"
    if u: "u \<in> R k" and e: "e \<in> set (out_edges graph u)" "ed_forward (edge_data graph e)"
      "allowed_nodes ! edge_target graph e" "GetCell p l (edge_target graph e) = GetCell p l s" for u e k
  proof -
    obtain c where c: "?path u c" "fst c \<le> int k * W" using u unfolding R_def by blast
    have "u < ?n" using fin u by blast
    then have "ed_weight (edge_data graph e) \<le> W" using W e(1) by blast
    then have "fst (cost_add c (edge_cost (edge_data graph e))) \<le> int (Suc k) * W"
      using c(2) by (simp add: cost_add_def edge_cost_def distrib_right)
    then show ?thesis unfolding R_def using cell_path_edge [OF c(1) e] by blast
  qed
  have "\<exists>k < ?n. R (Suc k) \<subseteq> R k"
  proof (rule ccontr)
    assume "\<not> ?thesis"
    then have grow: "R k \<subset> R (Suc k)" if "k < ?n" for k using mono that by blast
    have "Suc k \<le> card (R k)" if "k \<le> ?n" for k
      using that
    proof (induction k)
      case 0
      have "allowed_nodes ! s" using cell_path_props [OF ok s path] by blast
      then have "?path s cost_zero" by (rule cell_path_start)
      then have "s \<in> R 0" unfolding R_def mem_Collect_eq by (intro exI [of _ cost_zero] conjI) (simp_all add: cost_zero_def)
      then show ?case using finite_subset [OF fin] by (auto simp: Suc_le_eq card_gt_0_iff)
    next
      case (Suc k)
      have "card (R k) < card (R (Suc k))"
        using Suc.prems by (intro psubset_card_mono grow finite_subset [OF fin finite_lessThan]) simp
      then show ?case using Suc by simp
    qed
    then have "Suc ?n \<le> card (R ?n)" by simp
    moreover have "card (R ?n) \<le> ?n" using card_mono [OF finite_lessThan fin] by simp
    ultimately show False by simp
  qed
  then obtain k where k: "k < ?n" "R (Suc k) \<subseteq> R k" by blast
  have "t \<in> R k" using path
  proof (induction rule: cell_path.induct)
    case cell_path_start
    have "?path s cost_zero" using cell_path.cell_path_start cell_path_start by blast
    then show ?case unfolding R_def using small(1) by (auto simp: cost_zero_def)
  next
    case (cell_path_edge u c e)
    then show ?case using step k(2) by blast
  qed
  then obtain d where d: "?path t d" "fst d \<le> int k * W" unfolding R_def by blast
  have "int k * W \<le> int ?n * W" using k(1) small(1) by (intro mult_right_mono) simp_all
  then have "fst d < INVALID_EDGE_WEIGHT" using d(2) small(2) by linarith
  then show "\<exists>d. ?path t d \<and> fst d < INVALID_EDGE_WEIGHT" using d(1) by blast
qed

section \<open>The partitioner\<close>

lemma length_partition_ids [simp]: "length (edge_based_partition_ids ids mapping n) = n"
proof -
  have "length (fold (\<lambda>entry ids. let ids = ids[forward_ebg_node entry := f entry]
         in if backward_ebg_node entry \<noteq> SPECIAL_NODEID then ids[backward_ebg_node entry := h entry] else ids) xs ys) = length ys"
    for f h :: "NBGToEBG \<Rightarrow> BisectionID" and xs ys
    by (induction xs arbitrary: ys) (simp_all add: Let_def)
  then show ?thesis by (simp add: edge_based_partition_ids_def)
qed

definition files_ok :: "nat \<Rightarrow> ('n, 't, 'm) NodeFiles \<Rightarrow> bool" where
  "files_ok n files \<longleftrightarrow> length (nf_node_data files) = n \<and> length (nf_node_weights files) = n \<and>
     length (nf_node_durations files) = n \<and> length (nf_node_distances files) = n"

text \<open>The files refer to the nodes by their new numbers.\<close>

definition renumbered_files :: "nat \<Rightarrow> nat list \<Rightarrow> ('n, 't, 'm) NodeFiles \<Rightarrow> ('n, 't, 'm) NodeFiles \<Rightarrow> bool" where
  "renumbered_files n p old new \<longleftrightarrow>
     (\<forall>u < n. nf_node_data new ! (p ! u) = nf_node_data old ! u \<and> nf_node_weights new ! (p ! u) = nf_node_weights old ! u \<and>
        nf_node_durations new ! (p ! u) = nf_node_durations old ! u \<and> nf_node_distances new ! (p ! u) = nf_node_distances old ! u) \<and>
     nf_mapping new = renumber_mapping p (nf_mapping old) \<and> nf_segments new = renumber_segments p (nf_segments old) \<and>
     nf_node_sequences new = renumber_node_ids p (nf_node_sequences old) \<and>
     mset (nf_maneuver_overrides new) = mset (renumber_overrides p (nf_maneuver_overrides old)) \<and>
     sorted (map start_node (nf_maneuver_overrides new))"

lemma renumber_files_spec:
  assumes p: "is_perm p n" and ok: "files_ok n files" and srt: "sort_ok osort"
  obtains files' where "renumber_files osort p files = Some files'" "renumbered_files n p files files'"
proof -
  note arr = permute_indices_vector [of p]
  obtain a b c d where r: "inplacePermutation p (nf_node_data files) = Some a" "\<forall>u < n. a ! (p ! u) = nf_node_data files ! u"
    "inplacePermutation p (nf_node_weights files) = Some b" "\<forall>u < n. b ! (p ! u) = nf_node_weights files ! u"
    "inplacePermutation p (nf_node_durations files) = Some c" "\<forall>u < n. c ! (p ! u) = nf_node_durations files ! u"
    "inplacePermutation p (nf_node_distances files) = Some d" "\<forall>u < n. d ! (p ! u) = nf_node_distances files ! u"
    using ok p arr [of "nf_node_data files"] arr [of "nf_node_weights files"] arr [of "nf_node_durations files"]
      arr [of "nf_node_distances files"] unfolding files_ok_def by metis
  have cmp: "strict_weak (\<lambda>a b. start_node a < start_node b)" by (rule strict_weak_key)
  let ?o = "osort (\<lambda>a b. start_node a < start_node b) (renumber_overrides p (nf_maneuver_overrides files))"
  have o: "mset ?o = mset (renumber_overrides p (nf_maneuver_overrides files))" "sorted_wrt (\<lambda>a b. \<not> start_node b < start_node a) ?o"
    using srt cmp unfolding sort_ok_def by blast+
  then have "sorted (map start_node ?o)" by (simp add: sorted_map not_less)
  then show thesis using r o(1) by (intro that) (auto simp: renumber_files_def renumbered_files_def)
qed

definition partitioner_input :: "nat \<Rightarrow> nat list \<Rightarrow> EdgeBasedEdge list \<Rightarrow> ('n, 't, 'm) NodeFiles \<Rightarrow> bool" where
  "partitioner_input n max_cell_sizes edges files \<longleftrightarrow>
     0 < n \<and> n < SPECIAL_NODEID \<and> max_cell_sizes \<noteq> [] \<and> length max_cell_sizes < MAX_NUM_LEVEL - 1 \<and>
     valid_edges n edges \<and> own_turn_ids edges \<and> 2 * length edges < SPECIAL_EDGEID \<and> files_ok n files"

lemma partitioner_inputD:
  assumes "partitioner_input n sizes edges files"
  shows "0 < n" "n < SPECIAL_NODEID" "sizes \<noteq> []" "length sizes < MAX_NUM_LEVEL - 1" "valid_edges n edges" "own_turn_ids edges"
    "2 * length edges < SPECIAL_EDGEID" "files_ok n files"
  using assms by (simp_all add: partitioner_input_def)

lemma is_perm_upt: "is_perm [0..<n] n"
  by (auto simp: is_perm_def)

lemma parts_ok_shape:
  assumes "parts_ok parts n num" "length parts' = length parts" "shape parts' n"
    and "\<forall>k < length parts. set (parts' ! k) \<subseteq> set (parts ! k)"
  shows "parts_ok parts' n num"
proof -
  have "card (set (parts' ! k)) \<le> num ! k" if k: "k < length num" for k
  proof -
    have "k < length parts" "card (set (parts ! k)) \<le> num ! k" using assms(1) k by (simp_all add: parts_ok_def)
    then show ?thesis using card_mono [OF finite_set, of "set (parts' ! k)" "parts ! k"] assms(4) by force
  qed
  moreover have "parts' \<noteq> []" using assms(1,2) by (auto simp: parts_ok_def)
  ultimately show ?thesis using assms(1-3) by (simp add: parts_ok_def shape_def)
qed

definition partitioner_result :: "nat \<Rightarrow> nat \<Rightarrow> (EdgeBasedEdge comparator \<Rightarrow> EdgeBasedEdge list \<Rightarrow> EdgeBasedEdge list) \<Rightarrow>
    EdgeBasedEdge list \<Rightarrow> ('n, 't, 'm) NodeFiles \<Rightarrow> ('n, 't, 'm) NodeFiles \<times> MultiLevelPartition \<times> CellStorage \<times> EdgeBasedEdge list \<Rightarrow>
    nat list \<Rightarrow> EdgeData DynamicGraph \<Rightarrow> bool" where
  "partitioner_result n levels esort edges files = (\<lambda>(files', mlp, cells, edges') p graph.
     is_perm p n \<and> represents graph (tidied esort edges) p \<and> renumbered_files n p files files' \<and> packed mlp n levels \<and>
     cells = fst (CellStorage_init mlp (base_graph_of_dynamic graph)) \<and> edges' = graphToEdges graph)"

lemma sum_level_bits: "\<forall>x \<in> set cells. x \<le> n \<Longrightarrow> sum_list (map level_bits cells) \<le> length cells * level_bits n"
proof (induction cells)
  case (Cons x cells)
  then have "level_bits x \<le> level_bits n" by (simp add: level_bits_def floorlog_mono)
  then show ?case using Cons by simp
qed simp

lemma Partitioner_Run_spec:
  assumes part: "std_partition part" and esort: "sort_ok esort" and osort: "sort_ok osort" and junk: "junk_ok junk"
    and inp: "partitioner_input n max_cell_sizes edges files"
  shows "case Partitioner_Run part esort osort junk_edge junk max_cell_sizes node_ids n edges files of
      None \<Rightarrow> False
    | Some (Inl e) \<Rightarrow> (\<exists>x. e = Packing x) \<and> NUM_PARTITION_BITS < length max_cell_sizes * level_bits n
    | Some (Inr r) \<Rightarrow> \<exists>p graph. partitioner_result n (length max_cell_sizes) esort edges files r p graph"
proof -
  note i = partitioner_inputD [OF inp]
  define g where "g = LoadEdgeBasedGraph esort junk_edge n edges"
  define ids where "ids = edge_based_partition_ids node_ids (nf_mapping files) n"
  note g = LoadEdgeBasedGraph_spec [OF esort i(5,2), where junk_edge = junk_edge, folded g_def]
  have N: "dg_number_of_nodes g = n" using g(2) by (simp add: represents_def)
  have ids: "length ids = n" "ids \<noteq> []" "length ids < 2 ^ 32" using i(1,2) by (auto simp: ids_def SPECIAL_NODEID_def simp flip: length_0_conv)
  obtain parts num where b: "bisectionToPartition part ids max_cell_sizes = (parts, num)" by fastforce
  note bp = bisection_parts_ok [OF part ids(2,3) i(3) b, unfolded ids(1)]
  have sh: "shape parts (dg_number_of_nodes g)" using bp(1) N by (simp add: parts_ok_def shape_def)
  have two: "two_way g" by (rule represents_two_way [OF esort i(5) is_perm_upt g(2)])
  obtain unc parts1 where u: "removeUnconnectedBoundaryNodes g parts = (unc, parts1)" by fastforce
  note rem = removeUnconnected_spec [OF two sh u]
  define p where "p = makePermutation g parts1"
  have t: "targets_ok g" unfolding targets_ok_def using two_wayD(1) [OF two] by blast
  have small: "dg_number_of_nodes g < SPECIAL_NODEID" "length (dg_edge_list g) < SPECIAL_EDGEID" using N i(2,7) g(3) by simp_all
  obtain graph parts2 where r: "dg_renumber p g = Some (Inr graph)" "renumber_partitions p parts1 = Some parts2"
    "dg_number_of_nodes graph = n" "length parts2 = length parts1"
    "\<forall>u < n. dg_adj graph (p ! u) = map (\<lambda>e. e\<lparr>de_target := p ! de_target e\<rparr>) (dg_adj g u)"
    "shape parts2 n" "\<forall>k < length parts1. set (parts2 ! k) = set (parts1 ! k)"
    by (rule renumber_borders_spec [OF g(1) t small rem(2), folded p_def, unfolded N]) (rule that; assumption)
  have p: "is_perm p n" using makePermutation_spec(1) [OF t] N by (simp add: p_def)
  have range: "\<forall>(a, b, d) \<in> set (tidied esort edges). b < n" using tidied_range(2) [OF esort i(5)] by blast
  have rep: "represents graph (tidied esort edges) p" by (rule renumbered_represents [OF g(2) p range r(3,5)])
  have po: "parts_ok parts2 n num"
    using bp(1) r(4,6,7) rem(1,3) by (intro parts_ok_shape [of parts n num parts2]) simp_all
  obtain files' where f: "renumber_files osort p files = Some files'" "renumbered_files n p files files'"
    by (rule renumber_files_spec [OF p i(8) osort])
  have run: "Partitioner_Run part esort osort junk_edge junk max_cell_sizes node_ids n edges files =
      Some (case MultiLevelPartition_init junk parts2 num of Inl e \<Rightarrow> Inl (Packing e)
        | Inr mlp \<Rightarrow> Inr (files', mlp, fst (CellStorage_init mlp (base_graph_of_dynamic graph)), graphToEdges graph))"
    unfolding Partitioner_Run_def Let_def g_def [symmetric] ids_def [symmetric] b u prod.case p_def [symmetric] r(1,2) f(1) by simp
  show ?thesis
  proof (cases "MakeLevelData junk num")
    case (Inl e)
    have "num ! k \<le> n" if k: "k < length num" for k
    proof -
      have "parts ! k \<in> set parts" using k bp(1) by (simp add: parts_ok_def)
      then have "length (parts ! k) = n" using bp(1) by (simp add: parts_ok_def)
      then show ?thesis using bp(4) [of k] k bp(2) card_length [of "parts ! k"] by simp
    qed
    then have "\<forall>x \<in> set num. x \<le> n" by (metis in_set_conv_nth)
    then have "sum_list (map level_bits num) \<le> length max_cell_sizes * level_bits n"
      using sum_level_bits [of num n] bp(2) by simp
    moreover have "sum_list (map level_bits num) > NUM_PARTITION_BITS"
      using MakeLevelData_spec [OF junk bp(3)] i(4) bp(2) Inl by (simp add: bits_before_def)
    ultimately show ?thesis unfolding run using Inl by (simp add: MultiLevelPartition_init_def)
  next
    case (Inr ld)
    let ?m = "InitializePartitionIDs parts2 \<lparr>level_data = ld, partition = [], cell_to_children = []\<rparr>"
    have lnum: "length num = length max_cell_sizes" by (rule bp(2))
    have "layout_ok num ld" using MakeLevelData_spec [OF junk bp(3)] i(4) lnum Inr by simp
    then have "packed ?m n (length num)" using i(4) lnum by (intro init_packed(1) [OF _ po]) (simp_all add: MAX_NUM_LEVEL_def)
    then have "partitioner_result n (length max_cell_sizes) esort edges files
        (files', ?m, fst (CellStorage_init ?m (base_graph_of_dynamic graph)), graphToEdges graph) p graph"
      using p rep f(2) lnum by (simp add: partitioner_result_def)
    then show ?thesis unfolding run using Inr by (auto simp: MultiLevelPartition_init_def)
  qed
qed

lemma partitioner_result_arcs:
  assumes esort: "sort_ok esort" and inp: "partitioner_input n sizes edges files"
    and r: "partitioner_result n levels esort edges files (files', mlp, cells, edges') p graph" and uv: "u < n" "v < n"
  shows "arc_weights edges' (p ! u) (p ! v) = {w. u \<noteq> v \<and> lightest (arc_weights edges u v) w}"
proof -
  note i = partitioner_inputD [OF inp]
  have ex: "exclusive_flags edges" using i(5) by (simp add: valid_edges_def)
  have p: "is_perm p n" and rep: "represents graph (tidied esort edges) p" and e: "edges' = graphToEdges graph"
    using r by (simp_all add: partitioner_result_def)
  have range: "\<forall>(a, b, d) \<in> set (tidied esort edges). b < n" using tidied_range(2) [OF esort i(5)] by blast
  have "arc_weights edges' (p ! u) (p ! v) = {ed_weight d | d. (u, v, d) \<in> set (tidied esort edges) \<and> ed_forward d}"
    unfolding e represents_saved(1) [OF esort i(5,6,1) p rep] by (rule represents_forward [OF rep p range uv])
  also have "\<dots> = {w. u \<noteq> v \<and> lightest (arc_weights edges u v) w}"
  proof (intro set_eqI iffI)
    fix w assume "w \<in> {ed_weight d | d. (u, v, d) \<in> set (tidied esort edges) \<and> ed_forward d}"
    then show "w \<in> {w. u \<noteq> v \<and> lightest (arc_weights edges u v) w}" using tidied_spec(2,4) [OF esort ex] by blast
  next
    fix w assume "w \<in> {w. u \<noteq> v \<and> lightest (arc_weights edges u v) w}"
    then have w: "u \<noteq> v" "lightest (arc_weights edges u v) w" by blast+
    then have "arc_weights edges u v \<noteq> {}" unfolding lightest_def by blast
    then obtain d where d: "(u, v, d) \<in> set (tidied esort edges)" "ed_forward d" using tidied_spec(6) [OF esort ex w(1)] by blast
    then have "lightest (arc_weights edges u v) (ed_weight d)" by (rule tidied_spec(4) [OF esort ex])
    then have "w = ed_weight d" using w(2) unfolding lightest_def by (meson order_antisym)
    then show "w \<in> {ed_weight d | d. (u, v, d) \<in> set (tidied esort edges) \<and> ed_forward d}" using d by blast
  qed
  finally show ?thesis .
qed


section \<open>The customiser\<close>

text \<open>The limits of the customisation: ids and products of 32 bits, at most 255 edges at a node, and
  weights whose sums along a path stay below the invalid weight.\<close>

definition customizer_input :: "nat \<Rightarrow> MultiLevelPartition \<Rightarrow> CellStorage \<Rightarrow>
    (EdgeBasedEdge comparator \<Rightarrow> EdgeBasedEdge list \<Rightarrow> EdgeBasedEdge list) \<Rightarrow> EdgeBasedEdge list \<Rightarrow> bool" where
  "customizer_input n mlp cells esort edges \<longleftrightarrow>
     n * GetNumberOfLevels mlp < 2 ^ 32 \<and> 2 * length edges < SPECIAL_EDGEID \<and>
     (\<forall>v < n. length (filter (\<lambda>(a, b, d). a = v) (prepareEdgesForUsageInGraph triple esort (splitBidirectionalEdges edges))) < 256) \<and>
     (\<forall>l c. 1 \<le> l \<longrightarrow> l < GetNumberOfLevels mlp \<longrightarrow> c < GetNumberOfCells mlp l \<longrightarrow>
        length (GetSourceNodes cells (cs_GetCell cells l c)) * length (GetDestinationNodes cells (cs_GetCell cells l c)) < 2 ^ 32) \<and>
     (\<exists>W. 1 \<le> W \<and> int n * W < INVALID_EDGE_WEIGHT \<and>
        (\<forall>e \<in> set edges. ed_weight (eb_data e) \<noteq> INVALID_EDGE_WEIGHT \<longrightarrow> ed_weight (eb_data e) \<le> W))"

text \<open>The values of the metric are those of least paths inside the cells.\<close>

definition metric_correct :: "MultiLevelPartition \<Rightarrow> MultiLevelEdgeBasedGraph \<Rightarrow> CellStorage \<Rightarrow> bool list \<Rightarrow> CellMetric \<Rightarrow> bool" where
  "metric_correct mlp graph cells allowed_nodes metric \<longleftrightarrow>
     (\<forall>l c i j. 1 \<le> l \<longrightarrow> l < GetNumberOfLevels mlp \<longrightarrow> c < GetNumberOfCells mlp l \<longrightarrow>
      i < length (GetSourceNodes cells (cs_GetCell cells l c)) \<longrightarrow> j < length (GetDestinationNodes cells (cs_GetCell cells l c)) \<longrightarrow>
      (let cell = cs_GetCell cells l c; source = GetSourceNodes cells cell ! i; destination = GetDestinationNodes cells cell ! j
       in entry_ok (cell_path mlp graph allowed_nodes l source destination)
            (GetOutWeight cells metric cell source ! j, GetOutDuration cells metric cell source ! j,
             GetOutDistance cells metric cell source ! j)))"

lemma lightest_ex:
  assumes "arc_weights edges a b \<noteq> {}"
  shows "\<exists>w. lightest (arc_weights edges a b) w"
proof -
  have "arc_weights edges a b \<subseteq> (\<lambda>e. max (ed_weight (eb_data e)) 1) ` set edges" unfolding arc_weights_def by blast
  then have fin: "finite (arc_weights edges a b)" by (rule finite_subset) simp
  show ?thesis using Min_in [OF fin assms] Min_le [OF fin] unfolding lightest_def by blast
qed

lemma customizer_graph_input:
  assumes esort: "sort_ok esort" and v: "valid_edges n edges" and mlp: "packed mlp n levels" and n: "n < SPECIAL_NODEID"
    and c: "customizer_input n mlp cells esort edges"
  shows "mlg_input mlp n (map se_entry (tidied esort edges))"
proof -
  note range = tidied_range [OF esort v]
  have src: "se_source e < n \<and> GetHighestDifferentLevel mlp (se_source e) (se_target e) < GetNumberOfLevels mlp"
    if e: "e \<in> set (map se_entry (tidied esort edges))" for e
  proof -
    obtain a b d where m: "(a, b, d) \<in> set (tidied esort edges)" "e = \<lparr>se_source = a, se_target = b, se_data = d\<rparr>"
      using e by (auto simp: se_entry_def)
    then have "GetHighestDifferentLevel mlp a b \<le> levels" using packedD(4) [OF mlp] range(1,2) [OF m(1)] by blast
    then show ?thesis using m(2) range(1) [OF m(1)] packedD(1) [OF mlp] by simp
  qed
  have deg: "length (filter (\<lambda>e. se_source e = v) (map se_entry xs)) = length (filter (\<lambda>(a, b, d). a = v) xs)" for v xs
    by (induction xs) (auto simp: se_entry_def)
  have "length (map se_entry (tidied esort edges)) < SPECIAL_EDGEID"
    using length_tidied [OF esort, of edges] c by (simp add: customizer_input_def)
  moreover have "\<forall>v < n. length (filter (\<lambda>e. se_source e = v) (map se_entry (tidied esort edges))) < 256"
    using c unfolding customizer_input_def deg tidied_def by blast
  moreover have "n * GetNumberOfLevels mlp < 2 ^ 32" "n + 1 < 2 ^ 32" "0 < GetNumberOfLevels mlp"
    using c n packedD(1) [OF mlp] by (simp_all add: customizer_input_def SPECIAL_NODEID_def)
  ultimately show ?thesis unfolding mlg_input_def using src by blast
qed

lemma tidied_bound:
  assumes esort: "sort_ok esort" and v: "valid_edges n edges" and m: "(a, b, d) \<in> set (tidied esort edges)"
    and W: "1 \<le> W" "\<forall>e \<in> set edges. ed_weight (eb_data e) \<noteq> INVALID_EDGE_WEIGHT \<longrightarrow> ed_weight (eb_data e) \<le> W"
  shows "ed_weight d \<le> W"
proof -
  have ex: "exclusive_flags edges" using v by (simp add: valid_edges_def)
  have bound: "w \<le> W" if w: "w \<in> arc_weights edges s t" for w s t
  proof -
    obtain e :: EdgeBasedEdge where e: "e \<in> set edges" "ed_weight (eb_data e) \<noteq> INVALID_EDGE_WEIGHT" "w = max (ed_weight (eb_data e)) 1"
      using w unfolding arc_weights_def mem_Collect_eq by blast
    then have "ed_weight (eb_data e) \<le> W" using W(2) by blast
    then show ?thesis using e(3) W(1) by simp
  qed
  show ?thesis
    using tidied_spec(4,5) [OF esort ex m] tidied_range(4) [OF esort v m] bound unfolding lightest_def by blast
qed

lemma partitioner_cells:
  assumes "partitioner_result n levels esort edges files (files', mlp, cells, edges') p graph"
  shows "cells_in_range mlp (base_graph_of_dynamic graph)" "length (base_graph_of_dynamic graph) = n"
    and "built mlp (base_graph_of_dynamic graph) (GetNumberOfLevels mlp) cells"
proof -
  have res: "is_perm p n" "represents graph (tidied esort edges) p" "packed mlp n levels"
    "cells = fst (CellStorage_init mlp (base_graph_of_dynamic graph))" using assms by (simp_all add: partitioner_result_def)
  have N: "dg_number_of_nodes graph = n" using res(1,2) by (simp add: represents_def is_perm_def)
  then show "length (base_graph_of_dynamic graph) = n" by (simp add: base_graph_of_dynamic_def)
  show rng: "cells_in_range mlp (base_graph_of_dynamic graph)"
    unfolding cells_in_range_def using packedD(1,2) [OF res(3)] by (simp add: base_graph_of_dynamic_def N)
  obtain un where "CellStorage_init mlp (base_graph_of_dynamic graph) = (cells, un)"
    using res(4) by (cases "CellStorage_init mlp (base_graph_of_dynamic graph)") simp
  then show "built mlp (base_graph_of_dynamic graph) (GetNumberOfLevels mlp) cells" by (rule CellStorage_init_spec(1) [OF rng])
qed

lemma customizer_ready:
  assumes esort: "sort_ok esort" and isort: "sort_ok isort" and inp: "partitioner_input n sizes edges files"
    and r: "partitioner_result n (length sizes) esort edges files (files', mlp, cells, edges') p graph"
    and up: "updated edges' edges2" and c: "customizer_input n mlp cells esort edges2"
  defines "g \<equiv> LoadAndUpdateEdgeExpandedGraph esort isort mlp n edges2"
  shows "customizable mlp (base_graph_of_dynamic graph) g" "storage_ok mlp (base_graph_of_dynamic graph) cells"
    and "weights_fit mlp g allowed_nodes" "sg_number_of_nodes (mg_graph g) = n" "sg_inv (mg_graph g)"
    and "x < n \<Longrightarrow> y < n \<Longrightarrow> {ed_weight (edge_data g e) | e. e \<in> set (out_edges g x) \<and> edge_target g e = y \<and> ed_forward (edge_data g e)} =
      {w. x \<noteq> y \<and> lightest (arc_weights edges2 x y) w}"
proof -
  note i = partitioner_inputD [OF inp]
  have res: "is_perm p n" "represents graph (tidied esort edges) p" "packed mlp n (length sizes)" "edges' = graphToEdges graph"
    "cells = fst (CellStorage_init mlp (base_graph_of_dynamic graph))" using r by (simp_all add: partitioner_result_def)
  have up': "updated (graphToEdges graph) edges2" using up res(4) by simp
  have v2: "valid_edges n edges2" by (rule updated_valid [OF up' represents_saved(2) [OF esort i(5,6,1) res(1,2)]])
  then have ex2: "exclusive_flags edges2" by (simp add: valid_edges_def)
  note mi = customizer_graph_input [OF esort v2 res(3) i(2) c]
  note pc = pipeline_customizable [OF esort isort i(5,6,1) res(1,2,3) up' mi, folded g_def]
  show cust: "customizable mlp (base_graph_of_dynamic graph) g" and gn: "sg_number_of_nodes (mg_graph g) = n" by (rule pc)+
  have N: "dg_number_of_nodes graph = n" using res(1,2) by (simp add: represents_def is_perm_def)
  note entries = graph_entries [OF isort mi, folded LoadAndUpdate_init, folded g_def]
  note rng = partitioner_cells(1) [OF r] and b = built_cell [OF partitioner_cells(3) [OF r]]
  have "0 < GetNumberOfLevels mlp" using packedD(1) [OF res(3)] by simp
  then show "sg_inv (mg_graph g)"
    using MultiLevelGraph_ranges_spec [OF isort mi i(1)] unfolding g_def LoadAndUpdate_init by blast
  have "small_cells mlp (base_graph_of_dynamic graph)"
    unfolding small_cells_def using b(1,2) c unfolding customizer_input_def by metis
  then show "storage_ok mlp (base_graph_of_dynamic graph) cells" using rng res(5) by (simp add: storage_ok_def)
  obtain W where W: "1 \<le> W" "int n * W < INVALID_EDGE_WEIGHT"
    "\<forall>e \<in> set edges2. ed_weight (eb_data e) \<noteq> INVALID_EDGE_WEIGHT \<longrightarrow> ed_weight (eb_data e) \<le> W"
    using c unfolding customizer_input_def by blast
  have "ed_weight (edge_data g e) \<le> W" if "v < n" "e \<in> set (out_edges g v)" for v e
    using tidied_bound [OF esort v2 entries(1) [OF that] W(1,3)] .
  then show "weights_fit mlp g allowed_nodes" using W(1,2) gn by (intro weights_fit_bound [OF cust]) auto
  assume xy: "x < n" "y < n"
  show "{ed_weight (edge_data g e) | e. e \<in> set (out_edges g x) \<and> edge_target g e = y \<and> ed_forward (edge_data g e)} =
      {w. x \<noteq> y \<and> lightest (arc_weights edges2 x y) w}"
  proof (intro set_eqI iffI)
    fix w assume "w \<in> {ed_weight (edge_data g e) | e. e \<in> set (out_edges g x) \<and> edge_target g e = y \<and> ed_forward (edge_data g e)}"
    then obtain e where e: "e \<in> set (out_edges g x)" "edge_target g e = y" "ed_forward (edge_data g e)" "w = ed_weight (edge_data g e)" by blast
    have "(x, y, edge_data g e) \<in> set (tidied esort edges2)" using entries(1) [OF xy(1) e(1)] e(2) by simp
    then show "w \<in> {w. x \<noteq> y \<and> lightest (arc_weights edges2 x y) w}" using tidied_spec(2,4) [OF esort ex2] e(3,4) by blast
  next
    fix w assume "w \<in> {w. x \<noteq> y \<and> lightest (arc_weights edges2 x y) w}"
    then have w: "x \<noteq> y" "lightest (arc_weights edges2 x y) w" by blast+
    then have "arc_weights edges2 x y \<noteq> {}" unfolding lightest_def by blast
    then obtain d where d: "(x, y, d) \<in> set (tidied esort edges2)" "ed_forward d" using tidied_spec(6) [OF esort ex2 w(1)] by blast
    then have "lightest (arc_weights edges2 x y) (ed_weight d)" by (rule tidied_spec(4) [OF esort ex2])
    then have "w = ed_weight d" using w(2) unfolding lightest_def by (meson order_antisym)
    then show "w \<in> {ed_weight (edge_data g e) | e. e \<in> set (out_edges g x) \<and> edge_target g e = y \<and> ed_forward (edge_data g e)}"
      using entries(2) [OF xy(1) d(1)] d(2) by blast
  qed
qed

lemma customizeFilteredMetrics_spec:
  assumes "query_heap H content hok S V ixok live" "qh_inv content hok S V ixok live q"
    and "{..<sg_number_of_nodes (mg_graph graph)} \<subseteq> V"
    and "customizable mlp base graph" "storage_ok mlp base cells" "\<And>f. weights_fit mlp graph f"
  shows "\<exists>metrics. customizeFilteredMetrics H S mlp q graph cells filters = Some metrics \<and> length metrics = length filters \<and>
    (\<forall>k < length filters. metric_correct mlp graph cells (filters ! k) (metrics ! k))"
proof -
  have one: "\<exists>metric. map_option snd (Customize H S mlp graph cells f (q, MakeMetric cells)) = Some metric \<and> metric_correct mlp graph cells f metric" for f
    using CellCustomizer_spec [OF assms(1-5) assms(6) [of f]] unfolding metric_correct_def by auto
  show ?thesis
    unfolding customizeFilteredMetrics_def
  proof (induction filters)
    case (Cons f fs)
    obtain ms where ms: "those (map (\<lambda>filter. map_option snd (Customize H S mlp graph cells filter (q, MakeMetric cells))) fs) = Some ms"
      "length ms = length fs" "\<forall>k < length fs. metric_correct mlp graph cells (fs ! k) (ms ! k)" using Cons.IH by blast
    obtain m where m: "map_option snd (Customize H S mlp graph cells f (q, MakeMetric cells)) = Some m" "metric_correct mlp graph cells f m"
      using one by blast
    have "\<forall>k < length (f # fs). metric_correct mlp graph cells ((f # fs) ! k) ((m # ms) ! k)"
      using m(2) ms(3) by (simp add: All_less_Suc2)
    then show ?case using m(1) ms(1,2) by (auto simp: All_less_Suc2)
  qed simp
qed

text \<open>The graph that is written.\<close>

lemma written_edges:
  fixes node_weights node_durations node_distances
  assumes "sg_inv (mg_graph g)" "x < sg_number_of_nodes (mg_graph g)"
  defines "w \<equiv> CustomizedGraph_init g node_weights node_durations node_distances"
  shows "sg_range (mg_graph (cg_graph w)) x = out_edges g x"
    and "e \<in> set (out_edges g x) \<Longrightarrow> sg_GetTarget (mg_graph (cg_graph w)) e = edge_target g e \<and>
      IsForwardEdge w e = ed_forward (edge_data g e) \<and> IsBackwardEdge w e = ed_backward (edge_data g e)"
proof -
  show "sg_range (mg_graph (cg_graph w)) x = out_edges g x" by (simp add: w_def CustomizedGraph_init_def sg_range_def Let_def)
  assume "e \<in> set (out_edges g x)"
  then have "e < length (sg_edge_array (mg_graph g))" by (rule sg_range_less [OF assms(1,2)])
  then show "sg_GetTarget (mg_graph (cg_graph w)) e = edge_target g e \<and> IsForwardEdge w e = ed_forward (edge_data g e) \<and> IsBackwardEdge w e = ed_backward (edge_data g e)"
    by (simp add: w_def IsForwardEdge_def IsBackwardEdge_def CustomizedGraph_init_def sg_GetTarget_def sg_GetEdgeData_def Let_def)
qed

lemma Customizer_Run_spec:
  fixes node_data classes
  assumes esort: "sort_ok esort" and isort: "sort_ok isort" and inp: "partitioner_input n sizes edges files"
    and r: "partitioner_result n (length sizes) esort edges files (files', mlp, cells, edges') p graph"
    and up: "updated edges' edges2" and c: "customizer_input n mlp cells esort edges2"
    and qh: "query_heap H content hok S V ixok live" "qh_inv content hok S V ixok live q" and V: "{..<n} \<subseteq> V"
  defines "g \<equiv> LoadAndUpdateEdgeExpandedGraph esort isort mlp n edges2"
    and "filters \<equiv> excludeFlagsToNodeFilter n node_data classes"
  shows "\<exists>metrics written. Customizer_Run H S q esort isort mlp cells n edges2 node_weights node_durations node_distances node_data classes =
      Some (metrics, written) \<and> length metrics = length filters \<and>
    (\<forall>x < length node_weights. 0 \<le> node_weights ! x \<longrightarrow> node_weights ! x < 2 ^ 31 \<longrightarrow> GetNodeWeight written x = node_weights ! x) \<and>
    (\<forall>k < length filters. metric_correct mlp g cells (filters ! k) (metrics ! k)) \<and>
    (\<forall>x < n. \<forall>y < n. {ed_weight (edge_data g e) | e. e \<in> set (out_edges g x) \<and> edge_target g e = y \<and> ed_forward (edge_data g e)} =
        {w. x \<noteq> y \<and> lightest (arc_weights edges2 x y) w} \<and>
      ((\<exists>e \<in> set (sg_range (mg_graph (cg_graph written)) x).
        sg_GetTarget (mg_graph (cg_graph written)) e = y \<and> IsForwardEdge written e) \<longleftrightarrow> x \<noteq> y \<and> arc_weights edges2 x y \<noteq> {}))"
proof -
  note rd = customizer_ready [OF esort isort inp r up c, folded g_def]
  have V': "{..<sg_number_of_nodes (mg_graph g)} \<subseteq> V" using V rd(4) by simp
  obtain metrics where m: "customizeFilteredMetrics H S mlp q g cells filters = Some metrics" "length metrics = length filters"
    "\<forall>k < length filters. metric_correct mlp g cells (filters ! k) (metrics ! k)"
    using customizeFilteredMetrics_spec [OF qh V' rd(1,2,3), of filters] by blast
  let ?w = "CustomizedGraph_init g (map (take_bit 31) node_weights) node_durations node_distances"
  have run: "Customizer_Run H S q esort isort mlp cells n edges2 node_weights node_durations node_distances node_data classes = Some (metrics, ?w)"
    unfolding Customizer_Run_def Let_def g_def [symmetric] sg_GetNumberOfNodes_def rd(4) filters_def [symmetric] m(1) by simp
  have "(\<exists>e \<in> set (sg_range (mg_graph (cg_graph ?w)) x). sg_GetTarget (mg_graph (cg_graph ?w)) e = y \<and> IsForwardEdge ?w e) \<longleftrightarrow>
      x \<noteq> y \<and> arc_weights edges2 x y \<noteq> {}" if xy: "x < n" "y < n" for x y
  proof -
    note we = written_edges [OF rd(5), of x, unfolded rd(4), OF xy(1)]
    have "(\<exists>e \<in> set (sg_range (mg_graph (cg_graph ?w)) x). sg_GetTarget (mg_graph (cg_graph ?w)) e = y \<and> IsForwardEdge ?w e) \<longleftrightarrow>
        (\<exists>e \<in> set (out_edges g x). edge_target g e = y \<and> ed_forward (edge_data g e))"
      unfolding we(1) by (rule bex_cong [OF refl]) (simp only: we(2))
    also have "\<dots> \<longleftrightarrow> {ed_weight (edge_data g e) | e. e \<in> set (out_edges g x) \<and> edge_target g e = y \<and> ed_forward (edge_data g e)} \<noteq> {}"
      by blast
    also have "\<dots> \<longleftrightarrow> x \<noteq> y \<and> (\<exists>w. lightest (arc_weights edges2 x y) w)" unfolding rd(6) [OF xy] by blast
    also have "\<dots> \<longleftrightarrow> x \<noteq> y \<and> arc_weights edges2 x y \<noteq> {}" using lightest_ex [of edges2 x y] unfolding lightest_def by blast
    finally show ?thesis .
  qed
  then have "\<forall>x < n. \<forall>y < n. {ed_weight (edge_data g e) | e. e \<in> set (out_edges g x) \<and> edge_target g e = y \<and> ed_forward (edge_data g e)} =
        {w. x \<noteq> y \<and> lightest (arc_weights edges2 x y) w} \<and>
      ((\<exists>e \<in> set (sg_range (mg_graph (cg_graph ?w)) x).
        sg_GetTarget (mg_graph (cg_graph ?w)) e = y \<and> IsForwardEdge ?w e) \<longleftrightarrow> x \<noteq> y \<and> arc_weights edges2 x y \<noteq> {})"
    using rd(6) by (intro allI impI conjI)
  moreover have "\<forall>x < length node_weights. 0 \<le> node_weights ! x \<longrightarrow> node_weights ! x < 2 ^ 31 \<longrightarrow> GetNodeWeight ?w x = node_weights ! x"
    by (simp add: GetNodeWeight_def CustomizedGraph_init_def Let_def take_bit_int_eq_self)
  ultimately show ?thesis using run m(2,3) by (intro exI [of _ metrics] exI [of _ ?w] conjI)
qed

text \<open>
  Property C4.  Partitioner and customiser.  On what the partitioner has written, with
  edges whose weights the updater has changed, the customiser returns.  There is one metric for every
  valid excludable class, and in it the values of every cell of every level are those of a least
  path inside the cell over the nodes outside the class; the graph they are taken on has one forward edge
  from \<open>x\<close> to \<open>y\<close> of the least updated weight, and so has, without the weight, the graph that is written.  It keeps the weights of the nodes.
\<close>

theorem partition_then_customize:
  assumes "std_partition part" "sort_ok esort" "sort_ok osort" "sort_ok isort" "junk_ok junk" "partitioner_input n sizes edges files"
    and "Partitioner_Run part esort osort junk_edge junk sizes node_ids n edges files = Some (Inr (files', mlp, cells, edges'))"
    and "updated edges' edges2" "customizer_input n mlp cells esort edges2"
    and "query_heap H content hok S V ixok live" "qh_inv content hok S V ixok live q" "{..<n} \<subseteq> V"
  shows "let g = LoadAndUpdateEdgeExpandedGraph esort isort mlp n edges2; filters = excludeFlagsToNodeFilter n node_data classes
    in \<exists>metrics written. Customizer_Run H S q esort isort mlp cells n edges2 node_weights node_durations node_distances node_data classes =
        Some (metrics, written) \<and> length metrics = length filters \<and>
      (\<forall>x < length node_weights. 0 \<le> node_weights ! x \<longrightarrow> node_weights ! x < 2 ^ 31 \<longrightarrow> GetNodeWeight written x = node_weights ! x) \<and>
      (\<forall>k < length filters. metric_correct mlp g cells (filters ! k) (metrics ! k)) \<and>
      (\<forall>x < n. \<forall>y < n. {ed_weight (edge_data g e) | e. e \<in> set (out_edges g x) \<and> edge_target g e = y \<and> ed_forward (edge_data g e)} =
          {w. x \<noteq> y \<and> lightest (arc_weights edges2 x y) w} \<and>
        ((\<exists>e \<in> set (sg_range (mg_graph (cg_graph written)) x).
          sg_GetTarget (mg_graph (cg_graph written)) e = y \<and> IsForwardEdge written e) \<longleftrightarrow> x \<noteq> y \<and> arc_weights edges2 x y \<noteq> {}))"
proof -
  obtain p graph where "partitioner_result n (length sizes) esort edges files (files', mlp, cells, edges') p graph"
    using Partitioner_Run_spec [OF assms(1-3,5,6), of junk_edge node_ids] unfolding assms(7) by auto
  from Customizer_Run_spec [OF assms(2,4,6) this assms(8-12)] show ?thesis unfolding Let_def .
qed

section \<open>An example\<close>

text \<open>Edges within the limits when the tidied edges have small turn ids and weights.\<close>

lemma saved_bounds:
  assumes esort: "sort_ok esort" and inp: "partitioner_input n sizes edges files"
    and r: "partitioner_result n levels esort edges files (files', mlp, cells, edges') p graph"
    and bound: "\<forall>(a, b, d) \<in> set (tidied esort edges). ed_turn_id d \<le> T \<and> ed_weight d \<le> W" and W: "0 \<le> W"
  shows "length edges' \<le> T + 1" "e \<in> set edges' \<Longrightarrow> ed_weight (eb_data e) \<le> W"
proof -
  note i = partitioner_inputD [OF inp]
  have res: "is_perm p n" "represents graph (tidied esort edges) p" "edges' = graphToEdges graph" using r by (simp_all add: partitioner_result_def)
  have N: "dg_number_of_nodes graph = n" using res(1,2) by (simp add: represents_def is_perm_def)
  have data: "ed_turn_id (dg_data graph e) \<le> T \<and> ed_weight (dg_data graph e) \<le> W" if "(v, e) \<in> set (graph_edges graph)" for v e
  proof -
    have "v < n" "e \<in> set (dg_edge_range graph v)" using that N by auto
    then obtain s t d where "(s, t, d) \<in> set (tidied esort edges)" "dg_data graph e = d" using represents_edge [OF res(1,2)] by blast
    then show ?thesis using bound by blast
  qed
  let ?n = "max_turn_id graph + 1"
  have e: "edges' = fold (\<lambda>(v, e). save_forward_edge graph v e) (graph_edges graph) (replicate ?n EdgeBasedEdge_default)"
    unfolding res(3) graphToEdges_def fold_pairs ..
  have lt: "\<forall>v e. (v, e) \<in> set (graph_edges graph) \<longrightarrow> ed_turn_id (dg_data graph e) < ?n"
    using turn_id_le by (metis Suc_eq_plus1 le_imp_less_Suc)
  note sp = save_edges_spec [OF represents_turn_ids [OF esort i(5,6) res(1,2)] lt, folded e, unfolded saved_in_def]
  have mx: "max_turn_id graph = fold (\<lambda>x m. max m (ed_turn_id (dg_data graph (snd x)))) (graph_edges graph) 0"
    unfolding max_turn_id_def fold_pairs by (simp add: case_prod_beta')
  have fold: "fold (\<lambda>x m. max m (ed_turn_id (dg_data graph (snd x)))) xs m \<le> T"
    if "\<forall>x \<in> set xs. ed_turn_id (dg_data graph (snd x)) \<le> T" "m \<le> T" for xs :: "(nat \<times> nat) list" and m
    using that by (induction xs arbitrary: m) simp_all
  have "\<forall>x \<in> set (graph_edges graph). ed_turn_id (dg_data graph (snd x)) \<le> T"
  proof
    fix x assume "x \<in> set (graph_edges graph)"
    then show "ed_turn_id (dg_data graph (snd x)) \<le> T" by (rule data [of "fst x" "snd x", unfolded prod.collapse, THEN conjunct1])
  qed
  then have "max_turn_id graph \<le> T" unfolding mx by (rule fold) simp
  moreover have "length edges' = ?n" using sp by blast
  ultimately show "length edges' \<le> T + 1" by simp
  assume "e \<in> set edges'"
  then consider "e = EdgeBasedEdge_default" | v k where "(v, k) \<in> set (graph_edges graph)" "e = saved_edge graph v k" using sp by blast
  then show "ed_weight (eb_data e) \<le> W"
  proof cases
    case 1
    then show ?thesis using W by (simp add: EdgeBasedEdge_default_def)
  next
    case 2
    have "ed_weight (eb_data (saved_edge graph v k)) = ed_weight (dg_data graph k)" by (simp add: saved_edge_def)
    then show ?thesis unfolding 2(2) using data [OF 2(1)] by simp
  qed
qed

lemma small_customizer_input:
  assumes esort: "sort_ok esort" and inp: "partitioner_input n sizes edges files"
    and r: "partitioner_result n (length sizes) esort edges files (files', mlp, cells, edges') p graph"
    and bound: "\<forall>(a, b, d) \<in> set (tidied esort edges). ed_turn_id d \<le> T \<and> ed_weight d \<le> W"
    and small: "1 \<le> W" "int n * W < INVALID_EDGE_WEIGHT" "2 * (T + 1) < 256" "n * (length sizes + 1) < 2 ^ 32" "n * n < 2 ^ 32"
  shows "customizer_input n mlp cells esort edges'"
  unfolding customizer_input_def
proof (intro conjI allI impI)
  have W0: "0 \<le> W" using small(1) by simp
  note b = saved_bounds [OF esort inp r bound W0] and c = built_cell [OF partitioner_cells(3) [OF r]]
  have "packed mlp n (length sizes)" using r by (simp add: partitioner_result_def)
  then show "n * GetNumberOfLevels mlp < 2 ^ 32" using packedD(1) small(4) by simp
  have l: "2 * length edges' < 256" using le_less_trans [OF mult_le_mono2 [OF b(1)] small(3)] .
  then show "2 * length edges' < SPECIAL_EDGEID" by (simp add: SPECIAL_EDGEID_def)
  show "\<exists>W. 1 \<le> W \<and> int n * W < INVALID_EDGE_WEIGHT \<and>
      (\<forall>e \<in> set edges'. ed_weight (eb_data e) \<noteq> INVALID_EDGE_WEIGHT \<longrightarrow> ed_weight (eb_data e) \<le> W)"
    using b(2) small(1,2) by blast
  fix v
  have "length (filter (\<lambda>(a, b, d). a = v) (tidied esort edges')) \<le> length (tidied esort edges')" by (rule length_filter_le)
  also have "\<dots> \<le> 2 * length edges'" by (rule length_tidied [OF esort])
  finally show "length (filter (\<lambda>(a, b, d). a = v) (prepareEdgesForUsageInGraph triple esort (splitBidirectionalEdges edges'))) < 256"
    using l unfolding tidied_def by linarith
next
  note c = built_cell [OF partitioner_cells(3) [OF r]]
  fix l cell assume lc: "1 \<le> l" "l < GetNumberOfLevels mlp" "cell < GetNumberOfCells mlp l"
  have "length (level_sources mlp (base_graph_of_dynamic graph) l cell) \<le> n" "length (level_destinations mlp (base_graph_of_dynamic graph) l cell) \<le> n"
    using partitioner_cells(2) [OF r] length_filter_le [of _ "[0..<n]"] unfolding level_sources_def level_destinations_def by auto
  then show "length (GetSourceNodes cells (cs_GetCell cells l cell)) * length (GetDestinationNodes cells (cs_GetCell cells l cell)) < 2 ^ 32"
    unfolding c(1,2) [OF lc] using mult_le_mono small(5) by (meson le_less_trans)
qed

definition example_files :: "(nat, nat, nat) NodeFiles" where
  "example_files = \<lparr>nf_mapping = [\<lparr>nbg_u = 0, nbg_v = 1, forward_ebg_node = 0, backward_ebg_node = 1\<rparr>], nf_segments = [],
     nf_node_data = [7, 8], nf_node_weights = [5, 5], nf_node_durations = [2, 2], nf_node_distances = [1, 1],
     nf_maneuver_overrides = [], nf_node_sequences = [1, 0]\<rparr>"

definition example_junk_edge :: "EdgeData DynamicEdge" where
  "example_junk_edge = \<lparr>de_target = 0, de_data = eb_data EdgeBasedEdge_default\<rparr>"

lemma example_partitioner_input: "partitioner_input 2 [1] example_reader_edges example_files"
  by (simp add: partitioner_input_def valid_edges_def exclusive_flags_def own_turn_ids_def example_reader_edges_def files_ok_def
      example_files_def SPECIAL_NODEID_def SPECIAL_EDGEID_def MAX_NUM_LEVEL_def less_Suc_eq)

lemma example_runs:
  obtains files mlp cells edges where
    "Partitioner_Run stable_partition insertion_sort insertion_sort example_junk_edge example_junk [1] [0, 1] 2 example_reader_edges
       example_files = Some (Inr (files, mlp, cells, edges))"
  using Partitioner_Run_spec [OF stable_partition_ok insertion_sort_ok insertion_sort_ok example_junk_ok example_partitioner_input,
      where junk_edge = example_junk_edge and node_ids = "[0, 1]"]
  using that by (auto simp: level_bits_example NUM_PARTITION_BITS_def split: option.splits sum.splits)

lemma example_tidied: "\<forall>(a, b, d) \<in> set (tidied insertion_sort example_reader_edges). ed_turn_id d \<le> 2 \<and> ed_weight d \<le> 9"
proof -
  have "list_all (\<lambda>(a, b, d). ed_turn_id d \<le> 2 \<and> ed_weight d \<le> 9) (tidied insertion_sort example_reader_edges)"
    unfolding tidied_def by code_simp
  then show ?thesis by (simp only: list_all_iff)
qed

lemma example_arcs: "lightest (arc_weights example_reader_edges 0 1) 5" "lightest (arc_weights example_reader_edges 1 0) 5"
  by (auto simp: lightest_def arc_weights_def example_reader_edges_def INVALID_EDGE_WEIGHT_def)


text \<open>The customiser on the partitioner's output, with one class that excludes node 1.\<close>

lemma partition_then_customize_witness:
  "case Partitioner_Run stable_partition insertion_sort insertion_sort example_junk_edge example_junk [1] [0, 1] 2 example_reader_edges
      example_files of
    Some (Inr (files, mlp, cells, edges)) \<Rightarrow> \<exists>metric written.
      Customizer_Run ref_heap_ops ArrayStorage (qh_init ref_heap_ops ArrayStorage ref_empty (ArrayStorage_init 2)) insertion_sort insertion_sort
        mlp cells 2 edges [5, 5] [2, 2] [1, 1] \<lparr>annotation_ids = [0, 1], annotation_classes = [0, 1]\<rparr> [1, 255] = Some ([metric], written) \<and>
      metric_correct mlp (LoadAndUpdateEdgeExpandedGraph insertion_sort insertion_sort mlp 2 edges) cells [True, False] metric \<and>
      (\<exists>e \<in> set (sg_range (mg_graph (cg_graph written)) 0). sg_GetTarget (mg_graph (cg_graph written)) e = 1 \<and> IsForwardEdge written e)
  | _ \<Rightarrow> False"
proof -
  let ?q = "qh_init ref_heap_ops ArrayStorage ref_empty (ArrayStorage_init 2) :: (ref_heap, nat list) CustomizerHeap"
  let ?nd = "\<lparr>annotation_ids = [0, 1], annotation_classes = [0, 1]\<rparr>"
  obtain files mlp cells edges where run: "Partitioner_Run stable_partition insertion_sort insertion_sort example_junk_edge example_junk
      [1] [0, 1] 2 example_reader_edges example_files = Some (Inr (files, mlp, cells, edges))" by (rule example_runs)
  obtain p graph where r: "partitioner_result 2 (length [1::nat]) insertion_sort example_reader_edges example_files (files, mlp, cells, edges) p graph"
    using Partitioner_Run_spec [OF stable_partition_ok insertion_sort_ok insertion_sort_ok example_junk_ok example_partitioner_input,
        where junk_edge = example_junk_edge and node_ids = "[0, 1]", unfolded run option.case sum.case] by blast
  have c: "customizer_input 2 mlp cells insertion_sort edges"
    by (rule small_customizer_input [OF insertion_sort_ok example_partitioner_input r example_tidied]) (simp_all add: INVALID_EDGE_WEIGHT_def)
  have q: "qh_inv ref_content ref_ok ArrayStorage {..<2} (\<lambda>s. length s = 2) (\<lambda>s. {..<2}) ?q"
    using ref_array.init_laws(1) [of ref_empty "ArrayStorage_init 2" 2] by (simp add: ref_ok_def ref_empty_def ArrayStorage_init_def)
  have f: "excludeFlagsToNodeFilter 2 ?nd [1, 255] = [[True, False]]" by code_simp
  note th = partition_then_customize [OF stable_partition_ok insertion_sort_ok insertion_sort_ok insertion_sort_ok example_junk_ok
      example_partitioner_input run _ c ref_array.query_heap_axioms q subset_refl, where node_weights = "[5, 5]" and node_durations = "[2, 2]"
      and node_distances = "[1, 1]" and node_data = ?nd and classes = "[1, 255]", unfolded f Let_def]
  have up: "updated edges edges" by (simp add: updated_def)
  from th [OF up] obtain metrics written where m: "Customizer_Run ref_heap_ops ArrayStorage ?q insertion_sort insertion_sort mlp cells 2 edges
      [5, 5] [2, 2] [1, 1] ?nd [1, 255] = Some (metrics, written)" "length metrics = length [[True, False]]"
    "\<forall>k < length [[True, False]]. metric_correct mlp (LoadAndUpdateEdgeExpandedGraph insertion_sort insertion_sort mlp 2 edges) cells
      ([[True, False]] ! k) (metrics ! k)"
    and arcs: "\<forall>x < 2. \<forall>y < 2.
      {ed_weight (edge_data (LoadAndUpdateEdgeExpandedGraph insertion_sort insertion_sort mlp 2 edges) e) | e.
        e \<in> set (out_edges (LoadAndUpdateEdgeExpandedGraph insertion_sort insertion_sort mlp 2 edges) x) \<and>
        edge_target (LoadAndUpdateEdgeExpandedGraph insertion_sort insertion_sort mlp 2 edges) e = y \<and>
        ed_forward (edge_data (LoadAndUpdateEdgeExpandedGraph insertion_sort insertion_sort mlp 2 edges) e)} =
          {w. x \<noteq> y \<and> lightest (arc_weights edges x y) w} \<and>
      ((\<exists>e \<in> set (sg_range (mg_graph (cg_graph written)) x).
        sg_GetTarget (mg_graph (cg_graph written)) e = y \<and> IsForwardEdge written e) \<longleftrightarrow> x \<noteq> y \<and> arc_weights edges x y \<noteq> {})"
    by (elim exE conjE) (rule that)
  obtain metric where metric: "metrics = [metric]" using m(2) by (auto simp: length_Suc_conv)
  have p: "is_perm p 2" using r by (simp add: partitioner_result_def)
  obtain u v where uv: "u < 2" "v < 2" "p ! u = 0" "p ! v = 1" using is_perm_surj [OF p, of 0] is_perm_surj [OF p, of 1] by auto
  then have "(u, v) = (0, 1) \<or> (u, v) = (1, 0)" by (auto simp: less_2_cases_iff)
  then have "arc_weights edges 0 1 \<noteq> {}"
    using partitioner_result_arcs [OF insertion_sort_ok example_partitioner_input r uv(1,2)] example_arcs uv(3,4) by auto
  then have "\<exists>e \<in> set (sg_range (mg_graph (cg_graph written)) 0). sg_GetTarget (mg_graph (cg_graph written)) e = 1 \<and> IsForwardEdge written e"
    using arcs [rule_format, of 0 1, THEN conjunct2] by simp
  moreover have "metric_correct mlp (LoadAndUpdateEdgeExpandedGraph insertion_sort insertion_sort mlp 2 edges) cells [True, False] metric"
    using m(3) metric by simp
  ultimately show ?thesis using m(1) metric unfolding run option.case sum.case prod.case by blast
qed

end
