(* ===== verification/Spec2Isabelle.thy ===== *)
theory Spec2Isabelle
  imports QueryHeap Permutation DynamicGraph ContractorSearch NodeContraction GraphContractor RequestParser
    MultiLevelPartition BisectionToPartition BisectionGraph DinicMaxFlow CellStorage RecursiveBisection ComponentPartition MultiLevelGraph Customization
    Pipeline
begin

text \<open>
  The routing backend behind the distance estimation is a modified OSRM, the directory
  \<^verbatim>\<open>src/custom-osrm\<close>; file names below are relative to it.  Preprocessing builds two data
  structures from a road graph: a contraction hierarchy (\<^verbatim>\<open>src/contractor\<close>) and a multi-level
  partition with a customised metric (\<^verbatim>\<open>src/partitioner\<close>, \<^verbatim>\<open>include/partitioner\<close>,
  \<^verbatim>\<open>include/customizer\<close>).  A server answers HTTP requests from them (\<^verbatim>\<open>src/server\<close>).  The
  development models these parts bottom up, one theory per component; the definitions have the
  names of the code.

  \<^bold>\<open>Shared.\<close>  \<open>OSRM_Prelude\<close>: id types and sentinels of \<^verbatim>\<open>include/util/typedefs.hpp\<close>, slices of
  a vector, sorted edge lists, running minima.  \<open>Permutation\<close>: \<^verbatim>\<open>include/util/permutation.hpp\<close>.
  \<open>QueryHeap\<close>: \<^verbatim>\<open>include/util/query_heap.hpp\<close>, an addressable priority queue, over two
  interfaces (locales): the heap container of boost, whose documented contract a sorted reference
  heap is shown to meet, and the index storage, interpreted on the storages of the code.

  \<^bold>\<open>Contraction hierarchy.\<close>  \<open>DynamicGraph\<close>: the mutable adjacency array,
  \<^verbatim>\<open>include/util/dynamic_graph.hpp\<close>.  \<open>ContractorSearch\<close>: the witness search.
  \<open>NodeContraction\<close>: \<^verbatim>\<open>ContractNode\<close>.  \<open>GraphContractor\<close>: the rest of
  \<^verbatim>\<open>src/contractor/graph_contractor.cpp\<close>, which contracts rounds of independent nodes and
  renumbers what is left.

  \<^bold>\<open>Multi-level partition.\<close>  The bisection graph (\<open>BisectionGraph\<close>) is cut recursively:
  \<open>ComponentPartition\<close> groups its nodes by the components that \<open>TarjanSCC\<close> finds, then
  \<open>RecursiveBisection\<close> runs tasks, each of which asks \<open>InertialFlow\<close> for the best of several
  minimal cuts (\<open>DinicMaxFlow\<close>) and lets \<open>BisectionState\<close> split the node array and set a bit of
  the bisection ids.  \<open>BisectionToPartition\<close> turns the ids into nested partitions,
  \<open>UnconnectedNodes\<close> moves nodes that a cell cuts off from all their neighbours
  (\<^verbatim>\<open>include/partitioner/remove_unconnected.hpp\<close>), \<open>PartitionRenumber\<close> numbers the nodes anew, those
  on borders first (\<^verbatim>\<open>src/partitioner/renumber.cpp\<close>), \<open>MultiLevelPartition\<close> packs the partitions
  into one word per node, and \<open>CellStorage\<close> lists the boundary nodes of every cell and lays out the
  matrix of its clique arcs.  \<open>EdgeBasedGraphReader\<close> makes the edge-based graph of the edges that are
  read, and edges of the graph again (\<^verbatim>\<open>include/partitioner/edge_based_graph_reader.hpp\<close>).

  \<^bold>\<open>Customisation.\<close>  \<open>StaticGraph\<close> is the immutable adjacency array
  (\<^verbatim>\<open>include/util/static_graph.hpp\<close>), \<open>EdgeBasedEdge\<close> its edge data, and \<open>MultiLevelGraph\<close> sorts the
  edges of every node by the highest level on which they cross cells
  (\<^verbatim>\<open>include/partitioner/multi_level_graph.hpp\<close>).  \<open>CellCustomizer\<close> fills the metric level by
  level (\<^verbatim>\<open>include/customizer/cell_customizer.hpp\<close>) with searches on a \<open>QueryHeap\<close>.
  \<open>LabelSearch\<close> is the abstract search that each of them refines: a map from nodes to labels,
  without the heap.  \<open>Customization\<close> relates the search on a level to the paths inside a cell and
  proves all levels correct by induction.

  \<^bold>\<open>The tools.\<close>  \<open>Pipeline\<close> composes the components the way the two programs do,
  \<^verbatim>\<open>Partitioner::Run\<close> after the bisection and \<^verbatim>\<open>Customizer::Run\<close>.  The files they read are
  arguments, those they write are results, so that what the first returns can be given to the
  second; the weights that the updater changes in between are arbitrary.

  \<^bold>\<open>Server.\<close>  \<open>RequestParser\<close>: the state machine of \<^verbatim>\<open>src/server/request_parser.cpp\<close>.

  \<^bold>\<open>What is shown.\<close>  For each data structure, an abstraction (a finite map for the heap, a
  multiset of edges per node for the dynamic graph, the list of original nodes and neighbours for
  a bisection view) with a lemma per operation that says what it does to the abstraction and that
  the invariant is kept.  For each algorithm, what it computes: shortest hop-limited paths for
  the witness search, the shortcuts it must add for a contraction, a minimal cut for the flow, the
  strongly connected components, the
  partition into leaves for the bisection, equality of packed cells with equality of the given
  cells on every level, the boundary lists and disjoint matrix rows for the storage, the
  least costs of the paths inside every cell for the customisation, a round trip for printed requests.  For the
  tools, that they return and that their results fit: the customiser, run on what the
  partitioner wrote, stores least costs over the updated edges.  The root theory composes the
  conversion of ids with the packed partition.

  \<^bold>\<open>Numbers.\<close>  Ids and counters are natural numbers, weights and durations integers, doubles and
  floats reals.  Words are used where the code works on bits: bisection ids (32 bits), packed
  cells (64 bits).  Where an unsigned operation may wrap, the wrap is written out with \<open>mod\<close>.
  A signed overflow and the rounding of floating-point numbers are not modelled.

  \<^bold>\<open>Loops.\<close>  A loop whose end depends on the data is a partial function with result type
  \<open>option\<close>: the cycles of a permutation, the witness search, the flow's breadth-first and
  depth-first search and its phases, the search of components, the levels of a partition, the task loop, the search of the
  customisation.  For each of them a
  theorem states that it returns; no fuel is used.

  \<^bold>\<open>Parameters.\<close>  What the standard library, boost and TBB leave open is an argument of the
  definitions, with its documented effect as a named hypothesis: the heap container, the
  comparison of header names, \<^verbatim>\<open>std::partition\<close>, \<^verbatim>\<open>std::nth_element\<close>, the order in which a hash
  set is iterated, the order in which parallel rounds and tasks finish, and the content of
  uninitialised memory.  A parallel loop whose iterations are independent is the sequential one.

  \<^bold>\<open>Not modelled.\<close>  Files and serialisation, the variants of the containers that view shared
  memory, logging and timing; the extractor, the engine with its query algorithms and plugins,
  guidance, the updater (its edges are an argument), the storage, the rest of the server and the bindings; generated code and
  third-party code.
\<close>

section \<open>From bisection ids to the packed partition\<close>

text \<open>
  Property C9. From the bisection to the packed partition.  For a non-empty bisection of less
  than \<open>2 ^ 32\<close> nodes and at most 14 levels, building the packed partition from
  \<^verbatim>\<open>bisectionToPartition\<close> fails only when the cell numbers need more than 64 bits; otherwise
  two nodes have the same packed cell on a level exactly when the conversion put them together,
  nodes that share a cell share one on all higher levels, nodes with equal bisection ids share
  all their cells, and \<^verbatim>\<open>GetNumberOfCells\<close> returns the number of cells of the conversion.
\<close>

theorem bisection_to_packed_cells:
  assumes "std_partition part" "junk_ok junk" "ids \<noteq> []" "length ids < 2 ^ 32"
    and "max_cell_sizes \<noteq> []" "length max_cell_sizes < MAX_NUM_LEVEL - 1"
    and "bisectionToPartition part ids max_cell_sizes = (parts, num)"
  shows "case MultiLevelPartition_init junk parts num of
      Inl e \<Rightarrow> sum_list (map level_bits num) > NUM_PARTITION_BITS
    | Inr mlp \<Rightarrow> (\<forall>l u v. 1 \<le> l \<longrightarrow> l \<le> length max_cell_sizes \<longrightarrow> u < length ids \<longrightarrow> v < length ids \<longrightarrow>
        (GetCell mlp l u = GetCell mlp l v \<longleftrightarrow> parts ! (l - 1) ! u = parts ! (l - 1) ! v) \<and>
        (l < length max_cell_sizes \<longrightarrow> GetCell mlp l u = GetCell mlp l v \<longrightarrow> GetCell mlp (l + 1) u = GetCell mlp (l + 1) v) \<and>
        (ids ! u = ids ! v \<longrightarrow> GetCell mlp l u = GetCell mlp l v) \<and>
        GetNumberOfCells mlp l = num ! (l - 1))"
proof -
  note b = bisection_parts_ok [OF assms(1,3,4,5,7)] and s = bisectionToPartition_spec [OF assms(1,3,7)]
  note m = MakeLevelData_spec [OF assms(2) b(3)]
  have len: "length num < MAX_NUM_LEVEL - 1" using assms(6) b(2) by simp
  show ?thesis
  proof (cases "MakeLevelData junk num")
    case (Inl e)
    then show ?thesis using m [OF len] by (simp add: MultiLevelPartition_init_def bits_before_def)
  next
    case (Inr ld)
    let ?start = "\<lparr>level_data = ld, partition = [], cell_to_children = []\<rparr>"
    let ?m = "InitializePartitionIDs parts ?start"
    have "layout_ok num (level_data ?start)" using m [OF len] Inr by simp
    note c = init_cells_spec [OF this b(1)]
    have init: "MultiLevelPartition_init junk parts num = Inr ?m" using Inr by (simp add: MultiLevelPartition_init_def)
    have nest: "parts ! (l - 1) ! u = parts ! (l - 1) ! v \<Longrightarrow> parts ! l ! u = parts ! l ! v"
      if "1 \<le> l" "l < length max_cell_sizes" "u < length ids" "v < length ids" for l u v
      using s(3) [unfolded nested_parts_def, rule_format, of "l - 1" l u v] s(1) that by simp
    have eq: "parts ! k ! u = parts ! k ! v"
      if "k < length max_cell_sizes" "u < length ids" "v < length ids" "ids ! u = ids ! v" for k u v
      using s(4) [OF that(1)] that(2-4) unfolding level_result_def by blast
    show ?thesis
      unfolding init sum.case
    proof (intro allI impI)
      fix l u v
      assume l: "1 \<le> l" "l \<le> length max_cell_sizes" and uv: "u < length ids" "v < length ids"
      have lk: "l - 1 < length max_cell_sizes" using l by simp
      note cl = c [OF l(1) _ uv, unfolded b(2), OF l(2)]
      have "GetCell ?m (l + 1) u = GetCell ?m (l + 1) v"
        if "l < length max_cell_sizes" "GetCell ?m l u = GetCell ?m l v"
        using c [of "l + 1", OF _ _ uv] nest [OF l(1) that(1) uv] cl that b(2) by simp
      moreover have "GetCell ?m l u = GetCell ?m l v" if "ids ! u = ids ! v"
        using cl eq [OF lk uv that] by blast
      ultimately show "(GetCell ?m l u = GetCell ?m l v \<longleftrightarrow> parts ! (l - 1) ! u = parts ! (l - 1) ! v) \<and>
        (l < length max_cell_sizes \<longrightarrow> GetCell ?m l u = GetCell ?m l v \<longrightarrow> GetCell ?m (l + 1) u = GetCell ?m (l + 1) v) \<and>
        (ids ! u = ids ! v \<longrightarrow> GetCell ?m l u = GetCell ?m l v) \<and>
        GetNumberOfCells ?m l = num ! (l - 1)"
        using cl b(4) [OF lk] by simp
    qed
  qed
qed

lemma bisection_to_packed_cells_witness:
  "case MultiLevelPartition_init example_junk (fst (bisectionToPartition stable_partition [1, 0, 1, 3] [1, 2]))
      (snd (bisectionToPartition stable_partition [1, 0, 1, 3] [1, 2])) of
      Inl e \<Rightarrow> sum_list (map level_bits (snd (bisectionToPartition stable_partition [1, 0, 1, 3] [1, 2]))) > 64
    | Inr mlp \<Rightarrow> GetCell mlp 1 0 = GetCell mlp 1 2"
proof -
  obtain parts num where r: "bisectionToPartition stable_partition [1, 0, 1, 3] [1, 2] = (parts, num)" by fastforce
  have "case MultiLevelPartition_init example_junk parts num of
      Inl e \<Rightarrow> sum_list (map level_bits num) > 64
    | Inr mlp \<Rightarrow> GetCell mlp 1 0 = GetCell mlp 1 2"
  proof (cases "MultiLevelPartition_init example_junk parts num")
    case (Inl e)
    then show ?thesis
      using bisection_to_packed_cells [OF stable_partition_ok example_junk_ok _ _ _ _ r]
      by (simp add: MAX_NUM_LEVEL_def NUM_PARTITION_BITS_def)
  next
    case (Inr mlp)
    show ?thesis
      using bisection_to_packed_cells [OF stable_partition_ok example_junk_ok _ _ _ _ r, unfolded Inr sum.case,
          rule_format, where l = 1 and u = 0 and v = 2]
      by (simp add: Inr MAX_NUM_LEVEL_def)
  qed
  then show ?thesis by (simp only: r fst_conv snd_conv)
qed

end
